(* ===== verification/Prelude.thy ===== *)
theory Prelude
  imports Main "HOL-Library.Word"
begin

unbundle bit_operations_syntax

text \<open>
  Shared vocabulary of the development: the machine integer types, the result type in which
  a kernel routine may return, panic, block or fault, the linear scan that the C loops over
  fixed tables perform, little-endian byte encodings, and the generic lemmas on lists and
  words that the component theories use.
\<close>

section \<open>Machine integers\<close>

type_synonym u8 = "8 word"
type_synonym u16 = "16 word"
type_synonym u32 = "32 word"
type_synonym u64 = "64 word"

section \<open>Results of kernel routines\<close>

text \<open>
  A routine returns (\<open>Ok\<close>), calls \<open>panic\<close> with a message (\<open>Panic\<close>), goes to sleep on a
  channel with nobody in the same sequential run to wake it (\<open>Blocked\<close>), or does something
  that C leaves undefined, such as a null dereference or an overflow of a signed integer (\<open>Fault\<close>).
\<close>

datatype 'a res = Ok 'a | Panic string | Blocked string | Fault string

primrec rbind :: "'a res \<Rightarrow> ('a \<Rightarrow> 'b res) \<Rightarrow> 'b res" where
  "rbind (Ok x) f = f x"
| "rbind (Panic m) f = Panic m"
| "rbind (Blocked m) f = Blocked m"
| "rbind (Fault m) f = Fault m"

definition rguard :: "bool \<Rightarrow> string \<Rightarrow> unit res" where
  "rguard b msg = (if b then Ok () else Panic msg)"

text \<open>The value of an \<^verbatim>\<open>int\<close> expression.\<close>

definition cint :: "int \<Rightarrow> int res" where
  "cint x = (if - (2 ^ 31) \<le> x \<and> x < 2 ^ 31 then Ok x else Fault ''signed overflow'')"

section \<open>Scanning a table\<close>

text \<open>
  The C idiom \<^verbatim>\<open>for(i = 0; i < N; i++) if(P(a[i])) return i;\<close>: the first index that
  satisfies the test.
\<close>

fun find_index :: "('a \<Rightarrow> bool) \<Rightarrow> 'a list \<Rightarrow> nat option" where
  "find_index P [] = None"
| "find_index P (x # xs) = (if P x then Some 0 else map_option Suc (find_index P xs))"

text \<open>A loop over a table that treats each entry on its own, with its index.\<close>

definition map_index :: "(nat \<Rightarrow> 'a \<Rightarrow> 'b) \<Rightarrow> 'a list \<Rightarrow> 'b list" where
  "map_index f xs = map2 f [0..<length xs] xs"

section \<open>Byte encodings\<close>

text \<open>The bytes of a stored integer, least significant first, as RISC-V lays them out.\<close>

definition le_byte :: "'a::len word \<Rightarrow> nat \<Rightarrow> u8" where
  "le_byte w i = ucast (drop_bit (8 * i) w)"

definition le_bytes :: "nat \<Rightarrow> 'a::len word \<Rightarrow> u8 list" where
  "le_bytes n w = map (le_byte w) [0..<n]"

primrec le_word :: "nat \<Rightarrow> (nat \<Rightarrow> u8) \<Rightarrow> 'a::len word" where
  "le_word 0 f = 0"
| "le_word (Suc n) f = le_word n f OR push_bit (8 * n) (ucast (f n))"

definition overwrite :: "nat \<Rightarrow> 'a list \<Rightarrow> 'a list \<Rightarrow> 'a list" where
  "overwrite off ys xs = take off xs @ ys @ drop (off + length ys) xs"

definition slice_list :: "nat \<Rightarrow> nat \<Rightarrow> 'a list \<Rightarrow> 'a list" where
  "slice_list off n xs = take n (drop off xs)"

section \<open>Lemmas\<close>

named_theorems res_simps
named_theorems word_rules

subsection \<open>The result type\<close>

lemma rbind_cong [fundef_cong]:
  "x = y \<Longrightarrow> (\<And>v. y = Ok v \<Longrightarrow> f v = g v) \<Longrightarrow> rbind x f = rbind y g"
  by (cases y) auto

lemma rbind_eq_Ok [res_simps]: "rbind m f = Ok y \<longleftrightarrow> (\<exists>x. m = Ok x \<and> f x = Ok y)"
  by (cases m) auto

lemma rbind_eq_Panic: "rbind m f = Panic e \<longleftrightarrow> m = Panic e \<or> (\<exists>x. m = Ok x \<and> f x = Panic e)"
  by (cases m) auto

lemma rbind_assoc: "rbind (rbind m f) g = rbind m (\<lambda>x. rbind (f x) g)"
  by (cases m) auto

lemma rbind_Ok_right [simp]: "rbind m Ok = m"
  by (cases m) auto

lemma rguard_eq_Ok [res_simps]: "rguard b msg = Ok x \<longleftrightarrow> b"
  by (simp add: rguard_def)

lemma rguard_simps [simp]: "rguard True msg = Ok ()" "rguard False msg = Panic msg"
  by (simp_all add: rguard_def)

lemma cint_eq_Ok [res_simps]: "cint x = Ok y \<longleftrightarrow> y = x \<and> - (2 ^ 31) \<le> x \<and> x < 2 ^ 31"
  by (auto simp: cint_def)

subsection \<open>Scans\<close>

lemma length_map_index [simp]: "length (map_index f xs) = length xs"
  by (simp add: map_index_def)

lemma nth_map_index [simp]: "i < length xs \<Longrightarrow> map_index f xs ! i = f i (xs ! i)"
  by (simp add: map_index_def)

lemma find_index_None: "find_index P xs = None \<longleftrightarrow> (\<forall>x \<in> set xs. \<not> P x)"
  by (induction xs) auto

lemma find_index_Some:
  "find_index P xs = Some i \<longleftrightarrow> i < length xs \<and> P (xs ! i) \<and> (\<forall>j < i. \<not> P (xs ! j))"
proof (induction xs arbitrary: i)
  case Nil
  show ?case by simp
next
  case (Cons x xs)
  show ?case
  proof (cases i)
    case 0
    then show ?thesis by (auto simp: Cons.IH)
  next
    case (Suc k)
    then show ?thesis by (auto simp: Cons.IH nth_Cons less_Suc_eq_0_disj split: nat.splits)
  qed
qed

lemma find_index_less: "find_index P xs = Some i \<Longrightarrow> i < length xs"
  by (simp add: find_index_Some)

lemma find_index_sat: "find_index P xs = Some i \<Longrightarrow> P (xs ! i)"
  by (simp add: find_index_Some)

subsection \<open>Overwriting part of a buffer\<close>

lemma length_overwrite [simp]:
  "off + length ys \<le> length xs \<Longrightarrow> length (overwrite off ys xs) = length xs"
  by (simp add: overwrite_def)

lemma overwrite_nth:
  "off + length ys \<le> length xs \<Longrightarrow> i < length xs \<Longrightarrow>
   overwrite off ys xs ! i =
     (if off \<le> i \<and> i < off + length ys then ys ! (i - off) else xs ! i)"
  by (auto simp: overwrite_def nth_append min_def)

lemma slice_overwrite_same:
  "off + length ys \<le> length xs \<Longrightarrow> slice_list off (length ys) (overwrite off ys xs) = ys"
  by (simp add: slice_list_def overwrite_def)

lemma slice_overwrite_disjoint:
  assumes "off + length ys \<le> length xs" and "o2 + n \<le> off \<or> off + length ys \<le> o2"
    and "o2 + n \<le> length xs"
  shows "slice_list o2 n (overwrite off ys xs) = slice_list o2 n xs"
proof (rule nth_equalityI)
  show "length (slice_list o2 n (overwrite off ys xs)) = length (slice_list o2 n xs)"
    using assms by (simp add: slice_list_def)
next
  fix i
  assume "i < length (slice_list o2 n (overwrite off ys xs))"
  then have i: "i < n" by (simp add: slice_list_def)
  have "overwrite off ys xs ! (o2 + i) = xs ! (o2 + i)"
    using assms i by (subst overwrite_nth) auto
  then show "slice_list o2 n (overwrite off ys xs) ! i = slice_list o2 n xs ! i"
    using assms i by (simp add: slice_list_def)
qed

lemma length_slice_list [simp]: "off + n \<le> length xs \<Longrightarrow> length (slice_list off n xs) = n"
  by (simp add: slice_list_def)

subsection \<open>Byte encodings\<close>

lemma length_le_bytes [simp]: "length (le_bytes n w) = n"
  by (simp add: le_bytes_def)

lemma nth_le_bytes [simp]: "i < n \<Longrightarrow> le_bytes n w ! i = le_byte w i"
  by (simp add: le_bytes_def)

lemma bit_le_byte: "bit (le_byte w i) k \<longleftrightarrow> k < 8 \<and> bit w (8 * i + k)"
  by (auto simp: le_byte_def bit_ucast_iff bit_drop_bit_eq)

lemma bit_le_word:
  "bit (le_word n f :: 'a::len word) k \<longleftrightarrow>
     k < LENGTH('a) \<and> k < 8 * n \<and> bit (f (k div 8)) (k mod 8)"
proof (induction n)
  case 0
  show ?case by simp
next
  case (Suc n)
  have "bit (push_bit (8 * n) (ucast (f n) :: 'a word)) k \<longleftrightarrow>
      k < LENGTH('a) \<and> 8 * n \<le> k \<and> k < 8 * n + 8 \<and> bit (f n) (k - 8 * n)"
    by (auto simp: bit_push_bit_iff bit_ucast_iff dest: bit_imp_le_length)
  moreover have "k div 8 = n \<and> k mod 8 = k - 8 * n" if "8 * n \<le> k" "k < 8 * n + 8"
  proof -
    from that have "k div 8 = n" by (intro div_nat_eqI) auto
    then show ?thesis by (simp add: minus_mult_div_eq_mod [symmetric])
  qed
  ultimately show ?case
    by (cases "k < 8 * n") (auto simp: Suc.IH bit_or_iff)
qed

lemma le_word_le_byte:
  "LENGTH('a) = 8 * n \<Longrightarrow> le_word n (le_byte w) = (w :: 'a::len word)"
  by (rule bit_word_eqI) (auto simp: bit_le_word bit_le_byte)

lemma le_word_cong: "(\<And>i. i < n \<Longrightarrow> f i = g i) \<Longrightarrow> le_word n f = le_word n g"
  by (induction n) auto

subsection \<open>Signed reading of small words\<close>

lemma sint_of_nat_int:
  assumes "n < 2 ^ 31"
  shows "sint (of_nat n :: u32) = int n"
  using assms by (simp add: signed_of_nat signed_take_bit_int_eq_self)

end
