(* ===== verification/Memory.thy ===== *)
theory Memory
  imports Prelude
begin

text \<open>
  Physical memory as a store of bytes indexed by 64-bit addresses, the 8-byte loads and stores
  through which the kernel reads and writes page-table entries and free-list links, and the
  routines of \<^verbatim>\<open>kernel/string.c\<close>. Routines that only read through a pointer take the bytes
  behind it as a function of the offset, so that they apply to physical memory and to the
  byte arrays of the file system alike.
\<close>

type_synonym mem = "u64 \<Rightarrow> u8"
type_synonym bytes = "nat \<Rightarrow> u8"

section \<open>Definitions\<close>

definition load64 :: "mem \<Rightarrow> u64 \<Rightarrow> u64" where
  "load64 m a = le_word 8 (\<lambda>i. m (a + of_nat i))"

definition store64 :: "mem \<Rightarrow> u64 \<Rightarrow> u64 \<Rightarrow> mem" where
  "store64 m a v = (\<lambda>x. if unat (x - a) < 8 then le_byte v (unat (x - a)) else m x)"

definition aligned :: "nat \<Rightarrow> u64 \<Rightarrow> bool" where
  "aligned n a \<longleftrightarrow> n dvd unat a"

definition in_range :: "u64 \<Rightarrow> nat \<Rightarrow> u64 \<Rightarrow> bool" where
  "in_range a n x \<longleftrightarrow> unat (x - a) < n"

text \<open>\<^verbatim>\<open>memset\<close> and the two loops of \<^verbatim>\<open>memmove\<close>.\<close>

primrec memset :: "nat \<Rightarrow> mem \<Rightarrow> u64 \<Rightarrow> u8 \<Rightarrow> mem" where
  "memset 0 m dst c = m"
| "memset (Suc n) m dst c = memset n (m(dst := c)) (dst + 1) c"

primrec copy_up :: "nat \<Rightarrow> mem \<Rightarrow> u64 \<Rightarrow> u64 \<Rightarrow> mem" where
  "copy_up 0 m d s = m"
| "copy_up (Suc n) m d s = copy_up n (m(d := m s)) (d + 1) (s + 1)"

primrec copy_down :: "nat \<Rightarrow> mem \<Rightarrow> u64 \<Rightarrow> u64 \<Rightarrow> mem" where
  "copy_down 0 m d s = m"
| "copy_down (Suc n) m d s = copy_down n (m(d - 1 := m (s - 1))) (d - 1) (s - 1)"

definition memmove :: "mem \<Rightarrow> u64 \<Rightarrow> u64 \<Rightarrow> nat \<Rightarrow> mem" where
  "memmove m dst src n =
     (if n = 0 then m
      else if src < dst \<and> src + of_nat n > dst
      then copy_down n m (dst + of_nat n) (src + of_nat n)
      else copy_up n m dst src)"

definition memcpy :: "mem \<Rightarrow> u64 \<Rightarrow> u64 \<Rightarrow> nat \<Rightarrow> mem" where
  "memcpy m dst src n = memmove m dst src n"

primrec memcmp_from :: "nat \<Rightarrow> nat \<Rightarrow> bytes \<Rightarrow> bytes \<Rightarrow> int" where
  "memcmp_from 0 i s1 s2 = 0"
| "memcmp_from (Suc n) i s1 s2 =
     (if s1 i \<noteq> s2 i then uint (s1 i) - uint (s2 i) else memcmp_from n (Suc i) s1 s2)"

definition memcmp :: "bytes \<Rightarrow> bytes \<Rightarrow> nat \<Rightarrow> int" where
  "memcmp v1 v2 n = memcmp_from n 0 v1 v2"

primrec strncmp_from :: "nat \<Rightarrow> nat \<Rightarrow> bytes \<Rightarrow> bytes \<Rightarrow> int" where
  "strncmp_from 0 i p q = 0"
| "strncmp_from (Suc n) i p q =
     (if p i \<noteq> 0 \<and> p i = q i then strncmp_from n (Suc i) p q
      else uint (p i) - uint (q i))"

definition strncmp :: "bytes \<Rightarrow> bytes \<Rightarrow> nat \<Rightarrow> int" where
  "strncmp p q n = strncmp_from n 0 p q"

text \<open>
  The loops of \<^verbatim>\<open>strncpy\<close>: copy up to and including the first zero byte, then fill with zeroes.
  \<open>i\<close> is how far both pointers have moved, the first argument is how much of \<open>n\<close> is left.
\<close>

primrec zero_fill :: "nat \<Rightarrow> nat \<Rightarrow> bytes \<Rightarrow> bytes" where
  "zero_fill 0 i s = s"
| "zero_fill (Suc n) i s = zero_fill n (Suc i) (s(i := 0))"

primrec strncpy_from :: "nat \<Rightarrow> nat \<Rightarrow> bytes \<Rightarrow> bytes \<Rightarrow> bytes" where
  "strncpy_from 0 i s t = s"
| "strncpy_from (Suc n) i s t =
     (let s' = s(i := t i) in
      if t i \<noteq> 0 then strncpy_from n (Suc i) s' t else zero_fill n (Suc i) s')"

definition strncpy :: "bytes \<Rightarrow> bytes \<Rightarrow> nat \<Rightarrow> bytes" where
  "strncpy s t n = strncpy_from n 0 s t"

text \<open>\<^verbatim>\<open>safestrcpy\<close>: at most \<open>n - 1\<close> bytes, then a terminating zero.\<close>

primrec safestrcpy_from :: "nat \<Rightarrow> nat \<Rightarrow> bytes \<Rightarrow> bytes \<Rightarrow> bytes" where
  "safestrcpy_from 0 i s t = s(i := 0)"
| "safestrcpy_from (Suc n) i s t =
     (let s' = s(i := t i) in
      if t i \<noteq> 0 then safestrcpy_from n (Suc i) s' t else s'(Suc i := 0))"

definition safestrcpy :: "bytes \<Rightarrow> bytes \<Rightarrow> int \<Rightarrow> bytes" where
  "safestrcpy s t n = (if n \<le> 0 then s else safestrcpy_from (nat n - 1) 0 s t)"

partial_function (option) strlen_from :: "nat \<Rightarrow> bytes \<Rightarrow> nat option" where
  "strlen_from n s = (if s n = 0 then Some n else strlen_from (Suc n) s)"

definition strlen :: "bytes \<Rightarrow> nat option" where
  "strlen s = strlen_from 0 s"

text \<open>The bytes behind a pointer into physical memory.\<close>

definition at :: "mem \<Rightarrow> u64 \<Rightarrow> bytes" where
  "at m a = (\<lambda>i. m (a + of_nat i))"

section \<open>Loads and stores\<close>

lemma unat_of_nat_64 [simp]: "n < 2 ^ 64 \<Longrightarrow> unat (of_nat n :: u64) = n"
  by (simp add: unat_of_nat)

lemma load64_store64_same [simp]: "load64 (store64 m a v) a = v"
proof -
  have "load64 (store64 m a v) a = le_word 8 (le_byte v)"
    unfolding load64_def by (rule le_word_cong) (simp add: store64_def)
  then show ?thesis by (simp add: le_word_le_byte)
qed

lemma aligned_8_separate:
  assumes "aligned 8 a" "aligned 8 b" "a \<noteq> b" "i < 8"
  shows "\<not> unat (b + of_nat i - a) < 8"
proof -
  have d: "8 dvd unat (b - a)"
  proof (cases "a \<le> b")
    case True
    then show ?thesis using assms by (simp add: aligned_def unat_sub)
  next
    case False
    then have "unat (b - a) = unat b + 2 ^ 64 - unat a"
      by (auto simp: unat_sub_if' word_le_nat_alt)
    moreover have "8 dvd unat b + 2 ^ 64 - unat a"
      using assms by (intro dvd_diff_nat) (auto simp: aligned_def)
    ultimately show ?thesis by simp
  qed
  have "unat (b - a) \<noteq> 0" using assms by (simp add: unat_eq_0)
  then obtain k where k: "unat (b - a) = 8 * k" "0 < k" using d by auto
  moreover have "unat (b - a) < 2 ^ 64" using unsigned_less [of "b - a"] by simp
  ultimately have "8 * k + i < 2 ^ 64" using \<open>i < 8\<close> by auto
  then have "unat ((b - a) + of_nat i) = 8 * k + i"
    using k \<open>i < 8\<close> by (subst unat_add_lem [THEN iffD1]) auto
  moreover have "b + of_nat i - a = (b - a) + of_nat i" by simp
  ultimately have "unat (b + of_nat i - a) = 8 * k + i" by (simp only:)
  then show ?thesis using k by simp
qed

lemma load64_store64_other [simp]:
  "aligned 8 a \<Longrightarrow> aligned 8 b \<Longrightarrow> a \<noteq> b \<Longrightarrow> load64 (store64 m a v) b = load64 m b"
  unfolding load64_def by (rule le_word_cong) (simp add: store64_def aligned_8_separate)

lemma store64_outside: "\<not> in_range a 8 x \<Longrightarrow> store64 m a v x = m x"
  by (simp add: store64_def in_range_def)

lemma load64_cong: "(\<And>i. i < 8 \<Longrightarrow> m (a + of_nat i) = m' (a + of_nat i)) \<Longrightarrow> load64 m a = load64 m' a"
  unfolding load64_def by (rule le_word_cong)

section \<open>Block operations\<close>

lemma unat_diff_Suc:
  fixes x d :: u64
  assumes "x \<noteq> d"
  shows "unat (x - d) = Suc (unat (x - (d + 1)))"
proof -
  have "unat (x - d - 1) = unat (x - d) - 1" using assms by (intro unat_minus_one) simp
  moreover have "x - d - 1 = x - (d + 1)" by simp
  moreover have "0 < unat (x - d)" using assms by (simp add: unat_gt_0)
  ultimately show ?thesis by (metis Suc_diff_1)
qed

lemma unat_minus_one_64: "unat (-1 :: u64) = 2 ^ 64 - 1"
  by (simp add: unsigned_minus_1_eq_mask mask_eq_exp_minus_1)

lemma range_Suc:
  fixes x d :: u64
  assumes "n < 2 ^ 64"
  shows "unat (x - d) < Suc n \<longleftrightarrow> x = d \<or> unat (x - (d + 1)) < n"
proof (cases "x = d")
  case True
  then show ?thesis by simp
next
  case False
  then show ?thesis by (simp add: unat_diff_Suc)
qed

lemma memset_apply:
  "n \<le> 2 ^ 64 \<Longrightarrow> memset n m d c x = (if unat (x - d) < n then c else m x)"
proof (induction n arbitrary: m d)
  case 0
  show ?case by simp
next
  case (Suc n)
  then show ?case
    using range_Suc [of n x d] unat_minus_one_64 by auto
qed

lemma copy_up_apply:
  "n \<le> 2 ^ 64 \<Longrightarrow> (\<And>j. 0 < j \<Longrightarrow> j < n \<Longrightarrow> s + of_nat j \<noteq> d) \<Longrightarrow>
   copy_up n m d s x = (if unat (x - d) < n then m (s + (x - d)) else m x)"
proof (induction n arbitrary: m d s)
  case 0
  show ?case by simp
next
  case (Suc n)
  have IH: "copy_up n (m(d := m s)) (d + 1) (s + 1) x =
      (if unat (x - (d + 1)) < n then (m(d := m s)) (s + 1 + (x - (d + 1)))
       else (m(d := m s)) x)"
  proof (rule Suc.IH)
    fix j
    assume "0 < j" "j < n"
    then show "s + 1 + of_nat j \<noteq> d + 1" using Suc.prems(2) [of j] by (auto simp: algebra_simps)
  qed (use Suc.prems in simp)
  have eq: "s + 1 + (x - (d + 1)) = s + (x - d)" by simp
  show ?case
  proof (cases "x = d")
    case True
    have "\<not> unat (x - (d + 1)) < n" using True Suc.prems(1) unat_minus_one_64 by auto
    with IH have "copy_up (Suc n) m d s x = (m(d := m s)) x" by simp
    with True show ?thesis by simp
  next
    case False
    have "s + (x - d) \<noteq> d" if "unat (x - d) < Suc n"
    proof -
      have "0 < unat (x - d)" using False by (simp add: unat_gt_0)
      then show ?thesis using Suc.prems(2) [of "unat (x - d)"] that by simp
    qed
    then show ?thesis
      using False range_Suc [of n x d] Suc.prems(1) by (simp only: copy_up.simps IH eq) auto
  qed
qed

lemma copy_down_apply:
  "n \<le> 2 ^ 64 \<Longrightarrow> (\<And>j. 0 < j \<Longrightarrow> j < n \<Longrightarrow> d + of_nat j \<noteq> s) \<Longrightarrow>
   copy_down n m (d + of_nat n) (s + of_nat n) x =
     (if unat (x - d) < n then m (s + (x - d)) else m x)"
proof (induction n arbitrary: m)
  case 0
  show ?case by simp
next
  case (Suc n)
  let ?D = "d + of_nat n" and ?S = "s + of_nat n"
  have IH: "copy_down n (m(?D := m ?S)) ?D ?S x =
      (if unat (x - d) < n then (m(?D := m ?S)) (s + (x - d)) else (m(?D := m ?S)) x)"
    by (rule Suc.IH) (use Suc.prems in auto)
  have step: "copy_down (Suc n) m (d + of_nat (Suc n)) (s + of_nat (Suc n)) x =
      copy_down n (m(?D := m ?S)) ?D ?S x"
    by (simp add: algebra_simps)
  have n: "unat (of_nat n :: u64) = n" using Suc.prems(1) by simp
  show ?case
  proof (cases "unat (x - d) < n")
    case True
    have "s + (x - d) \<noteq> ?D"
    proof
      assume "s + (x - d) = ?D"
      then have "d + of_nat (n - unat (x - d)) = s"
        using True by (simp add: of_nat_diff algebra_simps)
      moreover have "0 < n - unat (x - d)" "n - unat (x - d) < Suc n" using True by simp_all
      ultimately show False using Suc.prems(2) by blast
    qed
    then show ?thesis using True by (simp only: step IH) simp
  next
    case False
    show ?thesis
    proof (cases "x = ?D")
      case True
      have "copy_down (Suc n) m (d + of_nat (Suc n)) (s + of_nat (Suc n)) x = (m(?D := m ?S)) x"
        using False by (simp only: step IH) simp
      then show ?thesis using True n by simp
    next
      case D: False
      have "unat (x - d) \<noteq> n"
      proof
        assume "unat (x - d) = n"
        then have "x - d = of_nat n" by (metis of_nat_unat ucast_id)
        then show False using D by (simp add: algebra_simps)
      qed
      then show ?thesis using False D by (simp only: step IH) simp
    qed
  qed
qed

lemma add_unat_less:
  fixes a b :: u64
  shows "unat a + n \<le> 2 ^ 64 \<Longrightarrow> j < n \<Longrightarrow> unat (a + of_nat j) = unat a + j"
  by (subst unat_add_lem [THEN iffD1]) auto

lemma memmove_apply:
  assumes "unat dst + n \<le> 2 ^ 64" "unat src + n \<le> 2 ^ 64"
  shows "memmove m dst src n x = (if unat (x - dst) < n then m (src + (x - dst)) else m x)"
proof (cases "n = 0")
  case True
  then show ?thesis by (simp add: memmove_def)
next
  case n: False
  have le: "n \<le> 2 ^ 64" using assms(1) by simp
  show ?thesis
  proof (cases "src < dst \<and> src + of_nat n > dst")
    case True
    have "dst + of_nat j \<noteq> src" if "0 < j" "j < n" for j
      using True add_unat_less [OF assms(1) that(2)] by (auto simp: word_less_nat_alt)
    then show ?thesis using n True le by (simp add: memmove_def copy_down_apply)
  next
    case False
    have "src + of_nat j \<noteq> dst" if "0 < j" "j < n" for j
    proof
      assume eq: "src + of_nat j = dst"
      have j: "unat dst = unat src + j"
        using add_unat_less [OF assms(2) that(2)] eq by simp
      then have "unat src + n < 2 ^ 64" using assms(1) \<open>0 < j\<close> by simp
      then have "unat (src + of_nat n) = unat src + n"
        using add_unat_less [of src "Suc n" n] by simp
      with False j that show False by (simp add: word_less_nat_alt)
    qed
    moreover have "memmove m dst src n = copy_up n m dst src"
      using n False by (auto simp: memmove_def)
    ultimately show ?thesis using le by (simp add: copy_up_apply)
  qed
qed

section \<open>Strings\<close>

lemma memcmp_from_0:
  "memcmp_from n i s1 s2 = 0 \<longleftrightarrow> (\<forall>j < n. s1 (i + j) = s2 (i + j))"
proof (induction n arbitrary: i)
  case 0
  show ?case by simp
next
  case (Suc n)
  show ?case by (auto simp: Suc.IH less_Suc_eq_0_disj word_uint_eq_iff)
qed

lemma strncmp_from_0:
  "strncmp_from n i p q = 0 \<longleftrightarrow>
     (\<forall>j < n. (\<forall>k < j. p (i + k) \<noteq> 0) \<longrightarrow> p (i + j) = q (i + j))"
proof (induction n arbitrary: i)
  case 0
  show ?case by simp
next
  case (Suc n)
  have "strncmp_from (Suc n) i p q = 0 \<longleftrightarrow>
      p i = q i \<and> (p i \<noteq> 0 \<longrightarrow> strncmp_from n (Suc i) p q = 0)"
    by (auto simp: word_uint_eq_iff)
  then show ?case unfolding Suc.IH All_less_Suc2 by auto
qed

text \<open>Comparison up to \<open>n\<close> bytes is equality of the strings cut at the first zero.\<close>

definition cut_string :: "nat \<Rightarrow> bytes \<Rightarrow> u8 list" where
  "cut_string n p = takeWhile (\<lambda>c. c \<noteq> 0) (map p [0..<n])"

lemma strncmp_from_cut:
  "strncmp_from n i p q = 0 \<longleftrightarrow> takeWhile (\<lambda>c. c \<noteq> 0) (map p [i..<i + n]) = takeWhile (\<lambda>c. c \<noteq> 0) (map q [i..<i + n])"
proof (induction n arbitrary: i)
  case (Suc n)
  have u: "[i..<i + Suc n] = i # [Suc i..<Suc i + n]" by (simp add: upt_rec)
  show ?case unfolding u using Suc.IH [of "Suc i"] by (auto simp: word_uint_eq_iff)
qed simp

lemma strncmp_cut: "strncmp p q n = 0 \<longleftrightarrow> cut_string n p = cut_string n q"
  by (simp add: strncmp_def strncmp_from_cut cut_string_def)

lemma zero_fill_apply:
  "zero_fill n i s x = (if i \<le> x \<and> x < i + n then 0 else s x)"
  by (induction n arbitrary: i s) auto

lemma strncpy_from_apply:
  "strncpy_from n i s t x =
     (if x < i \<or> i + n \<le> x then s x
      else if \<forall>k. i \<le> k \<and> k < x \<longrightarrow> t k \<noteq> 0 then t x else 0)"
proof (induction n arbitrary: i s)
  case 0
  show ?case by auto
next
  case (Suc n)
  have split: "(\<forall>k. i \<le> k \<and> k < x \<longrightarrow> t k \<noteq> 0) \<longleftrightarrow>
      (i < x \<longrightarrow> t i \<noteq> 0) \<and> (\<forall>k. Suc i \<le> k \<and> k < x \<longrightarrow> t k \<noteq> 0)"
    using Suc_le_eq le_eq_less_or_eq by blast
  consider "x < i \<or> i + Suc n \<le> x" | "x = i" | "i < x" "x < i + Suc n" by linarith
  then show ?case
  proof cases
    case 1
    then show ?thesis by (auto simp: Suc.IH zero_fill_apply Let_def)
  next
    case 2
    have "strncpy_from n (Suc i) (s(i := t i)) t x = t i"
      by (subst Suc.IH) (simp add: 2)
    then show ?thesis using 2 by (simp add: zero_fill_apply Let_def)
  next
    case 3
    then show ?thesis
      by (simp add: Suc.IH zero_fill_apply split Let_def) blast
  qed
qed

lemma safestrcpy_from_terminates:
  "\<exists>k \<le> i + n. i \<le> k \<and> safestrcpy_from n i s t k = 0 \<and>
     (\<forall>j. i \<le> j \<and> j < k \<longrightarrow> safestrcpy_from n i s t j = t j \<and> t j \<noteq> 0)"
proof (induction n arbitrary: i s)
  case 0
  show ?case by (intro exI [of _ i]) auto
next
  case (Suc n)
  have frame: "safestrcpy_from n i s t x = s x" if "x < i" for n i s x
    using that by (induction n arbitrary: i s) (auto simp: Let_def)
  show ?case
  proof (cases "t i = 0")
    case True
    then show ?thesis by (intro exI [of _ i]) (auto simp: Let_def)
  next
    case False
    obtain k where k: "k \<le> Suc i + n" "Suc i \<le> k"
      "safestrcpy_from n (Suc i) (s(i := t i)) t k = 0"
      "\<forall>j. Suc i \<le> j \<and> j < k \<longrightarrow> safestrcpy_from n (Suc i) (s(i := t i)) t j = t j \<and> t j \<noteq> 0"
      using Suc.IH [of "Suc i" "s(i := t i)"] by blast
    have "safestrcpy_from (Suc n) i s t j = t j \<and> t j \<noteq> 0" if "i \<le> j" "j < k" for j
      using that k(4) False frame [of i "Suc i"] by (cases "j = i") (auto simp: Let_def)
    then show ?thesis using k False by (intro exI [of _ k]) (auto simp: Let_def)
  qed
qed

lemma strlen_from_Some:
  "(\<forall>j. i \<le> j \<and> j < k \<longrightarrow> s j \<noteq> 0) \<Longrightarrow> i \<le> k \<Longrightarrow> s k = 0 \<Longrightarrow> strlen_from i s = Some k"
proof (induction "k - i" arbitrary: i)
  case 0
  then show ?case by (subst strlen_from.simps) simp
next
  case (Suc d)
  then have "s i \<noteq> 0" "strlen_from (Suc i) s = Some k" by auto
  then show ?case by (subst strlen_from.simps) simp
qed

section \<open>Properties\<close>

text \<open>
  C21. \<^verbatim>\<open>memmove\<close> copies correctly whichever way its two ranges overlap: every byte of the
  destination range gets the byte the source range held before the call, and no other byte of
  memory changes.
\<close>

theorem memmove_overlap:
  assumes "unat dst + n \<le> 2 ^ 64" "unat src + n \<le> 2 ^ 64"
  shows "(\<forall>i < n. memmove m dst src n (dst + of_nat i) = m (src + of_nat i)) \<and>
         (\<forall>x. \<not> in_range dst n x \<longrightarrow> memmove m dst src n x = m x)"
proof -
  have "i < 2 ^ 64" if "i < n" for i using that assms by simp
  then show ?thesis using memmove_apply [OF assms] by (simp add: in_range_def)
qed

theorem memmove_overlap_witness:
  "memmove ((\<lambda>_. 0)(0x1005 := 5, 0x1003 := 3)) 0x1004 0x1000 8 0x1009 = 5 \<and>
   memmove ((\<lambda>_. 0)(0x1005 := 5, 0x1003 := 3)) 0x1004 0x1000 8 0x1003 = 3"
proof -
  let ?m = "(\<lambda>_ :: u64. 0 :: u8)(0x1005 := 5, 0x1003 := 3)"
  have "unat (0x1004 :: u64) + 8 \<le> 2 ^ 64" "unat (0x1000 :: u64) + 8 \<le> 2 ^ 64" by simp_all
  note overlap = memmove_overlap [OF this, of ?m]
  have "memmove ?m 0x1004 0x1000 8 0x1009 = ?m 0x1005"
    using overlap [THEN conjunct1, rule_format, of 5] by simp
  moreover have "memmove ?m 0x1004 0x1000 8 0x1003 = ?m 0x1003"
    using overlap [THEN conjunct2, rule_format, of "0x1003"]
    by (simp add: in_range_def unat_minus_one_64)
  ultimately show ?thesis by simp
qed

text \<open>
  A name written with \<^verbatim>\<open>strncpy\<close> compares equal, by \<^verbatim>\<open>strncmp\<close> over the same width, to the
  name it was copied from; the directory code relies on this for its fixed-width names.
\<close>

lemma strncmp_strncpy: "strncmp (strncpy s t n) t n = 0"
proof -
  have "strncpy s t n j = t j" if "j < n" "\<forall>k < j. strncpy s t n k \<noteq> 0" for j
  proof -
    have "\<forall>k < j. t k \<noteq> 0"
    proof (intro allI impI)
      fix k assume "k < j"
      then show "t k \<noteq> 0"
        using that by (induction k rule: less_induct) (fastforce simp: strncpy_def strncpy_from_apply)
    qed
    then show ?thesis using that(1) by (simp add: strncpy_def strncpy_from_apply)
  qed
  then show ?thesis unfolding strncmp_def strncmp_from_0 by (simp only: add_0) blast
qed

lemma strncmp_strncpy_right: "strncmp p (strncpy s t n) n = 0 \<longleftrightarrow> strncmp p t n = 0"
proof -
  let ?c = "strncpy s t n"
  have c: "?c j = (if \<forall>k < j. t k \<noteq> 0 then t j else 0)" if "j < n" for j using that by (simp add: strncpy_def strncpy_from_apply)
  have eq: "?c j = t j" if "j < n" "\<And>k. k < j \<Longrightarrow> ?c k \<noteq> 0 \<or> t k \<noteq> 0" for j
  proof -
    have "t k \<noteq> 0" if "k < j" for k using c [of k] \<open>j < n\<close> that \<open>k < j \<Longrightarrow> ?c k \<noteq> 0 \<or> t k \<noteq> 0\<close> by (auto split: if_splits)
    then show ?thesis using c [OF \<open>j < n\<close>] by simp
  qed
  have "(\<forall>j < n. (\<forall>k < j. p k \<noteq> 0) \<longrightarrow> p j = ?c j) \<longleftrightarrow> (\<forall>j < n. (\<forall>k < j. p k \<noteq> 0) \<longrightarrow> p j = t j)" (is "?L \<longleftrightarrow> ?R")
  proof
    assume L: ?L
    have "p j = t j" if j: "j < n" "\<forall>k < j. p k \<noteq> 0" for j
    proof -
      have "?c k \<noteq> 0" if "k < j" for k using L [rule_format, of k] j that by auto
      then show ?thesis using eq [OF j(1)] L j by simp
    qed
    then show ?R by blast
  next
    assume R: ?R
    have "p j = ?c j" if j: "j < n" "\<forall>k < j. p k \<noteq> 0" for j
    proof -
      have "t k \<noteq> 0" if "k < j" for k using R [rule_format, of k] j that by auto
      then show ?thesis using eq [OF j(1)] R j by simp
    qed
    then show ?L by blast
  qed
  then show ?thesis unfolding strncmp_def strncmp_from_0 by (simp only: add_0)
qed

text \<open>
  \<^verbatim>\<open>safestrcpy\<close> with a positive size always leaves a string that ends inside the buffer, is a
  prefix of the source, and on which \<^verbatim>\<open>strlen\<close> returns.
\<close>

lemma safestrcpy_terminates:
  assumes "0 < n"
  shows "\<exists>k. strlen (safestrcpy s t n) = Some k \<and> int k < n \<and>
    (\<forall>j < k. safestrcpy s t n j = t j \<and> t j \<noteq> 0)"
proof -
  obtain k where k: "k \<le> nat n - 1" "safestrcpy s t n k = 0"
    "\<forall>j < k. safestrcpy s t n j = t j \<and> t j \<noteq> 0"
    using safestrcpy_from_terminates [of 0 "nat n - 1" s t] assms by (auto simp: safestrcpy_def)
  then have "strlen (safestrcpy s t n) = Some k"
    unfolding strlen_def by (intro strlen_from_Some) auto
  then show ?thesis using k assms by auto
qed

end
