(* ===== verification/Riscv.thy ===== *)
theory Riscv
  imports Memory
begin

text \<open>
  The constants and macros of \<^verbatim>\<open>kernel/riscv.h\<close> and \<^verbatim>\<open>kernel/memlayout.h\<close> that the memory code
  is written with: page rounding, page-table entries and their permission bits, the split
  of a virtual address into table indices, and the address-space layout.
\<close>

section \<open>Definitions\<close>

definition PGSIZE :: u64 where "PGSIZE = 4096"

definition PGROUNDUP :: "u64 \<Rightarrow> u64" where
  "PGROUNDUP sz = (sz + PGSIZE - 1) AND NOT (PGSIZE - 1)"

definition PGROUNDDOWN :: "u64 \<Rightarrow> u64" where
  "PGROUNDDOWN a = a AND NOT (PGSIZE - 1)"

definition PTE_V :: u64 where "PTE_V = push_bit 0 1"

definition PTE_R :: u64 where "PTE_R = push_bit 1 1"

definition PTE_W :: u64 where "PTE_W = push_bit 2 1"

definition PTE_X :: u64 where "PTE_X = push_bit 3 1"

definition PTE_U :: u64 where "PTE_U = push_bit 4 1"

definition PTE_COW :: u64 where "PTE_COW = push_bit 9 1"

definition PA2PTE :: "u64 \<Rightarrow> u64" where
  "PA2PTE pa = push_bit 10 (drop_bit 12 pa)"

definition PTE2PA :: "u64 \<Rightarrow> u64" where
  "PTE2PA pte = push_bit 12 (drop_bit 10 pte)"

definition PTE_FLAGS :: "u64 \<Rightarrow> u64" where
  "PTE_FLAGS pte = pte AND 0x3FF"

definition PXSHIFT :: "nat \<Rightarrow> nat" where
  "PXSHIFT level = 12 + 9 * level"

definition PX :: "nat \<Rightarrow> u64 \<Rightarrow> u64" where
  "PX level va = drop_bit (PXSHIFT level) va AND 0x1FF"

definition MAXVA :: u64 where
  "MAXVA = push_bit (9 + 9 + 9 + 12 - 1) 1"

definition UART0 :: u64 where "UART0 = 0x10000000"

definition VIRTIO0 :: u64 where "VIRTIO0 = 0x10001000"

definition PLIC :: u64 where "PLIC = 0x0c000000"

definition KERNBASE :: u64 where "KERNBASE = 0x80000000"

definition PHYSTOP :: u64 where "PHYSTOP = KERNBASE + 128 * 1024 * 1024"

definition TRAMPOLINE :: u64 where "TRAMPOLINE = MAXVA - PGSIZE"

definition KSTACK :: "u64 \<Rightarrow> u64" where
  "KSTACK p = TRAMPOLINE - (p + 1) * 2 * PGSIZE"

definition TRAPFRAME :: u64 where "TRAPFRAME = TRAMPOLINE - PGSIZE"

section \<open>Page rounding\<close>

lemmas layout_defs = PGSIZE_def KERNBASE_def PHYSTOP_def TRAMPOLINE_def TRAPFRAME_def MAXVA_def

lemmas pte_bit_defs = PTE_V_def PTE_R_def PTE_W_def PTE_X_def PTE_U_def PTE_COW_def

lemma MAXVA_val: "MAXVA = 2 ^ 38"
  by (simp add: MAXVA_def push_bit_eq_mult)

lemma PGSIZE_mask: "PGSIZE - 1 = mask 12"
  by (simp add: PGSIZE_def mask_eq_exp_minus_1)

lemma and_not_mask: "x AND NOT (mask n) = push_bit n (drop_bit n (x :: 'a::len word))"
  by (rule bit_word_eqI) (auto simp: bit_simps dest: bit_imp_le_length)

lemma unat_PGROUNDDOWN: "unat (PGROUNDDOWN a) = unat a div 4096 * 4096"
proof -
  have "unat (PGROUNDDOWN a) = unat (push_bit 12 (drop_bit 12 a))"
    by (simp add: PGROUNDDOWN_def PGSIZE_mask and_not_mask)
  also have "\<dots> = (unat a div 4096 * 4096) mod 2 ^ 64"
    by (simp add: push_bit_eq_mult unat_word_ariths drop_bit_eq_div unat_div
        mod_mult_right_eq mult.commute)
  also have "\<dots> = unat a div 4096 * 4096"
  proof -
    have "unat a div 4096 * 4096 \<le> unat a" by simp
    also have "\<dots> < 2 ^ 64" using unsigned_less [of a, where ?'a = nat] by simp
    finally show ?thesis by simp
  qed
  finally show ?thesis .
qed

lemma aligned_PGROUNDDOWN [simp]: "aligned 4096 (PGROUNDDOWN a)"
  by (simp add: aligned_def unat_PGROUNDDOWN)

lemma PGROUNDDOWN_le: "PGROUNDDOWN a \<le> a"
  by (simp add: word_le_nat_alt unat_PGROUNDDOWN)

lemma PGROUNDDOWN_id: "aligned 4096 a \<Longrightarrow> PGROUNDDOWN a = a"
  by (simp add: word_unat_eq_iff unat_PGROUNDDOWN aligned_def)

lemma aligned_4096_add:
  "aligned 4096 p \<Longrightarrow> k < 4096 \<Longrightarrow> unat (p + of_nat k) = unat p + k"
proof -
  assume p: "aligned 4096 p" and k: "k < 4096"
  have "unat p < 2 ^ 64" using unsigned_less [of p, where ?'a = nat] by simp
  with p k have "unat p + k < 2 ^ 64" by (auto simp: aligned_def)
  then show ?thesis using k by (subst unat_add_lem [THEN iffD1]) auto
qed

lemma PGROUNDDOWN_page:
  assumes "aligned 4096 p" "k < 4096"
  shows "PGROUNDDOWN (p + of_nat k) = p"
proof -
  have "(unat p + k) div 4096 * 4096 = unat p"
    using assms by (auto simp: aligned_def)
  then show ?thesis
    using assms by (simp add: word_unat_eq_iff unat_PGROUNDDOWN aligned_4096_add)
qed

lemma in_page_iff:
  assumes "aligned 4096 p"
  shows "in_range p 4096 x \<longleftrightarrow> PGROUNDDOWN x = p"
proof
  assume "in_range p 4096 x"
  then have "PGROUNDDOWN (p + of_nat (unat (x - p))) = p"
    using assms by (intro PGROUNDDOWN_page) (simp_all add: in_range_def)
  then show "PGROUNDDOWN x = p" by simp
next
  assume eq: "PGROUNDDOWN x = p"
  then have "unat (x - p) = unat x - unat p"
    using PGROUNDDOWN_le [of x] by (auto simp: unat_sub)
  also have "\<dots> = unat x mod 4096"
    using eq unat_PGROUNDDOWN [of x] by (simp add: minus_div_mult_eq_mod [symmetric])
  also have "\<dots> < 4096" by simp
  finally show "in_range p 4096 x" by (simp add: in_range_def)
qed

lemma in_page_add: "aligned 4096 p \<Longrightarrow> k < 4096 \<Longrightarrow> in_range p 4096 (p + of_nat k)"
  by (simp add: in_page_iff PGROUNDDOWN_page)

lemma page_disjoint:
  "aligned 4096 p \<Longrightarrow> aligned 4096 q \<Longrightarrow> p \<noteq> q \<Longrightarrow> in_range p 4096 x \<Longrightarrow> \<not> in_range q 4096 x"
  by (simp add: in_page_iff)

lemma aligned_8_page: "aligned 4096 a \<Longrightarrow> aligned 8 a"
  unfolding aligned_def by (rule dvd_trans [of 8 4096]) simp_all

section \<open>Page-table entries\<close>

lemma bit_push_one: "n < 64 \<Longrightarrow> bit (push_bit n (1 :: u64)) i \<longleftrightarrow> i = n"
  by (auto simp: bit_exp_iff)

lemma bit_pte_bits:
  "bit PTE_V i \<longleftrightarrow> i = 0" "bit PTE_R i \<longleftrightarrow> i = 1" "bit PTE_W i \<longleftrightarrow> i = 2"
  "bit PTE_X i \<longleftrightarrow> i = 3" "bit PTE_U i \<longleftrightarrow> i = 4" "bit PTE_COW i \<longleftrightarrow> i = 9"
  unfolding pte_bit_defs by (rule bit_push_one; simp)+

lemma and_bit_eq_0: "w AND push_bit n 1 = 0 \<longleftrightarrow> \<not> bit w n" for w :: "'a::len word"
proof
  assume "w AND push_bit n 1 = 0"
  then have "\<not> bit (w AND push_bit n 1) n" by simp
  then show "\<not> bit w n" by (auto simp: bit_simps dest: bit_imp_le_length)
next
  assume "\<not> bit w n"
  then show "w AND push_bit n 1 = 0" by (intro bit_word_eqI) (auto simp: bit_simps)
qed

lemma PTE_V_test [simp]: "w AND PTE_V = 0 \<longleftrightarrow> \<not> bit w 0"
  unfolding PTE_V_def by (rule and_bit_eq_0)

lemma PTE_U_test [simp]: "w AND PTE_U = 0 \<longleftrightarrow> \<not> bit w 4"
  unfolding PTE_U_def by (rule and_bit_eq_0)

lemma PTE_W_test [simp]: "w AND PTE_W = 0 \<longleftrightarrow> \<not> bit w 2"
  unfolding PTE_W_def by (rule and_bit_eq_0)

lemma PTE_COW_test [simp]: "w AND PTE_COW = 0 \<longleftrightarrow> \<not> bit w 9"
  unfolding PTE_COW_def by (rule and_bit_eq_0)

lemma aligned_bits: "aligned 4096 pa \<Longrightarrow> k < 12 \<Longrightarrow> \<not> bit pa k"
proof
  assume "aligned 4096 pa" "k < 12" "bit pa k"
  then have "PGROUNDDOWN pa = pa" by (simp add: PGROUNDDOWN_id)
  then have "bit (PGROUNDDOWN pa) k" using \<open>bit pa k\<close> by simp
  then show False using \<open>k < 12\<close>
    by (simp add: PGROUNDDOWN_def PGSIZE_mask and_not_mask bit_simps)
qed

lemma small_bits: "unat w < 2 ^ n \<Longrightarrow> n \<le> k \<Longrightarrow> \<not> bit w k" for w :: u64
proof -
  assume "unat w < 2 ^ n" "n \<le> k"
  then have "unat w < 2 ^ k" by (meson order_less_le_trans one_le_numeral power_increasing)
  then have "\<not> bit (unat w) k" by (simp add: bit_iff_odd)
  then show ?thesis by (auto simp: bit_unsigned_iff dest: bit_imp_le_length)
qed

lemma bit_PA2PTE: "bit (PA2PTE pa) k \<longleftrightarrow> 10 \<le> k \<and> k < 64 \<and> bit pa (k + 2)"
  by (auto simp: PA2PTE_def bit_simps dest: bit_imp_le_length)

lemma bit_PTE2PA: "bit (PTE2PA pte) k \<longleftrightarrow> 12 \<le> k \<and> k < 64 \<and> bit pte (k - 2)"
  by (auto simp: PTE2PA_def bit_simps dest: bit_imp_le_length)

lemma aligned_PTE2PA [simp]: "aligned 4096 (PTE2PA pte)"
proof -
  have "PGROUNDDOWN (PTE2PA pte) = PTE2PA pte"
    by (rule bit_word_eqI)
      (auto simp: PGROUNDDOWN_def PGSIZE_mask and_not_mask bit_simps bit_PTE2PA dest: bit_imp_le_length)
  then show ?thesis using aligned_PGROUNDDOWN by metis
qed

text \<open>An entry built from a page address and permission bits gives both back.\<close>

lemma PTE2PA_PA2PTE:
  assumes "aligned 4096 pa" "unat perm < 2 ^ 10"
  shows "PTE2PA (PA2PTE pa OR perm) = pa"
proof (rule bit_word_eqI)
  fix k assume "k < LENGTH(64)"
  show "bit (PTE2PA (PA2PTE pa OR perm)) k \<longleftrightarrow> bit pa k"
  proof (cases "k < 12")
    case True
    then show ?thesis using aligned_bits [OF assms(1)] by (simp add: bit_PTE2PA)
  next
    case False
    then have "\<not> bit perm (k - 2)" using small_bits [OF assms(2)] by simp
    moreover obtain j where "k = j + 12" using False by (metis le_add_diff_inverse2 not_less)
    ultimately show ?thesis
      using \<open>k < LENGTH(64)\<close> by (simp add: bit_PTE2PA bit_PA2PTE bit_or_iff add.commute)
  qed
qed

lemma PTE_FLAGS_PA2PTE:
  assumes "unat perm < 2 ^ 10"
  shows "PTE_FLAGS (PA2PTE pa OR perm) = perm"
proof -
  have mask: "(0x3FF :: u64) = mask 10" by (simp add: mask_eq_exp_minus_1)
  show ?thesis
    unfolding PTE_FLAGS_def mask
    by (rule bit_word_eqI)
      (use small_bits [OF assms] in \<open>force simp: bit_simps bit_PA2PTE not_le [symmetric]\<close>)
qed

section \<open>Indices of a virtual address\<close>

lemma bit_PX: "bit (PX l va) k \<longleftrightarrow> k < 9 \<and> bit va (12 + 9 * l + k)"
proof -
  have mask: "(0x1FF :: u64) = mask 9" by (simp add: mask_eq_exp_minus_1)
  show ?thesis
    unfolding PX_def mask PXSHIFT_def
    by (auto simp: bit_simps dest: bit_imp_le_length)
qed

lemma unat_PX: "unat (PX l va) < 512"
proof -
  have "PX l va = take_bit 9 (PX l va)"
    by (rule bit_word_eqI) (auto simp: bit_simps bit_PX)
  then have "unat (PX l va) = take_bit 9 (unat (PX l va))"
    by (metis unsigned_take_bit_eq)
  also have "\<dots> < 2 ^ 9" by (rule take_bit_nat_less_exp)
  finally show ?thesis by simp
qed

lemma PX_determines_page:
  assumes "va < MAXVA" "vb < MAXVA" "\<And>l. l < 3 \<Longrightarrow> PX l va = PX l vb"
  shows "PGROUNDDOWN va = PGROUNDDOWN vb"
proof (rule bit_word_eqI)
  fix k assume k: "k < LENGTH(64)"
  have hi: "\<not> bit w k" if "w < MAXVA" "38 \<le> k" for w
    using that small_bits [of w 38 k] by (simp add: MAXVA_val word_less_nat_alt)
  have "bit va k \<longleftrightarrow> bit vb k" if "12 \<le> k"
  proof (cases "k < 39")
    case True
    have "(k - 12) div 9 < 3" "12 + 9 * ((k - 12) div 9) + (k - 12) mod 9 = k" "(k - 12) mod 9 < 9"
      using that True by simp_all
    then show ?thesis
      using assms(3) [of "(k - 12) div 9"] bit_PX [of "(k - 12) div 9" _ "(k - 12) mod 9"] by metis
  next
    case False
    then show ?thesis using hi assms(1,2) by simp
  qed
  then show "bit (PGROUNDDOWN va) k \<longleftrightarrow> bit (PGROUNDDOWN vb) k"
    by (simp add: PGROUNDDOWN_def PGSIZE_mask and_not_mask bit_simps) (use k in auto)
qed

end
