(* ===== verification/Kalloc.thy ===== *)
theory Kalloc
  imports Riscv
begin

text \<open>
  The physical page allocator of \<^verbatim>\<open>kernel/kalloc.c\<close>: a free list threaded through the free
  pages themselves, and the table \<^verbatim>\<open>memref.fr\<close> of reference counts that the copy-on-write
  fork added. \<^verbatim>\<open>kmem.lock\<close> is taken and given back inside each routine and so leaves no trace
  in the state; \<^verbatim>\<open>memref.lock\<close> is held across calls by \<^verbatim>\<open>handleCOW\<close>, so whether this CPU holds
  it is part of the state, and acquiring it twice panics as \<^verbatim>\<open>acquire\<close> does.
\<close>

section \<open>State and operations\<close>

record kstate =
  ram :: mem
  freelist :: u64
  fr :: "nat \<Rightarrow> u32"
  memref_held :: bool
  lock_kalloc :: bool
  kend :: u64

definition fn :: "u64 \<Rightarrow> nat" where
  "fn x = unat ((x - KERNBASE) div PGSIZE)"

definition memref_lock :: "kstate \<Rightarrow> kstate res" where
  "memref_lock s = (if memref_held s then Panic ''acquire'' else Ok (s\<lparr>memref_held := True\<rparr>))"

definition memref_unlock :: "kstate \<Rightarrow> kstate res" where
  "memref_unlock s = (if memref_held s then Ok (s\<lparr>memref_held := False\<rparr>) else Panic ''release'')"

definition memref_get :: "kstate \<Rightarrow> u64 \<Rightarrow> u32 res" where
  "memref_get s pa = (if fn pa \<le> fn PHYSTOP then Ok (fr s (fn pa)) else Fault ''memref.fr'')"

definition memref_set :: "kstate \<Rightarrow> u64 \<Rightarrow> u32 \<Rightarrow> kstate res" where
  "memref_set s pa fq =
     (if fn pa \<le> fn PHYSTOP then Ok (s\<lparr>fr := (fr s)(fn pa := fq)\<rparr>) else Fault ''memref.fr'')"

definition memref_lock_kalloc :: "kstate \<Rightarrow> kstate" where
  "memref_lock_kalloc s = s\<lparr>lock_kalloc := True\<rparr>"

definition memref_unlock_kalloc :: "kstate \<Rightarrow> kstate" where
  "memref_unlock_kalloc s = s\<lparr>lock_kalloc := False\<rparr>"

definition kfree :: "kstate \<Rightarrow> u64 \<Rightarrow> kstate res" where
  "kfree s pa =
     (if pa mod PGSIZE \<noteq> 0 \<or> pa < kend s \<or> pa \<ge> PHYSTOP then Panic ''kfree''
      else rbind (memref_lock s) (\<lambda>s.
        if 1 < sint (fr s (fn pa))
        then memref_unlock (s\<lparr>fr := (fr s)(fn pa := fr s (fn pa) - 1)\<rparr>)
        else rbind (memref_unlock (s\<lparr>fr := (fr s)(fn pa := 0)\<rparr>)) (\<lambda>s.
          let m = memset 4096 (ram s) pa 1 in
          Ok (s\<lparr>ram := store64 m pa (freelist s), freelist := pa\<rparr>))))"

definition kalloc :: "kstate \<Rightarrow> (u64 \<times> kstate) res" where
  "kalloc s =
     (let r = freelist s in
      if r = 0 then Ok (0, s)
      else let s1 = s\<lparr>freelist := load64 (ram s) r\<rparr> in
        rbind (if lock_kalloc s1
               then rbind (memref_lock s1) (\<lambda>s. memref_unlock (s\<lparr>fr := (fr s)(fn r := 1)\<rparr>))
               else Ok (s1\<lparr>fr := (fr s1)(fn r := 1)\<rparr>))
          (\<lambda>s. Ok (r, s\<lparr>ram := memset 4096 (ram s) r 5\<rparr>)))"

text \<open>
  The loop of \<^verbatim>\<open>freerange\<close> adds a page size until it passes the end of the range; \<open>fuel\<close> bounds
  the iterations, and \<open>Blocked\<close> is a loop that has not ended within it.
\<close>

fun freerange_loop :: "nat \<Rightarrow> kstate \<Rightarrow> u64 \<Rightarrow> u64 \<Rightarrow> kstate res" where
  "freerange_loop 0 s p pa_end = Blocked ''freerange''"
| "freerange_loop (Suc fuel) s p pa_end =
     (if p + PGSIZE \<le> pa_end
      then rbind (kfree s p) (\<lambda>s. freerange_loop fuel s (p + PGSIZE) pa_end)
      else Ok s)"

definition freerange :: "kstate \<Rightarrow> u64 \<Rightarrow> u64 \<Rightarrow> kstate res" where
  "freerange s pa_start pa_end = freerange_loop 40000 s (PGROUNDUP pa_start) pa_end"

text \<open>
  \<^verbatim>\<open>kinit\<close> clears \<^verbatim>\<open>fn(PHYSTOP) + 1\<close> bytes of the reference counts, not that many integers.
\<close>

definition clear_fr :: "nat \<Rightarrow> (nat \<Rightarrow> u32) \<Rightarrow> nat \<Rightarrow> u32" where
  "clear_fr n f = (\<lambda>i. if 4 * i + 4 \<le> n then 0
                        else if n \<le> 4 * i then f i
                        else f i AND NOT (mask (8 * (n - 4 * i))))"

definition kinit :: "kstate \<Rightarrow> kstate res" where
  "kinit s =
     rbind (freerange (s\<lparr>memref_held := False\<rparr>) (kend s) PHYSTOP) (\<lambda>s.
       Ok (s\<lparr>lock_kalloc := True, fr := clear_fr (fn PHYSTOP + 1) (fr s)\<rparr>))"

text \<open>A run of allocations, and a run of frees of one page, as their callers perform them.\<close>

primrec alloc_many :: "('s \<Rightarrow> (u64 \<times> 's) res) \<Rightarrow> nat \<Rightarrow> 's \<Rightarrow> (u64 list \<times> 's) res" where
  "alloc_many alloc 0 s = Ok ([], s)"
| "alloc_many alloc (Suc n) s =
     rbind (alloc s) (\<lambda>(p, s). rbind (alloc_many alloc n s) (\<lambda>(ps, s). Ok (p # ps, s)))"

primrec kfree_many :: "nat \<Rightarrow> kstate \<Rightarrow> u64 \<Rightarrow> kstate res" where
  "kfree_many 0 s pa = Ok s"
| "kfree_many (Suc n) s pa = rbind (kfree s pa) (\<lambda>s. kfree_many n s pa)"

section \<open>Invariant\<close>

text \<open>The pages of the free list, in order.\<close>

primrec free_list :: "mem \<Rightarrow> u64 \<Rightarrow> u64 list \<Rightarrow> bool" where
  "free_list m p [] \<longleftrightarrow> p = 0"
| "free_list m p (q # qs) \<longleftrightarrow> p = q \<and> p \<noteq> 0 \<and> free_list m (load64 m p) qs"

definition managed :: "kstate \<Rightarrow> u64 \<Rightarrow> bool" where
  "managed s p \<longleftrightarrow> aligned 4096 p \<and> kend s \<le> p \<and> p < PHYSTOP"

definition kalloc_inv :: "kstate \<Rightarrow> u64 list \<Rightarrow> bool" where
  "kalloc_inv s ps \<longleftrightarrow>
     KERNBASE \<le> kend s \<and> free_list (ram s) (freelist s) ps \<and> distinct ps \<and>
     (\<forall>p \<in> set ps. managed s p) \<and>
     (\<forall>p. managed s p \<longrightarrow> (p \<in> set ps \<longleftrightarrow> fr s (fn p) = 0))"

text \<open>
  The state in which \<^verbatim>\<open>kalloc\<close> may be called with the pages \<open>ps\<close> free: \<^verbatim>\<open>memref.lock\<close> is either
  free, or held by this CPU with \<^verbatim>\<open>memref.lock_kalloc\<close> cleared, as \<^verbatim>\<open>handleCOW\<close> does.
\<close>

definition kmem_avail :: "kstate \<Rightarrow> u64 list \<Rightarrow> bool" where
  "kmem_avail s ps \<longleftrightarrow> kalloc_inv s ps \<and> (lock_kalloc s \<longrightarrow> \<not> memref_held s)"

text \<open>Concrete states: memory at reset, and a machine with two managed pages.\<close>

definition reset_state :: kstate where
  "reset_state = \<lparr>ram = (\<lambda>_. 0), freelist = 0, fr = (\<lambda>_. 0), memref_held = False,
                  lock_kalloc = False, kend = 0x80025000\<rparr>"

definition two_pages :: kstate where
  "two_pages = \<lparr>ram = store64 (\<lambda>_. 0) 0x87fff000 0x87ffe000, freelist = 0x87fff000, fr = (\<lambda>_. 0),
                memref_held = False, lock_kalloc = True, kend = 0x87ffe000\<rparr>"

definition one_shared :: kstate where
  "one_shared = \<lparr>ram = (\<lambda>_. 0), freelist = 0x87ffe000, fr = (\<lambda>_. 0)(fn 0x87fff000 := 2),
                 memref_held = False, lock_kalloc = True, kend = 0x87ffe000\<rparr>"

section \<open>Lemmas\<close>

lemmas memref_defs = memref_lock_def memref_unlock_def memref_get_def memref_set_def

lemma aligned_mod_PGSIZE: "aligned 4096 p \<longleftrightarrow> p mod PGSIZE = 0"
  by (simp add: aligned_def PGSIZE_def word_unat_eq_iff unat_mod dvd_eq_mod_eq_0)

lemma managed_nonzero: "KERNBASE \<le> kend s \<Longrightarrow> managed s p \<Longrightarrow> p \<noteq> 0"
  by (auto simp: managed_def KERNBASE_def)

lemma managed_fn:
  assumes "KERNBASE \<le> kend s" "managed s p"
  shows "unat p = unat KERNBASE + 4096 * fn p" and "fn p < fn PHYSTOP"
proof -
  from assms have le: "KERNBASE \<le> p" and lt: "p < PHYSTOP" and al: "4096 dvd unat p"
    by (auto simp: managed_def aligned_def)
  have d: "unat (p - KERNBASE) = unat p - unat KERNBASE" using le by (simp add: unat_sub)
  have f: "fn p = (unat p - 2147483648) div 4096"
    unfolding fn_def unat_div d by (simp add: PGSIZE_def KERNBASE_def)
  have g: "2147483648 \<le> unat p" "unat p < 2147483648 + 134217728"
    using le lt by (simp_all add: word_le_nat_alt word_less_nat_alt KERNBASE_def PHYSTOP_def)
  show "unat p = unat KERNBASE + 4096 * fn p"
    using al g unfolding f KERNBASE_def by (auto elim!: dvdE)
  show "fn p < fn PHYSTOP"
    using g by (simp add: f) (simp add: fn_def PHYSTOP_def KERNBASE_def PGSIZE_def)
qed

lemma fn_inj:
  "KERNBASE \<le> kend s \<Longrightarrow> managed s p \<Longrightarrow> managed s q \<Longrightarrow> fn p = fn q \<Longrightarrow> p = q"
  using managed_fn(1) [of s p] managed_fn(1) [of s q] by (simp add: word_unat_eq_iff)

lemma free_list_frame:
  assumes "\<forall>q \<in> set ps. aligned 4096 q \<and> (\<forall>x. in_range q 4096 x \<longrightarrow> m' x = m x)"
  shows "free_list m' p ps = free_list m p ps"
  using assms
proof (induction ps arbitrary: p)
  case Nil
  show ?case by simp
next
  case (Cons q ps)
  have "load64 m' q = load64 m q"
  proof (rule load64_cong)
    fix i :: nat assume "i < 8"
    then have "in_range q 4096 (q + of_nat i)" using Cons.prems by (intro in_page_add) auto
    then show "m' (q + of_nat i) = m (q + of_nat i)" using Cons.prems by simp
  qed
  then show ?case using Cons by auto
qed

lemma kalloc_invI:
  assumes "KERNBASE \<le> kend s" "free_list (ram s) (freelist s) ps" "distinct ps"
    and "\<forall>p \<in> set ps. managed s p"
    and "\<And>p. managed s p \<Longrightarrow> (p \<in> set ps) = (fr s (fn p) = 0)"
  shows "kalloc_inv s ps"
  unfolding kalloc_inv_def using assms by blast

lemma kalloc_invD:
  assumes "kalloc_inv s ps"
  shows "KERNBASE \<le> kend s" "free_list (ram s) (freelist s) ps" "distinct ps"
    and "\<And>p. p \<in> set ps \<Longrightarrow> managed s p"
    and "\<And>p. managed s p \<Longrightarrow> (p \<in> set ps) = (fr s (fn p) = 0)"
  using assms unfolding kalloc_inv_def by blast+

lemma memset_page_other:
  "\<not> in_range p 4096 x \<Longrightarrow> memset 4096 m p c x = m x"
  by (simp add: memset_apply in_range_def)

lemma memset_page_in:
  "in_range p 4096 x \<Longrightarrow> memset 4096 m p c x = c"
  by (simp add: memset_apply in_range_def)

lemma store64_page_other:
  assumes "aligned 4096 p" "\<not> in_range p 4096 x"
  shows "store64 m p v x = m x"
proof -
  have "\<not> in_range p 8 x" using assms(2) by (auto simp: in_range_def)
  then show ?thesis by (rule store64_outside)
qed

lemma free_list_push:
  assumes "aligned 4096 pa" "pa \<noteq> 0" "pa \<notin> set ps" "\<forall>q \<in> set ps. aligned 4096 q"
    and "free_list m p ps"
  shows "free_list (store64 (memset 4096 m pa 1) pa p) pa (pa # ps)"
proof -
  have "free_list (store64 (memset 4096 m pa 1) pa p) p ps = free_list m p ps"
  proof (rule free_list_frame, intro ballI conjI allI impI)
    fix q x assume "q \<in> set ps" "in_range q 4096 x"
    then have "\<not> in_range pa 4096 x" using assms page_disjoint [of q pa x] by auto
    then show "store64 (memset 4096 m pa 1) pa p x = m x"
      by (simp add: store64_page_other [OF assms(1)] memset_page_other)
  qed (use assms in simp)
  then show ?thesis using assms by simp
qed

lemma kalloc_empty: "kalloc_inv s [] \<Longrightarrow> kalloc s = Ok (0, s)"
  by (simp add: kalloc_inv_def kalloc_def)

lemma kalloc_cons:
  assumes inv: "kalloc_inv s (p # ps)" and lk: "lock_kalloc s \<longrightarrow> \<not> memref_held s"
  defines "s' \<equiv> s\<lparr>freelist := load64 (ram s) p, fr := (fr s)(fn p := 1),
                  ram := memset 4096 (ram s) p 5\<rparr>"
  shows "kalloc s = Ok (p, s')" and "kalloc_inv s' ps"
proof -
  from inv have p: "freelist s = p" "p \<noteq> 0" "managed s p" "p \<notin> set ps" "KERNBASE \<le> kend s"
    and d: "distinct ps" "free_list (ram s) (load64 (ram s) p) ps"
    and m: "\<forall>q \<in> set ps. managed s q"
    and f: "\<And>q. managed s q \<Longrightarrow> (q \<in> set (p # ps)) = (fr s (fn q) = 0)"
    by (auto simp: kalloc_inv_def)
  show "kalloc s = Ok (p, s')"
    using p lk by (cases s) (auto simp: kalloc_def s'_def Let_def memref_lock_def memref_unlock_def)
  have "free_list (memset 4096 (ram s) p 5) (load64 (ram s) p) ps =
      free_list (ram s) (load64 (ram s) p) ps"
  proof (rule free_list_frame, intro ballI conjI allI impI)
    fix q x assume "q \<in> set ps" "in_range q 4096 x"
    then have "\<not> in_range p 4096 x"
      using p m page_disjoint [of q p x] by (auto simp: managed_def)
    then show "memset 4096 (ram s) p 5 x = ram s x" by (rule memset_page_other)
  qed (use m in \<open>auto simp: managed_def\<close>)
  then have "free_list (ram s') (freelist s') ps" using d(2) by (simp add: s'_def)
  moreover have "(q \<in> set ps) = (fr s' (fn q) = 0)" if "managed s' q" for q
  proof -
    have q: "managed s q" using that by (simp add: managed_def s'_def)
    then have "fn q = fn p \<longleftrightarrow> q = p" using p fn_inj [of s q p] by auto
    then show ?thesis using f [OF q] p(4) by (auto simp: s'_def)
  qed
  moreover have "\<forall>q \<in> set ps. managed s' q" using m by (simp add: managed_def s'_def)
  moreover have "KERNBASE \<le> kend s'" using p(5) by (simp add: s'_def)
  ultimately show "kalloc_inv s' ps" using d(1) by (intro kalloc_invI)
qed

lemma kfree_release:
  assumes inv: "kalloc_inv s ps" and pa: "managed s pa" and lk: "\<not> memref_held s"
    and one: "fr s (fn pa) = 1"
  defines "s' \<equiv> s\<lparr>fr := (fr s)(fn pa := 0),
                  ram := store64 (memset 4096 (ram s) pa 1) pa (freelist s), freelist := pa\<rparr>"
  shows "kfree s pa = Ok s'" and "kalloc_inv s' (pa # ps)"
proof -
  from inv have k: "KERNBASE \<le> kend s" "free_list (ram s) (freelist s) ps" "distinct ps"
    and m: "\<forall>q \<in> set ps. managed s q"
    and f: "\<And>q. managed s q \<Longrightarrow> (q \<in> set ps) = (fr s (fn q) = 0)"
    by (auto simp: kalloc_inv_def)
  have al: "aligned 4096 pa" using pa by (simp add: managed_def)
  have not_in: "pa \<notin> set ps" using f [OF pa] one by simp
  show "kfree s pa = Ok s'"
    using pa lk one
    by (cases s) (simp add: kfree_def s'_def managed_def aligned_mod_PGSIZE memref_lock_def
        memref_unlock_def Let_def not_less not_le)
  have "free_list (ram s') (freelist s') (pa # ps)"
    using free_list_push [OF al managed_nonzero [OF k(1) pa] not_in _ k(2)] m
    by (simp add: s'_def managed_def del: free_list.simps)
  moreover have "(q \<in> set (pa # ps)) = (fr s' (fn q) = 0)" if "managed s' q" for q
  proof -
    have q: "managed s q" using that by (simp add: managed_def s'_def)
    then have "fn q = fn pa \<longleftrightarrow> q = pa" using pa k fn_inj [of s q pa] by auto
    then show ?thesis using f [OF q] by (auto simp: s'_def)
  qed
  moreover have "\<forall>q \<in> set (pa # ps). managed s' q" using m pa by (simp add: managed_def s'_def)
  moreover have "KERNBASE \<le> kend s'" using k(1) by (simp add: s'_def)
  moreover have "distinct (pa # ps)" using k(3) not_in by simp
  ultimately show "kalloc_inv s' (pa # ps)" by (intro kalloc_invI)
qed

lemma kfree_shared:
  assumes inv: "kalloc_inv s ps" and pa: "managed s pa" and lk: "\<not> memref_held s"
    and many: "1 < sint (fr s (fn pa))"
  defines "s' \<equiv> s\<lparr>fr := (fr s)(fn pa := fr s (fn pa) - 1)\<rparr>"
  shows "kfree s pa = Ok s'" and "kalloc_inv s' ps"
proof -
  show "kfree s pa = Ok s'"
    using pa lk many
    by (cases s) (simp add: kfree_def s'_def managed_def aligned_mod_PGSIZE memref_lock_def
        memref_unlock_def not_less not_le)
  have ne: "fr s (fn pa) \<noteq> 0" "fr s (fn pa) - 1 \<noteq> 0" using many by auto
  have "(q \<in> set ps) = (fr s' (fn q) = 0)" if "managed s' q" for q
  proof -
    have q: "managed s q" using that by (simp add: managed_def s'_def)
    then have "(q \<in> set ps) = (fr s (fn q) = 0)" using inv by (simp add: kalloc_inv_def)
    then show ?thesis using ne by (auto simp: s'_def)
  qed
  moreover have "\<forall>q \<in> set ps. managed s' q"
    using kalloc_invD(4) [OF inv] by (simp add: s'_def managed_def)
  moreover have "free_list (ram s') (freelist s') ps" "distinct ps" "KERNBASE \<le> kend s'"
    using kalloc_invD(1-3) [OF inv] by (simp_all add: s'_def)
  ultimately show "kalloc_inv s' ps" by (intro kalloc_invI)
qed

section \<open>The allocator interface\<close>

text \<open>
  What a client of the allocator relies on: \<open>avail s ps\<close> says that exactly the pages \<open>ps\<close> are
  free, in the order in which they will be handed out.
\<close>

locale page_allocator =
  fixes alloc :: "'s \<Rightarrow> (u64 \<times> 's) res"
    and avail :: "'s \<Rightarrow> u64 list \<Rightarrow> bool"
  assumes alloc_none: "avail s [] \<Longrightarrow> alloc s = Ok (0, s)"
    and alloc_some: "avail s (p # ps) \<Longrightarrow> \<exists>s'. alloc s = Ok (p, s') \<and> avail s' ps"
    and avail_distinct: "avail s ps \<Longrightarrow> distinct ps"
    and avail_nonzero: "avail s ps \<Longrightarrow> 0 \<notin> set ps"
begin

lemma alloc_many_prefix:
  "avail s ps \<Longrightarrow> n \<le> length ps \<Longrightarrow>
   \<exists>s'. alloc_many alloc n s = Ok (take n ps, s') \<and> avail s' (drop n ps)"
proof (induction n arbitrary: s ps)
  case 0
  then show ?case by simp
next
  case (Suc n)
  then obtain p qs where ps: "ps = p # qs" by (cases ps) auto
  with Suc.prems obtain s1 where s1: "alloc s = Ok (p, s1)" "avail s1 qs"
    using alloc_some by blast
  with Suc.IH [of s1 qs] Suc.prems ps obtain s2 where
    "alloc_many alloc n s1 = Ok (take n qs, s2)" "avail s2 (drop n qs)" by auto
  then show ?case using s1 ps by simp
qed

lemma alloc_many_distinct:
  assumes "avail s ps" "n \<le> length ps"
  shows "\<exists>qs s'. alloc_many alloc n s = Ok (qs, s') \<and> length qs = n \<and> distinct qs \<and>
    0 \<notin> set qs \<and> set qs \<subseteq> set ps"
proof -
  obtain s' where "alloc_many alloc n s = Ok (take n ps, s')"
    using alloc_many_prefix [OF assms] by blast
  moreover have "0 \<notin> set (take n ps)"
    using avail_nonzero [OF assms(1)] by (meson in_set_takeD)
  ultimately show ?thesis
    using assms avail_distinct [OF assms(1)] set_take_subset [of n ps] by auto
qed

lemma alloc_exhausted:
  "avail s ps \<Longrightarrow> \<exists>s'. alloc_many alloc (length ps) s = Ok (ps, s') \<and> alloc s' = Ok (0, s')"
  using alloc_many_prefix [of s ps "length ps"] alloc_none by auto

end

interpretation kmem: page_allocator kalloc kmem_avail
proof unfold_locales
  fix s p ps
  assume "kmem_avail s (p # ps)"
  then show "\<exists>s'. kalloc s = Ok (p, s') \<and> kmem_avail s' ps"
    using kalloc_cons [of s p ps] by (auto simp: kmem_avail_def)
qed (auto simp: kmem_avail_def kalloc_empty dest: kalloc_invD(3,4) managed_nonzero [OF kalloc_invD(1)])

section \<open>Booting the allocator\<close>

lemma unat_PGROUNDUP:
  assumes "unat a + 4095 < 2 ^ 64"
  shows "unat (PGROUNDUP a) = (unat a + 4095) div 4096 * 4096"
proof -
  have "unat (a + 4095) = unat a + 4095"
    using assms by (subst unat_add_lem [THEN iffD1]) auto
  moreover have "PGROUNDUP a = PGROUNDDOWN (a + 4095)"
    by (simp add: PGROUNDUP_def PGROUNDDOWN_def PGSIZE_def add.commute)
  ultimately show ?thesis by (simp add: unat_PGROUNDDOWN)
qed

definition boot_inv :: "kstate \<Rightarrow> u64 list \<Rightarrow> bool" where
  "boot_inv s ps \<longleftrightarrow>
     KERNBASE \<le> kend s \<and> \<not> memref_held s \<and> fr s = (\<lambda>_. 0) \<and>
     free_list (ram s) (freelist s) ps \<and> distinct ps \<and> (\<forall>p \<in> set ps. managed s p)"

lemma kfree_boot:
  assumes "boot_inv s ps" "managed s pa" "pa \<notin> set ps"
  shows "\<exists>s'. kfree s pa = Ok s' \<and> boot_inv s' (pa # ps) \<and> kend s' = kend s"
proof -
  let ?s' = "s\<lparr>ram := store64 (memset 4096 (ram s) pa 1) pa (freelist s), freelist := pa\<rparr>"
  have al: "aligned 4096 pa" "pa \<noteq> 0" "\<forall>q \<in> set ps. aligned 4096 q"
    using assms managed_nonzero [of s pa] by (auto simp: boot_inv_def managed_def)
  have "kfree s pa = Ok ?s'"
    using assms(1,2)
    by (cases s) (simp add: kfree_def boot_inv_def managed_def aligned_mod_PGSIZE memref_lock_def
        memref_unlock_def Let_def not_less not_le fun_upd_idem)
  moreover have "free_list (ram ?s') (freelist ?s') (pa # ps)"
    using free_list_push [OF al(1,2) assms(3) al(3)] assms(1)
    by (simp add: boot_inv_def del: free_list.simps)
  then have "boot_inv ?s' (pa # ps)"
    using assms by (simp add: boot_inv_def managed_def del: free_list.simps)
  ultimately show ?thesis by force
qed

lemma freerange_loop_boot:
  assumes "boot_inv s ps" "aligned 4096 p" "kend s \<le> p" "p \<le> PHYSTOP"
    and "\<forall>q \<in> set ps. q < p" "(unat PHYSTOP - unat p) div 4096 < fuel"
  shows "\<exists>s' ps'. freerange_loop fuel s p PHYSTOP = Ok s' \<and> boot_inv s' ps' \<and> kend s' = kend s \<and>
    set ps' = set ps \<union> {q. managed s q \<and> p \<le> q}"
  using assms
proof (induction fuel arbitrary: s ps p)
  case 0
  then show ?case by simp
next
  case (Suc fuel)
  have stop: "unat PHYSTOP = 2281701376" by (simp add: PHYSTOP_def KERNBASE_def)
  have ple: "unat p \<le> 2281701376" using Suc.prems(4) stop by (simp add: word_le_nat_alt)
  have next_p: "unat (p + PGSIZE) = unat p + 4096"
    using ple by (subst unat_add_lem [THEN iffD1]) (simp_all add: PGSIZE_def)
  show ?case
  proof (cases "p + PGSIZE \<le> PHYSTOP")
    case True
    then have room: "unat p + 4096 \<le> unat PHYSTOP" using next_p by (simp add: word_le_nat_alt)
    then have mp: "managed s p" using Suc.prems by (simp add: managed_def word_less_nat_alt)
    moreover have "p \<notin> set ps" using Suc.prems(5) by auto
    ultimately obtain s1 where s1: "kfree s p = Ok s1" "boot_inv s1 (p # ps)" "kend s1 = kend s"
      using kfree_boot Suc.prems(1) by blast
    have "aligned 4096 (p + PGSIZE)" using Suc.prems(2) next_p by (simp add: aligned_def)
    moreover have "kend s1 \<le> p + PGSIZE"
      using s1(3) Suc.prems(3) next_p by (simp add: word_le_nat_alt)
    moreover have "\<forall>q \<in> set (p # ps). q < p + PGSIZE"
      using Suc.prems(5) next_p by (auto simp: word_less_nat_alt)
    moreover have "(unat PHYSTOP - unat (p + PGSIZE)) div 4096 < fuel"
      using Suc.prems(6) room next_p by auto
    ultimately obtain s' ps' where r: "freerange_loop fuel s1 (p + PGSIZE) PHYSTOP = Ok s'"
      "boot_inv s' ps'" "kend s' = kend s1"
      "set ps' = set (p # ps) \<union> {q. managed s1 q \<and> p + PGSIZE \<le> q}"
      using Suc.IH [OF s1(2)] True by blast
    have "q = p \<or> p + PGSIZE \<le> q" if q: "managed s q" "p \<le> q" for q
    proof -
      obtain a b where "unat q = 4096 * a" "unat p = 4096 * b"
        using q(1) Suc.prems(2) unfolding managed_def aligned_def dvd_def by blast
      then show ?thesis
        using q(2) next_p by (auto simp: word_le_nat_alt word_unat_eq_iff)
    qed
    moreover have "p \<le> q" if "p + PGSIZE \<le> q" for q
      using that next_p by (simp add: word_le_nat_alt)
    moreover have "managed s1 q = managed s q" for q using s1(3) by (simp add: managed_def)
    ultimately have "set ps' = set ps \<union> {q. managed s q \<and> p \<le> q}"
      using r(4) mp by auto
    then show ?thesis using r s1 True by auto
  next
    case False
    have "\<not> (managed s q \<and> p \<le> q)" for q
    proof
      assume q: "managed s q \<and> p \<le> q"
      obtain a b where "unat q = 4096 * a" "unat p = 4096 * b"
        using q Suc.prems(2) unfolding managed_def aligned_def dvd_def by blast
      then show False
        using q False next_p stop by (auto simp: managed_def word_le_nat_alt word_less_nat_alt)
    qed
    then show ?thesis using False Suc.prems(1) by auto
  qed
qed

lemma clear_fr_zero: "clear_fr n (\<lambda>_. 0) = (\<lambda>_. 0)"
  by (auto simp: clear_fr_def)

lemma kfree_many_shared:
  assumes "kalloc_inv s ps" "managed s pa" "\<not> memref_held s"
    and "fr s (fn pa) = of_nat (n + k)" "n + k < 2 ^ 31" "0 < k"
  shows "\<exists>s'. kfree_many n s pa = Ok s' \<and> kalloc_inv s' ps \<and> managed s' pa \<and>
    \<not> memref_held s' \<and> fr s' (fn pa) = of_nat k"
  using assms
proof (induction n arbitrary: s)
  case 0
  then show ?case by simp
next
  case (Suc n)
  let ?s1 = "s\<lparr>fr := (fr s)(fn pa := fr s (fn pa) - 1)\<rparr>"
  have "sint (fr s (fn pa)) = int (Suc n + k)"
    using Suc.prems(5) unfolding Suc.prems(4) by (rule sint_of_nat_int)
  then have "1 < sint (fr s (fn pa))" using Suc.prems(6) by simp
  note shared = kfree_shared [OF Suc.prems(1-3) this]
  have "fr ?s1 (fn pa) = of_nat (n + k)" using Suc.prems(4) by simp
  moreover have "managed ?s1 pa" using Suc.prems(2) by (simp add: managed_def)
  ultimately show ?case using Suc.IH [OF shared(2)] Suc.prems shared(1) by simp
qed

lemma kfree_many_Suc: "kfree_many (n + 1) s pa = rbind (kfree_many n s pa) (\<lambda>s. kfree s pa)"
proof (induction n arbitrary: s)
  case 0
  then show ?case by (cases "kfree s pa") simp_all
next
  case (Suc n)
  then show ?case by (cases "kfree s pa") simp_all
qed

lemma managed_top_pages:
  assumes "kend s = 0x87ffe000"
  shows "managed s p \<longleftrightarrow> p = 0x87ffe000 \<or> p = 0x87fff000"
proof
  assume m: "managed s p"
  obtain a where a: "unat p = 4096 * a" using m unfolding managed_def aligned_def dvd_def by blast
  moreover have "2281693184 \<le> unat p" "unat p < 2281701376"
    using m assms by (simp_all add: managed_def word_le_nat_alt word_less_nat_alt PHYSTOP_def KERNBASE_def)
  ultimately have "a = 557054 \<or> a = 557055" by linarith
  then show "p = 0x87ffe000 \<or> p = 0x87fff000" using a by (auto simp: word_unat_eq_iff)
next
  assume "p = 0x87ffe000 \<or> p = 0x87fff000"
  then show "managed s p"
    using assms by (auto simp: managed_def aligned_def PHYSTOP_def KERNBASE_def)
qed

lemma load64_zero: "load64 (\<lambda>_. 0) p = 0"
  by (simp add: load64_def le_word_def)

lemma two_pages_inv: "kalloc_inv two_pages [0x87fff000, 0x87ffe000]"
proof (rule kalloc_invI)
  have "load64 (ram two_pages) 0x87ffe000 = load64 (\<lambda>_. 0) 0x87ffe000"
    unfolding two_pages_def kstate.simps
    by (rule load64_store64_other) (simp_all add: aligned_def)
  then show "free_list (ram two_pages) (freelist two_pages) [0x87fff000, 0x87ffe000]"
    by (simp add: two_pages_def load64_store64_same load64_zero)
qed (auto simp: managed_top_pages two_pages_def KERNBASE_def)

lemma one_shared_inv: "kalloc_inv one_shared [0x87ffe000]"
proof (rule kalloc_invI)
  show "\<And>p. managed one_shared p \<Longrightarrow> (p \<in> set [0x87ffe000]) = (fr one_shared (fn p) = 0)"
    by (auto simp: managed_top_pages one_shared_def fn_def KERNBASE_def PGSIZE_def)
qed (auto simp: managed_top_pages one_shared_def KERNBASE_def load64_zero)

section \<open>Properties\<close>

text \<open>
  C19. Booting the allocator on zeroed reference counts terminates without a panic and leaves a
  free list that holds every page between the kernel image and the end of RAM exactly once.
\<close>

theorem kinit_free_list:
  assumes "KERNBASE \<le> kend s" "kend s < PHYSTOP - PGSIZE" "freelist s = 0" "fr s = (\<lambda>_. 0)"
  shows "\<exists>s' ps. kinit s = Ok s' \<and> kalloc_inv s' ps \<and> set ps = {p. managed s p}"
proof -
  let ?s = "s\<lparr>memref_held := False\<rparr>"
  have stop: "unat PHYSTOP = 2281701376" "unat (PHYSTOP - PGSIZE) = 2281697280"
    by (simp_all add: PHYSTOP_def KERNBASE_def PGSIZE_def)
  have lt: "unat (kend s) < 2281697280" using assms(2) stop by (simp add: word_less_nat_alt)
  then have up: "unat (PGROUNDUP (kend s)) = (unat (kend s) + 4095) div 4096 * 4096"
    by (intro unat_PGROUNDUP) simp
  have le: "unat (kend s) \<le> unat (PGROUNDUP (kend s))" unfolding up by linarith
  have hi: "unat (PGROUNDUP (kend s)) \<le> 2281701376" unfolding up using lt by linarith
  have "boot_inv ?s []" using assms by (simp add: boot_inv_def)
  moreover have "aligned 4096 (PGROUNDUP (kend s))" by (simp add: aligned_def up)
  moreover have "kend ?s \<le> PGROUNDUP (kend s)" using le by (simp add: word_le_nat_alt)
  moreover have "PGROUNDUP (kend s) \<le> PHYSTOP" using hi stop by (simp add: word_le_nat_alt)
  moreover have "(unat PHYSTOP - unat (PGROUNDUP (kend s))) div 4096 < 40000"
  proof -
    have "2147483648 \<le> unat (kend s)"
      using assms(1) by (simp add: word_le_nat_alt KERNBASE_def)
    then show ?thesis using le stop(1) by simp
  qed
  ultimately obtain s1 ps where r: "freerange_loop 40000 ?s (PGROUNDUP (kend s)) PHYSTOP = Ok s1"
    "boot_inv s1 ps" "kend s1 = kend ?s"
    "set ps = set [] \<union> {q. managed ?s q \<and> PGROUNDUP (kend s) \<le> q}"
    using freerange_loop_boot [of ?s "[]" "PGROUNDUP (kend s)" 40000] by fastforce
  have "PGROUNDUP (kend s) \<le> q" if q: "managed s q" for q
  proof -
    obtain a where "unat q = 4096 * a" using q unfolding managed_def aligned_def dvd_def by blast
    moreover have "unat (kend s) \<le> unat q" using q by (simp add: managed_def word_le_nat_alt)
    ultimately show ?thesis
      unfolding word_le_nat_alt up using div_le_mono [of "unat (kend s) + 4095" "4096 * a + 4095" 4096]
      by simp
  qed
  then have ps: "set ps = {q. managed s q}" using r(4) by (auto simp: managed_def)
  let ?s2 = "s1\<lparr>lock_kalloc := True, fr := clear_fr (fn PHYSTOP + 1) (fr s1)\<rparr>"
  have "kinit s = Ok ?s2" using r(1) by (simp add: kinit_def freerange_def)
  moreover have "kalloc_inv ?s2 ps"
  proof (rule kalloc_invI)
    show "\<forall>p \<in> set ps. managed ?s2 p" using r(2) by (simp add: boot_inv_def managed_def)
    fix p assume "managed ?s2 p"
    then have "managed s p" using r(3) by (simp add: managed_def)
    then show "(p \<in> set ps) = (fr ?s2 (fn p) = 0)"
      using ps r(2) by (simp add: boot_inv_def clear_fr_zero)
  qed (use r(2) in \<open>simp_all add: boot_inv_def\<close>)
  ultimately show ?thesis using ps by blast
qed

theorem kinit_free_list_witness:
  "\<exists>s' ps. kinit reset_state = Ok s' \<and> kalloc_inv s' ps \<and> set ps = {p. managed reset_state p}"
  by (rule kinit_free_list)
    (simp_all add: reset_state_def KERNBASE_def PHYSTOP_def PGSIZE_def)

text \<open>
  As long as free pages remain, \<^verbatim>\<open>kalloc\<close> succeeds: any number of calls up to the number of
  free pages returns that many pairwise different non-null pages, and once the free pages are
  used up the next call returns 0 and changes nothing.
\<close>

lemma kalloc_distinct_pages:
  assumes "kmem_avail s ps" "n \<le> length ps"
  shows "\<exists>qs s' s''. alloc_many kalloc n s = Ok (qs, s') \<and> length qs = n \<and> distinct qs \<and>
    0 \<notin> set qs \<and> set qs \<subseteq> set ps \<and>
    alloc_many kalloc (length ps) s = Ok (ps, s'') \<and> kalloc s'' = Ok (0, s'')"
  using kmem.alloc_many_distinct [OF assms] kmem.alloc_exhausted [OF assms(1)] by blast

text \<open>
  C20. A page with reference count \<open>n\<close> survives the first \<open>n - 1\<close> calls of \<^verbatim>\<open>kfree\<close>, each of which
  only lowers the count, and the \<open>n\<close>-th call puts it at the head of the free list.
\<close>

theorem kfree_releases_at_last_reference:
  assumes "kalloc_inv s ps" "managed s pa" "\<not> memref_held s"
    and "fr s (fn pa) = of_nat n" "0 < n" "n < 2 ^ 31"
  shows "(\<forall>k < n. \<exists>s'. kfree_many k s pa = Ok s' \<and> kalloc_inv s' ps \<and>
                      fr s' (fn pa) = of_nat (n - k)) \<and>
         (\<exists>s'. kfree_many n s pa = Ok s' \<and> kalloc_inv s' (pa # ps) \<and> fr s' (fn pa) = 0)"
proof -
  have shared: "\<exists>s'. kfree_many k s pa = Ok s' \<and> kalloc_inv s' ps \<and> managed s' pa \<and>
      \<not> memref_held s' \<and> fr s' (fn pa) = of_nat (n - k)" if "k < n" for k
    using kfree_many_shared [OF assms(1-3), of k "n - k"] that assms(4-6) by simp
  obtain s1 where s1: "kfree_many (n - 1) s pa = Ok s1" "kalloc_inv s1 ps" "managed s1 pa"
    "\<not> memref_held s1" "fr s1 (fn pa) = 1"
    using shared [of "n - 1"] assms(5) by auto
  note last = kfree_release [OF s1(2-5)]
  have "kfree_many n s pa = kfree s1 pa"
    using kfree_many_Suc [of "n - 1" s pa] s1(1) assms(5) by simp
  then have "\<exists>s'. kfree_many n s pa = Ok s' \<and> kalloc_inv s' (pa # ps) \<and> fr s' (fn pa) = 0"
    using last by simp
  then show ?thesis using shared by blast
qed

theorem kfree_releases_at_last_reference_witness:
  "(\<exists>s'. kfree_many 1 one_shared 0x87fff000 = Ok s' \<and> kalloc_inv s' [0x87ffe000] \<and>
         fr s' (fn 0x87fff000) = 1) \<and>
   (\<exists>s'. kfree_many 2 one_shared 0x87fff000 = Ok s' \<and> kalloc_inv s' [0x87fff000, 0x87ffe000] \<and>
         fr s' (fn 0x87fff000) = 0)"
proof -
  have "managed one_shared 0x87fff000" by (simp add: managed_top_pages one_shared_def)
  moreover have "\<not> memref_held one_shared" "fr one_shared (fn 0x87fff000) = of_nat 2"
    by (simp_all add: one_shared_def)
  ultimately show ?thesis
    using kfree_releases_at_last_reference [OF one_shared_inv, of "0x87fff000" 2]
    by (auto dest: spec [of _ 1])
qed

end
