(* ===== verification/Vm.thy ===== *)
theory Vm
  imports Kalloc
begin

text \<open>
  Page tables and user memory: \<^verbatim>\<open>kernel/vm.c\<close>, and \<^verbatim>\<open>proc_mapstacks\<close> of \<^verbatim>\<open>kernel/proc.c\<close> that
  \<^verbatim>\<open>kvmmake\<close> calls. Page-table pages live in the same RAM as everything else; a \<^verbatim>\<open>pte_t *\<close> is the
  address of an eight-byte entry. The loops over virtual addresses stop because \<^verbatim>\<open>walk\<close> panics
  at \<^verbatim>\<open>MAXVA\<close>, which is how their termination is proved. Buffers that the kernel passes by
  address from its own data are byte functions; a panic, a null dereference and an access outside
  \<^verbatim>\<open>memref.fr\<close> are separate outcomes.
\<close>

section \<open>Walking and mapping\<close>

definition pte_at :: "u64 \<Rightarrow> nat \<Rightarrow> u64 \<Rightarrow> u64" where
  "pte_at pagetable level va = pagetable + 8 * PX level va"

primrec walk_from :: "nat \<Rightarrow> kstate \<Rightarrow> u64 \<Rightarrow> u64 \<Rightarrow> bool \<Rightarrow> (u64 \<times> kstate) res" where
  "walk_from 0 s pagetable va alloc = Ok (pte_at pagetable 0 va, s)"
| "walk_from (Suc level) s pagetable va alloc =
     (let pte = pte_at pagetable (Suc level) va in
      if load64 (ram s) pte AND PTE_V \<noteq> 0
      then walk_from level s (PTE2PA (load64 (ram s) pte)) va alloc
      else if \<not> alloc then Ok (0, s)
      else rbind (kalloc s) (\<lambda>(pagetable, s).
        if pagetable = 0 then Ok (0, s)
        else let m = memset 4096 (ram s) pagetable 0 in
          walk_from level (s\<lparr>ram := store64 m pte (PA2PTE pagetable OR PTE_V)\<rparr>)
            pagetable va alloc))"

definition walk :: "kstate \<Rightarrow> u64 \<Rightarrow> u64 \<Rightarrow> bool \<Rightarrow> (u64 \<times> kstate) res" where
  "walk s pagetable va alloc =
     (if va \<ge> MAXVA then Panic ''walk'' else walk_from 2 s pagetable va alloc)"

definition walkaddr :: "kstate \<Rightarrow> u64 \<Rightarrow> u64 \<Rightarrow> u64 res" where
  "walkaddr s pagetable va =
     (if va \<ge> MAXVA then Ok 0
      else rbind (walk s pagetable va False) (\<lambda>(pte, s).
        if pte = 0 then Ok 0
        else if load64 (ram s) pte AND PTE_V = 0 then Ok 0
        else if load64 (ram s) pte AND PTE_U = 0 then Ok 0
        else Ok (PTE2PA (load64 (ram s) pte))))"

lemma walk_Ok_less: "walk s pt va alloc = Ok r \<Longrightarrow> va < MAXVA"
  by (auto simp: walk_def split: if_splits)

lemma next_page_measure:
  assumes "a < MAXVA"
  shows "unat MAXVA + 4096 - unat (a + PGSIZE) < unat MAXVA + 4096 - unat a"
proof -
  have "unat a < 274877906944" using assms by (simp add: word_less_nat_alt MAXVA_val)
  then have "unat (a + PGSIZE) = unat a + 4096"
    by (subst unat_add_lem [THEN iffD1]) (simp_all add: PGSIZE_def)
  then show ?thesis using assms by (simp add: word_less_nat_alt)
qed

function mappages_loop ::
  "kstate \<Rightarrow> u64 \<Rightarrow> u64 \<Rightarrow> u64 \<Rightarrow> u64 \<Rightarrow> u64 \<Rightarrow> (int \<times> kstate) res" where
  "mappages_loop s pagetable a final pa perm =
     rbind (walk s pagetable a True) (\<lambda>(pte, s).
       if pte = 0 then Ok (- 1, s)
       else if load64 (ram s) pte AND PTE_V \<noteq> 0 then Panic ''mappages: remap''
       else let s = s\<lparr>ram := store64 (ram s) pte (PA2PTE pa OR perm OR PTE_V)\<rparr> in
         if a = final then Ok (0, s)
         else mappages_loop s pagetable (a + PGSIZE) final (pa + PGSIZE) perm)"
  by pat_completeness auto
termination
  by (relation "measure (\<lambda>(s, pt, a, final, pa, perm). unat MAXVA + 4096 - unat a)")
    (auto dest!: walk_Ok_less simp: next_page_measure)

definition mappages ::
  "kstate \<Rightarrow> u64 \<Rightarrow> u64 \<Rightarrow> u64 \<Rightarrow> u64 \<Rightarrow> u64 \<Rightarrow> (int \<times> kstate) res" where
  "mappages s pagetable va sz pa perm =
     (if sz = 0 then Panic ''mappages: size''
      else mappages_loop s pagetable (PGROUNDDOWN va) (PGROUNDDOWN (va + sz - 1)) pa perm)"

definition kvmmap :: "kstate \<Rightarrow> u64 \<Rightarrow> u64 \<Rightarrow> u64 \<Rightarrow> u64 \<Rightarrow> u64 \<Rightarrow> kstate res" where
  "kvmmap s kpgtbl va pa sz perm =
     rbind (mappages s kpgtbl va sz pa perm) (\<lambda>(r, s). if r \<noteq> 0 then Panic ''kvmmap'' else Ok s)"

lemma mappages_Ok_less:
  assumes "mappages s pt va sz pa perm = Ok r"
  shows "va < MAXVA"
proof -
  have "PGROUNDDOWN va < MAXVA"
    using assms by (subst (asm) mappages_def, subst (asm) mappages_loop.simps)
      (auto dest!: walk_Ok_less simp: rbind_eq_Ok split: if_splits)
  then show ?thesis
    by (simp add: word_less_nat_alt unat_PGROUNDDOWN MAXVA_val)
qed

section \<open>The kernel page table\<close>

text \<open>
  \<^verbatim>\<open>etext\<close> and \<^verbatim>\<open>trampoline\<close> are addresses the linker supplies. Zeroing the root page without
  testing it is a null dereference when the allocator is empty.
\<close>

primrec mapstacks_loop :: "nat \<Rightarrow> nat \<Rightarrow> kstate \<Rightarrow> u64 \<Rightarrow> kstate res" where
  "mapstacks_loop 0 i s kpgtbl = Ok s"
| "mapstacks_loop (Suc n) i s kpgtbl =
     rbind (kalloc s) (\<lambda>(pa, s).
       if pa = 0 then Panic ''kalloc''
       else rbind (kvmmap s kpgtbl (KSTACK (of_nat i)) pa PGSIZE (PTE_R OR PTE_W)) (\<lambda>s.
         mapstacks_loop n (Suc i) s kpgtbl))"

definition proc_mapstacks :: "kstate \<Rightarrow> u64 \<Rightarrow> kstate res" where
  "proc_mapstacks s kpgtbl = mapstacks_loop 64 0 s kpgtbl"

definition kvmmake :: "kstate \<Rightarrow> u64 \<Rightarrow> u64 \<Rightarrow> (u64 \<times> kstate) res" where
  "kvmmake s etext trampoline =
     rbind (kalloc s) (\<lambda>(kpgtbl, s).
       if kpgtbl = 0 then Fault ''kvmmake''
       else
         let s = s\<lparr>ram := memset 4096 (ram s) kpgtbl 0\<rparr> in
         rbind (kvmmap s kpgtbl UART0 UART0 PGSIZE (PTE_R OR PTE_W)) (\<lambda>s.
         rbind (kvmmap s kpgtbl VIRTIO0 VIRTIO0 PGSIZE (PTE_R OR PTE_W)) (\<lambda>s.
         rbind (kvmmap s kpgtbl PLIC PLIC 0x400000 (PTE_R OR PTE_W)) (\<lambda>s.
         rbind (kvmmap s kpgtbl KERNBASE KERNBASE (etext - KERNBASE) (PTE_R OR PTE_X)) (\<lambda>s.
         rbind (kvmmap s kpgtbl etext etext (PHYSTOP - etext) (PTE_R OR PTE_W)) (\<lambda>s.
         rbind (kvmmap s kpgtbl TRAMPOLINE trampoline PGSIZE (PTE_R OR PTE_X)) (\<lambda>s.
         rbind (proc_mapstacks s kpgtbl) (\<lambda>s. Ok (kpgtbl, s)))))))))"

section \<open>User page tables\<close>

function uvmunmap_loop :: "kstate \<Rightarrow> u64 \<Rightarrow> u64 \<Rightarrow> u64 \<Rightarrow> bool \<Rightarrow> kstate res" where
  "uvmunmap_loop s pagetable a stop do_free =
     (if a < stop
      then rbind (walk s pagetable a False) (\<lambda>(pte, s).
        if pte = 0 then Panic ''uvmunmap: walk''
        else if load64 (ram s) pte AND PTE_V = 0 then Panic ''uvmunmap: not mapped''
        else if PTE_FLAGS (load64 (ram s) pte) = PTE_V then Panic ''uvmunmap: not a leaf''
        else rbind (if do_free then kfree s (PTE2PA (load64 (ram s) pte)) else Ok s) (\<lambda>s.
          uvmunmap_loop (s\<lparr>ram := store64 (ram s) pte 0\<rparr>) pagetable (a + PGSIZE) stop do_free))
      else Ok s)"
  by pat_completeness auto
termination
  by (relation "measure (\<lambda>(s, pt, a, stop, fr). unat MAXVA + 4096 - unat a)")
    (auto dest!: walk_Ok_less simp: next_page_measure)

definition uvmunmap :: "kstate \<Rightarrow> u64 \<Rightarrow> u64 \<Rightarrow> u64 \<Rightarrow> bool \<Rightarrow> kstate res" where
  "uvmunmap s pagetable va npages do_free =
     (if va mod PGSIZE \<noteq> 0 then Panic ''uvmunmap: not aligned''
      else uvmunmap_loop s pagetable va (va + npages * PGSIZE) do_free)"

definition uvmcreate :: "kstate \<Rightarrow> (u64 \<times> kstate) res" where
  "uvmcreate s =
     rbind (kalloc s) (\<lambda>(pagetable, s).
       if pagetable = 0 then Ok (0, s)
       else Ok (pagetable, s\<lparr>ram := memset 4096 (ram s) pagetable 0\<rparr>))"

text \<open>Copying from and to a buffer that is not in RAM proper but in the kernel's own data.\<close>

definition move_in :: "mem \<Rightarrow> u64 \<Rightarrow> bytes \<Rightarrow> nat \<Rightarrow> mem" where
  "move_in m dst src n = (\<lambda>x. if unat (x - dst) < n then src (unat (x - dst)) else m x)"

definition move_out :: "bytes \<Rightarrow> nat \<Rightarrow> mem \<Rightarrow> u64 \<Rightarrow> nat \<Rightarrow> bytes" where
  "move_out dst k m src n = (\<lambda>i. if k \<le> i \<and> i < k + n then m (src + of_nat (i - k)) else dst i)"

definition uvmfirst :: "kstate \<Rightarrow> u64 \<Rightarrow> bytes \<Rightarrow> u32 \<Rightarrow> kstate res" where
  "uvmfirst s pagetable src sz =
     (if ucast sz \<ge> PGSIZE then Panic ''uvmfirst: more than a page''
      else rbind (kalloc s) (\<lambda>(mem, s).
        if mem = 0 then Fault ''uvmfirst''
        else rbind (mappages (s\<lparr>ram := memset 4096 (ram s) mem 0\<rparr>) pagetable 0 PGSIZE mem
                      (PTE_W OR PTE_R OR PTE_X OR PTE_U)) (\<lambda>(r, s).
          Ok (s\<lparr>ram := move_in (ram s) mem src (unat sz)\<rparr>))))"

definition uvmdealloc :: "kstate \<Rightarrow> u64 \<Rightarrow> u64 \<Rightarrow> u64 \<Rightarrow> (u64 \<times> kstate) res" where
  "uvmdealloc s pagetable oldsz newsz =
     (if newsz \<ge> oldsz then Ok (oldsz, s)
      else rbind
        (if PGROUNDUP newsz < PGROUNDUP oldsz
         then let npages = ucast ((PGROUNDUP oldsz - PGROUNDUP newsz) div PGSIZE) :: u32 in
           uvmunmap s pagetable (PGROUNDUP newsz) (scast npages) True
         else Ok s) (\<lambda>s. Ok (newsz, s)))"

function uvmalloc_loop ::
  "kstate \<Rightarrow> u64 \<Rightarrow> u64 \<Rightarrow> u64 \<Rightarrow> u64 \<Rightarrow> u64 \<Rightarrow> (u64 \<times> kstate) res" where
  "uvmalloc_loop s pagetable a oldsz newsz xperm =
     (if a < newsz
      then rbind (kalloc s) (\<lambda>(mem, s).
        if mem = 0
        then rbind (uvmdealloc s pagetable a oldsz) (\<lambda>(r, s). Ok (0, s))
        else rbind (mappages (s\<lparr>ram := memset 4096 (ram s) mem 0\<rparr>) pagetable a PGSIZE mem
                      (PTE_R OR PTE_U OR xperm)) (\<lambda>(r, s).
          if r \<noteq> 0
          then rbind (kfree s mem) (\<lambda>s.
            rbind (uvmdealloc s pagetable a oldsz) (\<lambda>(r, s). Ok (0, s)))
          else uvmalloc_loop s pagetable (a + PGSIZE) oldsz newsz xperm))
      else Ok (newsz, s))"
  by pat_completeness auto
termination
  by (relation "measure (\<lambda>(s, pt, a, os, ns, x). unat MAXVA + 4096 - unat a)")
    (auto dest!: mappages_Ok_less simp: next_page_measure)

definition uvmalloc :: "kstate \<Rightarrow> u64 \<Rightarrow> u64 \<Rightarrow> u64 \<Rightarrow> u64 \<Rightarrow> (u64 \<times> kstate) res" where
  "uvmalloc s pagetable oldsz newsz xperm =
     (if newsz < oldsz then Ok (oldsz, s)
      else uvmalloc_loop s pagetable (PGROUNDUP oldsz) (PGROUNDUP oldsz) newsz xperm)"

text \<open>
  \<^verbatim>\<open>freewalk\<close> recurses through the table; the first argument is the depth of recursion left on
  the stack, and running out of it is a fault. A page table has three levels, so three frames
  are enough for every well-formed one. The inner recursion is the loop over the 512 entries.
\<close>

fun freewalk :: "nat \<Rightarrow> kstate \<Rightarrow> u64 \<Rightarrow> kstate res"
and freewalk_loop :: "nat \<Rightarrow> nat \<Rightarrow> kstate \<Rightarrow> u64 \<Rightarrow> kstate res" where
  "freewalk 0 s pagetable = Fault ''freewalk: stack''"
| "freewalk (Suc d) s pagetable =
     rbind (freewalk_loop d 512 s pagetable) (\<lambda>s. kfree s pagetable)"
| "freewalk_loop d 0 s pagetable = Ok s"
| "freewalk_loop d (Suc n) s pagetable =
     (let i = of_nat (512 - Suc n); pte = load64 (ram s) (pagetable + 8 * i) in
      rbind
        (if pte AND PTE_V \<noteq> 0 \<and> pte AND (PTE_R OR PTE_W OR PTE_X) = 0
         then rbind (freewalk d s (PTE2PA pte)) (\<lambda>s.
           Ok (s\<lparr>ram := store64 (ram s) (pagetable + 8 * i) 0\<rparr>))
         else if pte AND PTE_V \<noteq> 0 then Panic ''freewalk: leaf''
         else Ok s) (\<lambda>s. freewalk_loop d n s pagetable))"

definition uvmfree :: "kstate \<Rightarrow> u64 \<Rightarrow> u64 \<Rightarrow> kstate res" where
  "uvmfree s pagetable sz =
     rbind (if sz > 0 then uvmunmap s pagetable 0 (PGROUNDUP sz div PGSIZE) True else Ok s) (\<lambda>s.
       freewalk 3 s pagetable)"

function uvmcopy_loop :: "kstate \<Rightarrow> u64 \<Rightarrow> u64 \<Rightarrow> u64 \<Rightarrow> u64 \<Rightarrow> (int \<times> kstate) res" where
  "uvmcopy_loop s old new i sz =
     (if i < sz
      then rbind (walk s old i False) (\<lambda>(pte, s).
        if pte = 0 then Panic ''uvmcopy: pte should exist''
        else if load64 (ram s) pte AND PTE_V = 0 then Panic ''uvmcopy: page not present''
        else
          let v = load64 (ram s) pte; pa = PTE2PA v; flags = PTE_FLAGS v;
            s = s\<lparr>ram := store64 (ram s) pte ((v AND NOT PTE_W) OR PTE_COW)\<rparr>;
            flags = (flags AND NOT PTE_W) OR PTE_COW in
          rbind (mappages s new i PGSIZE pa flags) (\<lambda>(r, s).
            if r \<noteq> 0
            then rbind (uvmunmap s new 0 (i div PGSIZE) True) (\<lambda>s. Ok (- 1, s))
            else rbind (memref_lock s) (\<lambda>s.
              rbind (memref_get s pa) (\<lambda>fq.
              rbind (memref_set s pa (fq + 1)) (\<lambda>s.
              rbind (memref_unlock s) (\<lambda>s.
                uvmcopy_loop s old new (i + PGSIZE) sz))))))
      else Ok (0, s))"
  by pat_completeness auto
termination
  by (relation "measure (\<lambda>(s, old, new, i, sz). unat MAXVA + 4096 - unat i)")
    (auto dest!: walk_Ok_less simp: next_page_measure)

definition uvmcopy :: "kstate \<Rightarrow> u64 \<Rightarrow> u64 \<Rightarrow> u64 \<Rightarrow> (int \<times> kstate) res" where
  "uvmcopy s old new sz = uvmcopy_loop s old new 0 sz"

definition uvmclear :: "kstate \<Rightarrow> u64 \<Rightarrow> u64 \<Rightarrow> kstate res" where
  "uvmclear s pagetable va =
     rbind (walk s pagetable va False) (\<lambda>(pte, s).
       if pte = 0 then Panic ''uvmclear''
       else Ok (s\<lparr>ram := store64 (ram s) pte (load64 (ram s) pte AND NOT PTE_U)\<rparr>))"

section \<open>Copying between kernel and user memory\<close>

text \<open>How many bytes of a transfer of \<open>len\<close> bytes at \<open>va\<close> fall into the page of \<open>va\<close>.\<close>

definition page_chunk :: "u64 \<Rightarrow> u64 \<Rightarrow> u64" where
  "page_chunk va len =
     (let n = PGSIZE - (va - PGROUNDDOWN va) in if n > len then len else n)"

lemma unat_page_offset: "unat (va - PGROUNDDOWN va) = unat va mod 4096"
proof -
  have "PGROUNDDOWN va \<le> va" by (simp add: word_le_nat_alt unat_PGROUNDDOWN)
  then show ?thesis
    by (simp add: unat_sub unat_PGROUNDDOWN minus_div_mult_eq_mod [symmetric] mult.commute)
qed

lemma unat_page_chunk: "unat (page_chunk va len) = min (4096 - unat va mod 4096) (unat len)"
proof -
  have "va - PGROUNDDOWN va \<le> PGSIZE"
    using unat_page_offset [of va] by (simp add: word_le_nat_alt PGSIZE_def less_imp_le)
  then have "unat (PGSIZE - (va - PGROUNDDOWN va)) = 4096 - unat va mod 4096"
    by (simp add: unat_sub unat_page_offset PGSIZE_def)
  then show ?thesis
    by (auto simp: page_chunk_def Let_def word_less_nat_alt min_def)
qed

lemma page_chunk_measure:
  assumes "0 < len"
  shows "unat (len - page_chunk va len) < unat len"
proof -
  have "page_chunk va len \<le> len" by (simp add: word_le_nat_alt unat_page_chunk)
  moreover have "0 < unat (page_chunk va len)"
    using assms by (simp add: unat_page_chunk word_less_nat_alt)
  ultimately show ?thesis using assms by (simp add: unat_sub word_less_nat_alt)
qed

function copyout :: "kstate \<Rightarrow> u64 \<Rightarrow> u64 \<Rightarrow> bytes \<Rightarrow> u64 \<Rightarrow> (int \<times> kstate) res" where
  "copyout s pagetable dstva src len =
     (if len > 0
      then rbind (walkaddr s pagetable (PGROUNDDOWN dstva)) (\<lambda>pa0.
        if pa0 = 0 then Ok (- 1, s)
        else let n = page_chunk dstva len;
               m = move_in (ram s) (pa0 + (dstva - PGROUNDDOWN dstva)) src (unat n) in
          copyout (s\<lparr>ram := m\<rparr>) pagetable (PGROUNDDOWN dstva + PGSIZE)
            (\<lambda>i. src (i + unat n)) (len - n))
      else Ok (0, s))"
  by pat_completeness auto
termination
  by (relation "measure (\<lambda>(s, pt, va, src, len). unat len)") (simp_all add: page_chunk_measure)

function copyin :: "kstate \<Rightarrow> u64 \<Rightarrow> bytes \<Rightarrow> nat \<Rightarrow> u64 \<Rightarrow> u64 \<Rightarrow> (int \<times> bytes) res" where
  "copyin s pagetable dst k srcva len =
     (if len > 0
      then rbind (walkaddr s pagetable (PGROUNDDOWN srcva)) (\<lambda>pa0.
        if pa0 = 0 then Ok (- 1, dst)
        else let n = page_chunk srcva len in
          copyin s pagetable
            (move_out dst k (ram s) (pa0 + (srcva - PGROUNDDOWN srcva)) (unat n))
            (k + unat n) (PGROUNDDOWN srcva + PGSIZE) (len - n))
      else Ok (0, dst))"
  by pat_completeness auto
termination
  by (relation "measure (\<lambda>(s, pt, dst, k, va, len). unat len)") (simp_all add: page_chunk_measure)

text \<open>The inner loop of \<^verbatim>\<open>copyinstr\<close>: whether it met a zero, the buffer, and how far it got.\<close>

primrec str_page :: "nat \<Rightarrow> mem \<Rightarrow> u64 \<Rightarrow> bytes \<Rightarrow> nat \<Rightarrow> bool \<times> bytes \<times> nat" where
  "str_page 0 m p dst k = (False, dst, k)"
| "str_page (Suc n) m p dst k =
     (if m p = 0 then (True, dst(k := 0), k) else str_page n m (p + 1) (dst(k := m p)) (Suc k))"

lemma str_page_False: "str_page n m p dst k = (False, dst', k') \<Longrightarrow> k' = k + n"
  by (induction n arbitrary: p dst k) (fastforce split: if_splits)+

function copyinstr :: "kstate \<Rightarrow> u64 \<Rightarrow> bytes \<Rightarrow> nat \<Rightarrow> u64 \<Rightarrow> u64 \<Rightarrow> (int \<times> bytes) res" where
  "copyinstr s pagetable dst k srcva maxlen =
     (if maxlen > 0
      then rbind (walkaddr s pagetable (PGROUNDDOWN srcva)) (\<lambda>pa0.
        if pa0 = 0 then Ok (- 1, dst)
        else case str_page (unat (page_chunk srcva maxlen)) (ram s)
                    (pa0 + (srcva - PGROUNDDOWN srcva)) dst k of
          (got_null, dst', k') \<Rightarrow>
            if got_null then Ok (0, dst')
            else copyinstr s pagetable dst' k' (PGROUNDDOWN srcva + PGSIZE)
                   (maxlen - of_nat (k' - k)))
      else Ok (- 1, dst))"
  by pat_completeness auto
termination
  by (relation "measure (\<lambda>(s, pt, dst, k, va, maxlen). unat maxlen)")
    (auto dest!: sym [of "(_, _, _)"] str_page_False simp: page_chunk_measure)

declare mappages_loop.simps [simp del] uvmunmap_loop.simps [simp del] uvmalloc_loop.simps [simp del]
  uvmcopy_loop.simps [simp del] copyout.simps [simp del] copyin.simps [simp del]
  copyinstr.simps [simp del]

end
