(* ===== verification/Addrspace.thy ===== *)
theory Addrspace
  imports Vm
begin

text \<open>
  What a page table means and what the routines of \<^verbatim>\<open>kernel/vm.c\<close> do to that meaning. A table is
  read as a tree: \<open>descend\<close> follows a list of indices from the root, \<open>lookup\<close> is the leaf entry of a
  virtual address (zero when a table page on the way is missing). A table is well formed when
  no page-table page is reached in two ways and every one is an allocated page; the routines
  keep this, and they change the meaning exactly where they should.
\<close>

section \<open>Reading a table as a tree\<close>

definition entry :: "mem \<Rightarrow> u64 \<Rightarrow> nat \<Rightarrow> u64" where
  "entry m p i = load64 m (p + 8 * of_nat i)"

primrec descend :: "mem \<Rightarrow> u64 \<Rightarrow> nat list \<Rightarrow> u64 option" where
  "descend m pt [] = Some pt"
| "descend m pt (i # js) =
     (if bit (entry m pt i) 0 then descend m (PTE2PA (entry m pt i)) js else None)"

definition va_path :: "u64 \<Rightarrow> nat list" where
  "va_path va = [unat (PX 2 va), unat (PX 1 va)]"

definition lookup :: "mem \<Rightarrow> u64 \<Rightarrow> u64 \<Rightarrow> u64" where
  "lookup m root va =
     (case descend m root (va_path va) of None \<Rightarrow> 0 | Some p \<Rightarrow> entry m p (unat (PX 0 va)))"

definition idx :: "nat list \<Rightarrow> bool" where
  "idx js \<longleftrightarrow> length js \<le> 2 \<and> (\<forall>j \<in> set js. j < 512)"

definition pt_nodes :: "mem \<Rightarrow> u64 \<Rightarrow> u64 set" where
  "pt_nodes m root = {p. \<exists>js. idx js \<and> descend m root js = Some p}"

definition busy :: "kstate \<Rightarrow> u64 set" where
  "busy s = {p. managed s p \<and> fr s (fn p) \<noteq> 0}"

definition wf_tree :: "mem \<Rightarrow> u64 \<Rightarrow> bool" where
  "wf_tree m root \<longleftrightarrow>
     (\<forall>path js p. idx path \<and> idx js \<and> descend m root path = Some p \<and> descend m root js = Some p
        \<longrightarrow> path = js) \<and>
     (\<forall>p \<in> pt_nodes m root. aligned 4096 p \<and> p \<noteq> 0)"

definition wf_pt :: "kstate \<Rightarrow> u64 \<Rightarrow> bool" where
  "wf_pt s root \<longleftrightarrow> wf_tree (ram s) root \<and> pt_nodes (ram s) root \<subseteq> busy s"

text \<open>
  How a routine that may allocate table pages for \<open>root\<close> changes the machine: it takes pages from
  the front of the free list \<open>ps\<close>, and outside the table's own pages and those it leaves memory
  and reference counts alone.
\<close>

definition grown :: "u64 \<Rightarrow> kstate \<Rightarrow> u64 list \<Rightarrow> kstate \<Rightarrow> u64 list \<Rightarrow> bool" where
  "grown root s ps s' ps' \<longleftrightarrow>
     kmem_avail s' ps' \<and> wf_pt s' root \<and> (\<exists>qs. ps = qs @ ps') \<and> kend s' = kend s \<and>
     memref_held s' = memref_held s \<and> lock_kalloc s' = lock_kalloc s \<and>
     (\<forall>p. managed s p \<longrightarrow> p \<notin> set ps \<longrightarrow> fr s' (fn p) = fr s (fn p)) \<and>
     pt_nodes (ram s') root \<subseteq> pt_nodes (ram s) root \<union> set ps \<and>
     (\<forall>x. PGROUNDDOWN x \<notin> pt_nodes (ram s) root \<union> set ps \<longrightarrow> ram s' x = ram s x)"

text \<open>Virtual addresses of the \<open>n\<close> pages from \<open>a\<close> on.\<close>

definition pages_from :: "u64 \<Rightarrow> nat \<Rightarrow> u64 \<Rightarrow> bool" where
  "pages_from a n va \<longleftrightarrow> unat a \<le> unat va \<and> unat va < unat a + n * 4096"

text \<open>The pages a range of \<open>sz\<close> bytes at \<open>va\<close> touches.\<close>

definition covers :: "u64 \<Rightarrow> u64 \<Rightarrow> u64 \<Rightarrow> bool" where
  "covers va sz vb \<longleftrightarrow> PGROUNDDOWN va \<le> PGROUNDDOWN vb \<and> PGROUNDDOWN vb \<le> PGROUNDDOWN (va + sz - 1)"

text \<open>
  The physical pages behind \<open>n\<close> pages of user memory, and when that range is ordinary user memory:
  every page is a valid leaf on an allocated page that is not part of the table, and no two
  virtual pages share one physical page.
\<close>

definition backing :: "mem \<Rightarrow> u64 \<Rightarrow> u64 \<Rightarrow> nat \<Rightarrow> u64 set" where
  "backing m root a n = {PTE2PA (lookup m root vb) | vb. pages_from a n vb}"

definition user_range :: "kstate \<Rightarrow> u64 \<Rightarrow> u64 \<Rightarrow> nat \<Rightarrow> bool" where
  "user_range s root a n \<longleftrightarrow>
     (\<forall>vb. pages_from a n vb \<longrightarrow>
        (let v = lookup (ram s) root vb in
           bit v 0 \<and> PTE_FLAGS v \<noteq> PTE_V \<and> managed s (PTE2PA v) \<and>
           PTE2PA v \<notin> pt_nodes (ram s) root \<and> 0 < sint (fr s (fn (PTE2PA v))))) \<and>
     (\<forall>vb vc. pages_from a n vb \<and> pages_from a n vc \<and>
        PTE2PA (lookup (ram s) root vb) = PTE2PA (lookup (ram s) root vc) \<longrightarrow>
        PGROUNDDOWN vb = PGROUNDDOWN vc)"

text \<open>The byte a user program sees at a mapped virtual address.\<close>

definition user_addr :: "mem \<Rightarrow> u64 \<Rightarrow> u64 \<Rightarrow> u64" where
  "user_addr m root va = PTE2PA (lookup m root va) + (va - PGROUNDDOWN va)"

definition user_byte :: "mem \<Rightarrow> u64 \<Rightarrow> u64 \<Rightarrow> u8" where
  "user_byte m root va = m (user_addr m root va)"

text \<open>
  A small machine: eleven pages of RAM at the top, a three-level table at \<^verbatim>\<open>0x87ff7000\<close> that maps the
  first two user pages, an empty table at \<^verbatim>\<open>0x87ffc000\<close>, and five free pages.
\<close>

definition set_entry :: "u64 \<Rightarrow> nat \<Rightarrow> u64 \<Rightarrow> mem \<Rightarrow> mem" where
  "set_entry p i v m = store64 m (p + 8 * of_nat i) v"

definition demo_ram :: mem where
  "demo_ram =
     set_entry 0x87ff6000 0 0x87ff5000 (set_entry 0x87ffd000 0 0x87ff6000
     (set_entry 0x87ffe000 0 0x87ffd000 (set_entry 0x87fff000 0 0x87ffe000
     (set_entry 0x87ff9000 1 (PA2PTE 0x87ffb000 OR 0x17)
     (set_entry 0x87ff9000 0 (PA2PTE 0x87ffa000 OR 0x17)
     (set_entry 0x87ff8000 0 (PA2PTE 0x87ff9000 OR PTE_V)
     (set_entry 0x87ff7000 0 (PA2PTE 0x87ff8000 OR PTE_V) (\<lambda>_. 0))))))))"

definition demo :: kstate where
  "demo = \<lparr>ram = demo_ram, freelist = 0x87fff000,
           fr = (\<lambda>i. if i \<in> fn ` {0x87ff7000, 0x87ff8000, 0x87ff9000, 0x87ffa000, 0x87ffb000, 0x87ffc000}
                     then 1 else 0),
           memref_held = False, lock_kalloc = True, kend = 0x87ff5000\<rparr>"

text \<open>How many pages that is.\<close>

definition span :: "u64 \<Rightarrow> u64 \<Rightarrow> nat" where
  "span va sz = (unat (PGROUNDDOWN (va + sz - 1)) - unat (PGROUNDDOWN va)) div 4096 + 1"

section \<open>Entries\<close>

lemma unat_entry_addr:
  assumes "aligned 4096 p" "i < 512"
  shows "unat (p + 8 * of_nat i) = unat p + 8 * i" and "PGROUNDDOWN (p + 8 * of_nat i) = p"
proof -
  have "p + 8 * of_nat i = p + of_nat (8 * i)" by simp
  then show "unat (p + 8 * of_nat i) = unat p + 8 * i" "PGROUNDDOWN (p + 8 * of_nat i) = p"
    using aligned_4096_add [OF assms(1), of "8 * i"] PGROUNDDOWN_page [OF assms(1), of "8 * i"]
      assms(2) by simp_all
qed

lemma aligned_8_entry: "aligned 4096 p \<Longrightarrow> i < 512 \<Longrightarrow> aligned 8 (p + 8 * of_nat i)"
  using aligned_8_page [of p] by (simp add: aligned_def unat_entry_addr)

lemma entry_byte_page:
  assumes "aligned 4096 p" "i < 512" "k < 8"
  shows "PGROUNDDOWN (p + 8 * of_nat i + of_nat k) = p"
proof -
  have "p + 8 * of_nat i + of_nat k = p + of_nat (8 * i + k)" by simp
  moreover have "PGROUNDDOWN (p + of_nat (8 * i + k)) = p"
    using assms by (intro PGROUNDDOWN_page) simp_all
  ultimately show ?thesis by metis
qed

lemma entry_cong:
  assumes "aligned 4096 p" "i < 512" "\<forall>x. PGROUNDDOWN x = p \<longrightarrow> m' x = m x"
  shows "entry m' p i = entry m p i"
  unfolding entry_def using assms entry_byte_page [OF assms(1,2)] by (intro load64_cong) simp

lemma entry_store64:
  assumes "aligned 4096 p" "i < 512" "aligned 4096 q" "j < 512"
  shows "entry (store64 m (p + 8 * of_nat i) v) q j = (if q = p \<and> j = i then v else entry m q j)"
proof (cases "q = p \<and> j = i")
  case True
  then show ?thesis by (simp add: entry_def)
next
  case False
  have "p + 8 * of_nat i \<noteq> q + 8 * of_nat j"
  proof
    assume eq: "p + 8 * of_nat i = q + 8 * of_nat j"
    then have "p = q" using unat_entry_addr(2) assms by metis
    moreover from this eq have "unat p + 8 * i = unat p + 8 * j"
      using unat_entry_addr(1) assms by metis
    ultimately show False using False by simp
  qed
  then show ?thesis
    using assms by (auto simp: entry_def aligned_8_entry)
qed

lemma entry_set_entry:
  assumes "aligned 4096 p" "i < 512" "aligned 4096 q" "j < 512"
  shows "entry (set_entry p i v m) q j = (if q = p \<and> j = i then v else entry m q j)"
  unfolding set_entry_def by (rule entry_store64 [OF assms])

lemma store64_entry_frame:
  assumes "aligned 4096 p" "i < 512" "PGROUNDDOWN x \<noteq> p"
  shows "store64 m (p + 8 * of_nat i) v x = m x"
proof (rule store64_outside)
  show "\<not> in_range (p + 8 * of_nat i) 8 x"
  proof
    assume "in_range (p + 8 * of_nat i) 8 x"
    moreover have "x = p + 8 * of_nat i + of_nat (unat (x - (p + 8 * of_nat i)))" by simp
    ultimately show False using entry_byte_page [OF assms(1,2)] assms(3) unfolding in_range_def by metis
  qed
qed

lemma entry_zero_page:
  assumes "aligned 4096 p" "i < 512"
  shows "entry (memset 4096 m p 0) p i = 0"
proof -
  have "entry (memset 4096 m p 0) p i = entry (\<lambda>_. 0) p i"
    unfolding entry_def using assms entry_byte_page [OF assms]
    by (intro load64_cong) (simp add: memset_page_in in_page_iff)
  then show ?thesis by (simp add: entry_def load64_zero)
qed

section \<open>Trees\<close>

lemma descend_snoc:
  "descend m pt (js @ [j]) =
     (case descend m pt js of None \<Rightarrow> None
      | Some p \<Rightarrow> if bit (entry m p j) 0 then Some (PTE2PA (entry m p j)) else None)"
  by (induction js arbitrary: pt) auto

lemma idx_snoc [simp]: "idx (js @ [j]) \<longleftrightarrow> length js < 2 \<and> (\<forall>i \<in> set js. i < 512) \<and> j < 512"
  by (auto simp: idx_def)

lemma idx_va_path [simp]: "idx (va_path va)" "length (va_path va) = 2"
  using unat_PX by (simp_all add: idx_def va_path_def)

lemma wf_treeD:
  assumes "wf_tree m root" "idx path" "idx js" "descend m root path = Some p" "descend m root js = Some p"
  shows "path = js"
  using assms unfolding wf_tree_def by blast

lemma wf_tree_node:
  assumes "wf_tree m root" "idx js" "descend m root js = Some p"
  shows "aligned 4096 p" "p \<noteq> 0"
  using assms unfolding wf_tree_def pt_nodes_def by blast+

lemma descend_frame:
  assumes "\<And>js q j. idx js \<Longrightarrow> length js < 2 \<Longrightarrow> descend m root js = Some q \<Longrightarrow> j < 512 \<Longrightarrow>
      entry m' q j = entry m q j"
  shows "idx js \<Longrightarrow> descend m' root js = descend m root js"
proof (induction js rule: rev_induct)
  case Nil
  show ?case by simp
next
  case (snoc j js)
  then have "idx js" "length js < 2" "j < 512" by (auto simp: idx_def)
  then show ?case
    using snoc.IH assms [of js _ j] by (auto simp: descend_snoc split: option.splits)
qed

text \<open>Writing a leaf entry changes that leaf and nothing else of the tree.\<close>

lemma descend_set_leaf:
  assumes "wf_tree m root" "idx path" "length path = 2" "descend m root path = Some p" "i < 512" "idx js"
  shows "descend (store64 m (p + 8 * of_nat i) v) root js = descend m root js"
proof (rule descend_frame [OF _ assms(6)])
  fix ks q and j :: nat assume q: "idx ks" "length ks < 2" "descend m root ks = Some q" "j < 512"
  then have "q \<noteq> p" using wf_treeD [OF assms(1) assms(2) q(1) assms(4)] assms(3) by auto
  then show "entry (store64 m (p + 8 * of_nat i) v) q j = entry m q j"
    using wf_tree_node [OF assms(1)] assms q by (subst entry_store64) auto
qed

lemma same_page_iff:
  assumes "va < MAXVA" "vb < MAXVA"
  shows "PGROUNDDOWN va = PGROUNDDOWN vb \<longleftrightarrow> va_path va = va_path vb \<and> PX 0 va = PX 0 vb"
proof
  assume "va_path va = va_path vb \<and> PX 0 va = PX 0 vb"
  then have "PX l va = PX l vb" if "l < 3" for l
    using that by (auto simp: va_path_def less_Suc_eq numeral_3_eq_3 numeral_2_eq_2 word_unat_eq_iff)
  then show "PGROUNDDOWN va = PGROUNDDOWN vb" using PX_determines_page assms by blast
next
  have "PX l va = PX l (PGROUNDDOWN va)" for l va
    by (rule bit_word_eqI)
      (auto simp: bit_PX PGROUNDDOWN_def PGSIZE_mask and_not_mask bit_simps add.assoc
        dest: bit_imp_le_length)
  then show "PGROUNDDOWN va = PGROUNDDOWN vb \<Longrightarrow> va_path va = va_path vb \<and> PX 0 va = PX 0 vb"
    by (metis va_path_def)
qed

lemma lookup_set_leaf:
  assumes wf: "wf_tree m root" and p: "descend m root (va_path va) = Some p"
    and va: "va < MAXVA" "vb < MAXVA"
  shows "lookup (store64 m (p + 8 * PX 0 va) v) root vb =
    (if PGROUNDDOWN vb = PGROUNDDOWN va then v else lookup m root vb)"
proof -
  have e: "p + 8 * PX 0 va = p + 8 * of_nat (unat (PX 0 va))" by simp
  have d: "descend (store64 m (p + 8 * PX 0 va) v) root (va_path vb) = descend m root (va_path vb)"
    unfolding e using wf p by (intro descend_set_leaf [where path = "va_path va"]) (auto simp: unat_PX)
  have al: "aligned 4096 p" using wf_tree_node(1) [OF wf _ p] by simp
  show ?thesis
  proof (cases "descend m root (va_path vb)")
    case None
    then have "PGROUNDDOWN vb \<noteq> PGROUNDDOWN va" using p va same_page_iff by auto
    then show ?thesis using None d by (simp add: lookup_def)
  next
    case (Some q)
    have "aligned 4096 q" using wf_tree_node(1) [OF wf _ Some] by simp
    then have "entry (store64 m (p + 8 * PX 0 va) v) q (unat (PX 0 vb)) =
        (if q = p \<and> unat (PX 0 vb) = unat (PX 0 va) then v else entry m q (unat (PX 0 vb)))"
      unfolding e using al by (intro entry_store64) (simp_all add: unat_PX)
    moreover have "q = p \<longleftrightarrow> va_path vb = va_path va"
      using wf_treeD [OF wf _ _ Some] p Some by auto
    moreover have "unat (PX 0 vb) = unat (PX 0 va) \<longleftrightarrow> PX 0 vb = PX 0 va"
      by (simp add: word_unat_eq_iff)
    ultimately show ?thesis
      using Some d by (simp add: lookup_def same_page_iff [OF va(2,1)])
  qed
qed

text \<open>Hanging a zeroed page below an invalid entry adds one node and changes no translation.\<close>

lemma descend_link:
  assumes wf: "wf_tree m root" and p: "idx (path @ [i])" "descend m root path = Some p"
    and inv: "\<not> bit (entry m p i) 0"
    and new: "bit (entry m' p i) 0" "PTE2PA (entry m' p i) = r" "\<And>j. j < 512 \<Longrightarrow> entry m' r j = 0"
    and same: "\<And>q j. q \<in> pt_nodes m root \<Longrightarrow> j < 512 \<Longrightarrow> q \<noteq> p \<or> j \<noteq> i \<Longrightarrow>
      entry m' q j = entry m q j"
  shows "idx js \<Longrightarrow> descend m' root js = (if js = path @ [i] then Some r else descend m root js)"
proof (induction js rule: rev_induct)
  case Nil
  show ?case by simp
next
  case (snoc j js)
  then have js: "idx js" "length js < 2" "j < 512" by (auto simp: idx_def)
  have p_idx: "idx path" using p(1) by (auto simp: idx_def)
  note IH = snoc.IH [OF js(1)]
  show ?case
  proof (cases "js = path @ [i]")
    case True
    then have "descend m root js = None" using p(2) inv by (simp add: descend_snoc)
    then show ?thesis using True IH new(3) js by (auto simp: descend_snoc)
  next
    case ne: False
    show ?thesis
    proof (cases "descend m root js")
      case None
      then have "js \<noteq> path" using p(2) by auto
      then show ?thesis using None IH ne by (simp add: descend_snoc)
    next
      case (Some q)
      then have q: "q \<in> pt_nodes m root" using js by (auto simp: pt_nodes_def)
      have "q = p \<longleftrightarrow> js = path" using wf_treeD [OF wf js(1) p_idx Some] p(2) Some by auto
      then show ?thesis
        using IH ne Some new(1,2) same [OF q js(3)] by (auto simp: descend_snoc)
    qed
  qed
qed

lemma lookup_link:
  assumes wf: "wf_tree m root" and p: "idx (path @ [i])" "descend m root path = Some p"
    and inv: "\<not> bit (entry m p i) 0"
    and new: "bit (entry m' p i) 0" "PTE2PA (entry m' p i) = r" "\<And>j. j < 512 \<Longrightarrow> entry m' r j = 0"
    and same: "\<And>q j. q \<in> pt_nodes m root \<Longrightarrow> j < 512 \<Longrightarrow> q \<noteq> p \<or> j \<noteq> i \<Longrightarrow>
      entry m' q j = entry m q j"
  shows "lookup m' root va = lookup m root va"
proof -
  have d: "descend m' root (va_path va) =
      (if va_path va = path @ [i] then Some r else descend m root (va_path va))"
    by (rule descend_link [OF assms]) simp_all
  show ?thesis
  proof (cases "va_path va = path @ [i]")
    case True
    then have "descend m root (va_path va) = None" using p(2) inv by (simp add: descend_snoc)
    then show ?thesis using True d new(3) unat_PX by (simp add: lookup_def)
  next
    case ne: False
    show ?thesis
    proof (cases "descend m root (va_path va)")
      case None
      then show ?thesis using ne d by (simp add: lookup_def)
    next
      case (Some q)
      have "va_path va \<noteq> path" using p(1) by (auto simp: idx_def va_path_def)
      moreover have "idx path" using p(1) by (auto simp: idx_def)
      ultimately have "q \<noteq> p" using wf_treeD [OF wf idx_va_path(1) _ Some] p(2) by blast
      moreover have "q \<in> pt_nodes m root" using Some by (auto simp: pt_nodes_def intro: idx_va_path)
      ultimately show ?thesis
        using ne d Some same [of q "unat (PX 0 va)"] unat_PX by (simp add: lookup_def)
    qed
  qed
qed

lemma pt_nodes_link:
  assumes "idx (path @ [i])" "descend m root (path @ [i]) = None"
    and "\<And>js. idx js \<Longrightarrow> descend m' root js = (if js = path @ [i] then Some r else descend m root js)"
  shows "pt_nodes m' root = insert r (pt_nodes m root)"
proof (intro set_eqI iffI)
  fix q assume "q \<in> pt_nodes m' root"
  then obtain js where "idx js" "descend m' root js = Some q" by (auto simp: pt_nodes_def)
  then show "q \<in> insert r (pt_nodes m root)"
    using assms(3) [of js] by (auto simp: pt_nodes_def split: if_splits)
next
  fix q assume q: "q \<in> insert r (pt_nodes m root)"
  show "q \<in> pt_nodes m' root"
  proof (cases "q = r")
    case True
    then have "descend m' root (path @ [i]) = Some q" using assms(1,3) by simp
    then show ?thesis using assms(1) unfolding pt_nodes_def by blast
  next
    case False
    then obtain js where js: "idx js" "descend m root js = Some q"
      using q unfolding pt_nodes_def by blast
    then have "js \<noteq> path @ [i]" using assms(2) by auto
    then have "descend m' root js = Some q" using js assms(3) by simp
    then show ?thesis using js(1) unfolding pt_nodes_def by blast
  qed
qed

lemma wf_tree_link:
  assumes "wf_tree m root" "idx (path @ [i])" "descend m root (path @ [i]) = None"
    and d: "\<And>js. idx js \<Longrightarrow> descend m' root js = (if js = path @ [i] then Some r else descend m root js)"
    and r: "r \<notin> pt_nodes m root" "aligned 4096 r" "r \<noteq> 0"
  shows "wf_tree m' root"
proof -
  have "js = ks" if j: "idx js" "idx ks" "descend m' root js = Some p" "descend m' root ks = Some p"
    for js ks p
  proof -
    have "descend m root js \<noteq> Some r" "descend m root ks \<noteq> Some r"
      using r(1) j(1,2) by (auto simp: pt_nodes_def)
    then show ?thesis using j d wf_treeD [OF assms(1) j(1,2)] by (auto split: if_splits)
  qed
  moreover have "aligned 4096 p \<and> p \<noteq> 0" if "p \<in> pt_nodes m' root" for p
    using that assms(1) r pt_nodes_link [OF assms(2,3) d] by (auto simp: wf_tree_def)
  ultimately show ?thesis unfolding wf_tree_def by blast
qed

section \<open>Walking\<close>

lemma kalloc_inv_ram:
  assumes inv: "kalloc_inv s ps" and same: "\<forall>x. PGROUNDDOWN x \<in> set ps \<longrightarrow> m x = ram s x"
  shows "kalloc_inv (s\<lparr>ram := m\<rparr>) ps"
proof (rule kalloc_invI)
  have "free_list m (freelist s) ps = free_list (ram s) (freelist s) ps"
  proof (rule free_list_frame, intro ballI conjI allI impI)
    fix q assume q: "q \<in> set ps"
    then show al: "aligned 4096 q" using kalloc_invD(4) [OF inv] by (simp add: managed_def)
    fix x assume "in_range q 4096 x"
    then show "m x = ram s x" using same q by (simp add: in_page_iff [OF al])
  qed
  then show "free_list (ram (s\<lparr>ram := m\<rparr>)) (freelist (s\<lparr>ram := m\<rparr>)) ps"
    using kalloc_invD(2) [OF inv] by simp
  note K = kalloc_invD [OF inv]
  have m: "managed (s\<lparr>ram := m\<rparr>) p = managed s p" for p by (simp add: managed_def)
  show "\<forall>p \<in> set ps. managed (s\<lparr>ram := m\<rparr>) p" using K(4) m by blast
  show "(p \<in> set ps) = (fr (s\<lparr>ram := m\<rparr>) (fn p) = 0)" if "managed (s\<lparr>ram := m\<rparr>) p" for p
    using K(5) [of p] that m by simp
  show "KERNBASE \<le> kend (s\<lparr>ram := m\<rparr>)" "distinct ps" using K(1,3) by simp_all
qed

lemma kmem_availD:
  assumes "kmem_avail s ps"
  shows "kalloc_inv s ps" "distinct ps" "KERNBASE \<le> kend s" "lock_kalloc s \<longrightarrow> \<not> memref_held s"
    and "\<And>p. p \<in> set ps \<Longrightarrow> managed s p \<and> fr s (fn p) = 0 \<and> aligned 4096 p \<and> p \<noteq> 0"
    and "\<And>p. p \<in> busy s \<Longrightarrow> p \<notin> set ps"
proof -
  show inv: "kalloc_inv s ps" and "lock_kalloc s \<longrightarrow> \<not> memref_held s"
    using assms by (simp_all add: kmem_avail_def)
  note K = kalloc_invD [OF inv]
  show "distinct ps" "KERNBASE \<le> kend s" by (rule K)+
  show "managed s p \<and> fr s (fn p) = 0 \<and> aligned 4096 p \<and> p \<noteq> 0" if "p \<in> set ps" for p
    using K(4) [OF that] K(5) [of p] that managed_nonzero [OF K(1), of p]
    by (metis managed_def)
  show "p \<notin> set ps" if "p \<in> busy s" for p using that K(5) [of p] by (simp add: busy_def)
qed

lemma wf_ptD:
  assumes "wf_pt s root" "idx js" "descend (ram s) root js = Some p"
  shows "aligned 4096 p" "p \<noteq> 0" "p \<in> busy s" "managed s p" "p \<in> pt_nodes (ram s) root"
  using assms wf_tree_node unfolding wf_pt_def pt_nodes_def busy_def by blast+

lemma wf_pt_node:
  assumes "wf_pt s root" "p \<in> pt_nodes (ram s) root"
  shows "aligned 4096 p" "p \<noteq> 0" "p \<in> busy s" "managed s p"
  using assms wf_ptD unfolding pt_nodes_def by blast+

lemma grown_refl: "kmem_avail s ps \<Longrightarrow> wf_pt s root \<Longrightarrow> grown root s ps s ps"
  by (simp add: grown_def)

lemma grown_trans:
  assumes "grown root s ps s1 ps1" "grown root s1 ps1 s2 ps2"
  shows "grown root s ps s2 ps2"
proof -
  obtain qs qs1 where ps: "ps = qs @ ps1" "ps1 = qs1 @ ps2" using assms unfolding grown_def by blast
  have m: "managed s1 p = managed s p" for p using assms(1) by (simp add: grown_def managed_def)
  have "fr s2 (fn p) = fr s (fn p)" if "managed s p" "p \<notin> set ps" for p
    using assms that m [of p] ps by (simp add: grown_def)
  moreover have "ram s2 x = ram s x" if "PGROUNDDOWN x \<notin> pt_nodes (ram s) root \<union> set ps" for x
  proof -
    have "PGROUNDDOWN x \<notin> pt_nodes (ram s1) root \<union> set ps1"
      using that assms(1) ps(1) unfolding grown_def by auto
    then show ?thesis using that assms unfolding grown_def by metis
  qed
  moreover have "pt_nodes (ram s2) root \<subseteq> pt_nodes (ram s) root \<union> set ps"
    using assms ps unfolding grown_def by auto
  ultimately show ?thesis using assms ps unfolding grown_def by auto
qed

lemma walk_link:
  assumes av: "kmem_avail s (r # ps)" and wf: "wf_pt s root"
    and p: "idx (path @ [i])" "descend (ram s) root path = Some p" "\<not> bit (entry (ram s) p i) 0"
  defines "s2 \<equiv> s\<lparr>freelist := load64 (ram s) r, fr := (fr s)(fn r := 1),
     ram := store64 (memset 4096 (memset 4096 (ram s) r 5) r 0) (p + 8 * of_nat i)
              (PA2PTE r OR PTE_V)\<rparr>"
  shows "grown root s (r # ps) s2 ps" "descend (ram s2) root (path @ [i]) = Some r"
    "lookup (ram s2) root va = lookup (ram s) root va"
proof -
  note D = kmem_availD [OF av]
  have r: "managed s r" "aligned 4096 r" "r \<noteq> 0" "r \<notin> set ps" "r \<notin> busy s"
    using D(2) D(5) [of r] D(6) [of r] by auto
  have "idx path" using p(1) by (auto simp: idx_def)
  note P = wf_ptD [OF wf this p(2)]
  have i: "i < 512" using p(1) by simp
  have tree: "wf_tree (ram s) root" and nb: "pt_nodes (ram s) root \<subseteq> busy s"
    using wf by (simp_all add: wf_pt_def)
  have pr: "p \<noteq> r" using P(3) r(5) by auto
  have frame: "ram s2 x = ram s x" if "PGROUNDDOWN x \<noteq> p" "PGROUNDDOWN x \<noteq> r" for x
    using that r(2) P(1) i
    by (simp add: s2_def store64_entry_frame memset_page_other in_page_iff)
  have e_p: "entry (ram s2) p i = PA2PTE r OR PTE_V"
    using P(1) i by (simp add: s2_def entry_store64)
  have e_r: "entry (ram s2) r j = 0" if "j < 512" for j
    using that P(1) i r(2) pr by (simp add: s2_def entry_store64 entry_zero_page)
  have e_q: "entry (ram s2) q j = entry (ram s) q j"
    if "q \<in> pt_nodes (ram s) root" "j < 512" "q \<noteq> p \<or> j \<noteq> i" for q j
  proof -
    have al: "aligned 4096 q" "q \<noteq> r" using wf_pt_node [OF wf that(1)] r(5) by auto
    have "entry (ram s2) q j = entry (memset 4096 (memset 4096 (ram s) r 5) r 0) q j"
      using that(2,3) al P(1) i by (auto simp: s2_def entry_store64)
    also have "\<dots> = entry (ram s) q j"
      using al that(2) r(2) by (intro entry_cong) (auto simp: memset_page_other in_page_iff)
    finally show ?thesis .
  qed
  have V: "bit (entry (ram s2) p i) 0" "PTE2PA (entry (ram s2) p i) = r"
    using PTE2PA_PA2PTE [OF r(2), of PTE_V] by (simp_all add: e_p bit_simps bit_pte_bits PTE_V_def)
  note link = descend_link [OF tree p V e_r e_q]
  have none: "descend (ram s) root (path @ [i]) = None" using p(2,3) by (simp add: descend_snoc)
  have nodes: "pt_nodes (ram s2) root = insert r (pt_nodes (ram s) root)"
    by (rule pt_nodes_link [OF p(1) none link])
  have m: "managed s2 q = managed s q" for q by (simp add: s2_def managed_def)
  have fr2: "fr s2 (fn q) = (if q = r then 1 else fr s (fn q))" if "managed s q" for q
    using fn_inj [of s q r] that r(1) D(3) by (auto simp: s2_def)
  show "descend (ram s2) root (path @ [i]) = Some r" using link p(1) by simp
  show "lookup (ram s2) root va = lookup (ram s) root va"
    by (rule lookup_link [OF tree p V e_r e_q])
  have "wf_tree (ram s2) root"
    using r nb by (intro wf_tree_link [OF tree p(1) none link]) auto
  moreover have "pt_nodes (ram s2) root \<subseteq> busy s2"
  proof -
    have "\<forall>q \<in> pt_nodes (ram s) root. managed s q \<and> fr s (fn q) \<noteq> 0"
      using nb by (auto simp: busy_def)
    then show ?thesis unfolding nodes using r(1) by (auto simp: busy_def m fr2 split: if_splits)
  qed
  moreover have "kmem_avail s2 ps"
  proof -
    have "kalloc_inv (s2\<lparr>ram := memset 4096 (ram s) r 5\<rparr>) ps"
      using kalloc_cons(2) [OF D(1,4)] by (simp add: s2_def)
    moreover have "ram s2 x = memset 4096 (ram s) r 5 x" if "PGROUNDDOWN x \<in> set ps" for x
    proof -
      have "PGROUNDDOWN x \<noteq> r" "PGROUNDDOWN x \<noteq> p" using that r(4) P(3) D(6) [of p] by auto
      then show ?thesis using frame r(2) by (simp add: memset_page_other in_page_iff)
    qed
    ultimately show ?thesis
      using kalloc_inv_ram [of "s2\<lparr>ram := memset 4096 (ram s) r 5\<rparr>" ps "ram s2"] D(4)
      by (simp add: kmem_avail_def s2_def)
  qed
  moreover have "ram s2 x = ram s x"
    if "PGROUNDDOWN x \<notin> pt_nodes (ram s) root \<union> set (r # ps)" for x
    using that P(5) by (intro frame) auto
  ultimately show "grown root s (r # ps) s2 ps"
    unfolding grown_def wf_pt_def nodes using fr2 by (auto simp: s2_def)
qed

lemma walk_from_lookup:
  "walk_from level s pt va False =
     (case descend (ram s) pt (map (\<lambda>l. unat (PX l va)) (rev [1..<Suc level])) of
        None \<Rightarrow> Ok (0, s) | Some p \<Rightarrow> Ok (pte_at p 0 va, s))"
  by (induction level arbitrary: pt) (simp_all add: Let_def pte_at_def entry_def)

lemma walk_no_alloc:
  assumes "va < MAXVA"
  shows "walk s root va False =
    (case descend (ram s) root (va_path va) of
       None \<Rightarrow> Ok (0, s) | Some p \<Rightarrow> Ok (p + 8 * PX 0 va, s))"
  using assms walk_from_lookup [of 2 s root va]
  by (simp add: walk_def va_path_def pte_at_def numeral_2_eq_2 not_le)

lemma walk_from_alloc:
  assumes "kmem_avail s ps" "wf_pt s root" "descend (ram s) root path = Some pt" "idx path"
    and "va_path va = path @ map (\<lambda>l. unat (PX l va)) (rev [1..<Suc level])"
  shows "\<exists>pte s' ps'. walk_from level s pt va True = Ok (pte, s') \<and> grown root s ps s' ps' \<and>
    (\<forall>vb. lookup (ram s') root vb = lookup (ram s) root vb) \<and>
    length ps \<le> length ps' + level \<and>
    (if pte = 0 then length ps < level
     else \<exists>p. descend (ram s') root (va_path va) = Some p \<and> pte = p + 8 * PX 0 va)"
  using assms
proof (induction level arbitrary: s ps pt path)
  case 0
  have "va_path va = path" using "0.prems"(5) by simp
  note P = wf_ptD [OF "0.prems"(2,4,3)]
  have "unat (pt + 8 * of_nat (unat (PX 0 va))) \<noteq> 0"
    using unat_entry_addr(1) [OF P(1) unat_PX] P(2) by (simp add: unat_eq_0)
  then have "pt + 8 * PX 0 va \<noteq> 0" by auto
  then show ?case
    using "0.prems" \<open>va_path va = path\<close> grown_refl by (auto simp: pte_at_def)
next
  case (Suc level)
  let ?i = "unat (PX (Suc level) va)"
  have path: "va_path va = (path @ [?i]) @ map (\<lambda>l. unat (PX l va)) (rev [1..<Suc level])"
    using Suc.prems(5) by simp
  have idx: "idx (path @ [?i])"
    using Suc.prems(4) path idx_va_path(2) [of va] unat_PX by (auto simp: idx_def)
  have e: "load64 (ram s) (pte_at pt (Suc level) va) = entry (ram s) pt ?i"
    by (simp add: pte_at_def entry_def)
  show ?case
  proof (cases "bit (entry (ram s) pt ?i) 0")
    case True
    then have "descend (ram s) root (path @ [?i]) = Some (PTE2PA (entry (ram s) pt ?i))"
      using Suc.prems(3) by (simp add: descend_snoc)
    from Suc.IH [OF Suc.prems(1,2) this idx path] show ?thesis
      using True by (simp add: e Let_def) (metis le_SucI less_SucI)
  next
    case invalid: False
    show ?thesis
    proof (cases ps)
      case Nil
      then have "kalloc s = Ok (0, s)" using Suc.prems(1) kalloc_empty by (simp add: kmem_avail_def)
      then show ?thesis
        using invalid Nil grown_refl [OF Suc.prems(1,2)] by (auto simp: e Let_def)
    next
      case (Cons r rs)
      note D = kmem_availD [OF Suc.prems(1) [unfolded Cons]]
      note link = walk_link [OF Suc.prems(1) [unfolded Cons] Suc.prems(2) idx Suc.prems(3) invalid]
      define s2 where "s2 = s\<lparr>freelist := load64 (ram s) r, fr := (fr s)(fn r := 1),
        ram := store64 (memset 4096 (memset 4096 (ram s) r 5) r 0) (pt + 8 * of_nat ?i)
          (PA2PTE r OR PTE_V)\<rparr>"
      note link = link [folded s2_def]
      have "walk_from (Suc level) s pt va True = walk_from level s2 r va True"
        using invalid kalloc_cons(1) [OF D(1,4)] D(5) [of r]
        by (simp add: Let_def s2_def pte_at_def entry_def)
      moreover have "kmem_avail s2 rs" "wf_pt s2 root" using link(1) by (simp_all add: grown_def)
      ultimately obtain pte s' ps' where r: "walk_from (Suc level) s pt va True = Ok (pte, s')"
        "grown root s2 rs s' ps'" "\<forall>vb. lookup (ram s') root vb = lookup (ram s2) root vb"
        "length rs \<le> length ps' + level" "if pte = 0 then length rs < level
          else \<exists>p. descend (ram s') root (va_path va) = Some p \<and> pte = p + 8 * PX 0 va"
        using Suc.IH [OF _ _ link(2) idx path] by metis
      then show ?thesis
        using grown_trans [OF link(1) r(2)] link(3) Cons by (intro exI [of _ pte] exI [of _ s'] exI [of _ ps']) auto
    qed
  qed
qed

lemma walk_alloc:
  assumes "kmem_avail s ps" "wf_pt s root" "va < MAXVA"
  shows "\<exists>pte s' ps'. walk s root va True = Ok (pte, s') \<and> grown root s ps s' ps' \<and>
    (\<forall>vb. lookup (ram s') root vb = lookup (ram s) root vb) \<and>
    length ps \<le> length ps' + 2 \<and>
    (if pte = 0 then length ps < 2
     else \<exists>p. descend (ram s') root (va_path va) = Some p \<and> pte = p + 8 * PX 0 va)"
  using walk_from_alloc [OF assms(1,2), of "[]" root va 2] assms(3)
  by (simp add: walk_def not_le idx_def va_path_def numeral_2_eq_2)

lemma load_pte: "descend m root (va_path va) = Some p \<Longrightarrow> load64 m (p + 8 * PX 0 va) = lookup m root va"
  by (simp add: lookup_def entry_def)

lemma set_leaf:
  fixes v :: u64
  assumes av: "kmem_avail s ps" and wf: "wf_pt s root" and va: "va < MAXVA"
    and p: "descend (ram s) root (va_path va) = Some p"
  defines "s' \<equiv> s\<lparr>ram := store64 (ram s) (p + 8 * PX 0 va) v\<rparr>"
  shows "grown root s ps s' ps" "pt_nodes (ram s') root = pt_nodes (ram s) root"
    "vb < MAXVA \<Longrightarrow> lookup (ram s') root vb =
      (if PGROUNDDOWN vb = PGROUNDDOWN va then v else lookup (ram s) root vb)"
    "idx js \<Longrightarrow> descend (ram s') root js = descend (ram s) root js"
proof -
  have e: "p + 8 * PX 0 va = p + 8 * of_nat (unat (PX 0 va))" by simp
  have tree: "wf_tree (ram s) root" using wf by (simp add: wf_pt_def)
  note P = wf_ptD [OF wf idx_va_path(1) p]
  have d: "descend (ram s') root js = descend (ram s) root js" if "idx js" for js
    unfolding s'_def using descend_set_leaf [OF tree idx_va_path p unat_PX that] by simp
  then show "idx js \<Longrightarrow> descend (ram s') root js = descend (ram s) root js" .
  show nodes: "pt_nodes (ram s') root = pt_nodes (ram s) root"
    unfolding pt_nodes_def using d by (metis (no_types, lifting))
  show "vb < MAXVA \<Longrightarrow> lookup (ram s') root vb =
      (if PGROUNDDOWN vb = PGROUNDDOWN va then v else lookup (ram s) root vb)"
    using lookup_set_leaf [OF tree p va] by (simp add: s'_def)
  have frame: "ram s' x = ram s x" if "PGROUNDDOWN x \<noteq> p" for x
    using store64_entry_frame [OF P(1) unat_PX that] by (simp add: s'_def)
  have "wf_tree (ram s') root" using tree d nodes unfolding wf_tree_def by metis
  moreover have "busy s' = busy s" by (simp add: busy_def s'_def managed_def)
  ultimately have "wf_pt s' root" using wf nodes by (simp add: wf_pt_def)
  moreover have "kalloc_inv s' ps"
  proof -
    have "\<forall>x. PGROUNDDOWN x \<in> set ps \<longrightarrow> ram s' x = ram s x"
      using frame kmem_availD(6) [OF av P(3)] by metis
    from kalloc_inv_ram [OF kmem_availD(1) [OF av] this] show ?thesis by (simp add: s'_def)
  qed
  moreover have "\<forall>x. PGROUNDDOWN x \<notin> pt_nodes (ram s) root \<union> set ps \<longrightarrow> ram s' x = ram s x"
    using frame P(5) by (metis UnI1)
  ultimately show "grown root s ps s' ps"
    using av nodes unfolding grown_def kmem_avail_def by (simp add: s'_def)
qed

section \<open>Mapping\<close>

lemma page_in_range:
  assumes "aligned 4096 a" "unat a + n * 4096 \<le> 2 ^ 38" "k < n"
  shows "unat (a + of_nat k * PGSIZE) = unat a + k * 4096" "a + of_nat k * PGSIZE < MAXVA"
proof -
  have b: "unat a + k * 4096 < 2 ^ 38" using assms by (auto simp: add.commute)
  have "a + of_nat k * PGSIZE = a + of_nat (k * 4096)" by (simp add: PGSIZE_def)
  moreover have "unat (a + of_nat (k * 4096)) = unat a + k * 4096"
    using b by (intro add_unat_less [where n = "Suc (k * 4096)"]) simp_all
  ultimately show "unat (a + of_nat k * PGSIZE) = unat a + k * 4096" by metis
  then show "a + of_nat k * PGSIZE < MAXVA" using b by (simp add: word_less_nat_alt MAXVA_val)
qed

lemma pages_from_PGROUNDDOWN:
  assumes "aligned 4096 a"
  shows "pages_from a 1 va \<longleftrightarrow> PGROUNDDOWN va = a"
    and "pages_from a (Suc n) va \<longleftrightarrow> PGROUNDDOWN va = a \<or> (unat a + 4096 \<le> unat va \<and> unat va < unat a + Suc n * 4096)"
proof -
  obtain b where b: "unat a = 4096 * b" using assms by (auto simp: aligned_def)
  have "PGROUNDDOWN va = a \<longleftrightarrow> unat va div 4096 = b"
    by (auto simp: word_unat_eq_iff unat_PGROUNDDOWN b)
  also have "\<dots> \<longleftrightarrow> 4096 * b \<le> unat va \<and> unat va < 4096 * b + 4096" by auto
  finally show "pages_from a 1 va \<longleftrightarrow> PGROUNDDOWN va = a"
    and "pages_from a (Suc n) va \<longleftrightarrow> PGROUNDDOWN va = a \<or> (unat a + 4096 \<le> unat va \<and> unat va < unat a + Suc n * 4096)"
    by (auto simp: pages_from_def b)
qed

lemma pages_from_Suc:
  assumes "aligned 4096 a" "unat a + Suc n * 4096 \<le> 2 ^ 38"
  shows "pages_from a (Suc n) vb \<longleftrightarrow> PGROUNDDOWN vb = a \<or> pages_from (a + PGSIZE) n vb"
    and "PGROUNDDOWN vb = a \<Longrightarrow> \<not> pages_from (a + PGSIZE) n vb"
    and "pages_from a (Suc n) vb \<Longrightarrow> vb < MAXVA"
    and "unat (a + PGSIZE) = unat a + 4096" and "aligned 4096 (a + PGSIZE)"
    and "a < MAXVA" and "PGROUNDDOWN a = a"
proof -
  have a: "unat (a + PGSIZE) = unat a + 4096"
  proof (cases n)
    case 0
    then have "unat a + 4096 \<le> 2 ^ 38" using assms by simp
    then show ?thesis by (subst unat_add_lem [THEN iffD1]) (simp_all add: PGSIZE_def)
  next
    case (Suc k)
    then show ?thesis using page_in_range(1) [OF assms, of 1] by simp
  qed
  then show "unat (a + PGSIZE) = unat a + 4096" "aligned 4096 (a + PGSIZE)"
    using assms(1) by (simp_all add: aligned_def)
  show "a < MAXVA" "PGROUNDDOWN a = a"
    using page_in_range(2) [OF assms, of 0] assms(1) by (simp_all add: PGROUNDDOWN_id)
  show "pages_from a (Suc n) vb \<longleftrightarrow> PGROUNDDOWN vb = a \<or> pages_from (a + PGSIZE) n vb"
    "PGROUNDDOWN vb = a \<Longrightarrow> \<not> pages_from (a + PGSIZE) n vb"
    using pages_from_PGROUNDDOWN(1) [OF assms(1), of vb] pages_from_PGROUNDDOWN(2) [OF assms(1), of n vb]
    by (auto simp: pages_from_def a)
  show "pages_from a (Suc n) vb \<Longrightarrow> vb < MAXVA"
    using assms(2) by (auto simp: pages_from_def word_less_nat_alt MAXVA_val)
qed

lemma mappages_step:
  assumes av: "kmem_avail s ps" and wf: "wf_pt s root" and a: "a < MAXVA"
    and free: "\<not> bit (lookup (ram s) root a) 0"
  obtains (full) s' ps' where "mappages_loop s root a final pa perm = Ok (- 1, s')"
      "grown root s ps s' ps'" "length ps < 2" "\<forall>vb. lookup (ram s') root vb = lookup (ram s) root vb"
  | (mapped) s' ps' where
      "mappages_loop s root a final pa perm =
        (if a = final then Ok (0, s') else mappages_loop s' root (a + PGSIZE) final (pa + PGSIZE) perm)"
      "grown root s ps s' ps'" "length ps \<le> length ps' + 2"
      "\<forall>vb < MAXVA. lookup (ram s') root vb = (if PGROUNDDOWN vb = PGROUNDDOWN a
         then PA2PTE pa OR perm OR PTE_V else lookup (ram s) root vb)"
proof -
  obtain pte s1 ps1 where w: "walk s root a True = Ok (pte, s1)" "grown root s ps s1 ps1"
    and same: "\<forall>vb. lookup (ram s1) root vb = lookup (ram s) root vb"
    and len: "length ps \<le> length ps1 + 2"
    and pte: "if pte = 0 then length ps < 2
      else \<exists>p. descend (ram s1) root (va_path a) = Some p \<and> pte = p + 8 * PX 0 a"
    using walk_alloc [OF av wf a] by blast
  show thesis
  proof (cases "pte = 0")
    case True
    then show thesis
      using w same pte by (intro full [of s1 ps1]) (subst mappages_loop.simps, simp_all)
  next
    case False
    then obtain p where p: "descend (ram s1) root (va_path a) = Some p" "pte = p + 8 * PX 0 a"
      using pte by auto
    have "\<not> bit (load64 (ram s1) pte) 0" using p free same by (simp add: load_pte)
    moreover have "kmem_avail s1 ps1" "wf_pt s1 root" using w(2) by (simp_all add: grown_def)
    note leaf = set_leaf [OF this a p(1), folded p(2), where v = "PA2PTE pa OR perm OR PTE_V"]
    ultimately show thesis
      using w(1) False same len leaf(3) grown_trans [OF w(2) leaf(1)]
      by (intro mapped [of "s1\<lparr>ram := store64 (ram s1) pte (PA2PTE pa OR perm OR PTE_V)\<rparr>" ps1])
        (subst mappages_loop.simps, simp_all)
  qed
qed

lemma mappages_loop_spec:
  assumes "kmem_avail s ps" "wf_pt s root" "aligned 4096 a" "unat a + Suc n * 4096 \<le> 2 ^ 38"
    and "final = a + of_nat n * PGSIZE"
    and "\<forall>vb < MAXVA. pages_from a (Suc n) vb \<longrightarrow> \<not> bit (lookup (ram s) root vb) 0"
  shows "\<exists>r s' ps'. mappages_loop s root a final pa perm = Ok (r, s') \<and> grown root s ps s' ps' \<and>
    (\<forall>vb < MAXVA. \<not> pages_from a (Suc n) vb \<longrightarrow> lookup (ram s') root vb = lookup (ram s) root vb) \<and>
    length ps \<le> length ps' + 2 * Suc n \<and>
    (r = - 1 \<and> length ps < 2 * Suc n \<or>
     r = 0 \<and> (\<forall>vb < MAXVA. pages_from a (Suc n) vb \<longrightarrow>
       lookup (ram s') root vb = PA2PTE (pa + (PGROUNDDOWN vb - a)) OR perm OR PTE_V))"
  using assms
proof (induction n arbitrary: s ps a pa)
  case 0
  note in_page = pages_from_PGROUNDDOWN(1) [OF "0.prems"(3)]
  have a: "a < MAXVA" "PGROUNDDOWN a = a" "a = final"
    using page_in_range(2) [OF "0.prems"(3,4), of 0] "0.prems" by (simp_all add: PGROUNDDOWN_id)
  have "\<not> bit (lookup (ram s) root a) 0" using "0.prems"(6) a in_page by simp
  from mappages_step [OF "0.prems"(1,2) a(1) this, of final pa perm] show ?case
    using a in_page by cases auto
next
  case (Suc n)
  note pages = pages_from_Suc [OF Suc.prems(3,4)]
  have a: "a < MAXVA" "PGROUNDDOWN a = a" "unat (a + PGSIZE) = unat a + 4096" by (rule pages)+
  note split = pages(1) and disj = pages(2)
  have ne: "a \<noteq> final"
    using page_in_range(1) [OF Suc.prems(3,4), of "Suc n"] Suc.prems(5) by auto
  have free: "\<not> bit (lookup (ram s) root a) 0" using Suc.prems(6) a split by simp
  show ?case
  proof (cases rule: mappages_step [OF Suc.prems(1,2) a(1) free, of final pa perm, case_names full mapped])
    case (full s' ps')
    then show ?thesis by (intro exI [of _ "- 1"] exI [of _ s'] exI [of _ ps']) auto
  next
    case (mapped s1 ps1)
    have g: "kmem_avail s1 ps1" "wf_pt s1 root" using mapped(2) by (simp_all add: grown_def)
    have "\<forall>vb < MAXVA. pages_from (a + PGSIZE) (Suc n) vb \<longrightarrow> \<not> bit (lookup (ram s1) root vb) 0"
      using mapped(4) Suc.prems(6) split disj a(2) by auto
    then obtain r s' ps' where r: "mappages_loop s1 root (a + PGSIZE) final (pa + PGSIZE) perm = Ok (r, s')"
      "grown root s1 ps1 s' ps'"
      "\<forall>vb < MAXVA. \<not> pages_from (a + PGSIZE) (Suc n) vb \<longrightarrow> lookup (ram s') root vb = lookup (ram s1) root vb"
      "length ps1 \<le> length ps' + 2 * Suc n"
      "r = - 1 \<and> length ps1 < 2 * Suc n \<or> r = 0 \<and> (\<forall>vb < MAXVA. pages_from (a + PGSIZE) (Suc n) vb \<longrightarrow>
         lookup (ram s') root vb = PA2PTE (pa + PGSIZE + (PGROUNDDOWN vb - (a + PGSIZE))) OR perm OR PTE_V)"
      using Suc.IH [OF g pages(5), of "pa + PGSIZE"] Suc.prems(4,5) a(3) by (auto simp: algebra_simps)
    have "grown root s ps s' ps'" using grown_trans mapped(2) r(2) by blast
    moreover have "mappages_loop s root a final pa perm = Ok (r, s')" using mapped(1) ne r(1) by simp
    moreover have "length ps \<le> length ps' + 2 * Suc (Suc n)" using mapped(3) r(4) by simp
    moreover have "r = - 1 \<longrightarrow> length ps < 2 * Suc (Suc n)" using mapped(3) r(5) by auto
    ultimately show ?thesis
      using r(3,5) mapped(4) split disj a(2) by auto
  qed
qed

lemma covers_pages:
  assumes "0 < sz" "unat va + unat sz \<le> 2 ^ 38"
  obtains n where "PGROUNDDOWN (va + sz - 1) = PGROUNDDOWN va + of_nat n * PGSIZE"
    "unat (PGROUNDDOWN va) + Suc n * 4096 \<le> 2 ^ 38"
    "\<And>vb. covers va sz vb \<longleftrightarrow> pages_from (PGROUNDDOWN va) (Suc n) vb" "span va sz = Suc n"
proof -
  have pos: "0 < unat sz" using assms(1) by (simp add: word_less_nat_alt)
  have s1: "unat (sz - 1) = unat sz - 1" using assms(1) by (intro unat_minus_one) auto
  then have "unat (va + (sz - 1)) = unat va + unat (sz - 1)"
    using assms(2) by (subst unat_add_lem [THEN iffD1]) simp_all
  then have hi: "unat (va + sz - 1) = unat va + unat sz - 1" using pos s1 by (simp add: add_diff_eq)
  define b c where "b = unat va div 4096" and "c = (unat va + unat sz - 1) div 4096"
  have ub: "unat (PGROUNDDOWN va) = 4096 * b" and uc: "unat (PGROUNDDOWN (va + sz - 1)) = 4096 * c"
    by (simp_all add: unat_PGROUNDDOWN hi b_def c_def)
  have bc: "b \<le> c" unfolding b_def c_def using pos by (intro div_le_mono) simp
  have c: "Suc c * 4096 \<le> 2 ^ 38" unfolding c_def using assms(2) pos by simp
  obtain n where n: "c = b + n" using bc le_Suc_ex by blast
  have top: "unat (PGROUNDDOWN va) + Suc n * 4096 \<le> 2 ^ 38" using bc c by (simp add: ub n)
  note last = page_in_range(1) [OF aligned_PGROUNDDOWN top, of n]
  show thesis
  proof
    show "PGROUNDDOWN (va + sz - 1) = PGROUNDDOWN va + of_nat n * PGSIZE"
      unfolding word_unat_eq_iff using last uc ub by (simp add: n)
    show "unat (PGROUNDDOWN va) + Suc n * 4096 \<le> 2 ^ 38" by (rule top)
    show "span va sz = Suc n" by (simp add: span_def ub uc n)
    fix vb
    have "covers va sz vb \<longleftrightarrow> b \<le> unat vb div 4096 \<and> unat vb div 4096 \<le> c"
      by (simp add: covers_def word_le_nat_alt ub uc) (simp add: unat_PGROUNDDOWN)
    also have "\<dots> \<longleftrightarrow> 4096 * b \<le> unat vb \<and> unat vb < 4096 * Suc c"
      by (auto simp: less_eq_div_iff_mult_less_eq div_less_iff_less_mult less_Suc_eq_le [symmetric])
    finally show "covers va sz vb \<longleftrightarrow> pages_from (PGROUNDDOWN va) (Suc n) vb"
      by (simp add: pages_from_def ub n algebra_simps)
  qed
qed

lemma mappages_spec:
  assumes "kmem_avail s ps" "wf_pt s root" "0 < sz" "unat va + unat sz \<le> 2 ^ 38"
    and "\<forall>vb < MAXVA. covers va sz vb \<longrightarrow> \<not> bit (lookup (ram s) root vb) 0"
  shows "\<exists>r s' ps'. mappages s root va sz pa perm = Ok (r, s') \<and> grown root s ps s' ps' \<and>
    (\<forall>vb < MAXVA. \<not> covers va sz vb \<longrightarrow> lookup (ram s') root vb = lookup (ram s) root vb) \<and>
    length ps \<le> length ps' + 2 * span va sz \<and>
    (r = - 1 \<and> length ps < 2 * span va sz \<or>
     r = 0 \<and> (\<forall>vb < MAXVA. covers va sz vb \<longrightarrow>
       lookup (ram s') root vb = PA2PTE (pa + (PGROUNDDOWN vb - PGROUNDDOWN va)) OR perm OR PTE_V))"
proof -
  obtain n where n: "PGROUNDDOWN (va + sz - 1) = PGROUNDDOWN va + of_nat n * PGSIZE"
    "unat (PGROUNDDOWN va) + Suc n * 4096 \<le> 2 ^ 38"
    "\<And>vb. covers va sz vb \<longleftrightarrow> pages_from (PGROUNDDOWN va) (Suc n) vb" "span va sz = Suc n"
    using covers_pages [OF assms(3,4)] by metis
  have "mappages s root va sz pa perm =
      mappages_loop s root (PGROUNDDOWN va) (PGROUNDDOWN (va + sz - 1)) pa perm"
    using assms(3) by (auto simp: mappages_def)
  then show ?thesis
    using mappages_loop_spec [OF assms(1,2) aligned_PGROUNDDOWN n(2,1), of pa perm] assms(5)
    unfolding n(3,4) by simp
qed

lemma table_frame:
  assumes wf: "wf_tree m root" and same: "\<forall>x. PGROUNDDOWN x \<in> pt_nodes m root \<longrightarrow> m' x = m x"
  shows "idx js \<Longrightarrow> descend m' root js = descend m root js" "pt_nodes m' root = pt_nodes m root"
    "lookup m' root va = lookup m root va" "wf_tree m' root"
proof -
  have e: "entry m' p j = entry m p j" if "p \<in> pt_nodes m root" "j < 512" for p j
    using that same wf by (intro entry_cong) (auto simp: wf_tree_def)
  have d: "descend m' root js = descend m root js" if "idx js" for js
    by (rule descend_frame [OF e that]) (auto simp: pt_nodes_def)
  then show "idx js \<Longrightarrow> descend m' root js = descend m root js" .
  show nodes: "pt_nodes m' root = pt_nodes m root"
    unfolding pt_nodes_def using d by (metis (no_types, lifting))
  show "wf_tree m' root" using wf d nodes unfolding wf_tree_def by metis
  show "lookup m' root va = lookup m root va"
    using d [OF idx_va_path(1), of va] e [OF _ unat_PX, of _ 0 va]
    by (auto simp: lookup_def pt_nodes_def intro: idx_va_path split: option.splits)
qed

lemma grown_other_table:
  assumes g: "grown root s ps s' ps'" and av: "kmem_avail s ps" and wf: "wf_pt s other"
    and disj: "pt_nodes (ram s) root \<inter> pt_nodes (ram s) other = {}"
  shows "wf_pt s' other" "lookup (ram s') other va = lookup (ram s) other va"
    "pt_nodes (ram s') other = pt_nodes (ram s) other"
    "pt_nodes (ram s') root \<inter> pt_nodes (ram s') other = {}"
proof -
  have free: "p \<notin> pt_nodes (ram s) root \<union> set ps" if "p \<in> pt_nodes (ram s) other" for p
    using that disj wf_pt_node(3) [OF wf that] kmem_availD(6) [OF av] by auto
  then have "\<forall>x. PGROUNDDOWN x \<in> pt_nodes (ram s) other \<longrightarrow> ram s' x = ram s x"
    using g unfolding grown_def by blast
  note T = table_frame [OF wf [unfolded wf_pt_def, THEN conjunct1] this]
  show "pt_nodes (ram s') other = pt_nodes (ram s) other"
    "lookup (ram s') other va = lookup (ram s) other va" by (rule T)+
  have "p \<in> busy s'" if "p \<in> pt_nodes (ram s) other" for p
    using wf_pt_node(3) [OF wf that] free [OF that] g by (auto simp: busy_def grown_def managed_def)
  then show "wf_pt s' other" using T by (auto simp: wf_pt_def)
  show "pt_nodes (ram s') root \<inter> pt_nodes (ram s') other = {}"
    using g free T(2) by (auto simp: grown_def)
qed

section \<open>Unmapping\<close>

lemma kfree_busy:
  assumes av: "kmem_avail s ps" and lk: "\<not> memref_held s" and pa: "managed s pa" "0 < sint (fr s (fn pa))"
  obtains s' ps' where "kfree s pa = Ok s'" "kmem_avail s' ps'" "kend s' = kend s"
    "\<not> memref_held s'" "lock_kalloc s' = lock_kalloc s" "fr s' = (fr s)(fn pa := fr s (fn pa) - 1)"
    "\<forall>x. PGROUNDDOWN x \<noteq> pa \<or> fr s (fn pa) \<noteq> 1 \<longrightarrow> ram s' x = ram s x"
proof (cases "fr s (fn pa) = 1")
  case True
  have al: "aligned 4096 pa" using pa(1) by (simp add: managed_def)
  note R = kfree_release [OF kmem_availD(1) [OF av] pa(1) lk True]
  let ?s' = "s\<lparr>fr := (fr s)(fn pa := 0),
    ram := store64 (memset 4096 (ram s) pa 1) pa (freelist s), freelist := pa\<rparr>"
  have "kmem_avail ?s' (pa # ps)" using R(2) lk by (simp only: kmem_avail_def) simp
  moreover have "ram ?s' x = ram s x" if "PGROUNDDOWN x \<noteq> pa" for x
    using that by (simp add: store64_page_other memset_page_other in_page_iff al)
  ultimately show thesis
    using that [OF R(1), of "pa # ps"] True lk by simp
next
  case False
  have "fr s (fn pa) = word_of_int (sint (fr s (fn pa)))" by simp
  then have "sint (fr s (fn pa)) \<noteq> 1" using False by (metis of_int_1)
  then have "1 < sint (fr s (fn pa))" using pa(2) by simp
  note R = kfree_shared [OF kmem_availD(1) [OF av] pa(1) lk this]
  show thesis by (rule that [OF R(1), of ps]) (use R(2) lk in \<open>simp_all add: kmem_avail_def\<close>)
qed

lemma unmap_step:
  assumes av: "kmem_avail s ps" and wf: "wf_pt s root" and va: "va < MAXVA"
    and v: "bit (lookup (ram s) root va) 0" "PTE_FLAGS (lookup (ram s) root va) \<noteq> PTE_V"
    and pa: "pa = PTE2PA (lookup (ram s) root va)"
    and frees: "do_free \<Longrightarrow> \<not> memref_held s \<and> managed s pa \<and> pa \<notin> pt_nodes (ram s) root \<and>
      0 < sint (fr s (fn pa))"
  obtains s' ps' where
    "\<forall>stop > va.
      uvmunmap_loop s root va stop do_free = uvmunmap_loop s' root (va + PGSIZE) stop do_free"
    "kmem_avail s' ps'" "wf_pt s' root" "pt_nodes (ram s') root = pt_nodes (ram s) root"
    "kend s' = kend s" "memref_held s' = memref_held s" "lock_kalloc s' = lock_kalloc s"
    "fr s' = (if do_free then (fr s)(fn pa := fr s (fn pa) - 1) else fr s)"
    "\<forall>vb < MAXVA. lookup (ram s') root vb =
       (if PGROUNDDOWN vb = PGROUNDDOWN va then 0 else lookup (ram s) root vb)"
    "\<forall>x. PGROUNDDOWN x \<notin> pt_nodes (ram s) root \<and>
       (\<not> do_free \<or> PGROUNDDOWN x \<noteq> pa \<or> fr s (fn pa) \<noteq> 1) \<longrightarrow> ram s' x = ram s x"
proof -
  obtain p where p: "descend (ram s) root (va_path va) = Some p"
    using v(1) by (fastforce simp: lookup_def split: option.splits)
  let ?pte = "p + 8 * PX 0 va"
  have w: "walk s root va False = Ok (?pte, s)" using p walk_no_alloc [OF va] by simp
  note P = wf_ptD [OF wf idx_va_path(1) p]
  have pte: "?pte \<noteq> 0"
    using unat_entry_addr(1) [OF P(1) unat_PX, of 0 va] P(2) by (auto simp: unat_eq_0)
  obtain s1 ps1 where f: "(if do_free then kfree s pa else Ok s) = Ok s1" "kmem_avail s1 ps1"
      "kend s1 = kend s" "memref_held s1 = memref_held s" "lock_kalloc s1 = lock_kalloc s"
      "fr s1 = (if do_free then (fr s)(fn pa := fr s (fn pa) - 1) else fr s)"
    and same: "\<forall>x. \<not> do_free \<or> PGROUNDDOWN x \<noteq> pa \<or> fr s (fn pa) \<noteq> 1 \<longrightarrow> ram s1 x = ram s x"
  proof (cases do_free)
    case True
    then have lk: "\<not> memref_held s" and m: "managed s pa" "0 < sint (fr s (fn pa))"
      using frees by auto
    show thesis by (rule kfree_busy [OF av lk m]) (use that True lk in auto)
  next
    case False
    then show thesis using that [of s ps] av by auto
  qed
  have keep: "\<forall>x. PGROUNDDOWN x \<in> pt_nodes (ram s) root \<longrightarrow> ram s1 x = ram s x"
    using same frees by auto
  note T = table_frame [OF wf [unfolded wf_pt_def, THEN conjunct1] keep]
  have "q \<in> busy s1" if "q \<in> pt_nodes (ram s) root" for q
  proof -
    have q: "managed s q" "fr s (fn q) \<noteq> 0" using wf_pt_node(3) [OF wf that] by (auto simp: busy_def)
    have "do_free \<Longrightarrow> fn q \<noteq> fn pa"
      using frees that q fn_inj [OF kmem_availD(3) [OF av], of q pa] by auto
    then show ?thesis using q f(3,6) by (auto simp: busy_def managed_def)
  qed
  then have wf1: "wf_pt s1 root" using T by (auto simp: wf_pt_def)
  have p1: "descend (ram s1) root (va_path va) = Some p" using T(1) p by simp
  note leaf = set_leaf [OF f(2) wf1 va p1, where v = 0]
  let ?s' = "s1\<lparr>ram := store64 (ram s1) ?pte 0\<rparr>"
  have l: "load64 (ram s) ?pte = lookup (ram s) root va" using load_pte p by simp
  show thesis
  proof (rule that [of ?s' ps1])
    show "\<forall>stop > va. uvmunmap_loop s root va stop do_free =
        uvmunmap_loop ?s' root (va + PGSIZE) stop do_free"
    proof (intro allI impI)
      fix stop assume "va < stop"
      then show "uvmunmap_loop s root va stop do_free =
          uvmunmap_loop ?s' root (va + PGSIZE) stop do_free"
        using w pte v f(1) l pa by (subst uvmunmap_loop.simps, cases do_free) simp_all
    qed
    show "\<forall>x. PGROUNDDOWN x \<notin> pt_nodes (ram s) root \<and>
       (\<not> do_free \<or> PGROUNDDOWN x \<noteq> pa \<or> fr s (fn pa) \<noteq> 1) \<longrightarrow> ram ?s' x = ram s x"
    proof (intro allI impI)
      fix x assume x: "PGROUNDDOWN x \<notin> pt_nodes (ram s) root \<and>
        (\<not> do_free \<or> PGROUNDDOWN x \<noteq> pa \<or> fr s (fn pa) \<noteq> 1)"
      then have "PGROUNDDOWN x \<noteq> p" using P(5) by blast
      then have "store64 (ram s1) ?pte 0 x = ram s1 x"
        using store64_entry_frame [OF P(1) unat_PX [of 0 va]] by simp
      then show "ram ?s' x = ram s x" using x same by simp
    qed
  qed (use f leaf T in \<open>simp_all add: grown_def\<close>)
qed

lemma user_rangeD:
  assumes "user_range s root a n" "pages_from a n vb"
  shows "bit (lookup (ram s) root vb) 0" "PTE_FLAGS (lookup (ram s) root vb) \<noteq> PTE_V"
    "managed s (PTE2PA (lookup (ram s) root vb))"
    "PTE2PA (lookup (ram s) root vb) \<notin> pt_nodes (ram s) root"
    "0 < sint (fr s (fn (PTE2PA (lookup (ram s) root vb))))"
    "pages_from a n vc \<Longrightarrow> PTE2PA (lookup (ram s) root vb) = PTE2PA (lookup (ram s) root vc) \<Longrightarrow>
      PGROUNDDOWN vb = PGROUNDDOWN vc"
  using assms unfolding user_range_def Let_def by blast+

lemma lookup_page:
  assumes "va < MAXVA" "vb < MAXVA" "PGROUNDDOWN va = PGROUNDDOWN vb"
  shows "lookup m root va = lookup m root vb"
proof -
  have "va_path va = va_path vb" "PX 0 va = PX 0 vb" using same_page_iff assms by blast+
  then show ?thesis unfolding lookup_def by metis
qed

lemma uvmunmap_loop_free:
  assumes "kmem_avail s ps" "\<not> memref_held s" "wf_pt s root" "aligned 4096 a"
    and "unat a + n * 4096 \<le> 2 ^ 38" "unat stop = unat a + n * 4096" "user_range s root a n"
  shows "\<exists>s' ps'. uvmunmap_loop s root a stop True = Ok s' \<and> kmem_avail s' ps' \<and> wf_pt s' root \<and>
    pt_nodes (ram s') root = pt_nodes (ram s) root \<and> kend s' = kend s \<and>
    \<not> memref_held s' \<and> lock_kalloc s' = lock_kalloc s \<and>
    (\<forall>vb < MAXVA. lookup (ram s') root vb =
       (if pages_from a n vb then 0 else lookup (ram s) root vb)) \<and>
    (\<forall>p. managed s p \<longrightarrow> fr s' (fn p) = fr s (fn p) - (if p \<in> backing (ram s) root a n then 1 else 0)) \<and>
    (\<forall>x. PGROUNDDOWN x \<notin> pt_nodes (ram s) root \<and>
       (PGROUNDDOWN x \<notin> backing (ram s) root a n \<or> fr s (fn (PGROUNDDOWN x)) \<noteq> 1) \<longrightarrow>
       ram s' x = ram s x)"
  using assms
proof (induction n arbitrary: s ps a)
  case 0
  then show ?case
    by (subst uvmunmap_loop.simps) (auto simp: word_less_nat_alt pages_from_def backing_def)
next
  case (Suc n)
  note pages = pages_from_Suc [OF Suc.prems(4,5)]
  have a_in: "pages_from a (Suc n) a" using pages(1,7) by blast
  note U = user_rangeD [OF Suc.prems(7)]
  define pa where "pa = PTE2PA (lookup (ram s) root a)"
  have lt: "a < stop" using Suc.prems(6) by (simp add: word_less_nat_alt)
  have frees: "\<not> memref_held s \<and> managed s pa \<and> pa \<notin> pt_nodes (ram s) root \<and> 0 < sint (fr s (fn pa))"
    using U(3,4,5) [OF a_in] Suc.prems(2) by (simp add: pa_def)
  obtain s1 ps1 where s1:
    "\<forall>stop > a. uvmunmap_loop s root a stop True = uvmunmap_loop s1 root (a + PGSIZE) stop True"
    "kmem_avail s1 ps1" "wf_pt s1 root" "pt_nodes (ram s1) root = pt_nodes (ram s) root"
    "kend s1 = kend s" "memref_held s1 = memref_held s" "lock_kalloc s1 = lock_kalloc s"
    "fr s1 = (if True then (fr s)(fn pa := fr s (fn pa) - 1) else fr s)"
    "\<forall>vb < MAXVA. lookup (ram s1) root vb =
       (if PGROUNDDOWN vb = PGROUNDDOWN a then 0 else lookup (ram s) root vb)"
    "\<forall>x. PGROUNDDOWN x \<notin> pt_nodes (ram s) root \<and>
       (\<not> True \<or> PGROUNDDOWN x \<noteq> pa \<or> fr s (fn pa) \<noteq> 1) \<longrightarrow> ram s1 x = ram s x"
    by (rule unmap_step [OF Suc.prems(1,3) pages(6) U(1,2) [OF a_in] pa_def frees])
  note look = s1(9) [unfolded pages(7)]
  have rest: "pages_from a (Suc n) vb" "vb < MAXVA" "PGROUNDDOWN vb \<noteq> a"
    "lookup (ram s1) root vb = lookup (ram s) root vb" if "pages_from (a + PGSIZE) n vb" for vb
  proof -
    show "pages_from a (Suc n) vb" "vb < MAXVA" "PGROUNDDOWN vb \<noteq> a" using that pages(1-3) by auto
    then show "lookup (ram s1) root vb = lookup (ram s) root vb" using look by simp
  qed
  have other: "PTE2PA (lookup (ram s) root vb) \<noteq> pa" if "pages_from (a + PGSIZE) n vb" for vb
    using U(6) [OF rest(1) [OF that] a_in] rest(3) [OF that] pages(7) by (auto simp: pa_def)
  have m: "managed s1 p = managed s p" for p using s1(5) by (simp add: managed_def)
  have mpa: "managed s pa" using U(3) [OF a_in] by (simp add: pa_def)
  have fr1: "fr s1 (fn p) = (if p = pa then fr s (fn pa) - 1 else fr s (fn p))" if "managed s p" for p
    using fn_inj [OF kmem_availD(3) [OF Suc.prems(1)] that mpa] s1(8) by simp
  have "user_range s1 root (a + PGSIZE) n"
    unfolding user_range_def Let_def
    using rest U other by (auto simp: m fr1 s1(4))
  moreover have "unat (a + PGSIZE) + n * 4096 \<le> 2 ^ 38" "unat stop = unat (a + PGSIZE) + n * 4096"
    using Suc.prems(5,6) pages(4) by simp_all
  moreover have "\<not> memref_held s1" using s1(6) Suc.prems(2) by simp
  ultimately obtain s' ps' where s': "uvmunmap_loop s1 root (a + PGSIZE) stop True = Ok s'"
    "kmem_avail s' ps'" "wf_pt s' root" "pt_nodes (ram s') root = pt_nodes (ram s1) root"
    "kend s' = kend s1" "\<not> memref_held s'" "lock_kalloc s' = lock_kalloc s1"
    "\<forall>vb < MAXVA. lookup (ram s') root vb =
       (if pages_from (a + PGSIZE) n vb then 0 else lookup (ram s1) root vb)"
    "\<forall>p. managed s1 p \<longrightarrow> fr s' (fn p) = fr s1 (fn p) -
       (if p \<in> backing (ram s1) root (a + PGSIZE) n then 1 else 0)"
    "\<forall>x. PGROUNDDOWN x \<notin> pt_nodes (ram s1) root \<and>
       (PGROUNDDOWN x \<notin> backing (ram s1) root (a + PGSIZE) n \<or> fr s1 (fn (PGROUNDDOWN x)) \<noteq> 1) \<longrightarrow>
       ram s' x = ram s1 x"
    using Suc.IH [OF s1(2) _ s1(3) pages(5)] by blast
  let ?B = "backing (ram s) root (a + PGSIZE) n"
  have B1: "backing (ram s1) root (a + PGSIZE) n = ?B"
    unfolding backing_def using rest(4) by metis
  have B: "backing (ram s) root a (Suc n) = insert pa ?B"
  proof -
    have eq: "PTE2PA (lookup (ram s) root vb) = pa" if "PGROUNDDOWN vb = a" for vb
      using that lookup_page [OF pages(3) pages(6), of vb] pages(1) [of vb] pages(7)
      by (simp add: pa_def)
    have "backing (ram s) root a (Suc n) =
        {PTE2PA (lookup (ram s) root vb) | vb. PGROUNDDOWN vb = a} \<union> ?B"
      unfolding backing_def pages(1) by blast
    also have "{PTE2PA (lookup (ram s) root vb) | vb. PGROUNDDOWN vb = a} = {pa}"
      using eq pages(7) by blast
    finally show ?thesis by simp
  qed
  have paB: "pa \<notin> ?B" using other by (auto simp: backing_def)
  have mB: "managed s p" if "p \<in> ?B" for p using that U(3) rest(1) by (auto simp: backing_def)
  have "ram s' x = ram s x" if x: "PGROUNDDOWN x \<notin> pt_nodes (ram s) root"
    "PGROUNDDOWN x \<notin> insert pa ?B \<or> fr s (fn (PGROUNDDOWN x)) \<noteq> 1" for x
  proof -
    have "ram s1 x = ram s x" using x s1(10) by auto
    moreover have "PGROUNDDOWN x \<notin> ?B \<or> fr s1 (fn (PGROUNDDOWN x)) \<noteq> 1"
      using x(2) fr1 [OF mB, of "PGROUNDDOWN x"] paB by (cases "PGROUNDDOWN x = pa") auto
    ultimately show ?thesis using s'(10) x(1) by (simp add: B1 s1(4))
  qed
  moreover have "fr s' (fn p) = fr s (fn p) - (if p \<in> insert pa ?B then 1 else 0)" if "managed s p" for p
    using that s'(9) m [of p] fr1 [OF that] paB by (simp add: B1)
  moreover have "lookup (ram s') root vb = (if pages_from a (Suc n) vb then 0 else lookup (ram s) root vb)"
    if "vb < MAXVA" for vb
    using that s'(8) look pages(1) [of vb] by simp
  ultimately show ?case
    unfolding B using s' s1 lt by auto
qed

lemma uvmunmap_eq_loop:
  assumes "aligned 4096 va" "unat va + unat npages * 4096 \<le> 2 ^ 38"
  shows "uvmunmap s root va npages do_free = uvmunmap_loop s root va (va + npages * PGSIZE) do_free"
    and "unat (va + npages * PGSIZE) = unat va + unat npages * 4096"
proof -
  have "unat (npages * PGSIZE) = unat npages * 4096"
    using assms(2) by (subst unat_mult_lem [THEN iffD1]) (simp_all add: PGSIZE_def)
  then show "unat (va + npages * PGSIZE) = unat va + unat npages * 4096"
    using assms(2) by (subst unat_add_lem [THEN iffD1]) simp_all
  show "uvmunmap s root va npages do_free = uvmunmap_loop s root va (va + npages * PGSIZE) do_free"
    using assms(1) by (simp add: uvmunmap_def aligned_mod_PGSIZE)
qed

lemmas uvmunmap_free =
  uvmunmap_loop_free [where stop = "va + npages * PGSIZE" and a = va and n = "unat npages" for va npages]

section \<open>User bytes\<close>

lemma page_offset: "va - PGROUNDDOWN va = of_nat (unat va mod 4096)"
  using unat_page_offset [of va] by (metis of_nat_unat ucast_id)

lemma user_addr_page: "PGROUNDDOWN (user_addr m root va) = PTE2PA (lookup m root va)"
  unfolding user_addr_def page_offset by (rule PGROUNDDOWN_page) simp_all

lemma user_addr_inj:
  assumes "user_addr m root va = user_addr m root vb" "PGROUNDDOWN va = PGROUNDDOWN vb"
  shows "va = vb"
proof -
  have "PTE2PA (lookup m root va) = PTE2PA (lookup m root vb)" using assms(1) user_addr_page by metis
  then show ?thesis using assms by (simp add: user_addr_def)
qed

lemma walk_from_present:
  assumes "descend (ram s) pt (map (\<lambda>l. unat (PX l va)) (rev [1..<Suc level])) = Some p"
  shows "walk_from level s pt va alloc = Ok (pte_at p 0 va, s)"
  using assms
  by (induction level arbitrary: pt) (auto simp: Let_def pte_at_def entry_def split: if_splits)

lemma walk_present:
  assumes "va < MAXVA" "descend (ram s) root (va_path va) = Some p"
  shows "walk s root va alloc = Ok (p + 8 * PX 0 va, s)"
  using walk_from_present [of s root va 2 p alloc] assms
  by (simp add: walk_def va_path_def pte_at_def numeral_2_eq_2 not_le)

lemma pte_nonzero:
  assumes "wf_pt s root" "descend (ram s) root (va_path va) = Some p"
  shows "p + 8 * PX 0 va \<noteq> 0"
  using wf_ptD(1,2) [OF assms(1) idx_va_path(1) assms(2)] unat_entry_addr(1) [of p "unat (PX 0 va)"] unat_PX
  by (auto simp: unat_eq_0)

lemma lookup_descend:
  assumes "bit (lookup m root va) 0"
  obtains p where "descend m root (va_path va) = Some p"
  using assms by (fastforce simp: lookup_def split: option.splits)

lemma walkaddr_lookup:
  assumes "wf_pt s root" "va < MAXVA"
  shows "walkaddr s root va =
    Ok (if bit (lookup (ram s) root va) 0 \<and> bit (lookup (ram s) root va) 4
        then PTE2PA (lookup (ram s) root va) else 0)"
proof -
  have lt: "\<not> MAXVA \<le> va" using assms(2) by simp
  show ?thesis
  proof (cases "descend (ram s) root (va_path va)")
    case None
    then have "lookup (ram s) root va = 0" by (simp add: lookup_def)
    then show ?thesis using None walk_no_alloc [OF assms(2)] lt by (simp add: walkaddr_def)
  next
    case (Some p)
    then show ?thesis
      using walk_present [OF assms(2) Some] pte_nonzero [OF assms(1) Some] load_pte [OF Some] lt
      by (simp add: walkaddr_def)
  qed
qed

lemma PGROUNDDOWN_va:
  assumes "va < MAXVA"
  shows "PGROUNDDOWN va < MAXVA" "PGROUNDDOWN (PGROUNDDOWN va) = PGROUNDDOWN va"
    "lookup m root (PGROUNDDOWN va) = lookup m root va"
proof -
  show lt: "PGROUNDDOWN va < MAXVA" using assms PGROUNDDOWN_le [of va] by simp
  show eq: "PGROUNDDOWN (PGROUNDDOWN va) = PGROUNDDOWN va" by (simp add: PGROUNDDOWN_id)
  show "lookup m root (PGROUNDDOWN va) = lookup m root va" by (rule lookup_page [OF lt assms eq])
qed

section \<open>The small machine\<close>

lemma demo_managed:
  "managed demo p \<longleftrightarrow> p \<in> {0x87ff7000, 0x87ff8000, 0x87ff9000, 0x87ffa000, 0x87ffb000, 0x87ffc000,
     0x87ffd000, 0x87ffe000, 0x87fff000, 0x87ff6000, 0x87ff5000}"
proof
  assume m: "managed demo p"
  obtain a where a: "unat p = 4096 * a" using m unfolding managed_def aligned_def dvd_def by blast
  moreover have "2281656320 \<le> unat p" "unat p < 2281701376"
    using m by (simp_all add: managed_def demo_def word_le_nat_alt word_less_nat_alt PHYSTOP_def KERNBASE_def)
  ultimately have "557045 \<le> a" "a < 557056" by simp_all
  then have "a \<in> {557045, 557046, 557047, 557048, 557049, 557050, 557051, 557052, 557053, 557054, 557055}"
    unfolding insert_iff empty_iff by presburger
  then show "p \<in> {0x87ff7000, 0x87ff8000, 0x87ff9000, 0x87ffa000, 0x87ffb000, 0x87ffc000,
     0x87ffd000, 0x87ffe000, 0x87fff000, 0x87ff6000, 0x87ff5000}" using a by (auto simp: word_unat_eq_iff)
qed (auto simp: managed_def demo_def aligned_def PHYSTOP_def KERNBASE_def)

lemma demo_entry:
  assumes "aligned 4096 q" "j < 512"
  shows "entry demo_ram q j =
    (if q = 0x87ff7000 \<and> j = 0 then PA2PTE 0x87ff8000 OR PTE_V
     else if q = 0x87ff8000 \<and> j = 0 then PA2PTE 0x87ff9000 OR PTE_V
     else if q = 0x87ff9000 \<and> j = 0 then PA2PTE 0x87ffa000 OR 0x17
     else if q = 0x87ff9000 \<and> j = 1 then PA2PTE 0x87ffb000 OR 0x17
     else if q = 0x87fff000 \<and> j = 0 then 0x87ffe000
     else if q = 0x87ffe000 \<and> j = 0 then 0x87ffd000
     else if q = 0x87ffd000 \<and> j = 0 then 0x87ff6000
     else if q = 0x87ff6000 \<and> j = 0 then 0x87ff5000 else 0)"
proof -
  have al: "aligned 4096 0x87ff7000" "aligned 4096 0x87ff8000" "aligned 4096 0x87ff9000"
    "aligned 4096 0x87fff000" "aligned 4096 0x87ffe000" "aligned 4096 0x87ffd000"
    "aligned 4096 0x87ff6000" by (simp_all add: aligned_def)
  have z: "entry (\<lambda>_. 0) q j = 0" by (simp add: entry_def load64_zero)
  show ?thesis
    unfolding demo_ram_def using assms al by (simp add: entry_set_entry z)
qed

lemma demo_path:
  assumes "idx js" "descend demo_ram 0x87ff7000 js = Some p"
  shows "js = [] \<and> p = 0x87ff7000 \<or> js = [0] \<and> p = 0x87ff8000 \<or> js = [0, 0] \<and> p = 0x87ff9000"
proof -
  have al: "aligned 4096 0x87ff7000" "aligned 4096 0x87ff8000" by (simp_all add: aligned_def)
  have pa: "PTE2PA (PA2PTE 0x87ff8000 OR PTE_V) = 0x87ff8000" "PTE2PA (PA2PTE 0x87ff9000 OR PTE_V) = 0x87ff9000"
    by (rule PTE2PA_PA2PTE; simp add: aligned_def PTE_V_def)+
  from assms(1) consider "js = []" | i where "js = [i]" "i < 512" | i j where "js = [i, j]" "i < 512" "j < 512"
    by (cases js rule: list.exhaust; cases "tl js" rule: list.exhaust) (auto simp: idx_def)
  then show ?thesis
    using assms(2) by cases (auto simp: demo_entry al pa split: if_splits)
qed

lemma demo_descend:
  "descend demo_ram 0x87ff7000 [] = Some 0x87ff7000" "descend demo_ram 0x87ff7000 [0] = Some 0x87ff8000"
  "descend demo_ram 0x87ff7000 [0, 0] = Some 0x87ff9000"
proof -
  have al: "aligned 4096 0x87ff7000" "aligned 4096 0x87ff8000" by (simp_all add: aligned_def)
  have pa: "PTE2PA (PA2PTE 0x87ff8000 OR PTE_V) = 0x87ff8000" "PTE2PA (PA2PTE 0x87ff9000 OR PTE_V) = 0x87ff9000"
    by (rule PTE2PA_PA2PTE; simp add: aligned_def PTE_V_def)+
  have V: "bit (PA2PTE q OR PTE_V) 0" for q by (simp add: bit_simps bit_pte_bits)
  show "descend demo_ram 0x87ff7000 [] = Some 0x87ff7000" "descend demo_ram 0x87ff7000 [0] = Some 0x87ff8000"
    "descend demo_ram 0x87ff7000 [0, 0] = Some 0x87ff9000"
    by (simp_all add: demo_entry al pa V)
qed

lemma demo_nodes: "pt_nodes demo_ram 0x87ff7000 = {0x87ff7000, 0x87ff8000, 0x87ff9000}"
proof
  show "pt_nodes demo_ram 0x87ff7000 \<subseteq> {0x87ff7000, 0x87ff8000, 0x87ff9000}"
    unfolding pt_nodes_def using demo_path by blast
  have "idx []" "idx [0]" "idx [0, 0]" by (simp_all add: idx_def)
  then show "{0x87ff7000, 0x87ff8000, 0x87ff9000} \<subseteq> pt_nodes demo_ram 0x87ff7000"
    unfolding pt_nodes_def using demo_descend by blast
qed

lemma empty_table:
  assumes "aligned 4096 root" "root \<noteq> 0" "\<And>j. j < 512 \<Longrightarrow> entry m root j = 0"
  shows "pt_nodes m root = {root}" "wf_tree m root" "lookup m root va = 0"
proof -
  have d: "js = [] \<and> p = root" if "idx js" "descend m root js = Some p" for js p
    using that assms(3) by (cases js) (auto simp: idx_def split: if_splits)
  have "idx []" by (simp add: idx_def)
  then show n: "pt_nodes m root = {root}" unfolding pt_nodes_def using d by auto
  show "wf_tree m root" unfolding wf_tree_def n using d assms(1,2) by blast
  have "descend m root (va_path va) = None" using assms(3) unat_PX by (simp add: va_path_def)
  then show "lookup m root va = 0" by (simp add: lookup_def)
qed

lemma demo_fr: "managed demo p \<Longrightarrow> fr demo (fn p) = (if p \<in> {0x87ffd000, 0x87ffe000, 0x87fff000, 0x87ff6000, 0x87ff5000} then 0 else 1)"
  unfolding demo_managed by (auto simp: demo_def fn_def KERNBASE_def PGSIZE_def)

lemma demo_wf: "wf_pt demo 0x87ff7000" "wf_pt demo 0x87ffc000"
  "pt_nodes (ram demo) 0x87ff7000 = {0x87ff7000, 0x87ff8000, 0x87ff9000}" "pt_nodes (ram demo) 0x87ffc000 = {0x87ffc000}"
  "lookup (ram demo) 0x87ffc000 va = 0"
proof -
  have e: "entry demo_ram 0x87ffc000 j = 0" if "j < 512" for j
    using that by (simp add: demo_entry aligned_def)
  note E = empty_table [of "0x87ffc000" demo_ram, OF _ _ e]
  show n: "pt_nodes (ram demo) 0x87ff7000 = {0x87ff7000, 0x87ff8000, 0x87ff9000}" "pt_nodes (ram demo) 0x87ffc000 = {0x87ffc000}"
    "lookup (ram demo) 0x87ffc000 va = 0"
    using demo_nodes E by (simp_all add: demo_def aligned_def)
  have "wf_tree demo_ram 0x87ff7000"
    unfolding wf_tree_def demo_nodes
  proof (intro conjI allI impI)
    fix path js p
    assume "idx path \<and> idx js \<and> descend demo_ram 0x87ff7000 path = Some p \<and>
      descend demo_ram 0x87ff7000 js = Some p"
    then show "path = js" using demo_path [of path p] demo_path [of js p] by auto
  qed (simp add: aligned_def)
  then show "wf_pt demo 0x87ff7000" "wf_pt demo 0x87ffc000"
    using E(2) n unfolding wf_pt_def by (auto simp: busy_def demo_managed demo_fr) (simp_all add: demo_def aligned_def)
qed

lemma demo_avail: "kmem_avail demo [0x87fff000, 0x87ffe000, 0x87ffd000, 0x87ff6000, 0x87ff5000]"
proof -
  have "free_list demo_ram 0x87fff000 [0x87fff000, 0x87ffe000, 0x87ffd000, 0x87ff6000, 0x87ff5000]"
  proof -
    have "load64 demo_ram q = entry demo_ram q 0" for q by (simp add: entry_def)
    then show ?thesis by (simp add: demo_entry aligned_def)
  qed
  then have "kalloc_inv demo [0x87fff000, 0x87ffe000, 0x87ffd000, 0x87ff6000, 0x87ff5000]"
    by (intro kalloc_invI) (auto simp: demo_managed demo_fr, simp_all add: demo_def KERNBASE_def)
  then show ?thesis by (simp add: kmem_avail_def demo_def)
qed

lemma demo_lookup:
  assumes "pages_from 0 2 va"
  shows "lookup (ram demo) 0x87ff7000 va = PA2PTE (if PGROUNDDOWN va = 0 then 0x87ffa000 else 0x87ffb000) OR 0x17"
    "PGROUNDDOWN va = 0 \<or> PGROUNDDOWN va = 0x1000"
proof -
  show pg: "PGROUNDDOWN va = 0 \<or> PGROUNDDOWN va = 0x1000"
    using assms by (auto simp: pages_from_def word_unat_eq_iff unat_PGROUNDDOWN)
  have va: "va < MAXVA" using assms by (simp add: pages_from_def word_less_nat_alt MAXVA_val)
  have px: "va_path 0 = [0, 0]" "va_path 0x1000 = [0, 0]" "PX 0 0 = 0" "PX 0 0x1000 = 1"
    by (simp_all add: va_path_def PX_def PXSHIFT_def drop_bit_eq_div)
  have al: "aligned 4096 0x87ff9000" by (simp add: aligned_def)
  have "lookup demo_ram 0x87ff7000 va = lookup demo_ram 0x87ff7000 (PGROUNDDOWN va)"
    using PGROUNDDOWN_va(3) [OF va] by simp
  then show "lookup (ram demo) 0x87ff7000 va = PA2PTE (if PGROUNDDOWN va = 0 then 0x87ffa000 else 0x87ffb000) OR 0x17"
    using pg px demo_descend(3) by (auto simp: demo_def lookup_def demo_entry al)
qed

lemma demo_data:
  assumes "pages_from 0 2 va"
  shows "PGROUNDDOWN (user_addr (ram demo) 0x87ff7000 va) \<in> {0x87ffa000, 0x87ffb000}"
    "user_byte (ram demo) 0x87ff7000 va = 0"
proof -
  have pa: "PTE2PA (PA2PTE 0x87ffa000 OR 0x17) = 0x87ffa000" "PTE2PA (PA2PTE 0x87ffb000 OR 0x17) = 0x87ffb000"
    by (rule PTE2PA_PA2PTE; simp add: aligned_def)+
  show p: "PGROUNDDOWN (user_addr (ram demo) 0x87ff7000 va) \<in> {0x87ffa000, 0x87ffb000}"
    using demo_lookup [OF assms] pa by (auto simp: user_addr_page)
  have f: "set_entry q i v m x = m x" if "aligned 4096 q" "i < 512" "PGROUNDDOWN x \<noteq> q" for q i v m x
    unfolding set_entry_def by (rule store64_entry_frame [OF that])
  have "demo_ram x = 0" if "PGROUNDDOWN x \<in> {0x87ffa000, 0x87ffb000}" for x
    using that unfolding demo_ram_def by (auto simp: f aligned_def)
  then show "user_byte (ram demo) 0x87ff7000 va = 0"
    unfolding user_byte_def using p by (simp add: demo_def)
qed

lemma demo_user_range: "user_range demo 0x87ff7000 0 2"
proof -
  have pa: "PTE2PA (PA2PTE 0x87ffa000 OR 0x17) = 0x87ffa000" "PTE2PA (PA2PTE 0x87ffb000 OR 0x17) = 0x87ffb000"
    by (rule PTE2PA_PA2PTE; simp add: aligned_def)+
  have f: "PTE_FLAGS (PA2PTE q OR 0x17) = 0x17" for q by (rule PTE_FLAGS_PA2PTE) simp
  have b: "bit (PA2PTE q OR 0x17) 0" for q by (simp add: bit_simps)
  show ?thesis
    unfolding user_range_def Let_def
  proof (intro conjI allI impI)
    fix vb assume "pages_from 0 2 vb"
    note L = demo_lookup [OF this]
    show "bit (lookup (ram demo) 0x87ff7000 vb) 0" using L b by auto
    show "PTE_FLAGS (lookup (ram demo) 0x87ff7000 vb) \<noteq> PTE_V" using L f by (auto simp: PTE_V_def)
    have "PTE2PA (lookup (ram demo) 0x87ff7000 vb) \<in> {0x87ffa000, 0x87ffb000}" using L pa by auto
    then show "managed demo (PTE2PA (lookup (ram demo) 0x87ff7000 vb))"
      "PTE2PA (lookup (ram demo) 0x87ff7000 vb) \<notin> pt_nodes (ram demo) 0x87ff7000"
      "0 < sint (fr demo (fn (PTE2PA (lookup (ram demo) 0x87ff7000 vb))))"
      by (auto simp: demo_managed demo_fr demo_wf)
  next
    fix vb vc assume v: "pages_from 0 2 vb \<and> pages_from 0 2 vc \<and>
      PTE2PA (lookup (ram demo) 0x87ff7000 vb) = PTE2PA (lookup (ram demo) 0x87ff7000 vc)"
    then show "PGROUNDDOWN vb = PGROUNDDOWN vc"
      using demo_lookup [of vb] demo_lookup [of vc] pa by (auto split: if_splits)
  qed
qed

section \<open>Properties\<close>

text \<open>
  C15. Walking a well-formed page table with allocation ends, never changes what any address
  translates to, keeps the table well formed and the allocator invariant, touches no page but
  the table's own and fresh ones, and returns the entry of the address unless fewer than two
  pages were free.
\<close>

theorem walk_keeps_translations:
  assumes "kmem_avail s ps" "wf_pt s root" "va < MAXVA"
  shows "\<exists>pte s' ps'. walk s root va True = Ok (pte, s') \<and> grown root s ps s' ps' \<and>
    (\<forall>vb. lookup (ram s') root vb = lookup (ram s) root vb) \<and>
    length ps \<le> length ps' + 2 \<and>
    (if pte = 0 then length ps < 2
     else \<exists>p. descend (ram s') root (va_path va) = Some p \<and> pte = p + 8 * PX 0 va)"
  by (rule walk_alloc [OF assms])

theorem walk_keeps_translations_witness:
  "\<exists>pte s' ps'. walk demo 0x87ffc000 0x3000 True = Ok (pte, s') \<and> pte \<noteq> 0 \<and>
    grown 0x87ffc000 demo [0x87fff000, 0x87ffe000, 0x87ffd000, 0x87ff6000, 0x87ff5000] s' ps'"
proof -
  have "(0x3000 :: u64) < MAXVA" by (simp add: MAXVA_val)
  from walk_keeps_translations [OF demo_avail demo_wf(2) this] show ?thesis
    by (auto split: if_splits)
qed

text \<open>
  C13. Mapping a range that is not yet mapped never panics, and fails only when there were fewer
  than two free pages for each page to map. On success exactly the pages of the range change translation, each to its physical page in
  order with the given permissions; on failure no address outside the range changes.
\<close>

theorem mappages_maps_range:
  assumes "kmem_avail s ps" "wf_pt s root" "0 < sz" "unat va + unat sz \<le> 2 ^ 38"
    and "\<forall>vb < MAXVA. covers va sz vb \<longrightarrow> \<not> bit (lookup (ram s) root vb) 0"
  shows "\<exists>r s' ps'. mappages s root va sz pa perm = Ok (r, s') \<and> grown root s ps s' ps' \<and>
    (\<forall>vb < MAXVA. \<not> covers va sz vb \<longrightarrow> lookup (ram s') root vb = lookup (ram s) root vb) \<and>
    length ps \<le> length ps' + 2 * span va sz \<and>
    (r = - 1 \<and> length ps < 2 * span va sz \<or>
     r = 0 \<and> (\<forall>vb < MAXVA. covers va sz vb \<longrightarrow>
       lookup (ram s') root vb = PA2PTE (pa + (PGROUNDDOWN vb - PGROUNDDOWN va)) OR perm OR PTE_V))"
  by (rule mappages_spec [OF assms])

theorem mappages_maps_range_witness:
  "\<exists>r s' ps'. mappages demo 0x87ffc000 0x5000 0x2000 0x80000000 PTE_R = Ok (r, s') \<and>
    grown 0x87ffc000 demo [0x87fff000, 0x87ffe000, 0x87ffd000, 0x87ff6000, 0x87ff5000] s' ps' \<and> (r = - 1 \<or> r = 0)"
proof -
  have "\<forall>vb < MAXVA. covers 0x5000 0x2000 vb \<longrightarrow> \<not> bit (lookup (ram demo) 0x87ffc000 vb) 0"
    using demo_wf(5) by simp
  from mappages_maps_range [OF demo_avail demo_wf(2) _ _ this, of "0x80000000" PTE_R]
  show ?thesis by auto
qed

text \<open>
  C14. Unmapping a range of ordinary user memory and freeing it ends without panic, clears
  exactly the translations of the range, lowers the reference count of exactly its physical
  pages by one, and leaves the contents of every page that is still referenced alone.
\<close>

theorem uvmunmap_frees_range:
  assumes "kmem_avail s ps" "\<not> memref_held s" "wf_pt s root" "aligned 4096 va"
    and "unat va + unat npages * 4096 \<le> 2 ^ 38" "user_range s root va (unat npages)"
  shows "\<exists>s' ps'. uvmunmap s root va npages True = Ok s' \<and> kmem_avail s' ps' \<and> wf_pt s' root \<and>
    (\<forall>vb < MAXVA. lookup (ram s') root vb =
       (if pages_from va (unat npages) vb then 0 else lookup (ram s) root vb)) \<and>
    (\<forall>p. managed s p \<longrightarrow> fr s' (fn p) =
       fr s (fn p) - (if p \<in> backing (ram s) root va (unat npages) then 1 else 0)) \<and>
    (\<forall>x. PGROUNDDOWN x \<notin> pt_nodes (ram s) root \<and>
       (PGROUNDDOWN x \<notin> backing (ram s) root va (unat npages) \<or> fr s (fn (PGROUNDDOWN x)) \<noteq> 1) \<longrightarrow>
       ram s' x = ram s x)"
  using uvmunmap_loop_free [OF assms(1-5) uvmunmap_eq_loop(2) [OF assms(4,5)] assms(6)]
    uvmunmap_eq_loop(1) [OF assms(4,5)] by auto

theorem uvmunmap_frees_range_witness:
  "\<exists>s' ps'. uvmunmap demo 0x87ff7000 0 2 True = Ok s' \<and> kmem_avail s' ps' \<and>
    lookup (ram s') 0x87ff7000 0x1000 = 0 \<and> fr s' (fn 0x87ffc000) = 1"
proof -
  have "\<not> memref_held demo" "aligned 4096 0" "unat (0 :: u64) + unat (2 :: u64) * 4096 \<le> 2 ^ 38"
    by (simp_all add: demo_def aligned_def)
  moreover have "user_range demo 0x87ff7000 0 (unat (2 :: u64))" using demo_user_range by simp
  ultimately obtain s' ps' where s': "uvmunmap demo 0x87ff7000 0 2 True = Ok s'" "kmem_avail s' ps'"
    "\<forall>vb < MAXVA. lookup (ram s') 0x87ff7000 vb =
       (if pages_from 0 (unat (2 :: u64)) vb then 0 else lookup (ram demo) 0x87ff7000 vb)"
    "\<forall>p. managed demo p \<longrightarrow> fr s' (fn p) =
       fr demo (fn p) - (if p \<in> backing (ram demo) 0x87ff7000 0 (unat (2 :: u64)) then 1 else 0)"
    using uvmunmap_frees_range [OF demo_avail _ demo_wf(1)] by blast
  have "PTE2PA (PA2PTE 0x87ffa000 OR 0x17) = 0x87ffa000" "PTE2PA (PA2PTE 0x87ffb000 OR 0x17) = 0x87ffb000"
    by (rule PTE2PA_PA2PTE; simp add: aligned_def)+
  then have "0x87ffc000 \<notin> backing (ram demo) 0x87ff7000 0 2"
    using demo_lookup by (auto simp: backing_def split: if_splits)
  moreover have "managed demo 0x87ffc000" by (simp add: demo_managed)
  ultimately have "fr s' (fn 0x87ffc000) = 1" using s'(4) by (simp add: demo_fr)
  moreover have "lookup (ram s') 0x87ff7000 0x1000 = 0"
    using s'(3) by (simp add: pages_from_def MAXVA_val)
  ultimately show ?thesis using s'(1,2) by blast
qed

end
