(* ===== verification/Usercopy.thy ===== *)
theory Usercopy
  imports Addrspace
begin

text \<open>
  Moving bytes between the kernel and a user address space: \<^verbatim>\<open>copyout\<close>, \<^verbatim>\<open>copyin\<close> and \<^verbatim>\<open>copyinstr\<close>
  of \<^verbatim>\<open>kernel/vm.c\<close> work page by page, each page translated anew; the lemmas say that the result
  is the byte-by-byte transfer. \<^verbatim>\<open>either_copyout\<close> and \<^verbatim>\<open>either_copyin\<close> of \<^verbatim>\<open>kernel/proc.c\<close> choose between
  a user and a kernel address.
\<close>

section \<open>User or kernel addresses\<close>

definition either_copyout :: "kstate \<Rightarrow> u64 \<Rightarrow> bool \<Rightarrow> u64 \<Rightarrow> bytes \<Rightarrow> u64 \<Rightarrow> (int \<times> kstate) res" where
  "either_copyout s pagetable user_dst dst src len =
     (if user_dst then copyout s pagetable dst src len
      else Ok (0, s\<lparr>ram := move_in (ram s) dst src (unat len)\<rparr>))"

definition either_copyin :: "kstate \<Rightarrow> u64 \<Rightarrow> bytes \<Rightarrow> nat \<Rightarrow> bool \<Rightarrow> u64 \<Rightarrow> u64 \<Rightarrow> (int \<times> bytes) res" where
  "either_copyin s pagetable dst k user_src src len =
     (if user_src then copyin s pagetable dst k src len
      else Ok (0, move_out dst k (ram s) src (unat len)))"

section \<open>Mapped ranges\<close>

definition user_mapped :: "mem \<Rightarrow> u64 \<Rightarrow> u64 \<Rightarrow> nat \<Rightarrow> bool" where
  "user_mapped m root va len \<longleftrightarrow>
     unat va + len \<le> 2 ^ 38 \<and>
     (\<forall>i < len. let v = lookup m root (va + of_nat i) in bit v 0 \<and> bit v 4 \<and> PTE2PA v \<noteq> 0)"

definition user_private :: "mem \<Rightarrow> u64 \<Rightarrow> u64 \<Rightarrow> nat \<Rightarrow> bool" where
  "user_private m root va len \<longleftrightarrow>
     (\<forall>i < len. PTE2PA (lookup m root (va + of_nat i)) \<notin> pt_nodes m root) \<and>
     (\<forall>i < len. \<forall>j < len. PTE2PA (lookup m root (va + of_nat i)) = PTE2PA (lookup m root (va + of_nat j)) \<longrightarrow>
        PGROUNDDOWN (va + of_nat i) = PGROUNDDOWN (va + of_nat j))"

text \<open>The memory after the bytes \<open>src\<close> have been stored at \<open>len\<close> user addresses from \<open>va\<close> on.\<close>

definition stored_at :: "mem \<Rightarrow> u64 \<Rightarrow> u64 \<Rightarrow> bytes \<Rightarrow> nat \<Rightarrow> mem \<Rightarrow> bool" where
  "stored_at m root va src len m' \<longleftrightarrow>
     (\<forall>i < len. m' (user_addr m root (va + of_nat i)) = src i) \<and>
     (\<forall>x. (\<forall>i < len. x \<noteq> user_addr m root (va + of_nat i)) \<longrightarrow> m' x = m x)"

section \<open>One page\<close>

lemma user_mappedD:
  assumes "user_mapped m root va len" "i < len"
  shows "unat (va + of_nat i) = unat va + i" "va + of_nat i < MAXVA"
    "bit (lookup m root (va + of_nat i)) 0" "bit (lookup m root (va + of_nat i)) 4"
    "PTE2PA (lookup m root (va + of_nat i)) \<noteq> 0"
proof -
  have b: "unat va + len \<le> 2 ^ 38" using assms(1) by (simp add: user_mapped_def)
  show u: "unat (va + of_nat i) = unat va + i" using b assms(2) by (intro add_unat_less) simp_all
  show "va + of_nat i < MAXVA" using u b assms(2) by (simp add: word_less_nat_alt MAXVA_val)
  show "bit (lookup m root (va + of_nat i)) 0" "bit (lookup m root (va + of_nat i)) 4"
    "PTE2PA (lookup m root (va + of_nat i)) \<noteq> 0"
    using assms by (simp_all add: user_mapped_def Let_def)
qed

lemma user_mapped_drop:
  assumes "user_mapped m root va len" "n \<le> len"
  shows "user_mapped m root (va + of_nat n) (len - n)"
  unfolding user_mapped_def Let_def
proof (intro conjI allI impI)
  have b: "unat va + len \<le> 2 ^ 38" using assms(1) by (simp add: user_mapped_def)
  have "unat (va + of_nat n) = unat va + n"
    using b assms(2) by (intro add_unat_less [where n = "Suc n"]) simp_all
  then show "unat (va + of_nat n) + (len - n) \<le> 2 ^ 38" using b assms(2) by simp
  fix i assume "i < len - n"
  then have "n + i < len" by simp
  from user_mappedD(3-5) [OF assms(1) this]
  show "bit (lookup m root (va + of_nat n + of_nat i)) 0"
    "bit (lookup m root (va + of_nat n + of_nat i)) 4"
    "PTE2PA (lookup m root (va + of_nat n + of_nat i)) \<noteq> 0" by (simp_all add: add.assoc)
qed

lemma user_mapped_take: "user_mapped m root va len \<Longrightarrow> n \<le> len \<Longrightarrow> user_mapped m root va n"
  unfolding user_mapped_def by (meson le_trans add_left_mono less_le_trans)

lemma user_private_take: "user_private m root va len \<Longrightarrow> n \<le> len \<Longrightarrow> user_private m root va n"
  unfolding user_private_def by (meson less_le_trans)

lemma user_private_drop:
  assumes "user_private m root va len" "n \<le> len"
  shows "user_private m root (va + of_nat n) (len - n)"
proof -
  have e: "va + of_nat n + of_nat i = va + of_nat (n + i)" for i by simp
  have lt: "n + i < len" if "i < len - n" for i using that by simp
  show ?thesis
    unfolding user_private_def e
  proof (intro conjI allI impI)
    fix i assume "i < len - n"
    then show "PTE2PA (lookup m root (va + of_nat (n + i))) \<notin> pt_nodes m root"
      using lt assms(1) unfolding user_private_def by blast
    fix j assume "j < len - n"
      "PTE2PA (lookup m root (va + of_nat (n + i))) = PTE2PA (lookup m root (va + of_nat (n + j)))"
    then show "PGROUNDDOWN (va + of_nat (n + i)) = PGROUNDDOWN (va + of_nat (n + j))"
      using lt [of i] lt [of j] \<open>i < len - n\<close> assms(1) unfolding user_private_def by blast
  qed
qed

lemma chunk:
  assumes n: "n = unat (page_chunk va len)"
  shows "n \<le> unat len" "n \<le> 4096" "0 < len \<Longrightarrow> 0 < n"
    and "i < n \<Longrightarrow> PGROUNDDOWN (va + of_nat i) = PGROUNDDOWN va"
    and "n < unat len \<Longrightarrow> PGROUNDDOWN va + PGSIZE = va + of_nat n"
    and "unat (len - page_chunk va len) = unat len - n"
proof -
  have c: "n = min (4096 - unat va mod 4096) (unat len)" using n by (simp add: unat_page_chunk)
  then show "n \<le> unat len" "n \<le> 4096" by simp_all
  show "0 < len \<Longrightarrow> 0 < n" using c by (simp add: word_less_nat_alt)
  have "page_chunk va len \<le> len" using c n by (simp add: word_le_nat_alt)
  then show "unat (len - page_chunk va len) = unat len - n" using n by (simp add: unat_sub)
  show "PGROUNDDOWN (va + of_nat i) = PGROUNDDOWN va" if "i < n"
  proof -
    have "i < 4096 - unat va mod 4096" using that c by simp
    then have lt: "unat va mod 4096 + i < 4096" by linarith
    have "PGROUNDDOWN va + of_nat (unat va mod 4096) = va" unfolding page_offset [symmetric] by simp
    then have "va + of_nat i = PGROUNDDOWN va + (of_nat (unat va mod 4096) + of_nat i)"
      by (simp only: add.assoc [symmetric])
    also have "of_nat (unat va mod 4096) + of_nat i = (of_nat (unat va mod 4096 + i) :: u64)" by simp
    finally have eq: "va + of_nat i = PGROUNDDOWN va + of_nat (unat va mod 4096 + i)" .
    show ?thesis unfolding eq by (rule PGROUNDDOWN_page [OF aligned_PGROUNDDOWN lt])
  qed
  show "PGROUNDDOWN va + PGSIZE = va + of_nat n" if "n < unat len"
  proof -
    have e: "n = 4096 - unat va mod 4096" using that c by simp
    have "PGROUNDDOWN va + of_nat (unat va mod 4096) = va" unfolding page_offset [symmetric] by simp
    then have "va + of_nat n = PGROUNDDOWN va + (of_nat (unat va mod 4096) + of_nat n)"
      by (simp only: add.assoc [symmetric])
    also have "of_nat (unat va mod 4096) + of_nat n = (of_nat (unat va mod 4096 + n) :: u64)" by simp
    also have "unat va mod 4096 + n = 4096" using e mod_less_divisor [of 4096 "unat va"] by linarith
    finally show ?thesis by (simp add: PGSIZE_def)
  qed
qed

lemma same_page_less:
  assumes "PGROUNDDOWN vb = PGROUNDDOWN va" "va < MAXVA"
  shows "vb < MAXVA"
proof -
  have "unat vb div 4096 = unat va div 4096" using assms(1) by (simp add: word_unat_eq_iff unat_PGROUNDDOWN)
  moreover have "unat va div 4096 < 2 ^ 26" using assms(2) by (simp add: word_less_nat_alt MAXVA_val)
  ultimately show ?thesis by (simp add: word_less_nat_alt MAXVA_val)
qed

lemma user_addr_chunk:
  assumes va: "va < MAXVA" and n: "n = unat (page_chunk va len)" and i: "i < n"
  shows "user_addr m root (va + of_nat i) = user_addr m root va + of_nat i"
proof -
  note page = chunk(4) [OF n i]
  have "lookup m root (va + of_nat i) = lookup m root va"
    using same_page_less [OF page va] va page by (rule lookup_page)
  then show ?thesis using page by (simp add: user_addr_def)
qed

section \<open>Copying in\<close>

lemma copyin_spec:
  assumes "wf_pt s root" "user_mapped (ram s) root va (unat len)"
  shows "copyin s root dst k va len =
    Ok (0, \<lambda>i. if k \<le> i \<and> i < k + unat len then user_byte (ram s) root (va + of_nat (i - k)) else dst i)"
  using assms(2)
proof (induction "unat len" arbitrary: len dst k va rule: less_induct)
  case less
  show ?case
  proof (cases "0 < len")
    case False
    then have "len = 0" by (simp add: word_less_nat_alt unat_eq_0)
    then show ?thesis by (auto simp: copyin.simps fun_eq_iff)
  next
    case True
    define n where "n = unat (page_chunk va len)"
    note C = chunk [OF n_def]
    have pos: "0 < unat len" "0 < n" using True C(3) by (simp_all add: word_less_nat_alt)
    note M = user_mappedD [OF less.prems]
    have va: "va < MAXVA" using M(2) [OF pos(1)] by simp
    have w: "walkaddr s root (PGROUNDDOWN va) = Ok (PTE2PA (lookup (ram s) root va))"
      using walkaddr_lookup [OF assms(1) PGROUNDDOWN_va(1) [OF va]] PGROUNDDOWN_va(3) [OF va]
        M(3,4) [OF pos(1)] by simp
    let ?dst = "move_out dst k (ram s) (user_addr (ram s) root va) n"
    have step: "copyin s root dst k va len =
        copyin s root ?dst (k + n) (PGROUNDDOWN va + PGSIZE) (len - page_chunk va len)"
      using True w M(5) [OF pos(1)] by (subst copyin.simps) (simp add: Let_def n_def user_addr_def)
    have inside: "?dst i = user_byte (ram s) root (va + of_nat (i - k))" if "k \<le> i" "i < k + n" for i
    proof -
      have "i - k < n" using that by simp
      from user_addr_chunk [OF va n_def this] show ?thesis
        using that by (simp add: move_out_def user_byte_def)
    qed
    have outside: "?dst i = dst i" if "\<not> (k \<le> i \<and> i < k + n)" for i using that by (auto simp: move_out_def)
    show ?thesis
    proof (cases "n = unat len")
      case all: True
      then have "len - page_chunk va len = 0" using C(6) by (simp add: unat_eq_0)
      then have "copyin s root dst k va len = Ok (0, ?dst)" using step by (simp add: copyin.simps)
      moreover have "?dst = (\<lambda>i. if k \<le> i \<and> i < k + unat len
          then user_byte (ram s) root (va + of_nat (i - k)) else dst i)"
        by (rule ext) (use inside outside all in \<open>simp del: of_nat_diff\<close>)
      ultimately show ?thesis by simp
    next
      case part: False
      then have lt: "n < unat len" using C(1) by simp
      have "user_mapped (ram s) root (va + of_nat n) (unat (len - page_chunk va len))"
        using user_mapped_drop [OF less.prems C(1)] C(6) by simp
      from less.hyps [OF _ this] step C(5) [OF lt] C(6) lt pos(2)
      have "copyin s root dst k va len = Ok (0, \<lambda>i. if k + n \<le> i \<and> i < k + n + (unat len - n)
          then user_byte (ram s) root (va + of_nat n + of_nat (i - (k + n))) else ?dst i)" by simp
      also have "\<dots> = Ok (0, \<lambda>i. if k \<le> i \<and> i < k + unat len
          then user_byte (ram s) root (va + of_nat (i - k)) else dst i)"
      proof -
        have "user_byte (ram s) root (va + of_nat n + of_nat (i - (k + n))) =
            user_byte (ram s) root (va + of_nat (i - k))" if "k + n \<le> i" for i
          using that by (simp add: of_nat_diff)
        then show ?thesis
          using lt inside outside by (auto simp: fun_eq_iff simp del: of_nat_diff)
      qed
      finally show ?thesis .
    qed
  qed
qed

section \<open>Copying out\<close>

lemma move_in_range:
  assumes "n \<le> 2 ^ 64"
  shows "i < n \<Longrightarrow> move_in m a src n (a + of_nat i) = src i"
    and "\<forall>i < n. x \<noteq> a + of_nat i \<Longrightarrow> move_in m a src n x = m x"
proof -
  show "move_in m a src n (a + of_nat i) = src i" if "i < n"
    using that assms by (simp add: move_in_def)
  show "move_in m a src n x = m x" if "\<forall>i < n. x \<noteq> a + of_nat i"
  proof -
    have "x = a + of_nat (unat (x - a))" by simp
    then have "\<not> unat (x - a) < n" using that by blast
    then show ?thesis by (simp add: move_in_def)
  qed
qed

lemma stored_at_tables:
  assumes wf: "wf_tree m root" and st: "stored_at m root va src len m'"
    and out: "\<forall>i < len. PTE2PA (lookup m root (va + of_nat i)) \<notin> pt_nodes m tbl" and wft: "wf_tree m tbl"
  shows "lookup m' tbl vb = lookup m tbl vb" "pt_nodes m' tbl = pt_nodes m tbl" "wf_tree m' tbl"
proof -
  have "\<forall>x. PGROUNDDOWN x \<in> pt_nodes m tbl \<longrightarrow> m' x = m x"
  proof (intro allI impI)
    fix x assume "PGROUNDDOWN x \<in> pt_nodes m tbl"
    then have "\<forall>i < len. x \<noteq> user_addr m root (va + of_nat i)" using out user_addr_page by metis
    then show "m' x = m x" using st by (simp add: stored_at_def)
  qed
  note T = table_frame [OF wft this]
  show "lookup m' tbl vb = lookup m tbl vb" "pt_nodes m' tbl = pt_nodes m tbl" "wf_tree m' tbl"
    by (rule T)+
qed

lemma stored_at_append:
  assumes a: "stored_at m root va src n m1" and b: "stored_at m1 root (va + of_nat n) (\<lambda>i. src (i + n)) (len - n) m2"
    and addr: "\<And>vb. user_addr m1 root vb = user_addr m root vb" and n: "n \<le> len"
    and diff: "\<And>i j. i < len \<Longrightarrow> j < len \<Longrightarrow> i \<noteq> j \<Longrightarrow>
      user_addr m root (va + of_nat i) \<noteq> user_addr m root (va + of_nat j)"
  shows "stored_at m root va src len m2"
  unfolding stored_at_def
proof (intro conjI allI impI)
  have e: "va + of_nat n + of_nat i = va + of_nat (n + i)" for i by simp
  fix i assume i: "i < len"
  show "m2 (user_addr m root (va + of_nat i)) = src i"
  proof (cases "i < n")
    case True
    have "\<forall>j < len - n. user_addr m root (va + of_nat i) \<noteq> user_addr m1 root (va + of_nat n + of_nat j)"
      using True i by (auto simp: addr e diff simp del: of_nat_add)
    then show ?thesis using a b True by (simp add: stored_at_def)
  next
    case False
    then have lt: "i - n < len - n" "n + (i - n) = i" "i - n + n = i" using i by simp_all
    have "m2 (user_addr m1 root (va + of_nat n + of_nat (i - n))) = src (i - n + n)"
      using b lt(1) unfolding stored_at_def by blast
    then show ?thesis unfolding addr e lt(2,3) .
  qed
next
  have e: "va + of_nat n + of_nat i = va + of_nat (n + i)" for i by simp
  fix x assume x: "\<forall>i < len. x \<noteq> user_addr m root (va + of_nat i)"
  then have "\<forall>j < len - n. x \<noteq> user_addr m1 root (va + of_nat n + of_nat j)"
    by (auto simp: addr e simp del: of_nat_add)
  moreover have "\<forall>i < n. x \<noteq> user_addr m root (va + of_nat i)" using x n by simp
  ultimately show "m2 x = m x" using a b by (simp add: stored_at_def)
qed

lemma user_addr_distinct:
  assumes "user_mapped m root va len" "user_private m root va len" "i < len" "j < len" "i \<noteq> j"
  shows "user_addr m root (va + of_nat i) \<noteq> user_addr m root (va + of_nat j)"
proof
  assume eq: "user_addr m root (va + of_nat i) = user_addr m root (va + of_nat j)"
  then have "PTE2PA (lookup m root (va + of_nat i)) = PTE2PA (lookup m root (va + of_nat j))"
    using user_addr_page by metis
  then have "PGROUNDDOWN (va + of_nat i) = PGROUNDDOWN (va + of_nat j)"
    using assms(2-4) unfolding user_private_def by blast
  then have "va + of_nat i = va + of_nat j" using user_addr_inj eq by blast
  then have "unat va + i = unat va + j" using user_mappedD(1) [OF assms(1)] assms(3,4) by metis
  then show False using assms(5) by simp
qed

lemma copyout_spec:
  assumes "wf_pt s root" "user_mapped (ram s) root va (unat len)" "user_private (ram s) root va (unat len)"
  shows "\<exists>m. copyout s root va src len = Ok (0, s\<lparr>ram := m\<rparr>) \<and>
    stored_at (ram s) root va src (unat len) m"
  using assms
proof (induction "unat len" arbitrary: s len src va rule: less_induct)
  case less
  show ?case
  proof (cases "0 < len")
    case False
    then have "len = 0" by (simp add: word_less_nat_alt unat_eq_0)
    then have "copyout s root va src len = Ok (0, s\<lparr>ram := ram s\<rparr>)" by (simp add: copyout.simps)
    moreover have "stored_at (ram s) root va src (unat len) (ram s)"
      using \<open>len = 0\<close> by (simp add: stored_at_def)
    ultimately show ?thesis by blast
  next
    case True
    define n where "n = unat (page_chunk va len)"
    note C = chunk [OF n_def]
    have pos: "0 < unat len" "0 < n" using True C(3) by (simp_all add: word_less_nat_alt)
    note M = user_mappedD [OF less.prems(2)]
    have va: "va < MAXVA" using M(2) [OF pos(1)] by simp
    have w: "walkaddr s root (PGROUNDDOWN va) = Ok (PTE2PA (lookup (ram s) root va))"
      using walkaddr_lookup [OF less.prems(1) PGROUNDDOWN_va(1) [OF va]] PGROUNDDOWN_va(3) [OF va]
        M(3,4) [OF pos(1)] by simp
    define m where "m = move_in (ram s) (user_addr (ram s) root va) src n"
    have step: "copyout s root va src len =
        copyout (s\<lparr>ram := m\<rparr>) root (PGROUNDDOWN va + PGSIZE) (\<lambda>i. src (i + n)) (len - page_chunk va len)"
      using True w M(5) [OF pos(1)] by (subst copyout.simps) (simp add: Let_def n_def m_def user_addr_def)
    have st: "stored_at (ram s) root va src n m"
      unfolding stored_at_def m_def
      using move_in_range [of n] C(2) user_addr_chunk [OF va n_def] by auto
    have out: "\<forall>i < n. PTE2PA (lookup (ram s) root (va + of_nat i)) \<notin> pt_nodes (ram s) root"
      using less.prems(3) C(1) by (simp add: user_private_def)
    have tree: "wf_tree (ram s) root" using less.prems(1) by (simp add: wf_pt_def)
    note T = stored_at_tables [OF tree st out tree]
    have wf: "wf_pt (s\<lparr>ram := m\<rparr>) root"
      using less.prems(1) T(2,3) by (simp add: wf_pt_def busy_def managed_def)
    show ?thesis
    proof (cases "n = unat len")
      case all: True
      then have "len - page_chunk va len = 0" using C(6) by (simp add: unat_eq_0)
      then show ?thesis using step st all by (auto simp: copyout.simps)
    next
      case False
      then have lt: "n < unat len" using C(1) by simp
      have um: "user_mapped m root (va + of_nat n) (unat (len - page_chunk va len))"
        unfolding C(6) user_mapped_def T(1)
        using user_mapped_drop [OF less.prems(2) C(1)] unfolding user_mapped_def .
      have up: "user_private m root (va + of_nat n) (unat (len - page_chunk va len))"
        unfolding C(6) user_private_def T(1,2)
        using user_private_drop [OF less.prems(3) C(1)] unfolding user_private_def .
      have "unat (len - page_chunk va len) < unat len" using C(6) lt pos by simp
      then obtain m2 where m2: "copyout (s\<lparr>ram := m\<rparr>) root (va + of_nat n) (\<lambda>i. src (i + n))
          (len - page_chunk va len) = Ok (0, s\<lparr>ram := m2\<rparr>)"
        "stored_at m root (va + of_nat n) (\<lambda>i. src (i + n)) (unat len - n) m2"
        using less.hyps [OF _ wf, of "len - page_chunk va len"] um up unfolding C(6) by fastforce
      have "stored_at (ram s) root va src (unat len) m2"
        by (rule stored_at_append [OF st m2(2)])
          (simp_all add: user_addr_def T(1) C(1) user_addr_distinct [OF less.prems(2,3), unfolded user_addr_def])
      then show ?thesis using step m2(1) C(5) [OF lt] by auto
    qed
  qed
qed

lemma copyout_copyin:
  assumes "wf_pt s root" "user_mapped (ram s) root va (unat len)" "user_private (ram s) root va (unat len)"
  shows "\<exists>s'. copyout s root va src len = Ok (0, s') \<and>
    copyin s' root dst 0 va len = Ok (0, \<lambda>i. if i < unat len then src i else dst i)"
proof -
  obtain m where m: "copyout s root va src len = Ok (0, s\<lparr>ram := m\<rparr>)"
    "stored_at (ram s) root va src (unat len) m" using copyout_spec [OF assms] by blast
  have tree: "wf_tree (ram s) root" using assms(1) by (simp add: wf_pt_def)
  have out: "\<forall>i < unat len. PTE2PA (lookup (ram s) root (va + of_nat i)) \<notin> pt_nodes (ram s) root"
    using assms(3) by (simp add: user_private_def)
  note T = stored_at_tables [OF tree m(2) out tree]
  have wf: "wf_pt (s\<lparr>ram := m\<rparr>) root"
    using assms(1) T(2,3) by (simp add: wf_pt_def busy_def managed_def)
  have "user_mapped m root va (unat len)"
    using assms(2) unfolding user_mapped_def T(1) .
  moreover have "user_byte m root (va + of_nat i) = src i" if "i < unat len" for i
    using m(2) that by (simp add: user_byte_def stored_at_def user_addr_def T(1))
  ultimately show ?thesis
    using m(1) copyin_spec [OF wf, of va len dst 0] by (auto simp: fun_eq_iff cong: if_cong)
qed

lemma stored_at_keeps:
  assumes "wf_pt s root" "user_private (ram s) root va len" "stored_at (ram s) root va src len m"
  shows "wf_pt (s\<lparr>ram := m\<rparr>) root" "lookup m root vb = lookup (ram s) root vb"
    "user_mapped m root vb n = user_mapped (ram s) root vb n"
    "user_private m root vb n = user_private (ram s) root vb n"
proof -
  have tree: "wf_tree (ram s) root" using assms(1) by (simp add: wf_pt_def)
  have out: "\<forall>i < len. PTE2PA (lookup (ram s) root (va + of_nat i)) \<notin> pt_nodes (ram s) root"
    using assms(2) by (simp add: user_private_def)
  note T = stored_at_tables [OF tree assms(3) out tree]
  show "wf_pt (s\<lparr>ram := m\<rparr>) root" using assms(1) T(2,3) by (simp add: wf_pt_def busy_def managed_def)
  show "lookup m root vb = lookup (ram s) root vb" by (rule T(1))
  show "user_mapped m root vb n = user_mapped (ram s) root vb n" by (simp only: user_mapped_def T(1))
  show "user_private m root vb n = user_private (ram s) root vb n" by (simp only: user_private_def T(1,2))
qed

lemma mapped_one:
  assumes "user_mapped m root va len" "i < len"
  shows "user_mapped m root (va + of_nat i) 1"
proof -
  have "unat va + len \<le> 2 ^ 38" using assms(1) unfolding user_mapped_def by blast
  then have "unat (va + of_nat i) + 1 \<le> 2 ^ 38" using user_mappedD(1) [OF assms] assms(2) by linarith
  moreover have "va + of_nat i + of_nat j = va + of_nat i" if "j < 1" for j using that by simp
  ultimately show ?thesis using user_mappedD(3-5) [OF assms] unfolding user_mapped_def Let_def by metis
qed

lemma private_one:
  assumes "user_private m root va len" "i < len"
  shows "user_private m root (va + of_nat i) 1"
proof -
  have "va + of_nat i + of_nat j = va + of_nat i" if "j < 1" for j using that by simp
  then show ?thesis using assms unfolding user_private_def by metis
qed

text \<open>One byte stored, then the rest: the loops of \<^verbatim>\<open>piperead\<close> and \<^verbatim>\<open>consoleread\<close>.\<close>

lemma stored_at_cons:
  assumes wf: "wf_pt s root" and um: "user_mapped (ram s) root va (Suc k)" and up: "user_private (ram s) root va (Suc k)"
    and a: "stored_at (ram s) root va (\<lambda>_. ch) 1 m1" and b: "stored_at m1 root (va + 1) src k m2"
  shows "stored_at (ram s) root va (case_nat ch src) (Suc k) m2"
proof (rule stored_at_append [where n = 1])
  show "stored_at (ram s) root va (case_nat ch src) 1 m1" using a by (simp add: stored_at_def)
  show "stored_at m1 root (va + of_nat 1) (\<lambda>i. case_nat ch src (i + 1)) (Suc k - 1) m2" using b by simp
  have "user_private (ram s) root va 1" using private_one [OF up, of 0] by simp
  then show "user_addr m1 root vb = user_addr (ram s) root vb" for vb
    using stored_at_keeps(2) [OF wf _ a] by (simp add: user_addr_def)
qed (use user_addr_distinct [OF um up] in simp_all)

section \<open>Strings\<close>

lemma str_page_found:
  assumes "\<forall>i < z. m (p + of_nat i) \<noteq> 0" "m (p + of_nat z) = 0" "z < n"
  shows "str_page n m p dst k =
    (True, \<lambda>i. if k \<le> i \<and> i \<le> k + z then m (p + of_nat (i - k)) else dst i, k + z)"
  using assms
proof (induction n arbitrary: p dst k z)
  case 0
  then show ?case by simp
next
  case (Suc n)
  show ?case
  proof (cases z)
    case 0
    then show ?thesis using Suc.prems by (auto simp: fun_eq_iff)
  next
    case (Suc y)
    have "m p \<noteq> 0" using Suc.prems(1) Suc by force
    moreover have "\<forall>i < y. m (p + 1 + of_nat i) \<noteq> 0"
      using Suc.prems(1) Suc by (metis add.assoc of_nat_Suc add.commute Suc_less_eq)
    moreover have "m (p + 1 + of_nat y) = 0" using Suc.prems(2) Suc by (simp add: add.assoc)
    ultimately have "str_page (Suc n) m p dst k = (True, \<lambda>i. if Suc k \<le> i \<and> i \<le> Suc k + y
        then m (p + 1 + of_nat (i - Suc k)) else (dst(k := m p)) i, Suc k + y)"
      using Suc.IH [of y "p + 1" "dst(k := m p)" "Suc k"] Suc.prems(3) Suc by (simp del: fun_upd_apply)
    moreover have "m (p + 1 + of_nat (i - Suc k)) = m (p + of_nat (i - k))" if "Suc k \<le> i" for i
      using that by (simp add: of_nat_diff)
    ultimately show ?thesis using Suc by (auto simp: fun_eq_iff simp del: of_nat_diff)
  qed
qed

lemma str_page_not_found:
  assumes "\<forall>i < n. m (p + of_nat i) \<noteq> 0"
  shows "str_page n m p dst k =
    (False, \<lambda>i. if k \<le> i \<and> i < k + n then m (p + of_nat (i - k)) else dst i, k + n)"
  using assms
proof (induction n arbitrary: p dst k)
  case 0
  then show ?case by (auto simp: fun_eq_iff)
next
  case (Suc n)
  have "m p \<noteq> 0" using Suc.prems by force
  moreover have "\<forall>i < n. m (p + 1 + of_nat i) \<noteq> 0"
    using Suc.prems by (metis add.assoc of_nat_Suc add.commute Suc_less_eq)
  ultimately have "str_page (Suc n) m p dst k = (False, \<lambda>i. if Suc k \<le> i \<and> i < Suc k + n
      then m (p + 1 + of_nat (i - Suc k)) else (dst(k := m p)) i, Suc k + n)"
    using Suc.IH [of "p + 1" "dst(k := m p)" "Suc k"] by (simp del: fun_upd_apply)
  moreover have "m (p + 1 + of_nat (i - Suc k)) = m (p + of_nat (i - k))" if "Suc k \<le> i" for i
    using that by (simp add: of_nat_diff)
  ultimately show ?case by (auto simp: fun_eq_iff simp del: of_nat_diff)
qed

lemma copyinstr_spec:
  assumes "wf_pt s root" "user_mapped (ram s) root va (Suc z)" "z < unat maxlen"
    and "\<forall>i < z. user_byte (ram s) root (va + of_nat i) \<noteq> 0" "user_byte (ram s) root (va + of_nat z) = 0"
  shows "copyinstr s root dst k va maxlen =
    Ok (0, \<lambda>i. if k \<le> i \<and> i \<le> k + z then user_byte (ram s) root (va + of_nat (i - k)) else dst i)"
  using assms(2-)
proof (induction z arbitrary: maxlen dst k va rule: less_induct)
  case (less z)
  define n where "n = unat (page_chunk va maxlen)"
  note C = chunk [OF n_def]
  note M = user_mappedD [OF less.prems(1)]
  have va: "va < MAXVA" using M(2) [of 0] by simp
  have pos: "0 < maxlen" "0 < n" using less.prems(2) C(3) by (auto simp: word_less_nat_alt)
  have w: "walkaddr s root (PGROUNDDOWN va) = Ok (PTE2PA (lookup (ram s) root va))"
    using walkaddr_lookup [OF assms(1) PGROUNDDOWN_va(1) [OF va]] PGROUNDDOWN_va(3) [OF va]
      M(3,4) [of 0] by simp
  have byte: "ram s (user_addr (ram s) root va + of_nat i) = user_byte (ram s) root (va + of_nat i)"
    if "i < n" for i using user_addr_chunk [OF va n_def that] by (simp add: user_byte_def)
  have step: "copyinstr s root dst k va maxlen =
      (case str_page n (ram s) (user_addr (ram s) root va) dst k of (got_null, dst', k') \<Rightarrow>
         if got_null then Ok (0, dst')
         else copyinstr s root dst' k' (PGROUNDDOWN va + PGSIZE) (maxlen - of_nat (k' - k)))"
    using pos(1) w M(5) [of 0] by (subst copyinstr.simps) (simp add: n_def user_addr_def)
  show ?case
  proof (cases "z < n")
    case True
    then have "str_page n (ram s) (user_addr (ram s) root va) dst k =
        (True, \<lambda>i. if k \<le> i \<and> i \<le> k + z then ram s (user_addr (ram s) root va + of_nat (i - k)) else dst i, k + z)"
      using byte less.prems(3,4) by (intro str_page_found) auto
    moreover have "ram s (user_addr (ram s) root va + of_nat (i - k)) = user_byte (ram s) root (va + of_nat (i - k))"
      if "k \<le> i" "i \<le> k + z" for i
      using True that by (intro byte) simp
    ultimately show ?thesis using step by (auto simp: fun_eq_iff simp del: of_nat_diff)
  next
    case False
    let ?dst = "\<lambda>i. if k \<le> i \<and> i < k + n then ram s (user_addr (ram s) root va + of_nat (i - k)) else dst i"
    have "str_page n (ram s) (user_addr (ram s) root va) dst k = (False, ?dst, k + n)"
      using byte less.prems(3) False by (intro str_page_not_found) auto
    moreover have lt: "n < unat maxlen" using False less.prems(2) by simp
    ultimately have next_page: "copyinstr s root dst k va maxlen =
        copyinstr s root ?dst (k + n) (va + of_nat n) (maxlen - of_nat n)"
      using step C(5) by simp
    have e: "va + of_nat n + of_nat i = va + of_nat (n + i)" for i by simp
    have ml: "unat (maxlen - of_nat n) = unat maxlen - n" using C(6) by (simp add: n_def)
    have zn: "n + (z - n) = z" using False by simp
    have "user_mapped (ram s) root (va + of_nat n) (Suc (z - n))"
      using user_mapped_drop [OF less.prems(1), of n] False by (simp add: Suc_diff_le)
    moreover have "z - n < unat (maxlen - of_nat n)" using False less.prems(2) ml by simp
    moreover have "\<forall>i < z - n. user_byte (ram s) root (va + of_nat n + of_nat i) \<noteq> 0"
      unfolding e using less.prems(3) by (simp add: less_diff_conv add.commute del: of_nat_add)
    moreover have "user_byte (ram s) root (va + of_nat n + of_nat (z - n)) = 0"
      unfolding e zn by (rule less.prems(4))
    ultimately have "copyinstr s root ?dst (k + n) (va + of_nat n) (maxlen - of_nat n) =
        Ok (0, \<lambda>i. if k + n \<le> i \<and> i \<le> k + n + (z - n)
          then user_byte (ram s) root (va + of_nat n + of_nat (i - (k + n))) else ?dst i)"
      using less.IH [of "z - n"] False pos(2) by simp
    moreover have "user_byte (ram s) root (va + of_nat n + of_nat (i - (k + n))) =
        user_byte (ram s) root (va + of_nat (i - k))" if "k + n \<le> i" for i
      using that by (simp add: of_nat_diff)
    moreover have "ram s (user_addr (ram s) root va + of_nat (i - k)) = user_byte (ram s) root (va + of_nat (i - k))"
      if "k \<le> i" "i < k + n" for i
      using that by (intro byte) simp
    ultimately show ?thesis
      using next_page False by (auto simp: fun_eq_iff simp del: of_nat_diff)
  qed
qed

section \<open>Properties\<close>

text \<open>
  C16. What the kernel copies out to a mapped user range it reads back unchanged: \<^verbatim>\<open>copyout\<close>
  succeeds whatever the alignment of the range, and a following \<^verbatim>\<open>copyin\<close> of the range returns
  exactly the bytes written, leaving the rest of its buffer alone.
\<close>

theorem copyout_copyin_roundtrip:
  assumes "wf_pt s root" "user_mapped (ram s) root va (unat len)" "user_private (ram s) root va (unat len)"
  shows "\<exists>s'. copyout s root va src len = Ok (0, s') \<and>
    copyin s' root dst 0 va len = Ok (0, \<lambda>i. if i < unat len then src i else dst i)"
  by (rule copyout_copyin [OF assms])

lemma demo_mapped:
  assumes "unat va + len \<le> 8192"
  shows "user_mapped (ram demo) 0x87ff7000 va len" "user_private (ram demo) 0x87ff7000 va len"
proof -
  have in2: "pages_from 0 2 (va + of_nat i)" if "i < len" for i
  proof -
    have "unat (va + of_nat i) = unat va + i" using that assms by (intro add_unat_less [where n = len]) simp_all
    then show ?thesis using that assms by (simp add: pages_from_def)
  qed
  have u: "bit (lookup (ram demo) 0x87ff7000 vb) 4" "PTE2PA (lookup (ram demo) 0x87ff7000 vb) \<noteq> 0"
    if "pages_from 0 2 vb" for vb
  proof -
    show "bit (lookup (ram demo) 0x87ff7000 vb) 4" using demo_lookup [OF that] by (auto simp: bit_simps)
    have "KERNBASE \<le> kend demo" by (simp add: demo_def KERNBASE_def)
    then show "PTE2PA (lookup (ram demo) 0x87ff7000 vb) \<noteq> 0"
      using managed_nonzero user_rangeD(3) [OF demo_user_range that] by blast
  qed
  show "user_mapped (ram demo) 0x87ff7000 va len"
    using user_rangeD(1) [OF demo_user_range in2] u [OF in2] assms by (simp add: user_mapped_def Let_def)
  show "user_private (ram demo) 0x87ff7000 va len"
    unfolding user_private_def using user_rangeD(4,6) [OF demo_user_range in2] in2 by blast
qed

theorem copyout_copyin_roundtrip_witness:
  "\<exists>s'. copyout demo 0x87ff7000 0xffe (\<lambda>i. of_nat i) 5 = Ok (0, s') \<and>
    copyin s' 0x87ff7000 (\<lambda>_. 9) 0 0xffe 5 = Ok (0, \<lambda>i. if i < 5 then of_nat i else 9)"
proof -
  have "unat (0xffe :: u64) + unat (5 :: u64) \<le> 8192" by simp
  from copyout_copyin_roundtrip [OF demo_wf(1) demo_mapped [OF this]] show ?thesis by simp
qed

text \<open>
  C17. \<^verbatim>\<open>copyinstr\<close> of a mapped string whose terminating zero comes within the limit returns 0 and
  the string with its zero, across page boundaries.
\<close>

theorem copyinstr_copies_string:
  assumes "wf_pt s root" "user_mapped (ram s) root va (Suc z)" "z < unat maxlen"
    and "\<forall>i < z. user_byte (ram s) root (va + of_nat i) \<noteq> 0" "user_byte (ram s) root (va + of_nat z) = 0"
  shows "copyinstr s root dst k va maxlen =
    Ok (0, \<lambda>i. if k \<le> i \<and> i \<le> k + z then user_byte (ram s) root (va + of_nat (i - k)) else dst i)"
  by (rule copyinstr_spec [OF assms])

theorem copyinstr_copies_string_witness:
  "copyinstr demo 0x87ff7000 (\<lambda>_. 9) 0 0xffe 5 =
    Ok (0, \<lambda>i. if i = 0 then user_byte (ram demo) 0x87ff7000 0xffe else 9)"
proof -
  have "unat (0xffe :: u64) + Suc 0 \<le> 8192" by simp
  note m = demo_mapped [OF this]
  have "user_byte (ram demo) 0x87ff7000 0xffe = 0" by (rule demo_data) (simp add: pages_from_def)
  then show ?thesis
    using copyinstr_copies_string [OF demo_wf(1) m(1), of 5 "\<lambda>_. 9" 0]
    by (auto simp: fun_eq_iff cong: if_cong)
qed

end
