(* ===== verification/Cow.thy ===== *)
theory Cow
  imports Usercopy
begin

text \<open>
  Copy-on-write: \<^verbatim>\<open>handleCOW\<close> of \<^verbatim>\<open>kernel/trap.c\<close>, the fork-time sharing of \<^verbatim>\<open>uvmcopy\<close>, and what
  the two promise together. After a fork both address spaces read the same bytes through the
  same physical pages, every reference count has gone up by one and both entries are read-only;
  a write fault then gives the faulting process a private copy and leaves the other alone.
\<close>

section \<open>Definitions\<close>

text \<open>
  The page-fault handler reads \<^verbatim>\<open>*pte\<close> before it tests \<^verbatim>\<open>pte\<close>, so an address without a table page
  is a null dereference. The early returns in the middle leave \<^verbatim>\<open>memref.lock_kalloc\<close> cleared, as
  the code does.
\<close>

definition handleCOW :: "kstate \<Rightarrow> u64 \<Rightarrow> u64 \<Rightarrow> (int \<times> kstate) res" where
  "handleCOW s pagetable va =
     (if va \<ge> MAXVA then Ok (1, s)
      else let va = PGROUNDDOWN va in
        rbind (walk s pagetable va False) (\<lambda>(pte, s).
          if pte = 0 then Fault ''handleCOW''
          else let pa = PTE2PA (load64 (ram s) pte); flags = PTE_FLAGS (load64 (ram s) pte) in
            if va = 0 \<or> flags AND PTE_COW = 0 \<or> pte = 0 \<or> flags AND PTE_V = 0 \<or> flags AND PTE_U = 0
            then Ok (1, s)
            else rbind (memref_lock s) (\<lambda>s.
              let s = memref_unlock_kalloc s; flags = (flags AND NOT PTE_COW) OR PTE_W in
              rbind (memref_get s pa) (\<lambda>fq.
                if fq = 1
                then let s = s\<lparr>ram := store64 (ram s) pte
                                 ((load64 (ram s) pte AND NOT PTE_COW) OR PTE_W)\<rparr> in
                  rbind (memref_unlock (memref_lock_kalloc s)) (\<lambda>s. Ok (0, s))
                else rbind (kalloc s) (\<lambda>(mem, s).
                  if mem = 0
                  then rbind (memref_unlock s) (\<lambda>s. Ok (1, s))
                  else let s = s\<lparr>ram := memmove (ram s) mem pa 4096\<rparr> in
                    rbind (uvmunmap s pagetable va 1 False) (\<lambda>s.
                    rbind (mappages s pagetable va PGSIZE mem flags) (\<lambda>(r, s).
                      if r \<noteq> 0
                      then rbind (kfree s mem) (\<lambda>s. rbind (memref_unlock s) (\<lambda>s. Ok (1, s)))
                      else rbind (memref_set s pa (fq - 1)) (\<lambda>s.
                        rbind (memref_unlock (memref_lock_kalloc s)) (\<lambda>s. Ok (0, s))))))))))"

text \<open>The entry \<^verbatim>\<open>uvmcopy\<close> leaves in the parent, and the one it gives the child.\<close>

definition cow_pte :: "u64 \<Rightarrow> u64" where
  "cow_pte v = (v AND NOT PTE_W) OR PTE_COW"

definition child_pte :: "u64 \<Rightarrow> u64" where
  "child_pte v = PA2PTE (PTE2PA v) OR ((PTE_FLAGS v AND NOT PTE_W) OR PTE_COW) OR PTE_V"

text \<open>
  The state of \<^verbatim>\<open>uvmcopy\<close> after \<open>k\<close> pages, against the state \<open>s0\<close> (free pages \<open>ps0\<close>) it started in.
\<close>

definition copied :: "kstate \<Rightarrow> u64 list \<Rightarrow> u64 \<Rightarrow> u64 \<Rightarrow> nat \<Rightarrow> kstate \<Rightarrow> u64 list \<Rightarrow> bool" where
  "copied s0 ps0 old new k s ps \<longleftrightarrow>
     kmem_avail s ps \<and> set ps \<subseteq> set ps0 \<and> kend s = kend s0 \<and> \<not> memref_held s \<and>
     lock_kalloc s = lock_kalloc s0 \<and> wf_pt s old \<and> wf_pt s new \<and>
     pt_nodes (ram s) old = pt_nodes (ram s0) old \<and>
     pt_nodes (ram s) new \<subseteq> pt_nodes (ram s0) new \<union> set ps0 \<and>
     pt_nodes (ram s) new \<inter> pt_nodes (ram s) old = {} \<and>
     (\<forall>vb < MAXVA. lookup (ram s) old vb =
        (if pages_from 0 k vb then cow_pte (lookup (ram s0) old vb) else lookup (ram s0) old vb)) \<and>
     (\<forall>vb < MAXVA. lookup (ram s) new vb =
        (if pages_from 0 k vb then child_pte (lookup (ram s0) old vb) else lookup (ram s0) new vb)) \<and>
     (\<forall>p. managed s0 p \<and> p \<notin> set ps0 \<longrightarrow> fr s (fn p) =
        fr s0 (fn p) + (if p \<in> backing (ram s0) old 0 k then 1 else 0)) \<and>
     (\<forall>x. PGROUNDDOWN x \<notin> pt_nodes (ram s0) old \<union> pt_nodes (ram s0) new \<union> set ps0 \<longrightarrow>
        ram s x = ram s0 x)"

text \<open>
  The state in which a failing \<^verbatim>\<open>uvmcopy\<close> leaves the machine after \<open>k\<close> shared pages: everything as
  it was, except that parent entries are read-only and the child's table may have grown.
\<close>

definition undone :: "kstate \<Rightarrow> u64 list \<Rightarrow> u64 \<Rightarrow> u64 \<Rightarrow> nat \<Rightarrow> kstate \<Rightarrow> bool" where
  "undone s0 ps0 old new k s \<longleftrightarrow>
     (\<exists>ps. kmem_avail s ps \<and> wf_pt s old \<and> wf_pt s new) \<and> \<not> memref_held s \<and>
     (\<forall>vb < MAXVA. lookup (ram s) old vb =
        (if pages_from 0 (Suc k) vb then cow_pte (lookup (ram s0) old vb) else lookup (ram s0) old vb)) \<and>
     (\<forall>vb < MAXVA. pages_from 0 k vb \<longrightarrow> lookup (ram s) new vb = 0) \<and>
     (\<forall>p. managed s0 p \<and> p \<notin> set ps0 \<longrightarrow> fr s (fn p) = fr s0 (fn p)) \<and>
     (\<forall>x. PGROUNDDOWN x \<notin> pt_nodes (ram s0) old \<union> pt_nodes (ram s0) new \<union> set ps0 \<longrightarrow>
        ram s x = ram s0 x)"

text \<open>What \<^verbatim>\<open>fork\<close> guarantees when it calls \<^verbatim>\<open>uvmcopy\<close> for \<open>n\<close> pages.\<close>

definition fork_ready :: "kstate \<Rightarrow> u64 list \<Rightarrow> u64 \<Rightarrow> u64 \<Rightarrow> nat \<Rightarrow> bool" where
  "fork_ready s ps old new n \<longleftrightarrow>
     kmem_avail s ps \<and> \<not> memref_held s \<and> wf_pt s old \<and> wf_pt s new \<and>
     pt_nodes (ram s) new \<inter> pt_nodes (ram s) old = {} \<and> n * 4096 \<le> 2 ^ 38 \<and>
     user_range s old 0 n \<and>
     (\<forall>vb. pages_from 0 n vb \<longrightarrow> \<not> bit (lookup (ram s) new vb) 0 \<and>
        PTE2PA (lookup (ram s) old vb) \<notin> pt_nodes (ram s) new \<and>
        sint (fr s (fn (PTE2PA (lookup (ram s) old vb)))) < 2 ^ 31 - 1)"

text \<open>A write fault on a shared user page, and what handling it must achieve.\<close>

definition cow_fault :: "kstate \<Rightarrow> u64 list \<Rightarrow> u64 \<Rightarrow> u64 \<Rightarrow> bool" where
  "cow_fault s ps root va \<longleftrightarrow>
     kmem_avail s ps \<and> \<not> memref_held s \<and> lock_kalloc s \<and> wf_pt s root \<and> va < MAXVA \<and>
     PGROUNDDOWN va \<noteq> 0 \<and>
     (let v = lookup (ram s) root va in
        bit v 0 \<and> bit v 4 \<and> bit v 9 \<and> managed s (PTE2PA v) \<and>
        PTE2PA v \<notin> pt_nodes (ram s) root \<and> 0 < sint (fr s (fn (PTE2PA v))))"

definition private_copy :: "kstate \<Rightarrow> u64 list \<Rightarrow> u64 \<Rightarrow> u64 \<Rightarrow> kstate \<Rightarrow> bool" where
  "private_copy s ps root va s' \<longleftrightarrow>
     (\<exists>ps'. kmem_avail s' ps') \<and> \<not> memref_held s' \<and> lock_kalloc s' \<and> wf_pt s' root \<and>
     pt_nodes (ram s') root = pt_nodes (ram s) root \<and>
     (let pa = PTE2PA (lookup (ram s) root va); v' = lookup (ram s') root va; pa' = PTE2PA v' in
        bit v' 0 \<and> bit v' 2 \<and> bit v' 4 \<and> \<not> bit v' 9 \<and> fr s' (fn pa') = 1 \<and>
        (\<forall>k < 4096. ram s' (pa' + of_nat k) = ram s (pa + of_nat k)) \<and>
        (if pa' = pa then fr s (fn pa) = 1
         else pa' \<in> set ps \<and> fr s' (fn pa) = fr s (fn pa) - 1) \<and>
        (\<forall>p. managed s p \<and> p \<notin> set ps \<and> p \<noteq> pa \<longrightarrow> fr s' (fn p) = fr s (fn p))) \<and>
     (\<forall>vb < MAXVA. PGROUNDDOWN vb \<noteq> PGROUNDDOWN va \<longrightarrow>
        lookup (ram s') root vb = lookup (ram s) root vb) \<and>
     (\<forall>x. PGROUNDDOWN x \<notin> pt_nodes (ram s) root \<union> set ps \<longrightarrow> ram s' x = ram s x)"

section \<open>Entries\<close>

lemma unat_below_bits:
  fixes w :: u64
  assumes "\<And>k. 10 \<le> k \<Longrightarrow> \<not> bit w k"
  shows "unat w < 2 ^ 10"
proof -
  have "w = take_bit 10 w" by (rule bit_word_eqI) (metis assms bit_take_bit_iff linorder_not_le)
  then have "unat w = take_bit 10 (unat w)" by (metis unsigned_take_bit_eq)
  then show ?thesis by (metis take_bit_nat_less_exp)
qed

lemma bit_PTE_FLAGS: "bit (PTE_FLAGS v) k \<longleftrightarrow> k < 10 \<and> bit v k"
proof -
  have mask: "(0x3FF :: u64) = mask 10" by (simp add: mask_eq_exp_minus_1)
  show ?thesis unfolding PTE_FLAGS_def mask by (auto simp: bit_simps)
qed

lemma cow_pte_bits:
  "bit (cow_pte v) k \<longleftrightarrow> k = 9 \<or> k \<noteq> 2 \<and> bit v k"
  by (auto simp: cow_pte_def bit_simps bit_pte_bits dest: bit_imp_le_length)

lemma PTE2PA_cow_pte: "PTE2PA (cow_pte v) = PTE2PA v"
  by (rule bit_word_eqI) (auto simp: bit_PTE2PA cow_pte_bits)

lemma child_pte_flags:
  shows "PTE2PA (child_pte v) = PTE2PA v"
    and "PTE_FLAGS (child_pte v) = PTE_FLAGS (cow_pte v) OR PTE_V"
proof -
  let ?f = "((PTE_FLAGS v AND NOT PTE_W) OR PTE_COW) OR PTE_V"
  have c: "child_pte v = PA2PTE (PTE2PA v) OR ?f"
    unfolding child_pte_def by (rule bit_word_eqI) (auto simp: bit_simps)
  have small: "unat ?f < 2 ^ 10"
    by (rule unat_below_bits) (auto simp: bit_simps bit_PTE_FLAGS bit_pte_bits)
  show "PTE2PA (child_pte v) = PTE2PA v"
    unfolding c by (rule PTE2PA_PA2PTE [OF _ small]) simp
  have "?f = PTE_FLAGS (cow_pte v) OR PTE_V"
    by (rule bit_word_eqI) (auto simp: bit_simps bit_PTE_FLAGS bit_pte_bits cow_pte_bits)
  then show "PTE_FLAGS (child_pte v) = PTE_FLAGS (cow_pte v) OR PTE_V"
    unfolding c PTE_FLAGS_PA2PTE [OF small] .
qed

lemma child_pte_bits:
  "bit (child_pte v) 0" "bit (child_pte v) 9" "\<not> bit (child_pte v) 2" "PTE_FLAGS (child_pte v) \<noteq> PTE_V"
proof -
  have b: "bit (child_pte v) k = bit (PTE_FLAGS (cow_pte v) OR PTE_V) k" if "k < 10" for k
    using that bit_PTE_FLAGS [of "child_pte v" k] child_pte_flags(2) [of v] by simp
  show "bit (child_pte v) 0" "bit (child_pte v) 9" "\<not> bit (child_pte v) 2"
    using b [of 0] b [of 9] b [of 2] by (simp_all add: bit_simps bit_PTE_FLAGS cow_pte_bits bit_pte_bits)
  have "bit (PTE_FLAGS (child_pte v)) 9" "\<not> bit PTE_V 9"
    using \<open>bit (child_pte v) 9\<close> by (simp_all add: bit_PTE_FLAGS bit_pte_bits)
  then show "PTE_FLAGS (child_pte v) \<noteq> PTE_V" by metis
qed

section \<open>Reference counts\<close>

lemma set_count:
  assumes av: "kmem_avail s ps" and pa: "managed s pa" "pa \<notin> set ps" and c: "c \<noteq> 0"
  defines "s' \<equiv> s\<lparr>fr := (fr s)(fn pa := c)\<rparr>"
  shows "kmem_avail s' ps" "busy s' = busy s"
proof -
  note D = kmem_availD [OF av]
  note K = kalloc_invD [OF D(1)]
  have m: "managed s' p = managed s p" for p by (simp add: s'_def managed_def)
  have f: "fr s' (fn p) = (if p = pa then c else fr s (fn p))" if "managed s p" for p
    using fn_inj [OF D(3) that pa(1)] by (auto simp: s'_def)
  have nz: "fr s (fn pa) \<noteq> 0" using K(5) [OF pa(1)] pa(2) by simp
  have "kalloc_inv s' ps"
  proof (rule kalloc_invI)
    show "\<forall>p \<in> set ps. managed s' p" using K(4) m by blast
    show "(p \<in> set ps) = (fr s' (fn p) = 0)" if "managed s' p" for p
      using that K(5) [of p] f [of p] m [of p] pa(2) c by auto
  qed (use K in \<open>simp_all add: s'_def\<close>)
  then show "kmem_avail s' ps" using D(4) by (simp add: kmem_avail_def s'_def)
  show "busy s' = busy s" unfolding busy_def m using f nz c pa(1) by (auto split: if_splits)
qed

lemma memref_increment:
  assumes av: "kmem_avail s ps" and lk: "\<not> memref_held s" and pa: "managed s pa"
  shows "rbind (memref_lock s) (\<lambda>s. rbind (memref_get s pa) (\<lambda>fq.
      rbind (memref_set s pa (fq + 1)) (\<lambda>s. rbind (memref_unlock s) f))) =
    f (s\<lparr>fr := (fr s)(fn pa := fr s (fn pa) + 1)\<rparr>)"
  using lk managed_fn(2) [OF kmem_availD(3) [OF av] pa]
  by (cases s) (simp add: memref_lock_def memref_get_def memref_set_def memref_unlock_def)

section \<open>Sharing at fork\<close>

lemma covers_page: "aligned 4096 a \<Longrightarrow> covers a PGSIZE vb \<longleftrightarrow> PGROUNDDOWN vb = a"
proof -
  assume a: "aligned 4096 a"
  have "PGROUNDDOWN (a + PGSIZE - 1) = PGROUNDDOWN (a + of_nat 4095)" by (simp add: PGSIZE_def add.commute)
  also have "\<dots> = a" by (rule PGROUNDDOWN_page [OF a]) simp
  finally show ?thesis using a by (auto simp: covers_def PGROUNDDOWN_id)
qed

lemma span_page: "aligned 4096 a \<Longrightarrow> span a PGSIZE = 1"
proof -
  assume a: "aligned 4096 a"
  have "PGROUNDDOWN (a + PGSIZE - 1) = PGROUNDDOWN (a + of_nat 4095)" by (simp add: PGSIZE_def add.commute)
  also have "\<dots> = a" by (rule PGROUNDDOWN_page [OF a]) simp
  finally show ?thesis using a by (simp add: span_def PGROUNDDOWN_id)
qed

lemma copied_0:
  assumes "fork_ready s ps old new n"
  shows "copied s ps old new 0 s ps"
  using assms unfolding fork_ready_def copied_def
  by (auto simp: pages_from_def backing_def)

lemma copiedD:
  assumes "copied s0 ps0 old new k s ps"
  shows "kmem_avail s ps" "set ps \<subseteq> set ps0" "kend s = kend s0" "\<not> memref_held s"
    "lock_kalloc s = lock_kalloc s0" "wf_pt s old" "wf_pt s new"
    "pt_nodes (ram s) old = pt_nodes (ram s0) old"
    "pt_nodes (ram s) new \<subseteq> pt_nodes (ram s0) new \<union> set ps0"
    "pt_nodes (ram s) new \<inter> pt_nodes (ram s) old = {}"
    "vb < MAXVA \<Longrightarrow> lookup (ram s) old vb =
        (if pages_from 0 k vb then cow_pte (lookup (ram s0) old vb) else lookup (ram s0) old vb)"
    "vb < MAXVA \<Longrightarrow> lookup (ram s) new vb =
        (if pages_from 0 k vb then child_pte (lookup (ram s0) old vb) else lookup (ram s0) new vb)"
    "managed s0 p \<Longrightarrow> p \<notin> set ps0 \<Longrightarrow> fr s (fn p) =
        fr s0 (fn p) + (if p \<in> backing (ram s0) old 0 k then 1 else 0)"
    "PGROUNDDOWN x \<notin> pt_nodes (ram s0) old \<union> pt_nodes (ram s0) new \<union> set ps0 \<Longrightarrow> ram s x = ram s0 x"
  using assms unfolding copied_def by blast+

lemma copied_step:
  assumes ready: "fork_ready s0 ps0 old new n" and c: "copied s0 ps0 old new k s ps" and k: "k < n"
    and i: "unat i = k * 4096" and v: "v = lookup (ram s0) old i"
  obtains p where "walk s old i False = Ok (p + 8 * PX 0 i, s)" "p + 8 * PX 0 i \<noteq> 0"
    "load64 (ram s) (p + 8 * PX 0 i) = v" "bit v 0"
    "grown old s ps (s\<lparr>ram := store64 (ram s) (p + 8 * PX 0 i) (cow_pte v)\<rparr>) ps"
    "\<forall>vb < MAXVA. lookup (store64 (ram s) (p + 8 * PX 0 i) (cow_pte v)) old vb =
       (if pages_from 0 (Suc k) vb then cow_pte (lookup (ram s0) old vb) else lookup (ram s0) old vb)"
    "pt_nodes (store64 (ram s) (p + 8 * PX 0 i) (cow_pte v)) old = pt_nodes (ram s0) old"
proof -
  note C = copiedD [OF c]
  have n: "n * 4096 \<le> 2 ^ 38" and U: "user_range s0 old 0 n" using ready by (auto simp: fork_ready_def)
  have lt: "unat i < 2 ^ 38" using i k n by simp
  then have va: "i < MAXVA" by (simp add: word_less_nat_alt MAXVA_val)
  have al: "aligned 4096 i" using i by (simp add: aligned_def)
  have in_n: "pages_from 0 n i" and not_k: "\<not> pages_from 0 k i" using i k by (auto simp: pages_from_def)
  have l: "lookup (ram s) old i = v" using C(11) [OF va] not_k v by simp
  have v0: "bit v 0" using user_rangeD(1) [OF U in_n] v by simp
  obtain p where p: "descend (ram s) old (va_path i) = Some p"
    using l v0 by (fastforce simp: lookup_def split: option.splits)
  note P = wf_ptD [OF C(6) idx_va_path(1) p]
  note leaf = set_leaf [OF C(1) C(6) va p, where v = "cow_pte v"]
  have Suc_k: "pages_from 0 (Suc k) vb \<longleftrightarrow> pages_from 0 k vb \<or> PGROUNDDOWN vb = i" for vb
    using pages_from_PGROUNDDOWN(1) [OF al, of vb] i by (auto simp: pages_from_def)
  show thesis
  proof (rule that)
    show "walk s old i False = Ok (p + 8 * PX 0 i, s)" using p walk_no_alloc [OF va] by simp
    show "p + 8 * PX 0 i \<noteq> 0"
      using unat_entry_addr(1) [OF P(1) unat_PX, of 0 i] P(2) by (auto simp: unat_eq_0)
    show "load64 (ram s) (p + 8 * PX 0 i) = v" using load_pte [OF p] l by simp
    show "\<forall>vb < MAXVA. lookup (store64 (ram s) (p + 8 * PX 0 i) (cow_pte v)) old vb =
       (if pages_from 0 (Suc k) vb then cow_pte (lookup (ram s0) old vb) else lookup (ram s0) old vb)"
    proof (intro allI impI)
      fix vb assume vb: "vb < MAXVA"
      have "PGROUNDDOWN vb = i \<Longrightarrow> lookup (ram s0) old vb = v"
        using lookup_page [OF vb va] al v by (simp add: PGROUNDDOWN_id)
      then show "lookup (store64 (ram s) (p + 8 * PX 0 i) (cow_pte v)) old vb =
         (if pages_from 0 (Suc k) vb then cow_pte (lookup (ram s0) old vb) else lookup (ram s0) old vb)"
        using leaf(3) [OF vb] C(11) [OF vb] al by (auto simp: Suc_k PGROUNDDOWN_id)
    qed
  qed (use v0 leaf C(8) in simp_all)
qed

text \<open>One page further: the entry shared with the child, before its count is raised.\<close>

lemma shared_page:
  assumes ready: "fork_ready s0 ps0 old new n" and c: "copied s0 ps0 old new k s ps" and k: "k < n"
    and i: "unat i = k * 4096" and v: "v = lookup (ram s0) old i"
    and g: "grown old s ps s1 ps" and nodes1: "pt_nodes (ram s1) old = pt_nodes (ram s0) old"
    and look1: "\<forall>vb < MAXVA. lookup (ram s1) old vb =
      (if pages_from 0 (Suc k) vb then cow_pte (lookup (ram s0) old vb) else lookup (ram s0) old vb)"
  obtains r s2 ps2 where
    "mappages s1 new i PGSIZE (PTE2PA v) ((PTE_FLAGS v AND NOT PTE_W) OR PTE_COW) = Ok (r, s2)"
    "r = 0 \<or> r = - 1 \<and> length ps < 2" "length ps \<le> length ps2 + 2" "kmem_avail s2 ps2" "set ps2 \<subseteq> set ps0" "kend s2 = kend s0"
    "\<not> memref_held s2" "lock_kalloc s2 = lock_kalloc s0" "wf_pt s2 old" "wf_pt s2 new"
    "pt_nodes (ram s2) old = pt_nodes (ram s0) old"
    "pt_nodes (ram s2) new \<subseteq> pt_nodes (ram s0) new \<union> set ps0"
    "pt_nodes (ram s2) new \<inter> pt_nodes (ram s2) old = {}"
    "\<forall>vb < MAXVA. lookup (ram s2) old vb =
      (if pages_from 0 (Suc k) vb then cow_pte (lookup (ram s0) old vb) else lookup (ram s0) old vb)"
    "\<forall>vb < MAXVA. pages_from 0 k vb \<longrightarrow> lookup (ram s2) new vb = child_pte (lookup (ram s0) old vb)"
    "r = 0 \<longrightarrow> (\<forall>vb < MAXVA. lookup (ram s2) new vb =
      (if pages_from 0 (Suc k) vb then child_pte (lookup (ram s0) old vb) else lookup (ram s0) new vb))"
    "\<forall>p. managed s0 p \<and> p \<notin> set ps0 \<longrightarrow> fr s2 (fn p) = fr s (fn p)"
    "\<forall>x. PGROUNDDOWN x \<notin> pt_nodes (ram s0) old \<union> pt_nodes (ram s0) new \<union> set ps0 \<longrightarrow>
      ram s2 x = ram s0 x"
proof -
  note C = copiedD [OF c]
  have n: "n * 4096 \<le> 2 ^ 38" using ready by (auto simp: fork_ready_def)
  have al: "aligned 4096 i" using i by (simp add: aligned_def)
  have bound: "unat i + unat PGSIZE \<le> 2 ^ 38" using i k n by (simp add: PGSIZE_def)
  then have va: "i < MAXVA" by (simp add: word_less_nat_alt MAXVA_val PGSIZE_def)
  have disj: "pt_nodes (ram s) old \<inter> pt_nodes (ram s) new = {}" using C(10) by auto
  note O = grown_other_table [OF g C(1) C(7) disj]
  have av1: "kmem_avail s1 ps" "wf_pt s1 old" using g by (simp_all add: grown_def)
  have in_page: "covers i PGSIZE vb \<longleftrightarrow> PGROUNDDOWN vb = i" for vb by (rule covers_page [OF al])
  have page_n: "pages_from 0 n vb" "\<not> pages_from 0 k vb" if "PGROUNDDOWN vb = i" for vb
    using pages_from_PGROUNDDOWN(1) [OF al, of vb] that i k by (auto simp: pages_from_def)
  have "\<forall>vb < MAXVA. covers i PGSIZE vb \<longrightarrow> \<not> bit (lookup (ram s1) new vb) 0"
    using in_page page_n O(2) C(12) ready by (auto simp: fork_ready_def)
  moreover have "0 < PGSIZE" by (simp add: PGSIZE_def)
  ultimately obtain r s2 ps2 where m: "mappages s1 new i PGSIZE (PTE2PA v)
      ((PTE_FLAGS v AND NOT PTE_W) OR PTE_COW) = Ok (r, s2)" "grown new s1 ps s2 ps2"
    and out: "\<forall>vb < MAXVA. \<not> covers i PGSIZE vb \<longrightarrow> lookup (ram s2) new vb = lookup (ram s1) new vb"
    and len: "length ps \<le> length ps2 + 2 * span i PGSIZE"
    and r: "r = - 1 \<and> length ps < 2 * span i PGSIZE \<or> r = 0 \<and> (\<forall>vb < MAXVA. covers i PGSIZE vb \<longrightarrow> lookup (ram s2) new vb =
       PA2PTE (PTE2PA v + (PGROUNDDOWN vb - PGROUNDDOWN i)) OR ((PTE_FLAGS v AND NOT PTE_W) OR PTE_COW) OR PTE_V)"
    using mappages_spec [OF av1(1) O(1) _ bound,
        of "PTE2PA v" "(PTE_FLAGS v AND NOT PTE_W) OR PTE_COW"] by blast
  have Suc_k: "pages_from 0 (Suc k) vb \<longleftrightarrow> pages_from 0 k vb \<or> PGROUNDDOWN vb = i" for vb
    using pages_from_PGROUNDDOWN(1) [OF al, of vb] i by (auto simp: pages_from_def)
  have "pt_nodes (ram s1) new \<inter> pt_nodes (ram s1) old = {}" using O(4) by auto
  note O2 = grown_other_table [OF m(2) av1 this]
  have ps: "set ps \<subseteq> set ps0" "set ps2 \<subseteq> set ps" using C(2) m(2) by (auto simp: grown_def)
  have page: "lookup (ram s2) new vb = child_pte (lookup (ram s0) old vb)"
    if "r = 0" "vb < MAXVA" "PGROUNDDOWN vb = i" for vb
  proof -
    have "lookup (ram s0) old vb = v"
      using lookup_page [OF that(2) va] that(3) al v by (simp add: PGROUNDDOWN_id)
    then show ?thesis using r that in_page al by (auto simp: PGROUNDDOWN_id child_pte_def)
  qed
  have rest: "lookup (ram s2) new vb = lookup (ram s) new vb" if "vb < MAXVA" "PGROUNDDOWN vb \<noteq> i" for vb
    using out in_page that O(2) by simp
  show thesis
  proof (rule that [OF m(1)])
    show "r = 0 \<or> r = - 1 \<and> length ps < 2" "length ps \<le> length ps2 + 2"
      using r len span_page [OF al] by auto
    show "kmem_avail s2 ps2" "wf_pt s2 new" using m(2) by (simp_all add: grown_def)
    show "set ps2 \<subseteq> set ps0" using ps by auto
    show "kend s2 = kend s0" "\<not> memref_held s2" "lock_kalloc s2 = lock_kalloc s0"
      using m(2) g C(3,4,5) by (simp_all add: grown_def)
    show "wf_pt s2 old" by (rule O2(1))
    show "pt_nodes (ram s2) old = pt_nodes (ram s0) old" using O2(3) nodes1 by simp
    show "pt_nodes (ram s2) new \<inter> pt_nodes (ram s2) old = {}" by (rule O2(4))
    show "pt_nodes (ram s2) new \<subseteq> pt_nodes (ram s0) new \<union> set ps0"
      using m(2) O(3) C(9) ps by (auto simp: grown_def)
    show "\<forall>vb < MAXVA. lookup (ram s2) old vb =
      (if pages_from 0 (Suc k) vb then cow_pte (lookup (ram s0) old vb) else lookup (ram s0) old vb)"
      using look1 O2(2) by simp
    show "\<forall>vb < MAXVA. pages_from 0 k vb \<longrightarrow> lookup (ram s2) new vb = child_pte (lookup (ram s0) old vb)"
      using rest C(12) page_n(2) by metis
    show "r = 0 \<longrightarrow> (\<forall>vb < MAXVA. lookup (ram s2) new vb =
      (if pages_from 0 (Suc k) vb then child_pte (lookup (ram s0) old vb) else lookup (ram s0) new vb))"
    proof (intro impI allI)
      fix vb assume "r = 0" "vb < MAXVA"
      then show "lookup (ram s2) new vb = (if pages_from 0 (Suc k) vb
          then child_pte (lookup (ram s0) old vb) else lookup (ram s0) new vb)"
        using rest [of vb] page [of vb] C(12) [of vb] Suc_k [of vb] by (cases "PGROUNDDOWN vb = i") simp_all
    qed
    show "\<forall>p. managed s0 p \<and> p \<notin> set ps0 \<longrightarrow> fr s2 (fn p) = fr s (fn p)"
      using m(2) g ps C(3) by (auto simp: grown_def managed_def)
    show "\<forall>x. PGROUNDDOWN x \<notin> pt_nodes (ram s0) old \<union> pt_nodes (ram s0) new \<union> set ps0 \<longrightarrow> ram s2 x = ram s0 x"
    proof (intro allI impI)
      fix x assume x: "PGROUNDDOWN x \<notin> pt_nodes (ram s0) old \<union> pt_nodes (ram s0) new \<union> set ps0"
      have "ram s2 x = ram s1 x" using m(2) x O(3) C(9) ps by (auto simp: grown_def)
      also have "\<dots> = ram s x" using g x C(8) ps by (auto simp: grown_def)
      finally show "ram s2 x = ram s0 x" using C(14) [OF x] by simp
    qed
  qed
qed

lemma backing_Suc:
  assumes "user_range s0 old 0 n" "n * 4096 \<le> 2 ^ 38" "k < n" "unat i = k * 4096"
  shows "backing (ram s0) old 0 (Suc k) = insert (PTE2PA (lookup (ram s0) old i)) (backing (ram s0) old 0 k)"
    and "PTE2PA (lookup (ram s0) old i) \<notin> backing (ram s0) old 0 k"
proof -
  have al: "aligned 4096 i" using assms(4) by (simp add: aligned_def)
  have Suc_k: "pages_from 0 (Suc k) vb \<longleftrightarrow> pages_from 0 k vb \<or> PGROUNDDOWN vb = i" for vb
    using pages_from_PGROUNDDOWN(1) [OF al, of vb] assms(4) by (auto simp: pages_from_def)
  have n: "pages_from 0 n vb \<and> vb < MAXVA" if "pages_from 0 (Suc k) vb" for vb
    using that assms(2,3) by (auto simp: pages_from_def word_less_nat_alt MAXVA_val)
  have i: "PGROUNDDOWN i = i" using al by (simp add: PGROUNDDOWN_id)
  have eq: "PTE2PA (lookup (ram s0) old vb) = PTE2PA (lookup (ram s0) old i)" if "PGROUNDDOWN vb = i" for vb
    using lookup_page [of vb i] n that Suc_k i by simp
  have "backing (ram s0) old 0 (Suc k) =
      {PTE2PA (lookup (ram s0) old vb) | vb. PGROUNDDOWN vb = i} \<union> backing (ram s0) old 0 k"
    unfolding backing_def Suc_k by blast
  also have "{PTE2PA (lookup (ram s0) old vb) | vb. PGROUNDDOWN vb = i} = {PTE2PA (lookup (ram s0) old i)}"
    using eq i by blast
  finally show "backing (ram s0) old 0 (Suc k) =
    insert (PTE2PA (lookup (ram s0) old i)) (backing (ram s0) old 0 k)" by simp
  have "False" if "pages_from 0 k vb"
    "PTE2PA (lookup (ram s0) old vb) = PTE2PA (lookup (ram s0) old i)" for vb
  proof -
    have "PGROUNDDOWN vb = i" using user_rangeD(6) [OF assms(1), of vb i] n Suc_k that i by auto
    then show False
      using pages_from_PGROUNDDOWN(1) [OF al, of vb] that(1) assms(4) by (auto simp: pages_from_def)
  qed
  then show "PTE2PA (lookup (ram s0) old i) \<notin> backing (ram s0) old 0 k"
    unfolding backing_def by fastforce
qed

lemma sint_plus_one:
  fixes x :: u32
  assumes "0 < sint x" "sint x < 2 ^ 31 - 1"
  shows "sint (x + 1) = sint x + 1"
proof -
  have "sint (word_of_int (sint x + 1) :: u32) = sint x + 1"
    using assms by (simp only: signed_of_int) (simp add: signed_take_bit_int_eq_self)
  then show ?thesis by simp
qed

lemma fork_ready_pages:
  assumes ready: "fork_ready s0 ps0 old new n" and vb: "pages_from 0 n vb"
    and pa: "pa = PTE2PA (lookup (ram s0) old vb)"
  shows "managed s0 pa" "pa \<notin> set ps0" "pa \<notin> pt_nodes (ram s0) new" "pa \<notin> pt_nodes (ram s0) old"
    "1 < sint (fr s0 (fn pa) + 1)"
proof -
  have U: "user_range s0 old 0 n" and av: "kmem_avail s0 ps0" using ready by (auto simp: fork_ready_def)
  have c: "0 < sint (fr s0 (fn pa))" "sint (fr s0 (fn pa)) < 2 ^ 31 - 1"
    using user_rangeD(5) [OF U vb] ready vb pa by (auto simp: fork_ready_def)
  then show "1 < sint (fr s0 (fn pa) + 1)" by (simp add: sint_plus_one)
  show m: "managed s0 pa" "pa \<notin> pt_nodes (ram s0) old" using user_rangeD(3,4) [OF U vb] pa by auto
  show "pa \<notin> pt_nodes (ram s0) new" using ready vb pa by (auto simp: fork_ready_def)
  have "fr s0 (fn pa) \<noteq> 0" using c(1) by auto
  then show "pa \<notin> set ps0" using kmem_availD(5) [OF av] by auto
qed

lemma uvmcopy_undo:
  assumes ready: "fork_ready s0 ps0 old new n" and k: "k < n" and i: "unat i = k * 4096"
    and S: "kmem_avail s ps" "kend s = kend s0" "\<not> memref_held s" "wf_pt s old" "wf_pt s new"
    "pt_nodes (ram s) old = pt_nodes (ram s0) old"
    "pt_nodes (ram s) new \<subseteq> pt_nodes (ram s0) new \<union> set ps0"
    "pt_nodes (ram s) new \<inter> pt_nodes (ram s) old = {}"
    and old: "\<forall>vb < MAXVA. lookup (ram s) old vb =
      (if pages_from 0 (Suc k) vb then cow_pte (lookup (ram s0) old vb) else lookup (ram s0) old vb)"
    and new: "\<forall>vb < MAXVA. pages_from 0 k vb \<longrightarrow> lookup (ram s) new vb = child_pte (lookup (ram s0) old vb)"
    and cnt: "\<forall>p. managed s0 p \<and> p \<notin> set ps0 \<longrightarrow>
      fr s (fn p) = fr s0 (fn p) + (if p \<in> backing (ram s0) old 0 k then 1 else 0)"
    and frame: "\<forall>x. PGROUNDDOWN x \<notin> pt_nodes (ram s0) old \<union> pt_nodes (ram s0) new \<union> set ps0 \<longrightarrow>
      ram s x = ram s0 x"
  shows "\<exists>s'. uvmunmap s new 0 (i div PGSIZE) True = Ok s' \<and> undone s0 ps0 old new k s'"
proof -
  have n: "n * 4096 \<le> 2 ^ 38" and U: "user_range s0 old 0 n" using ready by (auto simp: fork_ready_def)
  have in_n: "pages_from 0 n vb" "vb < MAXVA" if "pages_from 0 k vb" for vb
    using that k n by (auto simp: pages_from_def word_less_nat_alt MAXVA_val)
  note F = fork_ready_pages [OF ready in_n(1) refl]
  have pte: "lookup (ram s) new vb = child_pte (lookup (ram s0) old vb)"
    "PTE2PA (lookup (ram s) new vb) = PTE2PA (lookup (ram s0) old vb)" if "pages_from 0 k vb" for vb
    using new in_n(2) that by (simp_all add: child_pte_flags)
  have B: "backing (ram s) new 0 k = backing (ram s0) old 0 k"
    unfolding backing_def using pte(2) by metis
  have m: "managed s q = managed s0 q" for q using S(2) by (simp add: managed_def)
  have two: "1 < sint (fr s (fn q))" "managed s0 q" "q \<notin> set ps0" "q \<notin> pt_nodes (ram s) new"
    if q: "q \<in> backing (ram s0) old 0 k" for q
  proof -
    obtain vb where vb: "pages_from 0 k vb" "q = PTE2PA (lookup (ram s0) old vb)"
      using q by (auto simp: backing_def)
    show a: "managed s0 q" "q \<notin> set ps0" using F(1,2) [OF vb(1)] vb(2) by auto
    show "q \<notin> pt_nodes (ram s) new" using F(2,3) [OF vb(1)] vb(2) S(7) by auto
    show "1 < sint (fr s (fn q))" using cnt a q F(5) [OF vb(1)] vb(2) by simp
  qed
  have in_B: "PTE2PA (lookup (ram s0) old vb) \<in> backing (ram s0) old 0 k" if "pages_from 0 k vb" for vb
    using that by (auto simp: backing_def)
  have "user_range s new 0 k"
    unfolding user_range_def Let_def
  proof (intro conjI allI impI)
    fix vb assume vb: "pages_from 0 k vb"
    show "bit (lookup (ram s) new vb) 0" "PTE_FLAGS (lookup (ram s) new vb) \<noteq> PTE_V"
      using pte(1) [OF vb] child_pte_bits by simp_all
    show "managed s (PTE2PA (lookup (ram s) new vb))" "PTE2PA (lookup (ram s) new vb) \<notin> pt_nodes (ram s) new"
      "0 < sint (fr s (fn (PTE2PA (lookup (ram s) new vb))))"
      using two [OF in_B [OF vb]] pte(2) [OF vb] m by simp_all
  next
    fix vb vc assume v: "pages_from 0 k vb \<and> pages_from 0 k vc \<and>
      PTE2PA (lookup (ram s) new vb) = PTE2PA (lookup (ram s) new vc)"
    then show "PGROUNDDOWN vb = PGROUNDDOWN vc"
      using user_rangeD(6) [OF U, of vb vc] in_n(1) pte(2) [of vb] pte(2) [of vc] by auto
  qed
  moreover have np: "unat (i div PGSIZE) = k" by (simp add: unat_div i PGSIZE_def)
  moreover have bound: "unat (0 :: u64) + unat (i div PGSIZE) * 4096 \<le> 2 ^ 38"
    using np k n by simp
  ultimately obtain s' ps' where s': "uvmunmap s new 0 (i div PGSIZE) True = Ok s'" "kmem_avail s' ps'"
    "wf_pt s' new" "kend s' = kend s" "\<not> memref_held s'"
    "\<forall>vb < MAXVA. lookup (ram s') new vb = (if pages_from 0 k vb then 0 else lookup (ram s) new vb)"
    "\<forall>p. managed s p \<longrightarrow> fr s' (fn p) = fr s (fn p) - (if p \<in> backing (ram s) new 0 k then 1 else 0)"
    "\<forall>x. PGROUNDDOWN x \<notin> pt_nodes (ram s) new \<and>
       (PGROUNDDOWN x \<notin> backing (ram s) new 0 k \<or> fr s (fn (PGROUNDDOWN x)) \<noteq> 1) \<longrightarrow> ram s' x = ram s x"
    using uvmunmap_loop_free [OF S(1,3,5), of 0 k "0 + i div PGSIZE * PGSIZE"]
      uvmunmap_eq_loop [OF _ bound] by (auto simp: aligned_def)
  have same: "ram s' x = ram s x" if "PGROUNDDOWN x \<notin> pt_nodes (ram s) new" for x
  proof -
    have "PGROUNDDOWN x \<notin> backing (ram s0) old 0 k \<or> fr s (fn (PGROUNDDOWN x)) \<noteq> 1"
      using two(1) [of "PGROUNDDOWN x"] by auto
    then show ?thesis using that s'(8) unfolding B by blast
  qed
  have "\<forall>x. PGROUNDDOWN x \<in> pt_nodes (ram s) old \<longrightarrow> ram s' x = ram s x" using same S(8) by auto
  note T = table_frame [OF S(4) [unfolded wf_pt_def, THEN conjunct1] this]
  have cnt': "fr s' (fn q) = fr s0 (fn q)" if "managed s0 q" "q \<notin> set ps0" for q
    using that s'(7) m cnt unfolding B by simp
  have "q \<in> busy s'" if q: "q \<in> pt_nodes (ram s) old" for q
  proof -
    have av0: "kmem_avail s0 ps0" and wf0: "wf_pt s0 old" using ready by (auto simp: fork_ready_def)
    have b: "q \<in> busy s0" using wf_pt_node(3) [OF wf0] q S(6) by simp
    then show ?thesis
      using kmem_availD(6) [OF av0 b] cnt' [of q] S(2) s'(4) by (simp add: busy_def managed_def)
  qed
  then have "wf_pt s' old" using T by (auto simp: wf_pt_def)
  moreover have "ram s' x = ram s0 x"
    if "PGROUNDDOWN x \<notin> pt_nodes (ram s0) old \<union> pt_nodes (ram s0) new \<union> set ps0" for x
    using that frame same [of x] S(7) by auto
  ultimately have "undone s0 ps0 old new k s'"
    unfolding undone_def using s'(2,3,5,6) cnt' old T(3) by auto
  then show ?thesis using s'(1) by blast
qed

lemma uvmcopy_step:
  assumes ready: "fork_ready s0 ps0 old new n" and c: "copied s0 ps0 old new k s ps" and k: "k < n"
    and i: "unat i = k * 4096" and sz: "i < sz"
  obtains (full) s' where "uvmcopy_loop s old new i sz = Ok (- 1, s')" "undone s0 ps0 old new k s'"
      "length ps < 2"
  | (shared) s' ps' where "uvmcopy_loop s old new i sz = uvmcopy_loop s' old new (i + PGSIZE) sz"
      "copied s0 ps0 old new (Suc k) s' ps'" "length ps \<le> length ps' + 2"
proof -
  define v where "v = lookup (ram s0) old i"
  have n: "n * 4096 \<le> 2 ^ 38" and U: "user_range s0 old 0 n" using ready by (auto simp: fork_ready_def)
  have in_n: "pages_from 0 n vb" if "pages_from 0 (Suc k) vb" for vb
    using that k by (auto simp: pages_from_def)
  have pi: "pages_from 0 (Suc k) i" using i by (simp add: pages_from_def)
  note B = backing_Suc [OF U n k i, folded v_def]
  obtain p where w: "walk s old i False = Ok (p + 8 * PX 0 i, s)" "p + 8 * PX 0 i \<noteq> 0"
    "load64 (ram s) (p + 8 * PX 0 i) = v" "bit v 0"
    "grown old s ps (s\<lparr>ram := store64 (ram s) (p + 8 * PX 0 i) (cow_pte v)\<rparr>) ps"
    "\<forall>vb < MAXVA. lookup (store64 (ram s) (p + 8 * PX 0 i) (cow_pte v)) old vb =
       (if pages_from 0 (Suc k) vb then cow_pte (lookup (ram s0) old vb) else lookup (ram s0) old vb)"
    "pt_nodes (store64 (ram s) (p + 8 * PX 0 i) (cow_pte v)) old = pt_nodes (ram s0) old"
    using copied_step [OF ready c k i v_def] by metis
  define s1 where "s1 = s\<lparr>ram := store64 (ram s) (p + 8 * PX 0 i) (cow_pte v)\<rparr>"
  have g1: "grown old s ps s1 ps" and nodes1: "pt_nodes (ram s1) old = pt_nodes (ram s0) old"
    and look1: "\<forall>vb < MAXVA. lookup (ram s1) old vb =
      (if pages_from 0 (Suc k) vb then cow_pte (lookup (ram s0) old vb) else lookup (ram s0) old vb)"
    using w(5-7) by (simp_all add: s1_def)
  obtain r s2 ps2 where
    m: "mappages s1 new i PGSIZE (PTE2PA v) ((PTE_FLAGS v AND NOT PTE_W) OR PTE_COW) = Ok (r, s2)"
    and r: "r = 0 \<or> r = - 1 \<and> length ps < 2" and len: "length ps \<le> length ps2 + 2" and S: "kmem_avail s2 ps2" "set ps2 \<subseteq> set ps0" "kend s2 = kend s0"
    "\<not> memref_held s2" "lock_kalloc s2 = lock_kalloc s0" "wf_pt s2 old" "wf_pt s2 new"
    "pt_nodes (ram s2) old = pt_nodes (ram s0) old"
    "pt_nodes (ram s2) new \<subseteq> pt_nodes (ram s0) new \<union> set ps0"
    "pt_nodes (ram s2) new \<inter> pt_nodes (ram s2) old = {}"
    "\<forall>vb < MAXVA. lookup (ram s2) old vb =
      (if pages_from 0 (Suc k) vb then cow_pte (lookup (ram s0) old vb) else lookup (ram s0) old vb)"
    "\<forall>vb < MAXVA. pages_from 0 k vb \<longrightarrow> lookup (ram s2) new vb = child_pte (lookup (ram s0) old vb)"
    "r = 0 \<longrightarrow> (\<forall>vb < MAXVA. lookup (ram s2) new vb =
      (if pages_from 0 (Suc k) vb then child_pte (lookup (ram s0) old vb) else lookup (ram s0) new vb))"
    "\<forall>p. managed s0 p \<and> p \<notin> set ps0 \<longrightarrow> fr s2 (fn p) = fr s (fn p)"
    "\<forall>x. PGROUNDDOWN x \<notin> pt_nodes (ram s0) old \<union> pt_nodes (ram s0) new \<union> set ps0 \<longrightarrow>
      ram s2 x = ram s0 x"
    by (rule shared_page [OF ready c k i v_def g1 nodes1 look1])
  note C = copiedD [OF c]
  define pa where "pa = PTE2PA v"
  have pa: "pa = PTE2PA (lookup (ram s0) old i)" by (simp add: pa_def v_def)
  note F = fork_ready_pages [OF ready in_n [OF pi] pa]
  have m2: "managed s2 q = managed s0 q" for q using S(3) by (simp add: managed_def)
  have "uvmcopy_loop s old new i sz =
      (if r \<noteq> 0 then rbind (uvmunmap s2 new 0 (i div PGSIZE) True) (\<lambda>s. Ok (- 1, s))
       else rbind (memref_lock s2) (\<lambda>s. rbind (memref_get s pa) (\<lambda>fq.
         rbind (memref_set s pa (fq + 1)) (\<lambda>s. rbind (memref_unlock s) (\<lambda>s.
           uvmcopy_loop s old new (i + PGSIZE) sz)))))"
    using sz w(1-4) m by (subst uvmcopy_loop.simps) (simp add: s1_def cow_pte_def Let_def pa_def)
  note loop = this [unfolded memref_increment [OF S(1,4) m2 [THEN iffD2, OF F(1)]]]
  show thesis
  proof (cases "r = 0")
    case True
    let ?s' = "s2\<lparr>fr := (fr s2)(fn pa := fr s2 (fn pa) + 1)\<rparr>"
    have "fr s2 (fn pa) = fr s0 (fn pa)" using S(14) C(13) F(1,2) B(2) by (simp add: pa_def)
    then have nz: "fr s2 (fn pa) + 1 \<noteq> 0" using F(5) by auto
    note cnt = set_count [OF S(1) m2 [THEN iffD2, OF F(1)] _ nz]
    have notin: "pa \<notin> set ps2" using F(2) S(2) by auto
    have wf: "wf_pt ?s' old" "wf_pt ?s' new" using S(6,7) cnt(2) [OF notin] by (simp_all add: wf_pt_def)
    have "fr ?s' (fn q) = fr s0 (fn q) + (if q \<in> backing (ram s0) old 0 (Suc k) then 1 else 0)"
      if q: "managed s0 q" "q \<notin> set ps0" for q
    proof -
      have "fn q = fn pa \<longleftrightarrow> q = pa"
        using fn_inj [OF kmem_availD(3) [OF S(1)]] q(1) F(1) m2 by blast
      then show ?thesis using S(14) C(13) [OF q] q B by (auto simp: pa_def)
    qed
    then have "copied s0 ps0 old new (Suc k) ?s' ps2"
      unfolding copied_def using cnt(1) [OF notin] wf S True by simp
    then show thesis using shared [of ?s' ps2] loop True len by simp
  next
    case False
    have "\<forall>p. managed s0 p \<and> p \<notin> set ps0 \<longrightarrow>
        fr s2 (fn p) = fr s0 (fn p) + (if p \<in> backing (ram s0) old 0 k then 1 else 0)"
      using S(14) C(13) by simp
    from uvmcopy_undo [OF ready k i S(1,3,4,6-12) this S(15)]
    show thesis using full loop False r by auto
  qed
qed

lemma uvmcopy_loop_spec:
  assumes ready: "fork_ready s0 ps0 old new n" and c: "copied s0 ps0 old new k s ps"
    and i: "unat i = k * 4096" and d: "k + d = n" and sz: "unat sz \<le> n * 4096" "n * 4096 < unat sz + 4096"
  shows "(\<exists>s' ps'. uvmcopy_loop s old new i sz = Ok (0, s') \<and> copied s0 ps0 old new n s' ps' \<and>
      length ps \<le> length ps' + 2 * d) \<or>
    (\<exists>s' j. j < n \<and> uvmcopy_loop s old new i sz = Ok (- 1, s') \<and> undone s0 ps0 old new j s' \<and>
      length ps < 2 * d)"
  using c i d
proof (induction d arbitrary: k s ps i)
  case 0
  then have "\<not> i < sz" using sz(1) by (simp add: word_less_nat_alt)
  then have "uvmcopy_loop s old new i sz = Ok (0, s)" by (subst uvmcopy_loop.simps) simp
  then show ?case using 0 by auto
next
  case (Suc d)
  have k: "k < n" using Suc.prems(3) by simp
  have lt: "i < sz"
  proof -
    have "k * 4096 + 4096 \<le> n * 4096" using k by simp
    then show ?thesis using Suc.prems(2) sz(2) by (simp add: word_less_nat_alt)
  qed
  show ?case
  proof (cases rule: uvmcopy_step [OF ready Suc.prems(1) k Suc.prems(2) lt, case_names full shared])
    case (full s')
    then show ?thesis using k by (intro disjI2 exI [of _ s'] exI [of _ k]) simp
  next
    case (shared s1 ps1)
    have "n * 4096 \<le> 2 ^ 38" using ready by (simp add: fork_ready_def)
    then have "k * 4096 < 2 ^ 38" using k by simp
    then have "unat (i + PGSIZE) = Suc k * 4096"
      using Suc.prems(2) by (subst unat_add_lem [THEN iffD1]) (simp_all add: PGSIZE_def)
    then have "(\<exists>s' ps'. uvmcopy_loop s old new i sz = Ok (0, s') \<and> copied s0 ps0 old new n s' ps' \<and>
        length ps1 \<le> length ps' + 2 * d) \<or>
      (\<exists>s' j. j < n \<and> uvmcopy_loop s old new i sz = Ok (- 1, s') \<and> undone s0 ps0 old new j s' \<and>
        length ps1 < 2 * d)"
      using Suc.IH [OF shared(2)] Suc.prems(3) shared(1) by simp
    then show ?thesis
    proof (elim disjE exE conjE)
      fix s' ps' assume "uvmcopy_loop s old new i sz = Ok (0, s')" "copied s0 ps0 old new n s' ps'"
        "length ps1 \<le> length ps' + 2 * d"
      then show ?thesis using shared(3) by (intro disjI1 exI [of _ s'] exI [of _ ps']) simp
    next
      fix s' j assume "j < n" "uvmcopy_loop s old new i sz = Ok (- 1, s')" "undone s0 ps0 old new j s'"
        "length ps1 < 2 * d"
      then show ?thesis using shared(3) by (intro disjI2 exI [of _ s'] exI [of _ j]) simp
    qed
  qed
qed

lemma uvmcopy_spec:
  assumes "fork_ready s ps old new n" "unat sz \<le> n * 4096" "n * 4096 < unat sz + 4096"
  shows "(\<exists>s' ps'. uvmcopy s old new sz = Ok (0, s') \<and> copied s ps old new n s' ps' \<and>
      length ps \<le> length ps' + 2 * n) \<or>
    (\<exists>s' j. j < n \<and> uvmcopy s old new sz = Ok (- 1, s') \<and> undone s ps old new j s' \<and>
      length ps < 2 * n)"
  unfolding uvmcopy_def
  using uvmcopy_loop_spec [OF assms(1) copied_0 [OF assms(1)], of 0 n sz] assms(2,3) by simp

section \<open>The write fault\<close>

lemma uvmunmap_present:
  assumes wf: "wf_pt s root" and va: "va < MAXVA" "aligned 4096 va"
    and p: "descend (ram s) root (va_path va) = Some p"
    and v: "bit (lookup (ram s) root va) 0" "PTE_FLAGS (lookup (ram s) root va) \<noteq> PTE_V"
  shows "uvmunmap s root va 1 False = Ok (s\<lparr>ram := store64 (ram s) (p + 8 * PX 0 va) 0\<rparr>)"
proof -
  have lt: "unat va < 2 ^ 38" using va(1) by (simp add: word_less_nat_alt MAXVA_val)
  then have "unat (va + PGSIZE) = unat va + 4096"
    by (subst unat_add_lem [THEN iffD1]) (simp_all add: PGSIZE_def)
  then have "va < va + PGSIZE" by (simp add: word_less_nat_alt)
  then show ?thesis
    using va(2) v walk_present [OF va(1) p] pte_nonzero [OF wf p] load_pte [OF p]
    by (simp add: uvmunmap_def aligned_mod_PGSIZE uvmunmap_loop.simps [of s]
        uvmunmap_loop.simps [of "s\<lparr>ram := store64 (ram s) (p + 8 * PX 0 va) 0\<rparr>"])
qed

lemma mappages_present:
  assumes wf: "wf_pt s root" and va: "va < MAXVA" "aligned 4096 va"
    and p: "descend (ram s) root (va_path va) = Some p" and v: "\<not> bit (lookup (ram s) root va) 0"
  shows "mappages s root va PGSIZE pa perm =
    Ok (0, s\<lparr>ram := store64 (ram s) (p + 8 * PX 0 va) (PA2PTE pa OR perm OR PTE_V)\<rparr>)"
proof -
  have "PGROUNDDOWN (va + PGSIZE - 1) = PGROUNDDOWN (va + of_nat 4095)"
    by (simp add: PGSIZE_def add.commute)
  also have "\<dots> = va" by (rule PGROUNDDOWN_page [OF va(2)]) simp
  finally show ?thesis
    using va(2) v walk_present [OF va(1) p] pte_nonzero [OF wf p] load_pte [OF p]
    by (simp add: mappages_def PGROUNDDOWN_id mappages_loop.simps [of s]) (simp add: PGSIZE_def)
qed

lemma cow_faultD:
  assumes "cow_fault s ps root va" and "v = lookup (ram s) root va" and "pa = PTE2PA v"
  shows "kmem_avail s ps" "\<not> memref_held s" "lock_kalloc s" "wf_pt s root" "va < MAXVA"
    "PGROUNDDOWN va \<noteq> 0" "bit v 0" "bit v 4" "bit v 9" "managed s pa"
    "pa \<notin> pt_nodes (ram s) root" "0 < sint (fr s (fn pa))" "pa \<notin> set ps" "fr s (fn pa) \<noteq> 0"
proof -
  show "kmem_avail s ps" "\<not> memref_held s" "lock_kalloc s" "wf_pt s root" "va < MAXVA"
    "PGROUNDDOWN va \<noteq> 0" "bit v 0" "bit v 4" "bit v 9" "managed s pa"
    "pa \<notin> pt_nodes (ram s) root" "0 < sint (fr s (fn pa))"
    using assms by (auto simp: cow_fault_def Let_def)
  then show "fr s (fn pa) \<noteq> 0" by auto
  then show "pa \<notin> set ps" using kmem_availD(5) [OF \<open>kmem_avail s ps\<close>] by auto
qed

lemma handleCOW_sole_owner:
  assumes fault: "cow_fault s ps root va" and sole: "fr s (fn (PTE2PA (lookup (ram s) root va))) = 1"
  shows "\<exists>s'. handleCOW s root va = Ok (0, s') \<and> private_copy s ps root va s'"
proof -
  define v pa a where "v = lookup (ram s) root va" and "pa = PTE2PA v" and "a = PGROUNDDOWN va"
  note D = cow_faultD [OF fault v_def pa_def]
  note A = PGROUNDDOWN_va [OF D(5), folded a_def]
  obtain p where p: "descend (ram s) root (va_path a) = Some p"
    using lookup_descend D(7) A(3) v_def by metis
  define v' where "v' = (v AND NOT PTE_COW) OR PTE_W"
  let ?s' = "s\<lparr>ram := store64 (ram s) (p + 8 * PX 0 a) v'\<rparr>"
  have load: "load64 (ram s) (p + 8 * PX 0 a) = v" using load_pte [OF p] A(3) v_def by simp
  have fnle: "fn pa \<le> fn PHYSTOP" using managed_fn(2) [OF kmem_availD(3) [OF D(1)] D(10)] by simp
  have one: "fr s (fn pa) = 1" using sole by (simp add: pa_def v_def)
  have "handleCOW s root va = Ok (0, s\<lparr>memref_held := True, lock_kalloc := False,
      ram := store64 (ram s) (p + 8 * PX 0 a) v', lock_kalloc := True, memref_held := False\<rparr>)"
    using D(2,5-9) walk_present [OF A(1) p] pte_nonzero [OF D(4) p] load fnle one
    by (simp add: handleCOW_def Let_def a_def [symmetric] bit_PTE_FLAGS not_le memref_lock_def
        memref_unlock_kalloc_def memref_get_def memref_lock_kalloc_def memref_unlock_def
        pa_def [symmetric] v'_def)
  also have "\<dots> = Ok (0, ?s')" using D(2,3) by (cases s) simp
  finally have "handleCOW s root va = Ok (0, ?s')" .
  moreover have "private_copy s ps root va ?s'"
  proof -
    note leaf = set_leaf [OF D(1,4) A(1) p, where v = v']
    have bits: "bit v' k \<longleftrightarrow> k = 2 \<or> k \<noteq> 9 \<and> bit v k" for k
      by (auto simp: v'_def bit_simps bit_pte_bits dest: bit_imp_le_length)
    have look: "lookup (ram ?s') root va = v'" using leaf(3) [OF D(5)] A(2) by (simp add: a_def)
    have pa': "PTE2PA v' = pa" by (rule bit_word_eqI) (auto simp: pa_def bit_PTE2PA bits)
    have mem: "ram ?s' (pa + of_nat k) = ram s (pa + of_nat k)" if "k < 4096" for k
    proof -
      have "PGROUNDDOWN (pa + of_nat k) = pa" using that by (intro PGROUNDDOWN_page) (simp add: pa_def)
      then show ?thesis using leaf(1) D(11,13) by (simp add: grown_def)
    qed
    have wf': "kmem_avail ?s' ps" "wf_pt ?s' root" and
      "\<forall>x. PGROUNDDOWN x \<notin> pt_nodes (ram s) root \<union> set ps \<longrightarrow> ram ?s' x = ram s x"
      using leaf(1) by (simp_all add: grown_def)
    moreover have "\<forall>vb < MAXVA. PGROUNDDOWN vb \<noteq> PGROUNDDOWN va \<longrightarrow>
        lookup (ram ?s') root vb = lookup (ram s) root vb"
      using leaf(3) A(2) by (simp add: a_def)
    ultimately show ?thesis
      unfolding private_copy_def look Let_def v_def [symmetric] pa_def [symmetric] pa'
      using mem D(2,3,7,8) one leaf(2) by (auto simp: bits)
  qed
  ultimately show ?thesis by blast
qed

lemma fresh_page:
  assumes av: "kmem_avail s (r # rs)" and wf: "wf_pt s root"
    and m: "\<forall>x. PGROUNDDOWN x \<noteq> r \<longrightarrow> m x = ram s x"
  defines "s' \<equiv> s\<lparr>freelist := load64 (ram s) r, fr := (fr s)(fn r := 1), ram := m\<rparr>"
  shows "kmem_avail s' rs" "wf_pt s' root" "r \<notin> pt_nodes (ram s) root" "managed s r" "r \<notin> set rs"
    "idx js \<Longrightarrow> descend m root js = descend (ram s) root js" "pt_nodes m root = pt_nodes (ram s) root"
    "lookup m root vb = lookup (ram s) root vb"
    "managed s q \<Longrightarrow> fr s' (fn q) = (if q = r then 1 else fr s (fn q))"
proof -
  note D = kmem_availD [OF av]
  have r: "managed s r" "aligned 4096 r" "r \<notin> set rs" "fr s (fn r) = 0" using D(2) D(5) [of r] by auto
  then show "managed s r" "r \<notin> set rs" by auto
  show rn: "r \<notin> pt_nodes (ram s) root" using wf_pt_node(3) [OF wf, of r] D(6) [of r] by auto
  then have "\<forall>x. PGROUNDDOWN x \<in> pt_nodes (ram s) root \<longrightarrow> m x = ram s x" using m by auto
  note T = table_frame [OF wf [unfolded wf_pt_def, THEN conjunct1] this]
  show "idx js \<Longrightarrow> descend m root js = descend (ram s) root js" "pt_nodes m root = pt_nodes (ram s) root"
    "lookup m root vb = lookup (ram s) root vb" using T by auto
  show f: "fr s' (fn q) = (if q = r then 1 else fr s (fn q))" if "managed s q" for q
    using fn_inj [OF D(3) that r(1)] by (auto simp: s'_def)
  have "q \<in> busy s'" if "q \<in> pt_nodes (ram s) root" for q
    using wf_pt_node(3,4) [OF wf that] f [of q] by (simp add: busy_def s'_def managed_def split: if_splits)
  then show "wf_pt s' root" using T(2,4) by (auto simp: wf_pt_def s'_def)
  have "\<forall>x. PGROUNDDOWN x \<in> set rs \<longrightarrow> m x = memset 4096 (ram s) r 5 x"
  proof (intro allI impI)
    fix x assume "PGROUNDDOWN x \<in> set rs"
    then have "PGROUNDDOWN x \<noteq> r" using r(3) by auto
    then show "m x = memset 4096 (ram s) r 5 x" using m r(2) by (simp add: memset_page_other in_page_iff)
  qed
  then have "kalloc_inv s' rs"
    using kalloc_inv_ram [OF kalloc_cons(2) [OF D(1,4)], of m] by (simp add: s'_def)
  then show "kmem_avail s' rs" using D(4) by (simp add: kmem_avail_def s'_def)
qed

lemma kalloc_inv_locks [simp]:
  "kalloc_inv (s\<lparr>memref_held := b\<rparr>) ps = kalloc_inv s ps"
  "kalloc_inv (s\<lparr>lock_kalloc := c\<rparr>) ps = kalloc_inv s ps"
  by (simp_all add: kalloc_inv_def managed_def)

lemma wf_pt_locks [simp]:
  "wf_pt (s\<lparr>memref_held := b\<rparr>) root = wf_pt s root"
  "wf_pt (s\<lparr>lock_kalloc := c\<rparr>) root = wf_pt s root"
  by (simp_all add: wf_pt_def busy_def managed_def)

lemma handleCOW_shared:
  assumes fault: "cow_fault s (r # rs) root va"
    and many: "fr s (fn (PTE2PA (lookup (ram s) root va))) \<noteq> 1"
  shows "\<exists>s'. handleCOW s root va = Ok (0, s') \<and> private_copy s (r # rs) root va s'"
proof -
  define v pa a where "v = lookup (ram s) root va" and "pa = PTE2PA v" and "a = PGROUNDDOWN va"
  note D = cow_faultD [OF fault v_def pa_def]
  note A = PGROUNDDOWN_va [OF D(5), folded a_def]
  have al: "aligned 4096 a" "aligned 4096 pa" by (simp_all add: a_def pa_def)
  have fq: "fr s (fn pa) \<noteq> 1" using many by (simp add: pa_def v_def)
  obtain p where p: "descend (ram s) root (va_path a) = Some p"
    using lookup_descend D(7) A(3) v_def by metis
  let ?pte = "p + 8 * PX 0 a"
  define f where "f = (PTE_FLAGS v AND NOT PTE_COW) OR PTE_W"
  define m where "m = memmove (memset 4096 (ram s) r 5) r pa 4096"
  have r: "managed s r" "aligned 4096 r" "r \<noteq> pa" using kmem_availD(5) [OF D(1), of r] D(13) by auto
  have move: "m x = (if PGROUNDDOWN x = r then ram s (pa + (x - r)) else ram s x)" for x
  proof -
    have top: "unat q + 4096 \<le> 2 ^ 64" if "managed s q" for q
      using that by (simp add: managed_def word_less_nat_alt PHYSTOP_def KERNBASE_def)
    have mm: "m x = (if unat (x - r) < 4096 then memset 4096 (ram s) r 5 (pa + (x - r))
        else memset 4096 (ram s) r 5 x)"
      unfolding m_def by (rule memmove_apply [OF top [OF r(1)] top [OF D(10)]])
    have in_r: "unat (x - r) < 4096 \<longleftrightarrow> PGROUNDDOWN x = r"
      using in_page_iff [OF r(2)] by (simp add: in_range_def)
    have "PGROUNDDOWN (pa + (x - r)) = pa" if "unat (x - r) < 4096"
      using PGROUNDDOWN_page [OF al(2) that] by simp
    then show ?thesis
      using mm r(2,3) in_r by (auto simp: memset_page_other in_page_iff)
  qed
  define s1 where "s1 = s\<lparr>memref_held := True, lock_kalloc := False\<rparr>"
  have av1: "kmem_avail s1 (r # rs)" and wf1: "wf_pt s1 root"
    using kmem_availD(1) [OF D(1)] D(4) by (simp_all add: kmem_avail_def s1_def)
  define s2 where "s2 = s1\<lparr>freelist := load64 (ram s1) r, fr := (fr s1)(fn r := 1), ram := m\<rparr>"
  have "\<forall>x. PGROUNDDOWN x \<noteq> r \<longrightarrow> m x = ram s1 x" using move by (simp add: s1_def)
  note fresh = fresh_page [OF av1 wf1 this, folded s2_def]
  have look2: "lookup (ram s2) root vb = lookup (ram s) root vb" for vb
    using fresh(8) by (simp add: s2_def s1_def)
  have p2: "descend (ram s2) root (va_path a) = Some p"
    using fresh(6) [OF idx_va_path(1)] p by (simp add: s2_def s1_def)
  define s3 where "s3 = s2\<lparr>ram := store64 (ram s2) ?pte 0\<rparr>"
  note leaf2 = set_leaf [OF fresh(1,2) A(1) p2, where v = 0, folded s3_def]
  have av3: "kmem_avail s3 rs" and wf3: "wf_pt s3 root" using leaf2(1) by (simp_all add: grown_def)
  have p3: "descend (ram s3) root (va_path a) = Some p" using leaf2(4) [OF idx_va_path(1)] p2 by simp
  define v' where "v' = PA2PTE r OR f OR PTE_V"
  define s4 where "s4 = s3\<lparr>ram := store64 (ram s3) ?pte v'\<rparr>"
  note leaf3 = set_leaf [OF av3 wf3 A(1) p3, where v = v', folded s4_def]
  define s' where "s' = s4\<lparr>fr := (fr s4)(fn pa := fr s (fn pa) - 1), lock_kalloc := True, memref_held := False\<rparr>"
  have load: "load64 (ram s) ?pte = v" using load_pte [OF p] A(3) v_def by simp
  have fnle: "fn pa \<le> fn PHYSTOP" using managed_fn(2) [OF kmem_availD(3) [OF D(1)] D(10)] by simp
  have lv: "lookup (ram s2) root a = v" using look2 A(3) v_def by simp
  have "bit (PTE_FLAGS v) 9" "\<not> bit PTE_V 9" using D(9) by (simp_all add: bit_PTE_FLAGS bit_pte_bits)
  then have "PTE_FLAGS v \<noteq> PTE_V" by metis
  then have u: "uvmunmap s2 root a 1 False = Ok s3"
    using uvmunmap_present [OF fresh(2) A(1) al(1) p2] lv D(7) by (simp add: s3_def)
  have mp: "mappages s3 root a PGSIZE r f = Ok (0, s4)"
    using mappages_present [OF wf3 A(1) al(1) p3] leaf2(3) [OF A(1)] by (simp add: s4_def v'_def)
  define sk where "sk = s1\<lparr>freelist := load64 (ram s1) r, fr := (fr s1)(fn r := 1),
      ram := memset 4096 (ram s1) r 5\<rparr>"
  have k: "kalloc (s\<lparr>memref_held := True, lock_kalloc := False\<rparr>) = Ok (r, sk)"
    using kalloc_cons(1) [OF kmem_availD(1,4) [OF av1]] by (simp add: sk_def s1_def)
  have sk: "sk\<lparr>ram := memmove (ram sk) r pa 4096\<rparr> = s2" by (simp add: sk_def s2_def m_def s1_def)
  have held: "memref_held s4" by (simp add: s4_def s3_def s2_def s1_def)
  have run: "handleCOW s root va = Ok (0, s')"
    using D(2,5-9) walk_present [OF A(1) p] pte_nonzero [OF D(4) p] load fnle fq
      kmem_availD(5) [OF D(1), of r] k sk u mp [unfolded f_def] held
    by (simp add: handleCOW_def Let_def a_def [symmetric] bit_PTE_FLAGS not_le memref_lock_def
        memref_unlock_kalloc_def memref_get_def pa_def [symmetric] memref_set_def
        memref_lock_kalloc_def memref_unlock_def s'_def)
  have nodes: "pt_nodes (ram s2) root = pt_nodes (ram s) root" "pt_nodes (ram s3) root = pt_nodes (ram s) root"
    using fresh(7) leaf2(2) by (simp_all add: s2_def s1_def)
  have frame: "ram s' x = m x" if "PGROUNDDOWN x \<notin> pt_nodes (ram s) root \<union> set rs" for x
    using leaf2(1) leaf3(1) that nodes by (simp add: grown_def s'_def s2_def)
  have cnt: "fr s4 (fn q) = (if q = r then 1 else fr s (fn q))" if "managed s q" for q
    using fresh(9) [of q] that by (simp add: s4_def s3_def s1_def managed_def)
  have m4: "managed s4 q = managed s q" for q by (simp add: s4_def s3_def s2_def s1_def managed_def)
  have av4: "kmem_avail s4 rs" and wf4: "wf_pt s4 root" using leaf3(1) by (simp_all add: grown_def)
  have "fr s (fn pa) - 1 \<noteq> 0" using fq by simp
  note upd = set_count [OF av4 m4 [THEN iffD2, OF D(10)] _ this]
  have "pa \<notin> set rs" using D(13) by simp
  note upd = upd [OF this]
  have "wf_pt (s4\<lparr>fr := (fr s4)(fn pa := fr s (fn pa) - 1)\<rparr>) root"
    using wf4 upd(2) by (simp add: wf_pt_def)
  then have av': "kmem_avail s' rs" "wf_pt s' root"
    using kmem_availD(1) [OF upd(1)] by (simp_all add: s'_def kmem_avail_def)
  have cnt': "fr s' (fn q) = (if q = pa then fr s (fn pa) - 1 else if q = r then 1 else fr s (fn q))"
    if "managed s q" for q
    using cnt [OF that] fn_inj [OF kmem_availD(3) [OF D(1)] that D(10)] by (auto simp: s'_def)
  have look: "lookup (ram s') root vb = (if PGROUNDDOWN vb = PGROUNDDOWN va then v' else lookup (ram s) root vb)"
    if "vb < MAXVA" for vb
    using leaf3(3) [OF that] leaf2(3) [OF that] look2 A(2) by (simp add: s'_def a_def)
  have fs: "\<not> bit f k" if "10 \<le> k" for k
    using that by (simp add: f_def bit_simps bit_PTE_FLAGS bit_pte_bits)
  have f10: "unat (f OR PTE_V) < 2 ^ 10"
    by (rule unat_below_bits) (simp add: bit_simps fs bit_pte_bits)
  have v': "v' = PA2PTE r OR (f OR PTE_V)" by (simp add: v'_def or.assoc)
  have pa': "PTE2PA v' = r" unfolding v' by (rule PTE2PA_PA2PTE [OF r(2) f10])
  have bits: "bit v' 0" "bit v' 2" "bit v' 4" "\<not> bit v' 9"
    using D(7,8) by (simp_all add: v' bit_simps bit_PA2PTE f_def bit_PTE_FLAGS bit_pte_bits)
  have mem: "ram s' (r + of_nat k) = ram s (pa + of_nat k)" if "k < 4096" for k
    using frame [of "r + of_nat k"] PGROUNDDOWN_page [OF r(2) that] fresh(3,5) move [of "r + of_nat k"]
    by (simp add: s1_def)
  have "private_copy s (r # rs) root va s'"
    unfolding private_copy_def Let_def look [OF D(5)]
    using av' bits pa' mem look cnt' D(10) r frame move nodes(2) leaf3(2)
    by (auto simp: v_def [symmetric] pa_def [symmetric] s'_def)
  then show ?thesis using run by blast
qed

lemma handleCOW_spec:
  assumes "cow_fault s ps root va" "ps \<noteq> []"
  shows "\<exists>s'. handleCOW s root va = Ok (0, s') \<and> private_copy s ps root va s'"
proof (cases "fr s (fn (PTE2PA (lookup (ram s) root va))) = 1")
  case True
  then show ?thesis using handleCOW_sole_owner assms(1) by blast
next
  case False
  then show ?thesis using handleCOW_shared assms by (cases ps) auto
qed

section \<open>Isolation\<close>

lemma copied_fault:
  assumes ready: "fork_ready s ps old new n" and lk: "lock_kalloc s"
    and c: "copied s ps old new n s1 ps1"
    and va: "pages_from 0 n va" "PGROUNDDOWN va \<noteq> 0" "bit (lookup (ram s) old va) 4"
  shows "cow_fault s1 ps1 new va" "PTE2PA (lookup (ram s1) new va) = PTE2PA (lookup (ram s) old va)"
    "fr s1 (fn (PTE2PA (lookup (ram s) old va))) = fr s (fn (PTE2PA (lookup (ram s) old va))) + 1"
proof -
  note C = copiedD [OF c]
  note F = fork_ready_pages [OF ready va(1) refl]
  have mx: "va < MAXVA"
    using va(1) ready by (auto simp: fork_ready_def pages_from_def word_less_nat_alt MAXVA_val)
  have l: "lookup (ram s1) new va = child_pte (lookup (ram s) old va)" using C(12) [OF mx] va(1) by simp
  show pa: "PTE2PA (lookup (ram s1) new va) = PTE2PA (lookup (ram s) old va)"
    using l by (simp add: child_pte_flags)
  have "PTE2PA (lookup (ram s) old va) \<in> backing (ram s) old 0 n" using va(1) by (auto simp: backing_def)
  then show cnt: "fr s1 (fn (PTE2PA (lookup (ram s) old va))) = fr s (fn (PTE2PA (lookup (ram s) old va))) + 1"
    using C(13) [OF F(1,2)] by simp
  have "bit (child_pte v) 4 \<longleftrightarrow> bit v 4" for v
    by (simp add: child_pte_def bit_simps bit_PA2PTE bit_PTE_FLAGS bit_pte_bits)
  then show "cow_fault s1 ps1 new va"
    unfolding cow_fault_def Let_def l child_pte_flags(1)
    using C(1,3-7,9) mx va(2,3) lk F cnt child_pte_bits by (auto simp: managed_def)
qed

lemma copied_parent_byte:
  assumes ready: "fork_ready s ps old new n" and c: "copied s ps old new n s1 ps1"
    and vb: "pages_from 0 n vb"
    and same: "\<forall>x. PGROUNDDOWN x \<notin> pt_nodes (ram s1) new \<union> set ps1 \<longrightarrow> m x = ram s1 x"
  shows "user_addr m old vb = user_addr (ram s) old vb" "m (user_addr m old vb) = user_byte (ram s) old vb"
proof -
  note C = copiedD [OF c]
  note F = fork_ready_pages [OF ready vb refl]
  have mx: "vb < MAXVA"
    using vb ready by (auto simp: fork_ready_def pages_from_def word_less_nat_alt MAXVA_val)
  have "PGROUNDDOWN x \<notin> pt_nodes (ram s1) new \<union> set ps1" if "PGROUNDDOWN x \<in> pt_nodes (ram s1) old" for x
    using that C(10) wf_pt_node(3) [OF C(6) that] kmem_availD(6) [OF C(1)] by auto
  then have "\<forall>x. PGROUNDDOWN x \<in> pt_nodes (ram s1) old \<longrightarrow> m x = ram s1 x" using same by blast
  note T = table_frame [OF C(6) [unfolded wf_pt_def, THEN conjunct1] this]
  have "lookup m old vb = cow_pte (lookup (ram s) old vb)" using T(3) C(11) [OF mx] vb by simp
  then show addr: "user_addr m old vb = user_addr (ram s) old vb"
    by (simp add: user_addr_def PTE2PA_cow_pte)
  let ?x = "user_addr (ram s) old vb"
  have x: "PGROUNDDOWN ?x \<notin> pt_nodes (ram s) old \<union> pt_nodes (ram s) new \<union> set ps"
    using F(2-4) user_addr_page by simp
  then have "PGROUNDDOWN ?x \<notin> pt_nodes (ram s1) new \<union> set ps1" using C(2,9) by auto
  then show "m (user_addr m old vb) = user_byte (ram s) old vb"
    using same C(14) [OF x] addr by (simp add: user_byte_def)
qed

lemma private_copyD:
  assumes "private_copy s ps root va s'" and "pa = PTE2PA (lookup (ram s) root va)"
    and "v' = lookup (ram s') root va" and "pa' = PTE2PA v'"
  shows "wf_pt s' root" "pt_nodes (ram s') root = pt_nodes (ram s) root"
    "bit v' 0" "bit v' 2" "bit v' 4" "\<not> bit v' 9" "fr s' (fn pa') = 1"
    "k < 4096 \<Longrightarrow> ram s' (pa' + of_nat k) = ram s (pa + of_nat k)"
    "if pa' = pa then fr s (fn pa) = 1 else pa' \<in> set ps \<and> fr s' (fn pa) = fr s (fn pa) - 1"
    "vb < MAXVA \<Longrightarrow> PGROUNDDOWN vb \<noteq> PGROUNDDOWN va \<Longrightarrow> lookup (ram s') root vb = lookup (ram s) root vb"
    "PGROUNDDOWN x \<notin> pt_nodes (ram s) root \<union> set ps \<Longrightarrow> ram s' x = ram s x"
  using assms unfolding private_copy_def Let_def by blast+

lemma user_byte_private:
  assumes p: "private_copy s ps root va s'" and va: "va < MAXVA"
  shows "user_byte (ram s') root va = user_byte (ram s) root va"
  using private_copyD(8) [OF p refl refl refl, of "unat va mod 4096"]
  by (simp add: user_byte_def user_addr_def page_offset)

lemma copied_child_byte:
  assumes ready: "fork_ready s ps old new n" and c: "copied s ps old new n s1 ps1"
    and vb: "pages_from 0 n vb"
  shows "user_addr (ram s1) new vb = user_addr (ram s) old vb"
    "user_byte (ram s1) new vb = user_byte (ram s) old vb"
    "PGROUNDDOWN (user_addr (ram s) old vb) \<notin> pt_nodes (ram s1) new \<union> set ps1" "vb < MAXVA"
proof -
  note C = copiedD [OF c]
  note F = fork_ready_pages [OF ready vb refl]
  show mx: "vb < MAXVA"
    using vb ready by (auto simp: fork_ready_def pages_from_def word_less_nat_alt MAXVA_val)
  have "lookup (ram s1) new vb = child_pte (lookup (ram s) old vb)" using C(12) [OF mx] vb by simp
  then show addr: "user_addr (ram s1) new vb = user_addr (ram s) old vb"
    by (simp add: user_addr_def child_pte_flags)
  have x: "PGROUNDDOWN (user_addr (ram s) old vb) \<notin> pt_nodes (ram s) old \<union> pt_nodes (ram s) new \<union> set ps"
    using F(2-4) user_addr_page by simp
  then show "PGROUNDDOWN (user_addr (ram s) old vb) \<notin> pt_nodes (ram s1) new \<union> set ps1" using C(2,9) by auto
  show "user_byte (ram s1) new vb = user_byte (ram s) old vb"
    using C(14) [OF x] addr by (simp add: user_byte_def)
qed

lemma write_private:
  fixes b :: u8
  assumes ready: "fork_ready s ps old new n" and lk: "lock_kalloc s"
    and c: "copied s ps old new n s1 ps1"
    and va: "pages_from 0 n va" "PGROUNDDOWN va \<noteq> 0" "bit (lookup (ram s) old va) 4"
    and p: "private_copy s1 ps1 new va s2"
  defines "m \<equiv> (ram s2)(user_addr (ram s2) new va := b)"
  shows "user_byte m new va = b"
    "pages_from 0 n vb \<Longrightarrow> user_byte m old vb = user_byte (ram s) old vb"
    "pages_from 0 n vb \<Longrightarrow> vb \<noteq> va \<Longrightarrow> user_byte m new vb = user_byte (ram s) old vb"
proof -
  note C = copiedD [OF c]
  note P = private_copyD [OF p refl refl refl]
  note fault = copied_fault [OF ready lk c va]
  define pa' where "pa' = PTE2PA (lookup (ram s2) new va)"
  have "fr s1 (fn (PTE2PA (lookup (ram s1) new va))) \<noteq> 1"
    using fork_ready_pages(5) [OF ready va(1) refl] fault(2,3) by auto
  then have pa': "pa' \<in> set ps1" using P(9) by (auto simp: pa'_def split: if_splits)
  then have not_node: "pa' \<notin> pt_nodes (ram s1) new"
    using wf_pt_node(3) [OF C(7), of pa'] kmem_availD(6) [OF C(1), of pa'] by auto
  have m: "m x = ram s2 x" if "PGROUNDDOWN x \<noteq> pa'" for x
    using that user_addr_page [of "ram s2" new va] by (auto simp: m_def pa'_def)
  have "\<forall>x. PGROUNDDOWN x \<in> pt_nodes (ram s2) new \<longrightarrow> m x = ram s2 x"
    using m P(2) not_node by metis
  note T = table_frame [OF P(1) [unfolded wf_pt_def, THEN conjunct1] this]
  have addr: "user_addr m new vc = user_addr (ram s2) new vc" for vc by (simp add: user_addr_def T(3))
  show "user_byte m new va = b" unfolding user_byte_def addr by (simp add: m_def)
  have frame: "\<forall>x. PGROUNDDOWN x \<notin> pt_nodes (ram s1) new \<union> set ps1 \<longrightarrow> m x = ram s1 x"
    using m P(11) pa' by (metis UnI2)
  show "user_byte m old vb = user_byte (ram s) old vb" if "pages_from 0 n vb"
    using copied_parent_byte(2) [OF ready c that frame] by (simp add: user_byte_def)
  show "user_byte m new vb = user_byte (ram s) old vb" if vb: "pages_from 0 n vb" and ne: "vb \<noteq> va"
  proof (cases "PGROUNDDOWN vb = PGROUNDDOWN va")
    case True
    note B = copied_child_byte [OF ready c vb] and A = copied_child_byte(4) [OF ready c va(1)]
    have "user_addr (ram s2) new vb \<noteq> user_addr (ram s2) new va" using user_addr_inj True ne by blast
    then have "user_byte m new vb = user_byte (ram s2) new vb"
      unfolding user_byte_def addr by (simp add: m_def)
    also have "\<dots> = user_byte (ram s1) new vb"
      using P(8) [of "unat vb mod 4096"] lookup_page [OF B(4) A True]
      by (simp add: user_byte_def user_addr_def page_offset)
    finally show ?thesis using B(2) by simp
  next
    case False
    note B = copied_child_byte [OF ready c vb]
    have "user_addr m new vb = user_addr (ram s) old vb"
      using addr P(10) [OF B(4) False] B(1) by (simp add: user_addr_def)
    then show ?thesis using frame B(1-3) by (simp add: user_byte_def)
  qed
qed

lemma demo_fork_ready:
  "fork_ready demo [0x87fff000, 0x87ffe000, 0x87ffd000, 0x87ff6000, 0x87ff5000] 0x87ff7000 0x87ffc000 2"
proof -
  have "PTE2PA (lookup (ram demo) 0x87ff7000 vb) \<notin> pt_nodes (ram demo) 0x87ffc000 \<and>
      sint (fr demo (fn (PTE2PA (lookup (ram demo) 0x87ff7000 vb)))) < 2 ^ 31 - 1" if "pages_from 0 2 vb" for vb
  proof -
    have "PTE2PA (lookup (ram demo) 0x87ff7000 vb) \<in> {0x87ffa000, 0x87ffb000}"
      using demo_data(1) [OF that] by (simp add: user_addr_page)
    then show ?thesis by (auto simp: demo_wf demo_fr demo_managed)
  qed
  moreover have "\<not> memref_held demo" by (simp add: demo_def)
  moreover have "pt_nodes (ram demo) 0x87ffc000 \<inter> pt_nodes (ram demo) 0x87ff7000 = {}"
    unfolding demo_wf by simp
  moreover have "\<not> bit (lookup (ram demo) 0x87ffc000 vb) 0" for vb unfolding demo_wf by simp
  moreover have "(2 :: nat) * 4096 \<le> 2 ^ 38" by simp
  ultimately show ?thesis
    unfolding fork_ready_def using demo_avail demo_wf(1,2) demo_user_range by blast
qed

lemma demo_copied:
  "\<exists>s' ps'. uvmcopy demo 0x87ff7000 0x87ffc000 0x1800 = Ok (0, s') \<and> freelist s' \<noteq> 0 \<and> ps' \<noteq> [] \<and>
    copied demo [0x87fff000, 0x87ffe000, 0x87ffd000, 0x87ff6000, 0x87ff5000] 0x87ff7000 0x87ffc000 2 s' ps'"
proof -
  have "unat (0x1800 :: u64) \<le> 2 * 4096" "2 * 4096 < unat (0x1800 :: u64) + 4096" by simp_all
  from uvmcopy_spec [OF demo_fork_ready this] obtain s' ps' where
    s': "uvmcopy demo 0x87ff7000 0x87ffc000 0x1800 = Ok (0, s')" "5 \<le> length ps' + 4" and
    c: "copied demo [0x87fff000, 0x87ffe000, 0x87ffd000, 0x87ff6000, 0x87ff5000] 0x87ff7000 0x87ffc000 2 s' ps'"
    by auto
  then have ne: "ps' \<noteq> []" by auto
  then have "freelist s' \<noteq> 0"
    using kmem_availD(1) [OF copiedD(1) [OF c]] by (cases ps') (auto simp: kalloc_inv_def)
  then show ?thesis using s' c ne by blast
qed

lemma demo_user_page:
  "pages_from 0 2 0x1000" "PGROUNDDOWN 0x1000 \<noteq> 0" "bit (lookup (ram demo) 0x87ff7000 0x1000) 4" "lock_kalloc demo"
proof -
  show p: "pages_from 0 2 0x1000" by (simp add: pages_from_def)
  show "PGROUNDDOWN 0x1000 \<noteq> 0" by (simp add: word_unat_eq_iff unat_PGROUNDDOWN)
  show "bit (lookup (ram demo) 0x87ff7000 0x1000) 4" using demo_lookup [OF p] by (auto simp: bit_simps)
  show "lock_kalloc demo" by (simp add: demo_def)
qed

section \<open>Properties\<close>

text \<open>
  C5. Forking an address space either shares every page or leaves no trace. On success, each
  user page of the child is the parent's physical page, mapped read-only and marked
  copy-on-write in both tables, the reference count of each shared page has gone up by exactly
  one, and every other allocated page and its count is as before. It fails only when fewer than
  two pages were free for each page to share; then the child maps nothing any more and every
  count is back to what it was.
\<close>

theorem uvmcopy_shares_pages:
  assumes "fork_ready s ps old new n" "unat sz \<le> n * 4096" "n * 4096 < unat sz + 4096"
  shows "(\<exists>s' ps'. uvmcopy s old new sz = Ok (0, s') \<and> copied s ps old new n s' ps' \<and>
      length ps \<le> length ps' + 2 * n) \<or>
    (\<exists>s' j. j < n \<and> uvmcopy s old new sz = Ok (- 1, s') \<and> undone s ps old new j s' \<and>
      length ps < 2 * n)"
  by (rule uvmcopy_spec [OF assms])

theorem uvmcopy_shares_pages_witness:
  "\<exists>s' ps'. uvmcopy demo 0x87ff7000 0x87ffc000 0x1800 = Ok (0, s') \<and>
    copied demo [0x87fff000, 0x87ffe000, 0x87ffd000, 0x87ff6000, 0x87ff5000] 0x87ff7000 0x87ffc000 2 s' ps'"
proof -
  have "unat (0x1800 :: u64) \<le> 2 * 4096" "2 * 4096 < unat (0x1800 :: u64) + 4096" by simp_all
  from uvmcopy_shares_pages [OF demo_fork_ready this] show ?thesis by auto
qed

text \<open>
  C6. A write fault on a copy-on-write page, with a free page left, is handled: afterwards the
  faulting address is mapped writable to a page nobody else references, with the bytes it had,
  and no other mapping, page or count has changed.
\<close>

theorem handleCOW_private_copy:
  assumes "cow_fault s ps root va" "ps \<noteq> []"
  shows "\<exists>s'. handleCOW s root va = Ok (0, s') \<and> private_copy s ps root va s'"
  by (rule handleCOW_spec [OF assms])

theorem handleCOW_private_copy_witness:
  "\<exists>s ps s'. cow_fault s ps 0x87ffc000 0x1000 \<and> ps \<noteq> [] \<and>
    handleCOW s 0x87ffc000 0x1000 = Ok (0, s') \<and> private_copy s ps 0x87ffc000 0x1000 s'"
proof -
  obtain s ps where c: "ps \<noteq> []"
    "copied demo [0x87fff000, 0x87ffe000, 0x87ffd000, 0x87ff6000, 0x87ff5000] 0x87ff7000 0x87ffc000 2 s ps"
    using demo_copied by blast
  have "cow_fault s ps 0x87ffc000 0x1000"
    by (rule copied_fault(1) [OF demo_fork_ready demo_user_page(4) c(2) demo_user_page(1-3)])
  then show ?thesis using handleCOW_private_copy c(1) by blast
qed

text \<open>
  C4. Copy-on-write isolates the two processes: after a successful fork, a write fault of the
  child on any user page above the first is handled, and then storing any byte there is seen
  by the child at that address only; every byte the parent sees, and every other byte the
  child sees, is still the one from before the fork.
\<close>

theorem cow_isolation:
  assumes "fork_ready s ps old new n" "lock_kalloc s"
    and "unat sz \<le> n * 4096" "n * 4096 < unat sz + 4096"
    and "uvmcopy s old new sz = Ok (0, s1)" "freelist s1 \<noteq> 0"
    and "pages_from 0 n va" "PGROUNDDOWN va \<noteq> 0" "bit (lookup (ram s) old va) 4"
  shows "\<exists>s2. handleCOW s1 new va = Ok (0, s2) \<and> bit (lookup (ram s2) new va) 2 \<and>
    (let m = (ram s2)(user_addr (ram s2) new va := b) in
       user_byte m new va = b \<and>
       (\<forall>vb. pages_from 0 n vb \<longrightarrow> user_byte m old vb = user_byte (ram s) old vb) \<and>
       (\<forall>vb. pages_from 0 n vb \<and> vb \<noteq> va \<longrightarrow> user_byte m new vb = user_byte (ram s) old vb))"
proof -
  obtain ps1 where c: "copied s ps old new n s1 ps1"
    using uvmcopy_spec [OF assms(1,3,4)] assms(5) by auto
  have "ps1 \<noteq> []"
    using kmem_availD(1) [OF copiedD(1) [OF c]] assms(6) by (auto simp: kalloc_inv_def)
  then obtain s2 where s2: "handleCOW s1 new va = Ok (0, s2)" "private_copy s1 ps1 new va s2"
    using handleCOW_spec copied_fault(1) [OF assms(1,2) c assms(7-9)] by blast
  then show ?thesis
    using write_private [OF assms(1,2) c assms(7-9) s2(2), where b = b] private_copyD(4) [OF s2(2) refl refl refl]
    unfolding Let_def by blast
qed

theorem cow_isolation_witness:
  "\<exists>s1 s2. uvmcopy demo 0x87ff7000 0x87ffc000 0x1800 = Ok (0, s1) \<and>
    handleCOW s1 0x87ffc000 0x1000 = Ok (0, s2) \<and>
    (let m = (ram s2)(user_addr (ram s2) 0x87ffc000 0x1000 := 7) in
       user_byte m 0x87ffc000 0x1000 = 7 \<and> user_byte m 0x87ff7000 0x1000 = 0)"
proof -
  obtain s1 where s1: "uvmcopy demo 0x87ff7000 0x87ffc000 0x1800 = Ok (0, s1)" "freelist s1 \<noteq> 0"
    using demo_copied by blast
  have sz: "unat (0x1800 :: u64) \<le> 2 * 4096" "2 * 4096 < unat (0x1800 :: u64) + 4096" by simp_all
  from cow_isolation [OF demo_fork_ready demo_user_page(4) sz s1 demo_user_page(1-3), of 7]
  show ?thesis using s1(1) demo_user_page(1) demo_data(2) [OF demo_user_page(1)] unfolding Let_def by metis
qed

text \<open>
  C18. \<^verbatim>\<open>copyout\<close> does not respect copy-on-write: after a successful fork, copying a byte to a user
  page of the child stores it in the page the parent still maps, so the parent sees it too.
\<close>

theorem copyout_writes_through_cow:
  assumes "fork_ready s ps old new n" "lock_kalloc s"
    and "unat sz \<le> n * 4096" "n * 4096 < unat sz + 4096"
    and "uvmcopy s old new sz = Ok (0, s1)"
    and "pages_from 0 n va" "bit (lookup (ram s) old va) 4"
  shows "\<exists>s2. copyout s1 new va (\<lambda>_. b) 1 = Ok (0, s2) \<and> user_byte (ram s2) old va = b"
proof -
  obtain ps1 where c: "copied s ps old new n s1 ps1"
    using uvmcopy_spec [OF assms(1,3,4)] assms(5) by auto
  note C = copiedD [OF c] and F = fork_ready_pages [OF assms(1,6) refl]
  note B = copied_child_byte [OF assms(1) c assms(6)]
  have l: "lookup (ram s1) new va = child_pte (lookup (ram s) old va)" using C(12) [OF B(4)] assms(6) by simp
  have pa: "PTE2PA (lookup (ram s1) new va) = PTE2PA (lookup (ram s) old va)"
    using l by (simp add: child_pte_flags)
  have "bit (child_pte v) 4 \<longleftrightarrow> bit v 4" for v
    by (simp add: child_pte_def bit_simps bit_PA2PTE bit_PTE_FLAGS bit_pte_bits)
  moreover have "PTE2PA (lookup (ram s) old va) \<noteq> 0"
    using managed_nonzero [OF kmem_availD(3) F(1)] assms(1) by (auto simp: fork_ready_def)
  ultimately have "user_mapped (ram s1) new va (unat (1 :: u64))"
    using l pa B(4) assms(7) child_pte_bits by (simp add: user_mapped_def word_less_nat_alt MAXVA_val)
  moreover have nn: "PTE2PA (lookup (ram s) old va) \<notin> pt_nodes (ram s1) new \<union> pt_nodes (ram s1) old"
    using F(2-4) C(8,9) by auto
  then have "user_private (ram s1) new va (unat (1 :: u64))" by (simp add: user_private_def pa)
  ultimately obtain m where m: "copyout s1 new va (\<lambda>_. b) 1 = Ok (0, s1\<lparr>ram := m\<rparr>)"
    "stored_at (ram s1) new va (\<lambda>_. b) (unat (1 :: u64)) m" using copyout_spec [OF C(7)] by blast
  have "lookup m old va = lookup (ram s1) old va"
    using C(6,7) nn pa by (intro stored_at_tables(1) [OF _ m(2)]) (auto simp: wf_pt_def)
  also have "\<dots> = cow_pte (lookup (ram s) old va)" using C(11) [OF B(4)] assms(6) by simp
  finally have "user_addr m old va = user_addr (ram s1) new va"
    using B(1) by (simp add: user_addr_def PTE2PA_cow_pte)
  then have "user_byte m old va = b" using m(2) by (simp add: user_byte_def stored_at_def)
  then show ?thesis using m(1) by auto
qed

theorem copyout_writes_through_cow_witness:
  "\<exists>s1 s2. uvmcopy demo 0x87ff7000 0x87ffc000 0x1800 = Ok (0, s1) \<and>
    copyout s1 0x87ffc000 0x1000 (\<lambda>_. 7) 1 = Ok (0, s2) \<and> user_byte (ram s2) 0x87ff7000 0x1000 = 7"
proof -
  obtain s1 where s1: "uvmcopy demo 0x87ff7000 0x87ffc000 0x1800 = Ok (0, s1)"
    using demo_copied by blast
  have sz: "unat (0x1800 :: u64) \<le> 2 * 4096" "2 * 4096 < unat (0x1800 :: u64) + 4096" by simp_all
  from copyout_writes_through_cow [OF demo_fork_ready demo_user_page(4) sz s1 demo_user_page(1,3), of 7]
  show ?thesis using s1 by blast
qed

end
