(* ===== verification/Ring.thy ===== *)
theory Ring
  imports Prelude
begin

text \<open>
  Ring buffers. The pipe, the UART transmit buffer and the console input buffer all keep a
  fixed array and two free-running counters of a machine word that are reduced modulo the
  array's length on use, and that wrap around. \<open>ring_contents\<close> is the queue such a ring stands
  for. The locale is what a bounded queue promises its users; the components show that their
  own operations are one.
\<close>

section \<open>Definitions\<close>

definition ring_contents :: "'a list \<Rightarrow> 'w::len word \<Rightarrow> 'w word \<Rightarrow> 'a list" where
  "ring_contents buf r w =
     map (\<lambda>i. buf ! (unat (r + of_nat i) mod length buf)) [0..<unat (w - r)]"

definition ring_ok :: "nat \<Rightarrow> 'a list \<Rightarrow> 'w::len word \<Rightarrow> 'w word \<Rightarrow> bool" where
  "ring_ok n buf r w \<longleftrightarrow>
     length buf = n \<and> 0 < n \<and> n dvd 2 ^ LENGTH('w) \<and> n < 2 ^ LENGTH('w) \<and> unat (w - r) \<le> n"

datatype 'a fifo_op = Put 'a | Get

primrec run_fifo :: "('a \<Rightarrow> 's \<Rightarrow> 's) \<Rightarrow> ('s \<Rightarrow> 'a \<times> 's) \<Rightarrow> ('s \<Rightarrow> 'a list) \<Rightarrow> nat \<Rightarrow>
  'a fifo_op list \<Rightarrow> 's \<Rightarrow> 'a list \<times> 'a list \<times> 's" where
  "run_fifo put get cont cap [] s = ([], [], s)"
| "run_fifo put get cont cap (x # xs) s =
     (case x of
        Put c \<Rightarrow> if length (cont s) < cap
                 then (case run_fifo put get cont cap xs (put c s) of (i, out, s') \<Rightarrow> (c # i, out, s'))
                 else run_fifo put get cont cap xs s
      | Get \<Rightarrow> if cont s \<noteq> []
               then (case get s of (c, s1) \<Rightarrow>
                 case run_fifo put get cont cap xs s1 of (i, out, s') \<Rightarrow> (i, c # out, s'))
               else run_fifo put get cont cap xs s)"

section \<open>Rings\<close>

lemma ring_index:
  fixes r :: "'w::len word"
  assumes "n dvd 2 ^ LENGTH('w)"
  shows "unat (r + of_nat i) mod n = (unat r + i) mod n"
proof -
  have "unat (r + of_nat i) = (unat r + i) mod 2 ^ LENGTH('w)"
    by (simp add: unat_word_ariths unat_of_nat mod_add_right_eq)
  then show ?thesis using assms by (simp add: mod_mod_cancel)
qed

lemma ring_length: "length (ring_contents buf r w) = unat (w - r)"
  by (simp add: ring_contents_def)

lemma ring_empty: "ring_contents buf r w = [] \<longleftrightarrow> w = r"
proof -
  have "ring_contents buf r w = [] \<longleftrightarrow> unat (w - r) = 0"
    using ring_length [of buf r w] by (metis length_0_conv)
  then show ?thesis by (simp add: unat_eq_0)
qed

lemma ring_dist:
  fixes r :: "'w::len word"
  assumes "w \<noteq> r"
  shows "unat (w - r) = Suc (unat (w - (r + 1)))"
proof -
  have "w - r \<noteq> 0" using assms by simp
  then have "unat (w - r - 1) = unat (w - r) - 1" "0 < unat (w - r)"
    by (rule unat_minus_one) (simp add: unat_gt_0 assms)
  moreover have "w - (r + 1) = w - r - 1" by simp
  ultimately show ?thesis by presburger
qed

lemma ring_dist_less: "r \<noteq> w \<Longrightarrow> unat (w - (r + 1)) < unat (w - r)"
  using ring_dist [of w r] by simp

lemma ring_full:
  fixes r :: "'w::len word"
  assumes "n < 2 ^ LENGTH('w)"
  shows "w = r + of_nat n \<longleftrightarrow> unat (w - r) = n"
proof
  assume "w = r + of_nat n"
  then show "unat (w - r) = n" using assms by (simp add: unat_of_nat)
next
  assume "unat (w - r) = n"
  then have "w - r = of_nat n" by auto
  then show "w = r + of_nat n" by (simp add: algebra_simps)
qed

lemma ring_put:
  fixes r :: "'w::len word"
  assumes ok: "ring_ok n buf r w" and room: "unat (w - r) < n"
  shows "ring_ok n (buf[unat w mod n := c]) r (w + 1)"
    and "ring_contents (buf[unat w mod n := c]) r (w + 1) = ring_contents buf r w @ [c]"
proof -
  from ok have b: "length buf = n" "0 < n" "n dvd 2 ^ LENGTH('w)" "n < 2 ^ LENGTH('w)"
    by (simp_all add: ring_ok_def)
  define k where "k = unat (w - r)"
  have w: "w = r + of_nat k" by (simp add: k_def)
  have "Suc k < 2 ^ LENGTH('w)" using room b(4) by (simp add: k_def)
  then have "unat (of_nat (Suc k) :: 'w word) = Suc k" by (simp add: unat_of_nat take_bit_nat_eq_self_iff del: of_nat_Suc)
  moreover have "w + 1 - r = of_nat (Suc k)" by (simp add: w)
  ultimately have len: "unat (w + 1 - r) = Suc k" by metis
  then show "ring_ok n (buf[unat w mod n := c]) r (w + 1)"
    using b room by (simp add: ring_ok_def k_def)
  have slot: "unat w mod n = (unat r + k) mod n" unfolding w by (rule ring_index [OF b(3)])
  have "(unat r + i) mod n \<noteq> (unat r + k) mod n" if "i < k" for i
  proof
    assume "(unat r + i) mod n = (unat r + k) mod n"
    then have "n dvd (unat r + k) - (unat r + i)" by (metis mod_eq_dvd_iff_nat nat_add_left_cancel_le that less_imp_le)
    then have "n dvd k - i" by simp
    then show False using that room b(2) by (auto simp: k_def dest: dvd_imp_le)
  qed
  then show "ring_contents (buf[unat w mod n := c]) r (w + 1) = ring_contents buf r w @ [c]"
    unfolding ring_contents_def len slot k_def [symmetric]
    using b by (auto simp: ring_index nth_list_update) metis
qed

lemma ring_get:
  fixes r :: "'w::len word"
  assumes ok: "ring_ok n buf r w" and some: "w \<noteq> r"
  shows "ring_ok n buf (r + 1) w"
    and "ring_contents buf r w = buf ! (unat r mod n) # ring_contents buf (r + 1) w"
proof -
  from ok have b: "length buf = n" "0 < n" "n dvd 2 ^ LENGTH('w)" "n < 2 ^ LENGTH('w)"
    and le: "unat (w - r) \<le> n" by (simp_all add: ring_ok_def)
  have len: "unat (w - r) = Suc (unat (w - (r + 1)))" by (rule ring_dist [OF some])
  then show "ring_ok n buf (r + 1) w" using b le by (simp add: ring_ok_def)
  show "ring_contents buf r w = buf ! (unat r mod n) # ring_contents buf (r + 1) w"
    unfolding ring_contents_def len
    using b by (simp add: upt_conv_Cons map_Suc_upt [symmetric] del: upt_Suc) (simp add: add.assoc)
qed

text \<open>A third counter \<open>w\<close> between the ends splits the contents; the last byte can be taken back.\<close>

lemma ring_split:
  fixes r :: "'w::len word"
  assumes "unat (w - r) \<le> unat (e - r)"
  shows "ring_contents buf r e = ring_contents buf r w @ ring_contents buf w e"
    and "unat (e - w) = unat (e - r) - unat (w - r)"
proof -
  have "e - w = (e - r) - (w - r)" by simp
  then show d: "unat (e - w) = unat (e - r) - unat (w - r)"
    using assms by (metis unat_sub word_le_nat_alt)
  have "[0..<unat (e - r)] = [0..<unat (w - r)] @ [unat (w - r)..<unat (e - r)]"
    using assms by (metis le_add_diff_inverse plus_nat.add_0 upt_add_eq_append zero_le)
  moreover have "[unat (w - r)..<unat (e - r)] = map (\<lambda>i. unat (w - r) + i) [0..<unat (e - w)]"
    unfolding d using assms by (simp add: map_add_upt add.commute)
  moreover have "r + of_nat (unat (w - r) + i) = w + of_nat i" for i by simp
  ultimately show "ring_contents buf r e = ring_contents buf r w @ ring_contents buf w e"
    unfolding ring_contents_def by (simp del: of_nat_add)
qed

lemma ring_unput:
  fixes r :: "'w::len word"
  assumes "e \<noteq> r"
  shows "ring_contents buf r e = ring_contents buf r (e - 1) @ [buf ! (unat (e - 1) mod length buf)]"
    and "unat (e - r) = Suc (unat (e - 1 - r))"
proof -
  have "e - 1 - r = e - (r + 1)" by simp
  then show d: "unat (e - r) = Suc (unat (e - 1 - r))" using ring_dist [OF assms] by metis
  show "ring_contents buf r e = ring_contents buf r (e - 1) @ [buf ! (unat (e - 1) mod length buf)]"
    unfolding ring_contents_def d by simp
qed

section \<open>Bounded queues\<close>

locale bounded_fifo =
  fixes put :: "'a \<Rightarrow> 's \<Rightarrow> 's" and get :: "'s \<Rightarrow> 'a \<times> 's"
    and cont :: "'s \<Rightarrow> 'a list" and inv :: "'s \<Rightarrow> bool" and cap :: nat
  assumes inv_put: "inv s \<Longrightarrow> length (cont s) < cap \<Longrightarrow> inv (put c s)"
    and cont_put: "inv s \<Longrightarrow> length (cont s) < cap \<Longrightarrow> cont (put c s) = cont s @ [c]"
    and inv_get: "inv s \<Longrightarrow> cont s \<noteq> [] \<Longrightarrow> inv (snd (get s))"
    and cont_get: "inv s \<Longrightarrow> cont s \<noteq> [] \<Longrightarrow> cont s = fst (get s) # cont (snd (get s))"
    and cont_bound: "inv s \<Longrightarrow> length (cont s) \<le> cap"
begin

lemma fifo_order:
  assumes "inv s" "run_fifo put get cont cap ops s = (ins, outs, s')"
  shows "inv s' \<and> outs @ cont s' = cont s @ ins \<and> length (cont s') \<le> cap"
  using assms
proof (induction ops arbitrary: s ins outs)
  case Nil
  then show ?case using cont_bound by simp
next
  case (Cons x xs)
  show ?case
  proof (cases x)
    case (Put c)
    show ?thesis
    proof (cases "length (cont s) < cap")
      case True
      then obtain i where i: "run_fifo put get cont cap xs (put c s) = (i, outs, s')" "ins = c # i"
        using Cons.prems(2) Put by (auto split: prod.splits)
      then show ?thesis
        using Cons.IH [OF inv_put [OF Cons.prems(1) True] i(1)] cont_put [OF Cons.prems(1) True] by simp
    next
      case False
      then show ?thesis using Cons Put by simp
    qed
  next
    case Get
    show ?thesis
    proof (cases "cont s \<noteq> []")
      case True
      obtain c s1 where g: "get s = (c, s1)" by (cases "get s")
      with True Cons.prems(2) Get obtain o1 where
        r: "run_fifo put get cont cap xs s1 = (ins, o1, s')" "outs = c # o1"
        by (auto split: prod.splits)
      have "inv s1" "cont s = c # cont s1"
        using inv_get [OF Cons.prems(1) True] cont_get [OF Cons.prems(1) True] g by simp_all
      then show ?thesis using Cons.IH [OF _ r(1)] r(2) by simp
    next
      case False
      then show ?thesis using Cons Get by simp
    qed
  qed
qed

end

end
