(* ===== verification/Pipe.thy ===== *)
theory Pipe
  imports Usercopy Ring
begin

text \<open>
  \<^verbatim>\<open>kernel/pipe.c\<close>. The code between two sleeps runs under \<^verbatim>\<open>pi->lock\<close> and is one step of the model:
  \<^verbatim>\<open>pipewrite\<close> and \<^verbatim>\<open>piperead\<close> either return or go to sleep on one of the two channels of the pipe
  (\<open>Sleeping\<close> keeps the loop variable, and the loop is resumed from it), and they say which channels
  they woke. \<^verbatim>\<open>killed(pr)\<close> is asked in every iteration of the writing loop and may change in between, so it is a
  function of the loop variable. \<open>pipe_step\<close> interleaves one writer, one reader and the two closes.
\<close>

section \<open>Definitions\<close>

record pipe =
  data :: "u8 list"
  nread :: u32
  nwrite :: u32
  readopen :: bool
  writeopen :: bool

definition PIPESIZE :: nat where "PIPESIZE = 512"

datatype wchan = NRead | NWrite

datatype pipe_out = Returned int | Sleeping wchan nat

definition pipe_put :: "u8 \<Rightarrow> pipe \<Rightarrow> pipe" where
  "pipe_put ch p = p\<lparr>data := (data p)[unat (nwrite p) mod PIPESIZE := ch], nwrite := nwrite p + 1\<rparr>"

definition pipe_get :: "pipe \<Rightarrow> u8 \<times> pipe" where
  "pipe_get p = (data p ! (unat (nread p) mod PIPESIZE), p\<lparr>nread := nread p + 1\<rparr>)"

text \<open>
  The new pipe of \<^verbatim>\<open>pipealloc\<close>; the page from \<^verbatim>\<open>kalloc\<close> leaves junk in the buffer. \<^verbatim>\<open>pipeclose\<close> says
  whether the pipe is to be freed.
\<close>

definition pipe_new :: "u8 list \<Rightarrow> pipe" where
  "pipe_new junk = \<lparr>data = junk, nread = 0, nwrite = 0, readopen = True, writeopen = True\<rparr>"

definition pipeclose :: "pipe \<Rightarrow> bool \<Rightarrow> bool \<times> pipe \<times> wchan list" where
  "pipeclose p writable =
     (let (p, w) = (if writable then (p\<lparr>writeopen := False\<rparr>, [NRead]) else (p\<lparr>readopen := False\<rparr>, [NWrite]))
      in (\<not> readopen p \<and> \<not> writeopen p, p, w))"

text \<open>The loop of \<^verbatim>\<open>pipewrite\<close> with \<open>m\<close> bytes to go, \<open>i\<close> already written.\<close>

primrec pipewrite_loop :: "nat \<Rightarrow> nat \<Rightarrow> kstate \<Rightarrow> u64 \<Rightarrow> u64 \<Rightarrow> (nat \<Rightarrow> bool) \<Rightarrow> pipe \<Rightarrow>
  (pipe_out \<times> pipe \<times> wchan list) res" where
  "pipewrite_loop 0 i s pagetable addr killed p = Ok (Returned (int i), p, [NRead])"
| "pipewrite_loop (Suc m) i s pagetable addr killed p =
     (if \<not> readopen p \<or> killed i then Ok (Returned (- 1), p, [])
      else if nwrite p = nread p + of_nat PIPESIZE then Ok (Sleeping NWrite i, p, [NRead])
      else rbind (copyin s pagetable (\<lambda>_. 0) 0 (addr + of_nat i) 1) (\<lambda>(r, ch).
        if r = - 1 then Ok (Returned (int i), p, [NRead])
        else pipewrite_loop m (Suc i) s pagetable addr killed (pipe_put (ch 0) p)))"

definition pipewrite :: "kstate \<Rightarrow> u64 \<Rightarrow> u64 \<Rightarrow> int \<Rightarrow> nat \<Rightarrow> (nat \<Rightarrow> bool) \<Rightarrow> pipe \<Rightarrow>
  (pipe_out \<times> pipe \<times> wchan list) res" where
  "pipewrite s pagetable addr n i killed p = pipewrite_loop (nat n - i) i s pagetable addr killed p"

primrec piperead_copy :: "nat \<Rightarrow> nat \<Rightarrow> kstate \<Rightarrow> u64 \<Rightarrow> u64 \<Rightarrow> pipe \<Rightarrow> (nat \<times> pipe \<times> kstate) res" where
  "piperead_copy 0 i s pagetable addr p = Ok (i, p, s)"
| "piperead_copy (Suc m) i s pagetable addr p =
     (if nread p = nwrite p then Ok (i, p, s)
      else case pipe_get p of (ch, p) \<Rightarrow>
        rbind (copyout s pagetable (addr + of_nat i) (\<lambda>_. ch) 1) (\<lambda>(r, s).
          if r = - 1 then Ok (i, p, s) else piperead_copy m (Suc i) s pagetable addr p))"

definition piperead :: "kstate \<Rightarrow> u64 \<Rightarrow> u64 \<Rightarrow> int \<Rightarrow> bool \<Rightarrow> pipe \<Rightarrow>
  (pipe_out \<times> pipe \<times> kstate \<times> wchan list) res" where
  "piperead s pagetable addr n killed p =
     (if nread p = nwrite p \<and> writeopen p
      then if killed then Ok (Returned (- 1), p, s, []) else Ok (Sleeping NRead 0, p, s, [])
      else rbind (piperead_copy (nat n) 0 s pagetable addr p) (\<lambda>(i, p, s).
        Ok (Returned (int i), p, s, [NWrite])))"

section \<open>The pipe as a queue\<close>

definition pipe_cont :: "pipe \<Rightarrow> u8 list" where
  "pipe_cont p = ring_contents (data p) (nread p) (nwrite p)"

definition pipe_inv :: "pipe \<Rightarrow> bool" where
  "pipe_inv p \<longleftrightarrow> ring_ok PIPESIZE (data p) (nread p) (nwrite p)"

text \<open>
  One writer and one reader: whether each sleeps, the call the writer is in the middle of, the bytes of the writer's
  memory whose transfer its calls have reported, and the bytes the reader has consumed. A reader's byte counts
  as it is found in the reader's memory after the call, except one that \<^verbatim>\<open>piperead\<close> took out of the pipe and then could
  not store. \<open>cut\<close> says that a writer was killed in the middle of its loop and left bytes behind without
  waking the reader. Waking may come at any time, as when a sleeping process is killed.
\<close>

record psys =
  pipe_of :: pipe
  wasleep :: bool
  rasleep :: bool
  wcall :: "(u64 \<times> u64 \<times> int \<times> nat) option"
  sent :: "u8 list"
  taken :: "u8 list"
  cut :: bool

abbreviation user_bytes :: "mem \<Rightarrow> u64 \<Rightarrow> u64 \<Rightarrow> nat \<Rightarrow> nat \<Rightarrow> u8 list" where
  "user_bytes m pt addr i j \<equiv> map (\<lambda>k. user_byte m pt (addr + of_nat k)) [i..<j]"

text \<open>How far a writing call got: what it reports, or the number of bytes stored if it returns \<open>- 1\<close>.\<close>

definition reported :: "nat \<Rightarrow> pipe_out \<Rightarrow> pipe \<Rightarrow> pipe \<Rightarrow> nat" where
  "reported i out p p' =
     (case out of
        Returned r \<Rightarrow> if r = - 1 then i + unat (nwrite p' - nwrite p) else nat r
      | Sleeping ch k \<Rightarrow> k)"

text \<open>The bytes a reading call that returned \<open>r\<close> took out of the pipe: those it stored, and one it dropped.\<close>

definition consumed :: "mem \<Rightarrow> u64 \<Rightarrow> u64 \<Rightarrow> pipe_out \<Rightarrow> pipe \<Rightarrow> pipe \<Rightarrow> u8 list" where
  "consumed m pt addr out p p' =
     (case out of
        Returned r \<Rightarrow> user_bytes m pt addr 0 (nat r) @
          map (\<lambda>k. data p ! (unat (nread p + of_nat k) mod PIPESIZE)) [nat r..<unat (nread p' - nread p)]
      | Sleeping ch k \<Rightarrow> [])"

text \<open>A buffer of \<open>n\<close> bytes whose first \<open>k\<close> can be written, each to a byte of its own outside the page tables.\<close>

definition buffer_ok :: "mem \<Rightarrow> u64 \<Rightarrow> u64 \<Rightarrow> nat \<Rightarrow> nat \<Rightarrow> bool" where
  "buffer_ok m pt addr n k \<longleftrightarrow> k \<le> n \<and> user_mapped m pt addr k \<and> user_private m pt addr k \<and>
     (k < n \<longrightarrow> \<not> user_mapped m pt (addr + of_nat k) 1)"

definition apply_wakes :: "wchan list \<Rightarrow> psys \<Rightarrow> psys" where
  "apply_wakes ws c = c\<lparr>rasleep := rasleep c \<and> NRead \<notin> set ws, wasleep := wasleep c \<and> NWrite \<notin> set ws,
     cut := cut c \<and> NRead \<notin> set ws\<rparr>"

inductive pipe_step :: "psys \<Rightarrow> psys \<Rightarrow> bool" where
  writes: "\<lbrakk>\<not> wasleep c; wcall c = None \<and> i = 0 \<or> wcall c = Some (pt, addr, n, i); wf_pt s pt;
            pipewrite s pt addr n i killed (pipe_of c) = Ok (out, p, ws)\<rbrakk> \<Longrightarrow>
     pipe_step c (apply_wakes ws (c\<lparr>pipe_of := p, wasleep := (\<exists>k. out = Sleeping NWrite k),
       wcall := (case out of Sleeping ch k \<Rightarrow> Some (pt, addr, n, k) | _ \<Rightarrow> None),
       sent := sent c @ user_bytes (ram s) pt addr i (reported i out (pipe_of c) p),
       cut := cut c \<or> out = Returned (- 1) \<and> p \<noteq> pipe_of c\<rparr>))"
| reads: "\<lbrakk>\<not> rasleep c; wf_pt s pt; buffer_ok (ram s) pt addr (nat n) k;
           piperead s pt addr n killed (pipe_of c) = Ok (out, p, s', ws)\<rbrakk> \<Longrightarrow>
     pipe_step c (apply_wakes ws (c\<lparr>pipe_of := p, rasleep := (\<exists>k. out = Sleeping NRead k),
       taken := taken c @ consumed (ram s') pt addr out (pipe_of c) p\<rparr>))"
| closes: "pipeclose (pipe_of c) wr = (fre, p, ws) \<Longrightarrow>
     pipe_step c (apply_wakes ws (c\<lparr>pipe_of := p\<rparr>))"
| wakes_w: "pipe_step c (c\<lparr>wasleep := False\<rparr>)"
| wakes_r: "pipe_step c (c\<lparr>rasleep := False\<rparr>)"

definition pipe_safe :: "psys \<Rightarrow> bool" where
  "pipe_safe c \<longleftrightarrow> pipe_inv (pipe_of c) \<and> sent c = taken c @ pipe_cont (pipe_of c) \<and>
     (wasleep c \<longrightarrow> length (pipe_cont (pipe_of c)) = PIPESIZE \<and> readopen (pipe_of c) \<and> \<not> rasleep c) \<and>
     (rasleep c \<longrightarrow> writeopen (pipe_of c) \<and> (pipe_cont (pipe_of c) = [] \<or> cut c))"

definition psys_init :: "u8 list \<Rightarrow> psys" where
  "psys_init junk = \<lparr>pipe_of = pipe_new junk, wasleep = False, rasleep = False, wcall = None, sent = [], taken = [], cut = False\<rparr>"

section \<open>The ring of a pipe\<close>

interpretation pq: bounded_fifo pipe_put pipe_get pipe_cont pipe_inv PIPESIZE
proof
  fix p ch
  assume p: "pipe_inv p"
  then have ok: "ring_ok PIPESIZE (data p) (nread p) (nwrite p)" by (simp add: pipe_inv_def)
  show "length (pipe_cont p) \<le> PIPESIZE" using ok by (simp add: pipe_cont_def ring_length ring_ok_def)
  show "pipe_inv (pipe_put ch p)" "pipe_cont (pipe_put ch p) = pipe_cont p @ [ch]"
    if "length (pipe_cont p) < PIPESIZE"
    using ring_put [OF ok, of ch] that by (simp_all add: pipe_inv_def pipe_cont_def pipe_put_def ring_length)
  show "pipe_inv (snd (pipe_get p))" "pipe_cont p = fst (pipe_get p) # pipe_cont (snd (pipe_get p))"
    if "pipe_cont p \<noteq> []"
    using ring_get [OF ok] that by (simp_all add: pipe_inv_def pipe_cont_def pipe_get_def ring_empty)
qed

lemma pipe_full:
  "pipe_inv p \<Longrightarrow> nwrite p = nread p + of_nat PIPESIZE \<longleftrightarrow> length (pipe_cont p) = PIPESIZE"
  unfolding pipe_cont_def ring_length by (rule ring_full) (simp add: PIPESIZE_def)

lemma pipe_empty: "nread p = nwrite p \<longleftrightarrow> pipe_cont p = []"
  by (auto simp: pipe_cont_def ring_empty)

lemma pipe_not_full: "pipe_inv p \<Longrightarrow> length (pipe_cont p) \<noteq> PIPESIZE \<Longrightarrow> length (pipe_cont p) < PIPESIZE"
  using pq.cont_bound by (simp add: nat_less_le)

lemma pipe_new_inv: "length junk = PIPESIZE \<Longrightarrow> pipe_inv (pipe_new junk)"
  by (simp add: pipe_inv_def pipe_new_def ring_ok_def PIPESIZE_def)

lemma pipe_new_empty: "pipe_cont (pipe_new junk) = []"
  by (simp add: pipe_new_def flip: pipe_empty)

lemma pipe_put_ends [simp]: "readopen (pipe_put ch p) = readopen p" "writeopen (pipe_put ch p) = writeopen p"
  by (simp_all add: pipe_put_def)

lemma pipe_get_ends [simp]: "readopen (snd (pipe_get p)) = readopen p" "writeopen (snd (pipe_get p)) = writeopen p"
  by (simp_all add: pipe_get_def)

section \<open>Copying one byte\<close>

lemma walkaddr_unmapped:
  assumes "wf_pt s root" "\<not> user_mapped (ram s) root va 1"
  shows "walkaddr s root (PGROUNDDOWN va) = Ok 0"
proof (cases "va < MAXVA")
  case True
  then have "unat va + 1 \<le> 2 ^ 38" by (simp add: word_less_nat_alt MAXVA_val)
  then have "\<not> (let v = lookup (ram s) root va in bit v 0 \<and> bit v 4 \<and> PTE2PA v \<noteq> 0)"
    using assms(2) unfolding user_mapped_def by (auto simp: Let_def)
  then show ?thesis
    using walkaddr_lookup [OF assms(1) PGROUNDDOWN_va(1) [OF True]] PGROUNDDOWN_va(3) [OF True] by (auto simp: Let_def)
next
  case False
  then have "\<not> PGROUNDDOWN va < MAXVA" using same_page_less [of va "PGROUNDDOWN va"] PGROUNDDOWN_page [OF aligned_PGROUNDDOWN, of 0 va] by auto
  then show ?thesis by (simp add: walkaddr_def not_less)
qed

lemma copyin_one:
  assumes "wf_pt s root" "copyin s root (\<lambda>_. 0) 0 va 1 = Ok (r, ch)" "r \<noteq> - 1"
  shows "ch 0 = user_byte (ram s) root va"
proof -
  have "user_mapped (ram s) root va 1"
  proof (rule ccontr)
    assume "\<not> user_mapped (ram s) root va 1"
    then have "copyin s root (\<lambda>_. 0) 0 va 1 = Ok (- 1, \<lambda>_. 0)"
      using walkaddr_unmapped [OF assms(1)] by (subst copyin.simps) simp
    then show False using assms(2,3) by simp
  qed
  then show ?thesis using copyin_spec [OF assms(1), of va 1 "\<lambda>_. 0" 0] assms(2) by (auto simp: unat_1)
qed

lemma copyout_unmapped:
  assumes "wf_pt s root" "\<not> user_mapped (ram s) root va 1"
  shows "copyout s root va src 1 = Ok (- 1, s)"
  using walkaddr_unmapped [OF assms] by (subst copyout.simps) simp

section \<open>What a call does to the queue\<close>

definition wrote :: "nat \<Rightarrow> pipe \<Rightarrow> pipe_out \<Rightarrow> pipe \<Rightarrow> wchan list \<Rightarrow> u8 list \<Rightarrow> bool" where
  "wrote i p out p' ws new \<longleftrightarrow>
     pipe_inv p' \<and> pipe_cont p' = pipe_cont p @ new \<and> nwrite p' = nwrite p + of_nat (length new) \<and> (new = [] \<longrightarrow> p' = p) \<and>
     readopen p' = readopen p \<and> writeopen p' = writeopen p \<and> NWrite \<notin> set ws \<and>
     (case out of
        Returned r \<Rightarrow> r = - 1 \<or> r = int (i + length new) \<and> NRead \<in> set ws
      | Sleeping ch k \<Rightarrow> ch = NWrite \<and> k = i + length new \<and> length (pipe_cont p') = PIPESIZE \<and>
          NRead \<in> set ws \<and> readopen p)"

lemma pipewrite_loop_wrote:
  assumes "pipe_inv p" "wf_pt s pt" "pipewrite_loop m i s pt addr killed p = Ok (out, p', ws)"
  shows "\<exists>k. wrote i p out p' ws (user_bytes (ram s) pt addr i (i + k))"
  using assms
proof (induction m arbitrary: i p)
  case 0
  then have "wrote i p out p' ws (user_bytes (ram s) pt addr i (i + 0))" by (auto simp: wrote_def)
  then show ?case ..
next
  case (Suc m)
  have stop: "\<exists>k. wrote i p out p' ws (user_bytes (ram s) pt addr i (i + k))" if "wrote i p out p' ws []"
    using that by (intro exI [of _ 0]) simp
  note full = pipe_full [OF Suc.prems(1)]
  consider (refuse) "\<not> readopen p \<or> killed i"
    | (full) "readopen p" "\<not> killed i" "length (pipe_cont p) = PIPESIZE"
    | (room) "readopen p" "\<not> killed i" "length (pipe_cont p) \<noteq> PIPESIZE" by blast
  then show ?case
  proof cases
    case refuse
    then show ?thesis using Suc.prems by (intro stop) (auto simp: wrote_def)
  next
    case full
    then show ?thesis using Suc.prems pipe_full [OF Suc.prems(1)] by (intro stop) (auto simp: wrote_def)
  next
    case room
    obtain r ch where c: "copyin s pt (\<lambda>_. 0) 0 (addr + of_nat i) 1 = Ok (r, ch)"
      using Suc.prems(3) room full by (auto simp: rbind_eq_Ok)
    show ?thesis
    proof (cases "r = - 1")
      case True
      then show ?thesis using Suc.prems room c full by (intro stop) (auto simp: wrote_def)
    next
      case False
      have lt: "length (pipe_cont p) < PIPESIZE" by (rule pipe_not_full [OF Suc.prems(1) room(3)])
      have ch: "ch 0 = user_byte (ram s) pt (addr + of_nat i)" by (rule copyin_one [OF Suc.prems(2) c False])
      have "pipewrite_loop m (Suc i) s pt addr killed (pipe_put (ch 0) p) = Ok (out, p', ws)"
        using Suc.prems room c False full by simp
      from Suc.IH [OF pq.inv_put [OF Suc.prems(1) lt] Suc.prems(2) this]
      obtain k where k: "wrote (Suc i) (pipe_put (ch 0) p) out p' ws (user_bytes (ram s) pt addr (Suc i) (Suc i + k))" ..
      have b: "user_bytes (ram s) pt addr i (i + Suc k) = ch 0 # user_bytes (ram s) pt addr (Suc i) (Suc i + k)"
        by (subst upt_conv_Cons) (simp_all add: ch)
      have "nwrite (pipe_put (ch 0) p) = nwrite p + 1" by (simp add: pipe_put_def)
      then have "wrote i p out p' ws (user_bytes (ram s) pt addr i (i + Suc k))"
        using k room pq.cont_put [OF Suc.prems(1) lt] unfolding b by (auto simp: wrote_def split: pipe_out.splits)
      then show ?thesis ..
    qed
  qed
qed

lemma piperead_copy_took:
  assumes "pipe_inv p" "piperead_copy m i s pt addr p = Ok (k, p', s')"
  shows "pipe_inv p' \<and> (\<exists>old. pipe_cont p = old @ pipe_cont p' \<and> k \<le> i + length old) \<and> readopen p' = readopen p \<and> writeopen p' = writeopen p \<and>
    data p' = data p \<and> nwrite p' = nwrite p"
  using assms
proof (induction m arbitrary: i p s)
  case (Suc m)
  show ?case
  proof (cases "pipe_cont p = []")
    case False
    obtain ch p1 where g: "pipe_get p = (ch, p1)" by (cases "pipe_get p")
    note G = pq.inv_get [OF Suc.prems(1) False] pq.cont_get [OF Suc.prems(1) False] pipe_get_ends [of p]
    have "piperead_copy (Suc m) i s pt addr p = Ok (k, p', s')" by fact
    then obtain r s1 where "copyout s pt (addr + of_nat i) (\<lambda>_. ch) 1 = Ok (r, s1)"
      and "(if r = - 1 then Ok (i, p1, s1) else piperead_copy m (Suc i) s1 pt addr p1) = Ok (k, p', s')"
      using False g by (auto simp: pipe_empty rbind_eq_Ok)
    then have "p' = p1 \<and> k = i \<or> piperead_copy m (Suc i) s1 pt addr p1 = Ok (k, p', s')" by (auto split: if_splits)
    then have "pipe_inv p' \<and> (\<exists>old. pipe_cont p1 = old @ pipe_cont p' \<and> k \<le> Suc i + length old) \<and>
        readopen p' = readopen p1 \<and> writeopen p' = writeopen p1 \<and> data p' = data p1 \<and> nwrite p' = nwrite p1"
      using Suc.IH [of p1 "Suc i"] G g by auto
    then obtain old where "pipe_cont p1 = old @ pipe_cont p'" "k \<le> Suc i + length old" "pipe_inv p'"
      "readopen p' = readopen p1" "writeopen p' = writeopen p1" "data p' = data p1" "nwrite p' = nwrite p1" by blast
    moreover have "data p1 = data p" "nwrite p1 = nwrite p" using g by (auto simp: pipe_get_def)
    ultimately show ?thesis using G g by (auto intro!: exI [of _ "ch # old"])
  next
    case True
    then show ?thesis using Suc.prems by (auto simp: pipe_empty)
  qed
qed simp

section \<open>From one address space to another\<close>

lemma copyin_byte:
  assumes "wf_pt s root" "user_mapped (ram s) root va len" "i < len"
  shows "\<exists>ch. copyin s root (\<lambda>_. 0) 0 (va + of_nat i) 1 = Ok (0, ch) \<and> ch 0 = user_byte (ram s) root (va + of_nat i)"
  using copyin_spec [OF assms(1), of "va + of_nat i" 1 "\<lambda>_. 0" 0] mapped_one [OF assms(2,3)]
  by (simp add: unat_1)

lemma pipewrite_loop_spec:
  assumes "wf_pt s root" "user_mapped (ram s) root addr len" "i + m \<le> len"
    and "pipe_inv p" "readopen p" "room = PIPESIZE - length (pipe_cont p)"
  shows "\<exists>p'. pipewrite_loop m i s root addr (\<lambda>_. False) p =
      Ok (if m \<le> room then Returned (int (i + m)) else Sleeping NWrite (i + room), p', [NRead]) \<and>
    pipe_inv p' \<and> writeopen p' = writeopen p \<and>
    pipe_cont p' = pipe_cont p @ map (\<lambda>j. user_byte (ram s) root (addr + of_nat j)) [i..<i + min m room]"
  using assms(3-)
proof (induction m arbitrary: i p room)
  case (Suc m)
  show ?case
  proof (cases "length (pipe_cont p) = PIPESIZE")
    case True
    then show ?thesis using Suc.prems pipe_full [OF Suc.prems(2)] by auto
  next
    case False
    have lt: "length (pipe_cont p) < PIPESIZE" by (rule pipe_not_full [OF Suc.prems(2) False])
    obtain ch where ch: "copyin s root (\<lambda>_. 0) 0 (addr + of_nat i) 1 = Ok (0, ch)"
      "ch 0 = user_byte (ram s) root (addr + of_nat i)"
      using copyin_byte [OF assms(1,2), of i] Suc.prems(1) by auto
    have step: "pipewrite_loop (Suc m) i s root addr (\<lambda>_. False) p = pipewrite_loop m (Suc i) s root addr (\<lambda>_. False) (pipe_put (ch 0) p)"
      using Suc.prems(2,3) False ch(1) pipe_full [OF Suc.prems(2)] by simp
    note P = pq.inv_put [OF Suc.prems(2) lt] pq.cont_put [OF Suc.prems(2) lt]
    obtain room' where room: "room = Suc room'" "room' = PIPESIZE - length (pipe_cont (pipe_put (ch 0) p))"
      using lt P(2) Suc.prems(4) by (cases room) auto
    from Suc.IH [OF _ P(1) _ room(2), of "Suc i"] Suc.prems(1,3) obtain p' where
      p': "pipewrite_loop m (Suc i) s root addr (\<lambda>_. False) (pipe_put (ch 0) p) =
        Ok (if m \<le> room' then Returned (int (Suc i + m)) else Sleeping NWrite (Suc i + room'), p', [NRead])"
      "pipe_inv p'" "writeopen p' = writeopen p"
      "pipe_cont p' = pipe_cont (pipe_put (ch 0) p) @
        map (\<lambda>j. user_byte (ram s) root (addr + of_nat j)) [Suc i..<Suc i + min m room']" by auto
    have "[i..<i + min (Suc m) room] = i # [Suc i..<Suc i + min m room']"
      unfolding room(1) by (subst upt_conv_Cons) auto
    then show ?thesis using step p' P(2) ch(2) room(1) by auto
  qed
qed simp

lemma piperead_copy_spec:
  assumes "wf_pt s root" "user_mapped (ram s) root addr len" "user_private (ram s) root addr len"
    and "i + m \<le> len" "pipe_inv p" "k = min m (length (pipe_cont p))"
  shows "\<exists>p' m'. piperead_copy m i s root addr p = Ok (i + k, p', s\<lparr>ram := m'\<rparr>) \<and> pipe_inv p' \<and>
    pipe_cont p' = drop k (pipe_cont p) \<and>
    stored_at (ram s) root (addr + of_nat i) (\<lambda>j. pipe_cont p ! j) k m'"
  using assms
proof (induction m arbitrary: i p s k)
  case 0
  then have "stored_at (ram s) root (addr + of_nat i) (\<lambda>j. pipe_cont p ! j) k (ram s)" by (simp add: stored_at_def)
  then show ?case using 0 by (intro exI [of _ p] exI [of _ "ram s"]) simp
next
  case (Suc m)
  show ?case
  proof (cases "pipe_cont p = []")
    case True
    then have "stored_at (ram s) root (addr + of_nat i) (\<lambda>j. pipe_cont p ! j) k (ram s)"
      using Suc.prems(6) by (simp add: stored_at_def)
    then show ?thesis using Suc.prems True by (intro exI [of _ p] exI [of _ "ram s"]) (simp add: pipe_empty)
  next
    case False
    obtain ch p1 where g: "pipe_get p = (ch, p1)" by (cases "pipe_get p")
    have G: "pipe_inv p1" "pipe_cont p = ch # pipe_cont p1"
      using pq.inv_get [OF Suc.prems(5) False] pq.cont_get [OF Suc.prems(5) False] g by simp_all
    have i: "i \<le> len" "i < len" using Suc.prems(4) by simp_all
    note um = mapped_one [OF Suc.prems(2) i(2)] private_one [OF Suc.prems(3) i(2)]
    obtain m1 where m1: "copyout s root (addr + of_nat i) (\<lambda>_. ch) 1 = Ok (0, s\<lparr>ram := m1\<rparr>)"
      "stored_at (ram s) root (addr + of_nat i) (\<lambda>_. ch) 1 m1"
      using copyout_spec [OF Suc.prems(1), of "addr + of_nat i" 1] um by (auto simp: unat_1)
    note K = stored_at_keeps [OF Suc.prems(1) um(2) m1(2)]
    obtain k1 where k: "k = Suc k1" "k1 = min m (length (pipe_cont p1))" using Suc.prems(6) G(2) by simp
    from Suc.IH [of "s\<lparr>ram := m1\<rparr>" "Suc i" p1, OF K(1) _ _ _ G(1) k(2)] Suc.prems(2,3,4) K(3,4)
    obtain p' m' where r: "piperead_copy m (Suc i) (s\<lparr>ram := m1\<rparr>) root addr p1 = Ok (Suc i + k1, p', s\<lparr>ram := m'\<rparr>)"
      "pipe_inv p'" "pipe_cont p' = drop k1 (pipe_cont p1)"
      "stored_at m1 root (addr + of_nat i + of_nat 1) (\<lambda>j. pipe_cont p1 ! j) k1 m'" by (auto simp: algebra_simps)
    have "stored_at (ram s) root (addr + of_nat i) (\<lambda>j. pipe_cont p ! j) (Suc k1) m'"
    proof -
      have d: "len - i = Suc k1 + (len - i - Suc k1)" using k(2) Suc.prems(4) by simp
      note ud = user_mapped_drop [OF Suc.prems(2) i(1)] user_private_drop [OF Suc.prems(3) i(1)]
      have "user_mapped (ram s) root (addr + of_nat i) (Suc k1)" "user_private (ram s) root (addr + of_nat i) (Suc k1)"
        using ud d user_mapped_take user_private_take by (metis le_add1)+
      from stored_at_cons [OF Suc.prems(1) this m1(2)] r(4)
      have "stored_at (ram s) root (addr + of_nat i) (case_nat ch (\<lambda>j. pipe_cont p1 ! j)) (Suc k1) m'" by simp
      moreover have "case_nat ch (\<lambda>j. pipe_cont p1 ! j) = (\<lambda>j. pipe_cont p ! j)"
        using G(2) by (auto simp: fun_eq_iff split: nat.splits)
      ultimately show ?thesis by simp
    qed
    then show ?thesis using r m1(1) False g k(1) G(2) by (auto simp: pipe_empty)
  qed
qed

lemma pipe_transfer:
  assumes "wf_pt s wroot" "user_mapped (ram s) wroot a n" "wf_pt s rroot" "user_mapped (ram s) rroot b n"
    and "user_private (ram s) rroot b n" "pipe_inv p" "readopen p" "pipe_cont p = []" "0 < n" "n \<le> PIPESIZE"
  shows "\<exists>p1 p2 s'. pipewrite s wroot a (int n) 0 (\<lambda>_. False) p = Ok (Returned (int n), p1, [NRead]) \<and>
    piperead s rroot b (int n) False p1 = Ok (Returned (int n), p2, s', [NWrite]) \<and>
    pipe_inv p2 \<and> pipe_cont p2 = [] \<and>
    (\<forall>i < n. user_byte (ram s') rroot (b + of_nat i) = user_byte (ram s) wroot (a + of_nat i))"
proof -
  let ?bs = "map (\<lambda>j. user_byte (ram s) wroot (a + of_nat j)) [0..<n]"
  obtain p1 where p1: "pipewrite_loop n 0 s wroot a (\<lambda>_. False) p = Ok (Returned (int n), p1, [NRead])"
    "pipe_inv p1" "pipe_cont p1 = ?bs"
    using pipewrite_loop_spec [OF assms(1,2) _ assms(6,7) refl, of 0 n] assms(8,10) by (auto simp: min_def)
  have "n = min n (length (pipe_cont p1))" using p1(3) by simp
  from piperead_copy_spec [OF assms(3,4,5) _ p1(2) this, of 0] obtain p2 m' where
    r: "piperead_copy n 0 s rroot b p1 = Ok (n, p2, s\<lparr>ram := m'\<rparr>)" "pipe_inv p2"
      "pipe_cont p2 = []" "stored_at (ram s) rroot b (\<lambda>j. pipe_cont p1 ! j) n m'" using p1(3) by auto
  have "user_byte m' rroot (b + of_nat i) = user_byte (ram s) wroot (a + of_nat i)" if "i < n" for i
  proof -
    have "m' (user_addr (ram s) rroot (b + of_nat i)) = pipe_cont p1 ! i"
      using r(4) that unfolding stored_at_def by blast
    then show ?thesis
      using that p1(3) stored_at_keeps(2) [OF assms(3,5) r(4)] by (simp add: user_byte_def user_addr_def)
  qed
  moreover have "nread p1 \<noteq> nwrite p1" using p1(3) assms(9) by (simp add: pipe_empty)
  ultimately show ?thesis using p1(1) r by (simp add: pipewrite_def piperead_def)
qed


text \<open>Reading \<open>a + b\<close> bytes is reading \<open>a\<close> and, if they all came, \<open>b\<close> more.\<close>

lemma piperead_copy_split:
  "piperead_copy (a + b) i s pt addr p =
     rbind (piperead_copy a i s pt addr p) (\<lambda>(j, p, s). if j = i + a then piperead_copy b j s pt addr p else Ok (j, p, s))"
proof (induction a arbitrary: i s p)
  case (Suc a)
  show ?case
  proof (cases "nread p = nwrite p")
    case False
    obtain ch p1 where g: "pipe_get p = (ch, p1)" by (cases "pipe_get p")
    then show ?thesis using False Suc [of "Suc i"]
      by (cases "copyout s pt (addr + of_nat i) (\<lambda>_. ch) 1") auto
  qed simp
qed simp

lemma pipe_slots:
  assumes "pipe_inv p" "b \<le> length (pipe_cont p)"
  shows "map (\<lambda>k. data p ! (unat (nread p + of_nat k) mod PIPESIZE)) [a..<b] = drop a (take b (pipe_cont p))"
  using assms by (auto simp: pipe_inv_def ring_ok_def pipe_cont_def ring_contents_def take_map drop_map take_upt drop_upt)

lemma pipe_advance:
  assumes "nwrite p' = nwrite p" "length (pipe_cont p') \<le> length (pipe_cont p)"
  shows "unat (nread p' - nread p) = length (pipe_cont p) - length (pipe_cont p')"
proof -
  have l: "length (pipe_cont p) = unat (nwrite p - nread p)" "length (pipe_cont p') = unat (nwrite p - nread p')"
    using assms(1) by (simp_all add: pipe_cont_def ring_length)
  have "nread p' - nread p = (nwrite p - nread p) - (nwrite p - nread p')" by simp
  also have "unat \<dots> = unat (nwrite p - nread p) - unat (nwrite p - nread p')"
    using assms(2) l by (intro unat_sub) (simp add: word_le_nat_alt)
  finally show ?thesis using l by simp
qed

text \<open>What a read that gets past its waiting loop does: it delivers until the pipe or the buffer ends.\<close>

lemma piperead_copy_result:
  assumes "wf_pt s root" "buffer_ok (ram s) root addr n K" "pipe_inv p" "k = min K (length (pipe_cont p))"
  shows "\<exists>p' m'. piperead_copy n 0 s root addr p = Ok (k, p', s\<lparr>ram := m'\<rparr>) \<and>
    stored_at (ram s) root addr (\<lambda>j. pipe_cont p ! j) k m'"
proof -
  have B: "K \<le> n" "user_mapped (ram s) root addr K" "user_private (ram s) root addr K"
    "K < n \<longrightarrow> \<not> user_mapped (ram s) root (addr + of_nat K) 1" using assms(2) by (auto simp: buffer_ok_def)
  from piperead_copy_spec [OF assms(1) B(2,3) _ assms(3,4), of 0] obtain p1 m1 where
    r: "piperead_copy K 0 s root addr p = Ok (k, p1, s\<lparr>ram := m1\<rparr>)" "stored_at (ram s) root addr (\<lambda>j. pipe_cont p ! j) k m1"
    by auto
  have n: "n = K + (n - K)" using B(1) by simp
  have p: "piperead_copy n 0 s root addr p =
      (if k = K then piperead_copy (n - K) K (s\<lparr>ram := m1\<rparr>) root addr p1 else Ok (k, p1, s\<lparr>ram := m1\<rparr>))"
    by (subst n, subst piperead_copy_split) (simp add: r(1))
  show ?thesis
  proof (cases "k = K \<and> K < n")
    case False
    then have "piperead_copy n 0 s root addr p = Ok (k, p1, s\<lparr>ram := m1\<rparr>)" using p B(1) by auto
    then show ?thesis using r(2) by blast
  next
    case True
    then have "\<not> user_mapped m1 root (addr + of_nat K) 1" using B(3,4) stored_at_keeps(3) [OF assms(1) _ r(2)] by auto
    then have c: "copyout (s\<lparr>ram := m1\<rparr>) root (addr + of_nat K) src 1 = Ok (- 1, s\<lparr>ram := m1\<rparr>)" for src
      using copyout_unmapped stored_at_keeps(1) [OF assms(1) _ r(2)] B(3) True by simp
    obtain l where l: "n - K = Suc l" using True by (cases "n - K") auto
    have "\<exists>p'. piperead_copy n 0 s root addr p = Ok (k, p', s\<lparr>ram := m1\<rparr>)"
      using True unfolding p l by (auto simp: c split: prod.split)
    then show ?thesis using r(2) by blast
  qed
qed

lemma piperead_copy_consumed:
  assumes "wf_pt s root" "buffer_ok (ram s) root addr n K" "pipe_inv p" "piperead_copy n 0 s root addr p = Ok (r, p', s')"
  shows "consumed (ram s') root addr (Returned (int r)) p p' @ pipe_cont p' = pipe_cont p"
proof -
  define k where "k = min K (length (pipe_cont p))"
  obtain m' where m': "r = k" "s' = s\<lparr>ram := m'\<rparr>" "stored_at (ram s) root addr (\<lambda>j. pipe_cont p ! j) k m'"
    using piperead_copy_result [OF assms(1-3) k_def] assms(4) by auto
  obtain old where old: "pipe_cont p = old @ pipe_cont p'" "r \<le> length old" and w: "nwrite p' = nwrite p"
    using piperead_copy_took [OF assms(3,4)] by auto
  define d where "d = unat (nread p' - nread p)"
  have d: "d = length old" using pipe_advance [OF w] old by (simp add: d_def)
  have priv: "user_private (ram s) root addr k"
    using assms(2) user_private_take [of "ram s" root addr K k] by (simp add: buffer_ok_def k_def)
  have "user_byte m' root (addr + of_nat j) = pipe_cont p ! j" if "j < k" for j
  proof -
    have "m' (user_addr (ram s) root (addr + of_nat j)) = pipe_cont p ! j" using m'(3) that unfolding stored_at_def by blast
    then show ?thesis using stored_at_keeps(2) [OF assms(1) priv m'(3)] by (simp add: user_byte_def user_addr_def)
  qed
  then have b: "user_bytes (ram s') root addr 0 r = take k (pipe_cont p)"
    unfolding m'(1,2) by (intro nth_equalityI) (auto simp: k_def)
  have "k \<le> d" using old(2) d m'(1) by simp
  then have "consumed (ram s') root addr (Returned (int r)) p p' = take d (pipe_cont p)"
    using pipe_slots [OF assms(3), of d k] b old d m'(1) unfolding consumed_def
    by (simp add: d_def [symmetric])
  then show ?thesis using old d by simp
qed

section \<open>Writer and reader together\<close>

lemma pipeclose_pipe:
  assumes "pipeclose p wr = (fre, p', ws)"
  shows "pipe_inv p' = pipe_inv p" "pipe_cont p' = pipe_cont p"
    "wr \<Longrightarrow> readopen p' = readopen p \<and> NRead \<in> set ws" "\<not> wr \<Longrightarrow> writeopen p' = writeopen p \<and> NWrite \<in> set ws"
  using assms by (auto simp: pipeclose_def pipe_inv_def pipe_cont_def split: if_splits)

lemma apply_wakes_sel [simp]:
  "pipe_of (apply_wakes ws c) = pipe_of c" "sent (apply_wakes ws c) = sent c" "taken (apply_wakes ws c) = taken c"
  "wasleep (apply_wakes ws c) \<longleftrightarrow> wasleep c \<and> NWrite \<notin> set ws"
  "rasleep (apply_wakes ws c) \<longleftrightarrow> rasleep c \<and> NRead \<notin> set ws" "cut (apply_wakes ws c) \<longleftrightarrow> cut c \<and> NRead \<notin> set ws"
  by (simp_all add: apply_wakes_def)

text \<open>The number of bytes a writing call reports is the number it stored.\<close>

lemma wrote_reported:
  assumes "wrote i p out p' ws (user_bytes m pt addr i (i + k))" "k \<le> PIPESIZE"
  shows "reported i out p p' = i + k"
proof -
  have "unat (of_nat k :: u32) = k" using assms(2) by (simp add: unat_of_nat PIPESIZE_def take_bit_nat_eq_self)
  then show ?thesis using assms(1) by (auto simp: wrote_def reported_def nat_add_distrib split: pipe_out.splits)
qed

lemma writes_safe:
  assumes "pipe_safe c" "\<not> wasleep c" "wf_pt s pt" "pipewrite s pt addr n i killed (pipe_of c) = Ok (out, p, ws)"
  shows "pipe_safe (apply_wakes ws (c\<lparr>pipe_of := p, wasleep := (\<exists>k. out = Sleeping NWrite k), wcall := w,
       sent := sent c @ user_bytes (ram s) pt addr i (reported i out (pipe_of c) p),
       cut := cut c \<or> out = Returned (- 1) \<and> p \<noteq> pipe_of c\<rparr>))"
proof -
  have inv: "pipe_inv (pipe_of c)" using assms(1) by (simp add: pipe_safe_def)
  obtain k where k: "wrote i (pipe_of c) out p ws (user_bytes (ram s) pt addr i (i + k))"
    using pipewrite_loop_wrote [OF inv assms(3) assms(4) [unfolded pipewrite_def]] ..
  then have "length (pipe_cont p) = length (pipe_cont (pipe_of c)) + k" "pipe_inv p" by (simp_all add: wrote_def)
  then have "k \<le> PIPESIZE" using pq.cont_bound [of p] by simp
  from wrote_reported [OF k this] have r: "reported i out (pipe_of c) p = i + k" .
  show ?thesis using assms(1,2) k unfolding r
    by (auto simp: pipe_safe_def wrote_def split: pipe_out.splits)
qed

lemma reads_safe:
  assumes "pipe_safe c" "\<not> rasleep c" "wf_pt s pt" "buffer_ok (ram s) pt addr (nat n) k"
    "piperead s pt addr n killed (pipe_of c) = Ok (out, p, s', ws)"
  shows "pipe_safe (apply_wakes ws (c\<lparr>pipe_of := p, rasleep := (\<exists>k. out = Sleeping NRead k),
       taken := taken c @ consumed (ram s') pt addr out (pipe_of c) p\<rparr>))"
proof -
  have inv: "pipe_inv (pipe_of c)" using assms(1) by (simp add: pipe_safe_def)
  show ?thesis
  proof (cases "pipe_cont (pipe_of c) = [] \<and> writeopen (pipe_of c)")
    case True
    then show ?thesis using assms
      by (auto simp: pipe_safe_def piperead_def pipe_empty consumed_def PIPESIZE_def split: if_splits)
  next
    case False
    then obtain r where r: "piperead_copy (nat n) 0 s pt addr (pipe_of c) = Ok (r, p, s')" "out = Returned (int r)" "ws = [NWrite]"
      using assms(5) by (auto simp: piperead_def pipe_empty rbind_eq_Ok)
    note C = piperead_copy_consumed [OF assms(3,4) inv r(1)]
    have "pipe_inv p" "readopen p = readopen (pipe_of c)" "writeopen p = writeopen (pipe_of c)"
      using piperead_copy_took [OF inv r(1)] by blast+
    then show ?thesis using assms(1,2) r(2,3) C by (auto simp: pipe_safe_def)
  qed
qed

lemma pipe_step_safe:
  assumes "pipe_step c c'" "pipe_safe c"
  shows "pipe_safe c'"
  using assms
proof (induction rule: pipe_step.induct)
  case (writes c i pt addr n s killed out p ws)
  then show ?case using writes_safe by blast
next
  case (reads c s pt addr n k killed out p s' ws)
  then show ?case using reads_safe by blast
next
  case (closes c wr fre p ws)
  then show ?case using pipeclose_pipe [OF closes(1)] by (cases wr) (auto simp: pipe_safe_def)
qed (auto simp: pipe_safe_def)

lemma pipe_reachable_safe:
  assumes "pipe_step\<^sup>*\<^sup>* (psys_init junk) c" "length junk = PIPESIZE"
  shows "pipe_safe c"
  using assms
proof (induction rule: rtranclp_induct)
  case base
  then show ?case by (simp add: pipe_safe_def psys_init_def pipe_new_inv pipe_new_empty)
next
  case (step c c')
  then show ?case using pipe_step_safe by blast
qed

section \<open>Properties\<close>



text \<open>
  Up to \<^verbatim>\<open>PIPESIZE\<close> bytes that one process writes to an empty pipe arrive in the memory of the
  process that reads as many: both calls return the count, the pipe is empty again, and byte by byte
  the reader's buffer equals the writer's.
\<close>

lemma pipe_transfers_bytes:
  assumes "wf_pt s wroot" "user_mapped (ram s) wroot a n" "wf_pt s rroot" "user_mapped (ram s) rroot b n"
    and "user_private (ram s) rroot b n" "pipe_inv p" "readopen p" "pipe_cont p = []" "0 < n" "n \<le> PIPESIZE"
  shows "\<exists>p1 p2 s'. pipewrite s wroot a (int n) 0 (\<lambda>_. False) p = Ok (Returned (int n), p1, [NRead]) \<and>
    piperead s rroot b (int n) False p1 = Ok (Returned (int n), p2, s', [NWrite]) \<and>
    pipe_inv p2 \<and> pipe_cont p2 = [] \<and>
    (\<forall>i < n. user_byte (ram s') rroot (b + of_nat i) = user_byte (ram s) wroot (a + of_nat i))"
  by (rule pipe_transfer [OF assms])

end
