(* ===== verification/Uart.thy ===== *)
theory Uart
  imports Riscv Ring
begin

text \<open>
  \<^verbatim>\<open>kernel/uart.c\<close>: the 16550 driver's transmit half. The chip is not part of the sources, so what a
  register read returns is a parameter \<open>dev\<close>, the value seen by the \<open>k\<close>-th read of a register;
  register writes are recorded in order. A spin on the line status that never ends is \<open>None\<close>
  (\<open>wait_idle\<close>), and the endless loop after a panic is \<open>Blocked\<close>. \<^verbatim>\<open>uartintr\<close>, which calls the console,
  is in the console's theory.
\<close>

section \<open>Definitions\<close>

definition RHR :: nat where "RHR = 0"
definition THR :: nat where "THR = 0"
definition IER :: nat where "IER = 1"
definition IER_RX_ENABLE :: u8 where "IER_RX_ENABLE = push_bit 0 1"
definition IER_TX_ENABLE :: u8 where "IER_TX_ENABLE = push_bit 1 1"
definition FCR :: nat where "FCR = 2"
definition FCR_FIFO_ENABLE :: u8 where "FCR_FIFO_ENABLE = push_bit 0 1"
definition FCR_FIFO_CLEAR :: u8 where "FCR_FIFO_CLEAR = push_bit 1 3"
definition LCR :: nat where "LCR = 3"
definition LCR_EIGHT_BITS :: u8 where "LCR_EIGHT_BITS = push_bit 0 3"
definition LCR_BAUD_LATCH :: u8 where "LCR_BAUD_LATCH = push_bit 7 1"
definition LSR :: nat where "LSR = 5"
definition LSR_RX_READY :: u8 where "LSR_RX_READY = push_bit 0 1"
definition LSR_TX_IDLE :: u8 where "LSR_TX_IDLE = push_bit 5 1"

definition UART_TX_BUF_SIZE :: nat where "UART_TX_BUF_SIZE = 32"

record uart =
  uart_tx_buf :: "u8 list"
  uart_tx_w :: u64
  uart_tx_r :: u64
  panicked :: bool
  nreads :: nat
  reg_writes :: "(nat \<times> u8) list"

type_synonym device = "nat \<Rightarrow> nat \<Rightarrow> u8"

definition ReadReg :: "device \<Rightarrow> nat \<Rightarrow> uart \<Rightarrow> u8 \<times> uart" where
  "ReadReg dev reg u = (dev (nreads u) reg, u\<lparr>nreads := nreads u + 1\<rparr>)"

definition WriteReg :: "nat \<Rightarrow> u8 \<Rightarrow> uart \<Rightarrow> uart" where
  "WriteReg reg v u = u\<lparr>reg_writes := reg_writes u @ [(reg, v)]\<rparr>"

definition uartinit :: "uart \<Rightarrow> uart" where
  "uartinit u =
     (let u = WriteReg IER 0x00 u;
          u = WriteReg LCR LCR_BAUD_LATCH u;
          u = WriteReg 0 0x03 u;
          u = WriteReg 1 0x00 u;
          u = WriteReg LCR LCR_EIGHT_BITS u;
          u = WriteReg FCR (FCR_FIFO_ENABLE OR FCR_FIFO_CLEAR) u
      in WriteReg IER (IER_TX_ENABLE OR IER_RX_ENABLE) u)"

definition tx_put :: "u8 \<Rightarrow> uart \<Rightarrow> uart" where
  "tx_put c u = u\<lparr>uart_tx_buf := (uart_tx_buf u)[unat (uart_tx_w u) mod UART_TX_BUF_SIZE := c],
     uart_tx_w := uart_tx_w u + 1\<rparr>"

definition tx_get :: "uart \<Rightarrow> u8 \<times> uart" where
  "tx_get u = (uart_tx_buf u ! (unat (uart_tx_r u) mod UART_TX_BUF_SIZE), u\<lparr>uart_tx_r := uart_tx_r u + 1\<rparr>)"

text \<open>\<^verbatim>\<open>uartstart\<close> also says whether it woke the sleepers on \<^verbatim>\<open>&uart_tx_r\<close>.\<close>

function uartstart :: "device \<Rightarrow> uart \<Rightarrow> uart \<times> bool" where
  "uartstart dev u =
     (if uart_tx_w u = uart_tx_r u then (u, False)
      else case ReadReg dev LSR u of (lsr, u) \<Rightarrow>
        if lsr AND LSR_TX_IDLE = 0 then (u, False)
        else case tx_get u of (c, u) \<Rightarrow> (fst (uartstart dev (WriteReg THR c u)), True))"
  by pat_completeness auto

termination uartstart
  by (relation "measure (\<lambda>(dev, u). unat (uart_tx_w u - uart_tx_r u))")
    (auto simp: ReadReg_def tx_get_def WriteReg_def dest: ring_dist)

declare uartstart.simps [simp del]

text \<open>\<^verbatim>\<open>uartputc\<close>: whether it has to sleep for room (and will try again), and whether it woke anyone.\<close>

definition uartputc :: "device \<Rightarrow> u8 \<Rightarrow> uart \<Rightarrow> (bool \<times> uart \<times> bool) res" where
  "uartputc dev c u =
     (if panicked u then Blocked ''panicked''
      else if uart_tx_w u = uart_tx_r u + of_nat UART_TX_BUF_SIZE then Ok (True, u, False)
      else case uartstart dev (tx_put c u) of (u, wake) \<Rightarrow> Ok (False, u, wake))"

partial_function (option) wait_idle :: "device \<Rightarrow> uart \<Rightarrow> uart option" where
  "wait_idle dev u =
     (case ReadReg dev LSR u of (lsr, u) \<Rightarrow>
        if lsr AND LSR_TX_IDLE = 0 then wait_idle dev u else Some u)"

definition uartputc_sync :: "device \<Rightarrow> u8 \<Rightarrow> uart \<Rightarrow> uart res" where
  "uartputc_sync dev c u =
     (if panicked u then Blocked ''panicked''
      else case wait_idle dev u of None \<Rightarrow> Blocked ''uart busy'' | Some u \<Rightarrow> Ok (WriteReg THR c u))"

definition uartgetc :: "device \<Rightarrow> uart \<Rightarrow> int \<times> uart" where
  "uartgetc dev u =
     (case ReadReg dev LSR u of (lsr, u) \<Rightarrow>
        if lsr AND 0x01 \<noteq> 0 then (case ReadReg dev RHR u of (c, u) \<Rightarrow> (uint c, u))
        else (- 1, u))"

section \<open>The transmit queue\<close>

definition tx_cont :: "uart \<Rightarrow> u8 list" where
  "tx_cont u = ring_contents (uart_tx_buf u) (uart_tx_r u) (uart_tx_w u)"

definition tx_inv :: "uart \<Rightarrow> bool" where
  "tx_inv u \<longleftrightarrow> ring_ok UART_TX_BUF_SIZE (uart_tx_buf u) (uart_tx_r u) (uart_tx_w u)"

definition thr_bytes :: "uart \<Rightarrow> u8 list" where
  "thr_bytes u = map snd (filter (\<lambda>(reg, v). reg = THR) (reg_writes u))"

text \<open>Callers of \<^verbatim>\<open>uartputc\<close> and transmit interrupts in any order; a call that would sleep changes nothing.\<close>

datatype uart_op = PutC u8 | TxIntr

primrec run_uart :: "device \<Rightarrow> uart_op list \<Rightarrow> uart \<Rightarrow> u8 list \<times> uart" where
  "run_uart dev [] u = ([], u)"
| "run_uart dev (x # xs) u =
     (case x of
        PutC c \<Rightarrow>
          (case uartputc dev c u of
             Ok (False, u1, wake) \<Rightarrow> (case run_uart dev xs u1 of (acc, u2) \<Rightarrow> (c # acc, u2))
           | _ \<Rightarrow> run_uart dev xs u)
      | TxIntr \<Rightarrow> run_uart dev xs (fst (uartstart dev u)))"

section \<open>Lemmas\<close>

interpretation txq: bounded_fifo tx_put tx_get tx_cont tx_inv UART_TX_BUF_SIZE
proof
  fix u c
  assume u: "tx_inv u"
  then have ok: "ring_ok UART_TX_BUF_SIZE (uart_tx_buf u) (uart_tx_r u) (uart_tx_w u)" by (simp add: tx_inv_def)
  show "length (tx_cont u) \<le> UART_TX_BUF_SIZE" using ok by (simp add: tx_cont_def ring_length ring_ok_def)
  show "tx_inv (tx_put c u)" "tx_cont (tx_put c u) = tx_cont u @ [c]"
    if "length (tx_cont u) < UART_TX_BUF_SIZE"
    using ring_put [OF ok, of c] that by (simp_all add: tx_inv_def tx_cont_def tx_put_def ring_length)
  show "tx_inv (snd (tx_get u))" "tx_cont u = fst (tx_get u) # tx_cont (snd (tx_get u))"
    if "tx_cont u \<noteq> []"
    using ring_get [OF ok] that by (simp_all add: tx_inv_def tx_cont_def tx_get_def ring_empty)
qed

lemma tx_empty: "uart_tx_w u = uart_tx_r u \<longleftrightarrow> tx_cont u = []"
  by (auto simp: tx_cont_def ring_empty)

lemma tx_full:
  "tx_inv u \<Longrightarrow> uart_tx_w u = uart_tx_r u + of_nat UART_TX_BUF_SIZE \<longleftrightarrow> length (tx_cont u) = UART_TX_BUF_SIZE"
  unfolding tx_cont_def ring_length by (rule ring_full) (simp add: UART_TX_BUF_SIZE_def)

lemma ReadReg_sel [simp]:
  "tx_cont (snd (ReadReg dev reg u)) = tx_cont u" "tx_inv (snd (ReadReg dev reg u)) = tx_inv u"
  "reg_writes (snd (ReadReg dev reg u)) = reg_writes u" "panicked (snd (ReadReg dev reg u)) = panicked u"
  by (simp_all add: ReadReg_def tx_cont_def tx_inv_def)

lemma WriteReg_sel [simp]:
  "tx_cont (WriteReg reg c u) = tx_cont u" "tx_inv (WriteReg reg c u) = tx_inv u"
  "panicked (WriteReg reg c u) = panicked u"
  by (simp_all add: WriteReg_def tx_cont_def tx_inv_def)

lemma thr_bytes_simps [simp]:
  "thr_bytes (WriteReg THR c u) = thr_bytes u @ [c]" "thr_bytes (tx_put c u) = thr_bytes u"
  "thr_bytes (snd (tx_get u)) = thr_bytes u" "thr_bytes (snd (ReadReg dev reg u)) = thr_bytes u"
  by (simp_all add: thr_bytes_def WriteReg_def tx_put_def tx_get_def ReadReg_def)

text \<open>\<^verbatim>\<open>uartstart\<close> moves bytes from the queue to the chip in order, and stops only on an empty queue or a busy chip.\<close>

lemma uartstart_spec:
  assumes "tx_inv u" "uartstart dev u = (u', wake)"
  shows "tx_inv u' \<and> thr_bytes u' @ tx_cont u' = thr_bytes u @ tx_cont u \<and> panicked u' = panicked u \<and>
    (tx_cont u' = [] \<or> dev (nreads u' - 1) LSR AND LSR_TX_IDLE = 0) \<and> length (tx_cont u') \<le> length (tx_cont u) \<and>
    (wake \<longleftrightarrow> length (tx_cont u') < length (tx_cont u))"
  using assms
proof (induction dev u arbitrary: u' wake rule: uartstart.induct)
  case (1 dev u)
  show ?case
  proof (cases "uart_tx_w u = uart_tx_r u")
    case True
    then show ?thesis using "1.prems" by (subst (asm) uartstart.simps) (auto simp: tx_empty)
  next
    case False
    obtain lsr u1 where r: "ReadReg dev LSR u = (lsr, u1)" by (cases "ReadReg dev LSR u")
    have u1: "tx_inv u1" "tx_cont u1 = tx_cont u" "thr_bytes u1 = thr_bytes u" "panicked u1 = panicked u"
      using "1.prems"(1) r ReadReg_sel [of dev LSR u] thr_bytes_simps(4) [of dev LSR u] by simp_all
    have l: "lsr = dev (nreads u) LSR" "nreads u1 = Suc (nreads u)" using r by (auto simp: ReadReg_def)
    show ?thesis
    proof (cases "lsr AND LSR_TX_IDLE = 0")
      case True
      then have "u' = u1" "wake = False" using "1.prems"(2) False r by (subst (asm) uartstart.simps, simp)+
      then show ?thesis using True u1 l by simp
    next
      case idle: False
      obtain c u2 where g: "tx_get u1 = (c, u2)" by (cases "tx_get u1")
      have ne: "tx_cont u1 \<noteq> []" using False u1(2) by (simp add: tx_empty)
      have u2: "tx_inv u2" "tx_cont u1 = c # tx_cont u2" "thr_bytes u2 = thr_bytes u1" "panicked u2 = panicked u1"
        using txq.inv_get [OF u1(1) ne] txq.cont_get [OF u1(1) ne] thr_bytes_simps(3) [of u1] g
        by (auto simp: tx_get_def)
      obtain w where w: "uartstart dev (WriteReg THR c u2) = (u', w)" "wake = True"
        using "1.prems"(2) False idle r g by (subst (asm) uartstart.simps) (cases "uartstart dev (WriteReg THR c u2)", auto)
      from "1.IH" [OF False r [symmetric] idle g [symmetric] _ w(1)] u2(1)
      have I: "tx_inv u'" "thr_bytes u' @ tx_cont u' = thr_bytes u2 @ c # tx_cont u2" "panicked u' = panicked u2"
        "tx_cont u' = [] \<or> dev (nreads u' - 1) LSR AND LSR_TX_IDLE = 0" "length (tx_cont u') \<le> length (tx_cont u2)"
        by simp_all
      moreover have "length (tx_cont u) = Suc (length (tx_cont u2))" using u1(2) u2(2) by (metis length_Cons)
      ultimately show ?thesis using u1 u2 w(2) by auto
    qed
  qed
qed

lemma uartputc_spec:
  assumes "tx_inv u" "uartputc dev c u = Ok (asleep, u', wake)"
  shows "tx_inv u' \<and> thr_bytes u' @ tx_cont u' = thr_bytes u @ tx_cont u @ (if asleep then [] else [c]) \<and>
    (asleep \<longrightarrow> length (tx_cont u') = UART_TX_BUF_SIZE \<and> u' = u)"
proof (cases "length (tx_cont u) = UART_TX_BUF_SIZE")
  case True
  then show ?thesis using assms tx_full [OF assms(1)] by (auto simp: uartputc_def split: if_splits)
next
  case False
  then have lt: "length (tx_cont u) < UART_TX_BUF_SIZE" using txq.cont_bound [OF assms(1)] by simp
  have "uartstart dev (tx_put c u) = (u', wake)" "\<not> asleep"
    using assms False tx_full [OF assms(1)] by (auto simp: uartputc_def split: if_splits prod.splits)
  then show ?thesis
    using uartstart_spec [OF txq.inv_put [OF assms(1) lt]] txq.cont_put [OF assms(1) lt] by fastforce
qed

lemma run_uart_spec:
  assumes "tx_inv u" "run_uart dev xs u = (acc, u')"
  shows "tx_inv u' \<and> thr_bytes u' @ tx_cont u' = thr_bytes u @ tx_cont u @ acc"
  using assms
proof (induction xs arbitrary: u acc)
  case (Cons x xs)
  show ?case
  proof (cases x)
    case (PutC c)
    show ?thesis
    proof (cases "\<exists>u1 wake. uartputc dev c u = Ok (False, u1, wake)")
      case True
      then obtain u1 wake where p: "uartputc dev c u = Ok (False, u1, wake)" by blast
      with Cons.prems(2) PutC obtain acc1 where "run_uart dev xs u1 = (acc1, u')" "acc = c # acc1"
        by (auto split: prod.splits)
      then show ?thesis using Cons.IH [of u1 acc1] uartputc_spec [OF Cons.prems(1) p] by simp
    next
      case False
      then have "run_uart dev xs u = (acc, u')"
        using Cons.prems(2) PutC by (auto split: res.splits bool.splits)
      then show ?thesis using Cons.IH Cons.prems(1) by blast
    qed
  next
    case TxIntr
    obtain u1 wake where s: "uartstart dev u = (u1, wake)" by (cases "uartstart dev u")
    then show ?thesis
      using Cons.IH [of u1 acc] Cons.prems TxIntr uartstart_spec [OF Cons.prems(1) s] by simp
  qed
qed simp

text \<open>Polling ends as soon as the chip reports an idle transmitter.\<close>

lemma wait_idle_returns:
  assumes "dev (nreads u + k) LSR AND LSR_TX_IDLE \<noteq> 0"
  shows "\<exists>j \<le> k. wait_idle dev u = Some (u\<lparr>nreads := nreads u + j + 1\<rparr>)"
  using assms
proof (induction k arbitrary: u)
  case 0
  then show ?case by (subst wait_idle.simps) (simp add: ReadReg_def)
next
  case (Suc k)
  show ?case
  proof (cases "dev (nreads u) LSR AND LSR_TX_IDLE = 0")
    case True
    then obtain j where "j \<le> k" "wait_idle dev (u\<lparr>nreads := nreads u + 1\<rparr>) = Some (u\<lparr>nreads := nreads u + 1 + j + 1\<rparr>)"
      using Suc.IH [of "u\<lparr>nreads := nreads u + 1\<rparr>"] Suc.prems by auto
    then show ?thesis using True by (subst wait_idle.simps) (auto simp: ReadReg_def intro!: exI [of _ "Suc j"])
  next
    case False
    then show ?thesis by (subst wait_idle.simps) (auto simp: ReadReg_def intro!: exI [of _ 0])
  qed
qed

section \<open>Properties\<close>

definition uart_empty :: uart where
  "uart_empty = \<lparr>uart_tx_buf = replicate 32 0, uart_tx_w = 0, uart_tx_r = 0, panicked = False, nreads = 0, reg_writes = []\<rparr>"

lemma uart_empty_inv: "tx_inv uart_empty"
  by (simp add: tx_inv_def uart_empty_def ring_ok_def UART_TX_BUF_SIZE_def)

text \<open>
  C25. Whatever the chip answers and however calls of \<^verbatim>\<open>uartputc\<close> and transmit interrupts interleave,
  the bytes stored to the transmit register followed by those still buffered are the bytes
  \<^verbatim>\<open>uartputc\<close> accepted, in order, and the 32-byte ring never overflows.
\<close>

theorem uart_transmits_in_order:
  assumes "tx_inv u" "run_uart dev ops u = (accepted, u')"
  shows "thr_bytes u' @ tx_cont u' = thr_bytes u @ tx_cont u @ accepted \<and> length (tx_cont u') \<le> UART_TX_BUF_SIZE"
  using run_uart_spec [OF assms] txq.cont_bound by blast

theorem uart_transmits_in_order_witness:
  "\<exists>accepted u'. run_uart (\<lambda>k reg. if k = 0 then 0 else 0x20) [PutC 65, PutC 66, TxIntr] uart_empty = (accepted, u') \<and>
    thr_bytes u' @ tx_cont u' = [] @ accepted \<and> length (tx_cont u') \<le> 32"
proof -
  let ?d = "\<lambda>k (reg :: nat). if k = (0 :: nat) then (0 :: u8) else 0x20"
  obtain accepted u' where r: "run_uart ?d [PutC 65, PutC 66, TxIntr] uart_empty = (accepted, u')" by (cases "run_uart ?d [PutC 65, PutC 66, TxIntr] uart_empty")
  have "tx_cont uart_empty = []" "thr_bytes uart_empty = []"
    by (simp_all add: uart_empty_def thr_bytes_def flip: tx_empty)
  then show ?thesis using uart_transmits_in_order [OF uart_empty_inv r] r by (auto simp: UART_TX_BUF_SIZE_def)
qed

text \<open>
  \<^verbatim>\<open>uartputc_sync\<close> returns whenever the chip reports an idle transmitter at some later poll, after
  storing exactly its byte to the transmit register; the transmit ring is not touched.
\<close>

lemma uartputc_sync_returns:
  assumes "\<not> panicked u" "dev (nreads u + k) LSR AND LSR_TX_IDLE \<noteq> 0"
  shows "\<exists>j \<le> k. uartputc_sync dev c u = Ok (WriteReg THR c (u\<lparr>nreads := nreads u + j + 1\<rparr>))"
  using wait_idle_returns [of dev u k] assms by (auto simp: uartputc_sync_def)

end
