(* ===== verification/Console.thy ===== *)
theory Console
  imports Usercopy Uart
begin

text \<open>
  \<^verbatim>\<open>kernel/console.c\<close> and the interrupt handler of \<^verbatim>\<open>kernel/uart.c\<close>. The input buffer is a ring with three
  counters: bytes between \<^verbatim>\<open>r\<close> and \<^verbatim>\<open>w\<close> are complete input that \<^verbatim>\<open>consoleread\<close> may take, bytes between
  \<^verbatim>\<open>w\<close> and \<^verbatim>\<open>e\<close> are the line being edited. \<^verbatim>\<open>consoleintr\<close> is shown to refine the line discipline
  \<open>line_in\<close> on the pair of the two queues. What \<^verbatim>\<open>procdump\<close> prints is the argument \<open>dump\<close>.
\<close>

section \<open>Definitions\<close>

definition BACKSPACE :: int where "BACKSPACE = 0x100"

definition INPUT_BUF_SIZE :: nat where "INPUT_BUF_SIZE = 128"

definition ctrl :: "int \<Rightarrow> int" where "ctrl x = x - 64"

record cons =
  cons_buf :: "u8 list"
  cons_r :: u32
  cons_w :: u32
  cons_e :: u32

definition consputc :: "device \<Rightarrow> int \<Rightarrow> uart \<Rightarrow> uart res" where
  "consputc dev c u =
     (if c = BACKSPACE
      then rbind (uartputc_sync dev 8 u) (\<lambda>u. rbind (uartputc_sync dev 32 u) (\<lambda>u. uartputc_sync dev 8 u))
      else uartputc_sync dev (of_int c) u)"

primrec consputs :: "device \<Rightarrow> u8 list \<Rightarrow> uart \<Rightarrow> uart res" where
  "consputs dev [] u = Ok u"
| "consputs dev (c # cs) u = rbind (consputc dev (uint c) u) (\<lambda>u. consputs dev cs u)"

text \<open>
  \<^verbatim>\<open>consolewrite\<close> may sleep inside \<^verbatim>\<open>uartputc\<close>; \<open>i\<close> is the count so far, the first flag says whether it
  sleeps there (with byte \<open>i\<close> still to send) and the last whether it woke the sleepers on \<^verbatim>\<open>&uart_tx_r\<close>.
\<close>

primrec consolewrite_loop :: "nat \<Rightarrow> nat \<Rightarrow> device \<Rightarrow> kstate \<Rightarrow> u64 \<Rightarrow> bool \<Rightarrow> u64 \<Rightarrow> uart \<Rightarrow> bool \<Rightarrow> (bool \<times> nat \<times> uart \<times> bool) res" where
  "consolewrite_loop 0 i dev s pagetable user_src src u woke = Ok (False, i, u, woke)"
| "consolewrite_loop (Suc m) i dev s pagetable user_src src u woke =
     rbind (either_copyin s pagetable (\<lambda>_. 0) 0 user_src (src + of_nat i) 1) (\<lambda>(r, ch).
       if r = - 1 then Ok (False, i, u, woke)
       else rbind (uartputc dev (ch 0) u) (\<lambda>(asleep, u, wake).
         if asleep then Ok (True, i, u, woke)
         else consolewrite_loop m (Suc i) dev s pagetable user_src src u (woke \<or> wake)))"

definition consolewrite :: "device \<Rightarrow> kstate \<Rightarrow> u64 \<Rightarrow> bool \<Rightarrow> u64 \<Rightarrow> int \<Rightarrow> nat \<Rightarrow> uart \<Rightarrow> (bool \<times> nat \<times> uart \<times> bool) res" where
  "consolewrite dev s pagetable user_src src n i u = consolewrite_loop (nat n - i) i dev s pagetable user_src src u False"

text \<open>\<^verbatim>\<open>consoleread\<close>, with \<open>m\<close> bytes still wanted; when it sleeps it keeps its \<^verbatim>\<open>dst\<close> and \<^verbatim>\<open>n\<close>.\<close>

datatype cons_out = CReturned int | CSleeping u64 nat

primrec consoleread_loop :: "nat \<Rightarrow> nat \<Rightarrow> kstate \<Rightarrow> u64 \<Rightarrow> bool \<Rightarrow> u64 \<Rightarrow> bool \<Rightarrow> cons \<Rightarrow> (cons_out \<times> cons \<times> kstate) res" where
  "consoleread_loop 0 target s pagetable user_dst dst killed c = Ok (CReturned (int target), c, s)"
| "consoleread_loop (Suc m) target s pagetable user_dst dst killed c =
     (if cons_r c = cons_w c
      then if killed then Ok (CReturned (- 1), c, s) else Ok (CSleeping dst (Suc m), c, s)
      else let ch = cons_buf c ! (unat (cons_r c) mod INPUT_BUF_SIZE);
             c = c\<lparr>cons_r := cons_r c + 1\<rparr> in
        if uint ch = ctrl 68
        then Ok (CReturned (int target - int (Suc m)), if Suc m < target then c\<lparr>cons_r := cons_r c - 1\<rparr> else c, s)
        else rbind (either_copyout s pagetable user_dst dst (\<lambda>_. ch) 1) (\<lambda>(r, s).
          if r = - 1 then Ok (CReturned (int target - int (Suc m)), c, s)
          else if ch = 10 then Ok (CReturned (int target - int m), c, s)
          else consoleread_loop m target s pagetable user_dst (dst + 1) killed c))"

definition consoleread :: "kstate \<Rightarrow> u64 \<Rightarrow> bool \<Rightarrow> u64 \<Rightarrow> int \<Rightarrow> bool \<Rightarrow> cons \<Rightarrow> (cons_out \<times> cons \<times> kstate) res" where
  "consoleread s pagetable user_dst dst n killed c =
     consoleread_loop (nat n) (nat n) s pagetable user_dst dst killed c"

text \<open>The kill-line loop, and the input interrupt; the flag says that sleepers on \<^verbatim>\<open>&cons.r\<close> were woken.\<close>

function kill_line :: "device \<Rightarrow> cons \<Rightarrow> uart \<Rightarrow> (cons \<times> uart) res" where
  "kill_line dev c u =
     (if cons_e c \<noteq> cons_w c \<and> cons_buf c ! (unat (cons_e c - 1) mod INPUT_BUF_SIZE) \<noteq> 10
      then rbind (consputc dev BACKSPACE u) (\<lambda>u. kill_line dev (c\<lparr>cons_e := cons_e c - 1\<rparr>) u)
      else Ok (c, u))"
  by pat_completeness auto
termination kill_line
  by (relation "measure (\<lambda>(dev, c, u). unat (cons_e c - cons_w c))") (auto simp: ring_unput(2))

declare kill_line.simps [simp del]

definition consoleintr :: "device \<Rightarrow> u8 list \<Rightarrow> int \<Rightarrow> cons \<Rightarrow> uart \<Rightarrow> (cons \<times> uart \<times> bool) res" where
  "consoleintr dev dump ch c u =
     (if ch = ctrl 80 then rbind (consputs dev dump u) (\<lambda>u. Ok (c, u, False))
      else if ch = ctrl 85 then rbind (kill_line dev c u) (\<lambda>(c, u). Ok (c, u, False))
      else if ch = ctrl 72 \<or> ch = 0x7f
      then if cons_e c \<noteq> cons_w c
           then rbind (consputc dev BACKSPACE u) (\<lambda>u. Ok (c\<lparr>cons_e := cons_e c - 1\<rparr>, u, False))
           else Ok (c, u, False)
      else if ch \<noteq> 0 \<and> cons_e c - cons_r c < of_nat INPUT_BUF_SIZE
      then let ch = if ch = 13 then 10 else ch in
        rbind (consputc dev ch u) (\<lambda>u.
          let c = c\<lparr>cons_buf := (cons_buf c)[unat (cons_e c) mod INPUT_BUF_SIZE := of_int ch], cons_e := cons_e c + 1\<rparr> in
          if ch = 10 \<or> ch = ctrl 68 \<or> cons_e c - cons_r c = of_nat INPUT_BUF_SIZE
          then Ok (c\<lparr>cons_w := cons_e c\<rparr>, u, True)
          else Ok (c, u, False))
      else Ok (c, u, False))"

text \<open>
  \<^verbatim>\<open>uartintr\<close>: \<open>None\<close> when the chip never runs out of input. Then the transmit half, whose wakeup is
  the second flag.
\<close>

partial_function (option) rx_loop :: "device \<Rightarrow> u8 list \<Rightarrow> cons \<Rightarrow> uart \<Rightarrow> bool \<Rightarrow> (cons \<times> uart \<times> bool) res option" where
  "rx_loop dev dump c u woke =
     (case uartgetc dev u of (ch, u) \<Rightarrow>
        if ch = - 1 then Some (Ok (c, u, woke))
        else case consoleintr dev dump ch c u of
          Ok (c, u, wk) \<Rightarrow> rx_loop dev dump c u (woke \<or> wk)
        | Panic e \<Rightarrow> Some (Panic e) | Blocked e \<Rightarrow> Some (Blocked e) | Fault e \<Rightarrow> Some (Fault e))"

definition uartintr :: "device \<Rightarrow> u8 list \<Rightarrow> cons \<Rightarrow> uart \<Rightarrow> (cons \<times> uart \<times> bool \<times> bool) res option" where
  "uartintr dev dump c u =
     map_option (\<lambda>r. rbind r (\<lambda>(c, u, woke).
       case uartstart dev u of (u, wake) \<Rightarrow> Ok (c, u, woke, wake))) (rx_loop dev dump c u False)"

definition consoleinit :: "uart \<Rightarrow> uart" where
  "consoleinit u = uartinit u"

section \<open>The line discipline\<close>

definition committed :: "cons \<Rightarrow> u8 list" where
  "committed c = ring_contents (cons_buf c) (cons_r c) (cons_w c)"

definition editing :: "cons \<Rightarrow> u8 list" where
  "editing c = ring_contents (cons_buf c) (cons_w c) (cons_e c)"

definition cons_inv :: "cons \<Rightarrow> bool" where
  "cons_inv c \<longleftrightarrow> ring_ok INPUT_BUF_SIZE (cons_buf c) (cons_r c) (cons_e c) \<and>
     unat (cons_w c - cons_r c) \<le> unat (cons_e c - cons_r c) \<and> 10 \<notin> set (editing c)"

text \<open>
  What typing a character does to the complete input and to the line under edit: control-U drops the line,
  control-H and delete its last character, a line is complete at newline, carriage return,
  control-D, or when the buffer is full; input beyond that is dropped.
\<close>

definition line_in :: "int \<Rightarrow> u8 list \<times> u8 list \<Rightarrow> u8 list \<times> u8 list" where
  "line_in ch = (\<lambda>(comm, ed).
     if ch = ctrl 80 then (comm, ed)
     else if ch = ctrl 85 then (comm, [])
     else if ch = ctrl 72 \<or> ch = 0x7f then (comm, butlast ed)
     else if ch = 0 \<or> length comm + length ed \<ge> INPUT_BUF_SIZE then (comm, ed)
     else let b = if ch = 13 then 10 else of_int ch in
       if b = 10 \<or> b = 4 \<or> length comm + length ed + 1 = INPUT_BUF_SIZE
       then (comm @ ed @ [b], []) else (comm, ed @ [b]))"

primrec type_chars :: "device \<Rightarrow> u8 list \<Rightarrow> int list \<Rightarrow> cons \<Rightarrow> uart \<Rightarrow> (cons \<times> uart) res" where
  "type_chars dev dump [] c u = Ok (c, u)"
| "type_chars dev dump (ch # chs) c u =
     rbind (consoleintr dev dump ch c u) (\<lambda>(c, u, woke). type_chars dev dump chs c u)"

text \<open>A chip whose transmitter always becomes idle again.\<close>

definition tx_live :: "device \<Rightarrow> bool" where
  "tx_live dev \<longleftrightarrow> (\<forall>k. \<exists>j \<ge> k. dev j LSR AND LSR_TX_IDLE \<noteq> 0)"

section \<open>Refinement\<close>

lemma cons_whole:
  assumes "cons_inv c"
  shows "ring_contents (cons_buf c) (cons_r c) (cons_e c) = committed c @ editing c"
    and "unat (cons_e c - cons_w c) = unat (cons_e c - cons_r c) - unat (cons_w c - cons_r c)"
  using ring_split assms unfolding cons_inv_def committed_def editing_def by blast+

lemma cons_lengths:
  assumes "cons_inv c"
  shows "length (committed c) + length (editing c) = unat (cons_e c - cons_r c)"
    "length (committed c) + length (editing c) \<le> INPUT_BUF_SIZE" "length (cons_buf c) = INPUT_BUF_SIZE"
proof -
  show l: "length (committed c) + length (editing c) = unat (cons_e c - cons_r c)"
    using cons_whole(1) [OF assms] by (metis length_append ring_length)
  show "length (committed c) + length (editing c) \<le> INPUT_BUF_SIZE" "length (cons_buf c) = INPUT_BUF_SIZE"
    using assms l by (simp_all add: cons_inv_def ring_ok_def)
qed

lemma editing_empty: "cons_e c = cons_w c \<longleftrightarrow> editing c = []"
  by (auto simp: editing_def ring_empty)

lemma cons_unput:
  assumes "cons_inv c" "cons_e c \<noteq> cons_w c"
  defines "c' \<equiv> c\<lparr>cons_e := cons_e c - 1\<rparr>"
  shows "cons_inv c'" "committed c' = committed c"
    "editing c = editing c' @ [cons_buf c ! (unat (cons_e c - 1) mod INPUT_BUF_SIZE)]"
proof -
  have l: "length (cons_buf c) = INPUT_BUF_SIZE" using cons_lengths(3) [OF assms(1)] .
  show e: "editing c = editing c' @ [cons_buf c ! (unat (cons_e c - 1) mod INPUT_BUF_SIZE)]"
    using ring_unput(1) [OF assms(2), of "cons_buf c"] l by (simp add: editing_def c'_def)
  show "committed c' = committed c" by (simp add: committed_def c'_def)
  have i: "unat (cons_w c - cons_r c) \<le> unat (cons_e c - cons_r c)"
    "unat (cons_e c - cons_w c) = unat (cons_e c - cons_r c) - unat (cons_w c - cons_r c)"
    using assms(1) cons_whole(2) by (auto simp: cons_inv_def)
  have "0 < unat (cons_e c - cons_w c)" using ring_unput(2) [OF assms(2)] by simp
  with i have lt: "unat (cons_w c - cons_r c) < unat (cons_e c - cons_r c)" by simp
  then have "cons_e c \<noteq> cons_r c" by auto
  from ring_unput(2) [OF this] lt
  show "cons_inv c'" using assms(1) e by (auto simp: cons_inv_def ring_ok_def c'_def)
qed

lemma kill_line_spec:
  assumes "cons_inv c" "kill_line dev c u = Ok (c', u')"
  shows "cons_inv c' \<and> committed c' = committed c \<and> editing c' = []"
  using assms
proof (induction dev c u rule: kill_line.induct)
  case (1 dev c u)
  show ?case
  proof (cases "cons_e c = cons_w c")
    case True
    then show ?thesis using "1.prems" by (subst (asm) kill_line.simps) (auto simp: editing_empty)
  next
    case False
    note U = cons_unput [OF "1.prems"(1) False]
    have n: "cons_buf c ! (unat (cons_e c - 1) mod INPUT_BUF_SIZE) \<noteq> 10"
      using U(3) "1.prems"(1) by (auto simp: cons_inv_def)
    obtain u1 where u1: "consputc dev BACKSPACE u = Ok u1" "kill_line dev (c\<lparr>cons_e := cons_e c - 1\<rparr>) u1 = Ok (c', u')"
      using "1.prems"(2) False n by (subst (asm) kill_line.simps) (auto simp: rbind_eq_Ok)
    show ?thesis using "1.IH" [OF _ u1(1) U(1) u1(2)] False n U(2) by simp
  qed
qed

lemma cons_put:
  fixes b :: u8
  assumes "cons_inv c" "unat (cons_e c - cons_r c) < INPUT_BUF_SIZE"
  defines "c' \<equiv> c\<lparr>cons_buf := (cons_buf c)[unat (cons_e c) mod INPUT_BUF_SIZE := b], cons_e := cons_e c + 1\<rparr>"
  shows "committed c' = committed c" "editing c' = editing c @ [b]" "b \<noteq> 10 \<Longrightarrow> cons_inv c'"
    "cons_inv (c'\<lparr>cons_w := cons_e c'\<rparr>)" "committed (c'\<lparr>cons_w := cons_e c'\<rparr>) = committed c @ editing c @ [b]"
    "editing (c'\<lparr>cons_w := cons_e c'\<rparr>) = []"
proof -
  have ok: "ring_ok INPUT_BUF_SIZE (cons_buf c) (cons_r c) (cons_e c)"
    and le: "unat (cons_w c - cons_r c) \<le> unat (cons_e c - cons_r c)" using assms(1) by (simp_all add: cons_inv_def)
  note P = ring_put [OF ok assms(2), of b]
  have w: "ring_contents (cons_buf c') (cons_r c) (cons_e c') = committed c @ editing c @ [b]"
    using P(2) cons_whole(1) [OF assms(1)] by (simp add: c'_def)
  have "unat (cons_e c' - cons_r c) = Suc (unat (cons_e c - cons_r c))"
    using w cons_lengths(1) [OF assms(1)] by (metis add_Suc_right length_append length_append_singleton ring_length)
  with le have le': "unat (cons_w c - cons_r c) \<le> unat (cons_e c' - cons_r c)" by simp
  have "committed c' @ editing c' = committed c @ editing c @ [b]"
    using w ring_split(1) [OF le', of "cons_buf c'"] by (simp add: committed_def editing_def c'_def)
  moreover have "length (committed c') = length (committed c)" by (simp add: committed_def ring_length c'_def)
  ultimately show ce: "committed c' = committed c" "editing c' = editing c @ [b]" by (simp_all add: append_eq_append_conv)
  show "b \<noteq> 10 \<Longrightarrow> cons_inv c'"
    using P(1) le' ce(2) assms(1) by (simp add: cons_inv_def c'_def)
  show "editing (c'\<lparr>cons_w := cons_e c'\<rparr>) = []" by (simp add: editing_def ring_empty)
  then show "cons_inv (c'\<lparr>cons_w := cons_e c'\<rparr>)" using P(1) by (simp add: cons_inv_def c'_def)
  show "committed (c'\<lparr>cons_w := cons_e c'\<rparr>) = committed c @ editing c @ [b]"
    using w by (simp add: committed_def c'_def)
qed

lemma consoleintr_refines_line_in:
  assumes "cons_inv c" "0 \<le> ch" "ch < 256" "consoleintr dev dump ch c u = Ok (c', u', woke)"
  shows "cons_inv c' \<and> (committed c', editing c') = line_in ch (committed c, editing c) \<and>
    (woke \<longleftrightarrow> committed c' \<noteq> committed c)"
proof -
  have D: "ctrl 80 = 16" "ctrl 85 = 21" "ctrl 72 = 8" "ctrl 68 = 4" by (simp_all add: ctrl_def)
  have lt: "cons_e c - cons_r c < of_nat INPUT_BUF_SIZE \<longleftrightarrow> length (committed c) + length (editing c) < INPUT_BUF_SIZE"
    using cons_lengths(1) [OF assms(1)] by (simp add: word_less_nat_alt INPUT_BUF_SIZE_def)
  consider (dump) "ch = 16" | (kill) "ch = 21" | (erase) "ch = 8 \<or> ch = 0x7f"
    | (drop) "ch \<notin> {16, 21, 8, 0x7f}" "ch = 0 \<or> \<not> length (committed c) + length (editing c) < INPUT_BUF_SIZE"
    | (typed) "ch \<notin> {16, 21, 8, 0x7f}" "ch \<noteq> 0" "length (committed c) + length (editing c) < INPUT_BUF_SIZE" by blast
  then show ?thesis
  proof cases
    case dump
    then show ?thesis using assms by (auto simp: consoleintr_def line_in_def D rbind_eq_Ok)
  next
    case kill
    then obtain u1 where "kill_line dev c u = Ok (c', u1)" "\<not> woke"
      using assms(4) by (auto simp: consoleintr_def D rbind_eq_Ok)
    then show ?thesis using kill_line_spec [OF assms(1)] kill by (auto simp: line_in_def D)
  next
    case erase
    show ?thesis
    proof (cases "cons_e c = cons_w c")
      case True
      then show ?thesis using erase assms by (auto simp: consoleintr_def line_in_def D editing_empty)
    next
      case False
      then have "c' = c\<lparr>cons_e := cons_e c - 1\<rparr>" "\<not> woke"
        using erase assms(4) by (auto simp: consoleintr_def D rbind_eq_Ok)
      then show ?thesis using cons_unput [OF assms(1) False] erase by (auto simp: line_in_def D)
    qed
  next
    case drop
    then show ?thesis using assms lt by (auto simp: consoleintr_def line_in_def D)
  next
    case typed
    define b :: u8 where "b = (if ch = 13 then 10 else of_int ch)"
    have ub: "uint (of_int ch :: u8) = ch" using assms(2,3) by (simp add: unsigned_of_int take_bit_int_eq_self_iff)
    have b: "of_int (if ch = 13 then 10 else ch) = b" by (simp add: b_def)
    have b10: "(if ch = 13 then 10 else ch) = 10 \<longleftrightarrow> b = 10" and b4: "(if ch = 13 then 10 else ch) = 4 \<longleftrightarrow> b = 4"
      using ub by (auto simp: b_def)
    have r: "unat (cons_e c - cons_r c) < INPUT_BUF_SIZE" using typed(3) cons_lengths(1) [OF assms(1)] by simp
    define c1 where "c1 = c\<lparr>cons_buf := (cons_buf c)[unat (cons_e c) mod INPUT_BUF_SIZE := b], cons_e := cons_e c + 1\<rparr>"
    note P = cons_put [OF assms(1) r, of b, folded c1_def]
    have "cons_e c1 - cons_r c1 = of_nat INPUT_BUF_SIZE \<longleftrightarrow> length (committed c) + length (editing c) + 1 = INPUT_BUF_SIZE"
    proof -
      have "unat (cons_e c1 - cons_r c1) = length (committed (c1\<lparr>cons_w := cons_e c1\<rparr>))"
        by (simp add: committed_def ring_length)
      then have "unat (cons_e c1 - cons_r c1) = length (committed c) + length (editing c) + 1" using P(5) by simp
      then show ?thesis by (auto simp: word_unat_eq_iff INPUT_BUF_SIZE_def)
    qed
    then have "(c', woke) = (if b = 10 \<or> b = 4 \<or> length (committed c) + length (editing c) + 1 = INPUT_BUF_SIZE
        then (c1\<lparr>cons_w := cons_e c1\<rparr>, True) else (c1, False))"
      using assms(4) typed lt b10 b4 b
      by (auto simp: consoleintr_def D rbind_eq_Ok Let_def c1_def split: if_splits)
    then show ?thesis using typed P by (auto simp: line_in_def D b_def [symmetric] Let_def split: if_splits)
  qed
qed

section \<open>Echoing always returns on a live chip\<close>

lemma uartputc_sync_live:
  assumes "tx_live dev" "\<not> panicked u"
  shows "\<exists>u'. uartputc_sync dev c u = Ok u' \<and> \<not> panicked u'"
proof -
  obtain j where "nreads u \<le> j" "dev j LSR AND LSR_TX_IDLE \<noteq> 0" using assms(1) by (auto simp: tx_live_def)
  then have "dev (nreads u + (j - nreads u)) LSR AND LSR_TX_IDLE \<noteq> 0" by simp
  from wait_idle_returns [of dev u "j - nreads u", OF this] show ?thesis using assms(2) by (auto simp: uartputc_sync_def WriteReg_def)
qed

lemma consputc_live:
  assumes "tx_live dev" "\<not> panicked u"
  shows "\<exists>u'. consputc dev c u = Ok u' \<and> \<not> panicked u'"
proof -
  note L = uartputc_sync_live [OF assms(1)]
  obtain u1 where u1: "uartputc_sync dev 8 u = Ok u1" "\<not> panicked u1" using L [OF assms(2)] by blast
  obtain u2 where u2: "uartputc_sync dev 32 u1 = Ok u2" "\<not> panicked u2" using L [OF u1(2)] by blast
  show ?thesis using L [OF assms(2)] L [OF u2(2)] u1 u2 by (simp add: consputc_def)
qed

lemma consputs_live:
  assumes "tx_live dev" "\<not> panicked u"
  shows "\<exists>u'. consputs dev cs u = Ok u' \<and> \<not> panicked u'"
  using assms(2)
proof (induction cs arbitrary: u)
  case (Cons x xs)
  obtain u1 where "consputc dev (uint x) u = Ok u1" "\<not> panicked u1" using consputc_live [OF assms(1) Cons.prems] by blast
  then show ?case using Cons.IH by simp
qed simp

lemma kill_line_live:
  assumes "tx_live dev" "\<not> panicked u"
  shows "\<exists>c' u'. kill_line dev c u = Ok (c', u') \<and> \<not> panicked u'"
  using assms
proof (induction dev c u rule: kill_line.induct)
  case (1 dev c u)
  obtain u1 where "consputc dev BACKSPACE u = Ok u1" "\<not> panicked u1" using consputc_live "1.prems" by blast
  then show ?case using "1.IH" "1.prems" by (subst kill_line.simps) auto
qed

lemma consoleintr_live:
  assumes "tx_live dev" "\<not> panicked u"
  shows "\<exists>c' u' woke. consoleintr dev dump ch c u = Ok (c', u', woke) \<and> \<not> panicked u'"
proof -
  note L = consputc_live [OF assms]
  obtain u1 where "consputs dev dump u = Ok u1" "\<not> panicked u1" using consputs_live [OF assms] by blast
  moreover obtain c2 u2 where "kill_line dev c u = Ok (c2, u2)" "\<not> panicked u2" using kill_line_live [OF assms] by blast
  moreover obtain u3 where "consputc dev BACKSPACE u = Ok u3" "\<not> panicked u3" using L by blast
  moreover obtain u4 where "consputc dev (if ch = 13 then 10 else ch) u = Ok u4" "\<not> panicked u4" using L by blast
  ultimately show ?thesis using assms(2) by (auto simp: consoleintr_def Let_def)
qed

lemma type_chars_refines:
  assumes "tx_live dev" "\<not> panicked u" "cons_inv c" "\<forall>ch \<in> set chs. 0 \<le> ch \<and> ch < 256"
  shows "\<exists>c' u'. type_chars dev dump chs c u = Ok (c', u') \<and> cons_inv c' \<and>
    (committed c', editing c') = fold line_in chs (committed c, editing c)"
  using assms(2-)
proof (induction chs arbitrary: c u)
  case (Cons ch chs)
  obtain c1 u1 woke where i: "consoleintr dev dump ch c u = Ok (c1, u1, woke)" "\<not> panicked u1"
    using consoleintr_live [OF assms(1) Cons.prems(1)] by blast
  have r: "cons_inv c1" "(committed c1, editing c1) = line_in ch (committed c, editing c)"
    using consoleintr_refines_line_in [OF Cons.prems(2) _ _ i(1)] Cons.prems(3) by auto
  from Cons.IH [OF i(2) r(1)] Cons.prems(3) show ?case using i(1) r(2) by simp
qed simp

section \<open>Reading a line\<close>

lemma cons_get:
  assumes "cons_inv c" "committed c = ch # rest"
  defines "c' \<equiv> c\<lparr>cons_r := cons_r c + 1\<rparr>"
  shows "cons_inv c'" "committed c' = rest" "editing c' = editing c"
    "cons_buf c ! (unat (cons_r c) mod INPUT_BUF_SIZE) = ch" "cons_r c \<noteq> cons_w c"
proof -
  have ok: "ring_ok INPUT_BUF_SIZE (cons_buf c) (cons_r c) (cons_e c)"
    and le: "unat (cons_w c - cons_r c) \<le> unat (cons_e c - cons_r c)" using assms(1) by (simp_all add: cons_inv_def)
  show w: "cons_r c \<noteq> cons_w c" using assms(2) by (metis committed_def list.distinct(1) ring_empty)
  then have dw: "unat (cons_w c - cons_r c) = Suc (unat (cons_w c - (cons_r c + 1)))" by (intro ring_dist) simp
  with le have e: "cons_e c \<noteq> cons_r c" by auto
  have okw: "ring_ok INPUT_BUF_SIZE (cons_buf c) (cons_r c) (cons_w c)" using ok le by (simp add: ring_ok_def)
  show "committed c' = rest" "cons_buf c ! (unat (cons_r c) mod INPUT_BUF_SIZE) = ch"
    using ring_get(2) [OF okw] w assms(2) by (auto simp: committed_def c'_def)
  show ed: "editing c' = editing c" by (simp add: editing_def c'_def)
  show "cons_inv c'"
    using ring_get(1) [OF ok e] le dw ring_dist [OF e] assms(1) ed by (simp add: cons_inv_def c'_def)
qed

lemma consoleread_loop_line:
  assumes "wf_pt s root" "user_mapped (ram s) root dst (Suc (length line))" "user_private (ram s) root dst (Suc (length line))"
    and "cons_inv c" "committed c = line @ 10 # rest" "10 \<notin> set line" "4 \<notin> set line" "length line < m"
  shows "\<exists>c' m'. consoleread_loop m target s root True dst killed c =
      Ok (CReturned (int target - int m + int (Suc (length line))), c', s\<lparr>ram := m'\<rparr>) \<and>
    cons_inv c' \<and> committed c' = rest \<and> editing c' = editing c \<and>
    stored_at (ram s) root dst (\<lambda>j. (line @ [10]) ! j) (Suc (length line)) m'"
  using assms
proof (induction line arbitrary: s dst c m)
  case Nil
  obtain m0 where m: "m = Suc m0" using Nil.prems(8) by (cases m) auto
  note G = cons_get [OF Nil.prems(4), of 10 rest, simplified, OF Nil.prems(5) [simplified]]
  obtain m1 where m1: "copyout s root dst (\<lambda>_. 10) 1 = Ok (0, s\<lparr>ram := m1\<rparr>)" "stored_at (ram s) root dst (\<lambda>_. 10) 1 m1"
    using copyout_spec [OF Nil.prems(1), of dst 1] Nil.prems(2,3) by (auto simp: unat_1)
  have "stored_at (ram s) root dst (\<lambda>j. ([] @ [10]) ! j) (Suc (length [])) m1" using m1(2) by (simp add: stored_at_def)
  then show ?case using m m1(1) G by (auto simp: either_copyout_def Let_def ctrl_def)
next
  case (Cons ch line)
  obtain m0 where m: "m = Suc m0" using Cons.prems(8) by (cases m) auto
  note G = cons_get [OF Cons.prems(4), of ch "line @ 10 # rest", simplified, OF Cons.prems(5) [simplified]]
  have ch: "ch \<noteq> 10" "uint ch \<noteq> ctrl 68" using Cons.prems(6,7) by (auto simp: ctrl_def) (metis word_of_int_uint word_of_int_numeral)
  note um = mapped_one [OF Cons.prems(2), of 0, simplified] private_one [OF Cons.prems(3), of 0, simplified]
  obtain m1 where m1: "copyout s root dst (\<lambda>_. ch) 1 = Ok (0, s\<lparr>ram := m1\<rparr>)" "stored_at (ram s) root dst (\<lambda>_. ch) 1 m1"
    using copyout_spec [OF Cons.prems(1), of dst 1] um by (auto simp: unat_1)
  note K = stored_at_keeps [OF Cons.prems(1) um(2) [folded One_nat_def] m1(2)]
  have d: "user_mapped m1 root (dst + 1) (Suc (length line))" "user_private m1 root (dst + 1) (Suc (length line))"
    unfolding K(3,4) using user_mapped_drop [OF Cons.prems(2), of 1] user_private_drop [OF Cons.prems(3), of 1] by simp_all
  from Cons.IH [of "s\<lparr>ram := m1\<rparr>" "dst + 1" _ m0, OF K(1) _ _ G(1,2)] d Cons.prems(6,7,8) m
  obtain c' m' where r: "consoleread_loop m0 target (s\<lparr>ram := m1\<rparr>) root True (dst + 1) killed (c\<lparr>cons_r := cons_r c + 1\<rparr>) =
      Ok (CReturned (int target - int m0 + int (Suc (length line))), c', s\<lparr>ram := m'\<rparr>)"
    "cons_inv c'" "committed c' = rest" "editing c' = editing (c\<lparr>cons_r := cons_r c + 1\<rparr>)"
    "stored_at m1 root (dst + 1) (\<lambda>j. (line @ [10]) ! j) (Suc (length line)) m'" by auto
  have "stored_at (ram s) root dst (case_nat ch (\<lambda>j. (line @ [10]) ! j)) (Suc (Suc (length line))) m'"
    using stored_at_cons [OF Cons.prems(1) _ _ m1(2) r(5)] Cons.prems(2,3) by simp
  moreover have "case_nat ch (\<lambda>j. (line @ [10]) ! j) = (\<lambda>j. ((ch # line) @ [10]) ! j)"
    by (auto simp: fun_eq_iff split: nat.splits)
  ultimately show ?case using m m1(1) G(3,4,5) ch r by (auto simp: either_copyout_def Let_def)
qed

section \<open>Properties\<close>

definition cons_empty :: cons where
  "cons_empty = \<lparr>cons_buf = replicate 128 0, cons_r = 0, cons_w = 0, cons_e = 0\<rparr>"

lemma cons_empty_inv: "cons_inv cons_empty" "committed cons_empty = []" "editing cons_empty = []"
  by (simp_all add: cons_inv_def cons_empty_def ring_ok_def committed_def editing_def ring_contents_def INPUT_BUF_SIZE_def)

text \<open>
  C23. Console input refines the line discipline: on a chip whose transmitter always becomes idle
  again, every sequence of typed characters is handled to the end, keeps the buffer's invariant,
  and leaves complete input and edited line exactly as \<open>line_in\<close> prescribes.
\<close>

theorem console_line_discipline:
  assumes "tx_live dev" "\<not> panicked u" "cons_inv c" "\<forall>ch \<in> set chs. 0 \<le> ch \<and> ch < 256"
  shows "\<exists>c' u'. type_chars dev dump chs c u = Ok (c', u') \<and> cons_inv c' \<and>
    (committed c', editing c') = fold line_in chs (committed c, editing c)"
  by (rule type_chars_refines [OF assms])

theorem console_line_discipline_witness:
  "\<exists>c' u'. type_chars (\<lambda>k reg. 0x20) [] [104, 120, 8, 105, 13, 111] cons_empty uart_empty = Ok (c', u') \<and>
    cons_inv c' \<and> committed c' = [104, 105, 10] \<and> editing c' = [111]"
proof -
  have l: "tx_live (\<lambda>k reg. 0x20)" by (auto simp: tx_live_def LSR_TX_IDLE_def)
  have "\<not> panicked uart_empty" by (simp add: uart_empty_def)
  from console_line_discipline [OF l this cons_empty_inv(1), of "[104, 120, 8, 105, 13, 111]" "[]"]
  show ?thesis by (simp add: cons_empty_inv line_in_def ctrl_def INPUT_BUF_SIZE_def)
qed

text \<open>
  C24. When a complete line is waiting and fits, \<^verbatim>\<open>consoleread\<close> returns its length with the newline,
  stores exactly the line into the user's buffer, takes it from the queue, and leaves later input
  and the line under edit alone.
\<close>

theorem consoleread_returns_line:
  assumes "wf_pt s root" "user_mapped (ram s) root dst (Suc (length line))" "user_private (ram s) root dst (Suc (length line))"
    and "cons_inv c" "committed c = line @ 10 # rest" "10 \<notin> set line" "4 \<notin> set line" "int (length line) < n"
  shows "\<exists>c' m'. consoleread s root True dst n killed c =
      Ok (CReturned (int (Suc (length line))), c', s\<lparr>ram := m'\<rparr>) \<and>
    cons_inv c' \<and> committed c' = rest \<and> editing c' = editing c \<and>
    stored_at (ram s) root dst (\<lambda>j. (line @ [10]) ! j) (Suc (length line)) m'"
  using consoleread_loop_line [OF assms(1-7), of "nat n" "nat n" killed] assms(8) by (simp add: consoleread_def)

theorem consoleread_returns_line_witness:
  "\<exists>c' m'. consoleread demo 0x87ff7000 True 0xffe 80 False
      \<lparr>cons_buf = [104, 105, 10, 111] @ replicate 124 0, cons_r = 0, cons_w = 3, cons_e = 4\<rparr> =
      Ok (CReturned 3, c', demo\<lparr>ram := m'\<rparr>) \<and> committed c' = [] \<and> editing c' = [111]"
proof -
  let ?c = "\<lparr>cons_buf = [104, 105, 10, 111] @ replicate 124 0, cons_r = 0, cons_w = 3, cons_e = 4\<rparr>"
  have c: "committed ?c = [104, 105] @ 10 # []" "editing ?c = [111]"
    by (simp_all add: committed_def editing_def ring_contents_def upt_rec)
  have "cons_inv ?c" using c(2) by (simp add: cons_inv_def ring_ok_def INPUT_BUF_SIZE_def)
  moreover have "user_mapped (ram demo) 0x87ff7000 0xffe (Suc (length [104, 105 :: u8]))"
    "user_private (ram demo) 0x87ff7000 0xffe (Suc (length [104, 105 :: u8]))" by (rule demo_mapped, simp)+
  ultimately show ?thesis
    using consoleread_returns_line [OF demo_wf(1) _ _ _ c(1), where dst = "0xffe" and n = 80 and killed = False] c(2) by auto
qed

end
