(* ===== verification/Locks.thy ===== *)
theory Locks
  imports Prelude
begin

text \<open>
  \<^verbatim>\<open>kernel/spinlock.c\<close> and \<^verbatim>\<open>kernel/sleeplock.c\<close>. A processor has its interrupt-enable bit and the
  nesting counters of \<^verbatim>\<open>struct cpu\<close>. The pieces of \<^verbatim>\<open>acquire\<close> and \<^verbatim>\<open>release\<close> between two accesses to the
  shared lock are the steps of \<open>lock_step\<close>, which interleaves any number of processors; the fences are
  no operations in this sequentially consistent model. A sleep lock's routines run under their
  spin lock; what they do to its fields is defined here, their interleaving with \<^verbatim>\<open>sleep\<close> and \<^verbatim>\<open>wakeup\<close> is the
  subject of the theory \<open>Sleep\<close>.
\<close>

section \<open>Interrupt nesting\<close>

record cpu =
  sie :: bool
  noff :: int
  intena :: bool

definition intr_get :: "cpu \<Rightarrow> bool" where "intr_get c = sie c"

definition intr_off :: "cpu \<Rightarrow> cpu" where "intr_off c = c\<lparr>sie := False\<rparr>"

definition intr_on :: "cpu \<Rightarrow> cpu" where "intr_on c = c\<lparr>sie := True\<rparr>"

definition push_off :: "cpu \<Rightarrow> cpu" where
  "push_off c =
     (let old = intr_get c;
          c = intr_off c;
          c = (if noff c = 0 then c\<lparr>intena := old\<rparr> else c)
      in c\<lparr>noff := noff c + 1\<rparr>)"

definition pop_off :: "cpu \<Rightarrow> cpu res" where
  "pop_off c =
     (if intr_get c then Panic ''pop_off - interruptible''
      else if noff c < 1 then Panic ''pop_off''
      else let c = c\<lparr>noff := noff c - 1\<rparr> in
        Ok (if noff c = 0 \<and> intena c then intr_on c else c))"

section \<open>Spin locks\<close>

record spinlock =
  locked :: u32
  lock_cpu :: "nat option"

definition initlock :: spinlock where
  "initlock = \<lparr>locked = 0, lock_cpu = None\<rparr>"

definition holding :: "nat \<Rightarrow> spinlock \<Rightarrow> bool" where
  "holding me lk = (locked lk \<noteq> 0 \<and> lock_cpu lk = Some me)"

definition test_and_set :: "spinlock \<Rightarrow> u32 \<times> spinlock" where
  "test_and_set lk = (locked lk, lk\<lparr>locked := 1\<rparr>)"

text \<open>
  \<^verbatim>\<open>acquire\<close> run alone: \<open>Blocked\<close> when the lock is taken by another processor, for then it spins until
  that one releases it.
\<close>

definition acquire :: "nat \<Rightarrow> cpu \<Rightarrow> spinlock \<Rightarrow> (cpu \<times> spinlock) res" where
  "acquire me c lk =
     (let c = push_off c in
      if holding me lk then Panic ''acquire''
      else case test_and_set lk of (old, lk) \<Rightarrow>
        if old \<noteq> 0 then Blocked ''spin'' else Ok (c, lk\<lparr>lock_cpu := Some me\<rparr>))"

definition release :: "nat \<Rightarrow> cpu \<Rightarrow> spinlock \<Rightarrow> (cpu \<times> spinlock) res" where
  "release me c lk =
     (if \<not> holding me lk then Panic ''release''
      else let lk = lk\<lparr>lock_cpu := None\<rparr>; lk = lk\<lparr>locked := 0\<rparr> in
        rbind (pop_off c) (\<lambda>c. Ok (c, lk)))"

text \<open>
  Where a processor is: outside, past the \<^verbatim>\<open>holding\<close> test of \<^verbatim>\<open>acquire\<close> and spinning, past the swap that got the
  lock, in the critical section, or past the store that clears \<^verbatim>\<open>lk->cpu\<close> in \<^verbatim>\<open>release\<close>.
\<close>

datatype pc = Outside | Spinning | Swapped | Critical | Cleared | Panicked

record lsys =
  lock_of :: spinlock
  cpu_of :: "nat \<Rightarrow> cpu"
  pc_of :: "nat \<Rightarrow> pc"

inductive lock_step :: "lsys \<Rightarrow> lsys \<Rightarrow> bool" where
  enter: "\<lbrakk>pc_of s i = Outside\<rbrakk> \<Longrightarrow>
     lock_step s (s\<lparr>cpu_of := (cpu_of s)(i := push_off (cpu_of s i)),
       pc_of := (pc_of s)(i := if holding i (lock_of s) then Panicked else Spinning)\<rparr>)"
| spin: "\<lbrakk>pc_of s i = Spinning; test_and_set (lock_of s) = (old, lk)\<rbrakk> \<Longrightarrow>
     lock_step s (s\<lparr>lock_of := lk, pc_of := (pc_of s)(i := if old \<noteq> 0 then Spinning else Swapped)\<rparr>)"
| own: "\<lbrakk>pc_of s i = Swapped\<rbrakk> \<Longrightarrow>
     lock_step s (s\<lparr>lock_of := (lock_of s)\<lparr>lock_cpu := Some i\<rparr>, pc_of := (pc_of s)(i := Critical)\<rparr>)"
| clear: "\<lbrakk>pc_of s i = Critical\<rbrakk> \<Longrightarrow>
     lock_step s (if \<not> holding i (lock_of s) then s\<lparr>pc_of := (pc_of s)(i := Panicked)\<rparr>
       else s\<lparr>lock_of := (lock_of s)\<lparr>lock_cpu := None\<rparr>, pc_of := (pc_of s)(i := Cleared)\<rparr>)"
| leave: "\<lbrakk>pc_of s i = Cleared\<rbrakk> \<Longrightarrow>
     lock_step s (case pop_off (cpu_of s i) of
         Ok c \<Rightarrow> s\<lparr>lock_of := (lock_of s)\<lparr>locked := 0\<rparr>, cpu_of := (cpu_of s)(i := c), pc_of := (pc_of s)(i := Outside)\<rparr>
       | _ \<Rightarrow> s\<lparr>lock_of := (lock_of s)\<lparr>locked := 0\<rparr>, pc_of := (pc_of s)(i := Panicked)\<rparr>)"

definition lsys_init :: "(nat \<Rightarrow> cpu) \<Rightarrow> lsys" where
  "lsys_init cpus = \<lparr>lock_of = initlock, cpu_of = cpus, pc_of = (\<lambda>_. Outside)\<rparr>"

definition owns :: "lsys \<Rightarrow> nat \<Rightarrow> bool" where
  "owns s i \<longleftrightarrow> pc_of s i \<in> {Swapped, Critical, Cleared}"

text \<open>Interrupts are on only outside every \<^verbatim>\<open>push_off\<close>; and one level deeper than \<open>c0\<close>.\<close>

definition cpu_ok :: "cpu \<Rightarrow> bool" where
  "cpu_ok c \<longleftrightarrow> noff c \<ge> 0 \<and> (noff c > 0 \<longrightarrow> \<not> sie c)"

definition nested :: "cpu \<Rightarrow> cpu \<Rightarrow> bool" where
  "nested c0 c \<longleftrightarrow> \<not> sie c \<and> noff c = noff c0 + 1 \<and> (noff c0 = 0 \<longrightarrow> intena c = sie c0)"

definition lock_inv :: "(nat \<Rightarrow> cpu) \<Rightarrow> nat option \<Rightarrow> lsys \<Rightarrow> bool" where
  "lock_inv cpus owner s \<longleftrightarrow>
     (\<forall>i. pc_of s i \<noteq> Panicked) \<and>
     (\<forall>i. owns s i \<longleftrightarrow> owner = Some i) \<and>
     (locked (lock_of s) \<noteq> 0 \<longleftrightarrow> owner \<noteq> None) \<and>
     (\<forall>i. lock_cpu (lock_of s) = Some i \<longleftrightarrow> pc_of s i = Critical) \<and>
     (\<forall>i. if pc_of s i = Outside then sie (cpu_of s i) = sie (cpus i) \<and> noff (cpu_of s i) = noff (cpus i)
          else nested (cpus i) (cpu_of s i))"

section \<open>Sleep locks\<close>

record sleeplock =
  slocked :: u32
  lock_pid :: int

definition initsleeplock :: sleeplock where
  "initsleeplock = \<lparr>slocked = 0, lock_pid = 0\<rparr>"

text \<open>One pass of the loop in \<^verbatim>\<open>acquiresleep\<close>: \<open>None\<close> means the process sleeps on the lock and will try again.\<close>

definition acquiresleep :: "int \<Rightarrow> sleeplock \<Rightarrow> sleeplock option" where
  "acquiresleep pid lk = (if slocked lk \<noteq> 0 then None else Some (lk\<lparr>slocked := 1, lock_pid := pid\<rparr>))"

text \<open>The stores of \<^verbatim>\<open>releasesleep\<close>; with its \<^verbatim>\<open>wakeup\<close> it is a definition of the theory \<open>Sleep\<close>.\<close>

definition releasesleep_fields :: "sleeplock \<Rightarrow> sleeplock" where
  "releasesleep_fields lk = lk\<lparr>slocked := 0, lock_pid := 0\<rparr>"

definition holdingsleep :: "int \<Rightarrow> sleeplock \<Rightarrow> bool" where
  "holdingsleep pid lk = (slocked lk \<noteq> 0 \<and> lock_pid lk = pid)"

section \<open>Lemmas\<close>

lemma push_off_sel [simp]:
  "sie (push_off c) = False" "noff (push_off c) = noff c + 1"
  "intena (push_off c) = (if noff c = 0 then sie c else intena c)"
  by (simp_all add: push_off_def intr_off_def intr_get_def Let_def)

lemma nested_push: "sie c = sie c0 \<Longrightarrow> noff c = noff c0 \<Longrightarrow> nested c0 (push_off c)"
  by (simp add: nested_def)

lemma nested_pop:
  assumes "cpu_ok c0" "nested c0 c"
  shows "\<exists>c'. pop_off c = Ok c' \<and> sie c' = sie c0 \<and> noff c' = noff c0"
  using assms by (cases "noff c0 = 0") (auto simp: pop_off_def intr_get_def intr_on_def Let_def cpu_ok_def nested_def)

lemma cpu_ok_push: "cpu_ok c \<Longrightarrow> cpu_ok (push_off c)"
  by (simp add: cpu_ok_def)

lemma lock_inv_owner:
  assumes "lock_inv cpus owner s" "owns s i"
  shows "owner = Some i" "j \<noteq> i \<Longrightarrow> pc_of s j \<notin> {Swapped, Critical, Cleared}" "locked (lock_of s) \<noteq> 0"
proof -
  show o: "owner = Some i" using assms by (auto simp: lock_inv_def)
  show "j \<noteq> i \<Longrightarrow> pc_of s j \<notin> {Swapped, Critical, Cleared}"
    using assms(1) o unfolding lock_inv_def owns_def by (metis option.inject)
  show "locked (lock_of s) \<noteq> 0" using assms(1) o by (simp add: lock_inv_def)
qed

lemma lock_step_inv:
  assumes "lock_step s s'" "lock_inv cpus owner s" "\<forall>i. cpu_ok (cpus i)"
  shows "\<exists>owner'. lock_inv cpus owner' s'"
  using assms(1)
proof cases
  case (enter i)
  then have "\<not> holding i (lock_of s)" using assms(2) by (auto simp: lock_inv_def holding_def)
  moreover have "\<not> owns s i" using enter by (simp add: owns_def)
  then have "owner \<noteq> Some i" using assms(2) by (auto simp: lock_inv_def)
  ultimately have "lock_inv cpus owner s'" using enter assms(2) nested_push by (simp add: lock_inv_def owns_def)
  then show ?thesis ..
next
  case (spin i old lk)
  then have "\<not> owns s i" by (simp add: owns_def)
  then have "owner \<noteq> Some i" using assms(2) by (auto simp: lock_inv_def)
  then have "lock_inv cpus (if old \<noteq> 0 then owner else Some i) s'"
    using spin assms(2) by (auto simp: lock_inv_def owns_def test_and_set_def)
  then show ?thesis ..
next
  case (own i)
  note O = lock_inv_owner [OF assms(2), of i, unfolded owns_def, simplified own(2), simplified]
  have "lock_inv cpus owner s'" using own assms(2) O by (simp add: lock_inv_def owns_def)
  then show ?thesis ..
next
  case (clear i)
  note O = lock_inv_owner [OF assms(2), of i, unfolded owns_def, simplified clear(2), simplified]
  have "holding i (lock_of s)" using clear assms(2) O(3) by (auto simp: lock_inv_def holding_def)
  then have "lock_inv cpus owner s'" using clear assms(2) O by (simp add: lock_inv_def owns_def)
  then show ?thesis ..
next
  case (leave i)
  note O = lock_inv_owner [OF assms(2), of i, unfolded owns_def, simplified leave(2), simplified]
  have "nested (cpus i) (cpu_of s i)" using leave assms(2) by (auto simp: lock_inv_def split: if_splits)
  then obtain c' where c': "pop_off (cpu_of s i) = Ok c'" "sie c' = sie (cpus i)" "noff c' = noff (cpus i)"
    using nested_pop assms(3) by blast
  then have "lock_inv cpus None s'" using leave assms(2) O by (simp add: lock_inv_def owns_def)
  then show ?thesis ..
qed

lemma lock_reachable_inv:
  assumes "lock_step\<^sup>*\<^sup>* (lsys_init cpus) s" "\<forall>i. cpu_ok (cpus i)"
  shows "\<exists>owner. lock_inv cpus owner s"
  using assms(1)
proof (induction rule: rtranclp_induct)
  case base
  have "lock_inv cpus None (lsys_init cpus)" by (simp add: lock_inv_def lsys_init_def initlock_def owns_def)
  then show ?case ..
next
  case (step s s')
  then show ?case using lock_step_inv assms(2) by blast
qed

text \<open>A processor that runs \<open>n\<close> times \<^verbatim>\<open>push_off\<close> and then \<open>n\<close> times \<^verbatim>\<open>pop_off\<close>.\<close>

primrec pushes :: "nat \<Rightarrow> cpu \<Rightarrow> cpu" where
  "pushes 0 c = c"
| "pushes (Suc n) c = push_off (pushes n c)"

primrec pops :: "nat \<Rightarrow> cpu \<Rightarrow> cpu res" where
  "pops 0 c = Ok c"
| "pops (Suc n) c = rbind (pop_off c) (pops n)"

lemma pops_nested:
  assumes "cpu_ok c0" "n > 0" "\<not> sie c" "noff c = noff c0 + int n" "noff c0 = 0 \<longrightarrow> intena c = sie c0"
  shows "\<exists>c'. pops n c = Ok c' \<and> sie c' = sie c0 \<and> noff c' = noff c0"
  using assms(2-)
proof (induction n arbitrary: c)
  case (Suc n)
  show ?case
  proof (cases "n = 0")
    case True
    then have "nested c0 c" using Suc.prems by (simp add: nested_def)
    from nested_pop [OF assms(1) this] True show ?thesis by auto
  next
    case False
    have "noff c0 \<ge> 0" using assms(1) by (simp add: cpu_ok_def)
    then have "pop_off c = Ok (c\<lparr>noff := noff c - 1\<rparr>)"
      using Suc.prems False by (simp add: pop_off_def intr_get_def)
    then show ?thesis using Suc.IH [of "c\<lparr>noff := noff c - 1\<rparr>"] Suc.prems False by simp
  qed
qed simp

lemma pushes_state:
  assumes "cpu_ok c" "n > 0"
  shows "\<not> sie (pushes n c) \<and> noff (pushes n c) = noff c + int n \<and> (noff c = 0 \<longrightarrow> intena (pushes n c) = sie c)"
  using assms(2)
proof (induction n)
  case (Suc n)
  then show ?case using assms(1) by (cases "n = 0") (auto simp: cpu_ok_def)
qed simp

section \<open>Properties\<close>

text \<open>
  C26. Mutual exclusion of spin locks: whatever the interleaving of any number of processors that acquire
  and release one lock, at most one is between its successful swap and its releasing store, no
  \<^verbatim>\<open>panic\<close> of \<^verbatim>\<open>acquire\<close>, \<^verbatim>\<open>release\<close> or \<^verbatim>\<open>pop_off\<close> is reached, \<^verbatim>\<open>holding\<close> is true exactly for the processor in
  the critical section, and a processor on its way in, inside, or on its way out has interrupts off.
\<close>

theorem spinlock_mutual_exclusion:
  assumes "lock_step\<^sup>*\<^sup>* (lsys_init cpus) s" "\<forall>i. cpu_ok (cpus i)"
  shows "(\<forall>i j. owns s i \<and> owns s j \<longrightarrow> i = j) \<and> (\<forall>i. pc_of s i \<noteq> Panicked) \<and>
    (\<forall>i. holding i (lock_of s) \<longleftrightarrow> pc_of s i = Critical) \<and>
    (\<forall>i. pc_of s i \<noteq> Outside \<longrightarrow> \<not> sie (cpu_of s i)) \<and>
    (\<forall>i. pc_of s i = Outside \<longrightarrow> sie (cpu_of s i) = sie (cpus i) \<and> noff (cpu_of s i) = noff (cpus i))"
proof -
  obtain owner where inv: "lock_inv cpus owner s" using lock_reachable_inv [OF assms] ..
  then have "holding i (lock_of s) \<longleftrightarrow> pc_of s i = Critical" for i
    by (auto simp: lock_inv_def holding_def owns_def)
  with inv show ?thesis by (auto simp: lock_inv_def nested_def split: if_splits)
qed

theorem spinlock_mutual_exclusion_witness:
  "\<exists>s. lock_step\<^sup>*\<^sup>* (lsys_init (\<lambda>_. \<lparr>sie = True, noff = 0, intena = False\<rparr>)) s \<and>
    pc_of s 0 = Spinning \<and> \<not> sie (cpu_of s 0) \<and> pc_of s 1 = Outside \<and> sie (cpu_of s 1)"
proof -
  let ?c = "\<lambda>_ :: nat. \<lparr>sie = True, noff = 0, intena = False\<rparr>"
  let ?s = "(lsys_init ?c)\<lparr>cpu_of := (cpu_of (lsys_init ?c))(0 := push_off (cpu_of (lsys_init ?c) 0)),
    pc_of := (pc_of (lsys_init ?c))(0 := Spinning)\<rparr>"
  have "\<not> holding 0 (lock_of (lsys_init ?c))" by (simp add: lsys_init_def initlock_def holding_def)
  then have "lock_step (lsys_init ?c) ?s"
    using lock_step.enter [of "lsys_init ?c" 0] by (simp add: lsys_init_def)
  then have r: "lock_step\<^sup>*\<^sup>* (lsys_init ?c) ?s" ..
  from spinlock_mutual_exclusion [OF this] have "\<not> sie (cpu_of ?s 0)" "sie (cpu_of ?s 1)"
    by (simp_all add: cpu_ok_def lsys_init_def)
  with r show ?thesis by (auto simp: lsys_init_def)
qed

text \<open>
  \<^verbatim>\<open>push_off\<close> and \<^verbatim>\<open>pop_off\<close> nest: after \<open>n > 0\<close> pushes interrupts are off, and \<open>n\<close> pops then succeed and
  leave the interrupt bit and the depth as they were, whether interrupts were on or off before.
\<close>

lemma push_off_pop_off_nest:
  assumes "cpu_ok c" "n > 0"
  shows "\<not> sie (pushes n c) \<and> (\<exists>c'. pops n (pushes n c) = Ok c' \<and> sie c' = sie c \<and> noff c' = noff c)"
  using pushes_state [OF assms] pops_nested [OF assms, of "pushes n c"] by blast

end
