(* ===== verification/Proc.thy ===== *)
theory Proc
  imports Riscv Locks
begin

text \<open>
  The process table of \<^verbatim>\<open>kernel/proc.c\<close> and the operations on it that do not touch user memory:
  process ids, \<^verbatim>\<open>sleep\<close> and \<^verbatim>\<open>wakeup\<close>, \<^verbatim>\<open>kill\<close>, \<^verbatim>\<open>reparent\<close>, accounting, and the checks of \<^verbatim>\<open>sched\<close>. A
  process is its index in the table; a channel is the kernel object whose address is slept on. The routines
  hold \<^verbatim>\<open>p->lock\<close> around each entry, so each treats an entry atomically; what they do to one entry is a
  definition of its own, which the theory \<open>Sleep\<close> interleaves lock by lock. The counter \<^verbatim>\<open>ticks\<close> is unsigned
  and the fields it is stored in are \<^verbatim>\<open>int\<close>, hence the \<open>sint\<close>.
\<close>

section \<open>Definitions\<close>

definition NPR :: nat where "NPR = 5"
definition NOFILE :: nat where "NOFILE = 16"

datatype procstate = UNUSED | USED | SLEEPING | RUNNABLE | RUNNING | ZOMBIE

datatype channel =
  NoChan | ProcChan nat | TicksChan | PipeReadChan nat | PipeWriteChan nat | ConsChan | UartChan
| SleepLockChan nat | LogChan | DiskChan nat

record proc =
  p_state :: procstate
  p_chan :: channel
  p_killed :: int
  p_xstate :: int
  p_pid :: int
  p_parent :: "nat option"
  p_kstack :: u64
  p_sz :: u64
  p_pagetable :: u64
  p_trapframe :: u64
  p_ctx_ra :: u64
  p_ctx_sp :: u64
  p_ofile :: "nat option list"
  p_cwd :: "nat option"
  p_name :: "u8 list"
  p_smask :: int
  p_interval :: int
  p_handler :: u64
  p_nticks :: int
  p_alarmOn :: int
  p_alarmContext :: u64
  p_ctime :: u32
  p_tickets :: int
  p_pbs_rtime :: int
  p_rtime :: u32
  p_stime :: int
  p_staticP :: int
  p_niceness :: int
  p_wtime :: int
  p_sch_no :: int
  p_etime :: u32
  p_rticks :: int
  p_wticks :: int
  p_pr :: u32

record ptable =
  procs :: "proc list"
  nextpid :: int
  initproc :: "nat option"
  ticks :: u32

definition set_proc :: "nat \<Rightarrow> (proc \<Rightarrow> proc) \<Rightarrow> ptable \<Rightarrow> ptable" where
  "set_proc i f t = t\<lparr>procs := (procs t)[i := f (procs t ! i)]\<rparr>"

definition proc_zero :: proc where
  "proc_zero = \<lparr>p_state = UNUSED, p_chan = NoChan, p_killed = 0, p_xstate = 0, p_pid = 0, p_parent = None,
     p_kstack = 0, p_sz = 0, p_pagetable = 0, p_trapframe = 0, p_ctx_ra = 0, p_ctx_sp = 0,
     p_ofile = replicate NOFILE None, p_cwd = None, p_name = replicate 16 0, p_smask = 0, p_interval = 0,
     p_handler = 0, p_nticks = 0, p_alarmOn = 0, p_alarmContext = 0, p_ctime = 0, p_tickets = 0,
     p_pbs_rtime = 0, p_rtime = 0, p_stime = 0, p_staticP = 0, p_niceness = 0, p_wtime = 0,
     p_sch_no = 0, p_etime = 0, p_rticks = 0, p_wticks = 0, p_pr = 0\<rparr>"

definition procinit :: "ptable \<Rightarrow> ptable" where
  "procinit t = t\<lparr>procs := map_index (\<lambda>i p. p\<lparr>p_state := UNUSED, p_kstack := KSTACK (of_nat i)\<rparr>) (procs t)\<rparr>"

definition allocpid :: "ptable \<Rightarrow> int \<times> ptable" where
  "allocpid t = (nextpid t, t\<lparr>nextpid := nextpid t + 1\<rparr>)"

text \<open>What \<^verbatim>\<open>wakeup\<close>, \<^verbatim>\<open>sleep\<close> and \<^verbatim>\<open>kill\<close> do to one entry while they hold its lock.\<close>

definition wake_entry :: "channel \<Rightarrow> u32 \<Rightarrow> proc \<Rightarrow> proc" where
  "wake_entry ch tk p =
     (if p_state p = SLEEPING \<and> p_chan p = ch then p\<lparr>p_state := RUNNABLE, p_wtime := sint tk\<rparr> else p)"

definition sleep_entry :: "channel \<Rightarrow> u32 \<Rightarrow> proc \<Rightarrow> proc" where
  "sleep_entry ch tk p = p\<lparr>p_chan := ch, p_state := SLEEPING, p_stime := sint tk\<rparr>"

definition kill_entry :: "proc \<Rightarrow> proc" where
  "kill_entry p = (let p = p\<lparr>p_killed := 1\<rparr> in if p_state p = SLEEPING then p\<lparr>p_state := RUNNABLE\<rparr> else p)"

definition wakeup :: "nat option \<Rightarrow> channel \<Rightarrow> ptable \<Rightarrow> ptable" where
  "wakeup me ch t =
     t\<lparr>procs := map_index (\<lambda>i p. if Some i \<noteq> me then wake_entry ch (ticks t) p else p) (procs t)\<rparr>"

text \<open>\<^verbatim>\<open>sleep\<close> up to the switch to the scheduler, and what it does when scheduled again.\<close>

definition sleep_enter :: "nat \<Rightarrow> channel \<Rightarrow> ptable \<Rightarrow> ptable" where
  "sleep_enter me ch t = set_proc me (sleep_entry ch (ticks t)) t"

definition sleep_resume :: "nat \<Rightarrow> ptable \<Rightarrow> ptable" where
  "sleep_resume me t = set_proc me (\<lambda>p. p\<lparr>p_chan := NoChan\<rparr>) t"

definition kill :: "int \<Rightarrow> ptable \<Rightarrow> int \<times> ptable" where
  "kill pid t =
     (case find_index (\<lambda>p. p_pid p = pid) (procs t) of
        None \<Rightarrow> (- 1, t)
      | Some i \<Rightarrow> (0, set_proc i kill_entry t))"

definition setkilled :: "nat \<Rightarrow> ptable \<Rightarrow> ptable" where
  "setkilled i t = set_proc i (\<lambda>p. p\<lparr>p_killed := 1\<rparr>) t"

definition killed :: "nat \<Rightarrow> ptable \<Rightarrow> int" where
  "killed i t = p_killed (procs t ! i)"

text \<open>The loop of \<^verbatim>\<open>reparent\<close>, which wakes \<^verbatim>\<open>initproc\<close> once per child it hands over.\<close>

primrec reparent_loop :: "nat list \<Rightarrow> nat option \<Rightarrow> nat \<Rightarrow> ptable \<Rightarrow> ptable" where
  "reparent_loop [] me p t = t"
| "reparent_loop (pp # pps) me p t =
     reparent_loop pps me p
       (if p_parent (procs t ! pp) = Some p
        then let t = set_proc pp (\<lambda>q. q\<lparr>p_parent := initproc t\<rparr>) t in
          (case initproc t of None \<Rightarrow> wakeup me NoChan t | Some i \<Rightarrow> wakeup me (ProcChan i) t)
        else t)"

definition reparent :: "nat \<Rightarrow> ptable \<Rightarrow> ptable" where
  "reparent p t = reparent_loop [0..<length (procs t)] (Some p) p t"

definition update_time :: "ptable \<Rightarrow> ptable" where
  "update_time t = t\<lparr>procs := map_index (\<lambda>i p.
     if p_state p = RUNNING then p\<lparr>p_rtime := p_rtime p + 1\<rparr> else p) (procs t)\<rparr>"

text \<open>The tests of \<^verbatim>\<open>sched\<close> before it switches stacks; \<^verbatim>\<open>yield\<close> runs them after marking the process runnable.\<close>

definition sched :: "nat \<Rightarrow> nat \<Rightarrow> spinlock \<Rightarrow> cpu \<Rightarrow> ptable \<Rightarrow> unit res" where
  "sched me id_cpu plock c t =
     (if \<not> holding id_cpu plock then Panic ''sched p->lock''
      else if noff c \<noteq> 1 then Panic ''sched locks''
      else if p_state (procs t ! me) = RUNNING then Panic ''sched running''
      else if intr_get c then Panic ''sched interruptible''
      else Ok ())"

definition yield :: "nat \<Rightarrow> nat \<Rightarrow> spinlock \<Rightarrow> cpu \<Rightarrow> ptable \<Rightarrow> (spinlock \<times> cpu \<times> ptable) res" where
  "yield me id_cpu plock c t =
     rbind (acquire id_cpu c plock) (\<lambda>(c, plock).
       let t = set_proc me (\<lambda>p. p\<lparr>p_state := RUNNABLE\<rparr>) t in
       rbind (sched me id_cpu plock c t) (\<lambda>_. Ok (plock, c, t)))"

text \<open>\<^verbatim>\<open>clockintr\<close> of \<^verbatim>\<open>kernel/trap.c\<close>.\<close>

definition clockintr :: "nat option \<Rightarrow> ptable \<Rightarrow> ptable" where
  "clockintr me t = wakeup me TicksChan (update_time (t\<lparr>ticks := ticks t + 1\<rparr>))"

section \<open>Lemmas\<close>

lemma set_proc_sel [simp]:
  "length (procs (set_proc i f t)) = length (procs t)" "nextpid (set_proc i f t) = nextpid t"
  "initproc (set_proc i f t) = initproc t" "ticks (set_proc i f t) = ticks t"
  by (simp_all add: set_proc_def)

lemma set_proc_nth:
  "j < length (procs t) \<Longrightarrow> procs (set_proc i f t) ! j = (if i = j then f (procs t ! j) else procs t ! j)"
  by (simp add: set_proc_def nth_list_update)

lemma wakeup_sel [simp]:
  "length (procs (wakeup me ch t)) = length (procs t)" "nextpid (wakeup me ch t) = nextpid t"
  "initproc (wakeup me ch t) = initproc t" "ticks (wakeup me ch t) = ticks t"
  by (simp_all add: wakeup_def)

lemma wakeup_nth:
  "i < length (procs t) \<Longrightarrow> procs (wakeup me ch t) ! i =
    (if Some i \<noteq> me \<and> p_state (procs t ! i) = SLEEPING \<and> p_chan (procs t ! i) = ch
     then (procs t ! i)\<lparr>p_state := RUNNABLE, p_wtime := sint (ticks t)\<rparr> else procs t ! i)"
  by (simp add: wakeup_def wake_entry_def)

lemma wakeup_parent: "i < length (procs t) \<Longrightarrow> p_parent (procs (wakeup me ch t) ! i) = p_parent (procs t ! i)"
  by (simp add: wakeup_nth)

text \<open>Every child of \<open>p\<close> in the part of the table already visited belongs to \<^verbatim>\<open>initproc\<close>; other parents stay.\<close>

lemma reparent_loop_parent:
  assumes "\<forall>j \<in> set pps. j < length (procs t)" "distinct pps" "i < length (procs t)"
  shows "p_parent (procs (reparent_loop pps me p t) ! i) =
      (if i \<in> set pps \<and> p_parent (procs t ! i) = Some p then initproc t else p_parent (procs t ! i)) \<and>
    length (procs (reparent_loop pps me p t)) = length (procs t) \<and> initproc (reparent_loop pps me p t) = initproc t"
  using assms
proof (induction pps arbitrary: t)
  case (Cons pp pps)
  let ?t1 = "set_proc pp (\<lambda>q. q\<lparr>p_parent := initproc t\<rparr>) t"
  let ?t = "if p_parent (procs t ! pp) = Some p
     then (case initproc ?t1 of None \<Rightarrow> wakeup me NoChan ?t1 | Some i \<Rightarrow> wakeup me (ProcChan i) ?t1) else t"
  have l: "length (procs ?t) = length (procs t)" "initproc ?t = initproc t" by (auto split: option.splits)
  have p: "p_parent (procs ?t ! j) = (if j = pp \<and> p_parent (procs t ! pp) = Some p then initproc t else p_parent (procs t ! j))"
    if "j < length (procs t)" for j
    using that by (auto simp: wakeup_parent set_proc_nth split: option.splits)
  have "reparent_loop (pp # pps) me p t = reparent_loop pps me p ?t" by (simp add: Let_def)
  with Cons.IH [of ?t] Cons.prems l p show ?case by auto
qed simp

text \<open>
  \<^verbatim>\<open>reparent\<close> leaves no child with an exiting process other than \<^verbatim>\<open>initproc\<close>: its children now belong
  to \<^verbatim>\<open>initproc\<close>, every other process keeps its parent.
\<close>

lemma reparent_hands_children_to_init:
  assumes "initproc t = Some ini" "ini \<noteq> p" "i < length (procs t)"
  shows "p_parent (procs (reparent p t) ! i) =
      (if p_parent (procs t ! i) = Some p then Some ini else p_parent (procs t ! i)) \<and>
    p_parent (procs (reparent p t) ! i) \<noteq> Some p"
  using reparent_loop_parent [of "[0..<length (procs t)]" t i "Some p" p] assms by (auto simp: reparent_def)

end
