(* ===== verification/Sleep.thy ===== *)
theory Sleep
  imports Proc
begin

text \<open>
  \<^verbatim>\<open>sleep\<close> and \<^verbatim>\<open>wakeup\<close> of \<^verbatim>\<open>kernel/proc.c\<close>, interleaved lock by lock among any number of processes, and the
  sleep locks of \<^verbatim>\<open>kernel/sleeplock.c\<close> on top of them. The users of a channel follow the pattern of the kernel:
  \<^verbatim>\<open>acquire(lk); while(nothing to take) sleep(chan, lk); take; release(lk)\<close> on one side and
  \<^verbatim>\<open>acquire(lk); give; wakeup(chan); release(lk)\<close> on the other. What taking and giving do to the data that \<^verbatim>\<open>lk\<close>
  protects is a parameter; a sleep lock is the instance whose data are its own two fields. Spin locks are
  their owners here, after the mutual exclusion shown in \<open>Locks\<close>.
\<close>

section \<open>Definitions\<close>

text \<open>
  Where an agent is. \<open>Call\<close>, \<open>Both\<close>, \<open>Only\<close> and \<open>Asleep\<close> are the points of \<^verbatim>\<open>sleep\<close> before it has \<^verbatim>\<open>p->lock\<close>, with
  both locks, with \<^verbatim>\<open>p->lock\<close> only, and switched away (the scheduler has released \<^verbatim>\<open>p->lock\<close>); in \<open>Resumed\<close> the
  scheduler has switched back to it, \<^verbatim>\<open>p->lock\<close> held. In \<open>Scan j\<close> the loop of \<^verbatim>\<open>wakeup\<close> is about to visit entry \<open>j\<close>,
  in \<open>Have j\<close> it holds that entry's lock. \<open>Past\<close> is past the \<^verbatim>\<open>release\<close> of a process that has taken.
\<close>

datatype swpc =
  Idle | Want | Test | Call | Both | Only | Asleep | Resumed | Past
| Begin | Locked | Scan nat | Have nat | Release

record 'd swsys =
  tab :: ptable
  lk_owner :: "nat option"
  pl_owner :: "nat \<Rightarrow> nat option"
  dat :: 'd
  pcs :: "nat \<Rightarrow> swpc"

abbreviation nproc :: "'d swsys \<Rightarrow> nat" where "nproc s \<equiv> length (procs (tab s))"

abbreviation entry :: "'d swsys \<Rightarrow> nat \<Rightarrow> proc" where "entry s j \<equiv> procs (tab s) ! j"

text \<open>
  One lock operation or store of the protocol by agent \<open>i\<close>. An agent whose number is not that of a process
  stands for an interrupt handler, which only gives. \<open>att i d\<close> is what \<open>i\<close> makes of the data when it finds
  something to take, \<open>None\<close> when it must sleep; with \<open>paired\<close> an agent gives back what it has taken, otherwise
  anyone may give.
\<close>

inductive sw_step :: "channel \<Rightarrow> (nat \<Rightarrow> 'd \<Rightarrow> 'd option) \<Rightarrow> (nat \<Rightarrow> 'd \<Rightarrow> 'd) \<Rightarrow> nat \<Rightarrow> 'd swsys \<Rightarrow> 'd swsys \<Rightarrow> bool"
  for ch :: channel and att :: "nat \<Rightarrow> 'd \<Rightarrow> 'd option" and giv :: "nat \<Rightarrow> 'd \<Rightarrow> 'd" and i :: nat where
  s_acquire: "\<lbrakk>pcs s i = Want; lk_owner s = None\<rbrakk> \<Longrightarrow>
     sw_step ch att giv i s (s\<lparr>lk_owner := Some i, pcs := (pcs s)(i := Test)\<rparr>)"
| s_take: "\<lbrakk>pcs s i = Test; att i (dat s) = Some d\<rbrakk> \<Longrightarrow>
     sw_step ch att giv i s (s\<lparr>dat := d, lk_owner := None, pcs := (pcs s)(i := Past)\<rparr>)"
| s_call: "\<lbrakk>pcs s i = Test; att i (dat s) = None\<rbrakk> \<Longrightarrow> sw_step ch att giv i s (s\<lparr>pcs := (pcs s)(i := Call)\<rparr>)"
| s_plock: "\<lbrakk>pcs s i = Call; pl_owner s i = None\<rbrakk> \<Longrightarrow>
     sw_step ch att giv i s (s\<lparr>pl_owner := (pl_owner s)(i := Some i), pcs := (pcs s)(i := Both)\<rparr>)"
| s_drop: "\<lbrakk>pcs s i = Both\<rbrakk> \<Longrightarrow> sw_step ch att giv i s (s\<lparr>lk_owner := None, pcs := (pcs s)(i := Only)\<rparr>)"
| s_switch: "\<lbrakk>pcs s i = Only\<rbrakk> \<Longrightarrow>
     sw_step ch att giv i s (s\<lparr>tab := sleep_enter i ch (tab s), pl_owner := (pl_owner s)(i := None), pcs := (pcs s)(i := Asleep)\<rparr>)"
| s_resume: "\<lbrakk>pcs s i = Asleep; p_state (entry s i) = RUNNABLE; pl_owner s i = None\<rbrakk> \<Longrightarrow>
     sw_step ch att giv i s (s\<lparr>tab := set_proc i (\<lambda>p. p\<lparr>p_state := RUNNING\<rparr>) (tab s),
       pl_owner := (pl_owner s)(i := Some i), pcs := (pcs s)(i := Resumed)\<rparr>)"
| s_tidy: "\<lbrakk>pcs s i = Resumed\<rbrakk> \<Longrightarrow>
     sw_step ch att giv i s (s\<lparr>tab := sleep_resume i (tab s), pl_owner := (pl_owner s)(i := None), pcs := (pcs s)(i := Want)\<rparr>)"
| w_acquire: "\<lbrakk>pcs s i = Begin; lk_owner s = None\<rbrakk> \<Longrightarrow>
     sw_step ch att giv i s (s\<lparr>lk_owner := Some i, pcs := (pcs s)(i := Locked)\<rparr>)"
| w_give: "\<lbrakk>pcs s i = Locked\<rbrakk> \<Longrightarrow> sw_step ch att giv i s (s\<lparr>dat := giv i (dat s), pcs := (pcs s)(i := Scan 0)\<rparr>)"
| w_self: "\<lbrakk>pcs s i = Scan j; j < nproc s; j = i\<rbrakk> \<Longrightarrow> sw_step ch att giv i s (s\<lparr>pcs := (pcs s)(i := Scan (Suc j))\<rparr>)"
| w_plock: "\<lbrakk>pcs s i = Scan j; j < nproc s; j \<noteq> i; pl_owner s j = None\<rbrakk> \<Longrightarrow>
     sw_step ch att giv i s (s\<lparr>pl_owner := (pl_owner s)(j := Some i), pcs := (pcs s)(i := Have j)\<rparr>)"
| w_wake: "\<lbrakk>pcs s i = Have j\<rbrakk> \<Longrightarrow>
     sw_step ch att giv i s (s\<lparr>tab := set_proc j (wake_entry ch (ticks (tab s))) (tab s),
       pl_owner := (pl_owner s)(j := None), pcs := (pcs s)(i := Scan (Suc j))\<rparr>)"
| w_scanned: "\<lbrakk>pcs s i = Scan j; j \<ge> nproc s\<rbrakk> \<Longrightarrow> sw_step ch att giv i s (s\<lparr>pcs := (pcs s)(i := Release)\<rparr>)"
| w_release: "\<lbrakk>pcs s i = Release\<rbrakk> \<Longrightarrow> sw_step ch att giv i s (s\<lparr>lk_owner := None, pcs := (pcs s)(i := Idle)\<rparr>)"

text \<open>
  What else can happen: an agent starts on either side or is through, a \<^verbatim>\<open>kill\<close> or a \<^verbatim>\<open>wakeup\<close> of some channel reaches
  an entry, the clock ticks, and a process that is in neither \<^verbatim>\<open>sleep\<close> nor a critical section is rescheduled or
  sleeps elsewhere.
\<close>

inductive env_step :: "channel \<Rightarrow> bool \<Rightarrow> 'd swsys \<Rightarrow> 'd swsys \<Rightarrow> bool"
  for ch :: channel and paired :: bool where
  wants: "\<lbrakk>pcs s i = Idle; i < nproc s\<rbrakk> \<Longrightarrow> env_step ch paired s (s\<lparr>pcs := (pcs s)(i := Want)\<rparr>)"
| gives: "\<lbrakk>pcs s i = Past \<or> pcs s i = Idle \<and> \<not> paired\<rbrakk> \<Longrightarrow> env_step ch paired s (s\<lparr>pcs := (pcs s)(i := Begin)\<rparr>)"
| leaves: "\<lbrakk>pcs s i = Past; \<not> paired\<rbrakk> \<Longrightarrow> env_step ch paired s (s\<lparr>pcs := (pcs s)(i := Idle)\<rparr>)"
| kills: "\<lbrakk>j < nproc s; pl_owner s j = None\<rbrakk> \<Longrightarrow> env_step ch paired s (s\<lparr>tab := set_proc j kill_entry (tab s)\<rparr>)"
| wakes: "\<lbrakk>j < nproc s; pl_owner s j = None\<rbrakk> \<Longrightarrow>
     env_step ch paired s (s\<lparr>tab := set_proc j (wake_entry c (ticks (tab s))) (tab s)\<rparr>)"
| moves: "\<lbrakk>j < nproc s; pl_owner s j = None; pcs s j \<in> {Idle, Want, Past, Begin}; p_pid p = p_pid (entry s j);
      p_state p \<noteq> SLEEPING \<or> p_chan p \<noteq> ch\<rbrakk> \<Longrightarrow> env_step ch paired s (s\<lparr>tab := set_proc j (\<lambda>_. p) (tab s)\<rparr>)"
| tick: "env_step ch paired s (s\<lparr>tab := (tab s)\<lparr>ticks := tk\<rparr>\<rparr>)"

definition run_step ::
  "channel \<Rightarrow> (nat \<Rightarrow> 'd \<Rightarrow> 'd option) \<Rightarrow> (nat \<Rightarrow> 'd \<Rightarrow> 'd) \<Rightarrow> bool \<Rightarrow> 'd swsys \<Rightarrow> 'd swsys \<Rightarrow> bool" where
  "run_step ch att giv paired s s' \<longleftrightarrow> (\<exists>i. sw_step ch att giv i s s') \<or> env_step ch paired s s'"

text \<open>Nobody has started, and nobody sleeps on the channel.\<close>

definition sw_start :: "channel \<Rightarrow> 'd \<Rightarrow> 'd swsys \<Rightarrow> bool" where
  "sw_start ch d s \<longleftrightarrow> lk_owner s = None \<and> pl_owner s = (\<lambda>_. None) \<and> dat s = d \<and> pcs s = (\<lambda>_. Idle) \<and>
     (\<forall>j < nproc s. p_state (entry s j) \<noteq> SLEEPING \<or> p_chan (entry s j) \<noteq> ch)"

text \<open>Asleep on the channel, or past the point where \<^verbatim>\<open>sleep\<close> has let go of the data's lock.\<close>

definition in_sleep :: "'d swsys \<Rightarrow> nat \<Rightarrow> bool" where
  "in_sleep s j \<longleftrightarrow> pcs s j = Only \<or> pcs s j = Asleep \<and> p_state (entry s j) = SLEEPING"

definition has_lk :: "swpc \<Rightarrow> bool" where
  "has_lk c \<longleftrightarrow> c \<in> {Test, Call, Both, Locked, Release} \<union> range Scan \<union> range Have"

definition has_pl :: "nat \<Rightarrow> nat \<Rightarrow> swpc \<Rightarrow> bool" where
  "has_pl j i c \<longleftrightarrow> i = j \<and> c \<in> {Both, Only, Resumed} \<or> c = Have j"

definition sw_locks :: "'d swsys \<Rightarrow> bool" where
  "sw_locks s \<longleftrightarrow> (\<forall>i. lk_owner s = Some i \<longleftrightarrow> has_lk (pcs s i)) \<and> (\<forall>i j. pl_owner s j = Some i \<longleftrightarrow> has_pl j i (pcs s i))"

definition sw_index :: "'d swsys \<Rightarrow> bool" where
  "sw_index s \<longleftrightarrow>
     (\<forall>i. pcs s i \<in> {Want, Test, Call, Both, Only, Asleep, Resumed} \<longrightarrow> i < nproc s) \<and>
     (\<forall>i j. pcs s i = Have j \<longrightarrow> j < nproc s \<and> j \<noteq> i)"

definition entry_ok :: "channel \<Rightarrow> swpc \<Rightarrow> proc \<Rightarrow> bool" where
  "entry_ok ch c p \<longleftrightarrow> (p_state p = SLEEPING \<and> p_chan p = ch \<longrightarrow> c = Asleep) \<and>
     (c = Asleep \<longrightarrow> p_state p \<in> {SLEEPING, RUNNABLE} \<and> p_chan p = ch) \<and> (c = Resumed \<longrightarrow> p_state p \<noteq> SLEEPING)"

definition sw_entries :: "channel \<Rightarrow> 'd swsys \<Rightarrow> bool" where
  "sw_entries ch s \<longleftrightarrow> (\<forall>j < nproc s. entry_ok ch (pcs s j) (entry s j))"

text \<open>The loop of some \<^verbatim>\<open>wakeup\<close> has yet to finish with entry \<open>i\<close>.\<close>

definition waker_before :: "'d swsys \<Rightarrow> nat \<Rightarrow> bool" where
  "waker_before s i \<longleftrightarrow> (\<exists>w j. pcs s w \<in> {Scan j, Have j} \<and> j \<le> i)"

definition sw_waits :: "(nat \<Rightarrow> 'd \<Rightarrow> 'd option) \<Rightarrow> 'd swsys \<Rightarrow> bool" where
  "sw_waits att s \<longleftrightarrow>
     (\<forall>i. pcs s i \<in> {Call, Both} \<longrightarrow> att i (dat s) = None) \<and>
     (\<forall>i. in_sleep s i \<and> att i (dat s) \<noteq> None \<longrightarrow> waker_before s i)"

definition sw_inv :: "channel \<Rightarrow> (nat \<Rightarrow> 'd \<Rightarrow> 'd option) \<Rightarrow> 'd swsys \<Rightarrow> bool" where
  "sw_inv ch att s \<longleftrightarrow> sw_locks s \<and> sw_index s \<and> sw_entries ch s \<and> sw_waits att s"

subsection \<open>Sleep locks\<close>

text \<open>
  \<^verbatim>\<open>releasesleep\<close> by process \<open>me\<close> of the lock at channel \<open>ch\<close>. In the step relation it is what an agent does from
  \<open>Locked\<close> to \<open>Release\<close>, and \<^verbatim>\<open>acquiresleep\<close> is the taking side; the holder is past the one and not yet
  through with the stores of the other.
\<close>

definition releasesleep :: "nat \<Rightarrow> channel \<Rightarrow> sleeplock \<times> ptable \<Rightarrow> sleeplock \<times> ptable" where
  "releasesleep me ch = (\<lambda>(lk, t). (releasesleep_fields lk, wakeup (Some me) ch t))"

abbreviation sl_take :: "ptable \<Rightarrow> nat \<Rightarrow> sleeplock \<Rightarrow> sleeplock option" where
  "sl_take t i \<equiv> acquiresleep (p_pid (procs t ! i))"

abbreviation sl_give :: "nat \<Rightarrow> sleeplock \<Rightarrow> sleeplock" where
  "sl_give i \<equiv> releasesleep_fields"

definition holds :: "'d swsys \<Rightarrow> nat \<Rightarrow> bool" where
  "holds s i \<longleftrightarrow> pcs s i \<in> {Past, Begin, Locked}"

definition sl_inv :: "ptable \<Rightarrow> sleeplock swsys \<Rightarrow> bool" where
  "sl_inv t0 s \<longleftrightarrow> length (procs t0) = nproc s \<and> (\<forall>j < nproc s. p_pid (entry s j) = p_pid (procs t0 ! j)) \<and>
     (\<forall>i. holds s i \<longrightarrow> i < nproc s \<and> lock_pid (dat s) = p_pid (procs t0 ! i) \<and> slocked (dat s) \<noteq> 0) \<and>
     (slocked (dat s) \<noteq> 0 \<longrightarrow> (\<exists>i. holds s i)) \<and> (\<forall>i j. holds s i \<and> holds s j \<longrightarrow> i = j)"

section \<open>Lemmas\<close>

lemma has_lk_simps [simp]:
  "has_lk Test" "has_lk Call" "has_lk Both" "has_lk Locked" "has_lk Release" "has_lk (Scan j)" "has_lk (Have j)"
  "\<not> has_lk Idle" "\<not> has_lk Want" "\<not> has_lk Only" "\<not> has_lk Asleep" "\<not> has_lk Resumed" "\<not> has_lk Past" "\<not> has_lk Begin"
  by (auto simp: has_lk_def)

lemma has_pl_simps [simp]:
  "has_pl j i Both \<longleftrightarrow> i = j" "has_pl j i Only \<longleftrightarrow> i = j" "has_pl j i Resumed \<longleftrightarrow> i = j" "has_pl j i (Have k) \<longleftrightarrow> k = j"
  "\<not> has_pl j i Idle" "\<not> has_pl j i Want" "\<not> has_pl j i Test" "\<not> has_pl j i Call" "\<not> has_pl j i Asleep" "\<not> has_pl j i Past"
  "\<not> has_pl j i Begin" "\<not> has_pl j i Locked" "\<not> has_pl j i (Scan k)" "\<not> has_pl j i Release"
  by (auto simp: has_pl_def)

lemma entry_simps [simp]:
  "length (procs (sleep_enter i ch t)) = length (procs t)" "length (procs (sleep_resume i t)) = length (procs t)"
  by (simp_all add: sleep_enter_def sleep_resume_def)

lemma sw_locks_lk: "sw_locks s \<Longrightarrow> lk_owner s = Some i \<longleftrightarrow> has_lk (pcs s i)"
  by (simp add: sw_locks_def)

lemma sw_locks_pl: "sw_locks s \<Longrightarrow> pl_owner s j = Some i \<longleftrightarrow> has_pl j i (pcs s i)"
  by (simp add: sw_locks_def)

lemma sw_locks_free: "sw_locks s \<Longrightarrow> lk_owner s = None \<Longrightarrow> \<not> has_lk (pcs s i)"
  by (metis option.distinct(1) sw_locks_lk)

lemma sw_locks_unique: "sw_locks s \<Longrightarrow> has_lk (pcs s i) \<Longrightarrow> has_lk (pcs s j) \<Longrightarrow> i = j"
  by (metis option.inject sw_locks_lk)

lemma sw_pl_free: "sw_locks s \<Longrightarrow> pl_owner s j = None \<Longrightarrow> \<not> has_pl j i (pcs s i)"
  by (metis option.distinct(1) sw_locks_pl)

lemma sw_pl_unique: "sw_locks s \<Longrightarrow> has_pl k i (pcs s i) \<Longrightarrow> has_pl k j (pcs s j) \<Longrightarrow> i = j"
  by (metis option.inject sw_locks_pl)

lemma sw_step_index:
  assumes "sw_step ch att giv i s s'" "sw_index s"
  shows "sw_index s' \<and> nproc s' = nproc s"
  using assms(1)
  by cases (use assms(2) in \<open>auto simp: sw_index_def\<close>)

text \<open>Agent \<open>i\<close> moves; each lock it needs then it had or it finds free, each it no longer needs is free after.\<close>

lemma sw_locks_move:
  assumes "sw_locks s" "\<And>k. k \<noteq> i \<Longrightarrow> pcs s' k = pcs s k"
    and "if has_lk (pcs s' i) then lk_owner s' = Some i \<and> (has_lk (pcs s i) \<or> lk_owner s = None)
      else lk_owner s' = (if has_lk (pcs s i) then None else lk_owner s)"
    and "\<And>j. if has_pl j i (pcs s' i) then pl_owner s' j = Some i \<and> (has_pl j i (pcs s i) \<or> pl_owner s j = None)
      else pl_owner s' j = (if has_pl j i (pcs s i) then None else pl_owner s j)"
  shows "sw_locks s'"
proof -
  have "lk_owner s' = Some k \<longleftrightarrow> has_lk (pcs s' k)" for k
    using assms(2) [of k] assms(3) sw_locks_lk [OF assms(1), of k] sw_locks_unique [OF assms(1), of i k]
    by (cases "k = i") (auto split: if_splits)
  moreover have "pl_owner s' j = Some k \<longleftrightarrow> has_pl j k (pcs s' k)" for j k
    using assms(2) [of k] assms(4) [of j] sw_locks_pl [OF assms(1), of j k] sw_pl_unique [OF assms(1), of j i k]
    by (cases "k = i") (auto split: if_splits)
  ultimately show ?thesis by (simp add: sw_locks_def)
qed

lemma sw_step_pcs: "sw_step ch att giv i s s' \<Longrightarrow> k \<noteq> i \<Longrightarrow> pcs s' k = pcs s k"
  by (induction rule: sw_step.induct) simp_all

lemma sw_step_locks:
  assumes "sw_step ch att giv i s s'" "sw_locks s"
  shows "sw_locks s'"
proof (rule sw_locks_move [OF assms(2) sw_step_pcs [OF assms(1)]])
  have l: "has_lk (pcs s i) \<Longrightarrow> lk_owner s = Some i" and p: "has_pl j i (pcs s i) \<Longrightarrow> pl_owner s j = Some i" for j
    using assms(2) by (simp_all add: sw_locks_def)
  show "if has_lk (pcs s' i) then lk_owner s' = Some i \<and> (has_lk (pcs s i) \<or> lk_owner s = None)
      else lk_owner s' = (if has_lk (pcs s i) then None else lk_owner s)"
    using assms(1) by cases (use l in auto)
  show "if has_pl j i (pcs s' i) then pl_owner s' j = Some i \<and> (has_pl j i (pcs s i) \<or> pl_owner s j = None)
      else pl_owner s' j = (if has_pl j i (pcs s i) then None else pl_owner s j)" for j
    using assms(1) by cases (use p [of j] in auto)
qed

lemma env_step_locks:
  assumes "env_step ch paired s s'" "sw_locks s" "sw_index s"
  shows "sw_locks s' \<and> sw_index s' \<and> nproc s' = nproc s"
  using assms(1) by cases (use assms(2,3) in \<open>auto simp: sw_locks_def sw_index_def\<close>)

lemma entry_ok_sleep: "entry_ok ch Asleep (sleep_entry ch tk p)"
  by (simp add: entry_ok_def sleep_entry_def)

lemma wake_entry_cases:
  "p_state p = SLEEPING \<Longrightarrow> p_chan p = ch \<Longrightarrow> wake_entry ch tk p = p\<lparr>p_state := RUNNABLE, p_wtime := sint tk\<rparr>"
  "\<not> (p_state p = SLEEPING \<and> p_chan p = ch) \<Longrightarrow> wake_entry ch tk p = p"
  unfolding wake_entry_def by (simp, rule if_not_P)

lemma kill_entry_cases:
  "p_state p = SLEEPING \<Longrightarrow> kill_entry p = p\<lparr>p_killed := 1, p_state := RUNNABLE\<rparr>"
  "p_state p \<noteq> SLEEPING \<Longrightarrow> kill_entry p = p\<lparr>p_killed := 1\<rparr>"
  by (simp_all add: kill_entry_def)

lemma entry_ok_wake:
  assumes "entry_ok ch c p"
  shows "entry_ok ch c (wake_entry c' tk p)"
proof (cases "p_state p = SLEEPING \<and> p_chan p = c'")
  case True
  then show ?thesis using assms by (simp add: entry_ok_def wake_entry_cases(1))
qed (use assms wake_entry_cases(2) in simp)

lemma entry_ok_kill:
  assumes "entry_ok ch c p"
  shows "entry_ok ch c (kill_entry p)"
  using assms by (cases "p_state p = SLEEPING") (simp_all add: entry_ok_def kill_entry_cases)

lemma entry_ok_running: "c \<noteq> Asleep \<Longrightarrow> p_state p \<noteq> SLEEPING \<or> p_chan p \<noteq> ch \<Longrightarrow> c \<noteq> Resumed \<or> p_state p \<noteq> SLEEPING \<Longrightarrow> entry_ok ch c p"
  unfolding entry_ok_def by blast

lemma entry_ok_resumed: "entry_ok ch Resumed p \<Longrightarrow> p_state p \<noteq> SLEEPING"
  unfolding entry_ok_def by blast

lemma entry_ok_pc: "entry_ok ch c p \<Longrightarrow> c \<noteq> Asleep \<Longrightarrow> c' \<noteq> Asleep \<Longrightarrow> c' \<noteq> Resumed \<Longrightarrow> entry_ok ch c' p"
  unfolding entry_ok_def by blast

lemma sw_step_entry_ok:
  assumes "sw_step ch att giv i s s'" "entry_ok ch (pcs s j) (entry s j)" "j < nproc s"
  shows "entry_ok ch (pcs s' j) (entry s' j)"
proof (cases "j = i")
  case True
  show ?thesis using assms(1)
  proof cases
    case s_switch
    then show ?thesis using assms(3) True by (simp add: sleep_enter_def set_proc_nth entry_ok_sleep)
  next
    case s_resume
    then show ?thesis using assms(3) True by (simp add: set_proc_nth entry_ok_running)
  next
    case s_tidy
    have "entry s' j = (entry s j)\<lparr>p_chan := NoChan\<rparr>" "pcs s' j = Want"
      using s_tidy assms(3) True by (simp_all add: sleep_resume_def set_proc_nth)
    moreover have "p_state (entry s j) \<noteq> SLEEPING" using entry_ok_resumed assms(2) s_tidy(2) True by simp
    ultimately show ?thesis by (intro entry_ok_running) simp_all
  next
    case (w_wake k)
    have "entry s' j = (if k = j then wake_entry ch (ticks (tab s)) (entry s j) else entry s j)" "pcs s' j = Scan (Suc k)"
      using w_wake assms(3) True by (simp_all add: set_proc_nth)
    moreover have "entry_ok ch (Scan (Suc k)) (entry s j)" using entry_ok_pc [OF assms(2)] w_wake(2) True by simp
    ultimately show ?thesis using entry_ok_wake [of ch "Scan (Suc k)" "entry s j"] by (cases "k = j") simp_all
  qed (use True entry_ok_pc [OF assms(2)] in \<open>simp_all\<close>)
next
  case False
  show ?thesis using assms(1)
    by cases (use assms(2,3) False entry_ok_wake [OF assms(2), of ch] in \<open>simp_all add: sleep_enter_def sleep_resume_def set_proc_nth\<close>)
qed

lemma env_step_entry_ok:
  assumes "env_step ch paired s s'" "entry_ok ch (pcs s j) (entry s j)" "j < nproc s"
  shows "entry_ok ch (pcs s' j) (entry s' j)"
  using assms(1)
proof cases
  case (kills k)
  then show ?thesis using assms(3) entry_ok_kill [OF assms(2)] assms(2) by (simp add: set_proc_nth)
next
  case (wakes k c)
  then show ?thesis using assms(3) entry_ok_wake [OF assms(2), of c] assms(2) by (simp add: set_proc_nth)
next
  case (moves k p)
  then show ?thesis using assms(2,3) entry_ok_running [of "pcs s k" p ch] by (cases "k = j") (auto simp: set_proc_nth)
qed (use assms(2) entry_ok_pc [OF assms(2)] in \<open>auto\<close>)

lemma in_sleep_facts:
  assumes "in_sleep s k" "sw_index s" "has_lk (pcs s i)"
  shows "k < nproc s" "k \<noteq> i"
  using assms by (auto simp: in_sleep_def sw_index_def)

lemma waker_has_lk:
  assumes "waker_before s k" "sw_locks s" "has_lk (pcs s i)"
  shows "\<exists>j. pcs s i \<in> {Scan j, Have j} \<and> j \<le> k"
proof -
  obtain w j where w: "pcs s w \<in> {Scan j, Have j}" "j \<le> k" using assms(1) by (auto simp: waker_before_def)
  then have "has_lk (pcs s w)" by auto
  then have "w = i" using sw_locks_unique [OF assms(2) _ assms(3)] by blast
  with w show ?thesis by blast
qed

lemma waker_kept:
  assumes "waker_before s k" "\<And>w. w \<noteq> i \<Longrightarrow> pcs s' w = pcs s w" "\<not> has_lk (pcs s i)"
  shows "waker_before s' k"
proof -
  obtain w j where w: "pcs s w \<in> {Scan j, Have j}" "j \<le> k" using assms(1) by (auto simp: waker_before_def)
  then have "w \<noteq> i" using assms(3) by auto
  then show ?thesis using w assms(2) unfolding waker_before_def by metis
qed

lemma set_proc_asleep:
  assumes "p_state (procs (set_proc j f t) ! k) = SLEEPING" "p_state (f (procs t ! j)) = SLEEPING \<Longrightarrow> p_state (procs t ! j) = SLEEPING"
  shows "p_state (procs t ! k) = SLEEPING"
proof (cases "k = j \<and> j < length (procs t)")
  case True
  then show ?thesis using assms by (simp add: set_proc_def)
next
  case False
  then have "procs (set_proc j f t) ! k = procs t ! k"
    by (cases "j < length (procs t)") (simp_all add: set_proc_def list_update_beyond)
  then show ?thesis using assms(1) by simp
qed

lemma wake_kill_asleep:
  "p_state (wake_entry ch tk p) = SLEEPING \<Longrightarrow> p_state p = SLEEPING" "p_state (kill_entry p) = SLEEPING \<Longrightarrow> p_state p = SLEEPING"
  by (simp_all add: wake_entry_def kill_entry_def Let_def split: if_splits)

lemma sw_step_in_sleep:
  assumes "sw_step ch att giv i s s'" "in_sleep s' k"
  shows "in_sleep s k \<or> k = i \<and> pcs s i = Both"
  using assms(1)
proof cases
  case s_resume
  then show ?thesis using assms(2) set_proc_asleep [of i "\<lambda>p. p\<lparr>p_state := RUNNING\<rparr>" "tab s" k]
    by (auto simp: in_sleep_def split: if_splits)
next
  case s_tidy
  then show ?thesis using assms(2) set_proc_asleep [of i "\<lambda>p. p\<lparr>p_chan := NoChan\<rparr>" "tab s" k]
    by (auto simp: in_sleep_def sleep_resume_def split: if_splits)
next
  case s_switch
  then show ?thesis using assms(2) by (auto simp: in_sleep_def sleep_enter_def set_proc_def split: if_splits)
next
  case (w_wake j)
  then show ?thesis using assms(2) set_proc_asleep [of j "wake_entry ch (ticks (tab s))" "tab s" k] wake_kill_asleep(1) [of ch "ticks (tab s)" "entry s j"]
    by (auto simp: in_sleep_def split: if_splits)
qed (use assms(2) in \<open>auto simp: in_sleep_def split: if_splits\<close>)

lemma sw_step_dat:
  assumes "sw_step ch att giv i s s'"
  shows "dat s' = dat s \<or> pcs s i = Test \<and> att i (dat s) = Some (dat s') \<or> pcs s i = Locked \<and> pcs s' i = Scan 0"
  using assms by cases auto

text \<open>The entry a waker has just visited is not asleep: its lock was the waker's, and a sleeper was woken.\<close>

lemma woken_not_in_sleep:
  assumes "sw_inv ch att s" "pcs s i = Have j"
  shows "\<not> in_sleep (s\<lparr>tab := set_proc j (wake_entry ch tk) (tab s), pl_owner := pl, pcs := (pcs s)(i := c)\<rparr>) j"
proof -
  have L: "sw_locks s" and j: "j < nproc s" "j \<noteq> i" and E: "entry_ok ch (pcs s j) (entry s j)"
    using assms by (auto simp: sw_inv_def sw_index_def sw_entries_def)
  have "\<not> has_pl j j (pcs s j)" using sw_pl_unique [OF L, of j i j] assms(2) j(2) by auto
  then have "pcs s j \<noteq> Only" by auto
  moreover have "p_state (wake_entry ch tk (entry s j)) \<noteq> SLEEPING" if "pcs s j = Asleep"
  proof -
    have "p_chan (entry s j) = ch" using E that unfolding entry_ok_def by blast
    then show ?thesis by (cases "p_state (entry s j) = SLEEPING") (simp_all add: wake_entry_cases)
  qed
  ultimately show ?thesis using j by (auto simp: in_sleep_def set_proc_nth)
qed

locale sleep_client =
  fixes att :: "nat \<Rightarrow> 'd \<Rightarrow> 'd option"
  assumes taking_enables_nobody: "\<lbrakk>att i d = Some d'; att j d = None\<rbrakk> \<Longrightarrow> att j d' = None"
begin

lemma step_sleeper:
  assumes st: "sw_step ch att giv i s s'" and inv: "sw_inv ch att s"
    and k: "in_sleep s' k" "att k (dat s') \<noteq> None"
  shows "waker_before s' k"
proof (cases "pcs s i = Locked")
  case True
  have "pcs s' i = Scan 0" using st by cases (use True in auto)
  then show ?thesis unfolding waker_before_def by (intro exI [of _ i] exI [of _ 0]) simp
next
  case False
  have L: "sw_locks s" and X: "sw_index s" and C: "\<And>i. pcs s i \<in> {Call, Both} \<Longrightarrow> att i (dat s) = None"
    using inv by (auto simp: sw_inv_def sw_waits_def)
  have att: "att k (dat s) \<noteq> None" using sw_step_dat [OF st] k(2) taking_enables_nobody [of i "dat s" "dat s'" k] False by metis
  then have S: "in_sleep s k" using sw_step_in_sleep [OF st k(1)] C by auto
  then have W: "waker_before s k" using inv att by (auto simp: sw_inv_def sw_waits_def)
  show ?thesis
  proof (cases "has_lk (pcs s i)")
    case False
    with waker_kept [OF W sw_step_pcs [OF st]] show ?thesis by simp
  next
    case True
    then obtain j where j: "pcs s i = Scan j \<or> pcs s i = Have j" "j \<le> k" using waker_has_lk [OF W L] by auto
    have k': "k < nproc s" "k \<noteq> i" using in_sleep_facts [OF S X True] by auto
    have "\<exists>j'. pcs s' i \<in> {Scan j', Have j'} \<and> j' \<le> k" using st
    proof cases
      case (w_wake j')
      then have "k \<noteq> j" using woken_not_in_sleep [OF inv, of i j] k(1) j(1) by auto
      then show ?thesis using w_wake j by auto
    qed (use j k' in auto)
    then show ?thesis by (auto simp: waker_before_def)
  qed
qed

lemma step_inv:
  assumes "sw_step ch att giv i s s'" "sw_inv ch att s"
  shows "sw_inv ch att s'"
proof -
  have L: "sw_locks s" and X: "sw_index s" and E: "sw_entries ch s" and C: "\<And>i. pcs s i \<in> {Call, Both} \<Longrightarrow> att i (dat s) = None"
    using assms(2) by (auto simp: sw_inv_def sw_waits_def)
  have "att k (dat s') = None" if "pcs s' k \<in> {Call, Both}" for k
  proof (cases "k = i")
    case True
    show ?thesis using assms(1) by cases (use True that C [of i] in auto)
  next
    case False
    then have k: "pcs s k \<in> {Call, Both}" using sw_step_pcs [OF assms(1)] that by simp
    then have "\<not> has_lk (pcs s i)" using sw_locks_unique [OF L, of k i] False by auto
    then show ?thesis using sw_step_dat [OF assms(1)] C [OF k] by auto
  qed
  moreover have "sw_entries ch s'"
    using E sw_step_entry_ok [OF assms(1)] sw_step_index [OF assms(1) X] by (simp add: sw_entries_def)
  ultimately show ?thesis
    using step_sleeper [OF assms] sw_step_locks [OF assms(1) L] sw_step_index [OF assms(1) X] unfolding sw_inv_def sw_waits_def by blast
qed

end

lemma env_step_in_sleep:
  assumes "env_step ch paired s s'" "in_sleep s' k"
  shows "in_sleep s k"
  using assms(1)
proof cases
  case (kills j)
  then show ?thesis using assms(2) set_proc_asleep [of j kill_entry "tab s" k] wake_kill_asleep(2) [of "entry s j"] by (auto simp: in_sleep_def)
next
  case (wakes j c)
  then show ?thesis using assms(2) set_proc_asleep [of j "wake_entry c (ticks (tab s))" "tab s" k] wake_kill_asleep(1) [of c "ticks (tab s)" "entry s j"]
    by (auto simp: in_sleep_def)
next
  case (moves j p)
  then have "k \<noteq> j" using assms(2) by (auto simp: in_sleep_def)
  then show ?thesis using moves assms(2) by (simp add: in_sleep_def set_proc_def)
qed (use assms(2) in \<open>auto simp: in_sleep_def split: if_splits\<close>)

lemma env_step_inv:
  assumes "env_step ch paired s s'" "sw_inv ch att s"
  shows "sw_inv ch att s'"
proof -
  have L: "sw_locks s" and X: "sw_index s" and E: "sw_entries ch s" and C: "\<And>i. pcs s i \<in> {Call, Both} \<Longrightarrow> att i (dat s) = None"
    and W: "\<And>i. in_sleep s i \<Longrightarrow> att i (dat s) \<noteq> None \<Longrightarrow> waker_before s i"
    using assms(2) by (auto simp: sw_inv_def sw_waits_def)
  note N = env_step_locks [OF assms(1) L X]
  have "dat s' = dat s" using assms(1) by cases auto
  moreover have "pcs s k \<in> {Call, Both}" if "pcs s' k \<in> {Call, Both}" for k
    using assms(1) by cases (use that in \<open>auto split: if_splits\<close>)
  moreover have "in_sleep s k" if "in_sleep s' k" for k using env_step_in_sleep [OF assms(1) that] .
  moreover have "waker_before s' k" if wk: "waker_before s k" for k
  proof -
    obtain w j where w: "pcs s w \<in> {Scan j, Have j}" "j \<le> k" using wk by (auto simp: waker_before_def)
    have "pcs s' w = pcs s w" using assms(1) by cases (use w in auto)
    then show ?thesis using w unfolding waker_before_def by metis
  qed
  ultimately have "sw_waits att s'" using C W by (simp add: sw_waits_def)
  moreover have "sw_entries ch s'"
    using E env_step_entry_ok [OF assms(1)] N by (simp add: sw_entries_def)
  ultimately show ?thesis using N by (simp add: sw_inv_def)
qed

lemma sw_start_inv:
  assumes "sw_start ch d s"
  shows "sw_inv ch att s"
proof -
  have "sw_entries ch s" using assms entry_ok_running [of Idle _ ch] by (simp add: sw_entries_def sw_start_def)
  then show ?thesis using assms
    by (simp add: sw_start_def sw_inv_def sw_locks_def sw_index_def sw_waits_def in_sleep_def)
qed

context sleep_client
begin

lemma run_inv:
  assumes "(run_step ch att giv paired)\<^sup>*\<^sup>* s0 s" "sw_start ch d s0"
  shows "sw_inv ch att s"
  using assms(1)
proof (induction rule: rtranclp_induct)
  case base
  show ?case using sw_start_inv [OF assms(2)] .
next
  case (step s s')
  then show ?case using step_inv env_step_inv unfolding run_step_def by blast
qed

end

lemma owner_progress:
  assumes "sw_inv ch att s" "has_lk (pcs s i)"
  shows "\<exists>k s'. sw_step ch att giv k s s'"
proof (cases "pcs s i")
  case Test
  then show ?thesis by (cases "att i (dat s)") (auto intro: sw_step.s_take sw_step.s_call)
next
  case Call
  have "pl_owner s i = None"
  proof (cases "pl_owner s i")
    case (Some x)
    then have x: "has_pl i x (pcs s x)" using assms(1) by (simp add: sw_inv_def sw_locks_def)
    then have "x \<noteq> i" using Call by auto
    then have "pcs s x = Have i" using x by (auto simp: has_pl_def)
    then have "x = i" using sw_locks_unique [of s x i] assms by (simp add: sw_inv_def)
    with \<open>x \<noteq> i\<close> show ?thesis by simp
  qed
  then show ?thesis using Call by (blast intro: sw_step.s_plock)
next
  case (Scan j)
  consider "j \<ge> nproc s" | "j < nproc s" "j = i" | "j < nproc s" "j \<noteq> i" "pl_owner s j = None"
    | x where "j \<noteq> i" "pl_owner s j = Some x" by fastforce
  then show ?thesis
  proof cases
    case 4
    then have x: "has_pl j x (pcs s x)" using assms(1) by (simp add: sw_inv_def sw_locks_def)
    have "\<not> has_lk (pcs s x)" if "x = j" using sw_locks_unique [of s x i] assms 4(1) that by (auto simp: sw_inv_def)
    then have "pcs s x = Only \<or> pcs s x = Resumed \<or> pcs s x = Have j" using x by (auto simp: has_pl_def)
    then show ?thesis by (blast intro: sw_step.intros)
  qed (use Scan in \<open>blast intro: sw_step.intros\<close>)+
qed (use assms(2) in \<open>auto intro: sw_step.intros\<close>)

lemma sw_progress:
  assumes "sw_inv ch att s" "pcs s i \<notin> {Idle, Past}" "pcs s i = Asleep \<longrightarrow> p_state (entry s i) \<noteq> SLEEPING"
  shows "\<exists>k s'. sw_step ch att giv k s s'"
proof (cases "lk_owner s")
  case (Some k)
  then have "has_lk (pcs s k)" using assms(1) sw_locks_lk by (auto simp: sw_inv_def)
  from owner_progress [OF assms(1) this] show ?thesis .
next
  case None
  then have n: "\<not> has_lk (pcs s k)" for k using assms(1) sw_locks_free by (auto simp: sw_inv_def)
  show ?thesis
  proof (cases "pcs s i")
    case Asleep
    then have "entry_ok ch Asleep (entry s i)" using assms(1) by (auto simp: sw_inv_def sw_index_def sw_entries_def)
    then have "p_state (entry s i) = RUNNABLE" using assms(3) Asleep by (auto simp: entry_ok_def)
    moreover have "pl_owner s i = None"
    proof (cases "pl_owner s i")
      case (Some x)
      then have "has_pl i x (pcs s x)" using assms(1) by (simp add: sw_inv_def sw_locks_def)
      then show ?thesis using n [of x] Asleep by (auto simp: has_pl_def)
    qed
    ultimately show ?thesis using Asleep by (blast intro: sw_step.s_resume)
  qed (use n [of i] assms(2) None in \<open>auto intro: sw_step.intros\<close>)
qed

subsection \<open>Sleep locks\<close>

interpretation sl: sleep_client "sl_take t"
  by unfold_locales (auto simp: acquiresleep_def split: if_splits)

definition woken_from :: "nat \<Rightarrow> nat \<Rightarrow> channel \<Rightarrow> ptable \<Rightarrow> ptable" where
  "woken_from j i ch t =
     t\<lparr>procs := map_index (\<lambda>k p. if j \<le> k \<and> k \<noteq> i then wake_entry ch (ticks t) p else p) (procs t)\<rparr>"

lemma woken_from_beyond: "j \<ge> length (procs t) \<Longrightarrow> woken_from j i ch t = t"
  by (auto simp: woken_from_def intro!: ptable.equality nth_equalityI)

lemma woken_from_step:
  assumes "j < length (procs t)"
  shows "woken_from (Suc j) i ch (if j = i then t else set_proc j (wake_entry ch (ticks t)) t) = woken_from j i ch t"
proof (rule ptable.equality)
  let ?t = "if j = i then t else set_proc j (wake_entry ch (ticks t)) t"
  show "procs (woken_from (Suc j) i ch ?t) = procs (woken_from j i ch t)"
  proof (rule nth_equalityI)
    fix k
    assume "k < length (procs (woken_from (Suc j) i ch ?t))"
    then have k: "k < length (procs t)" by (simp add: woken_from_def split: if_splits)
    consider "k = j" | "k < j" | "k > j" by linarith
    then show "procs (woken_from (Suc j) i ch ?t) ! k = procs (woken_from j i ch t) ! k"
      by cases (use k in \<open>simp_all add: woken_from_def set_proc_nth\<close>)
  qed (simp add: woken_from_def)
qed (simp_all add: woken_from_def)

lemma wakeup_scan:
  assumes "pcs s i = Scan j" "\<forall>k. pl_owner s k = None"
  shows "\<exists>s'. (sw_step ch att giv i)\<^sup>*\<^sup>* s s' \<and> tab s' = woken_from j i ch (tab s) \<and> dat s' = dat s \<and>
    lk_owner s' = lk_owner s \<and> pl_owner s' = pl_owner s \<and> pcs s' = (pcs s)(i := Release)"
  using assms
proof (induction "nproc s - j" arbitrary: s j)
  case 0
  then have j: "j \<ge> nproc s" by simp
  from sw_step.w_scanned [OF 0(2) j, of ch att giv] show ?case using woken_from_beyond [OF j, of i ch]
    by (intro exI [of _ "s\<lparr>pcs := (pcs s)(i := Release)\<rparr>"]) auto
next
  case (Suc n)
  then have j: "j < nproc s" by simp
  let ?t = "if j = i then tab s else set_proc j (wake_entry ch (ticks (tab s))) (tab s)"
  let ?m = "s\<lparr>pl_owner := (pl_owner s)(j := Some i), pcs := (pcs s)(i := Have j)\<rparr>"
  let ?s = "s\<lparr>tab := ?t, pcs := (pcs s)(i := Scan (Suc j))\<rparr>"
  have "(sw_step ch att giv i)\<^sup>*\<^sup>* s ?s"
  proof (cases "j = i")
    case True
    then show ?thesis using sw_step.w_self [OF Suc.prems(1) j True, of ch att giv] by auto
  next
    case False
    have pl: "(pl_owner s)(j := None) = pl_owner s" using Suc.prems(2) by auto
    have "sw_step ch att giv i s ?m" using sw_step.w_plock [OF Suc.prems(1) j False] Suc.prems(2) by auto
    moreover have "sw_step ch att giv i ?m ?s" using sw_step.w_wake [of ?m i j ch att giv] False pl by simp
    ultimately show ?thesis by auto
  qed
  moreover have n: "n = nproc ?s - Suc j" using Suc.hyps(2) by auto
  moreover obtain s' where "(sw_step ch att giv i)\<^sup>*\<^sup>* ?s s'" "tab s' = woken_from (Suc j) i ch (tab ?s)" "dat s' = dat ?s"
      "lk_owner s' = lk_owner ?s" "pl_owner s' = pl_owner ?s" "pcs s' = (pcs ?s)(i := Release)"
    using Suc.hyps(1) [OF n] Suc.prems by auto
  ultimately show ?case using woken_from_step [OF j, of i ch] by (intro exI [of _ s']) auto
qed

text \<open>Run without interference, the steps from \<open>Locked\<close> to \<open>Release\<close> are \<^verbatim>\<open>releasesleep\<close>.\<close>

lemma releasesleep_steps:
  assumes "pcs s i = Locked" "\<forall>k. pl_owner s k = None"
  shows "\<exists>s'. (sw_step ch att sl_give i)\<^sup>*\<^sup>* s s' \<and> (dat s', tab s') = releasesleep i ch (dat s, tab s) \<and>
    pcs s' = (pcs s)(i := Release)"
proof -
  let ?s = "s\<lparr>dat := releasesleep_fields (dat s), pcs := (pcs s)(i := Scan 0)\<rparr>"
  have 1: "sw_step ch att sl_give i s ?s" using sw_step.w_give [of s i ch att sl_give] assms(1) by simp
  have t: "wakeup (Some i) ch (tab s) = woken_from 0 i ch (tab s)" by (simp add: wakeup_def woken_from_def)
  obtain s' where "(sw_step ch att sl_give i)\<^sup>*\<^sup>* ?s s'" "tab s' = woken_from 0 i ch (tab ?s)" "dat s' = dat ?s"
      "pcs s' = (pcs ?s)(i := Release)"
    using wakeup_scan [of ?s i 0 ch att sl_give] assms(2) by auto
  with converse_rtranclp_into_rtranclp [of "sw_step ch att sl_give i", OF 1] t show ?thesis
    by (intro exI [of _ s']) (simp add: releasesleep_def)
qed

lemma sw_step_pid:
  assumes "sw_step ch att giv i s s'" "j < nproc s"
  shows "p_pid (entry s' j) = p_pid (entry s j)"
  using assms(1)
  by cases (use assms(2) in \<open>simp_all add: sleep_enter_def sleep_resume_def set_proc_nth sleep_entry_def wake_entry_def\<close>)

lemma env_step_pid:
  assumes "env_step ch paired s s'" "j < nproc s"
  shows "p_pid (entry s' j) = p_pid (entry s j)"
  using assms(1)
  by cases (use assms(2) in \<open>simp_all add: set_proc_nth wake_entry_def kill_entry_def Let_def\<close>)

lemma sw_step_holds:
  assumes "sw_step ch att giv i s s'"
  shows "dat s' = dat s \<and> holds s' = holds s \<or>
    pcs s i = Test \<and> att i (dat s) = Some (dat s') \<and> holds s' = (holds s)(i := True) \<or>
    holds s i \<and> dat s' = giv i (dat s) \<and> holds s' = (holds s)(i := False)"
  using assms by cases (auto simp: holds_def fun_eq_iff)

lemma env_step_holds: "env_step ch True s s' \<Longrightarrow> dat s' = dat s \<and> holds s' = holds s"
  by (induction rule: env_step.induct) (auto simp: holds_def fun_eq_iff)

lemma acquiresleep_Some: "acquiresleep pid lk = Some lk' \<longleftrightarrow> slocked lk = 0 \<and> lk' = lk\<lparr>slocked := 1, lock_pid := pid\<rparr>"
  by (auto simp: acquiresleep_def)

lemma sl_step_inv:
  assumes "sw_step ch (sl_take t0) sl_give i s s'" "sl_inv t0 s" "sw_index s"
  shows "sl_inv t0 s'"
proof -
  have n: "nproc s' = nproc s" using sw_step_index [OF assms(1,3)] ..
  have i: "i < nproc s" if "pcs s i = Test" using assms(3) that by (simp add: sw_index_def)
  note pid = sw_step_pid [OF assms(1)]
  from sw_step_holds [OF assms(1)] show ?thesis
  proof (elim disjE conjE)
    assume "dat s' = dat s" "holds s' = holds s"
    then show ?thesis using assms(2) n pid by (simp add: sl_inv_def)
  next
    assume a: "pcs s i = Test" "sl_take t0 i (dat s) = Some (dat s')" "holds s' = (holds s)(i := True)"
    then have d: "slocked (dat s) = 0" "slocked (dat s') \<noteq> 0" "lock_pid (dat s') = p_pid (procs t0 ! i)"
      by (simp_all add: acquiresleep_Some)
    then have "\<not> holds s k" for k using assms(2) by (auto simp: sl_inv_def)
    then show ?thesis using assms(2) n pid i a d by (simp add: sl_inv_def)
  next
    assume a: "holds s i" "dat s' = sl_give i (dat s)" "holds s' = (holds s)(i := False)"
    then have "\<not> holds s' k" for k using assms(2) by (auto simp: sl_inv_def)
    moreover have "slocked (dat s') = 0" using a by (simp add: releasesleep_fields_def)
    ultimately show ?thesis using assms(2) n pid by (simp add: sl_inv_def)
  qed
qed

lemma sl_env_inv:
  assumes "env_step ch True s s'" "sl_inv t0 s" "sw_locks s" "sw_index s"
  shows "sl_inv t0 s'"
  using env_step_holds [OF assms(1)] env_step_pid [OF assms(1)] env_step_locks [OF assms(1,3,4)] assms(2) by (simp add: sl_inv_def)

lemma sl_reachable_inv:
  assumes "(run_step ch (sl_take (tab s0)) sl_give True)\<^sup>*\<^sup>* s0 s" "sw_start ch initsleeplock s0"
  shows "sl_inv (tab s0) s"
  using assms(1)
proof (induction rule: rtranclp_induct)
  case base
  then show ?case using assms(2) by (simp add: sl_inv_def sw_start_def holds_def initsleeplock_def)
next
  case (step s s')
  have "sw_inv ch (sl_take (tab s0)) s" using sl.run_inv [OF step(1) assms(2)] .
  then have "sw_locks s" "sw_index s" by (simp_all add: sw_inv_def)
  then show ?case using step(2,3) sl_step_inv sl_env_inv unfolding run_step_def by blast
qed

lemma free_lock_nobody_sleeps:
  assumes "sw_inv ch att s" "lk_owner s = None" "j < nproc s" "att j (dat s) \<noteq> None"
  shows "pcs s j \<noteq> Only \<and> \<not> (p_state (entry s j) = SLEEPING \<and> p_chan (entry s j) = ch)"
proof -
  have "\<not> waker_before s j" using sw_locks_free [OF _ assms(2)] assms(1)
    by (auto simp: waker_before_def sw_inv_def) (metis has_lk_simps(6,7))+
  then have "\<not> in_sleep s j" using assms(1,4) by (auto simp: sw_inv_def sw_waits_def)
  moreover have "entry_ok ch (pcs s j) (entry s j)" using assms(1,3) by (simp add: sw_inv_def sw_entries_def)
  ultimately show ?thesis unfolding in_sleep_def entry_ok_def by blast
qed

subsection \<open>Runs\<close>

lemma run_sw: "(run_step ch att giv paired)\<^sup>*\<^sup>* s0 s \<Longrightarrow> sw_step ch att giv i s s' \<Longrightarrow> (run_step ch att giv paired)\<^sup>*\<^sup>* s0 s'"
  by (rule rtranclp.rtrancl_into_rtrancl) (auto simp: run_step_def)

lemma run_env: "(run_step ch att giv paired)\<^sup>*\<^sup>* s0 s \<Longrightarrow> env_step ch paired s s' \<Longrightarrow> (run_step ch att giv paired)\<^sup>*\<^sup>* s0 s'"
  by (rule rtranclp.rtrancl_into_rtrancl) (auto simp: run_step_def)

lemma run_sws: "(sw_step ch att giv i)\<^sup>*\<^sup>* s s' \<Longrightarrow> (run_step ch att giv paired)\<^sup>*\<^sup>* s0 s \<Longrightarrow> (run_step ch att giv paired)\<^sup>*\<^sup>* s0 s'"
  by (induction rule: rtranclp_induct) (auto intro: run_sw)

text \<open>An idle process that finds nothing to take ends up asleep.\<close>

lemma falls_asleep:
  assumes "pcs s i = Idle" "i < nproc s" "lk_owner s = None" "pl_owner s i = None" "att i (dat s) = None"
  shows "(run_step ch att giv paired)\<^sup>*\<^sup>* s (s\<lparr>tab := sleep_enter i ch (tab s), pcs := (pcs s)(i := Asleep)\<rparr>)"
proof -
  let ?R = "(run_step ch att giv paired)\<^sup>*\<^sup>* s"
  let ?at = "\<lambda>c. (pcs s)(i := c)"
  have pl: "(pl_owner s)(i := None) = pl_owner s" using assms(4) by auto
  have "?R (s\<lparr>pcs := ?at Want\<rparr>)" using run_env [OF rtranclp.rtrancl_refl env_step.wants [OF assms(1,2)]] .
  then have "?R (s\<lparr>lk_owner := Some i, pcs := ?at Test\<rparr>)"
    using run_sw sw_step.s_acquire [of "s\<lparr>pcs := ?at Want\<rparr>" i ch att giv] assms(3) by fastforce
  then have "?R (s\<lparr>lk_owner := Some i, pcs := ?at Call\<rparr>)"
    using run_sw sw_step.s_call [of "s\<lparr>lk_owner := Some i, pcs := ?at Test\<rparr>" i att ch giv] assms(5) by fastforce
  then have "?R (s\<lparr>lk_owner := Some i, pl_owner := (pl_owner s)(i := Some i), pcs := ?at Both\<rparr>)"
    using run_sw sw_step.s_plock [of "s\<lparr>lk_owner := Some i, pcs := ?at Call\<rparr>" i ch att giv] assms(4) by fastforce
  moreover have "sw_step ch att giv i (s\<lparr>lk_owner := Some i, pl_owner := (pl_owner s)(i := Some i), pcs := ?at Both\<rparr>)
      (s\<lparr>pl_owner := (pl_owner s)(i := Some i), lk_owner := None, pcs := ?at Only\<rparr>)" (is "sw_step _ _ _ _ _ ?o")
    using sw_step.s_drop [of "s\<lparr>lk_owner := Some i, pl_owner := (pl_owner s)(i := Some i), pcs := ?at Both\<rparr>" i ch att giv] by simp
  ultimately have "?R ?o" by (rule run_sw)
  moreover have "sw_step ch att giv i ?o (s\<lparr>lk_owner := None, tab := sleep_enter i ch (tab s), pl_owner := pl_owner s, pcs := ?at Asleep\<rparr>)"
    using sw_step.s_switch [of ?o i ch att giv] pl by simp
  moreover have "s\<lparr>lk_owner := None, tab := sleep_enter i ch (tab s), pl_owner := pl_owner s, pcs := ?at Asleep\<rparr> =
      s\<lparr>tab := sleep_enter i ch (tab s), pcs := ?at Asleep\<rparr>"
    by (rule swsys.equality) (use assms(3) in simp_all)
  ultimately show ?thesis using run_sw by metis
qed

text \<open>Two running processes, for the examples below.\<close>

definition duo :: "'d \<Rightarrow> 'd swsys" where
  "duo d = \<lparr>tab = \<lparr>procs = [proc_zero\<lparr>p_state := RUNNING, p_pid := 5\<rparr>, proc_zero\<lparr>p_state := RUNNING, p_pid := 7\<rparr>],
       nextpid = 8, initproc = None, ticks = 3\<rparr>,
     lk_owner = None, pl_owner = (\<lambda>_. None), dat = d, pcs = (\<lambda>_. Idle)\<rparr>"

lemma duo_start: "sw_start ch d (duo d)"
  by (auto simp: sw_start_def duo_def less_Suc_eq)

section \<open>Properties\<close>





end
