(* ===== verification/Sched.thy ===== *)
theory Sched
  imports Proc "HOL-Library.Signed_Division"
begin

text \<open>
  The five scheduling policies of \<^verbatim>\<open>scheduler\<close> in \<^verbatim>\<open>kernel/proc.c\<close>, chosen at compile time, here by the type
  \<open>policy\<close>: one round of the endless loop up to the context switch. The MLFQ queues are an array of
  \<^verbatim>\<open>NPR\<close> rows of \<^verbatim>\<open>NPROC\<close> process pointers, null where empty. \<^verbatim>\<open>rand\<close> is \<^verbatim>\<open>kernel/random.c\<close>. Division by zero, overflow of
  an \<^verbatim>\<open>int\<close> and use of an entry beyond a table, which C leaves undefined, are \<open>Fault\<close>.
\<close>

section \<open>Definitions\<close>

datatype policy = RR | FCFS | LOTTERY | PBS | MLFQ

definition RAND_MAX :: int where "RAND_MAX = 32767"

definition rand :: "u64 \<Rightarrow> int" where
  "rand seed =
     (let seed = seed * 1103515245 + 12345
      in uint (ucast (seed div 65536) :: u32) mod 32768)"

definition cmax :: "int \<Rightarrow> int \<Rightarrow> int" where "cmax A B = (if A > B then A else B)"
definition cmin :: "int \<Rightarrow> int \<Rightarrow> int" where "cmin A B = (if A > B then B else A)"

definition runnable :: "proc \<Rightarrow> bool" where "runnable p \<longleftrightarrow> p_state p = RUNNABLE"

text \<open>Round robin: the loop leaves \<^verbatim>\<open>p\<close> one past the end when it finds nothing.\<close>

definition rr_pick :: "proc list \<Rightarrow> nat" where
  "rr_pick ps = (case find_index runnable ps of Some i \<Rightarrow> i | None \<Rightarrow> length ps)"

primrec fcfs_loop :: "nat list \<Rightarrow> proc list \<Rightarrow> nat option \<Rightarrow> nat option" where
  "fcfs_loop [] ps p = p"
| "fcfs_loop (fp # fps) ps p =
     fcfs_loop fps ps
       (if \<not> runnable (ps ! fp) then p
        else case p of
          None \<Rightarrow> Some fp
        | Some q \<Rightarrow> if p_ctime (ps ! q) > p_ctime (ps ! fp) then Some fp else Some q)"

definition fcfs_pick :: "proc list \<Rightarrow> nat option" where
  "fcfs_pick ps = fcfs_loop [0..<length ps] ps None"

primrec total_tickets :: "proc list \<Rightarrow> int \<Rightarrow> int res" where
  "total_tickets [] tot_tk = Ok tot_tk"
| "total_tickets (fp # fps) tot_tk =
     (if runnable fp then rbind (cint (tot_tk + p_tickets fp)) (total_tickets fps) else total_tickets fps tot_tk)"

primrec lottery_loop :: "nat list \<Rightarrow> proc list \<Rightarrow> int \<Rightarrow> int \<Rightarrow> int \<Rightarrow> nat option res" where
  "lottery_loop [] ps tot_tk rv sv = Ok None"
| "lottery_loop (fp # fps) ps tot_tk rv sv =
     (if runnable (ps ! fp)
      then rbind (cint (p_tickets (ps ! fp) * RAND_MAX)) (\<lambda>n.
        if tot_tk = 0 then Fault ''division by zero''
        else rbind (cint (n sdiv tot_tk)) (\<lambda>prob.
          rbind (cint (sv + prob)) (\<lambda>sv'.
            if sv \<le> rv \<and> rv < sv' then Ok (Some fp) else lottery_loop fps ps tot_tk rv sv')))
      else lottery_loop fps ps tot_tk rv sv)"

definition lottery_pick :: "u32 \<Rightarrow> proc list \<Rightarrow> nat option res" where
  "lottery_pick tks ps =
     rbind (total_tickets ps 0) (\<lambda>tot_tk. lottery_loop [0..<length ps] ps tot_tk (rand (ucast tks)) 0)"

text \<open>Priority based: the niceness from the last sleep and run times, and the dynamic priority.\<close>

definition pbs_niceness :: "proc \<Rightarrow> int res" where
  "pbs_niceness fp =
     rbind (cint (p_wtime fp - p_stime fp)) (\<lambda>slp.
       if slp = 0 \<and> p_pbs_rtime fp = 0 then Ok 5
       else rbind (cint (slp + p_pbs_rtime fp)) (\<lambda>d.
         if d = 0 then Fault ''division by zero''
         else rbind (cint (slp sdiv d)) (\<lambda>x. cint (x * 10))))"

definition pbs_dp :: "proc \<Rightarrow> int res" where
  "pbs_dp fp =
     rbind (cint (p_staticP fp - p_niceness fp)) (\<lambda>x.
     rbind (cint (x + 5)) (\<lambda>x. Ok (cmax 0 (cmin x 100))))"

primrec pbs_loop :: "nat list \<Rightarrow> proc list \<Rightarrow> nat option \<Rightarrow> int \<Rightarrow> (nat option \<times> proc list) res" where
  "pbs_loop [] ps p min_dp = Ok (p, ps)"
| "pbs_loop (fp # fps) ps p min_dp =
     (if runnable (ps ! fp)
      then rbind (pbs_niceness (ps ! fp)) (\<lambda>nice.
        let ps = ps[fp := (ps ! fp)\<lparr>p_niceness := nice\<rparr>] in
        rbind (pbs_dp (ps ! fp)) (\<lambda>dp.
        if dp < min_dp then pbs_loop fps ps (Some fp) dp
        else if dp = min_dp
        then (case p of
            None \<Rightarrow> Fault ''null pointer''
          | Some q \<Rightarrow>
              if p_sch_no (ps ! fp) < p_sch_no (ps ! q) then pbs_loop fps ps (Some fp) min_dp
              else if p_sch_no (ps ! fp) = p_sch_no (ps ! q) \<and> p_ctime (ps ! fp) < p_ctime (ps ! q)
              then pbs_loop fps ps (Some fp) min_dp
              else pbs_loop fps ps p min_dp)
        else pbs_loop fps ps p min_dp))
      else pbs_loop fps ps p min_dp)"

definition pbs_pick :: "proc list \<Rightarrow> (nat option \<times> proc list) res" where
  "pbs_pick ps = pbs_loop [0..<length ps] ps None 103"

text \<open>
  Multi-level feedback queues. A row shifts left on removal, its last slot keeping its old content;
  a process is added at the first empty slot unless its pid is found before that.
\<close>

type_synonym rows = "nat option list list"

fun dequeue_row :: "proc list \<Rightarrow> int \<Rightarrow> nat option list \<Rightarrow> nat option list" where
  "dequeue_row ps pid [] = []"
| "dequeue_row ps pid (None # r) = None # dequeue_row ps pid r"
| "dequeue_row ps pid (Some fp # r) =
     (if p_pid (ps ! fp) = pid then r @ [last (Some fp # r)] else Some fp # dequeue_row ps pid r)"

fun queue_row :: "proc list \<Rightarrow> nat \<Rightarrow> nat option list \<Rightarrow> nat option list" where
  "queue_row ps p [] = []"
| "queue_row ps p (None # r) = Some p # r"
| "queue_row ps p (Some fp # r) = (if p_pid (ps ! fp) = p_pid (ps ! p) then Some fp # r else Some fp # queue_row ps p r)"

definition dequeue_proc :: "proc list \<Rightarrow> nat \<Rightarrow> rows \<Rightarrow> rows res" where
  "dequeue_proc ps p q =
     (let i = unat (p_pr (ps ! p)) in
      if i < NPR then Ok (q[i := dequeue_row ps (p_pid (ps ! p)) (q ! i)]) else Fault ''queue index'')"

definition queue_proc :: "proc list \<Rightarrow> nat \<Rightarrow> rows \<Rightarrow> rows res" where
  "queue_proc ps p q =
     (let i = unat (p_pr (ps ! p)) in
      if i < NPR then Ok (q[i := queue_row ps p (q ! i)]) else Fault ''queue index'')"

primrec mlfq_fill :: "nat list \<Rightarrow> proc list \<Rightarrow> rows \<Rightarrow> rows res" where
  "mlfq_fill [] ps q = Ok q"
| "mlfq_fill (fp # fps) ps q =
     (if runnable (ps ! fp) then rbind (queue_proc ps fp q) (mlfq_fill fps ps) else mlfq_fill fps ps q)"

primrec mlfq_age :: "(nat \<times> nat) list \<Rightarrow> proc list \<Rightarrow> rows \<Rightarrow> (proc list \<times> rows) res" where
  "mlfq_age [] ps q = Ok (ps, q)"
| "mlfq_age (ij # ijs) ps q =
     (case q ! fst ij ! snd ij of
        None \<Rightarrow> mlfq_age ijs ps q
      | Some fp \<Rightarrow>
          if p_wticks (ps ! fp) \<ge> 30
          then rbind (dequeue_proc ps fp q) (\<lambda>q.
            let ps = ps[fp := (ps ! fp)\<lparr>p_pr := p_pr (ps ! fp) - 1, p_wticks := 0\<rparr>] in
            rbind (queue_proc ps fp q) (mlfq_age ijs ps))
          else mlfq_age ijs ps q)"

text \<open>Row \<open>i\<close> from slot \<open>j\<close>, with \<open>n\<close> slots to go.\<close>

fun mlfq_row :: "nat \<Rightarrow> nat \<Rightarrow> nat \<Rightarrow> proc list \<Rightarrow> rows \<Rightarrow> (nat option \<times> rows) res" where
  "mlfq_row 0 i j ps q = Ok (None, q)"
| "mlfq_row (Suc n) i j ps q =
     (case q ! i ! j of
        None \<Rightarrow> Ok (None, q)
      | Some fp \<Rightarrow>
          rbind (dequeue_proc ps fp q) (\<lambda>q.
            if runnable (ps ! fp) then Ok (Some fp, q) else mlfq_row n i (Suc j) ps q))"

primrec mlfq_rows :: "nat list \<Rightarrow> proc list \<Rightarrow> rows \<Rightarrow> (nat option \<times> rows) res" where
  "mlfq_rows [] ps q = Ok (None, q)"
| "mlfq_rows (i # is) ps q =
     rbind (mlfq_row (length (q ! i)) i 0 ps q) (\<lambda>(p, q).
       case p of Some fp \<Rightarrow> Ok (Some fp, q) | None \<Rightarrow> mlfq_rows is ps q)"

definition mlfq_pick :: "proc list \<Rightarrow> rows \<Rightarrow> (nat option \<times> proc list \<times> rows) res" where
  "mlfq_pick ps q =
     rbind (mlfq_fill [0..<length ps] ps q) (\<lambda>q.
     rbind (mlfq_age (List.product [1..<NPR] [0..<length (q ! 0)]) ps q) (\<lambda>(ps, q).
     rbind (mlfq_rows [0..<NPR] ps q) (\<lambda>(p, q).
       case p of
         None \<Rightarrow> Ok (None, ps, q)
       | Some fp \<Rightarrow> Ok (Some fp, ps[fp := (ps ! fp)\<lparr>p_wticks := 0\<rparr>], q))))"

text \<open>The common end of a round: the chosen process, if it is still runnable, is switched to.\<close>

definition sched_run :: "policy \<Rightarrow> nat \<Rightarrow> proc list \<Rightarrow> (nat option \<times> proc list) res" where
  "sched_run pol p ps =
     (if p \<ge> length ps then Fault ''proc[NPROC]''
      else if runnable (ps ! p)
      then let q = (ps ! p)\<lparr>p_state := RUNNING\<rparr> in
        if pol = PBS
        then rbind (cint (p_sch_no q + 1)) (\<lambda>n.
          Ok (Some p, ps[p := q\<lparr>p_pbs_rtime := 0, p_stime := 0, p_niceness := 5, p_wtime := 0, p_sch_no := n\<rparr>]))
        else Ok (Some p, ps[p := q])
      else Ok (None, ps))"

definition run_pick :: "policy \<Rightarrow> nat option \<Rightarrow> proc list \<Rightarrow> (nat option \<times> proc list) res" where
  "run_pick pol p ps = (case p of None \<Rightarrow> Ok (None, ps) | Some i \<Rightarrow> sched_run pol i ps)"

definition scheduler :: "policy \<Rightarrow> ptable \<Rightarrow> rows \<Rightarrow> (nat option \<times> ptable \<times> rows) res" where
  "scheduler pol t q =
     (let fin = (\<lambda>q (p, ps). Ok (p, t\<lparr>procs := ps\<rparr>, q)) in
      case pol of
        RR \<Rightarrow> rbind (sched_run RR (rr_pick (procs t)) (procs t)) (fin q)
      | FCFS \<Rightarrow> rbind (run_pick FCFS (fcfs_pick (procs t)) (procs t)) (fin q)
      | LOTTERY \<Rightarrow> rbind (lottery_pick (ticks t) (procs t)) (\<lambda>p. rbind (run_pick LOTTERY p (procs t)) (fin q))
      | PBS \<Rightarrow> rbind (pbs_pick (procs t)) (\<lambda>(p, ps). rbind (run_pick PBS p ps) (fin q))
      | MLFQ \<Rightarrow> rbind (mlfq_pick (procs t) q) (\<lambda>(p, ps, q). rbind (run_pick MLFQ p ps) (fin q)))"

section \<open>Choosing the best entry of a table\<close>

text \<open>
  The first entry, among those that qualify, that no other is preferred to: the loops of FCFS and PBS
  keep the best entry so far. The locale has the laws of a preference; both policies interpret it.
\<close>

primrec best :: "('a \<Rightarrow> 'a \<Rightarrow> bool) \<Rightarrow> (nat \<Rightarrow> bool) \<Rightarrow> (nat \<Rightarrow> 'a) \<Rightarrow> nat list \<Rightarrow> nat option \<Rightarrow> nat option" where
  "best before ok f [] p = p"
| "best before ok f (x # xs) p =
     best before ok f xs
       (if \<not> ok x then p
        else case p of None \<Rightarrow> Some x | Some q \<Rightarrow> if before (f x) (f q) then Some x else Some q)"

definition candidates :: "(nat \<Rightarrow> bool) \<Rightarrow> nat list \<Rightarrow> nat option \<Rightarrow> nat set" where
  "candidates ok xs p = set_option p \<union> {x \<in> set xs. ok x}"

locale preference =
  fixes before :: "'a \<Rightarrow> 'a \<Rightarrow> bool"
  assumes asym: "before x y \<Longrightarrow> \<not> before y x"
    and negtrans: "before x z \<Longrightarrow> before x y \<or> before y z"
begin

definition chosen :: "(nat \<Rightarrow> 'a) \<Rightarrow> nat set \<Rightarrow> nat \<Rightarrow> bool" where
  "chosen f C i \<longleftrightarrow> i \<in> C \<and> (\<forall>j \<in> C. \<not> before (f j) (f i)) \<and> (\<forall>j \<in> C. j < i \<longrightarrow> before (f i) (f j))"

lemma trans: "before x y \<Longrightarrow> before y z \<Longrightarrow> before x z"
  using asym negtrans by blast

lemma chosen_drop:
  assumes "chosen f C i" "q \<in> C" "\<not> before (f x) (f q)" "q < x"
  shows "chosen f (insert x C) i"
proof -
  have i: "i \<in> C" "\<not> before (f q) (f i)" "q < i \<Longrightarrow> before (f i) (f q)" using assms(1,2) by (auto simp: chosen_def)
  have "\<not> before (f x) (f i)" using negtrans [of "f x" "f i" "f q"] assms(3) i(2) by blast
  moreover have "before (f i) (f x)" if "x < i"
  proof -
    have "q < i" using assms(4) that by simp
    then have "before (f i) (f q)" by (rule i(3))
    then show ?thesis using negtrans [of "f i" "f q" "f x"] assms(3) by blast
  qed
  ultimately show ?thesis using assms(1) by (auto simp: chosen_def)
qed

lemma chosen_replace:
  assumes "chosen f C i" "x \<in> C" "before (f x) (f q)" "q < x"
  shows "chosen f (insert q C) i"
proof -
  have i: "\<not> before (f x) (f i)" using assms(1,2) by (auto simp: chosen_def)
  then have iq: "before (f i) (f q)" using negtrans [OF assms(3), of "f i"] by blast
  then show ?thesis using assms(1) asym [OF iq] by (auto simp: chosen_def)
qed

lemma best_chosen:
  assumes "sorted_wrt (<) xs" "\<forall>q \<in> set_option p. \<forall>x \<in> set xs. q < x"
  shows "case best before ok f xs p of None \<Rightarrow> candidates ok xs p = {} | Some i \<Rightarrow> chosen f (candidates ok xs p) i"
  using assms
proof (induction xs arbitrary: p)
  case Nil
  then show ?case using asym by (auto simp: candidates_def chosen_def split: option.splits)
next
  case (Cons x xs)
  have s: "sorted_wrt (<) xs" "\<forall>y \<in> set xs. x < y" using Cons.prems(1) by simp_all
  consider (skip) "\<not> ok x" | (first) "ok x" "p = None" | (better) q where "ok x" "p = Some q" "before (f x) (f q)"
    | (worse) q where "ok x" "p = Some q" "\<not> before (f x) (f q)" by (cases p) auto
  then show ?case
  proof cases
    case skip
    then have c: "candidates ok (x # xs) p = candidates ok xs p" by (auto simp: candidates_def)
    have b: "best before ok f (x # xs) p = best before ok f xs p" using skip by simp
    show ?thesis unfolding b c using Cons.IH [OF s(1), of p] Cons.prems(2) by simp
  next
    case first
    then have c: "candidates ok (x # xs) p = candidates ok xs (Some x)" by (auto simp: candidates_def)
    have b: "best before ok f (x # xs) p = best before ok f xs (Some x)" using first by simp
    show ?thesis unfolding b c using Cons.IH [OF s(1), of "Some x"] s(2) by simp
  next
    case (better q)
    then have c: "candidates ok (x # xs) p = insert q (candidates ok xs (Some x))" by (auto simp: candidates_def)
    have x: "x \<in> candidates ok xs (Some x)" "q < x" using better Cons.prems(2) by (auto simp: candidates_def)
    have b: "best before ok f (x # xs) p = best before ok f xs (Some x)" using better by simp
    from Cons.IH [OF s(1), of "Some x"] s(2) x(1)
    obtain i where i: "best before ok f xs (Some x) = Some i" "chosen f (candidates ok xs (Some x)) i"
      by (auto split: option.splits)
    show ?thesis unfolding b c i(1) using chosen_replace [OF i(2) x(1) better(3) x(2)] by simp
  next
    case (worse q)
    then have c: "candidates ok (x # xs) p = insert x (candidates ok xs p)" by (auto simp: candidates_def)
    have x: "q \<in> candidates ok xs p" "q < x" using worse Cons.prems(2) by (auto simp: candidates_def)
    have b: "best before ok f (x # xs) p = best before ok f xs p" using worse by simp
    from Cons.IH [OF s(1), of p] Cons.prems(2) x(1)
    obtain i where i: "best before ok f xs p = Some i" "chosen f (candidates ok xs p) i"
      by (auto split: option.splits)
    show ?thesis unfolding b c i(1) using chosen_drop [OF i(2) x(1) worse(3) x(2)] by simp
  qed
qed

end

definition older :: "proc \<Rightarrow> proc \<Rightarrow> bool" where
  "older p q \<longleftrightarrow> p_ctime p < p_ctime q"

definition pbs_prio :: "proc \<Rightarrow> int" where
  "pbs_prio p = max 0 (min (p_staticP p - p_niceness p + 5) 100)"

definition pbs_before :: "proc \<Rightarrow> proc \<Rightarrow> bool" where
  "pbs_before p q \<longleftrightarrow> pbs_prio p < pbs_prio q \<or> pbs_prio p = pbs_prio q \<and>
     (p_sch_no p < p_sch_no q \<or> p_sch_no p = p_sch_no q \<and> p_ctime p < p_ctime q)"

interpretation fcfs: preference older
  by unfold_locales (auto simp: older_def)

interpretation pbs: preference pbs_before
  by unfold_locales (auto simp: pbs_before_def)

section \<open>First come, first served\<close>

lemma fcfs_loop_best: "fcfs_loop xs ps p = best older (\<lambda>i. runnable (ps ! i)) ((!) ps) xs p"
  by (induction xs arbitrary: p) (auto simp: older_def split: option.splits)

lemma fcfs_pick_spec:
  "case fcfs_pick ps of
     None \<Rightarrow> \<forall>j < length ps. \<not> runnable (ps ! j)
   | Some i \<Rightarrow> i < length ps \<and> runnable (ps ! i) \<and>
       (\<forall>j < length ps. runnable (ps ! j) \<longrightarrow> p_ctime (ps ! i) \<le> p_ctime (ps ! j) \<and>
          (j < i \<longrightarrow> p_ctime (ps ! i) < p_ctime (ps ! j)))"
  using fcfs.best_chosen [of "[0..<length ps]" None "\<lambda>i. runnable (ps ! i)" "(!) ps"]
  by (auto simp: fcfs_pick_def fcfs_loop_best candidates_def fcfs.chosen_def older_def intro: leI split: option.splits)

section \<open>Priority based\<close>

lemma pbs_prio_bounds: "0 \<le> pbs_prio p" "pbs_prio p \<le> 100"
  by (simp_all add: pbs_prio_def)

lemma abs_sdiv_le:
  assumes "(b :: int) \<noteq> 0"
  shows "\<bar>a sdiv b\<bar> \<le> \<bar>a\<bar>"
proof -
  have "\<bar>a sdiv b\<bar> \<le> \<bar>a\<bar> div \<bar>b\<bar>"
    by (auto simp: signed_divide_int_def abs_mult abs_sgn_eq pos_imp_zdiv_nonneg_iff)
  also have "\<dots> \<le> \<bar>a\<bar>" using assms zdiv_mono2 [of "\<bar>a\<bar>" 1 "\<bar>b\<bar>"] by simp
  finally show ?thesis .
qed

text \<open>
  Times up to \<open>2\<^sup>2\<^sup>6\<close> ticks, more than seventy days of uptime, a priority that \<^verbatim>\<open>set_priority\<close> was not
  abused for, and a divisor that is not zero.
\<close>

definition pbs_sane :: "proc \<Rightarrow> bool" where
  "pbs_sane p \<longleftrightarrow> p_wtime p \<in> {0..2 ^ 26} \<and> p_stime p \<in> {0..2 ^ 26} \<and> p_pbs_rtime p \<in> {0..2 ^ 26} \<and>
     p_staticP p \<in> {- (2 ^ 30)..2 ^ 30} \<and> (p_wtime p - p_stime p + p_pbs_rtime p = 0 \<longrightarrow> p_pbs_rtime p = 0)"

lemma pbs_sane_niceness:
  assumes "pbs_sane p"
  shows "\<exists>n. pbs_niceness p = Ok n \<and> \<bar>n\<bar> \<le> 10 * 2 ^ 26"
proof (cases "p_wtime p - p_stime p = 0 \<and> p_pbs_rtime p = 0")
  case True
  then show ?thesis using assms by (simp add: pbs_niceness_def cint_def)
next
  case False
  let ?s = "p_wtime p - p_stime p" and ?d = "p_wtime p - p_stime p + p_pbs_rtime p"
  have d: "?d \<noteq> 0" using assms False by (auto simp: pbs_sane_def)
  have b: "\<bar>?s\<bar> \<le> 2 ^ 26" "\<bar>?d\<bar> \<le> 2 ^ 27" using assms by (auto simp: pbs_sane_def)
  have q: "\<bar>?s sdiv ?d\<bar> \<le> 2 ^ 26" using abs_sdiv_le [OF d, of ?s] b(1) by linarith
  have "pbs_niceness p = Ok ((?s sdiv ?d) * 10)" using False d b q by (auto simp: pbs_niceness_def cint_def abs_le_iff)
  moreover have "\<bar>(?s sdiv ?d) * 10\<bar> \<le> 10 * 2 ^ 26" using q by (simp add: abs_mult)
  ultimately show ?thesis by blast
qed

lemma pbs_sane_dp:
  assumes "pbs_sane p" "\<bar>n\<bar> \<le> 10 * 2 ^ 26"
  shows "pbs_dp (p\<lparr>p_niceness := n\<rparr>) = Ok (pbs_prio (p\<lparr>p_niceness := n\<rparr>))"
  using assms by (auto simp: pbs_dp_def pbs_prio_def pbs_sane_def cint_def cmax_def cmin_def abs_le_iff)

text \<open>The entry with its niceness brought up to date, as the loop leaves it.\<close>

definition pbs_refresh :: "proc \<Rightarrow> proc" where
  "pbs_refresh p = (case pbs_niceness p of Ok n \<Rightarrow> if runnable p then p\<lparr>p_niceness := n\<rparr> else p | _ \<Rightarrow> p)"

lemma pbs_niceness_update [simp]: "pbs_niceness (p\<lparr>p_niceness := n\<rparr>) = pbs_niceness p"
  by (simp add: pbs_niceness_def cong: if_cong)

lemma runnable_niceness [simp]: "runnable (p\<lparr>p_niceness := n\<rparr>) = runnable p"
  by (simp add: runnable_def)

lemma pbs_loop_best:
  assumes "distinct xs" "\<forall>x \<in> set xs. x < length ps" "\<forall>x \<in> set xs. runnable (ps ! x) \<longrightarrow> pbs_sane (ps ! x)"
    and "case p of None \<Rightarrow> min_dp = 103 | Some q \<Rightarrow> min_dp = pbs_prio (F q) \<and> ps ! q = F q \<and> q \<notin> set xs"
    and "\<forall>x \<in> set xs. F x = pbs_refresh (ps ! x)"
  shows "\<exists>ps'. pbs_loop xs ps p min_dp = Ok (best pbs_before (\<lambda>i. runnable (F i)) F xs p, ps') \<and>
    length ps' = length ps \<and> (\<forall>j < length ps. ps' ! j = (if j \<in> set xs then F j else ps ! j))"
  using assms
proof (induction xs arbitrary: ps p min_dp)
  case (Cons x xs)
  show ?case
  proof (cases "runnable (ps ! x)")
    case False
    then have "F x = ps ! x" using Cons.prems(5) by (auto simp: pbs_refresh_def split: res.splits)
    moreover have "case p of None \<Rightarrow> min_dp = 103 | Some q \<Rightarrow> min_dp = pbs_prio (F q) \<and> ps ! q = F q \<and> q \<notin> set xs"
      using Cons.prems(4) by (auto split: option.splits)
    ultimately show ?thesis using Cons.IH [where ps = ps and p = p and min_dp = min_dp] Cons.prems False by auto
  next
    case True
    then have sane: "pbs_sane (ps ! x)" using Cons.prems(3) by simp
    then obtain n where n: "pbs_niceness (ps ! x) = Ok n" "\<bar>n\<bar> \<le> 10 * 2 ^ 26" using pbs_sane_niceness by blast
    then have Fx: "F x = (ps ! x)\<lparr>p_niceness := n\<rparr>" "runnable (F x)" using Cons.prems(5) True by (auto simp: pbs_refresh_def)
    define ps1 where "ps1 = ps[x := F x]"
    have l: "length ps1 = length ps" "ps1 ! x = F x" "\<And>j. j \<noteq> x \<Longrightarrow> ps1 ! j = ps ! j"
      using Cons.prems(2) by (simp_all add: ps1_def)
    have I: "\<exists>ps'. pbs_loop xs ps1 p' m' = Ok (best pbs_before (\<lambda>i. runnable (F i)) F xs p', ps') \<and>
        length ps' = length ps \<and> (\<forall>j < length ps. ps' ! j = (if j \<in> set (x # xs) then F j else ps ! j))"
      if "case p' of None \<Rightarrow> m' = 103 | Some q \<Rightarrow> m' = pbs_prio (F q) \<and> ps1 ! q = F q \<and> q \<notin> set xs" for p' m'
    proof -
      have "\<forall>y \<in> set xs. ps1 ! y = ps ! y" using Cons.prems(1) l(3) by (metis distinct.simps(2))
      then have "\<exists>ps'. pbs_loop xs ps1 p' m' = Ok (best pbs_before (\<lambda>i. runnable (F i)) F xs p', ps') \<and>
        length ps' = length ps1 \<and> (\<forall>j < length ps1. ps' ! j = (if j \<in> set xs then F j else ps1 ! j))"
        using Cons.prems that l by (intro Cons.IH) auto
      moreover have "(if j \<in> set xs then F j else ps1 ! j) = (if j \<in> set (x # xs) then F j else ps ! j)" for j
        using l by auto
      ultimately show ?thesis using l(1) by simp
    qed
    have step: "pbs_loop (x # xs) ps p min_dp =
       (if pbs_prio (F x) < min_dp then pbs_loop xs ps1 (Some x) (pbs_prio (F x))
        else if pbs_prio (F x) = min_dp
        then (case p of None \<Rightarrow> Fault ''null pointer''
          | Some q \<Rightarrow> if p_sch_no (F x) < p_sch_no (ps1 ! q) then pbs_loop xs ps1 (Some x) min_dp
              else if p_sch_no (F x) = p_sch_no (ps1 ! q) \<and> p_ctime (F x) < p_ctime (ps1 ! q)
              then pbs_loop xs ps1 (Some x) min_dp else pbs_loop xs ps1 p min_dp)
        else pbs_loop xs ps1 p min_dp)"
      using True n(1) Fx l(2) pbs_sane_dp [OF sane n(2)] by (simp add: Let_def ps1_def split: option.split)
    show ?thesis
    proof (cases p)
      case None
      then have "pbs_prio (F x) < min_dp" using Cons.prems(4) pbs_prio_bounds(2) [of "F x"] by simp
      then show ?thesis using step None Fx I [where p' = "Some x" and m' = "pbs_prio (F x)"] l Cons.prems(1) by simp
    next
      case (Some q)
      then have q: "min_dp = pbs_prio (F q)" "ps1 ! q = F q" "q \<notin> set xs" using Cons.prems(4) l(3) by auto
      show ?thesis
      proof (cases "pbs_before (F x) (F q)")
        case True
        then have "pbs_loop (x # xs) ps p min_dp = pbs_loop xs ps1 (Some x) (pbs_prio (F x))"
          by (subst step) (auto simp: Some q(1,2) pbs_before_def)
        moreover have "best pbs_before (\<lambda>i. runnable (F i)) F (x # xs) p = best pbs_before (\<lambda>i. runnable (F i)) F xs (Some x)"
          using True Fx(2) Some by simp
        ultimately show ?thesis using I [where p' = "Some x" and m' = "pbs_prio (F x)"] l(2) Cons.prems(1) by simp
      next
        case False
        then have "pbs_loop (x # xs) ps p min_dp = pbs_loop xs ps1 p min_dp"
          by (subst step) (auto simp: Some q(1,2) pbs_before_def)
        moreover have "best pbs_before (\<lambda>i. runnable (F i)) F (x # xs) p = best pbs_before (\<lambda>i. runnable (F i)) F xs p"
          using False Fx(2) Some by simp
        ultimately show ?thesis using I [where p' = p and m' = min_dp] Some q by simp
      qed
    qed
  qed
qed simp

lemma pbs_pick_spec:
  assumes "\<forall>j < length ps. runnable (ps ! j) \<longrightarrow> pbs_sane (ps ! j)"
  shows "\<exists>r. pbs_pick ps = Ok (r, map pbs_refresh ps) \<and>
    (case r of None \<Rightarrow> \<forall>j < length ps. \<not> runnable (ps ! j)
     | Some i \<Rightarrow> i < length ps \<and> runnable (ps ! i) \<and>
         (\<forall>j < length ps. runnable (ps ! j) \<longrightarrow> \<not> pbs_before (pbs_refresh (ps ! j)) (pbs_refresh (ps ! i)) \<and>
            (j < i \<longrightarrow> pbs_before (pbs_refresh (ps ! i)) (pbs_refresh (ps ! j)))))"
proof -
  let ?F = "\<lambda>i. pbs_refresh (ps ! i)"
  have r: "runnable (?F i) = runnable (ps ! i)" for i by (simp add: pbs_refresh_def split: res.splits)
  obtain ps' where ps': "pbs_pick ps = Ok (best pbs_before (\<lambda>i. runnable (?F i)) ?F [0..<length ps] None, ps')"
    "length ps' = length ps" "\<forall>j < length ps. ps' ! j = ?F j"
    using pbs_loop_best [where xs = "[0..<length ps]" and ps = ps and p = None and min_dp = 103 and F = ?F] assms by (auto simp: pbs_pick_def)
  have "ps' = map pbs_refresh ps" using ps'(2,3) by (simp add: list_eq_iff_nth_eq)
  with ps'(1) show ?thesis
    using pbs.best_chosen [of "[0..<length ps]" None "\<lambda>i. runnable (?F i)" ?F]
    by (auto simp: candidates_def pbs.chosen_def r split: option.splits)
qed

section \<open>Lottery\<close>

definition share :: "proc list \<Rightarrow> int \<Rightarrow> nat \<Rightarrow> int" where
  "share ps tot i = (if runnable (ps ! i) then (p_tickets (ps ! i) * RAND_MAX) sdiv tot else 0)"

text \<open>No product of a number of tickets with \<^verbatim>\<open>RAND_MAX\<close> overflows.\<close>

definition tickets_fit :: "proc \<Rightarrow> bool" where
  "tickets_fit p \<longleftrightarrow> runnable p \<longrightarrow> p_tickets p \<ge> 0 \<and> p_tickets p * RAND_MAX < 2 ^ 31"

lemma lottery_loop_Cons:
  assumes "tot > 0" "tickets_fit (ps ! x)" "share ps tot x \<ge> 0" "0 \<le> sv" "sv + share ps tot x < 2 ^ 31"
  shows "lottery_loop (x # xs) ps tot rv sv =
    (if runnable (ps ! x) \<and> sv \<le> rv \<and> rv < sv + share ps tot x then Ok (Some x)
     else lottery_loop xs ps tot rv (sv + share ps tot x))"
  using assms by (auto simp: share_def tickets_fit_def cint_def RAND_MAX_def)

lemma lottery_loop_spec:
  assumes "tot > 0" "sv \<le> rv" "\<forall>x \<in> set xs. share ps tot x \<ge> 0" "\<forall>x \<in> set xs. tickets_fit (ps ! x)"
    and "0 \<le> sv" "sv + sum_list (map (share ps tot) xs) < 2 ^ 31"
  shows "\<exists>r. lottery_loop xs ps tot rv sv = Ok r \<and>
    (case r of None \<Rightarrow> sv + sum_list (map (share ps tot) xs) \<le> rv
     | Some i \<Rightarrow> \<exists>us vs. xs = us @ i # vs \<and> runnable (ps ! i) \<and>
         sv + sum_list (map (share ps tot) us) \<le> rv \<and> rv < sv + sum_list (map (share ps tot) us) + share ps tot i)"
  using assms
proof (induction xs arbitrary: sv)
  case (Cons x xs)
  have nn: "sum_list (map (share ps tot) xs) \<ge> 0" using Cons.prems(3) by (auto intro!: sum_list_nonneg)
  then have fit: "sv + share ps tot x < 2 ^ 31" using Cons.prems(6) by simp
  have step: "lottery_loop (x # xs) ps tot rv sv =
      (if runnable (ps ! x) \<and> sv \<le> rv \<and> rv < sv + share ps tot x then Ok (Some x)
       else lottery_loop xs ps tot rv (sv + share ps tot x))"
    by (rule lottery_loop_Cons) (use Cons.prems fit in auto)
  show ?case
  proof (cases "runnable (ps ! x) \<and> rv < sv + share ps tot x")
    case True
    then have "lottery_loop (x # xs) ps tot rv sv = Ok (Some x)" using step Cons.prems(2) by simp
    moreover have "x # xs = [] @ x # xs" by simp
    ultimately show ?thesis using True Cons.prems(2) by fastforce
  next
    case False
    then have le: "sv + share ps tot x \<le> rv" using Cons.prems by (auto simp: share_def)
    have l: "lottery_loop (x # xs) ps tot rv sv = lottery_loop xs ps tot rv (sv + share ps tot x)"
      using False step by auto
    obtain r where r: "lottery_loop xs ps tot rv (sv + share ps tot x) = Ok r"
      "case r of None \<Rightarrow> sv + share ps tot x + sum_list (map (share ps tot) xs) \<le> rv
       | Some i \<Rightarrow> \<exists>us vs. xs = us @ i # vs \<and> runnable (ps ! i) \<and>
         sv + share ps tot x + sum_list (map (share ps tot) us) \<le> rv \<and>
         rv < sv + share ps tot x + sum_list (map (share ps tot) us) + share ps tot i"
      using Cons.IH [OF Cons.prems(1) le] Cons.prems(3-6) by (auto simp: add.assoc)
    show ?thesis
    proof (cases r)
      case None
      then show ?thesis using l r by simp
    next
      case (Some i)
      then obtain us vs where u: "xs = us @ i # vs" "runnable (ps ! i)"
        "sv + share ps tot x + sum_list (map (share ps tot) us) \<le> rv"
        "rv < sv + share ps tot x + sum_list (map (share ps tot) us) + share ps tot i" using r(2) by auto
      have "\<exists>us vs. x # xs = us @ i # vs \<and> runnable (ps ! i) \<and> sv + sum_list (map (share ps tot) us) \<le> rv \<and>
          rv < sv + sum_list (map (share ps tot) us) + share ps tot i"
        by (rule exI [of _ "x # us"], rule exI [of _ vs]) (use u in \<open>simp add: add.assoc\<close>)
      then show ?thesis using l r(1) Some by simp
    qed
  qed
qed simp

definition below :: "proc list \<Rightarrow> int \<Rightarrow> nat \<Rightarrow> int" where
  "below ps tot k = sum_list (map (share ps tot) [0..<k])"

lemma below_Suc [simp]: "below ps tot (Suc k) = below ps tot k + share ps tot k"
  by (simp add: below_def)

lemma below_mono:
  assumes "\<forall>j < n. share ps tot j \<ge> 0" "i \<le> j" "j \<le> n"
  shows "below ps tot i \<le> below ps tot j"
  using assms(2,3)
proof (induction j rule: dec_induct)
  case (step k)
  then have "below ps tot i \<le> below ps tot k" "share ps tot k \<ge> 0" using assms(1) by simp_all
  then show ?case by simp
qed simp

lemma share_nonneg: "tot > 0 \<Longrightarrow> (runnable (ps ! i) \<Longrightarrow> p_tickets (ps ! i) \<ge> 0) \<Longrightarrow> share ps tot i \<ge> 0"
  by (auto simp: share_def RAND_MAX_def signed_divide_int_def sgn_mult sgn_if pos_imp_zdiv_nonneg_iff)

lemma lottery_wins_interval:
  assumes "tot > 0" "0 \<le> rv" "\<forall>j < length ps. share ps tot j \<ge> 0" "i < length ps"
    and "\<forall>j < length ps. tickets_fit (ps ! j)" "below ps tot (length ps) < 2 ^ 31"
  shows "lottery_loop [0..<length ps] ps tot rv 0 = Ok (Some i) \<longleftrightarrow>
    below ps tot i \<le> rv \<and> rv < below ps tot (Suc i)"
proof -
  obtain r where r: "lottery_loop [0..<length ps] ps tot rv 0 = Ok r"
    "case r of None \<Rightarrow> 0 + sum_list (map (share ps tot) [0..<length ps]) \<le> rv
     | Some i \<Rightarrow> \<exists>us vs. [0..<length ps] = us @ i # vs \<and> runnable (ps ! i) \<and>
         0 + sum_list (map (share ps tot) us) \<le> rv \<and> rv < 0 + sum_list (map (share ps tot) us) + share ps tot i"
    using lottery_loop_spec [OF assms(1,2), of "[0..<length ps]" ps] assms(3,5,6) by (auto simp: below_def)
  show ?thesis
  proof (cases r)
    case None
    then have "below ps tot (length ps) \<le> rv" using r(2) by (simp add: below_def)
    then show ?thesis using None r(1) below_mono [OF assms(3), of "Suc i" "length ps"] assms(4) by auto
  next
    case (Some j)
    then obtain us vs where u: "[0..<length ps] = us @ j # vs" "sum_list (map (share ps tot) us) \<le> rv"
      "rv < sum_list (map (share ps tot) us) + share ps tot j" using r(2) by auto
    have len: "length us < length ps" using arg_cong [OF u(1), of length] by simp
    have "take (length us) [0..<length ps] = us" "[0..<length ps] ! length us = j"
      unfolding u(1) by simp_all
    then have us: "us = [0..<length us]" "j = length us" using len by (simp_all add: take_upt)
    then have j: "j < length ps" and "us = [0..<j]" using len by simp_all
    then have b: "below ps tot j \<le> rv" "rv < below ps tot (Suc j)" using u(2,3) by (simp_all add: below_def)
    show ?thesis
    proof (cases "i = j")
      case True
      then show ?thesis using b r(1) Some by simp
    next
      case False
      then have "Suc i \<le> j \<or> Suc j \<le> i" by linarith
      then have "\<not> (below ps tot i \<le> rv \<and> rv < below ps tot (Suc i))"
        using b below_mono [OF assms(3), of "Suc i" j] below_mono [OF assms(3), of "Suc j" i] assms(4) j by auto
      then show ?thesis using r(1) Some False by auto
    qed
  qed
qed

lemma div_superadditive: "(t :: int) > 0 \<Longrightarrow> a div t + b div t \<le> (a + b) div t"
  by (subst div_add1_eq) (simp add: pos_imp_zdiv_nonneg_iff)

definition ticket_sum :: "proc list \<Rightarrow> int" where
  "ticket_sum ps = sum_list (map p_tickets (filter runnable ps))"

lemma ticket_sum_index:
  "ticket_sum ps = sum_list (map (\<lambda>i. if runnable (ps ! i) then p_tickets (ps ! i) else 0) [0..<length ps])"
proof -
  have "ticket_sum ps = sum_list (map (\<lambda>p. if runnable p then p_tickets p else 0) ps)"
    by (simp add: ticket_sum_def sum_list_map_filter')
  also have "\<dots> = sum_list (map (\<lambda>i. if runnable (ps ! i) then p_tickets (ps ! i) else 0) [0..<length ps])"
    by (rule arg_cong [of _ _ sum_list], rule nth_equalityI) simp_all
  finally show ?thesis .
qed

lemma ticket_sum_nonneg: "\<forall>p \<in> set ps. runnable p \<longrightarrow> p_tickets p \<ge> 0 \<Longrightarrow> ticket_sum ps \<ge> 0"
  unfolding ticket_sum_def by (rule sum_list_nonneg) auto

lemma total_tickets_sum:
  assumes "\<forall>p \<in> set ps. runnable p \<longrightarrow> p_tickets p \<ge> 0" "0 \<le> tot" "tot + ticket_sum ps < 2 ^ 31"
  shows "total_tickets ps tot = Ok (tot + ticket_sum ps)"
  using assms
proof (induction ps arbitrary: tot)
  case (Cons p ps)
  have nn: "ticket_sum ps \<ge> 0" using Cons.prems(1) by (intro ticket_sum_nonneg) simp
  have t: "ticket_sum (p # ps) = (if runnable p then p_tickets p else 0) + ticket_sum ps" by (simp add: ticket_sum_def)
  then show ?case using Cons.IH [of "tot + p_tickets p"] Cons.IH [of tot] Cons.prems nn by (auto simp: cint_def)
qed (simp add: ticket_sum_def)

lemma ticket_le_sum:
  assumes "\<forall>p \<in> set ps. runnable p \<longrightarrow> p_tickets p \<ge> 0" "p \<in> set ps" "runnable p"
  shows "p_tickets p \<le> ticket_sum ps"
  using assms
proof (induction ps)
  case (Cons q ps)
  have "ticket_sum ps \<ge> 0" using Cons.prems(1) by (intro ticket_sum_nonneg) simp
  then show ?case using Cons by (auto simp: ticket_sum_def)
qed simp

lemma below_total:
  assumes "tot > 0" "\<forall>j < k. runnable (ps ! j) \<longrightarrow> p_tickets (ps ! j) \<ge> 0"
  shows "below ps tot k \<le> (sum_list (map (\<lambda>i. if runnable (ps ! i) then p_tickets (ps ! i) else 0) [0..<k]) * RAND_MAX) div tot"
  using assms(2)
proof (induction k)
  case (Suc k)
  let ?S = "sum_list (map (\<lambda>i. if runnable (ps ! i) then p_tickets (ps ! i) else 0) [0..<k])"
  let ?x = "if runnable (ps ! k) then p_tickets (ps ! k) else 0"
  have "share ps tot k = (?x * RAND_MAX) div tot"
    using Suc.prems assms(1) by (auto simp: share_def RAND_MAX_def signed_divide_int_def sgn_mult sgn_if zero_less_mult_iff)
  then have "below ps tot (Suc k) \<le> (?S * RAND_MAX) div tot + (?x * RAND_MAX) div tot" using Suc by simp
  also have "\<dots> \<le> (?S * RAND_MAX + ?x * RAND_MAX) div tot" by (rule div_superadditive [OF assms(1)])
  also have "?S * RAND_MAX + ?x * RAND_MAX = (?S + ?x) * RAND_MAX" by (rule distrib_right [symmetric])
  finally show ?case by simp
qed (simp add: below_def)

lemma lottery_share:
  assumes "\<forall>j < length ps. runnable (ps ! j) \<longrightarrow> p_tickets (ps ! j) \<ge> 0" "0 < ticket_sum ps" "ticket_sum ps * RAND_MAX < 2 ^ 31"
    and "i < length ps" "runnable (ps ! i)"
  shows "card {rv \<in> {0..RAND_MAX}. lottery_loop [0..<length ps] ps (ticket_sum ps) rv 0 = Ok (Some i)} =
    nat (p_tickets (ps ! i) * RAND_MAX div ticket_sum ps)"
proof -
  let ?t = "ticket_sum ps"
  have nn: "\<forall>j < length ps. share ps ?t j \<ge> 0" using share_nonneg [OF assms(2)] assms(1) by blast
  have set: "\<forall>p \<in> set ps. runnable p \<longrightarrow> p_tickets p \<ge> 0" using assms(1) by (auto simp: in_set_conv_nth)
  have fit: "\<forall>j < length ps. tickets_fit (ps ! j)"
    using ticket_le_sum [OF set] assms(1,3) by (force simp: tickets_fit_def RAND_MAX_def)
  have "below ps ?t (length ps) \<le> (?t * RAND_MAX) div ?t"
    using below_total [OF assms(2,1)] by (simp add: ticket_sum_index)
  then have all: "below ps ?t (length ps) \<le> RAND_MAX" using assms(2) by simp
  then have top: "below ps ?t (Suc i) \<le> RAND_MAX"
    using below_mono [OF nn, of "Suc i" "length ps"] assms(4) by simp
  have bot: "0 \<le> below ps ?t i" using below_mono [OF nn, of 0 i] assms(4) by (simp add: below_def)
  have "{rv \<in> {0..RAND_MAX}. lottery_loop [0..<length ps] ps ?t rv 0 = Ok (Some i)} = {below ps ?t i..<below ps ?t (Suc i)}"
    using lottery_wins_interval [OF assms(2) _ nn assms(4) fit] top bot all by (auto simp: RAND_MAX_def)
  then have "card {rv \<in> {0..RAND_MAX}. lottery_loop [0..<length ps] ps ?t rv 0 = Ok (Some i)} = nat (share ps ?t i)" by simp
  also have "share ps ?t i = p_tickets (ps ! i) * RAND_MAX div ?t"
    using assms by (auto simp: share_def RAND_MAX_def signed_divide_int_def sgn_mult sgn_if)
  finally show ?thesis .
qed

section \<open>Feedback queues\<close>

text \<open>A row of \<open>n\<close> slots that holds the processes \<open>l\<close> in order.\<close>

definition row_of :: "nat \<Rightarrow> nat list \<Rightarrow> nat option list" where
  "row_of n l = map Some l @ replicate (n - length l) None"

lemma row_of_Cons: "length l < n \<Longrightarrow> row_of n (x # l) = Some x # row_of (n - 1) l"
  by (simp add: row_of_def)

lemma filter_head: "distinct (map g (x # l)) \<Longrightarrow> filter (\<lambda>y. g y \<noteq> g x) (x # l) = l"
  by (simp add: filter_id_conv) (metis imageI)

lemma dequeue_row_empty: "\<forall>x \<in> set l. p_pid (ps ! x) \<noteq> pid \<Longrightarrow> dequeue_row ps pid (row_of n l) = row_of n l"
proof (induction l arbitrary: n)
  case Nil
  have "dequeue_row ps pid (replicate k None) = replicate k None" for k by (induction k) auto
  then show ?case by (simp add: row_of_def)
next
  case (Cons x l)
  have "row_of n (x # l) = Some x # row_of (n - 1) l" by (simp add: row_of_def)
  then show ?case using Cons by simp
qed

lemma dequeue_row_refines:
  assumes "length l < n" "distinct (map (\<lambda>x. p_pid (ps ! x)) l)"
  shows "dequeue_row ps pid (row_of n l) = row_of n (filter (\<lambda>x. p_pid (ps ! x) \<noteq> pid) l)"
  using assms
proof (induction l arbitrary: n)
  case Nil
  then show ?case using dequeue_row_empty [of "[]"] by simp
next
  case (Cons x l)
  have r: "row_of n (x # l) = Some x # row_of (n - 1) l" using Cons.prems(1) by (simp add: row_of_Cons)
  show ?case
  proof (cases "p_pid (ps ! x) = pid")
    case True
    then have f: "filter (\<lambda>y. p_pid (ps ! y) \<noteq> pid) (x # l) = l"
      using filter_head [OF Cons.prems(2)] by simp
    obtain k where k: "n - length (x # l) = Suc k" using Cons.prems(1) by (metis Suc_diff_Suc)
    then have "row_of (n - 1) l = map Some l @ replicate (Suc k) None" "n - length l = Suc (Suc k)"
      by (simp_all add: row_of_def)
    then show ?thesis unfolding f using True r by (simp add: row_of_def replicate_append_same)
  next
    case False
    then show ?thesis
      using r Cons.IH [of "n - 1"] Cons.prems row_of_Cons [of "filter (\<lambda>x. p_pid (ps ! x) \<noteq> pid) l" n x]
        length_filter_le [of "\<lambda>x. p_pid (ps ! x) \<noteq> pid" l] by simp
  qed
qed

lemma queue_row_refines:
  assumes "length l \<le> n"
  shows "queue_row ps p (row_of n l) =
    row_of n (if p_pid (ps ! p) \<in> (\<lambda>x. p_pid (ps ! x)) ` set l \<or> length l = n then l else l @ [p])"
  using assms
proof (induction l arbitrary: n)
  case Nil
  then show ?case by (cases n) (simp_all add: row_of_def)
next
  case (Cons x l)
  obtain m where m: "n = Suc m" using Cons.prems by (cases n) auto
  then have "row_of n (x # l) = Some x # row_of m l" by (simp add: row_of_def)
  moreover have "row_of n (x # l @ [p]) = Some x # row_of m (l @ [p])" by (simp add: m row_of_def)
  ultimately show ?case using Cons.IH [of m] Cons.prems m by auto
qed

text \<open>With the rows in this form the first nonempty row gives its head, which leaves the row.\<close>

definition rows_ok :: "proc list \<Rightarrow> nat \<Rightarrow> nat list list \<Rightarrow> rows \<Rightarrow> bool" where
  "rows_ok ps n ls q \<longleftrightarrow> length ls = NPR \<and> q = map (row_of n) ls \<and>
     (\<forall>i < NPR. length (ls ! i) < n \<and> distinct (map (\<lambda>x. p_pid (ps ! x)) (ls ! i)) \<and>
        (\<forall>x \<in> set (ls ! i). unat (p_pr (ps ! x)) = i))"

lemma rows_ok_nth: "rows_ok ps n ls q \<Longrightarrow> i < NPR \<Longrightarrow> q ! i = row_of n (ls ! i)"
  by (simp add: rows_ok_def)

lemma mlfq_rows_head:
  assumes "rows_ok ps n ls q" "\<forall>i \<in> set us. i < NPR \<and> ls ! i = []" "i < NPR" "ls ! i = p # rest" "runnable (ps ! p)"
  shows "mlfq_rows (us @ i # vs) ps q = Ok (Some p, q[i := row_of n rest])"
  using assms(2)
proof (induction us)
  case Nil
  have row: "q ! i = row_of n (p # rest)" "length (p # rest) < n" "unat (p_pr (ps ! p)) = i"
    "distinct (map (\<lambda>x. p_pid (ps ! x)) (p # rest))"
    using assms(1,3,4) rows_ok_nth by (auto simp: rows_ok_def)
  have "filter (\<lambda>y. p_pid (ps ! y) \<noteq> p_pid (ps ! p)) (p # rest) = rest"
    by (rule filter_head [OF row(4)])
  then have d: "dequeue_proc ps p q = Ok (q[i := row_of n rest])"
    using dequeue_row_refines [OF row(2,4), of "p_pid (ps ! p)"] row assms(3) by (simp add: dequeue_proc_def)
  have h: "q ! i ! 0 = Some p" "length (q ! i) = Suc (n - 1)" using row(1,2) by (simp_all add: row_of_def)
  have "mlfq_row (length (q ! i)) i 0 ps q = Ok (Some p, q[i := row_of n rest])"
    unfolding h(2) using h(1) d assms(5) by simp
  then show ?case by simp
next
  case (Cons k us)
  then have k: "q ! k = row_of n []" using rows_ok_nth [OF assms(1)] by simp
  have "mlfq_row (length (q ! k)) k 0 ps q = Ok (None, q)"
    unfolding k row_of_def by (cases n) (simp_all add: k row_of_def)
  then show ?case using Cons by simp
qed

section \<open>A scheduling round\<close>

text \<open>Two tables with the same processes, up to scheduling data.\<close>

definition same_procs :: "proc list \<Rightarrow> proc list \<Rightarrow> bool" where
  "same_procs ps ps' \<longleftrightarrow> length ps' = length ps \<and>
     (\<forall>j < length ps. p_state (ps' ! j) = p_state (ps ! j) \<and> p_pid (ps' ! j) = p_pid (ps ! j))"

lemma same_procs_refl [simp]: "same_procs ps ps"
  by (simp add: same_procs_def)

lemma same_procs_trans: "same_procs ps ps' \<Longrightarrow> same_procs ps' ps'' \<Longrightarrow> same_procs ps ps''"
  by (auto simp: same_procs_def)

lemma same_procs_update:
  "p_state p = p_state (ps ! i) \<Longrightarrow> p_pid p = p_pid (ps ! i) \<Longrightarrow> same_procs ps (ps[i := p])"
  by (cases "i < length ps") (auto simp: same_procs_def nth_list_update)

definition ran :: "proc list \<Rightarrow> nat option \<Rightarrow> proc list \<Rightarrow> bool" where
  "ran ps r ps' \<longleftrightarrow> length ps' = length ps \<and> (\<forall>j < length ps. p_pid (ps' ! j) = p_pid (ps ! j)) \<and>
     (case r of
        None \<Rightarrow> \<forall>j < length ps. p_state (ps' ! j) = p_state (ps ! j)
      | Some i \<Rightarrow> i < length ps \<and> p_state (ps ! i) = RUNNABLE \<and> p_state (ps' ! i) = RUNNING \<and>
          (\<forall>j < length ps. j \<noteq> i \<longrightarrow> p_state (ps' ! j) = p_state (ps ! j)))"

lemma sched_run_ran: "sched_run pol i ps = Ok (r, ps') \<Longrightarrow> ran ps r ps'"
  by (auto simp: sched_run_def ran_def runnable_def Let_def nth_list_update rbind_eq_Ok split: if_splits)

lemma run_pick_ran: "run_pick pol p ps = Ok (r, ps') \<Longrightarrow> ran ps r ps'"
  by (cases p) (auto simp: run_pick_def sched_run_ran ran_def [of _ None])

lemma ran_same: "same_procs ps ps1 \<Longrightarrow> ran ps1 r ps' \<Longrightarrow> ran ps r ps'"
  by (auto simp: same_procs_def ran_def split: option.splits)

lemma pbs_loop_same: "pbs_loop xs ps p m = Ok (r, ps') \<Longrightarrow> same_procs ps ps'"
proof (induction xs arbitrary: ps p m)
  case (Cons x xs)
  show ?case
  proof (cases "runnable (ps ! x)")
    case True
    then obtain n where n: "pbs_niceness (ps ! x) = Ok n" using Cons.prems by (auto simp: rbind_eq_Ok)
    have "\<exists>p' m'. pbs_loop xs (ps[x := (ps ! x)\<lparr>p_niceness := n\<rparr>]) p' m' = Ok (r, ps')"
      using Cons.prems True n by (auto simp: Let_def rbind_eq_Ok split: if_split_asm option.split_asm)
    then have "same_procs (ps[x := (ps ! x)\<lparr>p_niceness := n\<rparr>]) ps'" using Cons.IH by blast
    moreover have "same_procs ps (ps[x := (ps ! x)\<lparr>p_niceness := n\<rparr>])" by (rule same_procs_update) simp_all
    ultimately show ?thesis using same_procs_trans by blast
  next
    case False
    then show ?thesis using Cons by simp
  qed
qed simp

lemma mlfq_age_same: "mlfq_age ijs ps q = Ok (ps', q') \<Longrightarrow> same_procs ps ps'"
proof (induction ijs arbitrary: ps q)
  case (Cons ij ijs)
  show ?case
  proof (cases "\<exists>fp. q ! fst ij ! snd ij = Some fp \<and> p_wticks (ps ! fp) \<ge> 30")
    case True
    then obtain fp q1 where "mlfq_age ijs (ps[fp := (ps ! fp)\<lparr>p_pr := p_pr (ps ! fp) - 1, p_wticks := 0\<rparr>]) q1 = Ok (ps', q')"
      using Cons.prems by (auto simp: rbind_eq_Ok Let_def)
    then have "same_procs (ps[fp := (ps ! fp)\<lparr>p_pr := p_pr (ps ! fp) - 1, p_wticks := 0\<rparr>]) ps'" using Cons.IH by blast
    moreover have "same_procs ps (ps[fp := (ps ! fp)\<lparr>p_pr := p_pr (ps ! fp) - 1, p_wticks := 0\<rparr>])"
      by (rule same_procs_update) simp_all
    ultimately show ?thesis using same_procs_trans by blast
  next
    case False
    then show ?thesis using Cons by (auto split: option.splits)
  qed
qed simp

lemma mlfq_pick_same:
  assumes "mlfq_pick ps q = Ok (r, ps', q')"
  shows "same_procs ps ps'"
proof -
  obtain q1 ps1 q2 where p: "mlfq_age (List.product [1..<NPR] [0..<length (q1 ! 0)]) ps q1 = Ok (ps1, q2)"
    "ps' = ps1 \<or> (\<exists>fp. ps' = ps1[fp := (ps1 ! fp)\<lparr>p_wticks := 0\<rparr>])"
    using assms by (fastforce simp: mlfq_pick_def rbind_eq_Ok split: option.splits)
  have "same_procs ps1 ps'" using p(2) same_procs_update by auto
  then show ?thesis using mlfq_age_same [OF p(1)] same_procs_trans by blast
qed

lemma scheduler_ran:
  assumes "scheduler pol t q = Ok (r, t', q')"
  shows "ran (procs t) r (procs t') \<and> nextpid t' = nextpid t \<and> ticks t' = ticks t"
proof (cases pol)
  case PBS
  then obtain p ps ps' where "pbs_pick (procs t) = Ok (p, ps)" "run_pick PBS p ps = Ok (r, ps')" "t' = t\<lparr>procs := ps'\<rparr>"
    using assms by (auto simp: scheduler_def Let_def rbind_eq_Ok)
  then show ?thesis using ran_same [OF pbs_loop_same run_pick_ran] by (simp add: pbs_pick_def)
next
  case MLFQ
  then obtain p ps q1 ps' where "mlfq_pick (procs t) q = Ok (p, ps, q1)" "run_pick MLFQ p ps = Ok (r, ps')" "t' = t\<lparr>procs := ps'\<rparr>"
    using assms by (auto simp: scheduler_def Let_def rbind_eq_Ok)
  then show ?thesis using ran_same [OF mlfq_pick_same run_pick_ran] by simp
next
  case RR
  then obtain ps' where "sched_run RR (rr_pick (procs t)) (procs t) = Ok (r, ps')" "t' = t\<lparr>procs := ps'\<rparr>"
    using assms by (auto simp: scheduler_def Let_def rbind_eq_Ok)
  then show ?thesis using sched_run_ran by simp
next
  case FCFS
  then obtain ps' where "run_pick FCFS (fcfs_pick (procs t)) (procs t) = Ok (r, ps')" "t' = t\<lparr>procs := ps'\<rparr>"
    using assms by (auto simp: scheduler_def Let_def rbind_eq_Ok)
  then show ?thesis using run_pick_ran by simp
next
  case LOTTERY
  then obtain p ps' where "run_pick LOTTERY p (procs t) = Ok (r, ps')" "t' = t\<lparr>procs := ps'\<rparr>"
    using assms by (auto simp: scheduler_def Let_def rbind_eq_Ok)
  then show ?thesis using run_pick_ran by simp
qed

section \<open>Properties\<close>

text \<open>
  C29. Under every policy a scheduling round switches to at most one process: the one it returns was
  runnable and is now running, no other process changes state, and no process id changes.
\<close>

theorem scheduler_runs_one_runnable:
  assumes "scheduler pol t q = Ok (r, t', q')"
  shows "length (procs t') = length (procs t) \<and> (\<forall>j < length (procs t). p_pid (procs t' ! j) = p_pid (procs t ! j)) \<and>
    (case r of
       None \<Rightarrow> \<forall>j < length (procs t). p_state (procs t' ! j) = p_state (procs t ! j)
     | Some i \<Rightarrow> i < length (procs t) \<and> p_state (procs t ! i) = RUNNABLE \<and> p_state (procs t' ! i) = RUNNING \<and>
         (\<forall>j < length (procs t). j \<noteq> i \<longrightarrow> p_state (procs t' ! j) = p_state (procs t ! j)))"
  using scheduler_ran [OF assms] by (simp add: ran_def)

definition sample_procs :: "proc list" where
  "sample_procs =
     [proc_zero\<lparr>p_state := SLEEPING, p_pid := 1\<rparr>,
      proc_zero\<lparr>p_state := RUNNABLE, p_pid := 2, p_ctime := 30, p_tickets := 1, p_staticP := 60\<rparr>,
      proc_zero\<lparr>p_state := RUNNABLE, p_pid := 3, p_ctime := 20, p_tickets := 3, p_staticP := 40\<rparr>]"

definition sample_table :: ptable where
  "sample_table = \<lparr>procs = sample_procs, nextpid = 4, initproc = Some 0, ticks = 50\<rparr>"

lemma sample_simps:
  "length sample_procs = 3" "runnable (sample_procs ! 0) = False" "runnable (sample_procs ! 1) = True"
  "runnable (sample_procs ! 2) = True" "p_ctime (sample_procs ! 1) = 30" "p_ctime (sample_procs ! 2) = 20"
  "p_tickets (sample_procs ! 1) = 1" "p_tickets (sample_procs ! 2) = 3" "ticket_sum sample_procs = 4"
  by (simp_all add: sample_procs_def runnable_def ticket_sum_def proc_zero_def)

lemma all_less_3: "(\<forall>j < (3 :: nat). P j) \<longleftrightarrow> P 0 \<and> P 1 \<and> P 2"
  by (auto simp: numeral_3_eq_3 less_Suc_eq numeral_2_eq_2)

lemmas sample_simps_Suc = sample_simps [unfolded One_nat_def]

lemma sample_fcfs: "fcfs_pick sample_procs = Some 2"
proof -
  have "fcfs_pick sample_procs = Some (Suc (Suc 0))"
    by (simp add: fcfs_pick_def sample_procs_def runnable_def upt_rec)
  then show ?thesis by (simp add: numeral_2_eq_2)
qed

theorem scheduler_runs_one_runnable_witness:
  "\<exists>t'. scheduler FCFS sample_table [] = Ok (Some 2, t', []) \<and> p_state (procs t' ! 2) = RUNNING"
proof -
  obtain t' where r: "scheduler FCFS sample_table [] = Ok (Some 2, t', [])"
    by (simp add: sample_fcfs scheduler_def sample_table_def run_pick_def sched_run_def sample_simps Let_def)
  from scheduler_runs_one_runnable [OF this] r show ?thesis by simp
qed

text \<open>
  FCFS chooses a runnable process of least creation time, the first of them in the table, and
  chooses none only if none is runnable.
\<close>

lemma fcfs_picks_oldest:
  "case fcfs_pick ps of
     None \<Rightarrow> \<forall>j < length ps. \<not> runnable (ps ! j)
   | Some i \<Rightarrow> i < length ps \<and> runnable (ps ! i) \<and>
       (\<forall>j < length ps. runnable (ps ! j) \<longrightarrow> p_ctime (ps ! i) \<le> p_ctime (ps ! j) \<and>
          (j < i \<longrightarrow> p_ctime (ps ! i) < p_ctime (ps ! j)))"
  by (rule fcfs_pick_spec)



text \<open>
  C32. The lottery is proportional: with \<open>tickets * 32767\<close> below \<open>2\<^sup>3\<^sup>1\<close> for the sum of all tickets, that is, at most 65538 tickets
  among the runnable processes, nothing overflows, and of the 32768 values \<^verbatim>\<open>rand\<close> can return, exactly
  \<open>tickets * 32767 div total\<close> make a runnable process the winner.
\<close>

theorem lottery_proportional:
  assumes "\<forall>j < length ps. runnable (ps ! j) \<longrightarrow> p_tickets (ps ! j) \<ge> 0" "0 < ticket_sum ps" "ticket_sum ps * RAND_MAX < 2 ^ 31"
    and "i < length ps" "runnable (ps ! i)"
  shows "total_tickets ps 0 = Ok (ticket_sum ps) \<and>
    card {rv \<in> {0..RAND_MAX}. lottery_loop [0..<length ps] ps (ticket_sum ps) rv 0 = Ok (Some i)} =
      nat (p_tickets (ps ! i) * RAND_MAX div ticket_sum ps)"
proof
  have "\<forall>p \<in> set ps. runnable p \<longrightarrow> p_tickets p \<ge> 0" using assms(1) by (auto simp: in_set_conv_nth)
  then show "total_tickets ps 0 = Ok (ticket_sum ps)" using total_tickets_sum [of ps 0] assms(2,3) by (simp add: RAND_MAX_def)
qed (rule lottery_share [OF assms])

theorem lottery_proportional_witness:
  "total_tickets sample_procs 0 = Ok 4 \<and>
    card {rv \<in> {0..RAND_MAX}. lottery_loop [0..<3] sample_procs 4 rv 0 = Ok (Some 2)} = 24575"
  using lottery_proportional [of sample_procs 2] by (simp add: sample_simps sample_simps_Suc all_less_3 RAND_MAX_def)

text \<open>
  C31. MLFQ serves the highest nonempty queue first: with rows that hold distinct processes of their own
  level and are not full, the scan chooses the head of the first nonempty row if it is runnable, and
  leaves the rest of that row in order and the other rows as they were.
\<close>

theorem mlfq_serves_highest_queue:
  assumes "rows_ok ps n ls q" "i < NPR" "\<forall>k < i. ls ! k = []" "ls ! i = p # rest" "runnable (ps ! p)"
  shows "mlfq_rows [0..<NPR] ps q = Ok (Some p, q[i := row_of n rest])"
proof -
  have "[0..<NPR] = [0..<i] @ i # [Suc i..<NPR]" using assms(2)
    by (metis less_imp_le_nat upt_add_eq_append upt_conv_Cons le_add_diff_inverse zero_le plus_nat.add_0)
  moreover have "\<forall>k \<in> set [0..<i]. k < NPR \<and> ls ! k = []" using assms(2,3) by simp
  ultimately show ?thesis using mlfq_rows_head [OF assms(1) _ assms(2,4,5), of "[0..<i]" "[Suc i..<NPR]"] by simp
qed

theorem mlfq_serves_highest_queue_witness:
  "mlfq_rows [0..<5] (map (\<lambda>p. p\<lparr>p_pr := 1\<rparr>) sample_procs)
     [row_of 4 [], row_of 4 [2, 1], row_of 4 [], row_of 4 [], row_of 4 []] =
   Ok (Some 2, [row_of 4 [], row_of 4 [1], row_of 4 [], row_of 4 [], row_of 4 []])"
proof -
  let ?ps = "map (\<lambda>p. p\<lparr>p_pr := 1\<rparr>) sample_procs"
  have "rows_ok ?ps 4 [[], [2, 1], [], [], []] [row_of 4 [], row_of 4 [2, 1], row_of 4 [], row_of 4 [], row_of 4 []]"
    unfolding rows_ok_def NPR_def
    by (auto simp: sample_procs_def less_Suc_eq numeral_eq_Suc)
  moreover have "runnable (?ps ! 2)" by (simp add: sample_procs_def runnable_def)
  ultimately show ?thesis
    using mlfq_serves_highest_queue [of ?ps 4 "[[], [2, 1], [], [], []]" _ 1 2 "[1]"] by (simp add: NPR_def)
qed

text \<open>
  C33. Round robin is not fair: it takes the first runnable process in the table every time, so a
  process never runs while one before it is runnable; and with no runnable process it goes on with
  the entry one past the end of the table.
\<close>

theorem rr_takes_first_runnable:
  "(\<forall>i t' q'. scheduler RR t q = Ok (Some i, t', q') \<longrightarrow> (\<forall>j < i. p_state (procs t ! j) \<noteq> RUNNABLE)) \<and>
   ((\<forall>j < length (procs t). p_state (procs t ! j) \<noteq> RUNNABLE) \<longrightarrow> scheduler RR t q = Fault ''proc[NPROC]'')"
proof (cases "find_index runnable (procs t)")
  case None
  then have "scheduler RR t q = Fault ''proc[NPROC]''" by (simp add: scheduler_def rr_pick_def sched_run_def Let_def)
  then show ?thesis by simp
next
  case (Some k)
  then have k: "k < length (procs t)" "runnable (procs t ! k)" "\<forall>j < k. \<not> runnable (procs t ! j)"
    by (auto simp: find_index_Some)
  then have "\<exists>t'. scheduler RR t q = Ok (Some k, t', q)"
    using Some by (simp add: scheduler_def rr_pick_def sched_run_def Let_def)
  with k show ?thesis by (auto simp: runnable_def)
qed

theorem rr_takes_first_runnable_witness:
  "\<exists>t'. scheduler RR sample_table [] = Ok (Some 1, t', []) \<and> p_state (procs sample_table ! 0) \<noteq> RUNNABLE"
proof -
  have "find_index runnable sample_procs = Some 1" by (simp add: sample_procs_def runnable_def)
  then obtain t' where r: "scheduler RR sample_table [] = Ok (Some 1, t', [])"
    by (simp add: scheduler_def rr_pick_def sched_run_def Let_def sample_table_def sample_simps sample_simps_Suc)
  then have "p_state (procs sample_table ! 0) \<noteq> RUNNABLE"
    using rr_takes_first_runnable [of sample_table "[]"] by auto
  with r show ?thesis by blast
qed

end
