(* ===== verification/Blocks.thy ===== *)
theory Blocks
  imports Memory
begin

text \<open>
  The block layer as the log and the file system see it: block contents through the buffer cache, the
  blocks on disk, the pins that keep a block in the cache, and the disk writes so far, in order. The buffer
  cache's theory shows that \<^verbatim>\<open>kernel/bio.c\<close> provides this, and that besides these operations the cache may only drop a change
  of a block that is neither pinned nor in use; the log pins every block it is given until it is installed. The contents of a block are its bytes by
  position, and the accessors read and store little-endian fields in them.
\<close>

section \<open>Definitions\<close>

definition BSIZE :: nat where "BSIZE = 1024"

record bdev =
  bview :: "u32 \<Rightarrow> bytes"
  bdisk :: "u32 \<Rightarrow> bytes"
  bpins :: "u32 \<Rightarrow> int"
  bwrites :: "(u32 \<times> bytes) list"

text \<open>
  The contents a \<^verbatim>\<open>bread\<close> of block \<open>n\<close> delivers are \<open>bview d n\<close>. \<open>bmodify\<close> stores into the buffer only;
  \<open>bwrite_block\<close> is \<^verbatim>\<open>bwrite\<close>.
\<close>

definition bmodify :: "u32 \<Rightarrow> bytes \<Rightarrow> bdev \<Rightarrow> bdev" where
  "bmodify n v d = d\<lparr>bview := (bview d)(n := v)\<rparr>"

definition bwrite_block :: "u32 \<Rightarrow> bdev \<Rightarrow> bdev" where
  "bwrite_block n d = d\<lparr>bdisk := (bdisk d)(n := bview d n), bwrites := bwrites d @ [(n, bview d n)]\<rparr>"

definition bpin_block :: "u32 \<Rightarrow> bdev \<Rightarrow> bdev" where
  "bpin_block n d = d\<lparr>bpins := (bpins d)(n := bpins d n + 1)\<rparr>"

definition bunpin_block :: "u32 \<Rightarrow> bdev \<Rightarrow> bdev" where
  "bunpin_block n d = d\<lparr>bpins := (bpins d)(n := bpins d n - 1)\<rparr>"

text \<open>After a crash nothing but the disk is left.\<close>

definition after_crash :: "(u32 \<Rightarrow> bytes) \<Rightarrow> bdev" where
  "after_crash dsk = \<lparr>bview = dsk, bdisk = dsk, bpins = (\<lambda>_. 0), bwrites = []\<rparr>"

definition apply_writes :: "(u32 \<times> bytes) list \<Rightarrow> (u32 \<Rightarrow> bytes) \<Rightarrow> u32 \<Rightarrow> bytes" where
  "apply_writes ws dsk = foldl (\<lambda>dsk (n, v). dsk(n := v)) dsk ws"

definition get8 :: "bytes \<Rightarrow> nat \<Rightarrow> u8" where
  "get8 f off = f off"

definition get16 :: "bytes \<Rightarrow> nat \<Rightarrow> u16" where
  "get16 f off = le_word 2 (\<lambda>i. f (off + i))"

definition get32 :: "bytes \<Rightarrow> nat \<Rightarrow> u32" where
  "get32 f off = le_word 4 (\<lambda>i. f (off + i))"

definition put16 :: "nat \<Rightarrow> u16 \<Rightarrow> bytes \<Rightarrow> bytes" where
  "put16 off v f = (\<lambda>i. if off \<le> i \<and> i < off + 2 then le_byte v (i - off) else f i)"

definition put32 :: "nat \<Rightarrow> u32 \<Rightarrow> bytes \<Rightarrow> bytes" where
  "put32 off v f = (\<lambda>i. if off \<le> i \<and> i < off + 4 then le_byte v (i - off) else f i)"

definition zero_block :: bytes where "zero_block = (\<lambda>_. 0)"

section \<open>Lemmas\<close>

lemma get16_put16 [simp]: "get16 (put16 off v f) off = v"
  unfolding get16_def put16_def
  by (subst le_word_cong [where g = "le_byte v"]) (simp_all add: le_word_le_byte)

lemma get32_put32 [simp]: "get32 (put32 off v f) off = v"
  unfolding get32_def put32_def
  by (subst le_word_cong [where g = "le_byte v"]) (simp_all add: le_word_le_byte)

lemma get_put_other:
  "off + 2 \<le> o2 \<or> o2 + 2 \<le> off \<Longrightarrow> get16 (put16 off v f) o2 = get16 f o2"
  "off + 4 \<le> o2 \<or> o2 + 4 \<le> off \<Longrightarrow> get32 (put32 off w f) o2 = get32 f o2"
  "off + 4 \<le> o2 \<or> o2 + 2 \<le> off \<Longrightarrow> get16 (put32 off w f) o2 = get16 f o2"
  "off + 2 \<le> o2 \<or> o2 + 4 \<le> off \<Longrightarrow> get32 (put16 off v f) o2 = get32 f o2"
  unfolding get16_def get32_def put16_def put32_def by (rule le_word_cong, auto)+

lemma put_outside:
  "i < off \<or> off + 2 \<le> i \<Longrightarrow> put16 off v f i = f i" "i < off \<or> off + 4 \<le> i \<Longrightarrow> put32 off w f i = f i"
  by (auto simp: put16_def put32_def)

lemma get_cong:
  "(\<And>i. off \<le> i \<Longrightarrow> i < off + 2 \<Longrightarrow> f i = g i) \<Longrightarrow> get16 f off = get16 g off"
  "(\<And>i. off \<le> i \<Longrightarrow> i < off + 4 \<Longrightarrow> f i = g i) \<Longrightarrow> get32 f off = get32 g off"
  unfolding get16_def get32_def by (rule le_word_cong, simp)+

lemma apply_writes_append: "apply_writes (xs @ ys) dsk = apply_writes ys (apply_writes xs dsk)"
  by (simp add: apply_writes_def)

lemma apply_writes_simps [simp]:
  "apply_writes [] dsk = dsk" "apply_writes (w # ws) dsk = apply_writes ws (dsk(fst w := snd w))"
  by (simp_all add: apply_writes_def case_prod_beta)

lemma bmodify_sel [simp]:
  "bview (bmodify n v d) = (bview d)(n := v)" "bdisk (bmodify n v d) = bdisk d"
  "bpins (bmodify n v d) = bpins d" "bwrites (bmodify n v d) = bwrites d"
  by (simp_all add: bmodify_def)

lemma bwrite_block_sel [simp]:
  "bview (bwrite_block n d) = bview d" "bdisk (bwrite_block n d) = (bdisk d)(n := bview d n)"
  "bpins (bwrite_block n d) = bpins d" "bwrites (bwrite_block n d) = bwrites d @ [(n, bview d n)]"
  by (simp_all add: bwrite_block_def)

lemma bpin_block_sel [simp]:
  "bview (bpin_block n d) = bview d" "bdisk (bpin_block n d) = bdisk d"
  "bpins (bpin_block n d) = (bpins d)(n := bpins d n + 1)" "bwrites (bpin_block n d) = bwrites d"
  "bview (bunpin_block n d) = bview d" "bdisk (bunpin_block n d) = bdisk d"
  "bpins (bunpin_block n d) = (bpins d)(n := bpins d n - 1)" "bwrites (bunpin_block n d) = bwrites d"
  by (simp_all add: bpin_block_def bunpin_block_def)

lemma after_crash_sel [simp]:
  "bview (after_crash dsk) = dsk" "bdisk (after_crash dsk) = dsk" "bwrites (after_crash dsk) = []"
  by (simp_all add: after_crash_def)

end
