(* ===== verification/Bio.thy ===== *)
theory Bio
  imports Blocks Locks "HOL-Library.Multiset"
begin

text \<open>
  The buffer cache (\<^verbatim>\<open>kernel/bio.c\<close>): buffers in a doubly linked list in order of use, each with a sleep lock
  and a count of references. The operations are given as the code has them; the processes that use them
  concurrently are a step relation in which each critical section of \<^verbatim>\<open>bcache.lock\<close>, each disk transfer and each
  sleep-lock operation is a step. The theory shows that the cache implements the block layer of
  theory \<^verbatim>\<open>Blocks\<close>. Reading and writing a block is \<^verbatim>\<open>virtio_disk_rw\<close>, here its effect on the one disk, which does
  not look at the device number.
\<close>

section \<open>Definitions\<close>

definition NBUF :: nat where "NBUF = 30"

record buf =
  bf_valid :: bool
  bf_dev :: u32
  bf_blockno :: u32
  bf_lock :: sleeplock
  bf_refcnt :: u32
  bf_prev :: nat
  bf_next :: nat
  bf_data :: bytes

text \<open>A buffer is named by its index in \<^verbatim>\<open>bcache.buf\<close>; the index \<open>NBUF\<close> stands for \<^verbatim>\<open>bcache.head\<close>.\<close>

record bcache =
  bufs :: "nat \<Rightarrow> buf"
  dsk :: "u32 \<Rightarrow> bytes"
  dwrites :: "(u32 \<times> bytes) list"

definition upd_buf :: "nat \<Rightarrow> (buf \<Rightarrow> buf) \<Rightarrow> bcache \<Rightarrow> bcache" where
  "upd_buf b f c = c\<lparr>bufs := (bufs c)(b := f (bufs c b))\<rparr>"

text \<open>The four assignments that put a buffer at the front of the list, and the two that take it out.\<close>

definition link_front :: "nat \<Rightarrow> bcache \<Rightarrow> bcache" where
  "link_front b c =
     (let c = upd_buf b (\<lambda>x. x\<lparr>bf_next := bf_next (bufs c NBUF)\<rparr>) c;
          c = upd_buf b (\<lambda>x. x\<lparr>bf_prev := NBUF\<rparr>) c;
          c = upd_buf (bf_next (bufs c NBUF)) (\<lambda>x. x\<lparr>bf_prev := b\<rparr>) c
      in upd_buf NBUF (\<lambda>x. x\<lparr>bf_next := b\<rparr>) c)"

definition unlink_buf :: "nat \<Rightarrow> bcache \<Rightarrow> bcache" where
  "unlink_buf b c =
     (let c = upd_buf (bf_next (bufs c b)) (\<lambda>x. x\<lparr>bf_prev := bf_prev (bufs c b)\<rparr>) c
      in upd_buf (bf_prev (bufs c b)) (\<lambda>x. x\<lparr>bf_next := bf_next (bufs c b)\<rparr>) c)"

primrec binit_loop :: "nat list \<Rightarrow> bcache \<Rightarrow> bcache" where
  "binit_loop [] c = c"
| "binit_loop (b # bs) c = binit_loop bs (link_front b (upd_buf b (\<lambda>x. x\<lparr>bf_lock := initsleeplock\<rparr>) c))"

definition binit :: "bcache \<Rightarrow> bcache" where
  "binit c = binit_loop [0..<NBUF] (upd_buf NBUF (\<lambda>x. x\<lparr>bf_prev := NBUF, bf_next := NBUF\<rparr>) c)"

text \<open>
  The two loops of \<^verbatim>\<open>bget\<close> follow \<^verbatim>\<open>next\<close> or \<^verbatim>\<open>prev\<close> until they are back at the head. The number bounds the
  iterations; \<open>NBUF + 1\<close> are always enough.
\<close>

primrec scan :: "nat \<Rightarrow> (buf \<Rightarrow> nat) \<Rightarrow> (buf \<Rightarrow> bool) \<Rightarrow> nat \<Rightarrow> bcache \<Rightarrow> nat option res" where
  "scan 0 step P b c = Fault ''endless list''"
| "scan (Suc k) step P b c =
     (if b = NBUF then Ok None
      else if P (bufs c b) then Ok (Some b)
      else scan k step P (step (bufs c b)) c)"

text \<open>\<^verbatim>\<open>bget\<close> up to the release of \<^verbatim>\<open>bcache.lock\<close>.\<close>

definition bget_find :: "u32 \<Rightarrow> u32 \<Rightarrow> bcache \<Rightarrow> (nat \<times> bcache) res" where
  "bget_find dv n c =
     rbind (scan (Suc NBUF) bf_next (\<lambda>x. bf_dev x = dv \<and> bf_blockno x = n) (bf_next (bufs c NBUF)) c) (\<lambda>hit.
       case hit of
         Some b \<Rightarrow> Ok (b, upd_buf b (\<lambda>x. x\<lparr>bf_refcnt := bf_refcnt x + 1\<rparr>) c)
       | None \<Rightarrow>
           rbind (scan (Suc NBUF) bf_prev (\<lambda>x. bf_refcnt x = 0) (bf_prev (bufs c NBUF)) c) (\<lambda>unused.
             case unused of
               Some b \<Rightarrow> Ok (b, upd_buf b (\<lambda>x. x\<lparr>bf_dev := dv, bf_blockno := n, bf_valid := False, bf_refcnt := 1\<rparr>) c)
             | None \<Rightarrow> Panic ''bget: no buffers''))"

text \<open>The \<^verbatim>\<open>acquiresleep\<close> at the end of \<^verbatim>\<open>bget\<close>: \<open>None\<close> means that the process sleeps on the buffer.\<close>

definition bget_lock :: "int \<Rightarrow> nat \<Rightarrow> bcache \<Rightarrow> bcache option" where
  "bget_lock pid b c =
     map_option (\<lambda>lk. upd_buf b (\<lambda>x. x\<lparr>bf_lock := lk\<rparr>) c) (acquiresleep pid (bf_lock (bufs c b)))"

definition bget :: "int \<Rightarrow> u32 \<Rightarrow> u32 \<Rightarrow> bcache \<Rightarrow> (nat \<times> bcache) res" where
  "bget pid dv n c =
     rbind (bget_find dv n c) (\<lambda>(b, c).
       case bget_lock pid b c of None \<Rightarrow> Blocked ''buffer'' | Some c \<Rightarrow> Ok (b, c))"

definition bread_fill :: "nat \<Rightarrow> bcache \<Rightarrow> bcache" where
  "bread_fill b c =
     (if bf_valid (bufs c b) then c
      else upd_buf b (\<lambda>x. x\<lparr>bf_data := dsk c (bf_blockno x), bf_valid := True\<rparr>) c)"

definition bread :: "int \<Rightarrow> u32 \<Rightarrow> u32 \<Rightarrow> bcache \<Rightarrow> (nat \<times> bcache) res" where
  "bread pid dv n c = rbind (bget pid dv n c) (\<lambda>(b, c). Ok (b, bread_fill b c))"

text \<open>A store by the holder of a buffer into its data.\<close>

definition bstore :: "nat \<Rightarrow> bytes \<Rightarrow> bcache \<Rightarrow> bcache" where
  "bstore b v c = upd_buf b (\<lambda>x. x\<lparr>bf_data := v\<rparr>) c"

definition bwrite :: "int \<Rightarrow> nat \<Rightarrow> bcache \<Rightarrow> bcache res" where
  "bwrite pid b c =
     (if \<not> holdingsleep pid (bf_lock (bufs c b)) then Panic ''bwrite''
      else let n = bf_blockno (bufs c b); v = bf_data (bufs c b)
        in Ok (c\<lparr>dsk := (dsk c)(n := v), dwrites := dwrites c @ [(n, v)]\<rparr>))"

definition brelse_unlock :: "int \<Rightarrow> nat \<Rightarrow> bcache \<Rightarrow> bcache res" where
  "brelse_unlock pid b c =
     (if \<not> holdingsleep pid (bf_lock (bufs c b)) then Panic ''brelse''
      else Ok (upd_buf b (\<lambda>x. x\<lparr>bf_lock := releasesleep_fields (bf_lock x)\<rparr>) c))"

definition brelse_unref :: "nat \<Rightarrow> bcache \<Rightarrow> bcache" where
  "brelse_unref b c =
     (let c = upd_buf b (\<lambda>x. x\<lparr>bf_refcnt := bf_refcnt x - 1\<rparr>) c
      in if bf_refcnt (bufs c b) = 0 then link_front b (unlink_buf b c) else c)"

definition brelse :: "int \<Rightarrow> nat \<Rightarrow> bcache \<Rightarrow> bcache res" where
  "brelse pid b c = rbind (brelse_unlock pid b c) (\<lambda>c. Ok (brelse_unref b c))"

definition bpin :: "nat \<Rightarrow> bcache \<Rightarrow> bcache" where
  "bpin b c = upd_buf b (\<lambda>x. x\<lparr>bf_refcnt := bf_refcnt x + 1\<rparr>) c"

definition bunpin :: "nat \<Rightarrow> bcache \<Rightarrow> bcache" where
  "bunpin b c = upd_buf b (\<lambda>x. x\<lparr>bf_refcnt := bf_refcnt x - 1\<rparr>) c"

section \<open>Processes using the cache\<close>

text \<open>
  A reference to a buffer, from the search in \<^verbatim>\<open>bget\<close> to the end of \<^verbatim>\<open>brelse\<close>, with where its process is. A process
  may have several.
\<close>

datatype stage = Waiting | Locked | Ready | Releasing

record bref =
  r_pid :: int
  r_buf :: nat
  r_block :: u32
  r_stage :: stage

record bsys =
  cache :: bcache
  brefs :: "bref multiset"
  pinned :: "nat \<Rightarrow> nat"

definition nrefs :: "nat \<Rightarrow> bref multiset \<Rightarrow> nat" where
  "nrefs b R = size (filter_mset (\<lambda>r. r_buf r = b) R)"

definition owning :: "bref \<Rightarrow> bool" where
  "owning r \<longleftrightarrow> r_stage r = Locked \<or> r_stage r = Ready"

text \<open>
  What a step means for the block layer. \<open>Evict\<close> is the reuse of a buffer for another block: what was stored into
  it and not written is lost.
\<close>

datatype block_op = Internal | Modify u32 bytes | Write_disk u32 | Pin u32 | Unpin u32 | Evict u32

primrec block_step :: "block_op \<Rightarrow> bdev \<Rightarrow> bdev" where
  "block_step Internal d = d"
| "block_step (Modify n v) d = bmodify n v d"
| "block_step (Write_disk n) d = bwrite_block n d"
| "block_step (Pin n) d = bpin_block n d"
| "block_step (Unpin n) d = bunpin_block n d"
| "block_step (Evict n) d = d\<lparr>bview := (bview d)(n := bdisk d n)\<rparr>"

definition displaced :: "u32 \<Rightarrow> u32 \<Rightarrow> nat \<Rightarrow> bcache \<Rightarrow> block_op" where
  "displaced dv n b c =
     (if bf_dev (bufs c b) = dv \<and> bf_blockno (bufs c b) = n \<or> \<not> bf_valid (bufs c b) then Internal else Evict (bf_blockno (bufs c b)))"

text \<open>
  The rules of use that the callers follow: only the holder of a buffer stores into it, writes it, pins it and releases
  it. Whether it was written or pinned after a store is not among the rules. There are fewer than \<open>2 ^ 32\<close> references to
  a buffer at a time.
\<close>

inductive bio_step :: "u32 \<Rightarrow> bsys \<Rightarrow> block_op \<Rightarrow> bsys \<Rightarrow> bool" for dv where
  finds: "\<lbrakk>pid > 0; bget_find dv n (cache s) = Ok (b, c); nrefs b (brefs s) + pinned s b < 2 ^ 32 - 1\<rbrakk> \<Longrightarrow>
     bio_step dv s (displaced dv n b (cache s))
       (s\<lparr>cache := c, brefs := add_mset \<lparr>r_pid = pid, r_buf = b, r_block = n, r_stage = Waiting\<rparr> (brefs s)\<rparr>)"
| locks: "\<lbrakk>brefs s = add_mset r R; r_stage r = Waiting; bget_lock (r_pid r) (r_buf r) (cache s) = Some c\<rbrakk> \<Longrightarrow>
     bio_step dv s Internal (s\<lparr>cache := c, brefs := add_mset (r\<lparr>r_stage := Locked\<rparr>) R\<rparr>)"
| fills: "\<lbrakk>brefs s = add_mset r R; r_stage r = Locked\<rbrakk> \<Longrightarrow>
     bio_step dv s Internal (s\<lparr>cache := bread_fill (r_buf r) (cache s), brefs := add_mset (r\<lparr>r_stage := Ready\<rparr>) R\<rparr>)"
| stores: "\<lbrakk>r \<in># brefs s; r_stage r = Ready\<rbrakk> \<Longrightarrow>
     bio_step dv s (Modify (r_block r) v) (s\<lparr>cache := bstore (r_buf r) v (cache s)\<rparr>)"
| writes: "\<lbrakk>r \<in># brefs s; r_stage r = Ready; bwrite (r_pid r) (r_buf r) (cache s) = Ok c\<rbrakk> \<Longrightarrow>
     bio_step dv s (Write_disk (r_block r)) (s\<lparr>cache := c\<rparr>)"
| pins: "\<lbrakk>r \<in># brefs s; r_stage r = Ready; nrefs (r_buf r) (brefs s) + pinned s (r_buf r) < 2 ^ 32 - 1\<rbrakk> \<Longrightarrow>
     bio_step dv s (Pin (r_block r)) (s\<lparr>cache := bpin (r_buf r) (cache s), pinned := (pinned s)(r_buf r := pinned s (r_buf r) + 1)\<rparr>)"
| unpins: "\<lbrakk>r \<in># brefs s; r_stage r = Ready; 0 < pinned s (r_buf r)\<rbrakk> \<Longrightarrow>
     bio_step dv s (Unpin (r_block r)) (s\<lparr>cache := bunpin (r_buf r) (cache s), pinned := (pinned s)(r_buf r := pinned s (r_buf r) - 1)\<rparr>)"
| unlocks: "\<lbrakk>brefs s = add_mset r R; r_stage r = Ready;
      brelse_unlock (r_pid r) (r_buf r) (cache s) = Ok c\<rbrakk> \<Longrightarrow>
     bio_step dv s Internal (s\<lparr>cache := c, brefs := add_mset (r\<lparr>r_stage := Releasing\<rparr>) R\<rparr>)"
| drops: "\<lbrakk>brefs s = add_mset r R; r_stage r = Releasing\<rbrakk> \<Longrightarrow>
     bio_step dv s Internal (s\<lparr>cache := brelse_unref (r_buf r) (cache s), brefs := R\<rparr>)"

inductive bio_run :: "u32 \<Rightarrow> bsys \<Rightarrow> block_op list \<Rightarrow> bsys \<Rightarrow> bool" for dv where
  stop: "bio_run dv s [] s"
| step: "\<lbrakk>bio_run dv s ls s1; bio_step dv s1 l s2\<rbrakk> \<Longrightarrow> bio_run dv s (ls @ [l]) s2"

section \<open>What the cache promises\<close>

text \<open>The list from node \<open>a\<close> to node \<open>z\<close>, linked in both directions.\<close>

primrec chain :: "(nat \<Rightarrow> nat) \<Rightarrow> (nat \<Rightarrow> nat) \<Rightarrow> nat \<Rightarrow> nat list \<Rightarrow> nat \<Rightarrow> bool" where
  "chain nx pv a [] z \<longleftrightarrow> nx a = z \<and> pv z = a"
| "chain nx pv a (x # xs) z \<longleftrightarrow> nx a = x \<and> pv x = a \<and> chain nx pv x xs z"

definition lru :: "bcache \<Rightarrow> nat list \<Rightarrow> bool" where
  "lru c xs \<longleftrightarrow> distinct xs \<and> NBUF \<notin> set xs \<and> chain (\<lambda>b. bf_next (bufs c b)) (\<lambda>b. bf_prev (bufs c b)) NBUF xs NBUF"

definition caches :: "u32 \<Rightarrow> u32 \<Rightarrow> bcache \<Rightarrow> nat \<Rightarrow> bool" where
  "caches dv n c b \<longleftrightarrow> bf_dev (bufs c b) = dv \<and> bf_blockno (bufs c b) = n"

definition bufs_ok :: "u32 \<Rightarrow> bcache \<Rightarrow> bool" where
  "bufs_ok dv c \<longleftrightarrow> (\<exists>xs. lru c xs \<and> set xs = {..<NBUF}) \<and>
     (\<forall>n. \<forall>i < NBUF. \<forall>j < NBUF. caches dv n c i \<and> caches dv n c j \<longrightarrow> i = j) \<and>
     (\<forall>b < NBUF. bf_valid (bufs c b) \<longrightarrow> bf_dev (bufs c b) = dv)"

definition refs_ok :: "u32 \<Rightarrow> bsys \<Rightarrow> bool" where
  "refs_ok dv s \<longleftrightarrow>
     (\<forall>b < NBUF. nrefs b (brefs s) + pinned s b < 2 ^ 32 \<and>
        bf_refcnt (bufs (cache s) b) = of_nat (nrefs b (brefs s) + pinned s b)) \<and>
     (\<forall>r \<in># brefs s. r_pid r > 0 \<and> r_buf r < NBUF \<and> caches dv (r_block r) (cache s) (r_buf r) \<and>
        (r_stage r = Ready \<longrightarrow> bf_valid (bufs (cache s) (r_buf r))))"

definition locks_ok :: "bsys \<Rightarrow> bool" where
  "locks_ok s \<longleftrightarrow>
     (\<forall>b < NBUF. nrefs b (filter_mset owning (brefs s)) = (if slocked (bf_lock (bufs (cache s) b)) = 0 then 0 else 1)) \<and>
     (\<forall>r \<in># brefs s. owning r \<longrightarrow> lock_pid (bf_lock (bufs (cache s) (r_buf r))) = r_pid r)"

definition bio_inv :: "u32 \<Rightarrow> bsys \<Rightarrow> bool" where
  "bio_inv dv s \<longleftrightarrow> bufs_ok dv (cache s) \<and> refs_ok dv s \<and> locks_ok s"

text \<open>The block layer that a cache stands for.\<close>

definition cached :: "u32 \<Rightarrow> bcache \<Rightarrow> u32 \<Rightarrow> nat option" where
  "cached dv c n = find (caches dv n c) [0..<NBUF]"

definition view :: "u32 \<Rightarrow> bcache \<Rightarrow> u32 \<Rightarrow> bytes" where
  "view dv c n = (case cached dv c n of None \<Rightarrow> dsk c n
     | Some b \<Rightarrow> if bf_valid (bufs c b) then bf_data (bufs c b) else dsk c n)"

definition block_layer :: "u32 \<Rightarrow> bsys \<Rightarrow> bdev" where
  "block_layer dv s = \<lparr>bview = view dv (cache s), bdisk = dsk (cache s),
     bpins = (\<lambda>n. case cached dv (cache s) n of None \<Rightarrow> 0 | Some b \<Rightarrow> int (pinned s b)),
     bwrites = dwrites (cache s)\<rparr>"

section \<open>Lemmas\<close>

subsection \<open>The list of buffers\<close>

lemma bufs_upd_buf [simp]:
  "bufs (upd_buf b f c) = (bufs c)(b := f (bufs c b))" "dsk (upd_buf b f c) = dsk c" "dwrites (upd_buf b f c) = dwrites c"
  by (simp_all add: upd_buf_def)

lemma chain_append: "chain nx pv a (xs @ y # ys) z \<longleftrightarrow> chain nx pv a xs y \<and> chain nx pv y ys z"
  by (induction xs arbitrary: a) auto

lemma chain_cong:
  "\<lbrakk>\<And>x. x \<in> set (a # xs) \<Longrightarrow> nx x = nx' x; \<And>x. x \<in> set xs \<union> {z} \<Longrightarrow> pv x = pv' x\<rbrakk> \<Longrightarrow>
   chain nx pv a xs z = chain nx' pv' a xs z"
  by (induction xs arbitrary: a) auto

lemma chain_ends:
  assumes "chain nx pv a xs z"
  shows "nx a \<in> set xs \<union> {z}" "pv z \<in> set xs \<union> {a}"
  using assms by (induction xs arbitrary: a) auto

lemma chain_unlink:
  assumes "chain nx pv a xs b" "chain nx pv b ys z" "distinct (xs @ b # ys)"
    and "a \<notin> set (xs @ b # ys)" "z \<notin> set (xs @ b # ys)"
  shows "chain (nx(pv b := nx b)) (pv(nx b := pv b)) a (xs @ ys) z"
  using assms
proof (induction xs arbitrary: a)
  case Nil
  then show ?case
  proof (cases ys)
    case (Cons y zs)
    have "chain (nx(a := y)) (pv(y := a)) y zs z = chain nx pv y zs z"
      using Nil.prems Cons by (intro chain_cong) auto
    moreover have "pv b = a" "nx b = y" "chain nx pv y zs z" using Nil.prems Cons by auto
    ultimately show ?thesis using Cons by (simp del: fun_upd_apply add: fun_upd_same)
  qed auto
next
  case (Cons x xs)
  have "pv b \<noteq> a" using chain_ends(2) [of nx pv x xs b] Cons.prems by auto
  moreover have "nx b \<noteq> x" using chain_ends(1) [of nx pv b ys z] Cons.prems by auto
  moreover have "chain (nx(pv b := nx b)) (pv(nx b := pv b)) x (xs @ ys) z"
    using Cons.prems by (intro Cons.IH) auto
  moreover have "nx a = x" "pv x = a" using Cons.prems by auto
  ultimately show ?case by (simp del: fun_upd_apply add: fun_upd_other)
qed

lemma chain_push:
  assumes "chain nx pv h xs h" "b \<notin> set xs" "b \<noteq> h" "h \<notin> set xs" "distinct xs"
  shows "chain (nx(b := nx h, h := b)) (pv(b := h, nx h := b)) h (b # xs) h"
proof (cases xs)
  case Nil
  then show ?thesis using assms by auto
next
  case (Cons x zs)
  have "chain (nx(b := x, h := b)) (pv(b := h, x := b)) x zs h = chain nx pv x zs h"
    using assms Cons by (intro chain_cong) auto
  moreover have "nx h = x" "chain nx pv x zs h" using assms Cons by auto
  moreover have "x \<noteq> b" "x \<noteq> h" using assms Cons by auto
  ultimately show ?thesis using assms(3) Cons by (simp del: fun_upd_apply add: fun_upd_same fun_upd_other)
qed

text \<open>Lists as the operations see them: what happens to the order of use.\<close>

lemma lru_cong:
  "\<lbrakk>lru c xs; \<And>b. bf_next (bufs c' b) = bf_next (bufs c b); \<And>b. bf_prev (bufs c' b) = bf_prev (bufs c b)\<rbrakk> \<Longrightarrow> lru c' xs"
  by (simp add: lru_def)

lemma link_front_links:
  assumes "b \<noteq> NBUF" "bf_next (bufs c NBUF) \<noteq> b"
  shows "(\<lambda>x. bf_next (bufs (link_front b c) x)) = (\<lambda>x. bf_next (bufs c x))(b := bf_next (bufs c NBUF), NBUF := b)"
    "(\<lambda>x. bf_prev (bufs (link_front b c) x)) = (\<lambda>x. bf_prev (bufs c x))(b := NBUF, bf_next (bufs c NBUF) := b)"
  using assms by (auto simp: link_front_def Let_def fun_eq_iff)

lemma link_front_lru:
  assumes "lru c xs" "b \<notin> set xs" "b \<noteq> NBUF"
  shows "lru (link_front b c) (b # xs)"
proof -
  have h: "chain (\<lambda>x. bf_next (bufs c x)) (\<lambda>x. bf_prev (bufs c x)) NBUF xs NBUF" "distinct xs" "NBUF \<notin> set xs"
    using assms(1) by (simp_all add: lru_def)
  have "bf_next (bufs c NBUF) \<noteq> b" using chain_ends(1) [OF h(1)] assms(2,3) by auto
  from link_front_links [OF assms(3) this] chain_push [OF h(1) assms(2,3) h(3,2)]
  show ?thesis using assms(2,3) h(2,3) by (simp add: lru_def del: fun_upd_apply chain.simps)
qed

lemma unlink_buf_lru:
  assumes "lru c (xs @ b # ys)"
  shows "lru (unlink_buf b c) (xs @ ys)"
proof -
  let ?nx = "\<lambda>x. bf_next (bufs c x)" and ?pv = "\<lambda>x. bf_prev (bufs c x)"
  have h: "chain ?nx ?pv NBUF xs b" "chain ?nx ?pv b ys NBUF" "distinct (xs @ b # ys)" "NBUF \<notin> set (xs @ b # ys)"
    using assms by (simp_all add: lru_def chain_append)
  have "?nx b \<noteq> b" using chain_ends(1) [OF h(2)] h(3,4) by auto
  then have "(\<lambda>x. bf_next (bufs (unlink_buf b c) x)) = ?nx(?pv b := ?nx b)"
    "(\<lambda>x. bf_prev (bufs (unlink_buf b c) x)) = ?pv(?nx b := ?pv b)"
    by (auto simp: unlink_buf_def Let_def fun_eq_iff)
  then show ?thesis using chain_unlink [OF h(1,2,3) h(4,4)] h(3,4) by (simp add: lru_def del: fun_upd_apply)
qed

lemma links_keep:
  "bf_dev (bufs (link_front b c) x) = bf_dev (bufs c x)" "bf_blockno (bufs (link_front b c) x) = bf_blockno (bufs c x)"
  "bf_valid (bufs (link_front b c) x) = bf_valid (bufs c x)" "bf_lock (bufs (link_front b c) x) = bf_lock (bufs c x)"
  "bf_refcnt (bufs (link_front b c) x) = bf_refcnt (bufs c x)" "bf_data (bufs (link_front b c) x) = bf_data (bufs c x)"
  "dsk (link_front b c) = dsk c" "dwrites (link_front b c) = dwrites c"
  "bf_dev (bufs (unlink_buf b c) x) = bf_dev (bufs c x)" "bf_blockno (bufs (unlink_buf b c) x) = bf_blockno (bufs c x)"
  "bf_valid (bufs (unlink_buf b c) x) = bf_valid (bufs c x)" "bf_lock (bufs (unlink_buf b c) x) = bf_lock (bufs c x)"
  "bf_refcnt (bufs (unlink_buf b c) x) = bf_refcnt (bufs c x)" "bf_data (bufs (unlink_buf b c) x) = bf_data (bufs c x)"
  "dsk (unlink_buf b c) = dsk c" "dwrites (unlink_buf b c) = dwrites c"
  by (simp_all add: link_front_def unlink_buf_def Let_def)

lemma scan_chain:
  assumes "chain (\<lambda>x. step (bufs c x)) pv a xs NBUF" "NBUF \<notin> set xs" "length xs < k"
  shows "scan k step P (step (bufs c a)) c = Ok (find (\<lambda>b. P (bufs c b)) xs)"
  using assms
proof (induction xs arbitrary: a k)
  case Nil
  then show ?case by (cases k) auto
next
  case (Cons x xs)
  then obtain k' where "k = Suc k'" by (cases k) auto
  then show ?case using Cons.prems Cons.IH [of x k'] by auto
qed

lemma chain_rev: "chain nx pv a xs z \<Longrightarrow> chain pv nx z (rev xs) a"
  by (induction xs arbitrary: a) (auto simp: chain_append)

lemma scan_lru:
  assumes "lru c xs" "set xs = {..<NBUF}"
  shows "scan (Suc NBUF) bf_next P (bf_next (bufs c NBUF)) c = Ok (find (\<lambda>b. P (bufs c b)) xs)"
    "scan (Suc NBUF) bf_prev P (bf_prev (bufs c NBUF)) c = Ok (find (\<lambda>b. P (bufs c b)) (rev xs))"
proof -
  have "length xs = NBUF" using assms distinct_card [of xs] by (simp add: lru_def)
  moreover have c: "chain (\<lambda>b. bf_next (bufs c b)) (\<lambda>b. bf_prev (bufs c b)) NBUF xs NBUF" "NBUF \<notin> set xs"
    using assms(1) by (simp_all add: lru_def)
  ultimately show "scan (Suc NBUF) bf_next P (bf_next (bufs c NBUF)) c = Ok (find (\<lambda>b. P (bufs c b)) xs)"
    "scan (Suc NBUF) bf_prev P (bf_prev (bufs c NBUF)) c = Ok (find (\<lambda>b. P (bufs c b)) (rev xs))"
    using scan_chain [OF c] scan_chain [OF chain_rev [OF c(1)]] by (simp_all del: scan.simps)
qed

subsection \<open>The search in \<^verbatim>\<open>bget\<close>\<close>

definition take_ref :: "nat \<Rightarrow> bcache \<Rightarrow> bcache" where
  "take_ref b c = upd_buf b (\<lambda>x. x\<lparr>bf_refcnt := bf_refcnt x + 1\<rparr>) c"

definition recycle :: "u32 \<Rightarrow> u32 \<Rightarrow> nat \<Rightarrow> bcache \<Rightarrow> bcache" where
  "recycle dv n b c = upd_buf b (\<lambda>x. x\<lparr>bf_dev := dv, bf_blockno := n, bf_valid := False, bf_refcnt := 1\<rparr>) c"

text \<open>The buffer that holds the block, or else the least recently released one without references.\<close>

lemma bget_find_eq:
  assumes "lru c xs" "set xs = {..<NBUF}"
  shows "bget_find dv n c =
     (case find (caches dv n c) xs of Some b \<Rightarrow> Ok (b, take_ref b c)
      | None \<Rightarrow> (case find (\<lambda>b. bf_refcnt (bufs c b) = 0) (rev xs) of Some b \<Rightarrow> Ok (b, recycle dv n b c)
         | None \<Rightarrow> Panic ''bget: no buffers''))"
proof -
  have "(\<lambda>b. bf_dev (bufs c b) = dv \<and> bf_blockno (bufs c b) = n) = caches dv n c" by (simp add: caches_def fun_eq_iff)
  then show ?thesis
    by (simp add: bget_find_def scan_lru [OF assms] take_ref_def recycle_def del: scan.simps cong: option.case_cong)
qed

lemma find_SomeD: "find P xs = Some x \<Longrightarrow> x \<in> set xs \<and> P x"
  by (induction xs) (auto split: if_splits)

lemma bget_find_cases:
  assumes "bget_find dv n c = Ok (b, c')" "bufs_ok dv c"
  obtains (hit) "b < NBUF" "caches dv n c b" "c' = take_ref b c"
  | (miss) "b < NBUF" "\<And>x. x < NBUF \<Longrightarrow> \<not> caches dv n c x" "bf_refcnt (bufs c b) = 0" "c' = recycle dv n b c"
proof -
  obtain xs where xs: "lru c xs" "set xs = {..<NBUF}" using assms(2) by (auto simp: bufs_ok_def)
  show thesis
  proof (cases "find (caches dv n c) xs")
    case (Some x)
    then show thesis using find_SomeD [OF Some] xs assms(1) bget_find_eq [OF xs, of dv n] hit by auto
  next
    case None
    then have no: "\<And>x. x < NBUF \<Longrightarrow> \<not> caches dv n c x" using xs(2) by (auto simp: find_None_iff)
    from None obtain y where y: "find (\<lambda>b. bf_refcnt (bufs c b) = 0) (rev xs) = Some y"
      using assms(1) bget_find_eq [OF xs, of dv n] by (auto split: option.split_asm)
    then show thesis using find_SomeD [OF y] xs None assms(1) bget_find_eq [OF xs, of dv n] no miss by auto
  qed
qed

lemma bget_find_returns:
  assumes "bufs_ok dv c" "b < NBUF" "caches dv n c b \<or> bf_refcnt (bufs c b) = 0"
  shows "\<exists>r. bget_find dv n c = Ok r"
proof -
  obtain xs where xs: "lru c xs" "set xs = {..<NBUF}" using assms(1) by (auto simp: bufs_ok_def)
  then show ?thesis using bget_find_eq [OF xs, of dv n] assms(2,3)
    by (auto split: option.splits simp: find_None_iff)
qed

subsection \<open>References\<close>

lemma nrefs_simps [simp]: "nrefs b {#} = 0" "nrefs b (add_mset r R) = nrefs b R + (if r_buf r = b then 1 else 0)"
  by (simp_all add: nrefs_def)

lemma nrefs_zero: "nrefs b R = 0 \<longleftrightarrow> (\<forall>r \<in># R. r_buf r \<noteq> b)"
  by (induction R) auto

lemma owning_stage [simp]: "owning (r\<lparr>r_stage := st\<rparr>) \<longleftrightarrow> st = Locked \<or> st = Ready"
  "owning \<lparr>r_pid = p, r_buf = b, r_block = n, r_stage = st\<rparr> \<longleftrightarrow> st = Locked \<or> st = Ready"
  by (simp_all add: owning_def)

lemma nrefs_owning_pos: "\<lbrakk>r \<in># R; owning r\<rbrakk> \<Longrightarrow> 0 < nrefs (r_buf r) (filter_mset owning R)"
  using nrefs_zero [of "r_buf r" "filter_mset owning R"] by auto

lemma two_owning:
  assumes "r \<in># R" "r' \<in># R - {#r#}" "owning r" "owning r'" "r_buf r = r_buf r'"
  shows "2 \<le> nrefs (r_buf r) (filter_mset owning R)"
proof -
  from assms(1,2) obtain R' where "R = add_mset r (add_mset r' R')" by (metis insert_DiffM)
  then show ?thesis using assms(3-5) by simp
qed

text \<open>A count of zero means that there are neither references nor pins.\<close>

lemma refcnt_zero:
  assumes "refs_ok dv s" "b < NBUF" "bf_refcnt (bufs (cache s) b) = 0"
  shows "nrefs b (brefs s) = 0" "pinned s b = 0" "\<And>r. r \<in># brefs s \<Longrightarrow> r_buf r \<noteq> b"
proof -
  define k where "k = nrefs b (brefs s) + pinned s b"
  have k: "(of_nat k :: u32) = 0" "k < 2 ^ 32" using assms by (auto simp: refs_ok_def k_def)
  have "unat (of_nat k :: u32) = k" using k(2) by (simp add: unat_of_nat)
  then have "nrefs b (brefs s) + pinned s b = 0" using k(1) by (simp add: k_def)
  then show "nrefs b (brefs s) = 0" "pinned s b = 0" by simp_all
  then show "r_buf r \<noteq> b" if "r \<in># brefs s" for r using that by (auto simp: nrefs_zero)
qed

subsection \<open>The block layer of a cache\<close>

lemma cached_cong:
  "(\<And>b. caches dv n c' b = caches dv n c b) \<Longrightarrow> cached dv c' n = cached dv c n"
  by (simp add: cached_def fun_eq_iff cong: find_cong)

lemma cached_Some:
  assumes "bufs_ok dv c"
  shows "cached dv c n = Some b \<longleftrightarrow> b < NBUF \<and> caches dv n c b"
proof
  show "cached dv c n = Some b \<Longrightarrow> b < NBUF \<and> caches dv n c b"
    using find_SomeD [of _ "[0..<NBUF]" b] by (auto simp: cached_def)
  assume b: "b < NBUF \<and> caches dv n c b"
  then obtain x where x: "cached dv c n = Some x" by (cases "cached dv c n") (auto simp: cached_def find_None_iff)
  then have "x < NBUF \<and> caches dv n c x" using find_SomeD [of _ "[0..<NBUF]" x] by (auto simp: cached_def)
  then show "cached dv c n = Some b" using x b assms by (auto simp: bufs_ok_def)
qed

lemma cached_None: "cached dv c n = None \<longleftrightarrow> (\<forall>b < NBUF. \<not> caches dv n c b)"
  by (auto simp: cached_def find_None_iff)

lemma block_layer_eqI:
  assumes "\<And>n. view dv (cache s') n = bview d n" "dsk (cache s') = bdisk d" "dwrites (cache s') = bwrites d"
    and "\<And>n. (case cached dv (cache s') n of None \<Rightarrow> 0 | Some b \<Rightarrow> int (pinned s' b)) = bpins d n"
  shows "block_layer dv s' = d"
  using assms by (auto simp: block_layer_def fun_eq_iff intro!: bdev.equality)

subsection \<open>Steps\<close>

definition same_blocks :: "bcache \<Rightarrow> bcache \<Rightarrow> bool" where
  "same_blocks c c' \<longleftrightarrow> (\<forall>b. bf_dev (bufs c' b) = bf_dev (bufs c b) \<and> bf_blockno (bufs c' b) = bf_blockno (bufs c b))"

lemma same_blocks_caches: "same_blocks c c' \<Longrightarrow> caches dv n c' b = caches dv n c b"
  by (simp add: same_blocks_def caches_def)

lemma same_blocks_cached: "same_blocks c c' \<Longrightarrow> cached dv c' n = cached dv c n"
  by (rule cached_cong) (rule same_blocks_caches)

lemma bufs_ok_same:
  assumes "bufs_ok dv c" "same_blocks c c'" "\<exists>xs. lru c' xs \<and> set xs = {..<NBUF}"
    and "\<And>b. bf_valid (bufs c' b) \<Longrightarrow> bf_valid (bufs c b) \<or> bf_dev (bufs c b) = dv"
  shows "bufs_ok dv c'"
proof -
  have "bf_dev (bufs c' b) = dv" if "b < NBUF" "bf_valid (bufs c' b)" for b
    using assms(1,2) assms(4) [OF that(2)] that(1) by (auto simp: bufs_ok_def same_blocks_def)
  then show ?thesis using assms(1,3) by (auto simp: bufs_ok_def same_blocks_caches [OF assms(2)])
qed

text \<open>An operation on one buffer that leaves the list and the identity of the buffers alone.\<close>

lemma bufs_ok_upd:
  assumes "bufs_ok dv c" "bf_next (f (bufs c b)) = bf_next (bufs c b)" "bf_prev (f (bufs c b)) = bf_prev (bufs c b)"
    and "bf_dev (f (bufs c b)) = bf_dev (bufs c b)" "bf_blockno (f (bufs c b)) = bf_blockno (bufs c b)"
    and "bf_valid (f (bufs c b)) \<Longrightarrow> bf_valid (bufs c b) \<or> bf_dev (bufs c b) = dv"
  shows "bufs_ok dv (upd_buf b f c)" "same_blocks c (upd_buf b f c)"
proof -
  show sb: "same_blocks c (upd_buf b f c)" using assms by (simp add: same_blocks_def)
  obtain xs where "lru c xs" "set xs = {..<NBUF}" using assms(1) by (auto simp: bufs_ok_def)
  then have "lru (upd_buf b f c) xs \<and> set xs = {..<NBUF}" using lru_cong [of c xs "upd_buf b f c"] assms by simp
  with sb assms show "bufs_ok dv (upd_buf b f c)" by (intro bufs_ok_same [OF assms(1)]) (auto split: if_splits)
qed

lemma block_layer_same:
  assumes "same_blocks (cache s) (cache s')" "pinned s' = pinned s" "dsk (cache s') = dsk (cache s)" "dwrites (cache s') = dwrites (cache s)"
    and "\<And>b. bf_valid (bufs (cache s') b) = bf_valid (bufs (cache s) b)" "\<And>b. bf_data (bufs (cache s') b) = bf_data (bufs (cache s) b)"
  shows "block_layer dv s' = block_layer dv s"
  by (rule block_layer_eqI)
    (simp_all add: block_layer_def view_def same_blocks_cached [OF assms(1)] assms(2-6) split: option.split)

lemma take_ref_step:
  assumes "bio_inv dv s" "b < NBUF" "caches dv n (cache s) b" "pid > 0" "nrefs b (brefs s) + pinned s b < 2 ^ 32 - 1"
    and "s' = s\<lparr>cache := take_ref b (cache s), brefs := add_mset \<lparr>r_pid = pid, r_buf = b, r_block = n, r_stage = Waiting\<rparr> (brefs s)\<rparr>"
  shows "bio_inv dv s' \<and> block_layer dv s' = block_layer dv s"
proof -
  have inv: "bufs_ok dv (cache s)" "refs_ok dv s" "locks_ok s" using assms(1) by (simp_all add: bio_inv_def)
  have B: "bufs_ok dv (take_ref b (cache s))" "same_blocks (cache s) (take_ref b (cache s))"
    unfolding take_ref_def using inv(1) by (intro bufs_ok_upd; simp)+
  have "refs_ok dv s'" using inv(2) assms(2-5)
    by (auto simp: refs_ok_def assms(6) same_blocks_caches [OF B(2)]) (auto simp: take_ref_def)
  moreover have "locks_ok s'" using inv(3) by (auto simp: locks_ok_def assms(6) take_ref_def)
  moreover have "block_layer dv s' = block_layer dv s"
    using B(2) by (intro block_layer_same) (auto simp: assms(6) take_ref_def)
  ultimately show ?thesis using B(1) by (simp add: bio_inv_def assms(6))
qed

lemma recycle_sel [simp]:
  "x \<noteq> b \<Longrightarrow> bufs (recycle dv n b c) x = bufs c x" "dsk (recycle dv n b c) = dsk c" "dwrites (recycle dv n b c) = dwrites c"
  "bf_dev (bufs (recycle dv n b c) b) = dv" "bf_blockno (bufs (recycle dv n b c) b) = n"
  "\<not> bf_valid (bufs (recycle dv n b c) b)" "bf_refcnt (bufs (recycle dv n b c) b) = 1"
  "bf_lock (bufs (recycle dv n b c) x) = bf_lock (bufs c x)"
  by (simp_all add: recycle_def)

lemma recycle_caches: "caches dv m (recycle dv n b c) x \<longleftrightarrow> (if x = b then m = n else caches dv m c x)"
  by (auto simp: caches_def)

lemma recycle_bufs_ok:
  assumes "bufs_ok dv c" "b < NBUF" "\<And>x. x < NBUF \<Longrightarrow> \<not> caches dv n c x"
  shows "bufs_ok dv (recycle dv n b c)"
proof -
  let ?c' = "recycle dv n b c"
  obtain xs where xs: "lru c xs" "set xs = {..<NBUF}" using assms(1) by (auto simp: bufs_ok_def)
  then have "lru ?c' xs" by (intro lru_cong [OF xs(1)]) (simp_all add: recycle_def)
  moreover have "bf_dev (bufs ?c' x) = dv" if "x < NBUF" "bf_valid (bufs ?c' x)" for x
    using that assms(1) by (cases "x = b") (auto simp: bufs_ok_def)
  ultimately show ?thesis using xs(2) assms by (auto simp: bufs_ok_def recycle_caches split: if_splits)
qed

lemma recycle_cached:
  assumes "bufs_ok dv c" "b < NBUF" "\<And>x. x < NBUF \<Longrightarrow> \<not> caches dv n c x"
  shows "cached dv (recycle dv n b c) m = (if m = n then Some b else if cached dv c m = Some b then None else cached dv c m)"
proof (cases "m = n")
  case True
  have ok: "bufs_ok dv (recycle dv n b c)" by (rule recycle_bufs_ok [OF assms(1,2)]) (rule assms(3))
  show ?thesis using assms(2) True by (simp add: cached_Some [OF ok] recycle_caches)
next
  case False
  have ok: "bufs_ok dv (recycle dv n b c)" by (rule recycle_bufs_ok [OF assms(1,2)]) (rule assms(3))
  have iff: "cached dv (recycle dv n b c) m = Some x \<longleftrightarrow> x \<noteq> b \<and> cached dv c m = Some x" for x
    unfolding cached_Some [OF assms(1)] cached_Some [OF ok] recycle_caches using False by simp
  show ?thesis using False iff [of b] iff [of "the (cached dv c m)"] iff [of "the (cached dv (recycle dv n b c) m)"]
    by (cases "cached dv (recycle dv n b c) m"; cases "cached dv c m") simp_all
qed

lemma recycle_layer:
  assumes "bio_inv dv s" "b < NBUF" "\<And>x. x < NBUF \<Longrightarrow> \<not> caches dv n (cache s) x" "bf_refcnt (bufs (cache s) b) = 0"
    and s': "cache s' = recycle dv n b (cache s)" "pinned s' = pinned s"
  shows "block_layer dv s' = block_step (displaced dv n b (cache s)) (block_layer dv s)"
proof (rule block_layer_eqI)
  fix m
  have inv: "bufs_ok dv (cache s)" "refs_ok dv s" using assms(1) by (simp_all add: bio_inv_def)
  note free = refcnt_zero [OF inv(2) assms(2,4)] and cached' = recycle_cached [OF inv(1) assms(2,3)]
  have old: "cached dv (cache s) n = None" using assms(3) by (simp add: cached_None)
  have blk: "cached dv (cache s) m = Some b \<longleftrightarrow> bf_dev (bufs (cache s) b) = dv \<and> bf_blockno (bufs (cache s) b) = m" for m
    using cached_Some [OF inv(1), of m b] assms(2) by (simp add: caches_def)
  have dv: "bf_valid (bufs (cache s) b) \<Longrightarrow> bf_dev (bufs (cache s) b) = dv" using inv(1) assms(2) by (simp add: bufs_ok_def)
  have ne: "\<not> (bf_dev (bufs (cache s) b) = dv \<and> bf_blockno (bufs (cache s) b) = n)" using assms(2,3) by (simp add: caches_def)
  show "view dv (cache s') m = bview (block_step (displaced dv n b (cache s)) (block_layer dv s)) m"
    using blk [of m] old dv ne
    by (auto simp: s' view_def block_layer_def cached' displaced_def split: option.split)
  show "(case cached dv (cache s') m of None \<Rightarrow> 0 | Some b \<Rightarrow> int (pinned s' b)) =
      bpins (block_step (displaced dv n b (cache s)) (block_layer dv s)) m"
    using free(2) old by (auto simp: s' block_layer_def cached' displaced_def split: option.split)
qed (simp_all add: s' block_layer_def displaced_def)

lemma recycle_step:
  assumes "bio_inv dv s" "b < NBUF" "\<And>x. x < NBUF \<Longrightarrow> \<not> caches dv n (cache s) x" "bf_refcnt (bufs (cache s) b) = 0" "pid > 0"
    and "s' = s\<lparr>cache := recycle dv n b (cache s), brefs := add_mset \<lparr>r_pid = pid, r_buf = b, r_block = n, r_stage = Waiting\<rparr> (brefs s)\<rparr>"
  shows "bio_inv dv s'"
proof -
  have inv: "bufs_ok dv (cache s)" "refs_ok dv s" "locks_ok s" using assms(1) by (simp_all add: bio_inv_def)
  note free = refcnt_zero [OF inv(2) assms(2,4)]
  have "refs_ok dv s'" unfolding refs_ok_def
  proof (intro conjI allI impI ballI)
    fix x assume x: "x < NBUF"
    show "nrefs x (brefs s') + pinned s' x < 2 ^ 32" "bf_refcnt (bufs (cache s') x) = of_nat (nrefs x (brefs s') + pinned s' x)"
      using x inv(2) free(1,2) by (cases "x = b"; simp add: assms(6) refs_ok_def)+
  next
    fix r assume "r \<in># brefs s'"
    then consider "r = \<lparr>r_pid = pid, r_buf = b, r_block = n, r_stage = Waiting\<rparr>" | "r \<in># brefs s" "r_buf r \<noteq> b"
      using free(3) by (auto simp: assms(6))
    then show "0 < r_pid r" "r_buf r < NBUF" "caches dv (r_block r) (cache s') (r_buf r)"
      "r_stage r = Ready \<Longrightarrow> bf_valid (bufs (cache s') (r_buf r))"
      by (cases; use inv(2) assms(2,5) in \<open>auto simp: assms(6) recycle_caches refs_ok_def\<close>)+
  qed
  moreover have "locks_ok s'" using inv(3) by (simp add: locks_ok_def assms(6))
  ultimately show ?thesis using recycle_bufs_ok [OF inv(1) assms(2,3)] by (simp add: bio_inv_def assms(6))
qed

text \<open>A process moves on with its reference; the counts stay.\<close>

lemma refs_ok_stage:
  assumes "refs_ok dv s" "brefs s = add_mset r R" "brefs s' = add_mset (r\<lparr>r_stage := st\<rparr>) R" "pinned s' = pinned s"
    and "same_blocks (cache s) (cache s')" "\<And>b. bf_refcnt (bufs (cache s') b) = bf_refcnt (bufs (cache s) b)"
    and "\<And>b. bf_valid (bufs (cache s) b) \<Longrightarrow> bf_valid (bufs (cache s') b)"
    and "st = Ready \<Longrightarrow> bf_valid (bufs (cache s') (r_buf r))"
  shows "refs_ok dv s'"
  using assms(1,7,8) unfolding refs_ok_def assms(2-4,6) same_blocks_caches [OF assms(5)] by auto

lemma refs_ok_frame:
  assumes "refs_ok dv s" "brefs s' = brefs s" "pinned s' = pinned s"
    and "same_blocks (cache s) (cache s')" "\<And>b. bf_refcnt (bufs (cache s') b) = bf_refcnt (bufs (cache s) b)"
    and "\<And>b. bf_valid (bufs (cache s') b) = bf_valid (bufs (cache s) b)"
  shows "refs_ok dv s'"
  using assms(1) unfolding refs_ok_def assms(2,3,5,6) same_blocks_caches [OF assms(4)] .

lemma locks_ok_frame:
  assumes "locks_ok s" "brefs s' = brefs s" "\<And>b. bf_lock (bufs (cache s') b) = bf_lock (bufs (cache s) b)"
  shows "locks_ok s'"
  using assms(1) unfolding locks_ok_def assms(2,3) .

lemma owner_holds:
  assumes "refs_ok dv s" "locks_ok s" "r \<in># brefs s" "owning r"
  shows "holdingsleep (r_pid r) (bf_lock (bufs (cache s) (r_buf r)))"
proof -
  have "r_buf r < NBUF" using assms(1,3) by (simp add: refs_ok_def)
  then have "slocked (bf_lock (bufs (cache s) (r_buf r))) \<noteq> 0"
    using assms(2) nrefs_owning_pos [OF assms(3,4)] by (auto simp: locks_ok_def split: if_splits)
  then show ?thesis using assms(2-4) by (simp add: holdingsleep_def locks_ok_def)
qed

text \<open>The holder of a buffer is its only one.\<close>

lemma sole_owner:
  assumes "refs_ok dv s" "locks_ok s" "brefs s = add_mset r R" "owning r" "r' \<in># R" "owning r'"
  shows "r_buf r' \<noteq> r_buf r"
proof
  assume eq: "r_buf r' = r_buf r"
  have "r_buf r < NBUF" using assms(1,3) by (simp add: refs_ok_def)
  then have "nrefs (r_buf r) (filter_mset owning (brefs s)) \<le> 1" using assms(2) by (auto simp: locks_ok_def)
  moreover have "2 \<le> nrefs (r_buf r) (filter_mset owning (brefs s))"
    by (rule two_owning [of r _ r']) (use assms eq in simp_all)
  ultimately show False by simp
qed

lemma lock_step:
  assumes "bio_inv dv s" "brefs s = add_mset r R" "r_stage r = Waiting" "bget_lock (r_pid r) (r_buf r) (cache s) = Some c"
    and "s' = s\<lparr>cache := c, brefs := add_mset (r\<lparr>r_stage := Locked\<rparr>) R\<rparr>"
  shows "bio_inv dv s' \<and> block_layer dv s' = block_layer dv s"
proof -
  let ?f = "\<lambda>x. x\<lparr>bf_lock := (bf_lock x)\<lparr>slocked := 1, lock_pid := r_pid r\<rparr>\<rparr>"
  have inv: "bufs_ok dv (cache s)" "refs_ok dv s" "locks_ok s" using assms(1) by (simp_all add: bio_inv_def)
  have c: "c = upd_buf (r_buf r) ?f (cache s)" and free: "slocked (bf_lock (bufs (cache s) (r_buf r))) = 0"
    using assms(4) by (auto simp: bget_lock_def acquiresleep_def upd_buf_def split: if_splits)
  have B: "bufs_ok dv c" "same_blocks (cache s) c" unfolding c using inv(1) by (intro bufs_ok_upd; simp)+
  have "refs_ok dv s'" by (rule refs_ok_stage [OF inv(2) assms(2)]) (use B(2) in \<open>auto simp: assms(5) c\<close>)
  moreover have "locks_ok s'"
  proof -
    have none: "nrefs (r_buf r) (filter_mset owning R) = 0"
      using inv(2,3) free assms(2,3) by (auto simp: locks_ok_def refs_ok_def owning_def)
    then have "r_buf x \<noteq> r_buf r" if "x \<in># R" "owning x" for x using that by (auto simp: nrefs_zero)
    then show ?thesis using inv(3) none assms(2,3)
      by (auto simp: locks_ok_def assms(5) c owning_def)
  qed
  moreover have "block_layer dv s' = block_layer dv s"
    using B(2) by (intro block_layer_same) (auto simp: assms(5) c)
  ultimately show ?thesis using B(1) by (simp add: bio_inv_def assms(5))
qed

lemma fill_step:
  assumes "bio_inv dv s" "brefs s = add_mset r R" "r_stage r = Locked"
    and "s' = s\<lparr>cache := bread_fill (r_buf r) (cache s), brefs := add_mset (r\<lparr>r_stage := Ready\<rparr>) R\<rparr>"
  shows "bio_inv dv s' \<and> block_layer dv s' = block_layer dv s"
proof -
  let ?b = "r_buf r" and ?c = "bread_fill (r_buf r) (cache s)"
  have inv: "bufs_ok dv (cache s)" "refs_ok dv s" "locks_ok s" using assms(1) by (simp_all add: bio_inv_def)
  have r: "?b < NBUF" "bf_dev (bufs (cache s) ?b) = dv" using inv(2) assms(2) by (simp_all add: refs_ok_def caches_def)
  have sel: "dsk ?c = dsk (cache s)" "dwrites ?c = dwrites (cache s)" "bf_valid (bufs ?c ?b)"
    "x \<noteq> ?b \<Longrightarrow> bufs ?c x = bufs (cache s) x" "bf_refcnt (bufs ?c x) = bf_refcnt (bufs (cache s) x)"
    "bf_lock (bufs ?c x) = bf_lock (bufs (cache s) x)" "bf_blockno (bufs ?c x) = bf_blockno (bufs (cache s) x)"
    "bf_data (bufs ?c ?b) = (if bf_valid (bufs (cache s) ?b) then bf_data (bufs (cache s) ?b) else dsk (cache s) (bf_blockno (bufs (cache s) ?b)))" for x
    by (auto simp: bread_fill_def)
  have B: "bufs_ok dv ?c" "same_blocks (cache s) ?c"
    unfolding bread_fill_def using inv(1) bufs_ok_upd [OF inv(1)] r(2) by (auto simp: same_blocks_def)
  have "refs_ok dv s'"
    by (rule refs_ok_stage [OF inv(2) assms(2)]) (use B(2) in \<open>auto simp: assms(4) sel bread_fill_def\<close>)
  moreover have "locks_ok s'" using inv(3) assms(2,3) by (auto simp: locks_ok_def assms(4) sel(6) owning_def)
  moreover have "block_layer dv s' = block_layer dv s"
  proof (rule block_layer_eqI)
    fix n
    have "bf_blockno (bufs (cache s) b) = n" if "cached dv (cache s) n = Some b" for b
      using that cached_Some [OF inv(1)] by (simp add: caches_def)
    then show "view dv (cache s') n = bview (block_layer dv s) n" using sel
      by (cases "cached dv (cache s) n"; cases "cached dv (cache s) n = Some ?b")
        (auto simp: assms(4) block_layer_def view_def same_blocks_cached [OF B(2)])
  qed (simp_all add: assms(4) block_layer_def same_blocks_cached [OF B(2)] sel split: option.split)
  ultimately show ?thesis using B(1) by (simp add: bio_inv_def assms(4))
qed

text \<open>What the cache holds for a reference.\<close>

lemma ref_cached:
  assumes "bio_inv dv s" "r \<in># brefs s"
  shows "r_buf r < NBUF" "cached dv (cache s) n = Some (r_buf r) \<longleftrightarrow> n = r_block r"
    "bf_blockno (bufs (cache s) (r_buf r)) = r_block r" "cached dv (cache s) (r_block r) = Some (r_buf r)"
    "r_stage r = Ready \<Longrightarrow> bf_valid (bufs (cache s) (r_buf r))"
  using assms cached_Some [of dv "cache s"] by (auto simp: bio_inv_def refs_ok_def caches_def)

lemma ready_view:
  "\<lbrakk>bio_inv dv s; r \<in># brefs s; r_stage r = Ready\<rbrakk> \<Longrightarrow> bf_data (bufs (cache s) (r_buf r)) = bview (block_layer dv s) (r_block r)"
  using ref_cached(4,5) by (simp add: block_layer_def view_def)

lemma bpins_ref: "\<lbrakk>bio_inv dv s; r \<in># brefs s\<rbrakk> \<Longrightarrow> bpins (block_layer dv s) (r_block r) = int (pinned s (r_buf r))"
  using ref_cached(4) by (simp add: block_layer_def)

lemma store_step:
  assumes "bio_inv dv s" "r \<in># brefs s" "r_stage r = Ready" "s' = s\<lparr>cache := bstore (r_buf r) v (cache s)\<rparr>"
  shows "bio_inv dv s' \<and> block_layer dv s' = bmodify (r_block r) v (block_layer dv s)"
proof -
  have inv: "bufs_ok dv (cache s)" "refs_ok dv s" "locks_ok s" using assms(1) by (simp_all add: bio_inv_def)
  note r = ref_cached [OF assms(1,2)]
  have sel: "bufs (cache s') = (bufs (cache s))(r_buf r := bufs (cache s) (r_buf r)\<lparr>bf_data := v\<rparr>)"
    "dsk (cache s') = dsk (cache s)" "dwrites (cache s') = dwrites (cache s)" "pinned s' = pinned s" by (simp_all add: assms(4) bstore_def)
  have B: "bufs_ok dv (cache s')" "same_blocks (cache s) (cache s')"
    unfolding bstore_def assms(4) using inv(1) by (simp_all, (intro bufs_ok_upd; simp)+)
  have "refs_ok dv s'" by (rule refs_ok_frame [OF inv(2)]) (use B(2) in \<open>auto simp: assms(4) bstore_def\<close>)
  moreover have "locks_ok s'" by (rule locks_ok_frame [OF inv(3)]) (auto simp: assms(4) bstore_def)
  moreover have "block_layer dv s' = bmodify (r_block r) v (block_layer dv s)"
  proof (rule block_layer_eqI)
    fix n
    show "view dv (cache s') n = bview (bmodify (r_block r) v (block_layer dv s)) n"
      using r(2) [of n] r(5) [OF assms(3)]
      by (cases "cached dv (cache s) n") (auto simp: block_layer_def view_def same_blocks_cached [OF B(2)] sel)
  qed (simp_all add: block_layer_def same_blocks_cached [OF B(2)] sel cong: option.case_cong)
  ultimately show ?thesis using B(1) by (simp add: bio_inv_def)
qed

lemma write_step:
  assumes "bio_inv dv s" "r \<in># brefs s" "r_stage r = Ready" "bwrite (r_pid r) (r_buf r) (cache s) = Ok c" "s' = s\<lparr>cache := c\<rparr>"
  shows "bio_inv dv s' \<and> block_layer dv s' = bwrite_block (r_block r) (block_layer dv s)"
proof -
  have inv: "bufs_ok dv (cache s)" "refs_ok dv s" "locks_ok s" using assms(1) by (simp_all add: bio_inv_def)
  note r = ref_cached [OF assms(1,2)] and data = ready_view [OF assms(1-3)]
  have c: "bufs c = bufs (cache s)" "dsk c = (dsk (cache s))(r_block r := bf_data (bufs (cache s) (r_buf r)))"
    "dwrites c = dwrites (cache s) @ [(r_block r, bf_data (bufs (cache s) (r_buf r)))]"
    using assms(4) by (auto simp: bwrite_def Let_def r(3) split: if_splits)
  have sb: "same_blocks (cache s) c" by (simp add: same_blocks_def c)
  have "bufs_ok dv c" using inv(1) by (simp add: bufs_ok_def lru_def caches_def c)
  moreover have "refs_ok dv s'" by (rule refs_ok_frame [OF inv(2)]) (use sb in \<open>auto simp: assms(5) c\<close>)
  moreover have "locks_ok s'" by (rule locks_ok_frame [OF inv(3)]) (auto simp: assms(5) c)
  moreover have "block_layer dv s' = bwrite_block (r_block r) (block_layer dv s)"
  proof (rule block_layer_eqI)
    fix n
    show "view dv (cache s') n = bview (bwrite_block (r_block r) (block_layer dv s)) n"
      using r(4) r(5) [OF assms(3)]
      by (cases "n = r_block r") (auto simp: block_layer_def view_def same_blocks_cached [OF sb] assms(5) c split: option.split)
  qed (simp_all add: data, simp_all add: block_layer_def same_blocks_cached [OF sb] assms(5) c view_def r(4) r(5) [OF assms(3)] split: option.split)
  ultimately show ?thesis by (simp add: bio_inv_def assms(5))
qed

text \<open>Pinning and unpinning: the count and the pins change together.\<close>

lemma pin_change:
  assumes "bio_inv dv s" "r \<in># brefs s" "cache s' = upd_buf (r_buf r) (\<lambda>x. x\<lparr>bf_refcnt := k\<rparr>) (cache s)" "brefs s' = brefs s"
    and "pinned s' = (pinned s)(r_buf r := p)" "k = of_nat (nrefs (r_buf r) (brefs s) + p)" "nrefs (r_buf r) (brefs s) + p < 2 ^ 32"
  shows "bio_inv dv s'" "block_layer dv s' = (block_layer dv s)\<lparr>bpins := (bpins (block_layer dv s))(r_block r := int p)\<rparr>"
proof -
  have inv: "bufs_ok dv (cache s)" "refs_ok dv s" "locks_ok s" using assms(1) by (simp_all add: bio_inv_def)
  note r = ref_cached [OF assms(1,2)]
  have B: "bufs_ok dv (cache s')" "same_blocks (cache s) (cache s')"
    unfolding assms(3) using inv(1) by (intro bufs_ok_upd; simp)+
  have "refs_ok dv s'" using inv(2) unfolding refs_ok_def assms(4) same_blocks_caches [OF B(2)]
    using assms(7) by (auto simp: assms(3,5,6))
  moreover have "locks_ok s'" by (rule locks_ok_frame [OF inv(3)]) (auto simp: assms(3,4))
  ultimately show "bio_inv dv s'" using B(1) by (simp add: bio_inv_def)
  show "block_layer dv s' = (block_layer dv s)\<lparr>bpins := (bpins (block_layer dv s))(r_block r := int p)\<rparr>"
  proof (rule block_layer_eqI)
    fix n
    show "(case cached dv (cache s') n of None \<Rightarrow> 0 | Some b \<Rightarrow> int (pinned s' b)) =
      bpins ((block_layer dv s)\<lparr>bpins := (bpins (block_layer dv s))(r_block r := int p)\<rparr>) n"
      using r(2) [of n] by (auto simp: block_layer_def same_blocks_cached [OF B(2)] assms(5) split: option.split)
  qed (simp_all add: block_layer_def view_def same_blocks_cached [OF B(2)], simp_all add: assms(3) split: option.split)
qed

lemma unlock_step:
  assumes "bio_inv dv s" "brefs s = add_mset r R" "r_stage r = Ready"
    and "brelse_unlock (r_pid r) (r_buf r) (cache s) = Ok c" "s' = s\<lparr>cache := c, brefs := add_mset (r\<lparr>r_stage := Releasing\<rparr>) R\<rparr>"
  shows "bio_inv dv s' \<and> block_layer dv s' = block_layer dv s"
proof -
  let ?f = "\<lambda>x. x\<lparr>bf_lock := releasesleep_fields (bf_lock x)\<rparr>"
  have inv: "bufs_ok dv (cache s)" "refs_ok dv s" "locks_ok s" using assms(1) by (simp_all add: bio_inv_def)
  have c: "c = upd_buf (r_buf r) ?f (cache s)" using assms(4) by (auto simp: brelse_unlock_def split: if_splits)
  have own: "owning r" using assms(3) by (simp add: owning_def)
  have B: "bufs_ok dv c" "same_blocks (cache s) c" unfolding c using inv(1) by (intro bufs_ok_upd; simp)+
  have "refs_ok dv s'" by (rule refs_ok_stage [OF inv(2) assms(2)]) (use B(2) in \<open>auto simp: assms(5) c\<close>)
  moreover have "locks_ok s'"
  proof -
    have only: "r_buf x \<noteq> r_buf r" if "x \<in># R" "owning x" for x using sole_owner [OF inv(2,3) assms(2) own that] .
    then have "nrefs (r_buf r) (filter_mset owning R) = 0" by (auto simp: nrefs_zero)
    then show ?thesis using inv(3) only assms(2) own
      by (auto simp: locks_ok_def assms(5) c releasesleep_fields_def)
  qed
  moreover have "block_layer dv s' = block_layer dv s"
    using B(2) by (intro block_layer_same) (auto simp: assms(5) c)
  ultimately show ?thesis using B(1) by (simp add: bio_inv_def assms(5))
qed

lemma brelse_unref_sel:
  "bf_dev (bufs (brelse_unref b c) x) = bf_dev (bufs c x)" "bf_blockno (bufs (brelse_unref b c) x) = bf_blockno (bufs c x)"
  "bf_valid (bufs (brelse_unref b c) x) = bf_valid (bufs c x)" "bf_lock (bufs (brelse_unref b c) x) = bf_lock (bufs c x)"
  "bf_refcnt (bufs (brelse_unref b c) x) = (if x = b then bf_refcnt (bufs c x) - 1 else bf_refcnt (bufs c x))"
  "bf_data (bufs (brelse_unref b c) x) = bf_data (bufs c x)" "dsk (brelse_unref b c) = dsk c" "dwrites (brelse_unref b c) = dwrites c"
  by (simp_all add: brelse_unref_def Let_def links_keep)

text \<open>\<^verbatim>\<open>brelse\<close> of the last reference moves the buffer to the front.\<close>

lemma brelse_unref_lru:
  assumes "lru c xs" "b \<in> set xs"
  shows "lru (brelse_unref b c) (if bf_refcnt (bufs c b) = 1 then b # removeAll b xs else xs)"
proof -
  let ?c = "upd_buf b (\<lambda>x. x\<lparr>bf_refcnt := bf_refcnt x - 1\<rparr>) c"
  have l: "lru ?c xs" by (rule lru_cong [OF assms(1)]) simp_all
  obtain ys zs where xs: "xs = ys @ b # zs" using assms(2) by (meson split_list)
  have d: "b \<notin> set (ys @ zs)" "b \<noteq> NBUF" using assms xs by (auto simp: lru_def)
  then have "removeAll b xs = ys @ zs" by (simp add: xs)
  moreover have "lru (link_front b (unlink_buf b ?c)) (b # ys @ zs)"
    using link_front_lru [OF unlink_buf_lru [of ?c ys b zs] d] l xs by simp
  ultimately show ?thesis using l by (auto simp: brelse_unref_def Let_def)
qed

lemma drop_step:
  assumes "bio_inv dv s" "brefs s = add_mset r R" "r_stage r = Releasing"
    and "s' = s\<lparr>cache := brelse_unref (r_buf r) (cache s), brefs := R\<rparr>"
  shows "bio_inv dv s' \<and> block_layer dv s' = block_layer dv s"
proof -
  have inv: "bufs_ok dv (cache s)" "refs_ok dv s" "locks_ok s" using assms(1) by (simp_all add: bio_inv_def)
  have b: "r_buf r < NBUF" using inv(2) assms(2) by (simp add: refs_ok_def)
  have sb: "same_blocks (cache s) (cache s')" by (simp add: same_blocks_def assms(4) brelse_unref_sel)
  obtain xs where xs: "lru (cache s) xs" "set xs = {..<NBUF}" using inv(1) by (auto simp: bufs_ok_def)
  have "\<exists>ys. lru (cache s') ys \<and> set ys = {..<NBUF}"
    using brelse_unref_lru [OF xs(1), of "r_buf r"] xs(2) b by (auto simp: assms(4) split: if_splits)
  then have "bufs_ok dv (cache s')"
    by (rule bufs_ok_same [OF inv(1) sb]) (simp add: assms(4) brelse_unref_sel)
  moreover have "refs_ok dv s'" using inv(2) unfolding refs_ok_def same_blocks_caches [OF sb] assms(2)
    by (auto simp: assms(4) brelse_unref_sel)
  moreover have "locks_ok s'" using inv(3) assms(2,3) by (auto simp: locks_ok_def assms(4) brelse_unref_sel owning_def)
  moreover have "block_layer dv s' = block_layer dv s"
    using sb by (intro block_layer_same) (auto simp: assms(4) brelse_unref_sel)
  ultimately show ?thesis by (simp add: bio_inv_def)
qed

lemma bio_step_refines:
  assumes "bio_step dv s l s'" "bio_inv dv s"
  shows "bio_inv dv s' \<and> block_layer dv s' = block_step l (block_layer dv s)"
  using assms
proof (induction rule: bio_step.induct)
  case (finds pid n s b c)
  have "bufs_ok dv (cache s)" using finds(4) by (simp add: bio_inv_def)
  from finds(2) this show ?case
  proof (cases rule: bget_find_cases)
    case hit
    then show ?thesis using take_ref_step [OF finds(4) hit(1,2) finds(1,3) refl] by (simp add: displaced_def caches_def)
  next
    case miss
    then show ?thesis using recycle_step [OF finds(4) miss(1) miss(2) miss(3) finds(1) refl]
        recycle_layer [OF finds(4) miss(1) miss(2) miss(3)] by simp
  qed
next
  case (locks s r R c)
  then show ?case using lock_step by simp
next
  case (fills s r R)
  then show ?case using fill_step by simp
next
  case (stores r s v)
  then show ?case using store_step by simp
next
  case (writes r s c)
  then show ?case using write_step by simp
next
  case (pins r s)
  let ?s' = "s\<lparr>cache := bpin (r_buf r) (cache s), pinned := (pinned s)(r_buf r := pinned s (r_buf r) + 1)\<rparr>"
  note r = ref_cached [OF pins(4,1)]
  have k: "bf_refcnt (bufs (cache s) (r_buf r)) = of_nat (nrefs (r_buf r) (brefs s) + pinned s (r_buf r))"
    using pins(4) r(1) by (simp add: bio_inv_def refs_ok_def)
  have "cache ?s' = upd_buf (r_buf r) (\<lambda>x. x\<lparr>bf_refcnt := bf_refcnt (bufs (cache s) (r_buf r)) + 1\<rparr>) (cache s)"
    by (simp add: bpin_def upd_buf_def)
  from pin_change [OF pins(4,1) this, of "pinned s (r_buf r) + 1"] pins(3) k
  show ?case by (simp add: bpin_block_def bpins_ref [OF pins(4,1)] add.commute)
next
  case (unpins r s)
  let ?s' = "s\<lparr>cache := bunpin (r_buf r) (cache s), pinned := (pinned s)(r_buf r := pinned s (r_buf r) - 1)\<rparr>"
  note r = ref_cached [OF unpins(4,1)]
  have k: "bf_refcnt (bufs (cache s) (r_buf r)) = of_nat (nrefs (r_buf r) (brefs s) + pinned s (r_buf r))"
    "nrefs (r_buf r) (brefs s) + pinned s (r_buf r) < 2 ^ 32" using unpins(4) r(1) by (simp_all add: bio_inv_def refs_ok_def)
  have "cache ?s' = upd_buf (r_buf r) (\<lambda>x. x\<lparr>bf_refcnt := bf_refcnt (bufs (cache s) (r_buf r)) - 1\<rparr>) (cache s)"
    by (simp add: bunpin_def upd_buf_def)
  from pin_change [OF unpins(4,1) this, of "pinned s (r_buf r) - 1"] unpins(2,3) k
  show ?case by (simp add: bunpin_block_def bpins_ref [OF unpins(4,1)] of_nat_diff)
next
  case (unlocks s r R c)
  then show ?case using unlock_step by simp
next
  case (drops s r R)
  then show ?case using drop_step by simp
qed

subsection \<open>The cache at boot\<close>

text \<open>The buffers start zeroed, on device 0.\<close>

definition zero_buf :: buf where
  "zero_buf = \<lparr>bf_valid = False, bf_dev = 0, bf_blockno = 0, bf_lock = initsleeplock, bf_refcnt = 0, bf_prev = 0, bf_next = 0,
     bf_data = (\<lambda>_. 0)\<rparr>"

definition boot_cache :: "(u32 \<Rightarrow> bytes) \<Rightarrow> bsys" where
  "boot_cache disk = \<lparr>cache = binit \<lparr>bufs = (\<lambda>_. zero_buf), dsk = disk, dwrites = []\<rparr>, brefs = {#}, pinned = (\<lambda>_. 0)\<rparr>"

lemma binit_loop_lru:
  assumes "lru c xs" "distinct bs" "set bs \<inter> set xs = {}" "NBUF \<notin> set bs"
  shows "lru (binit_loop bs c) (rev bs @ xs)"
  using assms
proof (induction bs arbitrary: c xs)
  case (Cons b bs)
  let ?c = "upd_buf b (\<lambda>x. x\<lparr>bf_lock := initsleeplock\<rparr>) c"
  have "lru ?c xs" by (rule lru_cong [OF Cons.prems(1)]) simp_all
  then have "lru (link_front b ?c) (b # xs)" using Cons.prems by (intro link_front_lru) auto
  then show ?case using Cons.IH [of _ "b # xs"] Cons.prems by auto
qed simp

lemma binit_loop_keeps:
  "dsk (binit_loop bs c) = dsk c \<and> dwrites (binit_loop bs c) = dwrites c \<and> bf_dev (bufs (binit_loop bs c) x) = bf_dev (bufs c x) \<and>
   bf_valid (bufs (binit_loop bs c) x) = bf_valid (bufs c x) \<and> bf_refcnt (bufs (binit_loop bs c) x) = bf_refcnt (bufs c x) \<and>
   bf_lock (bufs (binit_loop bs c) x) = (if x \<in> set bs then initsleeplock else bf_lock (bufs c x))"
  by (induction bs arbitrary: c) (auto simp: links_keep)

lemma boot_cache_inv:
  assumes "dv \<noteq> 0"
  shows "bio_inv dv (boot_cache disk)" "bview (block_layer dv (boot_cache disk)) = disk" "bdisk (block_layer dv (boot_cache disk)) = disk"
proof -
  let ?zc = "\<lparr>bufs = (\<lambda>_. zero_buf), dsk = disk, dwrites = []\<rparr> :: bcache"
  let ?c = "cache (boot_cache disk)"
  have "lru (upd_buf NBUF (\<lambda>x. x\<lparr>bf_prev := NBUF, bf_next := NBUF\<rparr>) ?zc) []" by (simp add: lru_def)
  from binit_loop_lru [OF this, of "[0..<NBUF]"] have l: "lru ?c (rev [0..<NBUF])" by (simp add: boot_cache_def binit_def)
  have k: "bf_dev (bufs ?c x) = 0" "\<not> bf_valid (bufs ?c x)" "bf_refcnt (bufs ?c x) = 0" "dsk ?c = disk"
    "x < NBUF \<Longrightarrow> bf_lock (bufs ?c x) = initsleeplock" for x
    by (simp_all add: boot_cache_def binit_def binit_loop_keeps zero_buf_def)
  have "bufs_ok dv ?c" using l assms by (auto simp: bufs_ok_def caches_def k intro!: exI [of _ "rev [0..<NBUF]"])
  moreover have "brefs (boot_cache disk) = {#}" "pinned (boot_cache disk) = (\<lambda>_. 0)" by (simp_all add: boot_cache_def)
  ultimately show "bio_inv dv (boot_cache disk)"
    by (simp add: bio_inv_def refs_ok_def locks_ok_def k initsleeplock_def)
  have "cached dv ?c n = None" for n using assms by (simp add: cached_None caches_def k)
  then show "bview (block_layer dv (boot_cache disk)) = disk" "bdisk (block_layer dv (boot_cache disk)) = disk"
    by (simp_all add: block_layer_def view_def k fun_eq_iff)
qed

lemma bio_run_refines:
  assumes "bio_run dv s ls s'" "bio_inv dv s"
  shows "bio_inv dv s' \<and> block_layer dv s' = fold block_step ls (block_layer dv s)"
  using assms by (induction rule: bio_run.induct) (auto dest: bio_step_refines)

text \<open>A \<^verbatim>\<open>bread\<close> that does not sleep is three steps of its process.\<close>

lemma bread_run:
  assumes "pid > 0" "bget_find dv n (cache s) = Ok (b, c)" "nrefs b (brefs s) + pinned s b < 2 ^ 32 - 1" "bget_lock pid b c = Some c1"
  shows "bread pid dv n (cache s) = Ok (b, bread_fill b c1)"
    "bio_run dv s [displaced dv n b (cache s), Internal, Internal] (s\<lparr>cache := bread_fill b c1,
       brefs := add_mset \<lparr>r_pid = pid, r_buf = b, r_block = n, r_stage = Ready\<rparr> (brefs s)\<rparr>)"
proof -
  show "bread pid dv n (cache s) = Ok (b, bread_fill b c1)" using assms(2,4) by (simp add: bread_def bget_def)
  let ?r = "\<lparr>r_pid = pid, r_buf = b, r_block = n, r_stage = Waiting\<rparr>"
  let ?s1 = "s\<lparr>cache := c, brefs := add_mset ?r (brefs s)\<rparr>" and ?s2 = "s\<lparr>cache := c1, brefs := add_mset (?r\<lparr>r_stage := Locked\<rparr>) (brefs s)\<rparr>"
  let ?s3 = "s\<lparr>cache := bread_fill b c1, brefs := add_mset (?r\<lparr>r_stage := Ready\<rparr>) (brefs s)\<rparr>"
  have "bio_step dv s (displaced dv n b (cache s)) ?s1" by (rule bio_step.finds [OF assms(1-3)])
  moreover have "bio_step dv ?s1 Internal ?s2" using bio_step.locks [of ?s1 ?r "brefs s" c1 dv] assms(4) by simp
  moreover have "bio_step dv ?s2 Internal ?s3" using bio_step.fills [of ?s2 "?r\<lparr>r_stage := Locked\<rparr>" "brefs s" dv] by simp
  ultimately have "bio_run dv s ((([] @ [displaced dv n b (cache s)]) @ [Internal]) @ [Internal]) ?s3" by (blast intro: bio_run.intros)
  then show "bio_run dv s [displaced dv n b (cache s), Internal, Internal] (s\<lparr>cache := bread_fill b c1,
       brefs := add_mset \<lparr>r_pid = pid, r_buf = b, r_block = n, r_stage = Ready\<rparr> (brefs s)\<rparr>)" by simp
qed

lemma boot_read:
  assumes "dv \<noteq> 0"
  obtains b c where "bread 1 dv n (cache (boot_cache disk)) = Ok (b, c)"
    "bio_run dv (boot_cache disk) [Internal, Internal, Internal] (boot_cache disk\<lparr>cache := c,
       brefs := {# \<lparr>r_pid = 1, r_buf = b, r_block = n, r_stage = Ready\<rparr> #}\<rparr>)"
proof -
  let ?s = "boot_cache disk"
  have ok: "bufs_ok dv (cache ?s)" using boot_cache_inv [OF assms, of disk] by (simp add: bio_inv_def)
  have e: "brefs ?s = {#}" "pinned ?s = (\<lambda>_. 0)" by (simp_all add: boot_cache_def)
  have inv: "\<not> bf_valid (bufs (cache ?s) b)" for b by (simp add: boot_cache_def binit_def binit_loop_keeps zero_buf_def)
  have free: "bf_refcnt (bufs (cache ?s) b) = 0 \<and> bf_lock (bufs (cache ?s) b) = initsleeplock" if "b < NBUF" for b
    using that by (simp add: boot_cache_def binit_def binit_loop_keeps zero_buf_def)
  have "\<exists>r. bget_find dv n (cache ?s) = Ok r" by (rule bget_find_returns [OF ok, of 0]) (simp_all add: NBUF_def free)
  then obtain b c where f: "bget_find dv n (cache ?s) = Ok (b, c)" by (metis surj_pair)
  have "bf_lock (bufs c b) = initsleeplock"
    by (rule bget_find_cases [OF f ok]) (simp_all add: free take_ref_def)
  then obtain c1 where "bget_lock 1 b c = Some c1" by (simp add: bget_lock_def acquiresleep_def initsleeplock_def)
  from bread_run [OF _ f _ this] show thesis using that by (simp add: e displaced_def inv)
qed

text \<open>A buffer is reused only when nothing refers to it.\<close>

lemma evicts_unused:
  assumes "bio_step dv s (Evict m) s'" "bio_inv dv s"
  shows "bpins (block_layer dv s) m = 0 \<and> (\<forall>r \<in># brefs s. r_block r \<noteq> m)"
  using assms(1)
proof cases
  case (finds pid n b c)
  have ok: "bufs_ok dv (cache s)" "refs_ok dv s" using assms(2) by (simp_all add: bio_inv_def)
  have d: "bf_valid (bufs (cache s) b)" "m = bf_blockno (bufs (cache s) b)"
    "\<not> (bf_dev (bufs (cache s) b) = dv \<and> bf_blockno (bufs (cache s) b) = n)"
    using finds(1) by (auto simp: displaced_def split: if_splits)
  show ?thesis using finds(4) ok(1)
  proof (cases rule: bget_find_cases)
    case hit
    then show ?thesis using d(3) by (simp add: caches_def)
  next
    case miss
    then have "caches dv m (cache s) b" using ok(1) d by (simp add: bufs_ok_def caches_def)
    then have c: "cached dv (cache s) m = Some b" using cached_Some [OF ok(1)] miss by simp
    note free = refcnt_zero [OF ok(2) miss(1,3)]
    have "r_block r \<noteq> m" if "r \<in># brefs s" for r
      using ref_cached(4) [OF assms(2) that] c free(3) [OF that] by auto
    then show ?thesis using c free(2) by (simp add: block_layer_def)
  qed
qed

section \<open>Properties\<close>

text \<open>
  C36. Under every interleaving of processes that use the cache by its rules, starting from \<^verbatim>\<open>binit\<close>, the cache behaves as
  the block layer: its contents, disk, pins and disk writes are those that the operations give in order. No rule asks that
  a changed buffer be written or pinned before it is released; the cache forgets a change only by reusing the buffer, and
  reuses only that of a block that is not pinned and that no process has or waits for. A
  process that has a buffer sees the contents of the block it asked for, holds the buffer's lock, so that
  \<^verbatim>\<open>bwrite\<close> and \<^verbatim>\<open>brelse\<close> do not panic, and is the only one with a buffer for that block.
\<close>

theorem bcache_refines_blocks:
  assumes "dv \<noteq> 0" "bio_run dv (boot_cache disk) ls s"
  shows "block_layer dv s = fold block_step ls (block_layer dv (boot_cache disk)) \<and>
    (\<forall>n s'. bio_step dv s (Evict n) s' \<longrightarrow> bpins (block_layer dv s) n = 0 \<and> (\<forall>r \<in># brefs s. r_block r \<noteq> n)) \<and>
    (\<forall>r \<in># brefs s. r_stage r = Ready \<longrightarrow>
      bf_data (bufs (cache s) (r_buf r)) = bview (block_layer dv s) (r_block r) \<and>
      holdingsleep (r_pid r) (bf_lock (bufs (cache s) (r_buf r))) \<and>
      (\<forall>r' \<in># brefs s - {#r#}. owning r' \<longrightarrow> r_block r' \<noteq> r_block r))"
proof -
  from bio_run_refines [OF assms(2) boot_cache_inv(1) [OF assms(1)]]
  have inv: "bio_inv dv s" and eq: "block_layer dv s = fold block_step ls (block_layer dv (boot_cache disk))" by auto
  have "bf_data (bufs (cache s) (r_buf r)) = bview (block_layer dv s) (r_block r) \<and>
      holdingsleep (r_pid r) (bf_lock (bufs (cache s) (r_buf r))) \<and>
      (\<forall>r' \<in># brefs s - {#r#}. owning r' \<longrightarrow> r_block r' \<noteq> r_block r)" if r: "r \<in># brefs s" "r_stage r = Ready" for r
  proof (intro conjI ballI impI)
    have ok: "refs_ok dv s" "locks_ok s" "owning r" using inv r by (simp_all add: bio_inv_def owning_def)
    show "bf_data (bufs (cache s) (r_buf r)) = bview (block_layer dv s) (r_block r)" by (rule ready_view [OF inv r])
    show "holdingsleep (r_pid r) (bf_lock (bufs (cache s) (r_buf r)))" by (rule owner_holds [OF ok(1,2) r(1) ok(3)])
    fix r' assume r': "r' \<in># brefs s - {#r#}" "owning r'"
    then have "r_buf r' \<noteq> r_buf r" using sole_owner [OF ok(1,2) _ ok(3), of "brefs s - {#r#}" r'] r(1) by simp
    then show "r_block r' \<noteq> r_block r"
      using ref_cached(4) [OF inv r(1)] ref_cached(4) [OF inv in_diffD [OF r'(1)]] by auto
  qed
  then show ?thesis using eq evicts_unused [OF _ inv] by blast
qed

text \<open>
  \<^verbatim>\<open>bread\<close> of a block that is cached, or when some buffer has no references, does not panic; unless
  another process holds the buffer, in which case it sleeps, it returns a buffer with the block's current
  contents, and every block reads as before but for one whose buffer was reused.
\<close>

lemma bread_delivers_block:
  assumes "bio_inv dv s" "pid > 0" "b0 < NBUF" "caches dv n (cache s) b0 \<or> bf_refcnt (bufs (cache s) b0) = 0"
    and "size (brefs s) + sum (pinned s) {..<NBUF} < 2 ^ 32 - 1"
  shows "bread pid dv n (cache s) = Blocked ''buffer'' \<or>
    (\<exists>b c. bread pid dv n (cache s) = Ok (b, c) \<and> b < NBUF \<and> bf_data (bufs c b) = view dv (cache s) n \<and>
      view dv c = bview (block_step (displaced dv n b (cache s)) (block_layer dv s)))"
proof -
  have "bufs_ok dv (cache s)" using assms(1) by (simp add: bio_inv_def)
  from bget_find_returns [OF this assms(3,4)] obtain b c where f: "bget_find dv n (cache s) = Ok (b, c)" by (metis surj_pair)
  have "b < NBUF" by (rule bget_find_cases [OF f \<open>bufs_ok dv (cache s)\<close>])
  then have "pinned s b \<le> sum (pinned s) {..<NBUF}" by (intro member_le_sum) auto
  moreover have "nrefs b (brefs s) \<le> size (brefs s)" by (simp add: nrefs_def size_filter_mset_lesseq)
  ultimately have "nrefs b (brefs s) + pinned s b < 2 ^ 32 - 1" using assms(5) by linarith
  note room = this
  show ?thesis
  proof (cases "bget_lock pid b c")
    case None
    then show ?thesis using f by (simp add: bread_def bget_def)
  next
    case (Some c1)
    let ?r = "\<lparr>r_pid = pid, r_buf = b, r_block = n, r_stage = Ready\<rparr>"
    let ?s' = "s\<lparr>cache := bread_fill b c1, brefs := add_mset ?r (brefs s)\<rparr>"
    note run = bread_run [OF assms(2) f room Some]
    have e: "bio_inv dv ?s'" "block_layer dv ?s' = block_step (displaced dv n b (cache s)) (block_layer dv s)"
      using bio_run_refines [OF run(2) assms(1)] by simp_all
    from arg_cong [OF e(2), of bview]
    have v: "view dv (bread_fill b c1) = bview (block_step (displaced dv n b (cache s)) (block_layer dv s))" by (simp add: block_layer_def)
    have n: "bview (block_step (displaced dv n b (cache s)) (block_layer dv s)) n = view dv (cache s) n"
    proof (cases "caches dv n (cache s) b")
      case False
      then have "cached dv (cache s) n = None" by (metis bget_find_cases [OF f \<open>bufs_ok dv (cache s)\<close>] cached_None)
      then show ?thesis by (simp add: displaced_def block_layer_def view_def)
    qed (simp add: displaced_def caches_def block_layer_def)
    have "bf_data (bufs (bread_fill b c1) b) = view dv (cache s) n"
      using ready_view [OF e(1), of ?r] v n by (simp add: block_layer_def)
    then show ?thesis using run(1) v \<open>b < NBUF\<close> by simp
  qed
qed

theorem bcache_refines_blocks_witness:
  "\<exists>b c. bread 1 1 5 (cache (boot_cache (\<lambda>n _. ucast n))) = Ok (b, c) \<and> bf_data (bufs c b) = (\<lambda>_. 5) \<and>
    holdingsleep 1 (bf_lock (bufs c b))"
proof -
  obtain b c where r: "bread 1 1 5 (cache (boot_cache (\<lambda>n _. ucast n))) = Ok (b, c)"
    "bio_run 1 (boot_cache (\<lambda>n _. ucast n)) [Internal, Internal, Internal] (boot_cache (\<lambda>n _. ucast n)\<lparr>cache := c,
       brefs := {# \<lparr>r_pid = 1, r_buf = b, r_block = 5, r_stage = Ready\<rparr> #}\<rparr>)"
    by (rule boot_read [of 1 5 "\<lambda>n _. ucast n"]) simp_all
  from bcache_refines_blocks [OF _ r(2)] boot_cache_inv(2) [of 1 "\<lambda>n _. ucast n"]
  have "bf_data (bufs c b) = (\<lambda>_. 5)" "holdingsleep 1 (bf_lock (bufs c b))" by simp_all
  with r(1) show ?thesis by blast
qed

end
