(* ===== verification/Log.thy ===== *)
theory Log
  imports Blocks
begin

text \<open>
  \<^verbatim>\<open>kernel/log.c\<close>: the redo log. The header block holds the count and the numbers of the logged blocks; the
  in-memory header is the list of those numbers. A crash may come between any two block writes; a block
  write itself is atomic. Waiting in \<^verbatim>\<open>begin_op\<close> is \<open>None\<close>. \<^verbatim>\<open>end_op\<close> commits without
  the lock; as a function it runs to its end, in \<open>log_step\<close> other calls come in between its pieces.
\<close>

section \<open>Definitions\<close>

definition MAXOPBLOCKS :: nat where "MAXOPBLOCKS = 10"
definition LOGSIZE :: nat where "LOGSIZE = MAXOPBLOCKS * 3"

record log =
  l_start :: u32
  l_size :: int
  outstanding :: int
  committing :: bool
  lh :: "u32 list"

text \<open>The header block.\<close>

definition head_n :: "bytes \<Rightarrow> int" where
  "head_n blk = sint (get32 blk 0)"

definition head_block :: "bytes \<Rightarrow> nat \<Rightarrow> u32" where
  "head_block blk i = get32 blk (4 + 4 * i)"

primrec put_blocks :: "u32 list \<Rightarrow> nat \<Rightarrow> bytes \<Rightarrow> bytes" where
  "put_blocks [] i blk = blk"
| "put_blocks (b # bs) i blk = put_blocks bs (Suc i) (put32 (4 + 4 * i) b blk)"

definition write_head :: "log \<Rightarrow> bdev \<Rightarrow> bdev" where
  "write_head l d =
     (let hb = bview d (l_start l);
          hb = put32 0 (of_nat (length (lh l))) hb;
          hb = put_blocks (lh l) 0 hb
      in bwrite_block (l_start l) (bmodify (l_start l) hb d))"

definition read_head :: "log \<Rightarrow> bdev \<Rightarrow> log res" where
  "read_head l d =
     (let hb = bview d (l_start l) in
      if head_n hb > int LOGSIZE then Fault ''log.lh.block''
      else Ok (l\<lparr>lh := map (head_block hb) [0..<nat (head_n hb)]\<rparr>))"

primrec install_loop :: "u32 list \<Rightarrow> nat \<Rightarrow> bool \<Rightarrow> log \<Rightarrow> bdev \<Rightarrow> bdev" where
  "install_loop [] tail recovering l d = d"
| "install_loop (b # bs) tail recovering l d =
     (let d = bwrite_block b (bmodify b (bview d (l_start l + of_nat tail + 1)) d);
          d = (if recovering then d else bunpin_block b d)
      in install_loop bs (Suc tail) recovering l d)"

definition install_trans :: "bool \<Rightarrow> log \<Rightarrow> bdev \<Rightarrow> bdev" where
  "install_trans recovering l d = install_loop (lh l) 0 recovering l d"

definition recover_from_log :: "log \<Rightarrow> bdev \<Rightarrow> (log \<times> bdev) res" where
  "recover_from_log l d =
     rbind (read_head l d) (\<lambda>l.
       let d = install_trans True l d; l = l\<lparr>lh := []\<rparr>
       in Ok (l, write_head l d))"

definition initlog :: "u32 \<Rightarrow> u32 \<Rightarrow> log \<Rightarrow> bdev \<Rightarrow> (log \<times> bdev) res" where
  "initlog logstart nlog l d =
     (if 4 + 4 * LOGSIZE \<ge> BSIZE then Panic ''initlog: too big logheader''
      else recover_from_log (l\<lparr>l_start := logstart, l_size := sint nlog\<rparr>) d)"

definition begin_op :: "log \<Rightarrow> log option" where
  "begin_op l =
     (if committing l then None
      else if int (length (lh l)) + (outstanding l + 1) * int MAXOPBLOCKS > int LOGSIZE then None
      else Some (l\<lparr>outstanding := outstanding l + 1\<rparr>))"

text \<open>The first half of \<^verbatim>\<open>end_op\<close>: whether to commit; otherwise it wakes the waiters in \<^verbatim>\<open>begin_op\<close>.\<close>

definition end_op_enter :: "log \<Rightarrow> (bool \<times> log) res" where
  "end_op_enter l =
     (let l = l\<lparr>outstanding := outstanding l - 1\<rparr> in
      if committing l then Panic ''log.committing''
      else if outstanding l = 0 then Ok (True, l\<lparr>committing := True\<rparr>)
      else Ok (False, l))"

primrec write_log_loop :: "u32 list \<Rightarrow> nat \<Rightarrow> log \<Rightarrow> bdev \<Rightarrow> bdev" where
  "write_log_loop [] tail l d = d"
| "write_log_loop (b # bs) tail l d =
     (let to = l_start l + of_nat tail + 1 in
      write_log_loop bs (Suc tail) l (bwrite_block to (bmodify to (bview d b) d)))"

definition write_log :: "log \<Rightarrow> bdev \<Rightarrow> bdev" where
  "write_log l d = write_log_loop (lh l) 0 l d"

definition commit :: "log \<Rightarrow> bdev \<Rightarrow> log \<times> bdev" where
  "commit l d =
     (if length (lh l) > 0
      then let d = write_log l d;
               d = write_head l d;
               d = install_trans False l d;
               l = l\<lparr>lh := []\<rparr>
        in (l, write_head l d)
      else (l, d))"

definition end_op :: "log \<Rightarrow> bdev \<Rightarrow> (log \<times> bdev) res" where
  "end_op l d =
     rbind (end_op_enter l) (\<lambda>(do_commit, l).
       if do_commit then (case commit l d of (l, d) \<Rightarrow> Ok (l\<lparr>committing := False\<rparr>, d))
       else Ok (l, d))"

definition log_write :: "u32 \<Rightarrow> log \<Rightarrow> bdev \<Rightarrow> (log \<times> bdev) res" where
  "log_write blockno l d =
     (if length (lh l) \<ge> LOGSIZE \<or> int (length (lh l)) \<ge> l_size l - 1 then Panic ''too big a transaction''
      else if outstanding l < 1 then Panic ''log_write outside of trans''
      else if blockno \<in> set (lh l) then Ok (l, d)
      else Ok (l\<lparr>lh := lh l @ [blockno]\<rparr>, bpin_block blockno d))"

text \<open>
  File system calls in progress: for each, how many blocks it has added to the log, and how far the commit of an \<^verbatim>\<open>end_op\<close>
  has got, which runs without the lock: \<open>Decided\<close> is past the first critical section of \<^verbatim>\<open>end_op\<close>, \<open>Emptied\<close> before the second.
  A call adds at most \<open>k\<close> blocks; writing a block that is logged already is not limited.
\<close>

datatype stage = Quiet | Decided | Copied | Recorded | Installed | Emptied

record lsys_log =
  lg :: log
  ldev :: bdev
  ops :: "nat list"
  stage :: stage

inductive log_step :: "nat \<Rightarrow> lsys_log \<Rightarrow> lsys_log \<Rightarrow> bool" for k :: nat where
  starts: "begin_op (lg s) = Some l \<Longrightarrow> log_step k s (s\<lparr>lg := l, ops := ops s @ [0]\<rparr>)"
| logs: "\<lbrakk>i < length (ops s); b \<in> set (lh (lg s)) \<or> ops s ! i < k; log_write b (lg s) (ldev s) = Ok (l, d)\<rbrakk> \<Longrightarrow>
     log_step k s (s\<lparr>lg := l, ldev := d, ops := (ops s)[i := ops s ! i + (if b \<in> set (lh (lg s)) then 0 else 1)]\<rparr>)"
| ends: "\<lbrakk>i < length (ops s); end_op_enter (lg s) = Ok (do_commit, l)\<rbrakk> \<Longrightarrow>
     log_step k s (s\<lparr>lg := l, ops := take i (ops s) @ drop (Suc i) (ops s), stage := (if do_commit then Decided else stage s)\<rparr>)"
| nothing: "\<lbrakk>stage s = Decided; lh (lg s) = []\<rbrakk> \<Longrightarrow> log_step k s (s\<lparr>stage := Emptied\<rparr>)"
| copies: "\<lbrakk>stage s = Decided; lh (lg s) \<noteq> []\<rbrakk> \<Longrightarrow> log_step k s (s\<lparr>ldev := write_log (lg s) (ldev s), stage := Copied\<rparr>)"
| records: "stage s = Copied \<Longrightarrow> log_step k s (s\<lparr>ldev := write_head (lg s) (ldev s), stage := Recorded\<rparr>)"
| installs: "stage s = Recorded \<Longrightarrow> log_step k s (s\<lparr>ldev := install_trans False (lg s) (ldev s), stage := Installed\<rparr>)"
| clears: "\<lbrakk>stage s = Installed; l = (lg s)\<lparr>lh := []\<rparr>\<rbrakk> \<Longrightarrow>
     log_step k s (s\<lparr>lg := l, ldev := write_head l (ldev s), stage := Emptied\<rparr>)"
| finishes: "stage s = Emptied \<Longrightarrow> log_step k s (s\<lparr>lg := (lg s)\<lparr>committing := False\<rparr>, stage := Quiet\<rparr>)"

section \<open>What the log promises\<close>

definition reserved :: "nat list \<Rightarrow> nat" where
  "reserved cs = sum_list (map (\<lambda>c. MAXOPBLOCKS - c) cs)"

text \<open>After \<^verbatim>\<open>initlog\<close>; and what holds from then on.\<close>

definition log_start :: "lsys_log \<Rightarrow> bool" where
  "log_start s \<longleftrightarrow> outstanding (lg s) = 0 \<and> \<not> committing (lg s) \<and> lh (lg s) = [] \<and> ops s = [] \<and> stage s = Quiet"

definition log_inv :: "nat \<Rightarrow> int \<Rightarrow> lsys_log \<Rightarrow> bool" where
  "log_inv k sz s \<longleftrightarrow> outstanding (lg s) = int (length (ops s)) \<and> (committing (lg s) \<longleftrightarrow> stage s \<noteq> Quiet) \<and>
     l_size (lg s) = sz \<and> distinct (lh (lg s)) \<and> (\<forall>c \<in> set (ops s). c \<le> k) \<and>
     length (lh (lg s)) + reserved (ops s) \<le> LOGSIZE \<and> (stage s \<noteq> Quiet \<longrightarrow> ops s = []) \<and>
     (ops s = [] \<and> stage s \<in> {Quiet, Emptied} \<longrightarrow> lh (lg s) = [])"

text \<open>
  The number of blocks a transaction can have: \<^verbatim>\<open>log_write\<close> panics at \<^verbatim>\<open>LOGSIZE\<close> blocks and when the log area, which also
  holds the header, is full. A block in the log's own area, and the home contents that recovery brings about.\<close>

definition log_cap :: "log \<Rightarrow> nat" where
  "log_cap l = min LOGSIZE (nat (l_size l) - 1)"

definition in_log :: "log \<Rightarrow> u32 \<Rightarrow> bool" where
  "in_log l b \<longleftrightarrow> (\<exists>i \<le> log_cap l. b = l_start l + of_nat i)"

definition logged :: "log \<Rightarrow> (u32 \<Rightarrow> bytes) \<Rightarrow> u32 list" where
  "logged l dsk = map (head_block (dsk (l_start l))) [0..<nat (head_n (dsk (l_start l)))]"

definition log_slot :: "log \<Rightarrow> nat \<Rightarrow> u32" where
  "log_slot l i = l_start l + of_nat i + 1"

definition recovered :: "log \<Rightarrow> (u32 \<Rightarrow> bytes) \<Rightarrow> u32 \<Rightarrow> bytes" where
  "recovered l dsk b =
     (case find_index (\<lambda>x. x = b) (logged l dsk) of
        None \<Rightarrow> dsk b
      | Some i \<Rightarrow> dsk (log_slot l i))"

definition log_disk_ok :: "log \<Rightarrow> (u32 \<Rightarrow> bytes) \<Rightarrow> bool" where
  "log_disk_ok l dsk \<longleftrightarrow> head_n (dsk (l_start l)) \<le> int (log_cap l) \<and>
     distinct (logged l dsk) \<and> (\<forall>b \<in> set (logged l dsk). \<not> in_log l b)"

definition trans_ok :: "log \<Rightarrow> bool" where
  "trans_ok l \<longleftrightarrow> length (lh l) \<le> log_cap l \<and> distinct (lh l) \<and> (\<forall>b \<in> set (lh l). \<not> in_log l b)"

section \<open>Lemmas\<close>

lemma head_put_blocks:
  "get32 (put_blocks bs i blk) 0 = get32 blk 0"
  "get32 (put_blocks bs i blk) (4 + 4 * j) =
     (if i \<le> j \<and> j < i + length bs then bs ! (j - i) else get32 blk (4 + 4 * j))"
proof (induction bs arbitrary: i blk)
  case (Cons b bs)
  {
    case 1
    then show ?case using Cons(1) [of "Suc i" "put32 (4 + 4 * i) b blk"] by (simp add: get_put_other)
  next
    case 2
    have "get32 (put32 (4 + 4 * i) b blk) (4 + 4 * j) = (if j = i then b else get32 blk (4 + 4 * j))"
    proof (cases "j = i")
      case False
      then have "4 + 4 * i + 4 \<le> 4 + 4 * j \<or> 4 + 4 * j + 4 \<le> 4 + 4 * i" by linarith
      then show ?thesis using get_put_other(2) [of "4 + 4 * i" "4 + 4 * j" b blk] False by simp
    qed simp
    then show ?case using Cons(2) [of "Suc i" "put32 (4 + 4 * i) b blk"]
      by (auto simp: nth_Cons' Suc_diff_le split: if_splits)
  }
qed auto

lemma head_written:
  fixes blk :: bytes
  assumes "length bs \<le> LOGSIZE"
  defines "hb \<equiv> put_blocks bs 0 (put32 0 (of_nat (length bs)) blk)"
  shows "head_n hb = int (length bs)" "map (head_block hb) [0..<nat (head_n hb)] = bs"
proof -
  have "length bs < 2 ^ 31" using assms(1) by (simp add: LOGSIZE_def MAXOPBLOCKS_def)
  then show n: "head_n hb = int (length bs)"
    by (simp add: head_n_def hb_def head_put_blocks sint_of_nat_int)
  show "map (head_block hb) [0..<nat (head_n hb)] = bs"
    unfolding n by (rule nth_equalityI) (simp_all add: head_block_def hb_def head_put_blocks)
qed

subsection \<open>The log area\<close>

lemma log_cap_le: "log_cap l \<le> LOGSIZE"
  by (simp add: log_cap_def)

lemma small_word: "i \<le> log_cap l \<Longrightarrow> unat (of_nat i :: u32) = i"
  using log_cap_le [of l] by (simp add: unat_of_nat LOGSIZE_def MAXOPBLOCKS_def)

lemma log_slot_simps:
  assumes "i < log_cap l"
  shows "in_log l (log_slot l i)" "log_slot l i \<noteq> l_start l"
    "j < log_cap l \<Longrightarrow> log_slot l i = log_slot l j \<longleftrightarrow> i = j"
proof -
  have e: "log_slot l i = l_start l + of_nat (Suc i)" for i by (simp add: log_slot_def algebra_simps)
  show "in_log l (log_slot l i)" unfolding in_log_def e using assms Suc_leI by blast
  have "unat (of_nat (Suc i) :: u32) \<noteq> 0" using small_word [of "Suc i" l] assms by simp
  then show "log_slot l i \<noteq> l_start l" unfolding e by (auto simp del: of_nat_Suc)
  show "log_slot l i = log_slot l j \<longleftrightarrow> i = j" if "j < log_cap l"
    unfolding e using small_word [of "Suc i" l] small_word [of "Suc j" l] assms that
    by (metis Suc_inject Suc_leI add_left_cancel)
qed

lemma start_in_log [simp]: "in_log l (l_start l)"
  by (auto simp: in_log_def intro: exI [of _ 0])

lemma log_cap_lh [simp]: "log_cap (l\<lparr>lh := bs\<rparr>) = log_cap l"
  by (simp add: log_cap_def)

lemma in_log_lh [simp]: "in_log (l\<lparr>lh := bs\<rparr>) b = in_log l b" "log_slot (l\<lparr>lh := bs\<rparr>) = log_slot l"
  "logged (l\<lparr>lh := bs\<rparr>) dsk = logged l dsk"
  by (simp_all add: in_log_def log_slot_def logged_def fun_eq_iff)

lemma recovered_lh [simp]: "recovered (l\<lparr>lh := bs\<rparr>) dsk = recovered l dsk" "log_disk_ok (l\<lparr>lh := bs\<rparr>) dsk = log_disk_ok l dsk"
  by (auto simp: recovered_def log_disk_ok_def fun_eq_iff split: option.split)

subsection \<open>Sequences of disk writes\<close>

definition did :: "(u32 \<times> bytes) list \<Rightarrow> bdev \<Rightarrow> bdev \<Rightarrow> bool" where
  "did ws d d' \<longleftrightarrow> bwrites d' = bwrites d @ ws \<and> bdisk d' = apply_writes ws (bdisk d)"

lemma did_refl: "did [] d d" and did_trans: "did ws d d1 \<Longrightarrow> did ws' d1 d2 \<Longrightarrow> did (ws @ ws') d d2"
  by (simp_all add: did_def apply_writes_append)

definition throughout :: "((u32 \<Rightarrow> bytes) \<Rightarrow> bool) \<Rightarrow> (u32 \<times> bytes) list \<Rightarrow> (u32 \<Rightarrow> bytes) \<Rightarrow> bool" where
  "throughout P ws dsk \<longleftrightarrow> (\<forall>k \<le> length ws. P (apply_writes (take k ws) dsk))"

lemma throughout_Nil [simp]: "throughout P [] dsk \<longleftrightarrow> P dsk"
  by (simp add: throughout_def)

lemma throughout_Cons [simp]:
  "throughout P (w # ws) dsk \<longleftrightarrow> P dsk \<and> throughout P ws (dsk(fst w := snd w))"
proof
  assume a: "throughout P (w # ws) dsk"
  have "P (apply_writes (take k ws) (dsk(fst w := snd w)))" if "k \<le> length ws" for k
    using a that unfolding throughout_def by (metis Suc_le_mono apply_writes_simps(2) length_Cons take_Suc_Cons)
  moreover have "P dsk" using a unfolding throughout_def by (metis apply_writes_simps(1) le0 take0)
  ultimately show "P dsk \<and> throughout P ws (dsk(fst w := snd w))" by (simp add: throughout_def)
next
  assume a: "P dsk \<and> throughout P ws (dsk(fst w := snd w))"
  show "throughout P (w # ws) dsk"
    unfolding throughout_def
  proof (intro allI impI)
    fix k assume "k \<le> length (w # ws)"
    then show "P (apply_writes (take k (w # ws)) dsk)" using a by (cases k) (auto simp: throughout_def)
  qed
qed

lemma throughout_append:
  "throughout P xs dsk \<Longrightarrow> throughout P ys (apply_writes xs dsk) \<Longrightarrow> throughout P (xs @ ys) dsk"
  by (induction xs arbitrary: dsk) auto

lemma throughout_mono: "throughout P ws dsk \<Longrightarrow> (\<And>x. P x \<Longrightarrow> Q x) \<Longrightarrow> throughout Q ws dsk"
  by (simp add: throughout_def)

subsection \<open>The writes of the two copying loops\<close>

primrec copy_writes :: "u32 list \<Rightarrow> nat \<Rightarrow> log \<Rightarrow> (u32 \<Rightarrow> bytes) \<Rightarrow> (u32 \<times> bytes) list" where
  "copy_writes [] tail l v = []"
| "copy_writes (b # bs) tail l v = (log_slot l tail, v b) # copy_writes bs (Suc tail) l v"

primrec home_writes :: "u32 list \<Rightarrow> nat \<Rightarrow> log \<Rightarrow> (u32 \<Rightarrow> bytes) \<Rightarrow> (u32 \<times> bytes) list" where
  "home_writes [] tail l v = []"
| "home_writes (b # bs) tail l v = (b, v (log_slot l tail)) # home_writes bs (Suc tail) l v"

lemma copy_writes_cong: "(\<And>b. b \<in> set bs \<Longrightarrow> v b = v' b) \<Longrightarrow> copy_writes bs tail l v = copy_writes bs tail l v'"
  by (induction bs arbitrary: tail) auto

lemma home_writes_cong:
  "(\<And>i. i < length bs \<Longrightarrow> v (log_slot l (tail + i)) = v' (log_slot l (tail + i))) \<Longrightarrow>
   home_writes bs tail l v = home_writes bs tail l v'"
proof (induction bs arbitrary: tail)
  case (Cons b bs)
  from Cons.prems [of 0] have "v (log_slot l tail) = v' (log_slot l tail)" by simp
  moreover have "v (log_slot l (Suc tail + i)) = v' (log_slot l (Suc tail + i))" if "i < length bs" for i
    using Cons.prems [of "Suc i"] that by simp
  ultimately show ?case using Cons.IH by simp
qed simp

lemma write_log_loop_did:
  assumes "\<forall>b \<in> set bs. \<not> in_log l b" "tail + length bs \<le> log_cap l"
  shows "did (copy_writes bs tail l (bview d)) d (write_log_loop bs tail l d) \<and>
    bpins (write_log_loop bs tail l d) = bpins d \<and>
    (\<forall>b. \<not> in_log l b \<longrightarrow> bview (write_log_loop bs tail l d) b = bview d b) \<and>
    (\<forall>i < tail. bview (write_log_loop bs tail l d) (log_slot l i) = bview d (log_slot l i)) \<and>
    (\<forall>i < length bs. bview (write_log_loop bs tail l d) (log_slot l (tail + i)) = bview d (bs ! i))"
  using assms
proof (induction bs arbitrary: tail d)
  case Nil
  then show ?case by (simp add: did_refl)
next
  case (Cons b bs)
  define s where "s = log_slot l tail"
  define d1 where "d1 = bwrite_block s (bmodify s (bview d b) d)"
  have t: "tail < log_cap l" using Cons.prems(2) by simp
  note L = log_slot_simps [OF t, folded s_def]
  have step: "write_log_loop (b # bs) tail l d = write_log_loop bs (Suc tail) l d1"
    by (simp add: Let_def log_slot_def d1_def s_def)
  have d1: "did [(s, bview d b)] d d1" "bpins d1 = bpins d" "bview d1 s = bview d b"
    "\<And>x. x \<noteq> s \<Longrightarrow> bview d1 x = bview d x" by (simp_all add: did_def d1_def)
  have v: "bview d1 x = bview d x" if "\<not> in_log l x" for x using that L(1) by (intro d1(4)) blast
  have p: "\<forall>b \<in> set bs. \<not> in_log l b" "Suc tail + length bs \<le> log_cap l" using Cons.prems by simp_all
  note I = Cons.IH [OF p, of d1]
  have "copy_writes bs (Suc tail) l (bview d1) = copy_writes bs (Suc tail) l (bview d)"
    by (rule copy_writes_cong) (use v p(1) in auto)
  then have did: "did (copy_writes (b # bs) tail l (bview d)) d (write_log_loop (b # bs) tail l d)"
    using did_trans [OF d1(1)] I step s_def by simp
  have slots: "bview (write_log_loop (b # bs) tail l d) (log_slot l (tail + i)) = bview d ((b # bs) ! i)"
    if "i < length (b # bs)" for i
  proof (cases i)
    case 0
    have "bview (write_log_loop bs (Suc tail) l d1) s = bview d1 s" using I s_def by blast
    then show ?thesis using 0 step d1(3) s_def by simp
  next
    case (Suc j)
    then have j: "\<not> in_log l (bs ! j)" "j < length bs" using Cons.prems(1) that by auto
    have "bview (write_log_loop bs (Suc tail) l d1) (log_slot l (Suc tail + j)) = bview d1 (bs ! j)" using I j(2) by blast
    then show ?thesis using step v [OF j(1)] Suc by simp
  qed
  have low: "bview (write_log_loop (b # bs) tail l d) (log_slot l i) = bview d (log_slot l i)" if "i < tail" for i
  proof -
    have "log_slot l i \<noteq> s" using L(3) [of i] that t by auto
    then show ?thesis using I that step d1(4) by simp
  qed
  show ?case using did slots low I step v d1(2) by auto
qed

lemma install_loop_did:
  assumes "\<forall>b \<in> set bs. \<not> in_log l b" "distinct bs" "tail + length bs \<le> log_cap l"
  shows "did (home_writes bs tail l (bview d)) d (install_loop bs tail recovering l d) \<and>
    (\<forall>b. b \<notin> set bs \<longrightarrow> bview (install_loop bs tail recovering l d) b = bview d b) \<and>
    (\<forall>i < length bs. bview (install_loop bs tail recovering l d) (bs ! i) = bview d (log_slot l (tail + i))) \<and>
    (\<forall>b. bpins (install_loop bs tail recovering l d) b = (if b \<in> set bs \<and> \<not> recovering then bpins d b - 1 else bpins d b))"
  using assms
proof (induction bs arbitrary: tail d)
  case Nil
  then show ?case by (simp add: did_refl)
next
  case (Cons b bs)
  define v where "v = bview d (log_slot l tail)"
  define d0 where "d0 = bwrite_block b (bmodify b v d)"
  define d1 where "d1 = (if recovering then d0 else bunpin_block b d0)"
  have step: "install_loop (b # bs) tail recovering l d = install_loop bs (Suc tail) recovering l d1"
    by (simp add: Let_def log_slot_def d1_def d0_def v_def)
  have d1: "did [(b, v)] d d1" "bview d1 b = v" "\<And>x. x \<noteq> b \<Longrightarrow> bview d1 x = bview d x"
    "\<And>x. bpins d1 x = (if x = b \<and> \<not> recovering then bpins d x - 1 else bpins d x)"
    by (simp_all add: did_def d1_def d0_def)
  have p: "\<forall>b \<in> set bs. \<not> in_log l b" "distinct bs" "Suc tail + length bs \<le> log_cap l" using Cons.prems by simp_all
  note I = Cons.IH [OF p, of d1]
  have slot: "bview d1 (log_slot l (Suc tail + i)) = bview d (log_slot l (Suc tail + i))" if "i < length bs" for i
    using log_slot_simps(1) [of "Suc tail + i" l] that Cons.prems(1) p(3) by (intro d1(3)) auto
  have "home_writes bs (Suc tail) l (bview d1) = home_writes bs (Suc tail) l (bview d)"
    by (rule home_writes_cong) (rule slot)
  then have did: "did (home_writes (b # bs) tail l (bview d)) d (install_loop (b # bs) tail recovering l d)"
    using did_trans [OF d1(1)] I step v_def by simp
  have b: "b \<notin> set bs" using Cons.prems(2) by simp
  have slots: "bview (install_loop (b # bs) tail recovering l d) ((b # bs) ! i) = bview d (log_slot l (tail + i))"
    if "i < length (b # bs)" for i
  proof (cases i)
    case 0
    then show ?thesis using I b step d1(2) v_def by simp
  next
    case (Suc j)
    then show ?thesis using I that step slot [of j] by simp
  qed
  show ?case using did slots I step d1(3,4) b by auto
qed

subsection \<open>Crash points\<close>

text \<open>A disk from which recovery brings about the home contents \<open>target\<close>.\<close>

definition holds_for :: "log \<Rightarrow> (u32 \<Rightarrow> bytes) \<Rightarrow> (u32 \<Rightarrow> bytes) \<Rightarrow> bool" where
  "holds_for l target dsk \<longleftrightarrow> log_disk_ok l dsk \<and> (\<forall>b. \<not> in_log l b \<longrightarrow> recovered l dsk b = target b)"

lemma holds_for_clear:
  assumes "head_n (dsk (l_start l)) = 0" "\<And>b. \<not> in_log l b \<Longrightarrow> dsk b = target b"
  shows "holds_for l target dsk"
  using assms by (simp add: holds_for_def log_disk_ok_def recovered_def logged_def)

lemma length_logged: "length (logged l dsk) = nat (head_n (dsk (l_start l)))"
  by (simp add: logged_def)

lemma throughout_copy:
  assumes "head_n (dsk (l_start l)) = 0" "\<forall>b. \<not> in_log l b \<longrightarrow> dsk b = target b" "tail + length bs \<le> log_cap l"
  shows "throughout (holds_for l target) (copy_writes bs tail l v) dsk \<and>
    (\<forall>b. (\<forall>i. tail \<le> i \<and> i < tail + length bs \<longrightarrow> b \<noteq> log_slot l i) \<longrightarrow> apply_writes (copy_writes bs tail l v) dsk b = dsk b) \<and>
    (\<forall>i < length bs. apply_writes (copy_writes bs tail l v) dsk (log_slot l (tail + i)) = v (bs ! i))"
  using assms
proof (induction bs arbitrary: tail dsk)
  case Nil
  then show ?case using holds_for_clear by simp
next
  case (Cons b bs)
  have t: "tail < log_cap l" using Cons.prems(3) by simp
  note L = log_slot_simps [OF t]
  define dsk1 where "dsk1 = dsk(log_slot l tail := v b)"
  have p: "head_n (dsk1 (l_start l)) = 0" "\<forall>b. \<not> in_log l b \<longrightarrow> dsk1 b = target b" "Suc tail + length bs \<le> log_cap l"
    using Cons.prems L by (auto simp: dsk1_def)
  note I = Cons.IH [OF p]
  have h: "holds_for l target dsk" using Cons.prems holds_for_clear by simp
  have w: "copy_writes (b # bs) tail l v = (log_slot l tail, v b) # copy_writes bs (Suc tail) l v" by simp
  have ap: "apply_writes (copy_writes (b # bs) tail l v) dsk = apply_writes (copy_writes bs (Suc tail) l v) dsk1"
    by (simp add: dsk1_def)
  have "log_slot l tail \<noteq> log_slot l i" if "Suc tail \<le> i" "i < Suc tail + length bs" for i
    using L(3) [of i] that Cons.prems(3) by auto
  moreover have d: "dsk1 (log_slot l tail) = v b" "\<And>x. x \<noteq> log_slot l tail \<Longrightarrow> dsk1 x = dsk x"
    by (simp_all add: dsk1_def)
  ultimately have first: "apply_writes (copy_writes bs (Suc tail) l v) dsk1 (log_slot l tail) = v b"
    using I by simp
  have slots: "apply_writes (copy_writes (b # bs) tail l v) dsk (log_slot l (tail + i)) = v ((b # bs) ! i)"
    if "i < length (b # bs)" for i
    using that first I ap by (cases i) auto
  have other: "apply_writes (copy_writes (b # bs) tail l v) dsk x = dsk x"
    if "\<forall>i. tail \<le> i \<and> i < tail + length (b # bs) \<longrightarrow> x \<noteq> log_slot l i" for x
  proof -
    have "apply_writes (copy_writes bs (Suc tail) l v) dsk1 x = dsk1 x" using I that by simp
    moreover have "x \<noteq> log_slot l tail" using that by simp
    ultimately show ?thesis using ap d(2) by simp
  qed
  have "throughout (holds_for l target) (copy_writes (b # bs) tail l v) dsk"
    using I [THEN conjunct1] h by (simp add: dsk1_def [symmetric])
  then show ?case using slots other by blast
qed

lemma recovered_logged:
  assumes "logged l dsk = bs"
  shows "recovered l dsk b = (if b \<in> set bs then dsk (log_slot l (the (find_index (\<lambda>x. x = b) bs))) else dsk b)"
proof (cases "find_index (\<lambda>x. x = b) bs")
  case None
  then have "b \<notin> set bs" by (auto simp: find_index_None)
  then show ?thesis using None assms by (simp add: recovered_def)
next
  case (Some i)
  then have "b \<in> set bs" by (auto simp: find_index_Some)
  then show ?thesis using Some assms by (simp add: recovered_def)
qed

lemma head_commits:
  assumes "trans_ok l" "\<forall>i < length (lh l). dsk (log_slot l i) = v (lh l ! i)"
    and "head_n hb = int (length (lh l))" "map (head_block hb) [0..<nat (head_n hb)] = lh l"
  shows "holds_for l (\<lambda>b. if b \<in> set (lh l) then v b else dsk b) (dsk(l_start l := hb))"
    and "logged l (dsk(l_start l := hb)) = lh l"
proof -
  let ?d = "dsk(l_start l := hb)"
  show lg: "logged l ?d = lh l" using assms(4) by (simp add: logged_def)
  have "recovered l ?d b = (if b \<in> set (lh l) then v b else dsk b)" if "\<not> in_log l b" for b
  proof (cases "b \<in> set (lh l)")
    case True
    then obtain i where i: "find_index (\<lambda>x. x = b) (lh l) = Some i" by (cases "find_index (\<lambda>x. x = b) (lh l)") (auto simp: find_index_None)
    then have "i < length (lh l)" "lh l ! i = b" by (auto simp: find_index_Some)
    moreover from this have "log_slot l i \<noteq> l_start l" using log_slot_simps(2) assms(1) by (auto simp: trans_ok_def)
    ultimately show ?thesis using recovered_logged [OF lg] True i assms(2) by simp
  next
    case False
    have "b \<noteq> l_start l" using that by auto
    then show ?thesis using recovered_logged [OF lg] False by simp
  qed
  then show "holds_for l (\<lambda>b. if b \<in> set (lh l) then v b else dsk b) ?d"
    using assms(1,3) lg by (simp add: holds_for_def log_disk_ok_def trans_ok_def)
qed

lemma throughout_home:
  assumes "holds_for l target dsk" "set bs \<subseteq> set (logged l dsk)"
  shows "throughout (holds_for l target) (home_writes bs tail l v) dsk"
  using assms
proof (induction bs arbitrary: tail dsk)
  case (Cons b bs)
  define dsk1 where "dsk1 = dsk(b := v (log_slot l tail))"
  have b: "b \<in> set (logged l dsk)" "\<not> in_log l b" using Cons.prems by (auto simp: holds_for_def log_disk_ok_def)
  have ns: "b \<noteq> l_start l" using b(2) by auto
  then have lg: "logged l dsk1 = logged l dsk" "dsk1 (l_start l) = dsk (l_start l)" by (simp_all add: logged_def dsk1_def)
  have "recovered l dsk1 x = recovered l dsk x" for x
  proof (cases "x \<in> set (logged l dsk)")
    case True
    then obtain i where i: "find_index (\<lambda>y. y = x) (logged l dsk) = Some i"
      by (cases "find_index (\<lambda>y. y = x) (logged l dsk)") (auto simp: find_index_None)
    then have "i < length (logged l dsk)" by (auto simp: find_index_Some)
    then have "i < log_cap l" using Cons.prems(1) by (auto simp: holds_for_def log_disk_ok_def logged_def)
    then have "log_slot l i \<noteq> b" using log_slot_simps(1) b(2) by metis
    then show ?thesis using recovered_logged [OF lg(1)] recovered_logged [OF refl] True i by (simp add: dsk1_def)
  next
    case False
    then have "x \<noteq> b" using b(1) by auto
    then show ?thesis using recovered_logged [OF lg(1)] recovered_logged [OF refl] False by (simp add: dsk1_def)
  qed
  then have h: "holds_for l target dsk1" using Cons.prems(1) lg by (simp add: holds_for_def log_disk_ok_def)
  have "throughout (holds_for l target) (home_writes bs (Suc tail) l v) dsk1"
    using Cons.IH [OF h] Cons.prems(2) lg(1) by simp
  then show ?case using Cons.prems(1) by (simp add: dsk1_def [symmetric])
qed simp

lemma apply_home_writes:
  assumes "distinct bs"
  shows "(\<forall>i < length bs. apply_writes (home_writes bs tail l v) dsk (bs ! i) = v (log_slot l (tail + i))) \<and>
    (\<forall>b. b \<notin> set bs \<longrightarrow> apply_writes (home_writes bs tail l v) dsk b = dsk b)"
  using assms
proof (induction bs arbitrary: tail dsk)
  case (Cons b bs)
  define dsk1 where "dsk1 = dsk(b := v (log_slot l tail))"
  have ap: "apply_writes (home_writes (b # bs) tail l v) dsk = apply_writes (home_writes bs (Suc tail) l v) dsk1"
    by (simp add: dsk1_def)
  have I: "\<forall>i < length bs. apply_writes (home_writes bs (Suc tail) l v) dsk1 (bs ! i) = v (log_slot l (Suc tail + i))"
    "\<forall>b. b \<notin> set bs \<longrightarrow> apply_writes (home_writes bs (Suc tail) l v) dsk1 b = dsk1 b"
    using Cons.IH [of "Suc tail" dsk1] Cons.prems by simp_all
  have "apply_writes (home_writes (b # bs) tail l v) dsk ((b # bs) ! i) = v (log_slot l (tail + i))" if "i < length (b # bs)" for i
    using I Cons.prems that unfolding ap by (cases i) (simp_all add: dsk1_def)
  moreover have "apply_writes (home_writes (b # bs) tail l v) dsk x = dsk x" if "x \<notin> set (b # bs)" for x
    using I(2) that unfolding ap by (simp add: dsk1_def)
  ultimately show ?case by blast
qed simp

subsection \<open>Commit and recovery\<close>

definition head_of :: "log \<Rightarrow> bdev \<Rightarrow> bytes" where
  "head_of l d = put_blocks (lh l) 0 (put32 0 (of_nat (length (lh l))) (bview d (l_start l)))"

lemma write_head_did: "did [(l_start l, head_of l d)] d (write_head l d)"
  "bview (write_head l d) = (bview d)(l_start l := head_of l d)" "bpins (write_head l d) = bpins d"
  by (simp_all add: write_head_def did_def head_of_def Let_def)

lemma head_of_empty: "head_n (head_of (l\<lparr>lh := []\<rparr>) d) = 0"
  using head_written [of "[]"] by (simp add: head_of_def)

lemma install_and_clear:
  assumes "holds_for l target (bdisk d)" "logged l (bdisk d) = lh l"
    and "\<forall>i < length (lh l). bview d (log_slot l i) = bdisk d (log_slot l i)"
    and "l' = l\<lparr>lh := []\<rparr>" "d' = write_head l' (install_trans recovering l d)"
  shows "\<exists>ws. did ws d d' \<and> throughout (holds_for l target) ws (bdisk d) \<and>
    (\<forall>b. \<not> in_log l b \<longrightarrow> bdisk d' b = target b) \<and> head_n (bdisk d' (l_start l)) = 0 \<and>
    (\<forall>b. bpins d' b = (if b \<in> set (lh l) \<and> \<not> recovering then bpins d b - 1 else bpins d b)) \<and>
    (\<forall>b. \<not> in_log l b \<longrightarrow> bview d' b = (if b \<in> set (lh l) then target b else bview d b))"
proof -
  let ?bs = "lh l"
  let ?ws = "home_writes ?bs 0 l (bview d)"
  define d1 where "d1 = install_trans recovering l d"
  have ok: "\<forall>b \<in> set ?bs. \<not> in_log l b" "distinct ?bs" "0 + length ?bs \<le> log_cap l"
    using assms(1) length_logged [of l "bdisk d"] by (auto simp: holds_for_def log_disk_ok_def assms(2))
  note I = install_loop_did [OF ok, of d recovering, folded install_trans_def d1_def, simplified]
  have t1: "throughout (holds_for l target) ?ws (bdisk d)"
    by (rule throughout_home [OF assms(1)]) (simp add: assms(2))
  have dd1: "bdisk d1 = apply_writes ?ws (bdisk d)" using I by (simp add: did_def)
  have tgt: "target b = bdisk d (log_slot l i)" if "i < length ?bs" "?bs ! i = b" for i b
  proof -
    have "b \<in> set ?bs" using that by auto
    then obtain j where j: "find_index (\<lambda>x. x = b) ?bs = Some j" by (cases "find_index (\<lambda>x. x = b) ?bs") (auto simp: find_index_None)
    then have "j < length ?bs" "?bs ! j = b" by (auto simp: find_index_Some)
    then have "j = i" using ok(2) that by (metis nth_eq_iff_index_eq)
    then show ?thesis using recovered_logged [OF assms(2), of b] \<open>b \<in> set ?bs\<close> j assms(1) ok(1)
      by (auto simp: holds_for_def)
  qed
  have home: "bdisk d1 b = target b" if "\<not> in_log l b" for b
  proof (cases "b \<in> set ?bs")
    case True
    then obtain i where i: "i < length ?bs" "?bs ! i = b" by (auto simp: in_set_conv_nth)
    then show ?thesis unfolding dd1 using apply_home_writes [OF ok(2), of 0 l "bview d" "bdisk d"] assms(3) tgt [OF i] by auto
  next
    case False
    then have "bdisk d1 b = bdisk d b" unfolding dd1 using apply_home_writes [OF ok(2)] by blast
    also have "\<dots> = target b"
      using recovered_logged [OF assms(2), of b] False that assms(1) by (auto simp: holds_for_def)
    finally show ?thesis .
  qed
  let ?w = "(l_start l, head_of l' d1)"
  have W: "did [?w] d1 d'" "bview d' = (bview d1)(l_start l := head_of l' d1)" "bpins d' = bpins d1"
    using write_head_did [of l' d1] assms(4,5) d1_def by simp_all
  have d': "bdisk d' = (bdisk d1)(l_start l := head_of l' d1)" using W(1) by (simp add: did_def)
  have h0: "head_n (bdisk d' (l_start l)) = 0" using head_of_empty assms(4) d' by simp
  have home': "bdisk d' b = target b" if "\<not> in_log l b" for b using home [OF that] d' that by auto
  have "holds_for l target (bdisk d')" by (rule holds_for_clear) (use h0 home' in simp_all)
  moreover have "holds_for l target (bdisk d1)" using t1 dd1 unfolding throughout_def by (metis order_refl take_all)
  ultimately have "throughout (holds_for l target) [?w] (bdisk d1)" using d' by simp
  then have "throughout (holds_for l target) (?ws @ [?w]) (bdisk d)" using throughout_append [OF t1] dd1 by simp
  moreover have "did (?ws @ [?w]) d d'" using did_trans [of ?ws d d1] I W(1) by blast
  moreover have "bview d' b = (if b \<in> set ?bs then target b else bview d b)" if "\<not> in_log l b" for b
  proof -
    have "b \<noteq> l_start l" using that by auto
    then have "bview d' b = bview d1 b" using W(2) by simp
    then show ?thesis using I tgt assms(3) by (auto simp: in_set_conv_nth)
  qed
  ultimately show ?thesis using home' h0 I W(3) by auto
qed

lemma copy_home: "\<not> in_log l b \<Longrightarrow> tail + length bs \<le> log_cap l \<Longrightarrow>
  head_n (dsk (l_start l)) = 0 \<Longrightarrow> apply_writes (copy_writes bs tail l v) dsk b = dsk b"
  using throughout_copy [of dsk l dsk tail bs v] log_slot_simps(1) by (metis order_less_le_trans)

lemma length_copy_writes [simp]: "length (copy_writes bs tail l v) = length bs"
  by (induction bs arbitrary: tail) auto

lemma commit_crash:
  assumes ok: "trans_ok l" "lh l \<noteq> []" and clear: "head_n (bdisk d (l_start l)) = 0"
    and clean: "\<forall>b. b \<notin> set (lh l) \<and> \<not> in_log l b \<longrightarrow> bview d b = bdisk d b" and c: "commit l d = (l', d')"
  shows "\<exists>ws. did ws d d' \<and>
    (\<forall>k \<le> length ws. holds_for l (if k \<le> length (lh l) then bdisk d else bview d) (apply_writes (take k ws) (bdisk d))) \<and>
    (\<forall>b. \<not> in_log l b \<longrightarrow> bdisk d' b = bview d b \<and> bview d' b = bview d b) \<and>
    head_n (bdisk d' (l_start l)) = 0 \<and> l' = l\<lparr>lh := []\<rparr> \<and>
    (\<forall>b. bpins d' b = (if b \<in> set (lh l) then bpins d b - 1 else bpins d b))"
proof -
  let ?bs = "lh l"
  define ws1 where "ws1 = copy_writes ?bs 0 l (bview d)"
  define d1 where "d1 = write_log l d"
  define hb where "hb = head_of l d1"
  define d2 where "d2 = write_head l d1"
  have len: "0 + length ?bs \<le> log_cap l" and out: "\<forall>b \<in> set ?bs. \<not> in_log l b" using ok(1) by (auto simp: trans_ok_def)
  note W = write_log_loop_did [OF out len, of d, folded write_log_def d1_def ws1_def, simplified]
  note C = throughout_copy [where dsk = "bdisk d" and l = l and target = "bdisk d" and v = "bview d" and tail = 0 and bs = "lh l",
      OF clear _ len, folded ws1_def, simplified]
  have dd1: "bdisk d1 = apply_writes ws1 (bdisk d)" using W by (simp add: did_def)
  have slots: "\<forall>i < length ?bs. bdisk d1 (log_slot l i) = bview d (?bs ! i)" using C dd1 by simp
  have home1: "bdisk d1 b = bdisk d b" if "\<not> in_log l b" for b
    unfolding dd1 ws1_def using that len clear by (rule copy_home)
  have H: "head_n hb = int (length ?bs)" "map (head_block hb) [0..<nat (head_n hb)] = ?bs"
    using head_written [of ?bs] len log_cap_le [of l] by (simp_all add: hb_def head_of_def)
  have W2: "did [(l_start l, hb)] d1 d2" "bview d2 = (bview d1)(l_start l := hb)" "bpins d2 = bpins d1"
    using write_head_did [of l d1] by (simp_all add: d2_def hb_def)
  have dd2: "bdisk d2 = (bdisk d1)(l_start l := hb)" using W2(1) by (simp add: did_def)
  have new: "(if b \<in> set ?bs then bview d b else bdisk d1 b) = bview d b" if "\<not> in_log l b" for b
    using home1 [OF that] clean that by auto
  note HC = head_commits [OF ok(1) slots H, folded dd2]
  have h2: "holds_for l (bview d) (bdisk d2)" using HC(1) new by (simp add: holds_for_def)
  have v2: "\<forall>i < length ?bs. bview d2 (log_slot l i) = bdisk d2 (log_slot l i)"
  proof (intro allI impI)
    fix i assume i: "i < length ?bs"
    then have "log_slot l i \<noteq> l_start l" using log_slot_simps(2) len by auto
    then show "bview d2 (log_slot l i) = bdisk d2 (log_slot l i)" using W2(2) dd2 slots W i by simp
  qed
  have "commit l d = (l\<lparr>lh := []\<rparr>, write_head (l\<lparr>lh := []\<rparr>) (install_trans False l d2))"
    using ok(2) by (simp add: commit_def d1_def d2_def Let_def)
  then have d': "l' = l\<lparr>lh := []\<rparr>" "d' = write_head l' (install_trans False l d2)" using c by auto
  from install_and_clear [OF h2 HC(2) v2 d'] obtain ws3 where
    ws3: "did ws3 d2 d'" "throughout (holds_for l (bview d)) ws3 (bdisk d2)"
      "\<forall>b. \<not> in_log l b \<longrightarrow> bdisk d' b = bview d b" "head_n (bdisk d' (l_start l)) = 0"
      "\<forall>b. bpins d' b = (if b \<in> set ?bs then bpins d2 b - 1 else bpins d2 b)"
      "\<forall>b. \<not> in_log l b \<longrightarrow> bview d' b = (if b \<in> set ?bs then bview d b else bview d2 b)" by auto
  let ?ws = "ws1 @ [(l_start l, hb)] @ ws3"
  have did: "did ?ws d d'" using did_trans [OF _ did_trans [OF W2(1) ws3(1)]] W by blast
  have n: "length ws1 = length ?bs" by (simp add: ws1_def)
  have "holds_for l (if k \<le> length ?bs then bdisk d else bview d) (apply_writes (take k ?ws) (bdisk d))" if "k \<le> length ?ws" for k
  proof (cases "k \<le> length ?bs")
    case True
    then have "take k ?ws = take k ws1" using n by simp
    then show ?thesis using C True n by (simp add: throughout_def)
  next
    case False
    then obtain j where j: "k = length ?bs + Suc j" by (metis add_Suc_right less_imp_Suc_add not_le)
    then have "take k ?ws = ws1 @ [(l_start l, hb)] @ take j ws3" using n by simp
    then have "apply_writes (take k ?ws) (bdisk d) = apply_writes (take j ws3) (bdisk d2)"
      using dd1 dd2 by (simp add: apply_writes_append)
    moreover have "j \<le> length ws3" using that j n by simp
    ultimately show ?thesis using ws3(2) False by (simp add: throughout_def)
  qed
  moreover have "bview d' b = bview d b" if "\<not> in_log l b" for b
  proof -
    have "b \<noteq> l_start l" using that by auto
    then show ?thesis using ws3(6) W2(2) W that by simp
  qed
  ultimately show ?thesis using did ws3(3,4,5) d'(1) W W2(3) by (intro exI [of _ ?ws]) simp
qed

lemma recovery:
  assumes "holds_for l target dsk" "l_start l0 = l_start l" "l_size l0 = l_size l"
  shows "\<exists>l' d' ws. recover_from_log l0 (after_crash dsk) = Ok (l', d') \<and> did ws (after_crash dsk) d' \<and>
    throughout (holds_for l target) ws dsk \<and> lh l' = [] \<and> head_n (bdisk d' (l_start l)) = 0 \<and>
    (\<forall>b. \<not> in_log l b \<longrightarrow> bdisk d' b = target b)"
proof -
  let ?d = "after_crash dsk"
  define l1 where "l1 = l0\<lparr>lh := logged l dsk\<rparr>"
  have n: "head_n (dsk (l_start l)) \<le> int LOGSIZE" using assms(1) log_cap_le [of l] by (simp add: holds_for_def log_disk_ok_def)
  have same: "in_log l1 b = in_log l b" "log_slot l1 = log_slot l" "logged l1 x = logged l x" "recovered l1 x = recovered l x"
    "log_disk_ok l1 x = log_disk_ok l x" for b x
    using assms(2,3) by (auto simp: l1_def in_log_def log_cap_def log_slot_def logged_def recovered_def log_disk_ok_def fun_eq_iff split: option.split)
  have hf: "holds_for l1 = holds_for l" by (simp add: holds_for_def same fun_eq_iff)
  have r: "read_head l0 ?d = Ok l1"
    using n assms(2) by (simp add: read_head_def l1_def logged_def Let_def)
  let ?l' = "l1\<lparr>lh := []\<rparr>"
  let ?d' = "write_head ?l' (install_trans True l1 ?d)"
  have "recover_from_log l0 ?d = Ok (?l', ?d')" by (simp add: recover_from_log_def r Let_def)
  moreover from install_and_clear [of l1 target ?d ?l' ?d' True] assms hf same
  obtain ws where "did ws ?d ?d'" "throughout (holds_for l target) ws dsk"
    "\<forall>b. \<not> in_log l b \<longrightarrow> bdisk ?d' b = target b" "head_n (bdisk ?d' (l_start l)) = 0"
    by (auto simp: l1_def)
  ultimately show ?thesis by auto
qed

subsection \<open>Room in the log\<close>

lemma reserved_simps [simp]: "reserved [] = 0" "reserved (c # cs) = MAXOPBLOCKS - c + reserved cs"
  "reserved (xs @ ys) = reserved xs + reserved ys"
  by (simp_all add: reserved_def)

lemma reserved_le: "reserved cs \<le> length cs * MAXOPBLOCKS"
  by (induction cs) auto

lemma reserved_split: "i < length cs \<Longrightarrow> reserved cs = reserved (take i cs) + (MAXOPBLOCKS - cs ! i) + reserved (drop (Suc i) cs)"
  by (subst id_take_nth_drop [of i cs]) simp_all

lemma commit_lh: "commit l d = (l', d') \<Longrightarrow> l' = l\<lparr>lh := []\<rparr>"
  by (auto simp: commit_def Let_def split: if_splits)

text \<open>Each call leaves \<open>MAXOPBLOCKS - k\<close> of its reservation unused, which is the room an absorbed write needs.\<close>

lemma log_write_room:
  assumes "log_inv k (l_size (lg s)) s" "i < length (ops s)" "k < MAXOPBLOCKS"
    and "int LOGSIZE + 1 < l_size (lg s) + int (MAXOPBLOCKS - k)"
  shows "log_write b (lg s) (ldev s) = (if b \<in> set (lh (lg s)) then Ok (lg s, ldev s)
    else Ok ((lg s)\<lparr>lh := lh (lg s) @ [b]\<rparr>, bpin_block b (ldev s)))"
proof -
  have "ops s ! i \<le> k" using assms(1,2) by (auto simp: log_inv_def)
  then have "MAXOPBLOCKS - k \<le> reserved (ops s)" using reserved_split [OF assms(2)] by simp
  then have "length (lh (lg s)) + (MAXOPBLOCKS - k) \<le> LOGSIZE" using assms(1) by (auto simp: log_inv_def)
  then have "length (lh (lg s)) < LOGSIZE" "int (length (lh (lg s))) < l_size (lg s) - 1" using assms(3,4) by linarith+
  moreover have "outstanding (lg s) \<ge> 1" using assms(1,2) by (auto simp: log_inv_def)
  ultimately show ?thesis by (simp add: log_write_def)
qed

lemma end_op_enter_runs:
  assumes "log_inv k sz s" "ops s \<noteq> []"
  shows "end_op_enter (lg s) = Ok (length (ops s) = 1,
    (lg s)\<lparr>outstanding := int (length (ops s)) - 1, committing := (length (ops s) = 1)\<rparr>)"
proof -
  have "\<not> committing (lg s)" "outstanding (lg s) = int (length (ops s))" using assms by (auto simp: log_inv_def)
  then show ?thesis by (cases "length (ops s) = 1") (auto simp: end_op_enter_def Let_def)
qed

lemma starts_inv:
  assumes "begin_op (lg s) = Some l" "log_inv k sz s"
  shows "log_inv k sz (s\<lparr>lg := l, ops := ops s @ [0]\<rparr>)"
proof -
  have l: "l = (lg s)\<lparr>outstanding := outstanding (lg s) + 1\<rparr>" "\<not> committing (lg s)"
    and room: "int (length (lh (lg s))) + (outstanding (lg s) + 1) * int MAXOPBLOCKS \<le> int LOGSIZE"
    using assms(1) by (auto simp: begin_op_def split: if_splits)
  have "outstanding (lg s) = int (length (ops s))" using assms(2) by (simp add: log_inv_def)
  then have "int (length (lh (lg s)) + Suc (length (ops s)) * MAXOPBLOCKS) \<le> int LOGSIZE"
    using room by (simp add: algebra_simps)
  then have "length (lh (lg s)) + Suc (length (ops s)) * MAXOPBLOCKS \<le> LOGSIZE" by (simp only: of_nat_le_iff)
  then show ?thesis using assms(2) l reserved_le [of "ops s"] by (auto simp: log_inv_def)
qed

lemma logs_inv:
  assumes "log_inv k (l_size (lg s)) s" "i < length (ops s)" "k < MAXOPBLOCKS" "int LOGSIZE + 1 < l_size (lg s) + int (MAXOPBLOCKS - k)"
    and "b \<in> set (lh (lg s)) \<or> ops s ! i < k" "log_write b (lg s) (ldev s) = Ok (l, d)"
  shows "log_inv k (l_size (lg s)) (s\<lparr>lg := l, ldev := d, ops := (ops s)[i := ops s ! i + (if b \<in> set (lh (lg s)) then 0 else 1)]\<rparr>)"
proof (cases "b \<in> set (lh (lg s))")
  case True
  then show ?thesis using assms(1,6) log_write_room [OF assms(1-4), of b] by (simp add: log_inv_def)
next
  case False
  let ?ops = "(ops s)[i := Suc (ops s ! i)]"
  have c: "ops s ! i < k" "ops s ! i < MAXOPBLOCKS" using assms(3,5) False by auto
  have "reserved ?ops = reserved (ops s) - 1"
    using reserved_split [OF assms(2)] reserved_split [of i ?ops] assms(2) c(2) by simp
  moreover have "0 < reserved (ops s)" using reserved_split [OF assms(2)] c(2) by simp
  moreover have "\<forall>c \<in> set ?ops. c \<le> k"
    using assms(1) c(1) set_update_subset_insert [of "ops s" i "Suc (ops s ! i)"] unfolding log_inv_def by fastforce
  moreover have "ops s \<noteq> []" using assms(2) by auto
  ultimately show ?thesis using assms(1,6) log_write_room [OF assms(1-4), of b] False by (auto simp: log_inv_def)
qed

lemma ends_inv:
  assumes "log_inv k sz s" "i < length (ops s)" "end_op_enter (lg s) = Ok (c, l)"
  shows "log_inv k sz (s\<lparr>lg := l, ops := take i (ops s) @ drop (Suc i) (ops s), stage := (if c then Decided else stage s)\<rparr>)"
proof -
  define cs where "cs = take i (ops s) @ drop (Suc i) (ops s)"
  have ne: "ops s \<noteq> []" using assms(2) by auto
  note e = end_op_enter_runs [OF assms(1) ne]
  have cs: "length (ops s) = Suc (length cs)" "reserved cs \<le> reserved (ops s)" "set cs \<subseteq> set (ops s)"
    using assms(2) reserved_split [OF assms(2)] by (auto simp: cs_def dest: in_set_takeD in_set_dropD)
  have st: "stage s = Quiet" using assms(1) ne by (auto simp: log_inv_def)
  show ?thesis using assms(1,3) e cs st unfolding cs_def [symmetric]
    by (cases "cs = []") (auto simp: log_inv_def)
qed

lemma log_step_inv:
  assumes "log_step k s s'" "log_inv k (l_size (lg s)) s" "k < MAXOPBLOCKS" "int LOGSIZE + 1 < l_size (lg s) + int (MAXOPBLOCKS - k)"
  shows "log_inv k (l_size (lg s)) s'"
  using assms(1)
proof cases
  case (starts l)
  then show ?thesis using starts_inv assms(2) by blast
next
  case (logs i b l d)
  then show ?thesis using logs_inv [OF assms(2) _ assms(3,4)] by blast
next
  case (ends i c l)
  then show ?thesis using ends_inv [OF assms(2)] by blast
qed (use assms(2) in \<open>auto simp: log_inv_def\<close>)

text \<open>Run alone, the pieces of \<^verbatim>\<open>end_op\<close> are the function.\<close>

lemma end_op_steps:
  assumes "ops s = [c]" "outstanding (lg s) = 1" "\<not> committing (lg s)" "end_op (lg s) (ldev s) = Ok (l, d)"
  shows "(log_step k)\<^sup>*\<^sup>* s (s\<lparr>ops := [], lg := l, ldev := d, stage := Quiet\<rparr>)"
proof -
  define l1 where "l1 = (lg s)\<lparr>outstanding := 0, committing := True\<rparr>"
  have e: "end_op_enter (lg s) = Ok (True, l1)" using assms(2,3) by (simp add: end_op_enter_def l1_def Let_def)
  let ?s1 = "s\<lparr>lg := l1, ops := [], stage := Decided\<rparr>"
  have 1: "log_step k s ?s1" using log_step.ends [of 0 s, OF _ e] assms(1) by simp
  show ?thesis
  proof (cases "lh l1 = []")
    case True
    then have ld: "l = l1\<lparr>committing := False\<rparr>" "d = ldev s" using assms(4) e by (simp_all add: end_op_def commit_def)
    have "log_step k ?s1 (?s1\<lparr>stage := Emptied\<rparr>)" using log_step.nothing [of ?s1] True by simp
    moreover have "log_step k (?s1\<lparr>stage := Emptied\<rparr>) (?s1\<lparr>lg := l, ldev := d, stage := Quiet\<rparr>)"
      using log_step.finishes [of "?s1\<lparr>stage := Emptied\<rparr>" k] by (simp add: ld)
    ultimately have "(log_step k)\<^sup>*\<^sup>* s (?s1\<lparr>lg := l, ldev := d, stage := Quiet\<rparr>)" using 1 by auto
    then show ?thesis by simp
  next
    case False
    let ?d1 = "write_log l1 (ldev s)" and ?l2 = "l1\<lparr>lh := []\<rparr>"
    let ?d2 = "write_head l1 ?d1"
    let ?d3 = "install_trans False l1 ?d2"
    have ld: "l = ?l2\<lparr>committing := False\<rparr>" "d = write_head ?l2 ?d3"
      using assms(4) e False by (auto simp: end_op_def commit_def Let_def)
    have "log_step k ?s1 (?s1\<lparr>ldev := ?d1, stage := Copied\<rparr>)" using log_step.copies [of ?s1] False by simp
    moreover have "log_step k (?s1\<lparr>ldev := ?d1, stage := Copied\<rparr>) (?s1\<lparr>ldev := ?d2, stage := Recorded\<rparr>)"
      using log_step.records [of "?s1\<lparr>ldev := ?d1, stage := Copied\<rparr>" k] by simp
    moreover have "log_step k (?s1\<lparr>ldev := ?d2, stage := Recorded\<rparr>) (?s1\<lparr>ldev := ?d3, stage := Installed\<rparr>)"
      using log_step.installs [of "?s1\<lparr>ldev := ?d2, stage := Recorded\<rparr>" k] by simp
    moreover have "log_step k (?s1\<lparr>ldev := ?d3, stage := Installed\<rparr>) (?s1\<lparr>lg := ?l2, ldev := d, stage := Emptied\<rparr>)"
      using log_step.clears [of "?s1\<lparr>ldev := ?d3, stage := Installed\<rparr>" _ k] by (simp add: ld(2))
    moreover have "log_step k (?s1\<lparr>lg := ?l2, ldev := d, stage := Emptied\<rparr>) (?s1\<lparr>ldev := d, lg := l, stage := Quiet\<rparr>)"
      using log_step.finishes [of "?s1\<lparr>lg := ?l2, ldev := d, stage := Emptied\<rparr>" k] by (simp add: ld(1))
    ultimately have "(log_step k)\<^sup>*\<^sup>* s (?s1\<lparr>ldev := d, lg := l, stage := Quiet\<rparr>)" using 1
      by (meson converse_rtranclp_into_rtranclp rtranclp.rtrancl_refl)
    moreover have "?s1\<lparr>ldev := d, lg := l, stage := Quiet\<rparr> = s\<lparr>ops := [], lg := l, ldev := d, stage := Quiet\<rparr>"
      by (rule lsys_log.equality) simp_all
    ultimately show ?thesis by metis
  qed
qed

text \<open>
  The log \<^verbatim>\<open>mkfs\<close> makes has \<^verbatim>\<open>LOGSIZE\<close> blocks, header included: three calls of ten blocks each are admitted and the
  thirtieth block panics.
\<close>

lemma log_of_LOGSIZE_panics:
  assumes "l_size l = int LOGSIZE" "length (lh l) = LOGSIZE - 1"
  shows "log_write b l d = Panic ''too big a transaction''"
    "\<not> committing l' \<Longrightarrow> lh l' = [] \<Longrightarrow> outstanding l' \<le> 2 \<Longrightarrow> begin_op l' = Some (l'\<lparr>outstanding := outstanding l' + 1\<rparr>)"
  using assms by (simp_all add: log_write_def begin_op_def LOGSIZE_def MAXOPBLOCKS_def)

section \<open>Properties\<close>

text \<open>
  C3. Crash safety of \<^verbatim>\<open>commit\<close>: let a crash stop it after any number \<open>k\<close> of its disk writes. Recovery then
  returns, and every block outside the log area is as before the transaction if \<open>k\<close> is at most the
  number of logged blocks, and as the transaction left it otherwise; never a mixture. The log is
  empty again. Without a crash the disk ends up with the transaction's contents.
\<close>

theorem commit_is_atomic:
  assumes "trans_ok l" "lh l \<noteq> []" "head_n (bdisk d (l_start l)) = 0" "bwrites d = []"
    and "\<forall>b. b \<notin> set (lh l) \<and> \<not> in_log l b \<longrightarrow> bview d b = bdisk d b" "commit l d = (l', d')"
  shows "(\<forall>k \<le> length (bwrites d'). \<exists>l2 d2.
      recover_from_log l (after_crash (apply_writes (take k (bwrites d')) (bdisk d))) = Ok (l2, d2) \<and>
      (\<forall>b. \<not> in_log l b \<longrightarrow> bdisk d2 b = (if k \<le> length (lh l) then bdisk d b else bview d b)) \<and>
      head_n (bdisk d2 (l_start l)) = 0) \<and>
    (\<forall>b. \<not> in_log l b \<longrightarrow> bdisk d' b = bview d b)"
proof -
  obtain ws where ws: "did ws d d'"
    "\<forall>k \<le> length ws. holds_for l (if k \<le> length (lh l) then bdisk d else bview d) (apply_writes (take k ws) (bdisk d))"
    "\<forall>b. \<not> in_log l b \<longrightarrow> bdisk d' b = bview d b \<and> bview d' b = bview d b"
    using commit_crash [OF assms(1-3,5,6)] by blast
  have w: "bwrites d' = ws" using ws(1) assms(4) by (simp add: did_def)
  have "\<exists>l2 d2. recover_from_log l (after_crash (apply_writes (take k ws) (bdisk d))) = Ok (l2, d2) \<and>
      (\<forall>b. \<not> in_log l b \<longrightarrow> bdisk d2 b = (if k \<le> length (lh l) then bdisk d b else bview d b)) \<and>
      head_n (bdisk d2 (l_start l)) = 0" if "k \<le> length ws" for k
    using recovery [OF ws(2) [rule_format, OF that] refl] by (auto split: if_splits)
  then show ?thesis using ws(3) w by blast
qed

definition sample_log :: log where
  "sample_log = \<lparr>l_start = 2, l_size = 30, outstanding = 0, committing = True, lh = [100, 101]\<rparr>"

definition sample_dev :: bdev where
  "sample_dev = \<lparr>bview = (\<lambda>b. if b = 100 \<or> b = 101 then (\<lambda>_. 7) else (\<lambda>_. 0)), bdisk = (\<lambda>_ _. 0), bpins = (\<lambda>_. 0), bwrites = []\<rparr>"

lemma head_zero: "head_n (\<lambda>_. 0) = 0"
  by (simp add: head_n_def get32_def eval_nat_numeral)

lemma sample_log_area: "unat b > 32 \<Longrightarrow> \<not> in_log sample_log b"
proof
  assume b: "unat b > 32" "in_log sample_log b"
  then obtain i where i: "i \<le> 29" "b = 2 + of_nat i" by (auto simp: in_log_def log_cap_def sample_log_def LOGSIZE_def MAXOPBLOCKS_def)
  then have "unat b = 2 + i" by (simp add: unat_word_ariths unat_of_nat)
  then show False using b(1) i(1) by simp
qed

theorem commit_is_atomic_witness:
  "\<exists>l' d' l2 d2. commit sample_log sample_dev = (l', d') \<and>
    recover_from_log sample_log (after_crash (apply_writes (take 0 (bwrites d')) (bdisk sample_dev))) = Ok (l2, d2) \<and>
    bdisk d2 100 = (\<lambda>_. 0) \<and> bdisk d' 100 = (\<lambda>_. 7)"
proof -
  obtain l' d' where c: "commit sample_log sample_dev = (l', d')" by (cases "commit sample_log sample_dev")
  have out: "\<not> in_log sample_log 100" "\<not> in_log sample_log 101" by (rule sample_log_area, simp)+
  have p: "trans_ok sample_log" "lh sample_log \<noteq> []" "head_n (bdisk sample_dev (l_start sample_log)) = 0" "bwrites sample_dev = []"
    "\<forall>b. b \<notin> set (lh sample_log) \<and> \<not> in_log sample_log b \<longrightarrow> bview sample_dev b = bdisk sample_dev b"
    using out by (simp_all add: trans_ok_def log_cap_def LOGSIZE_def MAXOPBLOCKS_def sample_dev_def head_zero sample_log_def)
  have "0 \<le> length (bwrites d')" by simp
  with commit_is_atomic [OF p c] obtain l2 d2 where
    "recover_from_log sample_log (after_crash (apply_writes (take 0 (bwrites d')) (bdisk sample_dev))) = Ok (l2, d2)"
    "\<forall>b. \<not> in_log sample_log b \<longrightarrow> bdisk d2 b = (if 0 \<le> length (lh sample_log) then bdisk sample_dev b else bview sample_dev b)"
    "\<forall>b. \<not> in_log sample_log b \<longrightarrow> bdisk d' b = bview sample_dev b" by blast
  with out(1) c show ?thesis by (auto simp: sample_dev_def)
qed

text \<open>
  C34. Recovery can itself crash: if recovery from a disk brings about the home contents \<open>target\<close>, then so it
  does from every disk that an interrupted recovery leaves behind.
\<close>

theorem recovery_survives_crashes:
  assumes "holds_for l target dsk" "recover_from_log l (after_crash dsk) = Ok (l', d')" "k \<le> length (bwrites d')"
  shows "\<exists>l2 d2. recover_from_log l (after_crash (apply_writes (take k (bwrites d')) dsk)) = Ok (l2, d2) \<and>
    (\<forall>b. \<not> in_log l b \<longrightarrow> bdisk d2 b = target b)"
proof -
  obtain ws where ws: "did ws (after_crash dsk) d'" "throughout (holds_for l target) ws dsk"
    using recovery [OF assms(1) refl refl] assms(2) by auto
  then have "holds_for l target (apply_writes (take k (bwrites d')) dsk)"
    using assms(3) by (simp add: did_def throughout_def)
  from recovery [OF this refl refl] show ?thesis by auto
qed

theorem recovery_survives_crashes_witness:
  "\<exists>l' d' l2 d2. recover_from_log sample_log (after_crash (\<lambda>_ _. 0)) = Ok (l', d') \<and>
    recover_from_log sample_log (after_crash (apply_writes (take 0 (bwrites d')) (\<lambda>_ _. 0))) = Ok (l2, d2) \<and>
    bdisk d2 100 = (\<lambda>_. 0)"
proof -
  have h: "holds_for sample_log (\<lambda>_ _. 0) (\<lambda>_ _. 0)" by (rule holds_for_clear) (simp_all add: head_zero)
  from recovery [OF h refl refl] obtain l' d' where r: "recover_from_log sample_log (after_crash (\<lambda>_ _. 0)) = Ok (l', d')" by blast
  have "\<not> in_log sample_log 100" by (rule sample_log_area) simp
  then show ?thesis using recovery_survives_crashes [OF h r, of 0] r by fastforce
qed

text \<open>
  C35. The reservation of \<^verbatim>\<open>begin_op\<close> suffices: when every file system call adds at most \<open>k\<close> blocks to the log, with \<open>k\<close> so far
  below \<^verbatim>\<open>MAXOPBLOCKS\<close> that what the calls leave unused makes up for the size of the log (\<open>k\<close> up to 8 for the 30 blocks of
  this repository), no interleaving of calls, with the commit of an \<^verbatim>\<open>end_op\<close> piece by piece in between, makes \<^verbatim>\<open>log_write\<close> or
  \<^verbatim>\<open>end_op\<close> panic; no call is in progress during a commit; the log never holds more than \<^verbatim>\<open>LOGSIZE\<close> blocks, each once;
  and when no call and no commit is in progress, \<^verbatim>\<open>begin_op\<close> lets the next one in.
\<close>

theorem log_space_suffices:
  assumes "log_start s0" "(log_step k)\<^sup>*\<^sup>* s0 s" "k < MAXOPBLOCKS" "int LOGSIZE + 1 < l_size (lg s0) + int (MAXOPBLOCKS - k)"
  shows "(\<forall>i b. i < length (ops s) \<longrightarrow> (\<exists>l d. log_write b (lg s) (ldev s) = Ok (l, d))) \<and>
    (ops s \<noteq> [] \<longrightarrow> (\<exists>c l. end_op_enter (lg s) = Ok (c, l)) \<and> stage s = Quiet) \<and>
    length (lh (lg s)) \<le> LOGSIZE \<and> distinct (lh (lg s)) \<and>
    (ops s = [] \<and> stage s = Quiet \<longrightarrow> begin_op (lg s) \<noteq> None)"
proof -
  have "log_inv k (l_size (lg s0)) s \<and> l_size (lg s) = l_size (lg s0)" using assms(2)
  proof (induction rule: rtranclp_induct)
    case base
    then show ?case using assms(1) by (simp add: log_start_def log_inv_def)
  next
    case (step s s')
    then show ?case using log_step_inv [OF step(2) _ assms(3)] assms(4) by (auto simp: log_inv_def)
  qed
  then have inv: "log_inv k (l_size (lg s)) s" and size: "l_size (lg s) = l_size (lg s0)" by simp_all
  have "\<exists>l d. log_write b (lg s) (ldev s) = Ok (l, d)" if "i < length (ops s)" for i b
    using log_write_room [OF inv that assms(3), of b] assms(4) size by auto
  moreover have "begin_op (lg s) \<noteq> None" if "ops s = []" "stage s = Quiet"
    using inv that by (auto simp: log_inv_def begin_op_def LOGSIZE_def MAXOPBLOCKS_def)
  ultimately show ?thesis using inv end_op_enter_runs [OF inv] by (auto simp: log_inv_def)
qed

theorem log_space_suffices_witness:
  "\<exists>s l d. (log_step 8)\<^sup>*\<^sup>* \<lparr>lg = \<lparr>l_start = 2, l_size = 30, outstanding = 0, committing = False, lh = []\<rparr>,
      ldev = sample_dev, ops = [], stage = Quiet\<rparr> s \<and> ops s = [0] \<and> log_write 100 (lg s) (ldev s) = Ok (l, d)"
proof -
  let ?l = "\<lparr>l_start = 2, l_size = 30, outstanding = 0, committing = False, lh = []\<rparr>"
  let ?s0 = "\<lparr>lg = ?l, ldev = sample_dev, ops = [], stage = Quiet\<rparr>"
  have s0: "log_start ?s0" by (simp add: log_start_def)
  have "begin_op (lg ?s0) = Some (?l\<lparr>outstanding := 1\<rparr>)" by (simp add: begin_op_def LOGSIZE_def MAXOPBLOCKS_def)
  from log_step.starts [OF this] have r: "(log_step 8)\<^sup>*\<^sup>* ?s0 (?s0\<lparr>lg := ?l\<lparr>outstanding := 1\<rparr>, ops := [0]\<rparr>)" by auto
  let ?s = "?s0\<lparr>lg := ?l\<lparr>outstanding := 1\<rparr>, ops := [0]\<rparr>"
  have "\<exists>l d. log_write 100 (lg ?s) (ldev ?s) = Ok (l, d)"
    using conjunct1 [OF log_space_suffices [OF s0 r], rule_format, of 0 100] by (simp add: LOGSIZE_def MAXOPBLOCKS_def)
  with r show ?thesis by (intro exI [of _ ?s]) simp
qed

end
