(* ===== verification/Balloc.thy ===== *)
theory Balloc
  imports Log
begin

text \<open>
  The lowest layer of the file system (\<^verbatim>\<open>kernel/fs.c\<close>): the super block and the allocation of disk blocks. All
  changes go through the log of theory \<^verbatim>\<open>Log\<close>. A read of a block between \<^verbatim>\<open>bread\<close> and \<^verbatim>\<open>brelse\<close> is a look at the
  block layer's view; a change is a store into the buffer followed by \<^verbatim>\<open>log_write\<close>.
\<close>

unbundle bit_operations_syntax

section \<open>Definitions\<close>

definition FSMAGIC :: u32 where "FSMAGIC = 0x10203040"

definition BPB :: nat where "BPB = BSIZE * 8"

record superblock =
  sb_magic :: u32
  sb_size :: u32
  sb_nblocks :: u32
  sb_ninodes :: u32
  sb_nlog :: u32
  sb_logstart :: u32
  sb_inodestart :: u32
  sb_bmapstart :: u32

record fs_state =
  fsb :: superblock
  flog :: log
  fdev :: bdev

abbreviation fview :: "('a fs_state_scheme) \<Rightarrow> u32 \<Rightarrow> bytes" where
  "fview s \<equiv> bview (fdev s)"

definition BBLOCK :: "u32 \<Rightarrow> superblock \<Rightarrow> u32" where
  "BBLOCK b sb = b div of_nat BPB + sb_bmapstart sb"

definition readsb :: "(u32 \<Rightarrow> bytes) \<Rightarrow> superblock" where
  "readsb v = (let f = get32 (v 1) in
     \<lparr>sb_magic = f 0, sb_size = f 4, sb_nblocks = f 8, sb_ninodes = f 12, sb_nlog = f 16, sb_logstart = f 20,
      sb_inodestart = f 24, sb_bmapstart = f 28\<rparr>)"

definition fsinit :: "('a fs_state_scheme) \<Rightarrow> ('a fs_state_scheme) res" where
  "fsinit s =
     (let sb = readsb (fview s) in
      if sb_magic sb \<noteq> FSMAGIC then Panic ''invalid file system''
      else rbind (initlog (sb_logstart sb) (sb_nlog sb) (flog s) (fdev s)) (\<lambda>(l, d).
        Ok (s\<lparr>fsb := sb, flog := l, fdev := d\<rparr>)))"

text \<open>\<^verbatim>\<open>bread\<close>, a store into the buffer's data, \<^verbatim>\<open>log_write\<close> and \<^verbatim>\<open>brelse\<close>.\<close>

definition log_block :: "u32 \<Rightarrow> bytes \<Rightarrow> ('a fs_state_scheme) \<Rightarrow> ('a fs_state_scheme) res" where
  "log_block n v s =
     rbind (log_write n (flog s) (bmodify n v (fdev s))) (\<lambda>(l, d). Ok (s\<lparr>flog := l, fdev := d\<rparr>))"

definition bzero :: "u32 \<Rightarrow> ('a fs_state_scheme) \<Rightarrow> ('a fs_state_scheme) res" where
  "bzero bno s = log_block bno (\<lambda>i. if i < BSIZE then 0 else fview s bno i) s"

definition in_use :: "bytes \<Rightarrow> nat \<Rightarrow> bool" where
  "in_use data bi \<longleftrightarrow> data (bi div 8) AND push_bit (bi mod 8) 1 \<noteq> 0"

definition mark :: "nat \<Rightarrow> bytes \<Rightarrow> bytes" where
  "mark bi data = data(bi div 8 := data (bi div 8) OR push_bit (bi mod 8) 1)"

definition unmark :: "nat \<Rightarrow> bytes \<Rightarrow> bytes" where
  "unmark bi data = data(bi div 8 := data (bi div 8) AND NOT (push_bit (bi mod 8) 1))"

text \<open>The inner loop of \<^verbatim>\<open>balloc\<close>: the first free bit of a bitmap block from \<open>bi\<close> on.\<close>

function balloc_bit :: "bytes \<Rightarrow> nat \<Rightarrow> nat \<Rightarrow> nat \<Rightarrow> nat option" where
  "balloc_bit data sz b bi =
     (if bi < BPB \<and> b + bi < sz
      then if \<not> in_use data bi then Some bi else balloc_bit data sz b (bi + 1)
      else None)"
  by pat_completeness auto

termination balloc_bit
  by (relation "measure (\<lambda>(data, sz, b, bi). BPB - bi)") auto

function balloc_loop :: "nat \<Rightarrow> ('a fs_state_scheme) \<Rightarrow> (u32 \<times> ('a fs_state_scheme)) res" where
  "balloc_loop b s =
     (if b < unat (sb_size (fsb s))
      then let bno = BBLOCK (of_nat b) (fsb s) in
        case balloc_bit (fview s bno) (unat (sb_size (fsb s))) b 0 of
          Some bi \<Rightarrow>
            rbind (log_block bno (mark bi (fview s bno)) s) (\<lambda>s.
              rbind (bzero (of_nat (b + bi)) s) (\<lambda>s. Ok (of_nat (b + bi), s)))
        | None \<Rightarrow> balloc_loop (b + BPB) s
      else Ok (0, s))"
  by pat_completeness auto

termination balloc_loop
  by (relation "measure (\<lambda>(b, s). unat (sb_size (fsb s)) - b)") (auto simp: BPB_def BSIZE_def)

definition balloc :: "('a fs_state_scheme) \<Rightarrow> (u32 \<times> ('a fs_state_scheme)) res" where
  "balloc s = balloc_loop 0 s"

definition bfree :: "u32 \<Rightarrow> ('a fs_state_scheme) \<Rightarrow> ('a fs_state_scheme) res" where
  "bfree b s =
     (let bno = BBLOCK b (fsb s); bi = unat b mod BPB; data = fview s bno in
      if \<not> in_use data bi then Panic ''freeing free block''
      else log_block bno (unmark bi data) s)"

declare balloc_bit.simps [simp del] balloc_loop.simps [simp del]

section \<open>What the layer promises\<close>

text \<open>Whether the free map of a view has a block in use.\<close>

definition used :: "superblock \<Rightarrow> (u32 \<Rightarrow> bytes) \<Rightarrow> u32 \<Rightarrow> bool" where
  "used sb v b \<longleftrightarrow> in_use (v (BBLOCK b sb)) (unat b mod BPB)"

text \<open>Block 0 and the free map itself are in use, and the map is within the disk.\<close>

definition bitmap_ok :: "superblock \<Rightarrow> (u32 \<Rightarrow> bytes) \<Rightarrow> bool" where
  "bitmap_ok sb v \<longleftrightarrow> 0 < sb_size sb \<and> unat (sb_size sb) < 2 ^ 31 \<and> used sb v 0 \<and>
     (\<forall>b < sb_size sb. BBLOCK b sb < sb_size sb \<and> used sb v (BBLOCK b sb))"

text \<open>The log has room for \<open>k\<close> more blocks.\<close>

definition log_room :: "nat \<Rightarrow> ('a fs_state_scheme) \<Rightarrow> bool" where
  "log_room k s \<longleftrightarrow> outstanding (flog s) \<ge> 1 \<and> length (lh (flog s)) + k \<le> LOGSIZE \<and> int (length (lh (flog s)) + k) < l_size (flog s)"

text \<open>
  What happened between two states inside a transaction: at most \<open>k\<close> blocks were added to the log, all of \<open>N\<close>
  and none twice, and only blocks of \<open>N\<close> changed, all of them logged.
\<close>

definition effect :: "nat \<Rightarrow> u32 set \<Rightarrow> ('a fs_state_scheme) \<Rightarrow> ('b fs_state_scheme) \<Rightarrow> bool" where
  "effect k N s s' \<longleftrightarrow> fsb s' = fsb s \<and>
     (\<exists>bs. flog s' = (flog s)\<lparr>lh := lh (flog s) @ bs\<rparr> \<and> length bs \<le> k \<and> set bs \<subseteq> N) \<and>
     (distinct (lh (flog s)) \<longrightarrow> distinct (lh (flog s'))) \<and>
     (\<forall>n. n \<notin> N \<or> n \<notin> set (lh (flog s')) \<longrightarrow> fview s' n = fview s n) \<and>
     bdisk (fdev s') = bdisk (fdev s) \<and> bwrites (fdev s') = bwrites (fdev s)"

section \<open>Lemmas\<close>

subsection \<open>Effects\<close>

lemma effect_refl [intro]: "effect k N s s"
  by (auto simp: effect_def intro!: exI [of _ "[]"])

lemma effect_trans:
  assumes "effect j N s s1" "effect k M s1 s2"
  shows "effect (j + k) (N \<union> M) s s2"
proof -
  obtain bs cs where b: "flog s1 = (flog s)\<lparr>lh := lh (flog s) @ bs\<rparr>" "length bs \<le> j" "set bs \<subseteq> N"
    and c: "flog s2 = (flog s1)\<lparr>lh := lh (flog s1) @ cs\<rparr>" "length cs \<le> k" "set cs \<subseteq> M"
    using assms by (auto simp: effect_def)
  then have "flog s2 = (flog s)\<lparr>lh := lh (flog s) @ (bs @ cs)\<rparr>" by simp
  then show ?thesis using assms b c unfolding effect_def by (intro conjI exI [of _ "bs @ cs"]) auto
qed

lemma effect_mono: "\<lbrakk>effect j N s s'; j \<le> k; N \<subseteq> M\<rbrakk> \<Longrightarrow> effect k M s s'"
  by (fastforce simp: effect_def)

lemma effect_room: "\<lbrakk>effect j N s s'; log_room (j + k) s\<rbrakk> \<Longrightarrow> log_room k s'"
  by (auto simp: effect_def log_room_def)

lemma effect_sel: "effect k N s s' \<Longrightarrow> fsb s' = fsb s" "\<lbrakk>effect k N s s'; n \<notin> N\<rbrakk> \<Longrightarrow> fview s' n = fview s n"
  by (simp_all add: effect_def)

lemma log_block_ok:
  assumes "log_room (Suc k) s"
  obtains s' where "log_block n v s = Ok s'" "effect 1 {n} s s'" "log_room k s'" "fview s' = (fview s)(n := v)"
    "fs_state.more s' = fs_state.more s"
proof -
  let ?d = "bmodify n v (fdev s)" and ?l = "flog s"
  have "length (lh ?l) < LOGSIZE" "int (length (lh ?l)) < l_size ?l - 1" "outstanding ?l \<ge> 1" using assms by (auto simp: log_room_def)
  then have w: "log_write n ?l ?d = (if n \<in> set (lh ?l) then Ok (?l, ?d) else Ok (?l\<lparr>lh := lh ?l @ [n]\<rparr>, bpin_block n ?d))"
    by (simp add: log_write_def)
  define s' where "s' = (if n \<in> set (lh ?l) then s\<lparr>fdev := ?d\<rparr> else s\<lparr>flog := ?l\<lparr>lh := lh ?l @ [n]\<rparr>, fdev := bpin_block n ?d\<rparr>)"
  have ok: "log_block n v s = Ok s'" using w by (auto simp: log_block_def s'_def)
  have e: "effect 1 {n} s s'"
    unfolding effect_def s'_def by (auto intro!: exI [of _ "if n \<in> set (lh ?l) then [] else [n]"])
  have "fview s' = (fview s)(n := v)" "fs_state.more s' = fs_state.more s" by (simp_all add: s'_def)
  then show thesis using that ok e effect_room [OF e, of k] assms by simp
qed

subsection \<open>The free map\<close>

lemma in_use_bit: "in_use data bi \<longleftrightarrow> bit (data (bi div 8)) (bi mod 8)"
  using and_exp_eq_0_iff_not_bit [of "data (bi div 8)" "bi mod 8"] by (simp add: in_use_def push_bit_of_1)

lemma same_bit: "i = j \<longleftrightarrow> i div 8 = j div 8 \<and> i mod 8 = j mod (8::nat)"
  by (metis div_mult_mod_eq)

lemma in_use_mark [simp]: "in_use (mark bi data) j \<longleftrightarrow> j = bi \<or> in_use data j"
  unfolding in_use_bit mark_def same_bit [of j bi] by (auto simp: bit_or_iff bit_exp_iff)

lemma in_use_unmark [simp]: "in_use (unmark bi data) j \<longleftrightarrow> j \<noteq> bi \<and> in_use data j"
  unfolding in_use_bit unmark_def same_bit [of j bi] by (auto simp: bit_and_iff bit_not_iff bit_exp_iff)

lemma balloc_bit_Some:
  "balloc_bit data sz b bi = Some k \<Longrightarrow> bi \<le> k \<and> k < BPB \<and> b + k < sz \<and> \<not> in_use data k \<and> (\<forall>j. bi \<le> j \<and> j < k \<longrightarrow> in_use data j)"
proof (induction data sz b bi rule: balloc_bit.induct)
  case (1 data sz b bi)
  show ?case
  proof (cases "bi < BPB \<and> b + bi < sz \<and> in_use data bi")
    case True
    then have "balloc_bit data sz b (bi + 1) = Some k" using 1(2) by (simp add: balloc_bit.simps [of data sz b bi])
    with 1(1) True have IH: "bi + 1 \<le> k \<and> k < BPB \<and> b + k < sz \<and> \<not> in_use data k \<and> (\<forall>j. bi + 1 \<le> j \<and> j < k \<longrightarrow> in_use data j)" by simp
    have "in_use data j" if "bi \<le> j" "j < k" for j using IH True that by (cases "j = bi") auto
    with IH show ?thesis by simp
  next
    case False
    then show ?thesis using 1(2) by (subst (asm) balloc_bit.simps) (auto split: if_splits)
  qed
qed

lemma balloc_bit_None:
  "\<lbrakk>balloc_bit data sz b bi = None; bi \<le> j; j < BPB; b + j < sz\<rbrakk> \<Longrightarrow> in_use data j"
proof (induction data sz b bi rule: balloc_bit.induct)
  case (1 data sz b bi)
  have "bi < BPB \<and> b + bi < sz" using 1(3-5) by simp
  then show ?case using 1 by (subst (asm) (2) balloc_bit.simps) (cases "j = bi", auto split: if_splits)
qed

lemma BPB_val: "BPB = 8192" by (simp add: BPB_def BSIZE_def)

text \<open>Bitmap blocks by the number of the block they describe.\<close>

lemma BBLOCK_group:
  assumes "b mod BPB = 0" "k < BPB" "b + k < 2 ^ 32"
  shows "BBLOCK (of_nat (b + k)) sb = BBLOCK (of_nat b) sb" "unat (of_nat (b + k) :: u32) mod BPB = k"
proof -
  have u: "unat (of_nat (b + k) :: u32) = b + k" "unat (of_nat b :: u32) = b" "unat (of_nat BPB :: u32) = BPB"
    using assms(3) by (simp_all add: unat_of_nat BPB_val del: of_nat_add of_nat_numeral)
  obtain q where q: "b = BPB * q" using assms(1) by auto
  have "(b + k) div BPB = b div BPB" using assms(2) by (simp add: q)
  then have "(of_nat (b + k) :: u32) div of_nat BPB = of_nat b div of_nat BPB"
    by (simp only: word_unat_eq_iff unat_div u)
  then show "BBLOCK (of_nat (b + k)) sb = BBLOCK (of_nat b) sb" by (simp only: BBLOCK_def)
  show "unat (of_nat (b + k) :: u32) mod BPB = k" using assms(1,2) unfolding u(1) by (simp add: q)
qed

lemma used_group:
  "\<lbrakk>b mod BPB = 0; k < BPB; b + k < 2 ^ 32\<rbrakk> \<Longrightarrow> used sb v (of_nat (b + k)) \<longleftrightarrow> in_use (v (BBLOCK (of_nat b) sb)) k"
  by (simp only: used_def BBLOCK_group)

text \<open>Setting or clearing one bit changes the status of one block.\<close>

lemma div_mod_eq_iff: "x div m = y div m \<Longrightarrow> x mod m = y mod m \<Longrightarrow> x = (y::nat)"
  by (metis div_mult_mod_eq)

lemma BBLOCK_eq: "BBLOCK x sb = BBLOCK y sb \<Longrightarrow> unat x mod BPB = unat y mod BPB \<Longrightarrow> x = y"
proof -
  assume "BBLOCK x sb = BBLOCK y sb" and m: "unat x mod BPB = unat y mod BPB"
  then have "x div 8192 = y div 8192" by (simp add: BBLOCK_def BPB_val)
  then have "unat x div BPB = unat y div BPB" unfolding word_unat_eq_iff unat_div by (simp add: BPB_val)
  from div_mod_eq_iff [OF this m] show "x = y" by (simp add: word_unat_eq_iff)
qed

lemma used_mark:
  assumes "v' (BBLOCK b sb) = mark (unat b mod BPB) (v (BBLOCK b sb))" "BBLOCK x sb \<noteq> BBLOCK b sb \<Longrightarrow> v' (BBLOCK x sb) = v (BBLOCK x sb)"
  shows "used sb v' x \<longleftrightarrow> x = b \<or> used sb v x"
  using assms BBLOCK_eq [of x sb b] unfolding used_def by (cases "BBLOCK x sb = BBLOCK b sb") auto

lemma used_unmark:
  assumes "v' (BBLOCK b sb) = unmark (unat b mod BPB) (v (BBLOCK b sb))" "\<And>n. n \<noteq> BBLOCK b sb \<Longrightarrow> v' n = v n"
  shows "used sb v' x \<longleftrightarrow> x \<noteq> b \<and> used sb v x"
  using assms BBLOCK_eq [of x sb b] unfolding used_def by (cases "BBLOCK x sb = BBLOCK b sb") auto

text \<open>
  What a successful or unsuccessful \<^verbatim>\<open>balloc\<close> does to the view: block \<open>r\<close> is taken and zeroed, or all were in use.
\<close>

definition allocated :: "superblock \<Rightarrow> (u32 \<Rightarrow> bytes) \<Rightarrow> u32 \<Rightarrow> (u32 \<Rightarrow> bytes) \<Rightarrow> bool" where
  "allocated sb v r v' \<longleftrightarrow> 0 < r \<and> r < sb_size sb \<and> \<not> used sb v r \<and>
     (\<forall>b < sb_size sb. used sb v' b \<longleftrightarrow> b = r \<or> used sb v b) \<and> (\<forall>i < BSIZE. v' r i = 0) \<and>
     (\<forall>n. n \<noteq> r \<and> n \<noteq> BBLOCK r sb \<longrightarrow> v' n = v n)"

lemma balloc_take:
  assumes "bitmap_ok (fsb s) (fview s)" "log_room (Suc (Suc k)) s" "r < sb_size (fsb s)" "\<not> used (fsb s) (fview s) r"
  obtains s1 s2 where "log_block (BBLOCK r (fsb s)) (mark (unat r mod BPB) (fview s (BBLOCK r (fsb s)))) s = Ok s1"
    "bzero r s1 = Ok s2" "effect 2 {BBLOCK r (fsb s), r} s s2" "log_room k s2" "fs_state.more s2 = fs_state.more s"
    "allocated (fsb s) (fview s) r (fview s2)"
proof -
  let ?sb = "fsb s" and ?m = "BBLOCK r (fsb s)"
  have ne: "BBLOCK b ?sb \<noteq> r" if "b < sb_size ?sb" for b using assms(1,4) that by (auto simp: bitmap_ok_def)
  obtain s1 where s1: "log_block ?m (mark (unat r mod BPB) (fview s ?m)) s = Ok s1" "effect 1 {?m} s s1" "log_room (Suc k) s1"
    "fview s1 = (fview s)(?m := mark (unat r mod BPB) (fview s ?m))" "fs_state.more s1 = fs_state.more s"
    by (rule log_block_ok [OF assms(2)])
  obtain s2 where s2: "bzero r s1 = Ok s2" "effect 1 {r} s1 s2" "log_room k s2"
    "fview s2 = (fview s1)(r := \<lambda>i. if i < BSIZE then 0 else fview s1 r i)" "fs_state.more s2 = fs_state.more s1"
    unfolding bzero_def by (rule log_block_ok [OF s1(3)])
  have e: "effect 2 {?m, r} s s2" using effect_trans [OF s1(2) s2(2)] by (simp add: insert_commute numeral_2_eq_2)
  have used': "used ?sb (fview s2) b \<longleftrightarrow> b = r \<or> used ?sb (fview s) b" if "b < sb_size ?sb" for b
    by (rule used_mark) (use ne [OF that] ne [OF assms(3)] in \<open>simp_all add: s1(4) s2(4)\<close>)
  have "0 < r" using assms(1,4) by (cases "r = 0") (auto simp: bitmap_ok_def word_greater_zero_iff)
  then have "allocated ?sb (fview s) r (fview s2)" unfolding allocated_def
    using assms(3,4) used' by (auto simp: s1(4) s2(4))
  then show thesis using that s1(1,5) s2 e by simp
qed

lemma balloc_loop_ok:
  assumes "bitmap_ok (fsb s) (fview s)" "log_room (Suc (Suc k)) s" "b mod BPB = 0" "\<And>x. x < b \<Longrightarrow> of_nat x < sb_size (fsb s) \<Longrightarrow> used (fsb s) (fview s) (of_nat x)"
  shows "\<exists>r s'. balloc_loop b s = Ok (r, s') \<and> fs_state.more s' = fs_state.more s \<and>
    (if r = 0 then s' = s \<and> (\<forall>b < sb_size (fsb s). used (fsb s) (fview s) b)
     else effect 2 {BBLOCK r (fsb s), r} s s' \<and> log_room k s' \<and> allocated (fsb s) (fview s) r (fview s'))"
  using assms
proof (induction b s rule: balloc_loop.induct)
  case (1 b s)
  let ?sz = "unat (sb_size (fsb s))" and ?v = "fview s" and ?m = "BBLOCK (of_nat b) (fsb s)"
  have sz: "?sz < 2 ^ 31" using 1(2) by (simp add: bitmap_ok_def)
  show ?case
  proof (cases "b < ?sz")
    case False
    have "used (fsb s) ?v x" if "x < sb_size (fsb s)" for x
      using 1(5) [of "unat x"] that False by (simp add: word_less_nat_alt)
    then show ?thesis using False by (subst balloc_loop.simps) auto
  next
    case True
    show ?thesis
    proof (cases "balloc_bit (?v ?m) ?sz b 0")
      case (Some k')
      note k' = balloc_bit_Some [OF Some]
      define r :: u32 where "r = of_nat (b + k')"
      have lt: "b + k' < 2 ^ 32" using k' sz by simp
      have r: "r < sb_size (fsb s)" using k' lt by (simp add: r_def word_less_nat_alt unat_of_nat del: of_nat_add)
      have g: "BBLOCK r (fsb s) = ?m" "unat r mod BPB = k'" using BBLOCK_group [OF 1(4) _ lt] k' by (simp_all add: r_def del: of_nat_add)
      have free: "\<not> used (fsb s) ?v r" using used_group [OF 1(4) _ lt] k' by (simp add: r_def del: of_nat_add)
      obtain s1 s2 where "log_block ?m (mark k' (?v ?m)) s = Ok s1" "bzero r s1 = Ok s2"
        "effect 2 {BBLOCK r (fsb s), r} s s2" "log_room k s2" "fs_state.more s2 = fs_state.more s" "allocated (fsb s) ?v r (fview s2)"
        using balloc_take [OF 1(2,3) r free] unfolding g by metis
      then show ?thesis using True Some
        by (subst balloc_loop.simps) (auto simp: Let_def r_def [symmetric] allocated_def simp del: of_nat_add)
    next
      case None
      have all: "used (fsb s) ?v (of_nat x)" if x: "x < b + BPB" "of_nat x < sb_size (fsb s)" for x
      proof (cases "x < b")
        case False
        then obtain j where j: "x = b + j" "j < BPB" using x(1) by (metis add_less_cancel_left le_Suc_ex not_less)
        have lt: "b + j < 2 ^ 32" using True sz j(2) by (simp add: BPB_val)
        have "b + j < ?sz" using x(2) lt unfolding j(1) by (simp add: word_less_nat_alt unat_of_nat del: of_nat_add)
        then have "in_use (?v ?m) j" using balloc_bit_None [OF None _ j(2)] by simp
        then show ?thesis using used_group [OF 1(4) j(2) lt] j(1) by simp
      qed (use 1(5) x in auto)
      have "balloc_loop b s = balloc_loop (b + BPB) s" using True None by (subst balloc_loop.simps) (simp add: Let_def)
      then show ?thesis using 1(1) [OF True refl None 1(2,3)] 1(4) all by simp
    qed
  qed
qed

lemma balloc_ok:
  assumes "bitmap_ok (fsb s) (fview s)" "log_room (Suc (Suc k)) s"
  obtains (full) "balloc s = Ok (0, s)" "\<And>b. b < sb_size (fsb s) \<Longrightarrow> used (fsb s) (fview s) b"
  | (taken) r s' where "balloc s = Ok (r, s')" "r \<noteq> 0" "fs_state.more s' = fs_state.more s" "effect 2 {BBLOCK r (fsb s), r} s s'"
      "log_room k s'" "allocated (fsb s) (fview s) r (fview s')"
  using balloc_loop_ok [OF assms, of 0] by (auto simp: balloc_def split: if_splits)

lemma bfree_ok:
  assumes "used (fsb s) (fview s) b" "log_room (Suc k) s"
  obtains s' where "bfree b s = Ok s'" "effect 1 {BBLOCK b (fsb s)} s s'" "log_room k s'" "fs_state.more s' = fs_state.more s"
    "\<And>x. used (fsb s) (fview s') x \<longleftrightarrow> x \<noteq> b \<and> used (fsb s) (fview s) x" "\<And>n. n \<noteq> BBLOCK b (fsb s) \<Longrightarrow> fview s' n = fview s n"
proof -
  let ?m = "BBLOCK b (fsb s)"
  obtain s' where s': "log_block ?m (unmark (unat b mod BPB) (fview s ?m)) s = Ok s'" "effect 1 {?m} s s'" "log_room k s'"
    "fview s' = (fview s)(?m := unmark (unat b mod BPB) (fview s ?m))" "fs_state.more s' = fs_state.more s"
    by (rule log_block_ok [OF assms(2)])
  have "used (fsb s) (fview s') x \<longleftrightarrow> x \<noteq> b \<and> used (fsb s) (fview s) x" for x
    by (rule used_unmark) (simp_all add: s'(4))
  moreover have "bfree b s = Ok s'" using assms(1) s'(1) by (simp add: bfree_def used_def Let_def)
  ultimately show thesis using that s' by simp
qed

lemma bfree_free: "\<not> used (fsb s) (fview s) b \<Longrightarrow> bfree b s = Panic ''freeing free block''"
  by (simp add: bfree_def used_def Let_def)

text \<open>The free map stays in order.\<close>

lemma bitmap_ok_more:
  assumes "bitmap_ok sb v" "\<And>b. b < sb_size sb \<Longrightarrow> used sb v b \<Longrightarrow> used sb v' b"
  shows "bitmap_ok sb v'"
  using assms by (auto simp: bitmap_ok_def word_greater_zero_iff)

lemma allocated_bitmap: "\<lbrakk>allocated sb v r v'; bitmap_ok sb v\<rbrakk> \<Longrightarrow> bitmap_ok sb v'"
  by (rule bitmap_ok_more) (auto simp: allocated_def)

section \<open>Properties\<close>

text \<open>
  C37. \<^verbatim>\<open>balloc\<close> with room in the log for two blocks returns 0, without a change, only if every block is in use;
  otherwise it takes one free block, marks exactly that one in the free map and zeroes it. A \<^verbatim>\<open>bfree\<close> of
  the block then restores the free map, and freeing it again panics.
\<close>

theorem balloc_takes_free_block:
  assumes "bitmap_ok (fsb s) (fview s)" "log_room 3 s"
  shows "\<exists>r s1. balloc s = Ok (r, s1) \<and>
    (if r = 0 then s1 = s \<and> (\<forall>b < sb_size (fsb s). used (fsb s) (fview s) b)
     else allocated (fsb s) (fview s) r (fview s1) \<and>
       (\<exists>s2. bfree r s1 = Ok s2 \<and> (\<forall>b < sb_size (fsb s). used (fsb s) (fview s2) b = used (fsb s) (fview s) b) \<and>
         bfree r s2 = Panic ''freeing free block''))"
proof -
  have "log_room (Suc (Suc 1)) s" using assms(2) by (simp add: numeral_3_eq_3)
  from assms(1) this show ?thesis
  proof (cases rule: balloc_ok)
    case full
    then show ?thesis by auto
  next
    case (taken r s1)
    have sb: "fsb s1 = fsb s" using taken(4) by (rule effect_sel)
    have "r < sb_size (fsb s)" "used (fsb s1) (fview s1) r" using taken(6) sb by (auto simp: allocated_def)
    moreover have "log_room (Suc 0) s1" using taken(5) by simp
    ultimately obtain s2 where s2: "bfree r s1 = Ok s2" "effect 1 {BBLOCK r (fsb s1)} s1 s2"
      "\<And>x. used (fsb s1) (fview s2) x \<longleftrightarrow> x \<noteq> r \<and> used (fsb s1) (fview s1) x"
      by (metis bfree_ok)
    have "fsb s2 = fsb s" using effect_sel(1) [OF s2(2)] sb by simp
    then have "bfree r s2 = Panic ''freeing free block''" using s2(3) sb by (intro bfree_free) simp
    moreover have "used (fsb s) (fview s2) b = used (fsb s) (fview s) b" if "b < sb_size (fsb s)" for b
      using s2(3) [of b] taken(6) that sb by (auto simp: allocated_def)
    ultimately show ?thesis using taken s2(1) by auto
  qed
qed

definition sample_fs :: fs_state where
  "sample_fs = \<lparr>fsb = \<lparr>sb_magic = FSMAGIC, sb_size = 40, sb_nblocks = 36, sb_ninodes = 8, sb_nlog = 0, sb_logstart = 0, sb_inodestart = 2, sb_bmapstart = 3\<rparr>,
     flog = \<lparr>l_start = 100, l_size = 31, outstanding = 1, committing = False, lh = []\<rparr>,
     fdev = after_crash ((\<lambda>_ _. 0)(3 := (\<lambda>_. 0)(0 := 0x0f)))\<rparr>"

lemma sample_fs_ok: "bitmap_ok (fsb sample_fs) (fview sample_fs)" "log_room 3 sample_fs"
proof -
  have m: "BBLOCK b (fsb sample_fs) = 3" if "b < 40" for b
  proof -
    have "unat b < 40" using that by (simp add: word_less_nat_alt)
    then have "unat (b div 8192) = 0" by (simp add: unat_div)
    then have "b div 8192 = 0" by (simp only: unat_eq_zero)
    then show ?thesis by (simp add: BBLOCK_def BPB_val sample_fs_def)
  qed
  then show "bitmap_ok (fsb sample_fs) (fview sample_fs)"
    by (simp add: bitmap_ok_def used_def sample_fs_def in_use_def BPB_val)
  show "log_room 3 sample_fs" by (simp add: log_room_def sample_fs_def LOGSIZE_def MAXOPBLOCKS_def)
qed

theorem balloc_takes_free_block_witness:
  "\<exists>r s1. balloc sample_fs = Ok (r, s1) \<and> r \<noteq> 0 \<and> allocated (fsb sample_fs) (fview sample_fs) r (fview s1)"
proof -
  have "\<not> used (fsb sample_fs) (fview sample_fs) 5" "5 < sb_size (fsb sample_fs)"
    by (simp_all add: used_def sample_fs_def in_use_def BPB_val BBLOCK_def)
  then show ?thesis using balloc_takes_free_block [OF sample_fs_ok] by (auto split: if_splits)
qed

end
