(* ===== verification/Inode.thy ===== *)
theory Inode
  imports Balloc Locks
begin

text \<open>
  Inodes (\<^verbatim>\<open>kernel/fs.c\<close>, \<^verbatim>\<open>kernel/fs.h\<close>, \<^verbatim>\<open>kernel/file.h\<close>): the encoding of inodes in disk blocks, the table of inodes in
  memory with its reference counts and locks, the mapping of a file's blocks and truncation. A pointer to an
  inode is its index in the table. The running process is given by its \<^verbatim>\<open>pid\<close>.
\<close>

section \<open>Definitions\<close>

definition NDIRECT :: nat where "NDIRECT = 12"

definition NINDIRECT :: nat where "NINDIRECT = BSIZE div 4"

definition MAXFILE :: nat where "MAXFILE = NDIRECT + NINDIRECT"

definition NINODE :: nat where "NINODE = 50"

definition IPB :: nat where "IPB = BSIZE div 64"

record dinode =
  d_type :: u16
  d_major :: u16
  d_minor :: u16
  d_nlink :: u16
  d_size :: u32
  d_addrs :: "u32 list"

record inode =
  i_dev :: u32
  i_inum :: u32
  i_ref :: int
  i_lock :: sleeplock
  i_valid :: bool
  i_type :: u16
  i_major :: u16
  i_minor :: u16
  i_nlink :: u16
  i_size :: u32
  i_addrs :: "u32 list"

record fs = fs_state +
  itable :: "inode list"

definition IBLOCK :: "u32 \<Rightarrow> superblock \<Rightarrow> u32" where
  "IBLOCK i sb = i div of_nat IPB + sb_inodestart sb"

text \<open>The \<^verbatim>\<open>struct dinode\<close> at a position of a block.\<close>

definition get_dinode :: "bytes \<Rightarrow> nat \<Rightarrow> dinode" where
  "get_dinode f p =
     \<lparr>d_type = get16 f p, d_major = get16 f (p + 2), d_minor = get16 f (p + 4), d_nlink = get16 f (p + 6),
      d_size = get32 f (p + 8), d_addrs = map (\<lambda>i. get32 f (p + 12 + 4 * i)) [0..<NDIRECT + 1]\<rparr>"

primrec put_addrs :: "u32 list \<Rightarrow> nat \<Rightarrow> bytes \<Rightarrow> bytes" where
  "put_addrs [] p f = f"
| "put_addrs (a # as) p f = put_addrs as (p + 4) (put32 p a f)"

definition put_dinode :: "dinode \<Rightarrow> nat \<Rightarrow> bytes \<Rightarrow> bytes" where
  "put_dinode d p f =
     put_addrs (d_addrs d) (p + 12) (put32 (p + 8) (d_size d) (put16 (p + 6) (d_nlink d)
       (put16 (p + 4) (d_minor d) (put16 (p + 2) (d_major d) (put16 p (d_type d) f)))))"

definition slot :: "u32 \<Rightarrow> nat" where
  "slot inum = 64 * (unat inum mod IPB)"

definition upd_inode :: "nat \<Rightarrow> (inode \<Rightarrow> inode) \<Rightarrow> fs \<Rightarrow> fs" where
  "upd_inode ip f s = s\<lparr>itable := (itable s)[ip := f (itable s ! ip)]\<rparr>"

definition iinit :: "inode list \<Rightarrow> inode list" where
  "iinit tab = map (\<lambda>x. x\<lparr>i_lock := initsleeplock\<rparr>) tab"

subsection \<open>The table\<close>

text \<open>The loop of \<^verbatim>\<open>iget\<close>: the entry of the inode, or else the first free one.\<close>

primrec iget_scan :: "u32 \<Rightarrow> u32 \<Rightarrow> nat \<Rightarrow> nat option \<Rightarrow> inode list \<Rightarrow> nat option \<times> nat option" where
  "iget_scan dv inum i emp [] = (None, emp)"
| "iget_scan dv inum i emp (x # xs) =
     (if i_ref x > 0 \<and> i_dev x = dv \<and> i_inum x = inum then (Some i, emp)
      else iget_scan dv inum (Suc i) (if emp = None \<and> i_ref x = 0 then Some i else emp) xs)"

definition iget :: "u32 \<Rightarrow> u32 \<Rightarrow> fs \<Rightarrow> (nat \<times> fs) res" where
  "iget dv inum s =
     (case iget_scan dv inum 0 None (itable s) of
        (Some ip, _) \<Rightarrow> Ok (ip, upd_inode ip (\<lambda>x. x\<lparr>i_ref := i_ref x + 1\<rparr>) s)
      | (None, Some ip) \<Rightarrow> Ok (ip, upd_inode ip (\<lambda>x. x\<lparr>i_dev := dv, i_inum := inum, i_ref := 1, i_valid := False\<rparr>) s)
      | (None, None) \<Rightarrow> Panic ''iget: no inodes'')"

definition idup :: "nat \<Rightarrow> fs \<Rightarrow> nat \<times> fs" where
  "idup ip s = (ip, upd_inode ip (\<lambda>x. x\<lparr>i_ref := i_ref x + 1\<rparr>) s)"

function ialloc_loop :: "u32 \<Rightarrow> u16 \<Rightarrow> nat \<Rightarrow> fs \<Rightarrow> (nat option \<times> fs) res" where
  "ialloc_loop dv ty inum s =
     (if inum < unat (sb_ninodes (fsb s))
      then let bno = IBLOCK (of_nat inum) (fsb s); data = fview s bno; p = slot (of_nat inum) in
        if get16 data p = 0
        then rbind (log_block bno (put16 p ty (\<lambda>i. if p \<le> i \<and> i < p + 64 then 0 else data i)) s) (\<lambda>s.
          rbind (iget dv (of_nat inum) s) (\<lambda>(ip, s). Ok (Some ip, s)))
        else ialloc_loop dv ty (inum + 1) s
      else Ok (None, s))"
  by pat_completeness auto

termination ialloc_loop
  by (relation "measure (\<lambda>(dv, ty, inum, s). unat (sb_ninodes (fsb s)) - inum)") auto

declare ialloc_loop.simps [simp del]

definition ialloc :: "u32 \<Rightarrow> u16 \<Rightarrow> fs \<Rightarrow> (nat option \<times> fs) res" where
  "ialloc dv ty s = ialloc_loop dv ty 1 s"

definition inode_dinode :: "inode \<Rightarrow> dinode" where
  "inode_dinode x = \<lparr>d_type = i_type x, d_major = i_major x, d_minor = i_minor x, d_nlink = i_nlink x, d_size = i_size x,
     d_addrs = i_addrs x\<rparr>"

definition iupdate :: "nat \<Rightarrow> fs \<Rightarrow> fs res" where
  "iupdate ip s =
     (let x = itable s ! ip; bno = IBLOCK (i_inum x) (fsb s)
      in log_block bno (put_dinode (inode_dinode x) (slot (i_inum x)) (fview s bno)) s)"

definition load_inode :: "dinode \<Rightarrow> inode \<Rightarrow> inode" where
  "load_inode d x = x\<lparr>i_type := d_type d, i_major := d_major d, i_minor := d_minor d, i_nlink := d_nlink d, i_size := d_size d,
     i_addrs := d_addrs d, i_valid := True\<rparr>"

definition ilock :: "int \<Rightarrow> nat \<Rightarrow> fs \<Rightarrow> fs res" where
  "ilock pid ip s =
     (if i_ref (itable s ! ip) < 1 then Panic ''ilock''
      else case acquiresleep pid (i_lock (itable s ! ip)) of
        None \<Rightarrow> Blocked ''inode''
      | Some lk \<Rightarrow>
          let s = upd_inode ip (\<lambda>x. x\<lparr>i_lock := lk\<rparr>) s; x = itable s ! ip in
          if \<not> i_valid x
          then let d = get_dinode (fview s (IBLOCK (i_inum x) (fsb s))) (slot (i_inum x)) in
            if d_type d = 0 then Panic ''ilock: no type'' else Ok (upd_inode ip (load_inode d) s)
          else Ok s)"

definition iunlock :: "int \<Rightarrow> nat \<Rightarrow> fs \<Rightarrow> fs res" where
  "iunlock pid ip s =
     (if \<not> holdingsleep pid (i_lock (itable s ! ip)) \<or> i_ref (itable s ! ip) < 1 then Panic ''iunlock''
      else Ok (upd_inode ip (\<lambda>x. x\<lparr>i_lock := releasesleep_fields (i_lock x)\<rparr>) s))"

subsection \<open>Blocks of a file\<close>

text \<open>The address stored in \<^verbatim>\<open>ip->addrs[i]\<close>, allocated if it is 0.\<close>

definition bmap_addr :: "nat \<Rightarrow> nat \<Rightarrow> fs \<Rightarrow> (u32 \<times> fs) res" where
  "bmap_addr ip i s =
     (let addr = i_addrs (itable s ! ip) ! i in
      if addr = 0
      then rbind (balloc s) (\<lambda>(addr, s).
        if addr = 0 then Ok (0, s)
        else Ok (addr, upd_inode ip (\<lambda>x. x\<lparr>i_addrs := (i_addrs x)[i := addr]\<rparr>) s))
      else Ok (addr, s))"

definition bmap :: "nat \<Rightarrow> nat \<Rightarrow> fs \<Rightarrow> (u32 \<times> fs) res" where
  "bmap ip bn s =
     (if bn < NDIRECT then bmap_addr ip bn s
      else if bn - NDIRECT < NINDIRECT
      then rbind (bmap_addr ip NDIRECT s) (\<lambda>(ind, s).
        if ind = 0 then Ok (0, s)
        else let p = 4 * (bn - NDIRECT); addr = get32 (fview s ind) p in
          if addr = 0
          then rbind (balloc s) (\<lambda>(addr, s).
            if addr \<noteq> 0 then rbind (log_block ind (put32 p addr (fview s ind)) s) (\<lambda>s. Ok (addr, s))
            else Ok (addr, s))
          else Ok (addr, s))
      else Panic ''bmap: out of range'')"

primrec itrunc_direct :: "nat list \<Rightarrow> nat \<Rightarrow> fs \<Rightarrow> fs res" where
  "itrunc_direct [] ip s = Ok s"
| "itrunc_direct (i # is) ip s =
     (let a = i_addrs (itable s ! ip) ! i in
      if a \<noteq> 0
      then rbind (bfree a s) (\<lambda>s. itrunc_direct is ip (upd_inode ip (\<lambda>x. x\<lparr>i_addrs := (i_addrs x)[i := 0]\<rparr>) s))
      else itrunc_direct is ip s)"

primrec itrunc_indirect :: "nat list \<Rightarrow> u32 \<Rightarrow> fs \<Rightarrow> fs res" where
  "itrunc_indirect [] ind s = Ok s"
| "itrunc_indirect (j # js) ind s =
     (let a = get32 (fview s ind) (4 * j) in
      if a \<noteq> 0 then rbind (bfree a s) (itrunc_indirect js ind) else itrunc_indirect js ind s)"

definition itrunc :: "nat \<Rightarrow> fs \<Rightarrow> fs res" where
  "itrunc ip s =
     rbind (itrunc_direct [0..<NDIRECT] ip s) (\<lambda>s.
     rbind (let ind = i_addrs (itable s ! ip) ! NDIRECT in
            if ind \<noteq> 0
            then rbind (itrunc_indirect [0..<NINDIRECT] ind s) (\<lambda>s.
              rbind (bfree ind s) (\<lambda>s. Ok (upd_inode ip (\<lambda>x. x\<lparr>i_addrs := (i_addrs x)[NDIRECT := 0]\<rparr>) s)))
            else Ok s) (\<lambda>s.
     iupdate ip (upd_inode ip (\<lambda>x. x\<lparr>i_size := 0\<rparr>) s)))"

definition iput :: "int \<Rightarrow> nat \<Rightarrow> fs \<Rightarrow> fs res" where
  "iput pid ip s =
     rbind (let x = itable s ! ip in
            if i_ref x = 1 \<and> i_valid x \<and> i_nlink x = 0
            then (case acquiresleep pid (i_lock x) of
                None \<Rightarrow> Blocked ''inode''
              | Some lk \<Rightarrow>
                  rbind (itrunc ip (upd_inode ip (\<lambda>x. x\<lparr>i_lock := lk\<rparr>) s)) (\<lambda>s.
                  rbind (iupdate ip (upd_inode ip (\<lambda>x. x\<lparr>i_type := 0\<rparr>) s)) (\<lambda>s.
                    Ok (upd_inode ip (\<lambda>x. x\<lparr>i_valid := False, i_lock := releasesleep_fields (i_lock x)\<rparr>) s))))
            else Ok s) (\<lambda>s.
       Ok (upd_inode ip (\<lambda>x. x\<lparr>i_ref := i_ref x - 1\<rparr>) s))"

definition iunlockput :: "int \<Rightarrow> nat \<Rightarrow> fs \<Rightarrow> fs res" where
  "iunlockput pid ip s = rbind (iunlock pid ip s) (iput pid ip)"

record stat =
  st_dev :: u32
  st_ino :: u32
  st_type :: u16
  st_nlink :: u16
  st_size :: u64

definition stati :: "nat \<Rightarrow> fs \<Rightarrow> stat" where
  "stati ip s = (let x = itable s ! ip in
     \<lparr>st_dev = i_dev x, st_ino = i_inum x, st_type = i_type x, st_nlink = i_nlink x, st_size = ucast (i_size x)\<rparr>)"

section \<open>Lemmas\<close>

subsection \<open>Inodes on disk\<close>

lemma put_addrs_outside: "i < p \<or> p + 4 * length as \<le> i \<Longrightarrow> put_addrs as p f i = f i"
  by (induction as arbitrary: p f) (auto simp: put_outside)

lemma get32_put_addrs: "i < length as \<Longrightarrow> get32 (put_addrs as p f) (p + 4 * i) = as ! i"
proof (induction as arbitrary: p f i)
  case (Cons a as)
  show ?case
  proof (cases i)
    case 0
    have "get32 (put_addrs as (p + 4) (put32 p a f)) p = get32 (put32 p a f) p"
      by (rule get_cong) (simp add: put_addrs_outside)
    then show ?thesis using 0 by simp
  next
    case (Suc j)
    then show ?thesis using Cons.IH [of j "p + 4"] Cons.prems by (simp add: algebra_simps)
  qed
qed simp

lemma put_dinode_outside: "\<lbrakk>length (d_addrs d) = NDIRECT + 1; i < p \<or> p + 64 \<le> i\<rbrakk> \<Longrightarrow> put_dinode d p f i = f i"
  by (auto simp: put_dinode_def put_addrs_outside put_outside NDIRECT_def)

lemma get_dinode_cong:
  assumes "\<And>i. p \<le> i \<Longrightarrow> i < p + 64 \<Longrightarrow> f i = g i"
  shows "get_dinode f p = get_dinode g p"
proof -
  have "get16 f q = get16 g q" if "p \<le> q" "q + 2 \<le> p + 64" for q using assms that by (intro get_cong) auto
  moreover have "get32 f q = get32 g q" if "p \<le> q" "q + 4 \<le> p + 64" for q using assms that by (intro get_cong) auto
  ultimately show ?thesis by (auto simp: get_dinode_def NDIRECT_def simp del: upt_Suc)
qed

lemma get_put_dinode:
  assumes "length (d_addrs d) = NDIRECT + 1"
  shows "get_dinode (put_dinode d p f) p = d"
proof -
  let ?g = "put32 (p + 8) (d_size d) (put16 (p + 6) (d_nlink d) (put16 (p + 4) (d_minor d) (put16 (p + 2) (d_major d) (put16 p (d_type d) f))))"
  have below: "get16 (put_dinode d p f) q = get16 ?g q" if "q + 2 \<le> p + 12" for q
    unfolding put_dinode_def by (rule get_cong) (use that in \<open>simp add: put_addrs_outside\<close>)
  have at8: "get32 (put_dinode d p f) (p + 8) = get32 ?g (p + 8)"
    unfolding put_dinode_def by (rule get_cong) (simp add: put_addrs_outside)
  have "map (\<lambda>i. get32 (put_dinode d p f) (p + 12 + 4 * i)) [0..<NDIRECT + 1] = d_addrs d"
    unfolding put_dinode_def using assms by (intro nth_equalityI) (simp_all add: get32_put_addrs del: upt_Suc)
  then show ?thesis unfolding get_dinode_def by (simp add: below at8 get_put_other)
qed

lemma slot_apart: "slot i \<noteq> slot j \<Longrightarrow> slot i + 64 \<le> slot j \<or> slot j + 64 \<le> slot i"
  by (auto simp: slot_def)

lemma IPB_val: "IPB = 16" by (simp add: IPB_def BSIZE_def)

lemma IBLOCK_slot_inj: "IBLOCK i sb = IBLOCK j sb \<Longrightarrow> slot i = slot j \<Longrightarrow> i = j"
proof -
  assume "IBLOCK i sb = IBLOCK j sb" and m: "slot i = slot j"
  then have "i div 16 = j div 16" by (simp add: IBLOCK_def IPB_val)
  then have "unat i div 16 = unat j div 16" unfolding word_unat_eq_iff unat_div by simp
  from div_mod_eq_iff [OF this] m show "i = j" by (simp add: word_unat_eq_iff slot_def IPB_val)
qed

text \<open>The inode with a number, as the blocks of a view have it.\<close>

definition disk_inode :: "superblock \<Rightarrow> (u32 \<Rightarrow> bytes) \<Rightarrow> u32 \<Rightarrow> dinode" where
  "disk_inode sb v inum = get_dinode (v (IBLOCK inum sb)) (slot inum)"

lemma disk_inode_put:
  assumes "length (d_addrs d) = NDIRECT + 1" "v' = v(IBLOCK i sb := put_dinode d (slot i) (v (IBLOCK i sb)))"
  shows "disk_inode sb v' j = (if j = i then d else disk_inode sb v j)"
proof (cases "IBLOCK j sb = IBLOCK i sb \<and> j \<noteq> i")
  case True
  then have "slot j \<noteq> slot i" using IBLOCK_slot_inj by blast
  then have "get_dinode (put_dinode d (slot i) (v (IBLOCK i sb))) (slot j) = get_dinode (v (IBLOCK i sb)) (slot j)"
    using slot_apart [of j i] by (intro get_dinode_cong put_dinode_outside [OF assms(1)]) auto
  then show ?thesis using True by (simp add: disk_inode_def assms(2))
next
  case False
  then show ?thesis by (auto simp: disk_inode_def assms get_put_dinode)
qed

subsection \<open>Updates of the table\<close>

lemma more_itable: "fs_state.more s' = fs_state.more s \<Longrightarrow> itable s' = itable (s :: fs)"
  by (cases s; cases s') simp

lemma upd_inode_sel [simp]:
  "fsb (upd_inode ip f s) = fsb s" "flog (upd_inode ip f s) = flog s" "fdev (upd_inode ip f s) = fdev s"
  "itable (upd_inode ip f s) = (itable s)[ip := f (itable s ! ip)]"
  by (simp_all add: upd_inode_def)

lemma effect_upd_inode [simp]: "effect k N s (upd_inode ip f s') \<longleftrightarrow> effect k N s s'" "effect k N (upd_inode ip f s) s' \<longleftrightarrow> effect k N s s'"
  by (simp_all add: effect_def)

lemma log_room_upd_inode [simp]: "log_room k (upd_inode ip f s) \<longleftrightarrow> log_room k s"
  by (simp add: log_room_def)

lemma iupdate_ok:
  assumes "log_room (Suc k) s" "length (i_addrs (itable s ! ip)) = NDIRECT + 1"
  obtains s' where "iupdate ip s = Ok s'" "effect 1 {IBLOCK (i_inum (itable s ! ip)) (fsb s)} s s'" "log_room k s'" "itable s' = itable s"
    "fview s' = (fview s)(IBLOCK (i_inum (itable s ! ip)) (fsb s) :=
       put_dinode (inode_dinode (itable s ! ip)) (slot (i_inum (itable s ! ip))) (fview s (IBLOCK (i_inum (itable s ! ip)) (fsb s))))"
    "\<And>j. disk_inode (fsb s) (fview s') j =
       (if j = i_inum (itable s ! ip) then inode_dinode (itable s ! ip) else disk_inode (fsb s) (fview s) j)"
proof -
  let ?x = "itable s ! ip"
  let ?b = "IBLOCK (i_inum ?x) (fsb s)"
  obtain s' where s': "log_block ?b (put_dinode (inode_dinode ?x) (slot (i_inum ?x)) (fview s ?b)) s = Ok s'" "effect 1 {?b} s s'" "log_room k s'"
    "fview s' = (fview s)(?b := put_dinode (inode_dinode ?x) (slot (i_inum ?x)) (fview s ?b))" "fs_state.more s' = fs_state.more s"
    by (rule log_block_ok [OF assms(1)])
  have "length (d_addrs (inode_dinode ?x)) = NDIRECT + 1" using assms(2) by (simp add: inode_dinode_def)
  from disk_inode_put [OF this s'(4)] show thesis
    using that [of s'] s' more_itable [OF s'(5)] by (simp add: iupdate_def Let_def)
qed

subsection \<open>The table of inodes\<close>

definition entry_of :: "u32 \<Rightarrow> u32 \<Rightarrow> inode \<Rightarrow> bool" where
  "entry_of dv inum x \<longleftrightarrow> i_ref x > 0 \<and> i_dev x = dv \<and> i_inum x = inum"

text \<open>At most one entry in use for an inode.\<close>

definition table_ok :: "inode list \<Rightarrow> bool" where
  "table_ok tab \<longleftrightarrow> (\<forall>x \<in> set tab. i_ref x \<ge> 0) \<and>
     (\<forall>i < length tab. \<forall>j < length tab. i_ref (tab ! i) > 0 \<and> entry_of (i_dev (tab ! i)) (i_inum (tab ! i)) (tab ! j) \<longrightarrow> i = j)"

lemma iget_scan_eq:
  "iget_scan dv inum i emp xs =
     (map_option (\<lambda>k. i + k) (find_index (entry_of dv inum) xs),
      snd (iget_scan dv inum i emp xs))"
proof (induction xs arbitrary: i emp)
  case (Cons x xs)
  show ?case unfolding iget_scan.simps entry_of_def [symmetric]
    by (subst Cons.IH) (cases "find_index (entry_of dv inum) xs"; simp)
qed simp

lemma iget_scan_empty:
  "find_index (entry_of dv inum) xs = None \<Longrightarrow>
   snd (iget_scan dv inum i emp xs) = (if emp = None then map_option (\<lambda>k. i + k) (find_index (\<lambda>x. i_ref x = 0) xs) else emp)"
proof (induction xs arbitrary: i emp)
  case (Cons x xs)
  then have "\<not> entry_of dv inum x" and none: "find_index (entry_of dv inum) xs = None" by (auto split: if_splits)
  then have x: "\<not> (i_ref x > 0 \<and> i_dev x = dv \<and> i_inum x = inum)" by (simp add: entry_of_def)
  note IH = Cons.IH [OF none, of "Suc i"]
  show ?case unfolding iget_scan.simps if_not_P [OF x] IH by (cases "find_index (\<lambda>x. i_ref x = 0) xs"; simp)
qed simp

lemma iget_eq:
  "iget dv inum s =
     (case find_index (entry_of dv inum) (itable s) of
        Some ip \<Rightarrow> Ok (ip, upd_inode ip (\<lambda>x. x\<lparr>i_ref := i_ref x + 1\<rparr>) s)
      | None \<Rightarrow> (case find_index (\<lambda>x. i_ref x = 0) (itable s) of
          Some ip \<Rightarrow> Ok (ip, upd_inode ip (\<lambda>x. x\<lparr>i_dev := dv, i_inum := inum, i_ref := 1, i_valid := False\<rparr>) s)
        | None \<Rightarrow> Panic ''iget: no inodes''))"
  unfolding iget_def
  by (subst iget_scan_eq) (auto simp: iget_scan_empty split: option.split)

lemma iget_Ok:
  assumes "iget dv inum s = Ok (ip, s')" "table_ok (itable s)"
  shows "ip < length (itable s)" "table_ok (itable s')" "entry_of dv inum (itable s' ! ip)" "length (itable s') = length (itable s)"
    "\<And>j. j \<noteq> ip \<Longrightarrow> itable s' ! j = itable s ! j"
    "i_ref (itable s' ! ip) = (if entry_of dv inum (itable s ! ip) then i_ref (itable s ! ip) + 1 else 1)"
    "fsb s' = fsb s" "flog s' = flog s" "fdev s' = fdev s"
proof -
  consider (hit) "ip < length (itable s)" "entry_of dv inum (itable s ! ip)" "s' = upd_inode ip (\<lambda>x. x\<lparr>i_ref := i_ref x + 1\<rparr>) s"
    | (miss) "ip < length (itable s)" "i_ref (itable s ! ip) = 0" "\<forall>x \<in> set (itable s). \<not> entry_of dv inum x"
      "s' = upd_inode ip (\<lambda>x. x\<lparr>i_dev := dv, i_inum := inum, i_ref := 1, i_valid := False\<rparr>) s"
    using assms(1) by (auto simp: iget_eq find_index_Some find_index_None split: option.split_asm)
  note C = this
  show lt: "ip < length (itable s)" and "fsb s' = fsb s" "flog s' = flog s" "fdev s' = fdev s" and len: "length (itable s') = length (itable s)"
    by (cases rule: C; simp)+
  show other: "itable s' ! j = itable s ! j" if "j \<noteq> ip" for j using that by (cases rule: C) simp_all
  show e: "entry_of dv inum (itable s' ! ip)" using lt by (cases rule: C) (auto simp: entry_of_def)
  show "i_ref (itable s' ! ip) = (if entry_of dv inum (itable s ! ip) then i_ref (itable s ! ip) + 1 else 1)"
    using lt by (cases rule: C) (auto simp: entry_of_def)
  have "i_ref (itable s' ! j) \<ge> 0" if "j < length (itable s)" for j
    using e other [of j] that assms(2) by (cases "j = ip") (auto simp: entry_of_def table_ok_def)
  then have pos: "\<forall>x \<in> set (itable s'). i_ref x \<ge> 0" using len by (auto simp: in_set_conv_nth)
  have only: "j = ip" if "j < length (itable s)" "entry_of dv inum (itable s ! j)" for j
  proof (cases rule: C)
    case hit
    then have "i_ref (itable s ! j) > 0" "entry_of (i_dev (itable s ! j)) (i_inum (itable s ! j)) (itable s ! ip)"
      using that(2) by (simp_all add: entry_of_def)
    then show ?thesis using assms(2) hit(1) that(1) unfolding table_ok_def by blast
  next
    case miss
    then show ?thesis using that nth_mem by blast
  qed
  have "i = j" if "i < length (itable s)" "j < length (itable s)" "i_ref (itable s' ! i) > 0"
    "entry_of (i_dev (itable s' ! i)) (i_inum (itable s' ! i)) (itable s' ! j)" for i j
  proof (cases "i = ip \<or> j = ip")
    case True
    then have "entry_of dv inum (itable s' ! i)" "entry_of dv inum (itable s' ! j)" using that(3,4) e by (auto simp: entry_of_def)
    then have "i = ip" "j = ip" using only other that(1,2) by metis+
    then show ?thesis by simp
  next
    case False
    then show ?thesis using that assms(2) other [of i] other [of j] unfolding table_ok_def by metis
  qed
  then show "table_ok (itable s')" using pos len by (simp add: table_ok_def)
qed

subsection \<open>Files as block lists\<close>

text \<open>The address of block \<open>bn\<close> of a file with addresses \<open>as\<close>, 0 if there is none, and the bytes of that block.\<close>

definition blk :: "(u32 \<Rightarrow> bytes) \<Rightarrow> u32 list \<Rightarrow> nat \<Rightarrow> u32" where
  "blk v as bn =
     (if bn < NDIRECT then as ! bn
      else if as ! NDIRECT = 0 then 0 else get32 (v (as ! NDIRECT)) (4 * (bn - NDIRECT)))"

definition fblock :: "(u32 \<Rightarrow> bytes) \<Rightarrow> u32 list \<Rightarrow> nat \<Rightarrow> bytes" where
  "fblock v as bn = (\<lambda>j. if blk v as bn = 0 then 0 else v (blk v as bn) j)"

definition fblocks :: "(u32 \<Rightarrow> bytes) \<Rightarrow> u32 list \<Rightarrow> u32 set" where
  "fblocks v as = {b. b \<noteq> 0 \<and> (b = as ! NDIRECT \<or> (\<exists>bn < MAXFILE. b = blk v as bn))}"

definition map_block :: "superblock \<Rightarrow> u32 \<Rightarrow> bool" where
  "map_block sb b \<longleftrightarrow> (\<exists>x < sb_size sb. b = BBLOCK x sb)"

definition inode_block :: "superblock \<Rightarrow> u32 \<Rightarrow> bool" where
  "inode_block sb b \<longleftrightarrow> (\<exists>i < sb_ninodes sb. b = IBLOCK i sb)"

text \<open>The blocks of the log.\<close>

definition log_area :: "superblock \<Rightarrow> u32 \<Rightarrow> bool" where
  "log_area sb b \<longleftrightarrow> (\<exists>i < unat (sb_nlog sb). b = sb_logstart sb + of_nat i)"

abbreviation home :: "superblock \<Rightarrow> u32 set" where
  "home sb \<equiv> {b. \<not> log_area sb b}"

definition meta_ok :: "superblock \<Rightarrow> (u32 \<Rightarrow> bytes) \<Rightarrow> bool" where
  "meta_ok sb v \<longleftrightarrow> bitmap_ok sb v \<and> (\<forall>b. inode_block sb b \<longrightarrow> b < sb_size sb \<and> used sb v b \<and> \<not> map_block sb b) \<and>
     (\<forall>b. log_area sb b \<longrightarrow> b < sb_size sb \<and> used sb v b \<and> \<not> map_block sb b \<and> \<not> inode_block sb b)"

definition data_block :: "superblock \<Rightarrow> (u32 \<Rightarrow> bytes) \<Rightarrow> u32 \<Rightarrow> bool" where
  "data_block sb v b \<longleftrightarrow> b < sb_size sb \<and> used sb v b \<and> \<not> map_block sb b \<and> \<not> inode_block sb b \<and> \<not> log_area sb b"

text \<open>The blocks of a file are data blocks in use, all different.\<close>

definition file_ok :: "superblock \<Rightarrow> (u32 \<Rightarrow> bytes) \<Rightarrow> u32 list \<Rightarrow> bool" where
  "file_ok sb v as \<longleftrightarrow> length as = NDIRECT + 1 \<and> (\<forall>b \<in> fblocks v as. data_block sb v b) \<and>
     (\<forall>i < MAXFILE. \<forall>j < MAXFILE. blk v as i = blk v as j \<and> blk v as i \<noteq> 0 \<longrightarrow> i = j) \<and>
     (\<forall>i < MAXFILE. blk v as i \<noteq> 0 \<longrightarrow> blk v as i \<noteq> as ! NDIRECT)"

text \<open>
  A file that grows by zeroed blocks: what it had stays, and so does everything outside it that was in use,
  except for the free map.
\<close>

definition file_grown :: "superblock \<Rightarrow> (u32 \<Rightarrow> bytes) \<Rightarrow> u32 list \<Rightarrow> (u32 \<Rightarrow> bytes) \<Rightarrow> u32 list \<Rightarrow> bool" where
  "file_grown sb v as v' as' \<longleftrightarrow> meta_ok sb v' \<and> file_ok sb v' as' \<and>
     (\<forall>bn < MAXFILE. (blk v as bn \<noteq> 0 \<longrightarrow> blk v' as' bn = blk v as bn) \<and> (\<forall>j < BSIZE. fblock v' as' bn j = fblock v as bn j)) \<and>
     (\<forall>b < sb_size sb. used sb v b \<longrightarrow> used sb v' b \<and> (b \<notin> fblocks v as \<longrightarrow> b \<notin> fblocks v' as' \<and> (\<not> map_block sb b \<longrightarrow> v' b = v b)))"

lemma file_grown_refl: "\<lbrakk>meta_ok sb v; file_ok sb v as\<rbrakk> \<Longrightarrow> file_grown sb v as v as"
  by (simp add: file_grown_def)

lemma file_grown_trans: "\<lbrakk>file_grown sb v as v1 as1; file_grown sb v1 as1 v2 as2\<rbrakk> \<Longrightarrow> file_grown sb v as v2 as2"
  unfolding file_grown_def by metis

text \<open>Allocating a block leaves a file alone.\<close>

lemma allocated_facts:
  assumes "allocated sb v r v'" "meta_ok sb v"
  shows "r \<noteq> 0" "r < sb_size sb" "\<not> used sb v r" "\<And>b. b < sb_size sb \<Longrightarrow> used sb v' b \<longleftrightarrow> b = r \<or> used sb v b"
    "\<And>i. i < BSIZE \<Longrightarrow> v' r i = 0" "\<And>n. n \<noteq> r \<Longrightarrow> \<not> map_block sb n \<Longrightarrow> v' n = v n" "data_block sb v' r" "meta_ok sb v'"
    "{BBLOCK r sb, r} \<subseteq> home sb"
proof -
  show r: "r \<noteq> 0" "r < sb_size sb" "\<not> used sb v r" and u: "\<And>b. b < sb_size sb \<Longrightarrow> used sb v' b \<longleftrightarrow> b = r \<or> used sb v b"
    and "\<And>i. i < BSIZE \<Longrightarrow> v' r i = 0" using assms(1) by (auto simp: allocated_def)
  show "\<And>n. n \<noteq> r \<Longrightarrow> \<not> map_block sb n \<Longrightarrow> v' n = v n" using assms(1) r(2) by (auto simp: allocated_def map_block_def)
  have "\<not> map_block sb r" "\<not> inode_block sb r" "\<not> log_area sb r" using assms(2) r by (auto simp: meta_ok_def bitmap_ok_def map_block_def)
  then show "data_block sb v' r" using r u by (simp add: data_block_def)
  have "map_block sb (BBLOCK r sb)" using r(2) by (auto simp: map_block_def)
  then show "{BBLOCK r sb, r} \<subseteq> home sb" using assms(2) \<open>\<not> log_area sb r\<close> by (auto simp: meta_ok_def)
  show "meta_ok sb v'" using assms u allocated_bitmap by (auto simp: meta_ok_def)
qed

lemma file_blk_data: "\<lbrakk>file_ok sb v as; bn < MAXFILE; blk v as bn \<noteq> 0\<rbrakk> \<Longrightarrow> data_block sb v (blk v as bn)"
  by (auto simp: file_ok_def fblocks_def)

lemma file_ind_data: "\<lbrakk>file_ok sb v as; as ! NDIRECT \<noteq> 0\<rbrakk> \<Longrightarrow> data_block sb v (as ! NDIRECT)"
  by (auto simp: file_ok_def fblocks_def)

lemma blk_cong: "(as ! NDIRECT \<noteq> 0 \<Longrightarrow> v' (as ! NDIRECT) = v (as ! NDIRECT)) \<Longrightarrow> blk v' as = blk v as"
  by (rule ext) (simp add: blk_def)

lemma allocated_file:
  assumes "allocated sb v r v'" "meta_ok sb v" "file_ok sb v as"
  shows "blk v' as = blk v as" "r \<notin> fblocks v as" "file_grown sb v as v' as"
proof -
  note a = allocated_facts [OF assms(1,2)]
  have ne: "b \<noteq> r \<and> v' b = v b" if "data_block sb v b" for b using that a(3,6) by (cases "b = r") (auto simp: data_block_def)
  then show b: "blk v' as = blk v as" using file_ind_data [OF assms(3)] by (intro blk_cong) auto
  then have fb: "fblocks v' as = fblocks v as" by (simp add: fblocks_def)
  show "r \<notin> fblocks v as" using assms(3) ne by (auto simp: file_ok_def)
  have "fblock v' as bn = fblock v as bn" if "bn < MAXFILE" for bn
    using file_blk_data [OF assms(3) that] ne by (auto simp: fblock_def b)
  moreover have "file_ok sb v' as" using assms(3) a(4) by (auto simp: file_ok_def b fb data_block_def)
  moreover have "v' n = v n" if "used sb v n" "\<not> map_block sb n" for n using that a(3,6) by (cases "n = r") auto
  ultimately show "file_grown sb v as v' as" using a(4,8) by (simp add: file_grown_def b fb)
qed

text \<open>The three ways in which a freshly allocated block \<open>r\<close> becomes part of a file.\<close>

lemma blk_direct:
  assumes "length as = NDIRECT + 1" "i < NDIRECT"
  shows "blk v (as[i := r]) bn = (if bn = i then r else blk v as bn)"
  using assms by (auto simp: blk_def)

lemma file_grown_direct:
  assumes "file_ok sb v as" "meta_ok sb v" "i < NDIRECT" "as ! i = 0" "r \<noteq> 0" "data_block sb v r" "r \<notin> fblocks v as" "\<forall>j < BSIZE. v r j = 0"
  shows "file_ok sb v (as[i := r])" "fblocks v (as[i := r]) = insert r (fblocks v as)"
    "bn < MAXFILE \<Longrightarrow> j < BSIZE \<Longrightarrow> fblock v (as[i := r]) bn j = fblock v as bn j"
proof -
  have len: "length as = NDIRECT + 1" using assms(1) by (simp add: file_ok_def)
  note b = blk_direct [OF len assms(3)]
  have i: "blk v as i = 0" "i < MAXFILE" "as[i := r] ! NDIRECT = as ! NDIRECT" using assms(3,4) by (auto simp: blk_def MAXFILE_def)
  show f: "fblocks v (as[i := r]) = insert r (fblocks v as)"
    using i assms(5) by (auto simp: fblocks_def b)
  show "fblock v (as[i := r]) bn j = fblock v as bn j" if "bn < MAXFILE" "j < BSIZE"
    using assms(8) i(1) that by (simp add: fblock_def b)
  have "blk v as k \<noteq> r" if "k < MAXFILE" for k using assms(5,7) that by (auto simp: fblocks_def)
  moreover have "as ! NDIRECT \<noteq> r" using assms(5,7) by (auto simp: fblocks_def)
  ultimately show "file_ok sb v (as[i := r])"
    using assms(1,5,6) i(3) unfolding file_ok_def f b by (auto simp: data_block_def)
qed

lemma get32_zero: "(\<And>i. i < 4 \<Longrightarrow> f (p + i) = 0) \<Longrightarrow> get32 f p = 0"
proof -
  assume "\<And>i. i < 4 \<Longrightarrow> f (p + i) = 0"
  then have "get32 f p = get32 (\<lambda>_. 0) p" unfolding get32_def by (intro le_word_cong) simp
  also have "\<dots> = 0" by (simp add: get32_def eval_nat_numeral)
  finally show ?thesis .
qed

lemma blk_indirect_new:
  assumes "length as = NDIRECT + 1" "as ! NDIRECT = 0" "\<forall>j < BSIZE. v r j = 0" "bn < MAXFILE"
  shows "blk v (as[NDIRECT := r]) bn = blk v as bn"
proof (cases "bn < NDIRECT")
  case False
  then have "get32 (v r) (4 * (bn - NDIRECT)) = 0" using assms(3,4)
    by (intro get32_zero) (auto simp: MAXFILE_def NINDIRECT_def BSIZE_def)
  then show ?thesis using assms False by (simp add: blk_def)
qed (use assms in \<open>simp add: blk_def\<close>)

lemma file_grown_indirect_new:
  assumes "file_ok sb v as" "as ! NDIRECT = 0" "r \<noteq> 0" "data_block sb v r" "r \<notin> fblocks v as" "\<forall>j < BSIZE. v r j = 0"
  shows "file_ok sb v (as[NDIRECT := r])" "fblocks v (as[NDIRECT := r]) = insert r (fblocks v as)"
    "bn < MAXFILE \<Longrightarrow> fblock v (as[NDIRECT := r]) bn = fblock v as bn"
proof -
  have len: "length as = NDIRECT + 1" using assms(1) by (simp add: file_ok_def)
  note b = blk_indirect_new [where v = v and r = r, OF len assms(2,6)]
  have n: "as[NDIRECT := r] ! NDIRECT = r" using len by simp
  show f: "fblocks v (as[NDIRECT := r]) = insert r (fblocks v as)"
    using assms(2,3) n b by (auto simp: fblocks_def)
  show "fblock v (as[NDIRECT := r]) bn = fblock v as bn" if "bn < MAXFILE" by (simp only: fblock_def b [OF that])
  have "blk v as k \<noteq> r" if "k < MAXFILE" for k using assms(3,5) that by (auto simp: fblocks_def)
  then show "file_ok sb v (as[NDIRECT := r])" using assms(1,4) n unfolding file_ok_def f
    by (auto simp: b)
qed

lemma file_grown_indirect_entry:
  assumes "file_ok sb v as" "as ! NDIRECT \<noteq> 0" "NDIRECT \<le> k" "k < MAXFILE" "blk v as k = 0" "r \<noteq> 0" "data_block sb v r" "r \<notin> fblocks v as"
    and "\<forall>j < BSIZE. v r j = 0" "v' = v(as ! NDIRECT := put32 (4 * (k - NDIRECT)) r (v (as ! NDIRECT)))"
  shows "blk v' as bn = (if bn = k then r else blk v as bn)" "fblocks v' as = insert r (fblocks v as)"
    "bn < MAXFILE \<Longrightarrow> j < BSIZE \<Longrightarrow> fblock v' as bn j = fblock v as bn j"
    "(\<And>b. b < sb_size sb \<Longrightarrow> used sb v' b = used sb v b) \<Longrightarrow> file_ok sb v' as"
proof -
  have b: "blk v' as n = (if n = k then r else blk v as n)" for n
  proof (cases "n < NDIRECT \<or> n = k")
    case False
    then have "get32 (put32 (4 * (k - NDIRECT)) r (v (as ! NDIRECT))) (4 * (n - NDIRECT)) = get32 (v (as ! NDIRECT)) (4 * (n - NDIRECT))"
      using assms(3) by (intro get_put_other) auto
    then show ?thesis using False assms(2) by (simp add: blk_def assms(10))
  qed (use assms(2,3) in \<open>auto simp: blk_def assms(10)\<close>)
  then show "blk v' as bn = (if bn = k then r else blk v as bn)" .
  show f: "fblocks v' as = insert r (fblocks v as)" using assms(4-6) by (auto simp: fblocks_def b)
  have nr: "blk v as n \<noteq> r" if "n < MAXFILE" for n using assms(6,8) that by (auto simp: fblocks_def)
  have ni: "as ! NDIRECT \<noteq> r" using assms(6,8) by (auto simp: fblocks_def)
  have vo: "v' n = v n" if "n \<noteq> as ! NDIRECT" for n using that by (simp add: assms(10))
  have ind: "blk v as n \<noteq> as ! NDIRECT" if "n < MAXFILE" "blk v as n \<noteq> 0" for n using assms(1) that by (simp add: file_ok_def)
  show "fblock v' as bn j = fblock v as bn j" if "bn < MAXFILE" "j < BSIZE"
    using assms(5,9) ni ind [OF that(1)] that(2) vo unfolding fblock_def b by auto
  show "file_ok sb v' as" if "\<And>b. b < sb_size sb \<Longrightarrow> used sb v' b = used sb v b"
    using assms(1,7) nr ni that unfolding file_ok_def f b by (auto simp: data_block_def)
qed

lemma file_grown_add:
  assumes "allocated sb v r v1" "meta_ok sb v" "file_ok sb v as"
    and "meta_ok sb v'" "file_ok sb v' as'" "fblocks v' as' = insert r (fblocks v1 as)"
    and "\<And>bn. bn < MAXFILE \<Longrightarrow> blk v1 as bn \<noteq> 0 \<Longrightarrow> blk v' as' bn = blk v1 as bn"
    and "\<And>bn j. bn < MAXFILE \<Longrightarrow> j < BSIZE \<Longrightarrow> fblock v' as' bn j = fblock v1 as bn j"
    and "\<And>b. b < sb_size sb \<Longrightarrow> used sb v' b = used sb v1 b" "\<And>n. n \<notin> fblocks v1 as \<Longrightarrow> v' n = v1 n"
  shows "file_grown sb v as v' as'"
proof -
  note a = allocated_facts [OF assms(1,2)] and g = allocated_file [OF assms(1-3)]
  have fb: "fblocks v1 as = fblocks v as" by (simp add: fblocks_def g(1))
  have "\<not> used sb v r" by (rule a(3))
  moreover have "v' b = v b" if "b < sb_size sb" "used sb v b" "b \<notin> fblocks v as" "\<not> map_block sb b" for b
    using that a(3,6) assms(10) fb by (cases "b = r") auto
  ultimately show ?thesis
    using assms(4-9) g(3) a(4) fb unfolding file_grown_def g(1) by auto
qed

definition no_free :: "superblock \<Rightarrow> (u32 \<Rightarrow> bytes) \<Rightarrow> bool" where
  "no_free sb v \<longleftrightarrow> (\<forall>b < sb_size sb. used sb v b)"

definition with_addrs :: "nat \<Rightarrow> u32 list \<Rightarrow> inode list \<Rightarrow> inode list" where
  "with_addrs ip as tab = tab[ip := (tab ! ip)\<lparr>i_addrs := as\<rparr>]"

lemma with_addrs_same: "with_addrs ip (i_addrs (tab ! ip)) tab = tab"
  by (simp add: with_addrs_def list_update_id)

lemma bmap_addr_ok:
  fixes s :: fs and ip :: nat
  defines "v \<equiv> fview s" and "as \<equiv> i_addrs (itable s ! ip)" and "sb \<equiv> fsb s"
  assumes "meta_ok sb v" "file_ok sb v as" "i \<le> NDIRECT" "log_room (Suc (Suc k)) s" "ip < length (itable s)"
  obtains addr s' where "bmap_addr ip i s = Ok (addr, s')" "itable s' = with_addrs ip (as[i := addr]) (itable s)"
    "effect 2 (home (fsb s)) s s'" "log_room k s'" "file_grown sb v as (fview s') (as[i := addr])" "addr = 0 \<Longrightarrow> no_free sb (fview s')"
proof (cases "as ! i = 0")
  case False
  have "as[i := as ! i] = as" by simp
  moreover have "log_room k s" using assms(7) by (auto simp: log_room_def)
  ultimately show thesis using that [of "as ! i" s] False assms(4-7) file_grown_refl [OF assms(4,5)]
    by (simp add: bmap_addr_def with_addrs_same as_def effect_refl v_def)
next
  case True
  have "bitmap_ok (fsb s) (fview s)" using assms(4) by (simp add: meta_ok_def sb_def v_def)
  from this assms(7) show thesis
  proof (cases rule: balloc_ok)
    case full
    have "as[i := 0] = as" using True list_update_id [of as i] by simp
    moreover have "log_room k s" using assms(7) by (auto simp: log_room_def)
    ultimately show thesis using that [of 0 s] True full file_grown_refl [OF assms(4,5)]
      by (simp add: bmap_addr_def with_addrs_same as_def no_free_def effect_refl sb_def v_def)
  next
    case (taken r s1)
    let ?s' = "upd_inode ip (\<lambda>x. x\<lparr>i_addrs := (i_addrs x)[i := r]\<rparr>) s1"
    have it: "itable s1 = itable s" by (rule more_itable [OF taken(3)])
    have al: "allocated sb v r (fview s1)" using taken(6) by (simp add: sb_def v_def)
    note a = allocated_facts [OF al assms(4)] and g = allocated_file [OF al assms(4,5)]
    have f1: "file_ok sb (fview s1) as" using g(3) by (simp add: file_grown_def)
    have n1: "r \<notin> fblocks (fview s1) as" using g(1,2) by (simp add: fblocks_def)
    have len: "length as = NDIRECT + 1" using assms(5) by (simp add: file_ok_def)
    have z: "\<forall>j < BSIZE. fview s1 r j = 0" using a(5) by simp
    have "file_grown sb v as (fview s1) (as[i := r])"
    proof (cases "i = NDIRECT")
      case ind: True
      note h = file_grown_indirect_new [OF f1 _ taken(2) a(7) n1 z]
      show ?thesis unfolding ind
        by (rule file_grown_add [OF al assms(4,5) a(8)])
          (use h True ind blk_indirect_new [where v = "fview s1" and r = r, OF len _ z] in simp_all)
    next
      case False
      then have i: "i < NDIRECT" using assms(6) by simp
      note h = file_grown_direct [OF f1 a(8) i True taken(2) a(7) n1 z]
      show ?thesis
        by (rule file_grown_add [OF al assms(4,5) a(8)]) (use h True i blk_direct [OF len i] in \<open>auto simp: blk_def\<close>)
    qed
    moreover have "effect 2 (home (fsb s)) s ?s'" using effect_mono [OF taken(4) order_refl] a(9) by (simp add: sb_def)
    ultimately show thesis using that [of r ?s'] taken True assms(8)
      by (simp add: bmap_addr_def as_def it with_addrs_def)
  qed
qed

lemma used_other_block: "\<lbrakk>\<not> map_block sb n; b < sb_size sb\<rbrakk> \<Longrightarrow> used sb (v(n := f)) b = used sb v b"
  by (auto simp: used_def map_block_def)

lemma meta_ok_same: "\<lbrakk>meta_ok sb v; \<And>b. b < sb_size sb \<Longrightarrow> used sb v' b = used sb v b\<rbrakk> \<Longrightarrow> meta_ok sb v'"
  by (auto simp: meta_ok_def intro: bitmap_ok_more)

text \<open>The indirect case of \<^verbatim>\<open>bmap\<close> once the indirect block is there.\<close>

lemma bmap_entry_ok:
  fixes s :: fs and as sb
  defines "v \<equiv> fview s" and "sb \<equiv> fsb s"
  assumes "meta_ok sb v" "file_ok sb v as" "as ! NDIRECT \<noteq> 0" "NDIRECT \<le> bn" "bn < MAXFILE" "blk v as bn = 0" "log_room (k + 3) s"
    and "r \<noteq> 0" "effect 2 {BBLOCK r (fsb s), r} s s1" "log_room (k + 1) s1" "allocated sb v r (fview s1)"
  obtains s' where "log_block (as ! NDIRECT) (put32 (4 * (bn - NDIRECT)) r (fview s1 (as ! NDIRECT))) s1 = Ok s'"
    "effect 3 (home (fsb s)) s s'" "log_room k s'" "fs_state.more s' = fs_state.more s1" "file_grown sb v as (fview s') as" "blk (fview s') as bn = r"
proof -
  let ?n = "as ! NDIRECT"
  note a = allocated_facts [OF assms(13,3)] and g = allocated_file [OF assms(13,3,4)]
  have "log_room (Suc k) s1" using assms(12) by simp
  from log_block_ok [OF this] obtain s' where s':
    "log_block ?n (put32 (4 * (bn - NDIRECT)) r (fview s1 ?n)) s1 = Ok s'" "effect 1 {?n} s1 s'" "log_room k s'"
    "fview s' = (fview s1)(?n := put32 (4 * (bn - NDIRECT)) r (fview s1 ?n))" "fs_state.more s' = fs_state.more s1" by metis
  have f1: "file_ok sb (fview s1) as" using g(3) by (simp add: file_grown_def)
  have n1: "r \<notin> fblocks (fview s1) as" using g(1,2) by (simp add: fblocks_def)
  have "\<not> map_block sb ?n" using file_ind_data [OF f1 assms(5)] by (simp add: data_block_def)
  then have u: "used sb (fview s') b = used sb (fview s1) b" if "b < sb_size sb" for b using that by (simp add: s'(4) used_other_block)
  have z: "\<forall>j < BSIZE. fview s1 r j = 0" using a(5) by simp
  have e0: "blk (fview s1) as bn = 0" using assms(8) g(1) by simp
  note h = file_grown_indirect_entry [OF f1 assms(5-7) e0 assms(10) a(7) n1 z s'(4)]
  have "file_grown sb v as (fview s') as"
  proof (rule file_grown_add [OF assms(13,3,4) meta_ok_same [OF a(8) u] h(4) [OF u] h(2)])
    show "fview s' n = fview s1 n" if "n \<notin> fblocks (fview s1) as" for n
      using that assms(5) by (auto simp: s'(4) fblocks_def)
  qed (use h e0 u in auto)
  moreover have "effect 3 (home (fsb s)) s s'" 
    using effect_mono [OF effect_trans [OF assms(11) s'(2)], of 3 "home (fsb s)"] a(9) file_ind_data [OF f1 assms(5)]
    by (simp add: sb_def data_block_def)
  ultimately show thesis using that s'(1,3,5) h(1) by simp
qed

lemma bmap_ok:
  fixes s :: fs and ip :: nat
  defines "v \<equiv> fview s" and "as \<equiv> i_addrs (itable s ! ip)" and "sb \<equiv> fsb s"
  assumes "meta_ok sb v" "file_ok sb v as" "bn < MAXFILE" "log_room (k + 5) s" "ip < length (itable s)"
  obtains s' as' where "bmap ip bn s = Ok (blk (fview s') as' bn, s')" "itable s' = with_addrs ip as' (itable s)"
    "effect 5 (home (fsb s)) s s'" "log_room k s'" "file_grown sb v as (fview s') as'" "blk (fview s') as' bn = 0 \<Longrightarrow> no_free sb (fview s')"
proof (cases "bn < NDIRECT")
  case True
  have len: "length as = NDIRECT + 1" using assms(5) by (simp add: file_ok_def)
  have "log_room (Suc (Suc (k + 3))) s" using assms(7) by (simp add: numeral_eq_Suc)
  from bmap_addr_ok [OF _ _ _ this assms(8), of bn] assms(4,5) True obtain addr s' where
    "bmap_addr ip bn s = Ok (addr, s')" "itable s' = with_addrs ip (as[bn := addr]) (itable s)"
    "effect 2 (home (fsb s)) s s'" "log_room (k + 3) s'" "file_grown sb v as (fview s') (as[bn := addr])" "addr = 0 \<Longrightarrow> no_free sb (fview s')"
    unfolding as_def sb_def v_def by (metis less_imp_le)
  moreover from this have "blk (fview s') (as[bn := addr]) bn = addr" using True len by (simp add: blk_def)
  moreover from calculation have "effect 5 (home (fsb s)) s s'" "log_room k s'" using effect_mono [of 2 "home (fsb s)" s s' 5 "home (fsb s)"] by (auto simp: log_room_def)
  ultimately show thesis using that [of s' "as[bn := addr]"] True by (simp add: bmap_def)
next
  case False
  have len: "length as = NDIRECT + 1" using assms(5) by (simp add: file_ok_def)
  have range: "bn - NDIRECT < NINDIRECT" using assms(6) False by (simp add: MAXFILE_def)
  have "log_room (Suc (Suc (k + 3))) s" using assms(7) by (simp add: numeral_eq_Suc)
  from bmap_addr_ok [OF _ _ _ this assms(8), of NDIRECT] assms(4,5) obtain ind s1 where s1:
    "bmap_addr ip NDIRECT s = Ok (ind, s1)" "itable s1 = with_addrs ip (as[NDIRECT := ind]) (itable s)"
    "effect 2 (home (fsb s)) s s1" "log_room (k + 3) s1" "file_grown sb v as (fview s1) (as[NDIRECT := ind])" "ind = 0 \<Longrightarrow> no_free sb (fview s1)"
    unfolding as_def sb_def v_def by (metis order_refl)
  define as1 where "as1 = as[NDIRECT := ind]"
  have n: "as1 ! NDIRECT = ind" using len by (simp add: as1_def)
  have sb1: "fsb s1 = sb" using effect_sel(1) [OF s1(3)] by (simp add: sb_def)
  have ok1: "meta_ok sb (fview s1)" "file_ok sb (fview s1) as1" using s1(5) by (simp_all add: file_grown_def as1_def)
  have eq: "bmap ip bn s = (if ind = 0 then Ok (0, s1) else if blk (fview s1) as1 bn \<noteq> 0 then Ok (blk (fview s1) as1 bn, s1)
    else rbind (balloc s1) (\<lambda>(addr, s). if addr \<noteq> 0 then rbind (log_block ind (put32 (4 * (bn - NDIRECT)) addr (fview s ind)) s) (\<lambda>s. Ok (addr, s))
      else Ok (addr, s)))"
    using False range n by (simp add: bmap_def s1(1) Let_def blk_def)
  note finish = that
  have stay: thesis if "bmap ip bn s = Ok (blk (fview s1) as1 bn, s1)" "blk (fview s1) as1 bn = 0 \<Longrightarrow> no_free sb (fview s1)"
    using that(2) finish [OF that(1)] s1(2-5) effect_mono [OF s1(3), of 5 "home (fsb s)"] by (auto simp: as1_def log_room_def)
  show thesis
  proof (cases "ind = 0 \<or> blk (fview s1) as1 bn \<noteq> 0")
    case True
    have "ind = 0 \<Longrightarrow> blk (fview s1) as1 bn = 0" using n False by (simp add: blk_def)
    then have "bmap ip bn s = Ok (blk (fview s1) as1 bn, s1)" using eq True by (cases "ind = 0") simp_all
    then show thesis using stay s1(6) True by blast
  next
    case new: False
    have "bitmap_ok (fsb s1) (fview s1)" "log_room (Suc (Suc (k + 1))) s1" using ok1(1) sb1 s1(4) by (simp_all add: meta_ok_def numeral_3_eq_3)
    then show thesis
    proof (cases rule: balloc_ok)
      case full
      then show thesis using stay eq new sb1 by (simp add: no_free_def)
    next
      case (taken r s2)
      have args: "meta_ok (fsb s1) (fview s1)" "file_ok (fsb s1) (fview s1) as1" "as1 ! NDIRECT \<noteq> 0" "NDIRECT \<le> bn" "blk (fview s1) as1 bn = 0"
        using ok1 sb1 n new False by simp_all
      obtain s' where s': "log_block (as1 ! NDIRECT) (put32 (4 * (bn - NDIRECT)) r (fview s2 (as1 ! NDIRECT))) s2 = Ok s'"
        "effect 3 (home (fsb s1)) s1 s'" "log_room k s'" "fs_state.more s' = fs_state.more s2" "file_grown (fsb s1) (fview s1) as1 (fview s') as1" "blk (fview s') as1 bn = r"
        using bmap_entry_ok [OF args(1-4) assms(6) args(5) s1(4) taken(2,4,5,6)] by metis
      have "itable s' = with_addrs ip as1 (itable s)" using more_itable [OF s'(4)] more_itable [OF taken(3)] s1(2) by (simp add: as1_def)
      moreover have "effect 5 (home (fsb s)) s s'" using effect_trans [OF s1(3) s'(2)] effect_sel(1) [OF s1(3)] by simp
      moreover have "file_grown sb v as (fview s') as1" using file_grown_trans s1(5) s'(5) sb1 by (simp add: as1_def)
      moreover have "bmap ip bn s = Ok (r, s')" using eq new taken(1,2) s'(1) n by simp
      ultimately show thesis using that [of s' as1] s'(3,6) taken(2) by simp
    qed
  qed
qed

end
