(* ===== verification/Filedata.thy ===== *)
theory Filedata
  imports Inode Usercopy
begin

text \<open>
  Reading and writing files (\<^verbatim>\<open>readi\<close> and \<^verbatim>\<open>writei\<close> of \<^verbatim>\<open>kernel/fs.c\<close>). Both take the other end of the transfer, which
  the code reaches through \<^verbatim>\<open>either_copyout\<close> and \<^verbatim>\<open>either_copyin\<close>, as a parameter: the memory of a process, or a buffer of
  the kernel such as a directory entry on the stack. What they rely on is the locales \<^verbatim>\<open>byte_sink\<close> and \<^verbatim>\<open>byte_source\<close>,
  interpreted for both.
\<close>

section \<open>Definitions\<close>

abbreviation BS :: u32 where "BS \<equiv> of_nat BSIZE"

definition chunk :: "u32 \<Rightarrow> u32 \<Rightarrow> u32 \<Rightarrow> u32" where
  "chunk off tot n = min (n - tot) (BS - off mod BS)"

lemma chunk_val:
  assumes "tot < n"
  shows "unat (chunk off tot n) = min (unat n - unat tot) (BSIZE - unat off mod BSIZE)" "0 < unat (chunk off tot n)"
    "unat (tot + chunk off tot n) = unat tot + unat (chunk off tot n)" "unat tot + unat (chunk off tot n) \<le> unat n"
proof -
  have B: "unat BS = 1024" "BSIZE = 1024" by (simp_all add: BSIZE_def)
  have "off mod BS \<le> BS" by (simp add: BSIZE_def word_le_nat_alt unat_mod)
  then have u: "unat (BS - off mod BS) = BSIZE - unat off mod BSIZE" by (simp add: unat_sub B(2) unat_mod)
  have "unat (n - tot) = unat n - unat tot" using assms by (simp add: unat_sub)
  with u show c: "unat (chunk off tot n) = min (unat n - unat tot) (BSIZE - unat off mod BSIZE)"
    by (simp add: chunk_def min_def word_le_nat_alt)
  show p: "0 < unat (chunk off tot n)" using assms c by (simp add: B(2) word_less_nat_alt)
  show le: "unat tot + unat (chunk off tot n) \<le> unat n" using assms c by (simp add: word_less_nat_alt)
  have "unat n < 2 ^ 32" using unsigned_less [of n] by simp
  then show "unat (tot + chunk off tot n) = unat tot + unat (chunk off tot n)"
    using le by (simp add: unat_word_ariths)
qed

lemma chunk_decreases: "tot < n \<Longrightarrow> unat n - unat (tot + chunk off tot n) < unat n - unat tot"
  using chunk_val(2-4) [of tot n off] by linarith

function readi_loop :: "('m \<Rightarrow> u64 \<Rightarrow> bytes \<Rightarrow> u32 \<Rightarrow> (int \<times> 'm) res) \<Rightarrow> nat \<Rightarrow> u64 \<Rightarrow> u32 \<Rightarrow> u32 \<Rightarrow> u32 \<Rightarrow> 'm \<Rightarrow> fs \<Rightarrow>
    (u32 \<times> 'm \<times> fs) res" where
  "readi_loop put ip dst off tot n m s =
     (if tot < n
      then rbind (bmap ip (unat (off div BS)) s) (\<lambda>(addr, s).
        if addr = 0 then Ok (tot, m, s)
        else let k = chunk off tot n in
          rbind (put m dst (\<lambda>i. fview s addr (unat (off mod BS) + i)) k) (\<lambda>(r, m).
            if r = -1 then Ok (-1, m, s)
            else readi_loop put ip (dst + ucast k) (off + k) (tot + k) n m s))
      else Ok (tot, m, s))"
  by pat_completeness auto

termination readi_loop
  by (relation "measure (\<lambda>(put, ip, dst, off, tot, n, m, s). unat n - unat tot)") (simp, frule chunk_decreases, simp)

definition readi :: "('m \<Rightarrow> u64 \<Rightarrow> bytes \<Rightarrow> u32 \<Rightarrow> (int \<times> 'm) res) \<Rightarrow> nat \<Rightarrow> u64 \<Rightarrow> u32 \<Rightarrow> u32 \<Rightarrow> 'm \<Rightarrow> fs \<Rightarrow> (int \<times> 'm \<times> fs) res" where
  "readi put ip dst off n m s =
     (let sz = i_size (itable s ! ip) in
      if off > sz \<or> off + n < off then Ok (0, m, s)
      else let n = (if off + n > sz then sz - off else n) in
        rbind (readi_loop put ip dst off 0 n m s) (\<lambda>(tot, m, s). Ok (sint tot, m, s)))"

text \<open>
  A failing copy may have stored some bytes in the buffer, which is then released without \<^verbatim>\<open>log_write\<close>. The loop also
  returns the final offset, which \<^verbatim>\<open>writei\<close> compares with the size.
\<close>

function writei_loop :: "(bytes \<Rightarrow> nat \<Rightarrow> u64 \<Rightarrow> u32 \<Rightarrow> (int \<times> bytes) res) \<Rightarrow> nat \<Rightarrow> u64 \<Rightarrow> u32 \<Rightarrow> u32 \<Rightarrow> u32 \<Rightarrow> fs \<Rightarrow>
    (u32 \<times> u32 \<times> fs) res" where
  "writei_loop get ip src off tot n s =
     (if tot < n
      then rbind (bmap ip (unat (off div BS)) s) (\<lambda>(addr, s).
        if addr = 0 then Ok (off, tot, s)
        else let k = chunk off tot n in
          rbind (get (fview s addr) (unat (off mod BS)) src k) (\<lambda>(r, data).
            if r = -1 then Ok (off, tot, s\<lparr>fdev := bmodify addr data (fdev s)\<rparr>)
            else rbind (log_block addr data s) (\<lambda>s.
              writei_loop get ip (src + ucast k) (off + k) (tot + k) n s)))
      else Ok (off, tot, s))"
  by pat_completeness auto

termination writei_loop
  by (relation "measure (\<lambda>(get, ip, src, off, tot, n, s). unat n - unat tot)") (simp, frule chunk_decreases, simp)

declare readi_loop.simps [simp del] writei_loop.simps [simp del]

definition writei :: "(bytes \<Rightarrow> nat \<Rightarrow> u64 \<Rightarrow> u32 \<Rightarrow> (int \<times> bytes) res) \<Rightarrow> nat \<Rightarrow> u64 \<Rightarrow> u32 \<Rightarrow> u32 \<Rightarrow> fs \<Rightarrow> (int \<times> fs) res" where
  "writei get ip src off n s =
     (if off > i_size (itable s ! ip) \<or> off + n < off then Ok (-1, s)
      else if unat (off + n) > MAXFILE * BSIZE then Ok (-1, s)
      else rbind (writei_loop get ip src off 0 n s) (\<lambda>(off, tot, s).
        let s = (if off > i_size (itable s ! ip) then upd_inode ip (\<lambda>x. x\<lparr>i_size := off\<rparr>) s else s) in
        rbind (iupdate ip s) (\<lambda>s. Ok (sint tot, s))))"

text \<open>The two ends: a process's memory, and a buffer of the kernel with addresses counted from its start.\<close>

definition user_put :: "u64 \<Rightarrow> kstate \<Rightarrow> u64 \<Rightarrow> bytes \<Rightarrow> u32 \<Rightarrow> (int \<times> kstate) res" where
  "user_put root ks dst f k = either_copyout ks root True dst f (ucast k)"

definition user_get :: "u64 \<Rightarrow> kstate \<Rightarrow> bytes \<Rightarrow> nat \<Rightarrow> u64 \<Rightarrow> u32 \<Rightarrow> (int \<times> bytes) res" where
  "user_get root ks f p src k = either_copyin ks root f p True src (ucast k)"

definition buf_put :: "bytes \<Rightarrow> u64 \<Rightarrow> bytes \<Rightarrow> u32 \<Rightarrow> (int \<times> bytes) res" where
  "buf_put b dst f k = Ok (0, \<lambda>i. if unat dst \<le> i \<and> i < unat dst + unat k then f (i - unat dst) else b i)"

definition buf_get :: "bytes \<Rightarrow> bytes \<Rightarrow> nat \<Rightarrow> u64 \<Rightarrow> u32 \<Rightarrow> (int \<times> bytes) res" where
  "buf_get b f p src k = Ok (0, \<lambda>i. if p \<le> i \<and> i < p + unat k then b (unat src + (i - p)) else f i)"

section \<open>What the two ends promise\<close>

text \<open>
  \<open>room m dst k\<close>: \<open>k\<close> bytes can be stored from \<open>dst\<close> on. \<open>stored m dst f k m'\<close>: \<open>m'\<close> is \<open>m\<close> after \<open>k\<close> bytes of \<open>f\<close>
  have been stored from \<open>dst\<close> on.
\<close>

locale byte_sink =
  fixes put :: "'m \<Rightarrow> u64 \<Rightarrow> bytes \<Rightarrow> u32 \<Rightarrow> (int \<times> 'm) res"
    and room :: "'m \<Rightarrow> u64 \<Rightarrow> nat \<Rightarrow> bool"
    and stored :: "'m \<Rightarrow> u64 \<Rightarrow> bytes \<Rightarrow> nat \<Rightarrow> 'm \<Rightarrow> bool"
  assumes put_ok: "room m dst (unat w) \<Longrightarrow> \<exists>m'. put m dst f w = Ok (0, m') \<and> stored m dst f (unat w) m'"
    and stored_nil: "stored m dst f 0 m"
    and stored_cong: "\<lbrakk>stored m dst f k m'; \<And>i. i < k \<Longrightarrow> f i = g i\<rbrakk> \<Longrightarrow> stored m dst g k m'"
    and stored_append: "\<lbrakk>room m dst (j + k); stored m dst f j m1; stored m1 (dst + of_nat j) (\<lambda>i. f (j + i)) k m2\<rbrakk> \<Longrightarrow>
      stored m dst f (j + k) m2"
    and room_take: "room m dst (j + k) \<Longrightarrow> room m dst j"
    and room_drop: "\<lbrakk>room m dst (j + k); stored m dst f j m1\<rbrakk> \<Longrightarrow> room m1 (dst + of_nat j) k"

text \<open>\<open>avail src k\<close>: the \<open>k\<close> bytes \<open>content src 0, content src 1, \<dots>\<close> can be read from \<open>src\<close> on.\<close>

locale byte_source =
  fixes get :: "bytes \<Rightarrow> nat \<Rightarrow> u64 \<Rightarrow> u32 \<Rightarrow> (int \<times> bytes) res"
    and avail :: "u64 \<Rightarrow> nat \<Rightarrow> bool"
    and content :: "u64 \<Rightarrow> nat \<Rightarrow> u8"
  assumes get_ok: "avail src (unat w) \<Longrightarrow> get f p src w = Ok (0, \<lambda>i. if p \<le> i \<and> i < p + unat w then content src (i - p) else f i)"
    and avail_take: "avail src (j + k) \<Longrightarrow> avail src j"
    and avail_drop: "avail src (j + k) \<Longrightarrow> avail (src + of_nat j) k"
    and content_drop: "\<lbrakk>avail src (j + k); i < k\<rbrakk> \<Longrightarrow> content (src + of_nat j) i = content src (j + i)"

interpretation kbuf_sink: byte_sink buf_put "\<lambda>b dst k. unat dst + k < 2 ^ 64"
  "\<lambda>b dst f k b'. b' = (\<lambda>i. if unat dst \<le> i \<and> i < unat dst + k then f (i - unat dst) else b i)"
proof
  fix b :: bytes and dst :: u64 and f :: bytes and j k :: nat and b1 b2
  assume r: "unat dst + (j + k) < 2 ^ 64"
  have u: "unat (dst + of_nat j) = unat dst + j" using r by (simp add: unat_word_ariths unat_of_nat)
  show "unat (dst + of_nat j) + k < 2 ^ 64" using r u by simp
  assume "b1 = (\<lambda>i. if unat dst \<le> i \<and> i < unat dst + j then f (i - unat dst) else b i)"
    "b2 = (\<lambda>i. if unat (dst + of_nat j) \<le> i \<and> i < unat (dst + of_nat j) + k then f (j + (i - unat (dst + of_nat j))) else b1 i)"
  then show "b2 = (\<lambda>i. if unat dst \<le> i \<and> i < unat dst + (j + k) then f (i - unat dst) else b i)"
    by (auto simp: u fun_eq_iff)
qed (auto simp: buf_put_def intro!: ext)

interpretation kbuf_source: byte_source "buf_get b" "\<lambda>src k. unat src + k < 2 ^ 64" "\<lambda>src i. b (unat src + i)"
  for b
proof
  fix src :: u64 and j k i :: nat
  assume r: "unat src + (j + k) < 2 ^ 64"
  have u: "unat (src + of_nat j) = unat src + j" using r by (simp add: unat_word_ariths unat_of_nat)
  show "unat (src + of_nat j) + k < 2 ^ 64" "b (unat (src + of_nat j) + i) = b (unat src + (j + i))"
    using r by (simp_all add: u add.assoc)
qed (auto simp: buf_get_def)

definition user_room :: "u64 \<Rightarrow> kstate \<Rightarrow> u64 \<Rightarrow> nat \<Rightarrow> bool" where
  "user_room root ks va k \<longleftrightarrow> wf_pt ks root \<and> user_mapped (ram ks) root va k \<and> user_private (ram ks) root va k"

definition user_stored :: "u64 \<Rightarrow> kstate \<Rightarrow> u64 \<Rightarrow> bytes \<Rightarrow> nat \<Rightarrow> kstate \<Rightarrow> bool" where
  "user_stored root ks va f k ks' \<longleftrightarrow> (\<exists>m. ks' = ks\<lparr>ram := m\<rparr> \<and> stored_at (ram ks) root va f k m)"

lemma unat_ucast_32: "unat (ucast (k :: u32) :: u64) = unat k"
proof -
  have "unat k < 2 ^ 32" using unsigned_less [of k] by simp
  then show ?thesis by (simp add: unsigned_ucast_eq take_bit_nat_eq_self)
qed

interpretation user_sink: byte_sink "user_put root" "user_room root" "user_stored root"
  for root
proof
  fix ks :: kstate and va :: u64 and k :: u32 and f :: bytes
  assume "user_room root ks va (unat k)"
  then show "\<exists>ks'. user_put root ks va f k = Ok (0, ks') \<and> user_stored root ks va f (unat k) ks'"
    using copyout_spec [of ks root va "ucast k" f]
    by (auto simp: user_put_def either_copyout_def user_room_def user_stored_def unat_ucast_32)
next
  fix ks :: kstate and va :: u64 and f :: bytes
  show "user_stored root ks va f 0 ks" unfolding user_stored_def by (rule exI [of _ "ram ks"]) (simp add: stored_at_def)
next
  fix ks ks' :: kstate and va :: u64 and f g :: bytes and k :: nat
  assume "user_stored root ks va f k ks'" "\<And>i. i < k \<Longrightarrow> f i = g i"
  then show "user_stored root ks va g k ks'" by (auto simp: user_stored_def stored_at_def)
next
  fix ks ks1 ks2 :: kstate and va :: u64 and f :: bytes and j k :: nat
  assume r: "user_room root ks va (j + k)"
  then show "user_room root ks va j" using user_mapped_take user_private_take by (auto simp: user_room_def)
  assume "user_stored root ks va f j ks1"
  then obtain m1 where m1: "ks1 = ks\<lparr>ram := m1\<rparr>" "stored_at (ram ks) root va f j m1" by (auto simp: user_stored_def)
  have p: "user_private (ram ks) root va j" "wf_pt ks root" using r user_private_take by (auto simp: user_room_def)
  note keep = stored_at_keeps [OF p(2,1) m1(2)]
  show "user_room root ks1 (va + of_nat j) k"
    using r keep user_mapped_drop [of "ram ks" root va "j + k" j] user_private_drop [of "ram ks" root va "j + k" j]
    by (simp add: user_room_def m1(1))
  assume "user_stored root ks1 (va + of_nat j) (\<lambda>i. f (j + i)) k ks2"
  then obtain m2 where m2: "ks2 = ks\<lparr>ram := m2\<rparr>" "stored_at m1 root (va + of_nat j) (\<lambda>i. f (i + j)) k m2"
    by (auto simp: user_stored_def m1(1) add.commute)
  have "user_addr m1 root vb = user_addr (ram ks) root vb" for vb using keep(2) by (simp add: user_addr_def)
  then have "stored_at (ram ks) root va f (j + k) m2"
    using r m2(2) user_addr_distinct [of "ram ks" root va "j + k"]
    by (intro stored_at_append [OF m1(2)]) (simp_all add: user_room_def)
  then show "user_stored root ks va f (j + k) ks2" by (auto simp: user_stored_def m2(1))
qed

definition user_bytes :: "u64 \<Rightarrow> kstate \<Rightarrow> u64 \<Rightarrow> nat \<Rightarrow> u8" where
  "user_bytes root ks va i = user_byte (ram ks) root (va + of_nat i)"

interpretation user_source: byte_source "user_get root ks" "\<lambda>va k. wf_pt ks root \<and> user_mapped (ram ks) root va k" "user_bytes root ks"
  for root ks
proof
  fix f :: bytes and p :: nat and va :: u64 and w :: u32
  assume "wf_pt ks root \<and> user_mapped (ram ks) root va (unat w)"
  then show "user_get root ks f p va w = Ok (0, \<lambda>i. if p \<le> i \<and> i < p + unat w then user_bytes root ks va (i - p) else f i)"
    unfolding user_bytes_def by (simp add: user_get_def either_copyin_def copyin_spec unat_ucast_32)
next
  fix va :: u64 and j k i :: nat
  assume a: "wf_pt ks root \<and> user_mapped (ram ks) root va (j + k)"
  then show "wf_pt ks root \<and> user_mapped (ram ks) root va j" using user_mapped_take by auto
  show "wf_pt ks root \<and> user_mapped (ram ks) root (va + of_nat j) k"
    using a user_mapped_drop [of "ram ks" root va "j + k" j] by simp
  show "user_bytes root ks (va + of_nat j) i = user_bytes root ks va (j + i)" by (simp add: user_bytes_def add.assoc)
qed

section \<open>The contents of a file\<close>

text \<open>Byte \<open>i\<close> of a file with addresses \<open>as\<close>; bytes of missing blocks are 0.\<close>

definition fbyte :: "(u32 \<Rightarrow> bytes) \<Rightarrow> u32 list \<Rightarrow> nat \<Rightarrow> u8" where
  "fbyte v as i = fblock v as (i div BSIZE) (i mod BSIZE)"

definition no_holes :: "(u32 \<Rightarrow> bytes) \<Rightarrow> u32 list \<Rightarrow> nat \<Rightarrow> bool" where
  "no_holes v as sz \<longleftrightarrow> sz \<le> MAXFILE * BSIZE \<and> (\<forall>i < sz. blk v as (i div BSIZE) \<noteq> 0)"

lemma bmap_present:
  assumes "as = i_addrs (itable s ! ip)" "blk (fview s) as bn \<noteq> 0" "bn < MAXFILE"
  shows "bmap ip bn s = Ok (blk (fview s) as bn, s)"
  using assms by (auto simp: bmap_def bmap_addr_def blk_def Let_def MAXFILE_def split: if_splits)

lemma MAXBYTES: "MAXFILE * BSIZE = 274432"
  by (simp add: MAXFILE_def NDIRECT_def NINDIRECT_def BSIZE_def)

lemma sint_unat: "unat (c :: u32) < 2 ^ 31 \<Longrightarrow> sint c = int (unat c)"
  using sint_of_nat_int [of "unat c"] by simp

text \<open>A transfer of the length \<open>chunk\<close> stays within one block.\<close>

lemma within_block:
  assumes "i < BSIZE - off mod BSIZE"
  shows "(off + i) div BSIZE = off div BSIZE" "(off + i) mod BSIZE = off mod BSIZE + i"
proof -
  have lt: "off mod BSIZE + i < BSIZE" "i < BSIZE" using assms by linarith+
  show "(off + i) div BSIZE = off div BSIZE" using lt by (simp add: div_add1_eq [of off i])
  show "(off + i) mod BSIZE = off mod BSIZE + i" using lt by (metis mod_add_left_eq mod_less)
qed

lemma off_words: "unat (off div BS) = unat off div BSIZE" "unat (off mod BS) = unat off mod BSIZE"
  by (simp_all add: unat_div unat_mod BSIZE_def)

lemma chunk_off:
  assumes "tot < n" "unat off + (unat n - unat tot) \<le> MAXFILE * BSIZE"
  shows "unat (off + chunk off tot n) = unat off + unat (chunk off tot n)"
proof -
  have "unat off + unat (chunk off tot n) \<le> MAXFILE * BSIZE" using chunk_val(4) [OF assms(1), of off] assms(2) by linarith
  then show ?thesis by (simp add: unat_word_ariths MAXFILE_def NDIRECT_def NINDIRECT_def BSIZE_def)
qed

context byte_sink
begin

lemma readi_loop_reads:
  assumes "as = i_addrs (itable s ! ip)" "\<And>i. i < unat n - unat tot \<Longrightarrow> blk (fview s) as ((unat off + i) div BSIZE) \<noteq> 0"
    and "unat off + (unat n - unat tot) \<le> MAXFILE * BSIZE" "tot \<le> n" "room m dst (unat n - unat tot)"
  shows "\<exists>m'. readi_loop put ip dst off tot n m s = Ok (n, m', s) \<and>
    stored m dst (\<lambda>i. fbyte (fview s) as (unat off + i)) (unat n - unat tot) m'"
  using assms
proof (induction "unat n - unat tot" arbitrary: tot off dst m rule: less_induct)
  case less
  show ?case
  proof (cases "tot < n")
    case False
    then have "tot = n" using less.prems(4) by simp
    then show ?thesis using stored_nil by (subst readi_loop.simps) simp
  next
    case True
    define k where "k = chunk off tot n"
    note c = chunk_val [OF True, of off, folded k_def]
    let ?a = "blk (fview s) as (unat off div BSIZE)" and ?f = "\<lambda>i. fbyte (fview s) as (unat off + i)"
    have split: "unat n - unat tot = unat k + (unat n - unat (tot + k))" using c(3,4) by simp
    have bn: "unat off div BSIZE < MAXFILE"
      using less.prems(3) True by (simp add: less_mult_imp_div_less word_less_nat_alt)
    have a: "?a \<noteq> 0" using less.prems(2) [of 0] True by (simp add: word_less_nat_alt)
    have w: "(of_nat (unat k) :: u64) = ucast k" by simp
    have off: "unat (off + k) = unat off + unat k" unfolding k_def by (rule chunk_off [OF True less.prems(3)])
    have "room m dst (unat k)" using less.prems(5) room_take unfolding split by blast
    then obtain m1 where m1: "put m dst (\<lambda>i. fview s ?a (unat (off mod BS) + i)) k = Ok (0, m1)"
      "stored m dst (\<lambda>i. fview s ?a (unat (off mod BS) + i)) (unat k) m1" using put_ok by blast
    have st: "stored m dst ?f (unat k) m1"
      by (rule stored_cong [OF m1(2)]) (use a in \<open>simp add: fbyte_def fblock_def off_words within_block c(1) cong: if_cong\<close>)
    have "\<exists>m'. readi_loop put ip (dst + of_nat (unat k)) (off + k) (tot + k) n m1 s = Ok (n, m', s) \<and>
      stored m1 (dst + of_nat (unat k)) (\<lambda>i. fbyte (fview s) as (unat (off + k) + i)) (unat n - unat (tot + k)) m'"
    proof (rule less.hyps)
      show "unat n - unat (tot + k) < unat n - unat tot" using split c(2) by simp
      show "blk (fview s) as ((unat (off + k) + i) div BSIZE) \<noteq> 0" if "i < unat n - unat (tot + k)" for i
        using less.prems(2) [of "unat k + i"] that split by (simp add: off add.assoc)
      show "unat (off + k) + (unat n - unat (tot + k)) \<le> MAXFILE * BSIZE" using less.prems(3) split off by simp
      show "tot + k \<le> n" using c(3,4) by (simp add: word_le_nat_alt)
      show "room m1 (dst + of_nat (unat k)) (unat n - unat (tot + k))" using room_drop less.prems(5) st unfolding split by blast
    qed (rule less.prems(1))
    then obtain m' where m': "readi_loop put ip (dst + ucast k) (off + k) (tot + k) n m1 s = Ok (n, m', s)"
      "stored m1 (dst + ucast k) (\<lambda>i. ?f (unat k + i)) (unat n - unat (tot + k)) m'"
      unfolding off add.assoc w by blast
    have "readi_loop put ip dst off tot n m s = Ok (n, m', s)"
      using m1(1) m'(1) True a bmap_present [OF less.prems(1), of "unat off div BSIZE"] bn
      by (subst readi_loop.simps) (simp add: off_words k_def [symmetric] Let_def)
    moreover have "stored m dst ?f (unat n - unat tot) m'"
      using stored_append [OF _ st m'(2) [folded w]] less.prems(5) unfolding split by blast
    ultimately show ?thesis by blast
  qed
qed

lemma readi_reads:
  assumes "as = i_addrs (itable s ! ip)" "sz = unat (i_size (itable s ! ip))" "no_holes (fview s) as sz"
    and "unat off \<le> sz" "unat off + unat n < 2 ^ 32" "cnt = min (unat n) (sz - unat off)" "room m dst cnt"
  shows "\<exists>m'. readi put ip dst off n m s = Ok (int cnt, m', s) \<and> stored m dst (\<lambda>i. fbyte (fview s) as (unat off + i)) cnt m'"
proof -
  let ?sz = "i_size (itable s ! ip)"
  define c where "c = (if off + n > ?sz then ?sz - off else n)"
  have u: "unat (off + n) = unat off + unat n" using assms(5) by (simp add: unat_word_ariths)
  have le: "off \<le> ?sz" "\<not> off + n < off" using assms(2,4) u by (simp_all add: word_le_nat_alt word_less_nat_alt)
  have c: "unat c = cnt" using assms(2,4,6) u le(1) by (auto simp: c_def word_less_nat_alt unat_sub)
  have max: "sz \<le> MAXFILE * BSIZE" "\<And>i. i < sz \<Longrightarrow> blk (fview s) as (i div BSIZE) \<noteq> 0" using assms(3) by (auto simp: no_holes_def)
  have b: "blk (fview s) as ((unat off + i) div BSIZE) \<noteq> 0" if "i < cnt" for i
    by (rule max(2)) (use that assms(4,6) in linarith)
  have "\<exists>m'. readi_loop put ip dst off 0 c m s = Ok (c, m', s) \<and>
    stored m dst (\<lambda>i. fbyte (fview s) as (unat off + i)) (unat c - unat (0 :: u32)) m'"
    by (rule readi_loop_reads [OF assms(1)]) (use b max(1) assms(4,6,7) c in simp_all)
  moreover have "sint c = int cnt"
  proof -
    have "unat c \<le> sz" using assms(6) c by simp
    then have "unat c < 2 ^ 31" using max(1) by (simp add: MAXBYTES)
    then show ?thesis using sint_unat [of c] c by simp
  qed
  ultimately show ?thesis using le c unfolding readi_def by (auto simp: Let_def c_def [symmetric] not_less)
qed

end

section \<open>Writing\<close>

text \<open>
  \<open>file_written sb v as v' as' off f cnt\<close>: the file holds \<open>cnt\<close> bytes of \<open>f\<close> from \<open>off\<close> on and is otherwise as before;
  everything else in use, except for the free map, is untouched.
\<close>

definition file_written :: "superblock \<Rightarrow> (u32 \<Rightarrow> bytes) \<Rightarrow> u32 list \<Rightarrow> (u32 \<Rightarrow> bytes) \<Rightarrow> u32 list \<Rightarrow> nat \<Rightarrow> bytes \<Rightarrow> nat \<Rightarrow> bool" where
  "file_written sb v as v' as' off f cnt \<longleftrightarrow> meta_ok sb v' \<and> file_ok sb v' as' \<and>
     (\<forall>i < MAXFILE * BSIZE. fbyte v' as' i = (if off \<le> i \<and> i < off + cnt then f (i - off) else fbyte v as i)) \<and>
     (\<forall>i. off \<le> i \<and> i < off + cnt \<longrightarrow> blk v' as' (i div BSIZE) \<noteq> 0) \<and>
     (\<forall>bn < MAXFILE. blk v as bn \<noteq> 0 \<longrightarrow> blk v' as' bn = blk v as bn) \<and>
     (\<forall>b < sb_size sb. used sb v b \<longrightarrow> used sb v' b \<and> (b \<notin> fblocks v as \<longrightarrow> b \<notin> fblocks v' as' \<and> (\<not> map_block sb b \<longrightarrow> v' b = v b)))"

lemma block_of_byte: "i < MAXFILE * BSIZE \<Longrightarrow> i div BSIZE < MAXFILE" "i mod BSIZE < BSIZE"
  by (simp_all add: less_mult_imp_div_less BSIZE_def)

lemma grown_written: "file_grown sb v as v' as' \<Longrightarrow> file_written sb v as v' as' off f 0"
  by (auto simp: file_grown_def file_written_def fbyte_def block_of_byte)

lemma file_written_append:
  assumes "file_written sb v as v1 as1 off f j" "file_written sb v1 as1 v2 as2 (off + j) (\<lambda>i. f (j + i)) k" "off + (j + k) \<le> MAXFILE * BSIZE"
  shows "file_written sb v as v2 as2 off f (j + k)"
proof -
  have nz: "blk v2 as2 (i div BSIZE) \<noteq> 0" if "off \<le> i" "i < off + (j + k)" for i
  proof (cases "i < off + j")
    case True
    then have "blk v1 as1 (i div BSIZE) \<noteq> 0" using assms(1) that by (simp add: file_written_def)
    moreover have "i div BSIZE < MAXFILE" using that assms(3) by (intro block_of_byte) simp
    ultimately show ?thesis using assms(2) by (simp add: file_written_def)
  qed (use assms(2) that in \<open>simp add: file_written_def\<close>)
  have "fbyte v2 as2 i = (if off \<le> i \<and> i < off + (j + k) then f (i - off) else fbyte v as i)" if "i < MAXFILE * BSIZE" for i
    using assms(1,2) that by (auto simp: file_written_def)
  moreover have "blk v2 as2 bn = blk v as bn" if "bn < MAXFILE" "blk v as bn \<noteq> 0" for bn
    using assms(1,2) that by (simp add: file_written_def)
  moreover have "used sb v2 b \<and> (b \<notin> fblocks v as \<longrightarrow> b \<notin> fblocks v2 as2 \<and> (\<not> map_block sb b \<longrightarrow> v2 b = v b))"
    if "b < sb_size sb" "used sb v b" for b using assms(1,2) that by (simp add: file_written_def)
  moreover have "meta_ok sb v2" "file_ok sb v2 as2" using assms(2) by (simp_all add: file_written_def)
  ultimately show ?thesis using nz unfolding file_written_def by blast
qed

text \<open>A store into one block of the file.\<close>

lemma store_block:
  assumes "meta_ok sb v" "file_ok sb v as" "bn < MAXFILE" "a = blk v as bn" "a \<noteq> 0" "v' = v(a := g)"
  shows "blk v' as = blk v as" "meta_ok sb v'" "file_ok sb v' as"
    "n < MAXFILE \<Longrightarrow> fblock v' as n = (if n = bn then g else fblock v as n)"
    "b < sb_size sb \<Longrightarrow> used sb v' b = used sb v b" "b \<notin> fblocks v as \<Longrightarrow> v' b = v b"
proof -
  have d: "data_block sb v a" using file_blk_data [OF assms(2,3)] assms(4,5) by simp
  have ni: "a \<noteq> as ! NDIRECT" using assms(2-5) by (simp add: file_ok_def)
  show b: "blk v' as = blk v as" using ni by (intro blk_cong) (simp add: assms(6))
  show u: "used sb v' b = used sb v b" if "b < sb_size sb" for b using that d by (simp add: assms(6) used_other_block data_block_def)
  show "meta_ok sb v'" by (rule meta_ok_same [OF assms(1) u])
  have fb: "fblocks v' as = fblocks v as" by (simp add: fblocks_def b)
  show "file_ok sb v' as" using assms(2) u unfolding file_ok_def b fb by (auto simp: data_block_def)
  show "fblock v' as n = (if n = bn then g else fblock v as n)" if "n < MAXFILE"
  proof (cases "n = bn \<or> blk v as n = 0")
    case False
    then have "blk v as n \<noteq> a" using assms(2-5) that by (auto simp: file_ok_def)
    then have "v' (blk v as n) = v (blk v as n)" by (simp add: assms(6))
    then show ?thesis using False unfolding fblock_def b by simp
  next
    case True
    have "v' a = g" by (simp add: assms(6))
    then show ?thesis using True assms(4,5) unfolding fblock_def b by auto
  qed
  show "v' b = v b" if "b \<notin> fblocks v as" for b using that assms(3-5) by (auto simp: assms(6) fblocks_def)
qed

lemma store_chunk:
  assumes "meta_ok sb v" "file_ok sb v as" "bn = off div BSIZE" "bn < MAXFILE" "a = blk v as bn" "a \<noteq> 0" "k \<le> BSIZE - off mod BSIZE"
    and "v' = v(a := \<lambda>i. if off mod BSIZE \<le> i \<and> i < off mod BSIZE + k then f (i - off mod BSIZE) else v a i)"
  shows "file_written sb v as v' as off f k"
proof -
  note st = store_block [OF assms(1,2,4,5,6,8)]
  have byte: "fbyte v' as i = (if off \<le> i \<and> i < off + k then f (i - off) else fbyte v as i)" if "i < MAXFILE * BSIZE" for i
  proof (cases "off \<le> i \<and> i < off + k")
    case True
    then obtain j where j: "i = off + j" "j < k" by (metis add_less_cancel_left le_Suc_ex)
    then have "i div BSIZE = bn" "i mod BSIZE = off mod BSIZE + j" using within_block [of j off] assms(3,7) by auto
    then show ?thesis using j st(4) [OF assms(4)] by (simp add: fbyte_def)
  next
    case False
    have "\<not> (off mod BSIZE \<le> i mod BSIZE \<and> i mod BSIZE < off mod BSIZE + k)" if "i div BSIZE = bn"
    proof -
      have "i = bn * BSIZE + i mod BSIZE" "off = bn * BSIZE + off mod BSIZE" using that assms(3) by (metis div_mult_mod_eq)+
      then show ?thesis using False by linarith
    qed
    then show ?thesis using False st(4) [OF block_of_byte(1) [OF that]] assms(5,6)
      by (auto simp: fbyte_def fblock_def)
  qed
  have "blk v' as (i div BSIZE) \<noteq> 0" if "off \<le> i" "i < off + k" for i
    using within_block [of "i - off" off] that assms(3,5,6,7) st(1) by auto
  then show ?thesis using byte st(1-3,5,6) by (auto simp: file_written_def fblocks_def)
qed

text \<open>The inode after a write that ended at \<open>e\<close>.\<close>

definition after_write :: "inode \<Rightarrow> u32 list \<Rightarrow> nat \<Rightarrow> inode" where
  "after_write x as e = x\<lparr>i_addrs := as, i_size := (if e > unat (i_size x) then of_nat e else i_size x)\<rparr>"

text \<open>The number of blocks that a transfer touches, which bounds what it adds to the log.\<close>

definition nblocks :: "nat \<Rightarrow> nat \<Rightarrow> nat" where
  "nblocks off r = (if r = 0 then 0 else (off + r - 1) div BSIZE - off div BSIZE + 1)"

lemma nblocks_step:
  assumes "0 < r" "c = min r (BSIZE - off mod BSIZE)"
  shows "nblocks off r = Suc (nblocks (off + c) (r - c))"
proof (cases "r \<le> BSIZE - off mod BSIZE")
  case True
  then have "(off + (r - 1)) div BSIZE = off div BSIZE" using assms(1) by (intro within_block) simp
  then show ?thesis using True assms by (simp add: nblocks_def)
next
  case False
  have B: "0 < BSIZE" "off mod BSIZE < BSIZE" by (simp_all add: BSIZE_def)
  have c: "c = BSIZE - off mod BSIZE" using False assms(2) by simp
  have "BSIZE * (off div BSIZE) + off mod BSIZE = off" by simp
  then have "off + c = BSIZE * (off div BSIZE) + BSIZE" using B c by linarith
  then have "off + c = BSIZE * (off div BSIZE + 1)" by simp
  then have q: "(off + c) div BSIZE = off div BSIZE + 1" using B by simp
  moreover have "(off + c) div BSIZE \<le> (off + r - 1) div BSIZE" using False c by (intro div_le_mono) simp
  moreover have "off + c + (r - c) - 1 = off + r - 1" "r - c \<noteq> 0" using False c by auto
  ultimately show ?thesis using assms(1) by (simp add: nblocks_def)
qed

lemma file_written_cong:
  assumes "file_written sb v as v' as' off f k" "\<And>i. i < k \<Longrightarrow> f i = g i"
  shows "file_written sb v as v' as' off g k"
proof -
  have eq: "(if off \<le> i \<and> i < off + k then f (i - off) else x) = (if off \<le> i \<and> i < off + k then g (i - off) else x)" for i x
    using assms(2) [of "i - off"] by auto
  show ?thesis using assms(1) unfolding file_written_def eq .
qed

lemma with_addrs_simps [simp]:
  "with_addrs ip a2 (with_addrs ip a1 tab) = with_addrs ip a2 tab" "length (with_addrs ip a tab) = length tab"
  "ip < length tab \<Longrightarrow> i_addrs (with_addrs ip a tab ! ip) = a" "jp \<noteq> ip \<Longrightarrow> with_addrs ip a tab ! jp = tab ! jp"
proof -
  show "with_addrs ip a2 (with_addrs ip a1 tab) = with_addrs ip a2 tab"
    by (cases "ip < length tab") (simp_all add: with_addrs_def list_update_beyond)
qed (simp_all add: with_addrs_def)

context byte_source
begin

lemma writei_loop_writes:
  assumes "sb = fsb s" "as = i_addrs (itable s ! ip)" "meta_ok sb (fview s)" "file_ok sb (fview s) as" "ip < length (itable s)"
    and "r = unat n - unat tot" "unat off + r \<le> MAXFILE * BSIZE" "tot \<le> n" "avail src r" "log_room (6 * nblocks (unat off) r + k) s"
  shows "\<exists>t s' as'. writei_loop get ip src off tot n s = Ok (off + t, tot + t, s') \<and> unat t \<le> r \<and>
    itable s' = with_addrs ip as' (itable s) \<and> effect (6 * nblocks (unat off) r) (home sb) s s' \<and> log_room k s' \<and>
    file_written sb (fview s) as (fview s') as' (unat off) (content src) (unat t) \<and> (unat t < r \<longrightarrow> no_free sb (fview s'))"
  using assms
proof (induction r arbitrary: tot off src s as rule: less_induct)
  case (less r)
  show ?case
  proof (cases "tot < n")
    case False
    then have "tot = n" "r = 0" using less.prems(6,8) by simp_all
    moreover have "file_written sb (fview s) as (fview s) as (unat off) (content src) 0"
      using less.prems(3,4) file_grown_refl grown_written by blast
    ultimately show ?thesis using less.prems(2,10) with_addrs_same [of ip "itable s"]
      by (subst writei_loop.simps) (auto intro!: exI [of _ 0] exI [of _ s] exI [of _ as] simp: nblocks_def)
  next
    case True
    define c where "c = chunk off tot n"
    note cv = chunk_val [OF True, of off, folded c_def]
    let ?bn = "unat off div BSIZE" and ?r = "r - unat c" and ?f = "content src"
    have r: "r = unat c + ?r" "?r = unat n - unat (tot + c)" "unat c = min r (BSIZE - unat off mod BSIZE)" "0 < r"
      using cv less.prems(6) by simp_all
    define nb where "nb = nblocks (unat off + unat c) ?r"
    have nb: "nblocks (unat off) r = Suc nb" unfolding nb_def by (rule nblocks_step [OF r(4,3)])
    have bn: "?bn < MAXFILE" using less.prems(7) r(4) by (intro less_mult_imp_div_less) simp
    have off: "unat (off + c) = unat off + unat c" unfolding c_def by (rule chunk_off [OF True]) (use less.prems(6,7) in simp)
    have "log_room (6 * nb + k + 1 + 5) s" using less.prems(10) nb by (simp add: algebra_simps)
    with less.prems(1-5) bn obtain s1 as1 where s1: "bmap ip ?bn s = Ok (blk (fview s1) as1 ?bn, s1)" "itable s1 = with_addrs ip as1 (itable s)"
      "effect 5 (home sb) s s1" "log_room (6 * nb + k + 1) s1" "file_grown sb (fview s) as (fview s1) as1"
      "blk (fview s1) as1 ?bn = 0 \<Longrightarrow> no_free sb (fview s1)" by (metis bmap_ok)
    have sb1: "fsb s1 = sb" using effect_sel(1) [OF s1(3)] less.prems(1) by simp
    have ok1: "meta_ok sb (fview s1)" "file_ok sb (fview s1) as1" using s1(5) by (simp_all add: file_grown_def)
    define a where "a = blk (fview s1) as1 ?bn"
    show ?thesis
    proof (cases "a = 0")
      case full: True
      have "writei_loop get ip src off tot n s = Ok (off + 0, tot + 0, s1)"
        using True s1(1) full by (subst writei_loop.simps) (simp add: off_words a_def)
      moreover have "effect (6 * nblocks (unat off) r) (home sb) s s1" using effect_mono [OF s1(3)] nb by simp
      moreover have "log_room k s1" using s1(4) by (auto simp: log_room_def)
      moreover have "file_written sb (fview s) as (fview s1) as1 (unat off) ?f (unat (0 :: u32))" using grown_written [OF s1(5)] by simp
      ultimately show ?thesis using s1(2,6) full unfolding a_def by fastforce
    next
      case False
      let ?p = "unat off mod BSIZE"
      define data where "data = (\<lambda>i. if ?p \<le> i \<and> i < ?p + unat c then ?f (i - ?p) else fview s1 a i)"
      have g: "get (fview s1 a) ?p src c = Ok (0, data)" unfolding data_def
        by (rule get_ok) (use less.prems(9) avail_take r(1) in metis)
      have "log_room (Suc (6 * nb + k)) s1" using s1(4) by simp
      from log_block_ok [OF this, of a data] obtain s2 where s2: "log_block a data s1 = Ok s2" "effect 1 {a} s1 s2" "log_room (6 * nb + k) s2"
        "fview s2 = (fview s1)(a := data)" "fs_state.more s2 = fs_state.more s1" by metis
      have it2: "itable s2 = with_addrs ip as1 (itable s)" using more_itable [OF s2(5)] s1(2) by simp
      have w1: "file_written sb (fview s1) as1 (fview s2) as1 (unat off) ?f (unat c)"
        by (rule store_chunk [OF ok1 refl bn a_def False]) (use r(3) s2(4) in \<open>simp_all add: data_def\<close>)
      have w2: "file_written sb (fview s) as (fview s2) as1 (unat off) ?f (unat c)"
        using file_written_append [OF grown_written [OF s1(5), of "unat off" ?f], of "fview s2" as1 "unat c"] w1 less.prems(7) r(1) by simp
      have "a \<in> home sb" using file_blk_data [OF ok1(2) bn] False by (simp add: a_def data_block_def)
      then have e2: "effect 6 (home sb) s s2" using effect_trans [OF s1(3) s2(2)] by (simp add: less.prems(1) insert_absorb)
      have "\<exists>t s' as'. writei_loop get ip (src + of_nat (unat c)) (off + c) (tot + c) n s2 = Ok (off + c + t, tot + c + t, s') \<and> unat t \<le> ?r \<and>
        itable s' = with_addrs ip as' (itable s2) \<and> effect (6 * nblocks (unat (off + c)) ?r) (home sb) s2 s' \<and> log_room k s' \<and>
        file_written sb (fview s2) as1 (fview s') as' (unat (off + c)) (content (src + of_nat (unat c))) (unat t) \<and>
        (unat t < ?r \<longrightarrow> no_free sb (fview s'))"
      proof (rule less.IH)
        show "?r < r" using cv(2) r(1) by simp
        show "sb = fsb s2" using effect_sel(1) [OF s2(2)] sb1 by simp
        show "as1 = i_addrs (itable s2 ! ip)" "ip < length (itable s2)" using it2 less.prems(5) by simp_all
        show "meta_ok sb (fview s2)" "file_ok sb (fview s2) as1" using w1 by (simp_all add: file_written_def)
        show "unat (off + c) + ?r \<le> MAXFILE * BSIZE" using less.prems(7) off r(1) by simp
        show "tot + c \<le> n" using cv(3,4) by (simp add: word_le_nat_alt)
        show "avail (src + of_nat (unat c)) ?r" using less.prems(9) avail_drop r(1) by metis
        show "log_room (6 * nblocks (unat (off + c)) ?r + k) s2" using s2(3) off by (simp add: nb_def)
      qed (rule r(2))
      then obtain t s' as' where t: "writei_loop get ip (src + ucast c) (off + c) (tot + c) n s2 = Ok (off + (c + t), tot + (c + t), s')"
        "unat t \<le> ?r" "itable s' = with_addrs ip as' (itable s)" "effect (6 * nb) (home sb) s2 s'" "log_room k s'"
        "file_written sb (fview s2) as1 (fview s') as' (unat off + unat c) (content (src + of_nat (unat c))) (unat t)"
        "unat t < ?r \<longrightarrow> no_free sb (fview s')"
        unfolding off it2 nb_def [symmetric] add.assoc by auto
      have ct: "unat (c + t) = unat c + unat t" using t(2) r(1) less.prems(7)
        by (subst unat_word_ariths) (simp add: MAXBYTES)
      have "content (src + of_nat (unat c)) i = content src (unat c + i)" if "i < unat t" for i
        by (rule content_drop [of src "unat c" ?r]) (use less.prems(9) r(1) t(2) that in simp_all)
      then have "file_written sb (fview s2) as1 (fview s') as' (unat off + unat c) (\<lambda>i. ?f (unat c + i)) (unat t)"
        by (rule file_written_cong [OF t(6)])
      then have "file_written sb (fview s) as (fview s') as' (unat off) ?f (unat (c + t))"
        using file_written_append [OF w2] t(2) less.prems(7) r(1) ct by simp
      moreover have "writei_loop get ip src off tot n s = Ok (off + (c + t), tot + (c + t), s')"
        using True s1(1) False g s2(1) t(1)
        by (subst writei_loop.simps) (simp add: off_words a_def [symmetric] c_def [symmetric] Let_def)
      moreover have "effect (6 * nblocks (unat off) r) (home sb) s s'" using effect_trans [OF e2 t(4)] nb by simp
      moreover have "unat (c + t) \<le> r" "unat (c + t) < r \<Longrightarrow> unat t < ?r" using t(2) ct r(1) by linarith+
      ultimately show ?thesis using t(3,5,7) by blast
    qed
  qed
qed

lemma writei_result:
  assumes "sb = fsb s" "x = itable s ! ip" "meta_ok sb (fview s)" "file_ok sb (fview s) (i_addrs x)" "ip < length (itable s)" "i_inum x < sb_ninodes sb"
    and "off \<le> i_size x" "unat off + unat n \<le> MAXFILE * BSIZE" "avail src (unat n)" "log_room (6 * nblocks (unat off) (unat n) + 1 + k) s"
  shows "\<exists>t (s1 :: fs) as' s'. writei get ip src off n s = Ok (int t, s') \<and> t \<le> unat n \<and> (t < unat n \<longrightarrow> no_free sb (fview s1)) \<and>
    file_written sb (fview s) (i_addrs x) (fview s1) as' (unat off) (content src) t \<and> effect (6 * nblocks (unat off) (unat n)) (home sb) s s1 \<and>
    itable s' = (itable s)[ip := after_write x as' (unat off + t)] \<and> effect 1 {IBLOCK (i_inum x) sb} s1 s' \<and> log_room k s' \<and>
    fview s' = (fview s1)(IBLOCK (i_inum x) sb :=
      put_dinode (inode_dinode (after_write x as' (unat off + t))) (slot (i_inum x)) (fview s1 (IBLOCK (i_inum x) sb)))"
proof -
  have u: "unat (off + n) = unat off + unat n" using assms(8) by (simp add: unat_word_ariths MAXBYTES)
  have "\<exists>t s' as'. writei_loop get ip src off 0 n s = Ok (off + t, 0 + t, s') \<and> unat t \<le> unat n \<and>
    itable s' = with_addrs ip as' (itable s) \<and> effect (6 * nblocks (unat off) (unat n)) (home sb) s s' \<and> log_room (1 + k) s' \<and>
    file_written sb (fview s) (i_addrs x) (fview s') as' (unat off) (content src) (unat t) \<and> (unat t < unat n \<longrightarrow> no_free sb (fview s'))"
    by (rule writei_loop_writes [OF assms(1)]) (use assms in \<open>simp_all add: add.assoc\<close>)
  then obtain t s1 as' where l: "writei_loop get ip src off 0 n s = Ok (off + t, t, s1)" "unat t \<le> unat n"
    "itable s1 = with_addrs ip as' (itable s)" "effect (6 * nblocks (unat off) (unat n)) (home sb) s s1" "log_room (Suc k) s1"
    "file_written sb (fview s) (i_addrs x) (fview s1) as' (unat off) (content src) (unat t)" "unat t < unat n \<longrightarrow> no_free sb (fview s1)"
    by auto
  have ot: "unat (off + t) = unat off + unat t" using assms(8) l(2) by (simp add: unat_word_ariths MAXBYTES)
  define y where "y = after_write x as' (unat off + unat t)"
  define s2 where "s2 = (if off + t > i_size (itable s1 ! ip) then upd_inode ip (\<lambda>x. x\<lparr>i_size := off + t\<rparr>) s1 else s1)"
  have x1: "itable s1 ! ip = x\<lparr>i_addrs := as'\<rparr>" using l(3) assms(2,5) by (simp add: with_addrs_def)
  have it2: "itable s2 = (itable s)[ip := y]"
    using x1 l(3) assms(2) ot by (simp add: s2_def y_def after_write_def with_addrs_def word_less_nat_alt)
  have y2: "itable s2 ! ip = y" using it2 assms(5) by simp
  have same: "fsb s2 = sb" "flog s2 = flog s1" "fdev s2 = fdev s1" using effect_sel(1) [OF l(4)] assms(1) by (simp_all add: s2_def)
  have "length (i_addrs y) = NDIRECT + 1" using l(6) by (simp add: y_def after_write_def file_written_def file_ok_def)
  moreover have "log_room (Suc k) s2" using l(5) same by (simp add: log_room_def)
  ultimately obtain s' where s': "iupdate ip s2 = Ok s'" "effect 1 {IBLOCK (i_inum y) sb} s2 s'" "log_room k s'" "itable s' = itable s2"
    "fview s' = (fview s2)(IBLOCK (i_inum y) sb := put_dinode (inode_dinode y) (slot (i_inum y)) (fview s2 (IBLOCK (i_inum y) sb)))"
    using iupdate_ok [of k s2 ip] unfolding y2 same(1) by metis
  have tlt: "sint t = int (unat t)" using l(2) assms(8) by (intro sint_unat) (simp add: MAXBYTES)
  have g: "\<not> off > i_size (itable s ! ip)" "\<not> off + n < off" "\<not> unat (off + n) > MAXFILE * BSIZE"
    using assms(2,7,8) u by (simp_all add: word_less_nat_alt word_le_nat_alt)
  have "writei get ip src off n s = Ok (int (unat t), s')"
    using g l(1) s'(1) tlt by (simp add: writei_def Let_def s2_def [symmetric])
  moreover have "effect 1 {IBLOCK (i_inum x) sb} s1 s'" using s'(2) same effect_sel(1) [OF l(4)] assms(1) by (simp add: effect_def y_def after_write_def)
  moreover have yi: "i_inum y = i_inum x" by (simp add: y_def after_write_def)
  moreover have "fview s' = (fview s1)(IBLOCK (i_inum x) sb := put_dinode (inode_dinode y) (slot (i_inum x)) (fview s1 (IBLOCK (i_inum x) sb)))"
    using s'(5) unfolding same(3) yi .
  moreover have "itable s' = (itable s)[ip := y]" using s'(4) it2 by simp
  ultimately show ?thesis using l(2,4,6,7) s'(3) unfolding y_def by blast
qed

end

section \<open>Files in the table\<close>

definition file_at :: "fs \<Rightarrow> nat \<Rightarrow> bool" where
  "file_at s ip \<longleftrightarrow> ip < length (itable s) \<and> meta_ok (fsb s) (fview s) \<and>
     (let x = itable s ! ip in file_ok (fsb s) (fview s) (i_addrs x) \<and> no_holes (fview s) (i_addrs x) (unat (i_size x)) \<and>
        i_inum x < sb_ninodes (fsb s))"

definition file_contents :: "fs \<Rightarrow> nat \<Rightarrow> u8 list" where
  "file_contents s ip = (let x = itable s ! ip in map (fbyte (fview s) (i_addrs x)) [0..<unat (i_size x)])"

text \<open>Two files without a common block.\<close>

definition apart :: "fs \<Rightarrow> nat \<Rightarrow> nat \<Rightarrow> bool" where
  "apart s ip jp \<longleftrightarrow> fblocks (fview s) (i_addrs (itable s ! ip)) \<inter> fblocks (fview s) (i_addrs (itable s ! jp)) = {}"

text \<open>A file whose blocks are the same in two views.\<close>

lemma same_file:
  assumes "file_ok sb v as" "\<And>b. b \<in> fblocks v as \<Longrightarrow> v' b = v b" "\<And>b. b < sb_size sb \<Longrightarrow> used sb v b \<Longrightarrow> used sb v' b"
  shows "file_ok sb v' as" "i < MAXFILE * BSIZE \<Longrightarrow> fbyte v' as i = fbyte v as i" "no_holes v' as sz = no_holes v as sz" "fblocks v' as = fblocks v as"
proof -
  have b: "blk v' as = blk v as" using assms(2) by (intro blk_cong) (simp add: fblocks_def)
  show f: "fblocks v' as = fblocks v as" by (simp add: fblocks_def b)
  show "file_ok sb v' as" using assms(1,3) unfolding file_ok_def b f by (auto simp: data_block_def)
  show "no_holes v' as sz = no_holes v as sz" by (simp add: no_holes_def b)
  show "fbyte v' as i = fbyte v as i" if "i < MAXFILE * BSIZE"
  proof (cases "blk v as (i div BSIZE) = 0")
    case False
    then have "blk v as (i div BSIZE) \<in> fblocks v as" using block_of_byte(1) [OF that] by (auto simp: fblocks_def)
    then show ?thesis using assms(2) unfolding fbyte_def fblock_def b by simp
  qed (simp add: fbyte_def fblock_def b)
qed

text \<open>A store into an inode block leaves files alone.\<close>

lemma inode_store:
  assumes "meta_ok sb v" "inode_block sb b" "v' = v(b := g)"
  shows "meta_ok sb v'" "used sb v' n = used sb v n \<or> \<not> n < sb_size sb" "file_ok sb v as \<Longrightarrow> file_ok sb v' as"
    "file_ok sb v as \<Longrightarrow> i < MAXFILE * BSIZE \<Longrightarrow> fbyte v' as i = fbyte v as i" "file_ok sb v as \<Longrightarrow> no_holes v' as sz = no_holes v as sz"
    "file_ok sb v as \<Longrightarrow> fblocks v' as = fblocks v as"
proof -
  have "\<not> map_block sb b" using assms(1,2) by (simp add: meta_ok_def)
  then have u: "used sb v' n = used sb v n" if "n < sb_size sb" for n using that by (simp add: assms(3) used_other_block)
  then show "used sb v' n = used sb v n \<or> \<not> n < sb_size sb" by blast
  show "meta_ok sb v'" by (rule meta_ok_same [OF assms(1) u])
  have s: "v' n = v n" if "file_ok sb v as" "n \<in> fblocks v as" for n using that assms(2) by (auto simp: assms(3) file_ok_def data_block_def)
  show "file_ok sb v as \<Longrightarrow> file_ok sb v' as" "file_ok sb v as \<Longrightarrow> i < MAXFILE * BSIZE \<Longrightarrow> fbyte v' as i = fbyte v as i"
    "file_ok sb v as \<Longrightarrow> no_holes v' as sz = no_holes v as sz" "file_ok sb v as \<Longrightarrow> fblocks v' as = fblocks v as"
    using same_file [of sb v as v'] s u by simp_all
qed

lemma written_holes:
  assumes "file_written sb v as v' as' off f t" "no_holes v as sz" "off \<le> sz" "off + t \<le> MAXFILE * BSIZE"
  shows "no_holes v' as' (max sz (off + t))"
proof -
  have "blk v' as' (i div BSIZE) \<noteq> 0" if "i < max sz (off + t)" for i
  proof (cases "i < sz")
    case True
    then have "blk v as (i div BSIZE) \<noteq> 0" "i div BSIZE < MAXFILE" using assms(2) block_of_byte(1) [of i] by (auto simp: no_holes_def)
    then show ?thesis using assms(1) by (simp add: file_written_def)
  qed (use assms(1,3) that in \<open>auto simp: file_written_def\<close>)
  then show ?thesis using assms(2,4) by (simp add: no_holes_def)
qed

lemma after_write_size: "off + t \<le> MAXFILE * BSIZE \<Longrightarrow> unat (i_size (after_write x as' (off + t))) = max (unat (i_size x)) (off + t)"
  by (simp add: after_write_def MAXBYTES unat_of_nat max_def del: of_nat_add)

lemma nth_overwrite:
  assumes "off \<le> length xs" "i < max (length xs) (off + length ys)"
  shows "overwrite off ys xs ! i = (if off \<le> i \<and> i < off + length ys then ys ! (i - off) else xs ! i)"
  using assms by (auto simp: overwrite_def nth_append min_def)

lemma length_overwrite_max: "off \<le> length xs \<Longrightarrow> length (overwrite off ys xs) = max (length xs) (off + length ys)"
  by (simp add: overwrite_def max_def)

text \<open>The whole of \<^verbatim>\<open>writei\<close>: the data and then the inode.\<close>

lemma written_inode:
  fixes s s1 s' :: fs and x as' off f t
  defines "y \<equiv> after_write x as' (off + t)" and "sb \<equiv> fsb s" and "b \<equiv> IBLOCK (i_inum x) (fsb s)"
  assumes at: "file_at s ip" and x: "x = itable s ! ip" and w: "file_written sb (fview s) (i_addrs x) (fview s1) as' off f t"
    and off: "off \<le> unat (i_size x)" "off + t \<le> MAXFILE * BSIZE" and it: "itable s' = (itable s)[ip := y]" and sb': "fsb s' = sb"
    and v': "fview s' = (fview s1)(b := put_dinode (inode_dinode y) (slot (i_inum x)) (fview s1 b))"
  shows "file_at s' ip" "file_contents s' ip = overwrite off (map f [0..<t]) (file_contents s ip)"
    "jp \<noteq> ip \<Longrightarrow> file_at s jp \<Longrightarrow> apart s ip jp \<Longrightarrow> file_at s' jp \<and> file_contents s' jp = file_contents s jp \<and> apart s' ip jp"
    "disk_inode sb (fview s') (i_inum x) = inode_dinode (itable s' ! ip)"
proof -
  have s: "ip < length (itable s)" "no_holes (fview s) (i_addrs x) (unat (i_size x))" "i_inum x < sb_ninodes sb"
    using at x by (simp_all add: file_at_def Let_def sb_def)
  have y: "itable s' ! ip = y" "i_addrs y = as'" "i_inum y = i_inum x" "unat (i_size y) = max (unat (i_size x)) (off + t)"
    using it s(1) after_write_size [OF off(2)] by (simp_all add: y_def after_write_def)
  have ok1: "meta_ok sb (fview s1)" "file_ok sb (fview s1) as'" using w by (simp_all add: file_written_def)
  have "inode_block sb b" using s(3) by (auto simp: inode_block_def b_def sb_def)
  note st = inode_store [OF ok1(1) this v']
  have "no_holes (fview s') as' (unat (i_size y))" using written_holes [OF w s(2) off] st(5) [OF ok1(2)] y(4) by simp
  then show "file_at s' ip" using st(1,3) ok1(2) y s it sb' by (simp add: file_at_def Let_def)
  show "disk_inode sb (fview s') (i_inum x) = inode_dinode (itable s' ! ip)"
    using ok1(2) disk_inode_put [of "inode_dinode y" "fview s'" "fview s1" "i_inum x" sb] y(1,2) v'
    by (simp add: b_def sb_def inode_dinode_def file_ok_def)
  have sz: "unat (i_size x) \<le> MAXFILE * BSIZE" using s(2) by (simp add: no_holes_def)
  show "file_contents s' ip = overwrite off (map f [0..<t]) (file_contents s ip)"
  proof (rule nth_equalityI)
    show "length (file_contents s' ip) = length (overwrite off (map f [0..<t]) (file_contents s ip))"
      using off(1) y x by (simp add: length_overwrite_max file_contents_def Let_def)
    fix i assume "i < length (file_contents s' ip)"
    then have i: "i < max (unat (i_size x)) (off + t)" "i < MAXFILE * BSIZE" using y sz off(2) by (simp_all add: file_contents_def Let_def)
    then have "fbyte (fview s') as' i = (if off \<le> i \<and> i < off + t then f (i - off) else fbyte (fview s) (i_addrs x) i)"
      using st(4) [OF ok1(2)] w by (simp add: file_written_def)
    then show "file_contents s' ip ! i = overwrite off (map f [0..<t]) (file_contents s ip) ! i"
      using i(1) off(1) y x by (auto simp: nth_overwrite file_contents_def Let_def)
  qed
  show "file_at s' jp \<and> file_contents s' jp = file_contents s jp \<and> apart s' ip jp" if j: "jp \<noteq> ip" "file_at s jp" "apart s ip jp"
  proof -
    define as2 where "as2 = i_addrs (itable s ! jp)"
    have f2: "file_ok sb (fview s) as2" "fblocks (fview s) (i_addrs x) \<inter> fblocks (fview s) as2 = {}" "itable s' ! jp = itable s ! jp"
      using j x it by (simp_all add: file_at_def Let_def sb_def as2_def apart_def)
    have keep: "n \<notin> fblocks (fview s1) as' \<and> fview s1 n = fview s n" if "n \<in> fblocks (fview s) as2" for n
    proof -
      have "data_block sb (fview s) n" "n \<notin> fblocks (fview s) (i_addrs x)" using f2 that by (auto simp: file_ok_def)
      then show ?thesis using w by (simp add: file_written_def data_block_def)
    qed
    note sf = same_file [OF f2(1), of "fview s1"]
    have sf: "file_ok sb (fview s1) as2" "\<And>i. i < MAXFILE * BSIZE \<Longrightarrow> fbyte (fview s1) as2 i = fbyte (fview s) as2 i"
      "\<And>sz. no_holes (fview s1) as2 sz = no_holes (fview s) as2 sz" "fblocks (fview s1) as2 = fblocks (fview s) as2"
      using sf keep w by (simp_all add: file_written_def)
    have sz2: "unat (i_size (itable s ! jp)) \<le> MAXFILE * BSIZE" using j(2) by (simp add: file_at_def no_holes_def Let_def)
    have "file_at s' jp" using j(2) f2(3) st(1,3,5) sf(1,3) it sb' by (simp add: file_at_def Let_def as2_def sb_def)
    moreover have "file_contents s' jp = file_contents s jp"
      using f2(3) st(4) [OF sf(1)] sf(2) sz2 by (simp add: file_contents_def Let_def as2_def [symmetric])
    moreover have "apart s' ip jp" using y f2(3) st(6) [OF sf(1)] st(6) [OF ok1(2)] sf(4) keep
      by (auto simp: apart_def as2_def [symmetric])
    ultimately show ?thesis by blast
  qed
qed

text \<open>What \<^verbatim>\<open>writei\<close> does to a file and to the others.\<close>

context byte_source
begin

lemma writei_contents:
  assumes at: "file_at s ip" and x: "x = itable s ! ip" and sb: "sb = fsb s"
    and off: "off \<le> i_size x" "unat off + unat n \<le> MAXFILE * BSIZE" "avail src (unat n)"
    and room: "log_room (6 * nblocks (unat off) (unat n) + 1 + k) s"
  shows "\<exists>t s'. writei get ip src off n s = Ok (int t, s') \<and> t \<le> unat n \<and> (t < unat n \<longrightarrow> no_free sb (fview s')) \<and>
    file_at s' ip \<and> file_contents s' ip = overwrite (unat off) (map (content src) [0..<t]) (file_contents s ip) \<and>
    (\<forall>jp. jp \<noteq> ip \<and> file_at s jp \<and> apart s ip jp \<longrightarrow> file_at s' jp \<and> file_contents s' jp = file_contents s jp \<and> apart s' ip jp) \<and>
    disk_inode sb (fview s') (i_inum x) = inode_dinode (itable s' ! ip) \<and> i_inum (itable s' ! ip) = i_inum x \<and>
    effect (6 * nblocks (unat off) (unat n) + 1) (home sb) s s' \<and> log_room k s' \<and>
    (\<exists>as'. itable s' = (itable s)[ip := after_write x as' (unat off + t)])"
proof -
  have f: "meta_ok sb (fview s)" "file_ok sb (fview s) (i_addrs x)" "ip < length (itable s)" "i_inum x < sb_ninodes sb"
    using at x sb by (simp_all add: file_at_def Let_def)
  from writei_result [OF sb x f off room] obtain t s1 as' s' where w:
    "writei get ip src off n s = Ok (int t, s')" "t \<le> unat n" "t < unat n \<longrightarrow> no_free sb (fview (s1 :: fs))"
    "file_written sb (fview s) (i_addrs x) (fview s1) as' (unat off) (content src) t"
    "effect (6 * nblocks (unat off) (unat n)) (home sb) s s1" "itable s' = (itable s)[ip := after_write x as' (unat off + t)]"
    "effect 1 {IBLOCK (i_inum x) sb} s1 s'" "log_room k s'"
    "fview s' = (fview s1)(IBLOCK (i_inum x) sb :=
      put_dinode (inode_dinode (after_write x as' (unat off + t))) (slot (i_inum x)) (fview s1 (IBLOCK (i_inum x) sb)))" by blast
  have sb': "fsb s' = fsb s" using effect_sel(1) [OF w(5)] effect_sel(1) [OF w(7)] by simp
  have le: "unat off \<le> unat (i_size x)" "unat off + t \<le> MAXFILE * BSIZE" using off w(2) by (simp_all add: word_le_nat_alt)
  note r = written_inode [OF at x w(4) [unfolded sb] le w(6) sb' w(9) [unfolded sb]]
  have ib: "inode_block sb (IBLOCK (i_inum x) sb)" using f(4) by (auto simp: inode_block_def)
  have m1: "meta_ok sb (fview s1)" using w(4) by (simp add: file_written_def)
  have "no_free sb (fview s')" if "t < unat n"
    using w(3) that inode_store(2) [OF m1 ib w(9)] by (auto simp: no_free_def)
  moreover have "IBLOCK (i_inum x) sb \<in> home sb" using ib m1 by (auto simp: meta_ok_def)
  then have "effect (6 * nblocks (unat off) (unat n) + 1) (home sb) s s'"
    using effect_trans [OF w(5,7)] by (simp add: insert_absorb)
  moreover have "i_inum (itable s' ! ip) = i_inum x" using w(6) f(3) by (simp add: after_write_def)
  ultimately show ?thesis using w(1,2,6,8) r unfolding sb by blast
qed

end

section \<open>Properties\<close>

text \<open>
  C38. \<^verbatim>\<open>writei\<close> from mapped user memory, with an offset within the file, the end within the largest file and room in the
  log for six blocks per block of data and one for the inode, returns the number of bytes written, which is all
  of them unless the disk is full. The file then holds its old contents overwritten from the offset on, it is
  still well formed, and every other file that shares no block with it is unchanged.
\<close>

theorem writei_overwrites_contents:
  assumes "file_at s ip" "wf_pt ks root" "user_mapped (ram ks) root src (unat n)" "off \<le> i_size (itable s ! ip)"
    and "unat off + unat n \<le> MAXFILE * BSIZE" "log_room (6 * nblocks (unat off) (unat n) + 1) s"
  shows "\<exists>t s'. writei (user_get root ks) ip src off n s = Ok (int t, s') \<and> t \<le> unat n \<and> (t < unat n \<longrightarrow> no_free (fsb s) (fview s')) \<and>
    file_at s' ip \<and>
    file_contents s' ip = overwrite (unat off) (map (\<lambda>i. user_byte (ram ks) root (src + of_nat i)) [0..<t]) (file_contents s ip) \<and>
    (\<forall>jp. jp \<noteq> ip \<and> file_at s jp \<and> apart s ip jp \<longrightarrow> file_at s' jp \<and> file_contents s' jp = file_contents s jp)"
proof -
  have "wf_pt ks root \<and> user_mapped (ram ks) root src (unat n)" "log_room (6 * nblocks (unat off) (unat n) + 1 + 0) s"
    using assms by simp_all
  from user_source.writei_contents [OF assms(1) refl refl assms(4,5) this] show ?thesis
    unfolding user_bytes_def by blast
qed

text \<open>A disk with a log of 30 blocks, one inode block, a free map and one empty file.\<close>

definition small_file :: inode where
  "small_file = \<lparr>i_dev = 1, i_inum = 1, i_ref = 1, i_lock = initsleeplock, i_valid = True, i_type = 2, i_major = 0, i_minor = 0,
     i_nlink = 1, i_size = 0, i_addrs = replicate 13 0\<rparr>"

definition small_disk :: "u32 \<Rightarrow> bytes" where
  "small_disk = (\<lambda>_ _. 0)(32 := put_dinode (inode_dinode small_file) 64 (\<lambda>_. 0), 34 := \<lambda>i. if i < 5 then 0xff else 0)"

definition small_fs :: fs where
  "small_fs = \<lparr>fsb = \<lparr>sb_magic = FSMAGIC, sb_size = 200, sb_nblocks = 160, sb_ninodes = 16, sb_nlog = 30, sb_logstart = 2, sb_inodestart = 32, sb_bmapstart = 34\<rparr>,
     flog = \<lparr>l_start = 2, l_size = 30, outstanding = 1, committing = False, lh = []\<rparr>,
     fdev = after_crash small_disk, itable = [small_file]\<rparr>"

lemma small_fs_blocks:
  "b < 200 \<Longrightarrow> BBLOCK b (fsb small_fs) = 34" "i < 16 \<Longrightarrow> IBLOCK i (fsb small_fs) = 32" "log_area (fsb small_fs) b \<longleftrightarrow> 2 \<le> b \<and> b < 32"
  "b < 40 \<Longrightarrow> used (fsb small_fs) small_disk b"
proof -
  show m: "BBLOCK b (fsb small_fs) = 34" if "b < 200" for b
  proof -
    have "unat (b div 8192) = 0" using that by (simp add: word_less_nat_alt unat_div)
    then have "b div 8192 = 0" by (simp only: unat_eq_zero)
    then show ?thesis by (simp add: BBLOCK_def BPB_val small_fs_def)
  qed
  show "IBLOCK i (fsb small_fs) = 32" if "i < 16"
  proof -
    have "unat (i div 16) = 0" using that by (simp add: word_less_nat_alt unat_div)
    then have "i div 16 = 0" by (simp only: unat_eq_zero)
    then show ?thesis by (simp add: IBLOCK_def IPB_val small_fs_def)
  qed
  show "log_area (fsb small_fs) b \<longleftrightarrow> 2 \<le> b \<and> b < 32"
  proof
    assume "log_area (fsb small_fs) b"
    then obtain i where i: "i < 30" "b = 2 + of_nat i" by (auto simp: log_area_def small_fs_def)
    then have "unat b = 2 + i" by (simp add: unat_word_ariths unat_of_nat)
    then show "2 \<le> b \<and> b < 32" using i by (simp add: word_le_nat_alt word_less_nat_alt)
  next
    assume "2 \<le> b \<and> b < 32"
    then have "unat b - 2 < 30" "b = 2 + of_nat (unat b - 2)" by (auto simp: word_le_nat_alt word_less_nat_alt of_nat_diff)
    then show "log_area (fsb small_fs) b" by (auto simp: log_area_def small_fs_def)
  qed
  show "used (fsb small_fs) small_disk b" if "b < 40"
  proof -
    have "b < 200" "unat b < 40" using that by (simp_all add: word_less_nat_alt)
    moreover have "(0xff :: u8) = mask 8" by (simp add: mask_eq_exp_minus_1)
    then have "bit (0xff :: u8) (unat b mod 8)" by (simp only: bit_mask_iff) simp
    ultimately show ?thesis by (simp add: used_def m in_use_bit small_disk_def BPB_val)
  qed
qed

lemma small_fs_ok: "file_at small_fs 0" "log_room 29 small_fs" "file_contents small_fs 0 = []"
proof -
  let ?sb = "fsb small_fs"
  have z: "sb_size ?sb = 200" "sb_ninodes ?sb = 16" "fview small_fs = small_disk" "itable small_fs = [small_file]" by (simp_all add: small_fs_def after_crash_def)
  have mb: "map_block ?sb b \<longleftrightarrow> b = 34" for b using small_fs_blocks(1) by (auto simp: map_block_def z intro: exI [of _ 0])
  have ib: "inode_block ?sb b \<longleftrightarrow> b = 32" for b using small_fs_blocks(2) by (auto simp: inode_block_def z intro: exI [of _ 0])
  have "b < 200 \<and> b < 40 \<and> b \<noteq> 32 \<and> b \<noteq> 34" if "b < 32" for b :: u32 using that by (auto simp: word_less_nat_alt)
  then have meta: "meta_ok ?sb small_disk"
    using small_fs_blocks by (simp add: meta_ok_def bitmap_ok_def z mb ib)
  have a: "i_addrs small_file ! i = 0" if "i \<le> NDIRECT" for i using that by (simp add: small_file_def NDIRECT_def nth_replicate)
  have b: "blk small_disk (i_addrs small_file) bn = 0" for bn using a by (simp add: blk_def)
  then have "file_ok ?sb small_disk (i_addrs small_file)" by (auto simp: file_ok_def fblocks_def a) (simp add: small_file_def NDIRECT_def)
  moreover have "no_holes small_disk (i_addrs small_file) 0" by (simp add: no_holes_def)
  ultimately show "file_at small_fs 0" using meta by (simp add: file_at_def z Let_def) (simp add: small_file_def)
  show "log_room 29 small_fs" by (simp add: log_room_def small_fs_def LOGSIZE_def MAXOPBLOCKS_def)
  show "file_contents small_fs 0 = []" by (simp add: file_contents_def z small_file_def)
qed

theorem writei_overwrites_contents_witness:
  "\<exists>t s'. writei (user_get 0x87ff7000 demo) 0 0xffe 0 5 small_fs = Ok (int t, s') \<and> t \<le> 5 \<and> file_at s' 0 \<and> length (file_contents s' 0) = t"
proof -
  have "unat (0xffe :: u64) + 5 \<le> 8192" by simp
  note m = demo_mapped(1) [OF this]
  have "log_room (6 * nblocks 0 5 + 1) small_fs" using small_fs_ok(2) by (auto simp: log_room_def nblocks_def BSIZE_def)
  then show ?thesis using writei_overwrites_contents [OF small_fs_ok(1) demo_wf(1), of "0xffe" 5 0] m small_fs_ok(3)
    by (fastforce simp: MAXBYTES overwrite_def)
qed

text \<open>
  C40. \<^verbatim>\<open>readi\<close> into user memory from an offset within the file returns the number of bytes up to the end of the
  file, at most \<^verbatim>\<open>n\<close>, stores exactly those bytes of the file's contents at \<^verbatim>\<open>dst\<close> and changes nothing of the file
  system; with an offset past the end it returns 0.
\<close>

theorem readi_returns_contents:
  assumes "file_at s ip" "bs = take (unat n) (drop (unat off) (file_contents s ip))" "unat off + unat n < 2 ^ 32"
    and "wf_pt ks root" "user_mapped (ram ks) root dst (length bs)" "user_private (ram ks) root dst (length bs)"
  shows "\<exists>ks'. readi (user_put root) ip dst off n ks s = Ok (int (length bs), ks', s) \<and>
    map (\<lambda>i. user_byte (ram ks') root (dst + of_nat i)) [0..<length bs] = bs"
proof (cases "off \<le> i_size (itable s ! ip)")
  case True
  let ?x = "itable s ! ip" and ?sz = "unat (i_size (itable s ! ip))" and ?cnt = "length bs"
  let ?f = "\<lambda>i. fbyte (fview s) (i_addrs ?x) (unat off + i)"
  have cnt: "?cnt = min (unat n) (?sz - unat off)" by (simp add: assms(2) file_contents_def Let_def)
  have "no_holes (fview s) (i_addrs ?x) ?sz" using assms(1) by (simp add: file_at_def Let_def)
  moreover have le: "unat off \<le> ?sz" using True by (simp add: word_le_nat_alt)
  moreover have room: "user_room root ks dst ?cnt" using assms(4-6) by (simp add: user_room_def)
  ultimately obtain ks' where ks': "readi (user_put root) ip dst off n ks s = Ok (int ?cnt, ks', s)" "user_stored root ks dst ?f ?cnt ks'"
    using user_sink.readi_reads [OF refl refl _ _ assms(3) cnt] by blast
  obtain m where m: "ks' = ks\<lparr>ram := m\<rparr>" "stored_at (ram ks) root dst ?f ?cnt m" using ks'(2) by (auto simp: user_stored_def)
  have "user_byte m root (dst + of_nat i) = bs ! i" if "i < ?cnt" for i
  proof -
    have "lookup m root vb = lookup (ram ks) root vb" for vb by (rule stored_at_keeps(2) [OF assms(4,6) m(2)])
    then have "user_byte m root (dst + of_nat i) = ?f i" using m(2) that by (simp add: user_byte_def user_addr_def stored_at_def)
    moreover have "unat off + i < ?sz" using that cnt le by linarith
    ultimately show ?thesis using that by (simp add: assms(2) file_contents_def Let_def)
  qed
  then have "map (\<lambda>i. user_byte m root (dst + of_nat i)) [0..<?cnt] = bs" by (intro nth_equalityI) simp_all
  then show ?thesis using ks'(1) m(1) by auto
next
  case False
  then have "bs = []" by (simp add: assms(2) file_contents_def Let_def word_le_nat_alt)
  then show ?thesis using False by (simp add: readi_def Let_def not_le)
qed

theorem readi_returns_contents_witness:
  "\<exists>t s' ks'. writei (user_get 0x87ff7000 demo) 0 0xffe 0 5 small_fs = Ok (int t, s') \<and>
    readi (user_put 0x87ff7000) 0 0x10 0 100 demo s' = Ok (int t, ks', s')"
proof -
  have "unat (0xffe :: u64) + unat (5 :: u32) \<le> 8192" by simp
  note m = demo_mapped(1) [OF this]
  have "log_room (6 * nblocks (unat (0 :: u32)) (unat (5 :: u32)) + 1 + 0) small_fs"
    using small_fs_ok(2) by (auto simp: log_room_def nblocks_def BSIZE_def)
  then obtain t s' where w: "writei (user_get 0x87ff7000 demo) 0 0xffe 0 5 small_fs = Ok (int t, s')" "t \<le> 5" "file_at s' 0"
    "length (file_contents s' 0) = t"
    using user_source.writei_contents [OF small_fs_ok(1) refl refl, of 0 5 demo "0x87ff7000" "0xffe" 0] m demo_wf(1) small_fs_ok(3)
    by (fastforce simp: MAXBYTES overwrite_def)
  have "unat (0x10 :: u64) + length (take (unat (100 :: u32)) (drop (unat (0 :: u32)) (file_contents s' 0))) \<le> 8192" using w(2,4) by simp
  from readi_returns_contents [OF w(3) refl _ demo_wf(1) demo_mapped [OF this]] w show ?thesis by fastforce
qed

end
