(* ===== verification/Transaction.thy ===== *)
theory Transaction
  imports Filedata
begin

text \<open>
  File operations as transactions of the log: a change of files between \<^verbatim>\<open>begin_op\<close> and \<^verbatim>\<open>end_op\<close> survives a
  crash of the machine completely or not at all. This composes the results on files of theory \<^verbatim>\<open>Filedata\<close> with the
  commit and recovery of theory \<^verbatim>\<open>Log\<close>.
\<close>

section \<open>Definitions\<close>

text \<open>A file as the disk alone has it.\<close>

definition disk_contents :: "superblock \<Rightarrow> (u32 \<Rightarrow> bytes) \<Rightarrow> u32 \<Rightarrow> u8 list" where
  "disk_contents sb v inum = (let d = disk_inode sb v inum in map (fbyte v (d_addrs d)) [0..<unat (d_size d)])"

text \<open>The state after \<^verbatim>\<open>begin_op\<close> of the only file system call: nothing is logged and the disk is up to date.\<close>

definition fresh_trans :: "fs \<Rightarrow> bool" where
  "fresh_trans s \<longleftrightarrow> lh (flog s) = [] \<and> outstanding (flog s) = 1 \<and> \<not> committing (flog s) \<and>
     l_start (flog s) = sb_logstart (fsb s) \<and> l_size (flog s) = int (unat (sb_nlog (fsb s))) \<and> 0 < sb_nlog (fsb s) \<and>
     head_n (bdisk (fdev s) (l_start (flog s))) = 0 \<and> bwrites (fdev s) = [] \<and>
     (\<forall>b. \<not> in_log (flog s) b \<longrightarrow> fview s b = bdisk (fdev s) b)"

section \<open>Lemmas\<close>

lemma home_not_log: "\<lbrakk>fresh_trans s; b \<in> home (fsb s)\<rbrakk> \<Longrightarrow> \<not> in_log (flog s) b"
proof
  assume s: "fresh_trans s" "b \<in> home (fsb s)" and "in_log (flog s) b"
  then obtain i where i: "i \<le> nat (l_size (flog s)) - 1" "b = l_start (flog s) + of_nat i" by (auto simp: in_log_def log_cap_def)
  have "l_start (flog s) = sb_logstart (fsb s)" "nat (l_size (flog s)) = unat (sb_nlog (fsb s))" "0 < unat (sb_nlog (fsb s))"
    using s(1) unfolding fresh_trans_def by (auto simp: word_less_nat_alt)
  then have "log_area (fsb s) b" using i unfolding log_area_def by (intro exI [of _ i]) simp
  then show False using s(2) by simp
qed

text \<open>The disk \<open>d'\<close> after \<^verbatim>\<open>end_op\<close>, and after a crash on the way and recovery, has the blocks of \<open>v\<close> or of \<open>v'\<close>.\<close>

lemma transaction_atomic:
  assumes s: "fresh_trans s" and e: "effect k (home (fsb s)) s s'" and room: "log_room 0 s'"
  shows "\<exists>l d. end_op (flog s') (fdev s') = Ok (l, d) \<and> (\<forall>b \<in> home (fsb s). bdisk d b = fview s' b) \<and>
    (\<forall>j \<le> length (bwrites d). \<exists>l2 d2.
      recover_from_log l (after_crash (apply_writes (take j (bwrites d)) (bdisk (fdev s)))) = Ok (l2, d2) \<and>
      ((\<forall>b \<in> home (fsb s). bdisk d2 b = fview s b) \<or> (\<forall>b \<in> home (fsb s). bdisk d2 b = fview s' b)))"
proof -
  define l where "l = (flog s')\<lparr>outstanding := 0, committing := True\<rparr>"
  obtain bs where bs: "flog s' = (flog s)\<lparr>lh := bs\<rparr>" "set bs \<subseteq> home (fsb s)" "distinct bs"
    using s e by (auto simp: effect_def fresh_trans_def)
  obtain l' d where c: "commit l (fdev s') = (l', d)" by (cases "commit l (fdev s')")
  have end_op: "end_op (flog s') (fdev s') = Ok (l'\<lparr>committing := False\<rparr>, d)"
    using s bs(1) c by (simp add: end_op_def end_op_enter_def fresh_trans_def l_def)
  have L: "lh l = bs" "l_start l = l_start (flog s)" "l_size l = l_size (flog s)" using bs(1) by (simp_all add: l_def)
  then have il: "in_log l = in_log (flog s)" by (simp add: in_log_def log_cap_def fun_eq_iff)
  have home: "b \<in> home (fsb s) \<Longrightarrow> \<not> in_log l b" for b using home_not_log [OF s] il by simp
  have len: "length bs \<le> log_cap l" using room bs(1) by (auto simp: log_room_def log_cap_def l_def)
  have trans: "trans_ok l" unfolding trans_ok_def using len bs(2,3) home L(1) by blast
  have fs: "head_n (bdisk (fdev s) (l_start (flog s))) = 0" "bwrites (fdev s) = []"
    "\<forall>b. \<not> in_log (flog s) b \<longrightarrow> fview s b = bdisk (fdev s) b" using s unfolding fresh_trans_def by blast+
  have dev: "bdisk (fdev s') = bdisk (fdev s)" "bwrites (fdev s') = []" using e fs(2) by (simp_all add: effect_def)
  have clear: "head_n (bdisk (fdev s') (l_start l)) = 0" using fs(1) unfolding dev L .
  have old: "\<forall>b. \<not> in_log l b \<longrightarrow> fview s b = bdisk (fdev s') b" using fs(3) unfolding dev il .
  have clean: "\<forall>b. b \<notin> set (lh l) \<and> \<not> in_log l b \<longrightarrow> fview s' b = bdisk (fdev s') b"
    using old e L(1) bs(1) by (simp add: effect_def)
  have "\<exists>ws. did ws (fdev s') d \<and>
    (\<forall>k \<le> length ws. holds_for l (if k \<le> length bs then bdisk (fdev s') else fview s') (apply_writes (take k ws) (bdisk (fdev s')))) \<and>
    (\<forall>b. \<not> in_log l b \<longrightarrow> bdisk d b = fview s' b) \<and> l' = l\<lparr>lh := []\<rparr>"
  proof (cases "bs = []")
    case True
    then have "d = fdev s'" "l' = l" using c L(1) by (simp_all add: commit_def)
    then show ?thesis using clean True L(1) clear by (auto simp: did_def intro!: exI [of _ "[]"] holds_for_clear)
  next
    case False
    then show ?thesis using commit_crash [OF trans _ clear clean c] L(1) by blast
  qed
  then obtain ws where ws: "did ws (fdev s') d"
    "\<And>k. k \<le> length ws \<Longrightarrow> holds_for l (if k \<le> length bs then bdisk (fdev s') else fview s') (apply_writes (take k ws) (bdisk (fdev s')))"
    "\<And>b. \<not> in_log l b \<Longrightarrow> bdisk d b = fview s' b" "l' = l\<lparr>lh := []\<rparr>" by blast
  have w: "bwrites d = ws" using ws(1) dev(2) by (simp add: did_def)
  have crash: "\<exists>l2 d2. recover_from_log (l'\<lparr>committing := False\<rparr>) (after_crash (apply_writes (take j ws) (bdisk (fdev s)))) = Ok (l2, d2) \<and>
      ((\<forall>b \<in> home (fsb s). bdisk d2 b = fview s b) \<or> (\<forall>b \<in> home (fsb s). bdisk d2 b = fview s' b))" if "j \<le> length ws" for j
  proof -
    have "l_start (l'\<lparr>committing := False\<rparr>) = l_start l" "l_size (l'\<lparr>committing := False\<rparr>) = l_size l" using ws(4) by simp_all
    from recovery [OF ws(2) [OF that] this] obtain l2 d2 where
      r: "recover_from_log (l'\<lparr>committing := False\<rparr>) (after_crash (apply_writes (take j ws) (bdisk (fdev s)))) = Ok (l2, d2)"
      "\<And>b. \<not> in_log l b \<Longrightarrow> bdisk d2 b = (if j \<le> length bs then bdisk (fdev s') else fview s') b" unfolding dev by blast
    have "bdisk d2 b = (if j \<le> length bs then fview s b else fview s' b)" if "b \<in> home (fsb s)" for b
      using r(2) [OF home [OF that]] old home [OF that] by simp
    then show ?thesis using r(1) by (cases "j \<le> length bs") auto
  qed
  show ?thesis using end_op ws(3) crash home unfolding w [symmetric] by blast
qed

text \<open>The contents on the disk are those of the file whenever the disk has its inode and its blocks.\<close>

lemma disk_contents_file:
  assumes "file_at s ip" "disk_inode (fsb s) (fview s) (i_inum (itable s ! ip)) = inode_dinode (itable s ! ip)"
    and "\<And>b. b \<in> home (fsb s) \<Longrightarrow> dsk b = fview s b"
  shows "disk_contents (fsb s) dsk (i_inum (itable s ! ip)) = file_contents s ip"
proof -
  let ?x = "itable s ! ip" and ?sb = "fsb s"
  have f: "meta_ok ?sb (fview s)" "file_ok ?sb (fview s) (i_addrs ?x)" "unat (i_size ?x) \<le> MAXFILE * BSIZE" "i_inum ?x < sb_ninodes ?sb"
    using assms(1) by (simp_all add: file_at_def no_holes_def Let_def)
  have "inode_block ?sb (IBLOCK (i_inum ?x) ?sb)" using f(4) by (auto simp: inode_block_def)
  then have "IBLOCK (i_inum ?x) ?sb \<in> home ?sb" using f(1) by (auto simp: meta_ok_def)
  then have i: "disk_inode ?sb dsk (i_inum ?x) = inode_dinode ?x" using assms(2,3) by (simp add: disk_inode_def)
  have same: "dsk b = fview s b" if "b \<in> fblocks (fview s) (i_addrs ?x)" for b
    using f(2) that assms(3) by (simp add: file_ok_def data_block_def)
  have b: "blk dsk (i_addrs ?x) = blk (fview s) (i_addrs ?x)" using same by (intro blk_cong) (simp add: fblocks_def)
  have "fbyte dsk (i_addrs ?x) j = fbyte (fview s) (i_addrs ?x) j" if "j < unat (i_size ?x)" for j
  proof (cases "blk (fview s) (i_addrs ?x) (j div BSIZE) = 0")
    case False
    then have "blk (fview s) (i_addrs ?x) (j div BSIZE) \<in> fblocks (fview s) (i_addrs ?x)"
      using block_of_byte(1) [of j] that f(3) by (auto simp: fblocks_def)
    then show ?thesis using same by (simp add: fbyte_def fblock_def b)
  qed (simp add: fbyte_def fblock_def b)
  then show ?thesis by (simp add: disk_contents_def file_contents_def i inode_dinode_def Let_def)
qed

section \<open>Properties\<close>

text \<open>
  C1. A \<^verbatim>\<open>writei\<close> in a transaction of its own is atomic with respect to crashes. Whatever number of the disk writes
  of \<^verbatim>\<open>end_op\<close> a crash lets through, recovery from the disk succeeds and the file on the disk then has either its old
  contents or the old contents overwritten with all the bytes that \<^verbatim>\<open>writei\<close> reported; after \<^verbatim>\<open>end_op\<close> it has the new ones.
\<close>

theorem file_write_crash_atomic:
  assumes "file_at s ip" "fresh_trans s" "x = itable s ! ip" "disk_inode (fsb s) (fview s) (i_inum x) = inode_dinode x"
    and "wf_pt ks root" "user_mapped (ram ks) root src (unat n)" "off \<le> i_size x" "unat off + unat n \<le> MAXFILE * BSIZE"
    and "log_room (6 * nblocks (unat off) (unat n) + 1) s"
  shows "\<exists>t s' l d. writei (user_get root ks) ip src off n s = Ok (int t, s') \<and> end_op (flog s') (fdev s') = Ok (l, d) \<and>
    (let new = overwrite (unat off) (map (\<lambda>i. user_byte (ram ks) root (src + of_nat i)) [0..<t]) (file_contents s ip) in
      disk_contents (fsb s) (bdisk d) (i_inum x) = new \<and>
      (\<forall>j \<le> length (bwrites d). \<exists>l2 d2.
        recover_from_log l (after_crash (apply_writes (take j (bwrites d)) (bdisk (fdev s)))) = Ok (l2, d2) \<and>
        disk_contents (fsb s) (bdisk d2) (i_inum x) \<in> {file_contents s ip, new}))"
proof -
  have src: "wf_pt ks root \<and> user_mapped (ram ks) root src (unat n)" using assms by simp
  have "log_room (6 * nblocks (unat off) (unat n) + 1 + 0) s" using assms(9) by simp
  from user_source.writei_contents [OF assms(1,3) refl assms(7,8) src this] obtain t s' where w:
    "writei (user_get root ks) ip src off n s = Ok (int t, s')" "file_at s' ip"
    "file_contents s' ip = overwrite (unat off) (map (\<lambda>i. user_byte (ram ks) root (src + of_nat i)) [0..<t]) (file_contents s ip)"
    "disk_inode (fsb s) (fview s') (i_inum x) = inode_dinode (itable s' ! ip)" "i_inum (itable s' ! ip) = i_inum x"
    "effect (6 * nblocks (unat off) (unat n) + 1) (home (fsb s)) s s'" "log_room 0 s'"
    unfolding user_bytes_def by metis
  have sb: "fsb s' = fsb s" by (rule effect_sel(1) [OF w(6)])
  have old: "disk_contents (fsb s) dsk (i_inum x) = file_contents s ip" if "\<forall>b \<in> home (fsb s). dsk b = fview s b" for dsk
    using disk_contents_file [OF assms(1), of dsk] assms(3,4) that by blast
  have new: "disk_contents (fsb s) dsk (i_inum x) = file_contents s' ip" if "\<forall>b \<in> home (fsb s). dsk b = fview s' b" for dsk
    using disk_contents_file [OF w(2), of dsk] w(4,5) that sb by simp
  from transaction_atomic [OF assms(2) w(6,7)] obtain l d where e:
    "end_op (flog s') (fdev s') = Ok (l, d)" "\<forall>b \<in> home (fsb s). bdisk d b = fview s' b"
    "\<And>j. j \<le> length (bwrites d) \<Longrightarrow> \<exists>l2 d2.
      recover_from_log l (after_crash (apply_writes (take j (bwrites d)) (bdisk (fdev s)))) = Ok (l2, d2) \<and>
      ((\<forall>b \<in> home (fsb s). bdisk d2 b = fview s b) \<or> (\<forall>b \<in> home (fsb s). bdisk d2 b = fview s' b))" by blast
  have "\<exists>l2 d2. recover_from_log l (after_crash (apply_writes (take j (bwrites d)) (bdisk (fdev s)))) = Ok (l2, d2) \<and>
    disk_contents (fsb s) (bdisk d2) (i_inum x) \<in> {file_contents s ip, file_contents s' ip}" if "j \<le> length (bwrites d)" for j
    using e(3) [OF that] old new by blast
  then show ?thesis using w(1) e(1) new [OF e(2)] unfolding Let_def w(3)
    by (intro exI [of _ t] exI [of _ s'] exI [of _ l] exI [of _ d]) simp
qed

lemma small_fs_fresh: "fresh_trans small_fs" "disk_inode (fsb small_fs) (fview small_fs) (i_inum small_file) = inode_dinode small_file"
proof -
  have "head_n (small_disk 2) = 0" using head_zero by (simp add: small_disk_def)
  then show "fresh_trans small_fs" by (simp add: fresh_trans_def small_fs_def after_crash_def)
  have "slot 1 = 64" by (simp add: slot_def IPB_val)
  then have "get_dinode (small_disk 32) (slot 1) = inode_dinode small_file"
    by (simp add: small_disk_def get_put_dinode inode_dinode_def NDIRECT_def small_file_def)
  moreover have "IBLOCK 1 (fsb small_fs) = 32" by (rule small_fs_blocks(2)) simp
  ultimately show "disk_inode (fsb small_fs) (fview small_fs) (i_inum small_file) = inode_dinode small_file"
    by (simp add: disk_inode_def) (simp add: small_fs_def after_crash_def small_file_def)
qed

theorem file_write_crash_atomic_witness:
  "\<exists>t s' l d l2 d2. writei (user_get 0x87ff7000 demo) 0 0xffe 0 5 small_fs = Ok (int t, s') \<and> end_op (flog s') (fdev s') = Ok (l, d) \<and>
    length (disk_contents (fsb small_fs) (bdisk d) 1) = t \<and>
    recover_from_log l (after_crash (apply_writes (take 0 (bwrites d)) (bdisk (fdev small_fs)))) = Ok (l2, d2)"
proof -
  have "unat (0xffe :: u64) + unat (5 :: u32) \<le> 8192" by simp
  note m = demo_mapped(1) [OF this]
  have it: "small_file = itable small_fs ! 0" "i_inum small_file = 1" by (simp_all add: small_fs_def small_file_def)
  have z: "(0 :: u32) \<le> i_size small_file" "unat (0 :: u32) + unat (5 :: u32) \<le> MAXFILE * BSIZE" by (simp_all add: MAXBYTES)
  have room: "log_room (6 * nblocks (unat (0 :: u32)) (unat (5 :: u32)) + 1) small_fs"
    using small_fs_ok(2) by (auto simp: log_room_def nblocks_def BSIZE_def)
  define u where "u t = map (\<lambda>i. user_byte (ram demo) 0x87ff7000 (0xffe + of_nat i)) [0..<t]" for t :: nat
  note res = file_write_crash_atomic [OF small_fs_ok(1) small_fs_fresh(1) it(1) small_fs_fresh(2) demo_wf(1) m z room,
    unfolded it(2) small_fs_ok(3) Let_def, folded u_def]
  then obtain t s' l d where r: "writei (user_get 0x87ff7000 demo) 0 0xffe 0 5 small_fs = Ok (int t, s')" "end_op (flog s') (fdev s') = Ok (l, d)"
    "disk_contents (fsb small_fs) (bdisk d) 1 = overwrite (unat (0 :: u32)) (u t) []"
    "\<forall>j \<le> length (bwrites d). \<exists>l2 d2. recover_from_log l (after_crash (apply_writes (take j (bwrites d)) (bdisk (fdev small_fs)))) = Ok (l2, d2) \<and>
      disk_contents (fsb small_fs) (bdisk d2) 1 \<in> {[], overwrite (unat (0 :: u32)) (u t) []}"
    by (elim exE conjE)
  have "length (disk_contents (fsb small_fs) (bdisk d) 1) = t" unfolding r(3) by (simp add: overwrite_def u_def)
  then show ?thesis using r(1,2) r(4) [rule_format, of 0] by blast
qed

end
