(* ===== verification/Dir.thy ===== *)
theory Dir
  imports Filedata
begin

text \<open>
  Directories and path names (the last third of \<^verbatim>\<open>kernel/fs.c\<close>). A directory is a file of 16-byte entries, an inode number
  and a name of at most 14 bytes. A path is given by its bytes before the terminating zero, so that a pointer
  into it is a suffix.
\<close>

section \<open>Definitions\<close>

definition ROOTDEV :: u32 where "ROOTDEV = 1"

definition ROOTINO :: u32 where "ROOTINO = 1"

definition T_DIR :: u16 where "T_DIR = 1"

definition T_FILE :: u16 where "T_FILE = 2"

definition T_DEVICE :: u16 where "T_DEVICE = 3"

definition DIRSIZ :: nat where "DIRSIZ = 14"

definition DESIZE :: u32 where "DESIZE = 16"

text \<open>The fields of a \<^verbatim>\<open>struct dirent\<close> in a buffer.\<close>

definition de_inum :: "bytes \<Rightarrow> u16" where
  "de_inum de = get16 de 0"

definition de_name :: "bytes \<Rightarrow> bytes" where
  "de_name de = (\<lambda>i. de (2 + i))"

definition set_dirent :: "bytes \<Rightarrow> u32 \<Rightarrow> bytes \<Rightarrow> bytes" where
  "set_dirent name inum de =
     put16 0 (ucast inum) (\<lambda>i. if i < 2 then de i else strncpy (de_name de) name DIRSIZ (i - 2))"

definition namecmp :: "bytes \<Rightarrow> bytes \<Rightarrow> int" where
  "namecmp s t = strncmp s t DIRSIZ"

lemma readi_no_wrap: "readi put dp dst off DESIZE m s = Ok (16, r) \<Longrightarrow> unat (off + DESIZE) = unat off + 16"
proof -
  assume "readi put dp dst off DESIZE m s = Ok (16, r)"
  then have "\<not> off + DESIZE < off" by (auto simp: readi_def Let_def)
  then have "unat off \<le> unat (off + DESIZE)" by (simp add: word_le_nat_alt not_less)
  moreover have "unat off < 2 ^ 32" "unat DESIZE = 16" using unsigned_less [of off] by (simp_all add: DESIZE_def)
  ultimately show ?thesis by (simp add: unat_word_ariths mod_if split: if_splits)
qed

lemma scan_measure: "readi put dp dst off DESIZE m s = Ok (16, r) \<Longrightarrow> 2 ^ 32 - unat (off + DESIZE) < 2 ^ 32 - unat off"
  using readi_no_wrap [of put dp dst off m s r] unsigned_less [of off, where 'a = nat] by simp

function dirlookup_loop :: "nat \<Rightarrow> bytes \<Rightarrow> u32 \<Rightarrow> bytes \<Rightarrow> fs \<Rightarrow> ((nat \<times> u32) option \<times> fs) res" where
  "dirlookup_loop dp name off de s =
     (if off < i_size (itable s ! dp)
      then rbind (readi buf_put dp 0 off DESIZE de s) (\<lambda>(r, de, s).
        if r \<noteq> 16 then Panic ''dirlookup read''
        else if de_inum de = 0 then dirlookup_loop dp name (off + DESIZE) de s
        else if namecmp name (de_name de) = 0
        then rbind (iget (i_dev (itable s ! dp)) (ucast (de_inum de)) s) (\<lambda>(ip, s). Ok (Some (ip, off), s))
        else dirlookup_loop dp name (off + DESIZE) de s)
      else Ok (None, s))"
  by pat_completeness auto

termination dirlookup_loop
proof (relation "measure (\<lambda>(dp, name, off, de, s). 2 ^ 32 - unat off)")
qed (auto dest: scan_measure)

definition dirlookup :: "nat \<Rightarrow> bytes \<Rightarrow> fs \<Rightarrow> ((nat \<times> u32) option \<times> fs) res" where
  "dirlookup dp name s =
     (if i_type (itable s ! dp) \<noteq> T_DIR then Panic ''dirlookup not DIR''
      else dirlookup_loop dp name 0 (\<lambda>_. 0) s)"

text \<open>The search for an empty entry; the entry is on the stack and every byte of it is set before it is written.\<close>

function dirlink_scan :: "nat \<Rightarrow> u32 \<Rightarrow> bytes \<Rightarrow> fs \<Rightarrow> (u32 \<times> bytes \<times> fs) res" where
  "dirlink_scan dp off de s =
     (if off < i_size (itable s ! dp)
      then rbind (readi buf_put dp 0 off DESIZE de s) (\<lambda>(r, de, s).
        if r \<noteq> 16 then Panic ''dirlink read''
        else if de_inum de = 0 then Ok (off, de, s)
        else dirlink_scan dp (off + DESIZE) de s)
      else Ok (off, de, s))"
  by pat_completeness auto

termination dirlink_scan
proof (relation "measure (\<lambda>(dp, off, de, s). 2 ^ 32 - unat off)")
qed (auto dest: scan_measure)

declare dirlookup_loop.simps [simp del] dirlink_scan.simps [simp del]

definition dirlink :: "int \<Rightarrow> nat \<Rightarrow> bytes \<Rightarrow> u32 \<Rightarrow> fs \<Rightarrow> (int \<times> fs) res" where
  "dirlink pid dp name inum s =
     rbind (dirlookup dp name s) (\<lambda>(r, s).
       case r of
         Some (ip, off) \<Rightarrow> rbind (iput pid ip s) (\<lambda>s. Ok (-1, s))
       | None \<Rightarrow>
           rbind (dirlink_scan dp 0 (\<lambda>_. 0) s) (\<lambda>(off, de, s).
             rbind (writei (buf_get (set_dirent name inum de)) dp 0 off DESIZE s) (\<lambda>(r, s).
               if r \<noteq> 16 then Ok (-1, s) else Ok (0, s))))"

abbreviation slash :: u8 where "slash \<equiv> 47"

definition skipelem :: "u8 list \<Rightarrow> bytes \<Rightarrow> (u8 list \<times> bytes) option" where
  "skipelem path name =
     (let path = dropWhile (\<lambda>c. c = slash) path in
      if path = [] then None
      else let s = takeWhile (\<lambda>c. c \<noteq> slash) path;
               rest = dropWhile (\<lambda>c. c \<noteq> slash) path;
               len = length s;
               name = (if len \<ge> DIRSIZ then (\<lambda>i. if i < DIRSIZ then s ! i else name i)
                       else (\<lambda>i. if i < len then s ! i else if i = len then 0 else name i))
        in Some (dropWhile (\<lambda>c. c = slash) rest, name))"

lemma skipelem_shorter: "skipelem path name = Some (path', name') \<Longrightarrow> length path' < length path"
proof -
  assume a: "skipelem path name = Some (path', name')"
  let ?p = "dropWhile (\<lambda>c. c = slash) path"
  have p: "?p \<noteq> []" "path' = dropWhile (\<lambda>c. c = slash) (dropWhile (\<lambda>c. c \<noteq> slash) ?p)"
    using a by (auto simp: skipelem_def Let_def split: if_splits)
  then obtain x xs where x: "?p = x # xs" by (cases ?p) auto
  have "x \<noteq> slash" using hd_dropWhile [of "\<lambda>c. c = slash" path] x by auto
  then have "path' = dropWhile (\<lambda>c. c = slash) (dropWhile (\<lambda>c. c \<noteq> slash) xs)" using p(2) x by simp
  then have "length path' \<le> length xs" using length_dropWhile_le order_trans by metis
  moreover have "length (x # xs) \<le> length path" using length_dropWhile_le [of "\<lambda>c. c = slash" path] x by simp
  ultimately show ?thesis by simp
qed

function namex_loop :: "int \<Rightarrow> bool \<Rightarrow> nat \<Rightarrow> u8 list \<Rightarrow> bytes \<Rightarrow> fs \<Rightarrow> (nat option \<times> bytes \<times> fs) res" where
  "namex_loop pid par ip path name s =
     (case skipelem path name of
        None \<Rightarrow> if par then rbind (iput pid ip s) (\<lambda>s. Ok (None, name, s)) else Ok (Some ip, name, s)
      | Some (path, name) \<Rightarrow>
          rbind (ilock pid ip s) (\<lambda>s.
          if i_type (itable s ! ip) \<noteq> T_DIR then rbind (iunlockput pid ip s) (\<lambda>s. Ok (None, name, s))
          else if par \<and> path = [] then rbind (iunlock pid ip s) (\<lambda>s. Ok (Some ip, name, s))
          else rbind (dirlookup ip name s) (\<lambda>(r, s).
            case r of
              None \<Rightarrow> rbind (iunlockput pid ip s) (\<lambda>s. Ok (None, name, s))
            | Some (nxt, off) \<Rightarrow> rbind (iunlockput pid ip s) (\<lambda>s. namex_loop pid par nxt path name s))))"
  by pat_completeness auto

termination namex_loop
  by (relation "measure (\<lambda>(pid, par, ip, path, name, s). length path)") (auto intro: skipelem_shorter)

declare namex_loop.simps [simp del]

definition namex :: "int \<Rightarrow> nat \<Rightarrow> u8 list \<Rightarrow> bool \<Rightarrow> bytes \<Rightarrow> fs \<Rightarrow> (nat option \<times> bytes \<times> fs) res" where
  "namex pid cwd path par name s =
     rbind (if path \<noteq> [] \<and> hd path = slash then iget ROOTDEV ROOTINO s else Ok (idup cwd s)) (\<lambda>(ip, s).
       namex_loop pid par ip path name s)"

definition namei :: "int \<Rightarrow> nat \<Rightarrow> u8 list \<Rightarrow> fs \<Rightarrow> (nat option \<times> fs) res" where
  "namei pid cwd path s = rbind (namex pid cwd path False (\<lambda>_. 0) s) (\<lambda>(r, name, s). Ok (r, s))"

definition nameiparent :: "int \<Rightarrow> nat \<Rightarrow> u8 list \<Rightarrow> bytes \<Rightarrow> fs \<Rightarrow> (nat option \<times> bytes \<times> fs) res" where
  "nameiparent pid cwd path name s = namex pid cwd path True name s"

section \<open>Directories as lists of entries\<close>

text \<open>Entry \<open>k\<close> of a directory with contents \<open>cs\<close>, and the first one in use with a name.\<close>

definition entry_at :: "u8 list \<Rightarrow> nat \<Rightarrow> bytes" where
  "entry_at cs k = (\<lambda>i. cs ! (16 * k + i))"

definition holds_name :: "bytes \<Rightarrow> bytes \<Rightarrow> bool" where
  "holds_name name de \<longleftrightarrow> de_inum de \<noteq> 0 \<and> namecmp name (de_name de) = 0"

definition dir_find :: "bytes \<Rightarrow> u8 list \<Rightarrow> nat option" where
  "dir_find name cs = find_index (\<lambda>k. holds_name name (entry_at cs k)) [0..<length cs div 16]"

definition dir_slot :: "u8 list \<Rightarrow> nat" where
  "dir_slot cs = (case find_index (\<lambda>k. de_inum (entry_at cs k) = 0) [0..<length cs div 16] of
     Some k \<Rightarrow> k | None \<Rightarrow> length cs div 16)"

text \<open>The inode of entry \<open>j\<close>.\<close>

definition dir_get :: "fs \<Rightarrow> nat \<Rightarrow> u8 list \<Rightarrow> nat \<Rightarrow> ((nat \<times> u32) option \<times> fs) res" where
  "dir_get s dp cs j =
     rbind (iget (i_dev (itable s ! dp)) (ucast (de_inum (entry_at cs j))) s) (\<lambda>(ip, s). Ok (Some (ip, of_nat (16 * j)), s))"

text \<open>A directory open in the table.\<close>

definition dir_at :: "fs \<Rightarrow> nat \<Rightarrow> bool" where
  "dir_at s dp \<longleftrightarrow> file_at s dp \<and> i_type (itable s ! dp) = T_DIR \<and> 16 dvd unat (i_size (itable s ! dp))"

section \<open>Lemmas\<close>

lemma find_index_upt_step:
  "k < n \<Longrightarrow> find_index P [k..<n] = (if P k then Some 0 else map_option Suc (find_index P [Suc k..<n]))"
  by (subst upt_rec) simp

lemma dirent_cong:
  assumes "\<And>i. i < 16 \<Longrightarrow> f i = g i"
  shows "de_inum f = de_inum g" "namecmp name (de_name f) = 0 \<longleftrightarrow> namecmp name (de_name g) = 0"
proof -
  show "de_inum f = de_inum g" unfolding de_inum_def by (rule get_cong) (simp add: assms)
  show "namecmp name (de_name f) = 0 \<longleftrightarrow> namecmp name (de_name g) = 0"
    unfolding namecmp_def strncmp_def strncmp_from_0 de_name_def DIRSIZ_def using assms by simp
qed

lemma length_contents: "length (file_contents s ip) = unat (i_size (itable s ! ip))"
  by (simp add: file_contents_def Let_def)

text \<open>Reading one entry of a directory.\<close>

lemma read_entry:
  assumes "dir_at s dp" "16 * k < unat (i_size (itable s ! dp))" "off = of_nat (16 * k)"
  obtains de' where "readi buf_put dp 0 off DESIZE de s = Ok (16, de', s)" "\<And>i. i < 16 \<Longrightarrow> de' i = entry_at (file_contents s dp) k i"
proof -
  let ?x = "itable s ! dp"
  have x: "no_holes (fview s) (i_addrs ?x) (unat (i_size ?x))" "16 dvd unat (i_size ?x)" "unat (i_size ?x) \<le> MAXFILE * BSIZE"
    using assms(1) by (simp_all add: dir_at_def file_at_def no_holes_def Let_def)
  have o: "unat off = 16 * k" using assms(2,3) x(3) by (simp add: unat_of_nat MAXBYTES del: of_nat_mult)
  have le: "16 * k + 16 \<le> unat (i_size ?x)" using assms(2) x(2) by (auto elim!: dvdE)
  have "16 = min (unat DESIZE) (unat (i_size ?x) - unat off)" "unat off + unat DESIZE < 2 ^ 32" "unat off \<le> unat (i_size ?x)"
    "unat (0 :: u64) + 16 < 2 ^ 64" using le o x(3) by (simp_all add: DESIZE_def MAXBYTES)
  note r = kbuf_sink.readi_reads [OF refl refl x(1) this(3,2,1,4), of de]
  then show thesis using that le o by (auto simp: entry_at_def file_contents_def Let_def)
qed

lemma scan_end:
  assumes "dir_at s dp" "cs = file_contents s dp" "16 * k \<le> length cs" "off = of_nat (16 * k)" "0 = length cs div 16 - k"
  shows "off = i_size (itable s ! dp)" "k = length cs div 16"
proof -
  have len: "length cs = unat (i_size (itable s ! dp))" "16 dvd length cs" using assms(1,2) by (simp_all add: length_contents dir_at_def)
  then have k: "16 * k = length cs" using assms(3,5) by auto
  then show "off = i_size (itable s ! dp)" "k = length cs div 16" using assms(4) len(1) by simp_all
qed

lemma scan_step:
  assumes "dir_at s dp" "cs = file_contents s dp" "off = of_nat (16 * k)" "Suc n = length cs div 16 - k"
  obtains de' where "readi buf_put dp 0 off DESIZE de s = Ok (16, de', s)" "de_inum de' = de_inum (entry_at cs k)"
    "\<forall>name. namecmp name (de_name de') = 0 \<longleftrightarrow> namecmp name (de_name (entry_at cs k)) = 0"
    "off < i_size (itable s ! dp)" "off + DESIZE = of_nat (16 * Suc k)" "16 * Suc k \<le> length cs" "n = length cs div 16 - Suc k" "k < length cs div 16"
proof -
  have len: "length cs = unat (i_size (itable s ! dp))" "16 dvd length cs" using assms(1,2) by (simp_all add: length_contents dir_at_def)
  have k: "k < length cs div 16" "16 * k < length cs" using assms(4) by auto
  obtain de' where de: "readi buf_put dp 0 off DESIZE de s = Ok (16, de', s)" "\<And>i. i < 16 \<Longrightarrow> de' i = entry_at cs k i"
    using read_entry [OF assms(1) _ assms(3)] k(2) len(1) assms(2) by metis
  have "unat (i_size (itable s ! dp)) \<le> MAXFILE * BSIZE" using assms(1) by (simp add: dir_at_def file_at_def no_holes_def Let_def)
  then have "off < i_size (itable s ! dp)" using assms(3) k(2) len(1) by (simp add: word_less_nat_alt unat_of_nat MAXBYTES del: of_nat_mult)
  moreover have "off + DESIZE = of_nat (16 * Suc k)" using assms(3) by (simp add: DESIZE_def)
  moreover have "16 * Suc k \<le> length cs" "n = length cs div 16 - Suc k" using k len(2) assms(4) by auto
  moreover have "de_inum de' = de_inum (entry_at cs k)" "\<forall>name. namecmp name (de_name de') = 0 \<longleftrightarrow> namecmp name (de_name (entry_at cs k)) = 0"
    using dirent_cong [of de' "entry_at cs k"] de(2) by blast+
  ultimately show thesis using that de(1) k(1) by blast
qed

lemma dirlookup_loop_spec:
  assumes "dir_at s dp" "cs = file_contents s dp" "16 * k \<le> length cs" "off = of_nat (16 * k)"
  shows "dirlookup_loop dp name off de s =
    (case find_index (\<lambda>k. holds_name name (entry_at cs k)) [k..<length cs div 16] of
       None \<Rightarrow> Ok (None, s)
     | Some j \<Rightarrow> dir_get s dp cs (k + j))"
  using assms(3,4)
proof (induction "length cs div 16 - k" arbitrary: k off de)
  case 0
  then show ?case using scan_end [OF assms(1,2) 0(2,3,1)] by (subst dirlookup_loop.simps) simp
next
  case (Suc n)
  obtain de' where st: "readi buf_put dp 0 off DESIZE de s = Ok (16, de', s)" "de_inum de' = de_inum (entry_at cs k)"
    "\<forall>name. namecmp name (de_name de') = 0 \<longleftrightarrow> namecmp name (de_name (entry_at cs k)) = 0"
    "off < i_size (itable s ! dp)" "off + DESIZE = of_nat (16 * Suc k)" "16 * Suc k \<le> length cs" "n = length cs div 16 - Suc k" "k < length cs div 16"
    by (rule scan_step [OF assms(1,2) Suc(4,2), where de = de])
  have "dirlookup_loop dp name off de s = (if holds_name name (entry_at cs k) then dir_get s dp cs k else dirlookup_loop dp name (off + DESIZE) de' s)"
    using st(1-4) Suc(4) by (subst dirlookup_loop.simps) (simp add: holds_name_def dir_get_def)
  then show ?case unfolding find_index_upt_step [OF st(8)] using Suc(1) [OF st(7,6,5), of de']
    by (cases "find_index (\<lambda>k. holds_name name (entry_at cs k)) [Suc k..<length cs div 16]") simp_all
qed

lemma dirlookup_spec:
  assumes "dir_at s dp" "cs = file_contents s dp"
  shows "dirlookup dp name s =
    (case dir_find name cs of
       None \<Rightarrow> Ok (None, s)
     | Some j \<Rightarrow> dir_get s dp cs j)"
  using dirlookup_loop_spec [OF assms, of 0 0 name] assms(1) 
  by (simp add: dirlookup_def dir_at_def dir_find_def cong: option.case_cong)

lemma dirlink_scan_spec:
  assumes "dir_at s dp" "cs = file_contents s dp" "16 * k \<le> length cs" "off = of_nat (16 * k)"
  shows "\<exists>de'. dirlink_scan dp off de s =
    Ok (of_nat (16 * (case find_index (\<lambda>k. de_inum (entry_at cs k) = 0) [k..<length cs div 16] of Some j \<Rightarrow> k + j | None \<Rightarrow> length cs div 16)), de', s)"
  using assms(3,4)
proof (induction "length cs div 16 - k" arbitrary: k off de)
  case 0
  then show ?case using scan_end [OF assms(1,2) 0(2,3,1)] by (subst dirlink_scan.simps) simp
next
  case (Suc n)
  obtain de' where st: "readi buf_put dp 0 off DESIZE de s = Ok (16, de', s)" "de_inum de' = de_inum (entry_at cs k)"
    "\<forall>name. namecmp name (de_name de') = 0 \<longleftrightarrow> namecmp name (de_name (entry_at cs k)) = 0"
    "off < i_size (itable s ! dp)" "off + DESIZE = of_nat (16 * Suc k)" "16 * Suc k \<le> length cs" "n = length cs div 16 - Suc k" "k < length cs div 16"
    by (rule scan_step [OF assms(1,2) Suc(4,2), where de = de])
  have "dirlink_scan dp off de s = (if de_inum (entry_at cs k) = 0 then Ok (of_nat (16 * k), de', s) else dirlink_scan dp (off + DESIZE) de' s)"
    using st(1,2,4) Suc(4) by (subst dirlink_scan.simps) simp
  then show ?case unfolding find_index_upt_step [OF st(8)] using Suc(1) [OF st(7,6,5), of de']
    by (cases "find_index (\<lambda>k. de_inum (entry_at cs k) = 0) [Suc k..<length cs div 16]") auto
qed

subsection \<open>Adding an entry\<close>

lemma dir_slot_le: "dir_slot cs \<le> length cs div 16"
  by (auto simp: dir_slot_def find_index_Some split: option.split)

lemma dir_slot_free: "dir_slot cs < length cs div 16 \<Longrightarrow> de_inum (entry_at cs (dir_slot cs)) = 0"
  using find_index_sat [of "\<lambda>k. de_inum (entry_at cs k) = 0" "[0..<length cs div 16]"]
  by (cases "find_index (\<lambda>k. de_inum (entry_at cs k) = 0) [0..<length cs div 16]") (auto simp: dir_slot_def dest: find_index_less)

lemma set_dirent_bytes:
  assumes "i < 16"
  shows "set_dirent name inum de i = set_dirent name inum de' i"
  using assms by (auto simp: set_dirent_def put16_def strncpy_def strncpy_from_apply DIRSIZ_def)

lemma set_dirent_fields:
  "de_inum (set_dirent name inum de) = ucast inum"
  "namecmp n2 (de_name (set_dirent name inum de)) = 0 \<longleftrightarrow> namecmp n2 name = 0"
proof -
  show "de_inum (set_dirent name inum de) = ucast inum" by (simp add: de_inum_def set_dirent_def)
  have "de_name (set_dirent name inum de) = strncpy (de_name de) name DIRSIZ"
    by (simp add: de_name_def set_dirent_def put16_def)
  then show "namecmp n2 (de_name (set_dirent name inum de)) = 0 \<longleftrightarrow> namecmp n2 name = 0"
    by (simp add: namecmp_def strncmp_strncpy_right)
qed

lemma find_index_upt_extend:
  assumes "m \<le> m'" "\<And>j. j < m \<Longrightarrow> P j = Q j" "\<And>j. m \<le> j \<Longrightarrow> j < m' \<Longrightarrow> \<not> P j"
  shows "find_index P [0..<m'] = find_index Q [0..<m]"
proof (cases "find_index Q [0..<m]")
  case None
  then have "\<not> P j" if "j < m'" for j using assms that by (cases "j < m") (auto simp: find_index_None)
  then have "find_index P [0..<m'] = None" by (auto simp: find_index_None)
  then show ?thesis using None by simp
next
  case (Some i)
  then have "find_index P [0..<m'] = Some i" using assms(1,2) by (auto simp: find_index_Some)
  then show ?thesis using Some by simp
qed

text \<open>A directory with entry \<open>k\<close>, which was free or is new, replaced by \<open>e\<close>.\<close>

lemma entry_at_replaced:
  assumes "length new = 16" "16 dvd length cs" "k \<le> length cs div 16" "cs' = overwrite (16 * k) new cs"
  shows "j < length cs div 16 \<Longrightarrow> j \<noteq> k \<Longrightarrow> i < 16 \<Longrightarrow> entry_at cs' j i = entry_at cs j i" "i < 16 \<Longrightarrow> entry_at cs' k i = new ! i"
    "length cs' div 16 = max (length cs div 16) (Suc k)" "16 dvd length cs'"
proof -
  obtain m where m: "length cs = 16 * m" using assms(2) by auto
  have k: "16 * k \<le> length cs" using assms(3) m by simp
  note n = nth_overwrite [OF k, of _ new, folded assms(4), unfolded assms(1)]
  show "i < 16 \<Longrightarrow> entry_at cs' k i = new ! i" using n [of "16 * k + i"] by (simp add: entry_at_def)
  show "entry_at cs' j i = entry_at cs j i" if "j < length cs div 16" "j \<noteq> k" "i < 16"
  proof -
    have "16 * j + i < length cs" "\<not> (16 * k \<le> 16 * j + i \<and> 16 * j + i < 16 * k + 16)" using that m by auto
    then show ?thesis using n [of "16 * j + i"] unfolding entry_at_def by (simp only: if_False less_max_iff_disj simp_thms)
  qed
  have "length cs' = 16 * max m (Suc k)" using length_overwrite_max [OF k, of new] assms(1,4) m by (simp add: max_def)
  then show "length cs' div 16 = max (length cs div 16) (Suc k)" "16 dvd length cs'" using m by simp_all
qed

lemma dir_find_replaced:
  assumes "length new = 16" "16 dvd length cs" "k \<le> length cs div 16" "cs' = overwrite (16 * k) new cs"
    and "k < length cs div 16 \<longrightarrow> de_inum (entry_at cs k) = 0" "\<forall>i < 16. new ! i = e i"
  shows "\<lbrakk>de_inum e \<noteq> 0; namecmp name (de_name e) = 0; dir_find name cs = None\<rbrakk> \<Longrightarrow> dir_find name cs' = Some k"
    "namecmp n2 (de_name e) \<noteq> 0 \<Longrightarrow> dir_find n2 cs' = dir_find n2 cs"
    "dir_find n2 cs = Some j \<Longrightarrow> dir_get s dp cs' j = dir_get s dp cs j" "de_inum (entry_at cs' k) = de_inum e"
proof -
  note r = entry_at_replaced [OF assms(1-4)]
  have ek: "de_inum (entry_at cs' k) = de_inum e" "namecmp n (de_name (entry_at cs' k)) = 0 \<longleftrightarrow> namecmp n (de_name e) = 0" for n
    using dirent_cong [of "entry_at cs' k" e] r(2) assms(6) by simp_all
  have old: "de_inum (entry_at cs' j) = de_inum (entry_at cs j)" "holds_name n (entry_at cs' j) = holds_name n (entry_at cs j)"
    if "j < length cs div 16" "j \<noteq> k" for j n
    using dirent_cong [of "entry_at cs' j" "entry_at cs j"] r(1) [OF that] by (simp_all add: holds_name_def)
  show "dir_find name cs' = Some k" if "de_inum e \<noteq> 0" "namecmp name (de_name e) = 0" "dir_find name cs = None"
    unfolding dir_find_def find_index_Some r(3)
    using that ek assms(3) old by (auto simp: holds_name_def [of _ "entry_at cs' k"] dir_find_def find_index_None)
  show "dir_find n2 cs' = dir_find n2 cs" if "namecmp n2 (de_name e) \<noteq> 0"
    unfolding dir_find_def r(3)
  proof (rule find_index_upt_extend)
    show "holds_name n2 (entry_at cs' j) = holds_name n2 (entry_at cs j)" if "j < length cs div 16" for j
      using old(2) that assms(5) ek \<open>namecmp n2 (de_name e) \<noteq> 0\<close> by (cases "j = k") (auto simp: holds_name_def)
    show "\<not> holds_name n2 (entry_at cs' j)" if "length cs div 16 \<le> j" "j < max (length cs div 16) (Suc k)" for j
    proof -
      have "j = k" using that assms(3) by auto
      then show ?thesis using ek \<open>namecmp n2 (de_name e) \<noteq> 0\<close> by (simp add: holds_name_def)
    qed
  qed simp
  show "dir_get s dp cs' j = dir_get s dp cs j" if "dir_find n2 cs = Some j"
  proof -
    have "j < length cs div 16" "de_inum (entry_at cs j) \<noteq> 0" using that by (auto simp: dir_find_def find_index_Some holds_name_def)
    then show ?thesis using old(1) [of j] assms(5) by (cases "j = k") (auto simp: dir_get_def)
  qed
  show "de_inum (entry_at cs' k) = de_inum e" by (rule ek)
qed

lemma entry_one_block:
  assumes "16 dvd off"
  shows "nblocks off 16 = 1"
proof -
  obtain k where k: "off = 16 * k" using assms by auto
  have "(off + 15) div (16 * 64) = off div (16 * 64)" unfolding div_mult2_eq k by simp
  then show ?thesis by (simp add: nblocks_def BSIZE_def)
qed

lemma dirlink_adds:
  assumes at: "dir_at s dp" and cs: "cs = file_contents s dp" and new: "dir_find name cs = None"
    and size: "length cs + 16 \<le> MAXFILE * BSIZE" and room: "log_room (7 + k) s"
  shows "\<exists>r s'. dirlink pid dp name inum s = Ok (r, s') \<and> log_room k s' \<and> effect 7 (home (fsb s)) s s' \<and>
    (r = 0 \<and> dir_at s' dp \<and> file_contents s' dp = overwrite (16 * dir_slot cs) (map (set_dirent name inum (\<lambda>_. 0)) [0..<16]) cs \<or>
     r = -1 \<and> no_free (fsb s) (fview s'))"
proof -
  let ?x = "itable s ! dp"
  have len: "length cs = unat (i_size ?x)" "16 dvd length cs" "file_at s dp" "i_type ?x = T_DIR"
    using at cs by (simp_all add: length_contents dir_at_def)
  obtain de where sc: "dirlink_scan dp 0 (\<lambda>_. 0) s = Ok (of_nat (16 * dir_slot cs), de, s)"
    using dirlink_scan_spec [OF at cs, of 0 0 "\<lambda>_. 0"] by (auto simp: dir_slot_def cong: option.case_cong)
  define off :: u32 where "off = of_nat (16 * dir_slot cs)"
  define b where "b = set_dirent name inum de"
  have slot: "16 * dir_slot cs \<le> length cs" using dir_slot_le [of cs] len(2) by auto
  then have o: "unat off = 16 * dir_slot cs" using size by (simp add: off_def unat_of_nat MAXBYTES del: of_nat_mult)
  have D: "unat DESIZE = 16" by (simp add: DESIZE_def)
  have pre: "off \<le> i_size ?x" "unat off + unat DESIZE \<le> MAXFILE * BSIZE" "unat (0 :: u64) + unat DESIZE < 2 ^ 64"
    "log_room (6 * nblocks (unat off) (unat DESIZE) + 1 + k) s"
    using slot size o len(1) room entry_one_block [of "unat off"] by (simp_all add: word_le_nat_alt D)
  from kbuf_source.writei_contents [where b = b, OF len(3) refl refl pre] obtain t s' where
    w: "writei (buf_get b) dp 0 off DESIZE s = Ok (int t, s')" "t \<le> 16" "t < 16 \<longrightarrow> no_free (fsb s) (fview s')" "file_at s' dp"
    "file_contents s' dp = overwrite (unat off) (map (\<lambda>i. b (unat (0 :: u64) + i)) [0..<t]) cs" "log_room k s'"
    "effect (6 * nblocks (unat off) (unat DESIZE) + 1) (home (fsb s)) s s'" "\<exists>as'. itable s' = (itable s)[dp := after_write ?x as' (unat off + t)]"
    unfolding D cs [symmetric] by blast
  have e: "effect 7 (home (fsb s)) s s'" using w(7) entry_one_block [of "unat off"] o by (simp add: D)
  have eq: "dirlink pid dp name inum s = Ok (if t = 16 then 0 else -1, s')"
    using dirlookup_spec [OF at cs, of name] new sc w(1) by (simp add: dirlink_def off_def b_def)
  show ?thesis
  proof (cases "t = 16")
    case True
    have ty: "i_type (itable s' ! dp) = T_DIR" using w(8) len(3,4) by (auto simp: file_at_def after_write_def)
    have m: "map (\<lambda>i. b (unat (0 :: u64) + i)) [0..<16] = map (set_dirent name inum (\<lambda>_. 0)) [0..<16]"
      using set_dirent_bytes by (auto simp: b_def)
    have c: "file_contents s' dp = overwrite (16 * dir_slot cs) (map (set_dirent name inum (\<lambda>_. 0)) [0..<16]) cs"
      using w(5) unfolding o True m .
    have "16 dvd length (file_contents s' dp)"
      by (rule entry_at_replaced(4) [OF _ len(2) dir_slot_le c]) simp
    then have "dir_at s' dp" using w(4) ty by (simp add: dir_at_def length_contents)
    then show ?thesis using eq True e w(6) c by simp
  next
    case False
    then show ?thesis using eq e w(2,3,6) by simp
  qed
qed

subsection \<open>Path names\<close>

text \<open>The elements of a path, each cut to the width of a directory entry's name.\<close>

fun split_slash :: "u8 list \<Rightarrow> u8 list list" where
  "split_slash [] = [[]]"
| "split_slash (c # cs) = (if c = slash then [] # split_slash cs else (c # hd (split_slash cs)) # tl (split_slash cs))"

definition path_elems :: "u8 list \<Rightarrow> u8 list list" where
  "path_elems path = map (take DIRSIZ) (filter (\<lambda>e. e \<noteq> []) (split_slash path))"

lemma path_elems_slash: "path_elems (dropWhile (\<lambda>c. c = slash) path) = path_elems path"
  by (induction path) (auto simp: path_elems_def)

lemma split_slash_elem:
  "split_slash path = takeWhile (\<lambda>c. c \<noteq> slash) path #
     (case dropWhile (\<lambda>c. c \<noteq> slash) path of [] \<Rightarrow> [] | c # cs \<Rightarrow> split_slash cs)"
  by (induction path) auto

lemma path_elems_cons:
  assumes "path \<noteq> []" "hd path \<noteq> slash"
  shows "path_elems path = take DIRSIZ (takeWhile (\<lambda>c. c \<noteq> slash) path) # path_elems (dropWhile (\<lambda>c. c \<noteq> slash) path)"
proof -
  let ?w = "takeWhile (\<lambda>c. c \<noteq> slash) path" and ?r = "dropWhile (\<lambda>c. c \<noteq> slash) path"
  have w: "?w \<noteq> []" using assms by (cases path) auto
  show ?thesis
  proof (cases ?r)
    case Nil
    then show ?thesis using w unfolding path_elems_def by (subst split_slash_elem) (simp add: Nil)
  next
    case (Cons c cs)
    then have "c = slash" using hd_dropWhile [of "\<lambda>c. c \<noteq> slash" path] by auto
    then have "path_elems ?r = path_elems cs" using Cons by (simp add: path_elems_def)
    then show ?thesis using w Cons unfolding path_elems_def by (subst split_slash_elem) (simp add: Cons)
  qed
qed

lemma cut_name:
  assumes "0 \<notin> set w"
  shows "cut_string DIRSIZ (if length w \<ge> DIRSIZ then (\<lambda>i. if i < DIRSIZ then w ! i else name i)
    else (\<lambda>i. if i < length w then w ! i else if i = length w then 0 else name i)) = take DIRSIZ w" (is "cut_string _ ?f = _")
proof (cases "length w \<ge> DIRSIZ")
  case True
  have "map ?f [0..<DIRSIZ] = take DIRSIZ w" using True by (intro nth_equalityI) simp_all
  moreover have "takeWhile (\<lambda>c. c \<noteq> 0) (take DIRSIZ w) = take DIRSIZ w"
    using assms set_take_subset [of DIRSIZ w] by (intro takeWhile_eq_all_conv [THEN iffD2]) auto
  ultimately show ?thesis by (simp only: cut_string_def)
next
  case False
  then have u: "[0..<DIRSIZ] = [0..<length w] @ length w # [Suc (length w)..<DIRSIZ]"
    using upt_add_eq_append [of 0 "length w" "DIRSIZ - length w"] upt_conv_Cons [of "length w" DIRSIZ] by simp
  have "map ?f [0..<length w] = w" using False by (intro nth_equalityI) simp_all
  moreover have "?f (length w) = 0" using False by simp
  ultimately have eq: "map ?f [0..<DIRSIZ] = w @ 0 # map ?f [Suc (length w)..<DIRSIZ]" unfolding u by (simp only: map_append list.map)
  have "takeWhile (\<lambda>c. c \<noteq> 0) (w @ 0 # xs) = w" for xs using assms by (subst takeWhile_append2) auto
  then have "cut_string DIRSIZ ?f = w" unfolding cut_string_def eq .
  then show ?thesis using False by simp
qed

lemma not_in_part: "x \<notin> set xs \<Longrightarrow> x \<notin> set (dropWhile P xs)" "x \<notin> set xs \<Longrightarrow> x \<notin> set (takeWhile P xs)"
  by (auto dest: set_dropWhileD set_takeWhileD)

lemma no_leading_slash: "hd (dropWhile (\<lambda>c. c = slash) xs @ [0]) \<noteq> slash"
  by (induction xs) auto

lemma skipelem_elems:
  assumes "0 \<notin> set path"
  shows "case skipelem path name of
      None \<Rightarrow> path_elems path = []
    | Some (path', name') \<Rightarrow> path_elems path = cut_string DIRSIZ name' # path_elems path' \<and> 0 \<notin> set path' \<and> hd (path' @ [0]) \<noteq> slash"
proof -
  let ?p = "dropWhile (\<lambda>c. c = slash) path"
  note e = path_elems_slash [of path]
  show ?thesis
  proof (cases "?p = []")
    case True
    then have "path_elems path = []" using e unfolding True by (simp add: path_elems_def)
    then show ?thesis using True by (simp add: skipelem_def)
  next
    case False
    have hd: "hd ?p \<noteq> slash" using hd_dropWhile [of "\<lambda>c. c = slash" path] False by auto
    let ?w = "takeWhile (\<lambda>c. c \<noteq> slash) ?p" and ?r = "dropWhile (\<lambda>c. c \<noteq> slash) ?p"
    have z: "0 \<notin> set ?p" "0 \<notin> set ?w" "0 \<notin> set ?r" "0 \<notin> set (dropWhile (\<lambda>c. c = slash) ?r)" 
      using assms by (intro not_in_part; assumption)+
    have "hd (dropWhile (\<lambda>c. c = slash) ?r @ [0]) \<noteq> slash" by (rule no_leading_slash)
    moreover have "path_elems path = take DIRSIZ ?w # path_elems (dropWhile (\<lambda>c. c = slash) ?r)"
      using path_elems_cons [OF False hd] unfolding e path_elems_slash [of ?r] .
    ultimately show ?thesis using cut_name [OF z(2), of name] z(4) unfolding skipelem_def Let_def if_not_P [OF False] by simp
  qed
qed

section \<open>Properties\<close>

text \<open>
  C39. Adding and looking up names agree. \<^verbatim>\<open>dirlink\<close> of a name that is not in the directory, with room in the log and
  below the largest file size, fails only if the disk is full. If it succeeds, \<^verbatim>\<open>dirlookup\<close> of the name, or of one with
  the same first 14 bytes, then finds the entry that was the first free one and gets the inode of the new number;
  every other name is found, or not found, as before.
\<close>

theorem dirlink_then_dirlookup:
  assumes "dir_at s dp" "cs = file_contents s dp" "dir_find name cs = None" "(ucast inum :: u16) \<noteq> 0"
    and "length cs + 16 \<le> MAXFILE * BSIZE" "log_room 7 s"
  shows "\<exists>r s'. dirlink pid dp name inum s = Ok (r, s') \<and>
    (if r = 0 then dir_at s' dp \<and>
       (\<forall>n2. dirlookup dp n2 s' =
          (if namecmp n2 name = 0
           then rbind (iget (i_dev (itable s' ! dp)) (ucast (ucast inum :: u16)) s') (\<lambda>(ip, s). Ok (Some (ip, of_nat (16 * dir_slot cs)), s))
           else case dir_find n2 cs of None \<Rightarrow> Ok (None, s') | Some j \<Rightarrow> dir_get s' dp cs j))
     else r = -1 \<and> no_free (fsb s) (fview s'))"
proof -
  have "log_room (7 + 0) s" using assms(6) by simp
  from dirlink_adds [OF assms(1-3,5) this] obtain r s' where d: "dirlink pid dp name inum s = Ok (r, s')"
    "r = 0 \<and> dir_at s' dp \<and> file_contents s' dp = overwrite (16 * dir_slot cs) (map (set_dirent name inum (\<lambda>_. 0)) [0..<16]) cs \<or>
     r = -1 \<and> no_free (fsb s) (fview s')" by blast
  define e where "e = set_dirent name inum (\<lambda>_. 0)"
  note f = set_dirent_fields [where name = name and inum = inum and de = "\<lambda>_. 0", folded e_def]
  have "16 dvd length cs" using assms(1,2) by (simp add: length_contents dir_at_def)
  have "dirlookup dp n2 s' = (if namecmp n2 name = 0
      then rbind (iget (i_dev (itable s' ! dp)) (ucast (ucast inum :: u16)) s') (\<lambda>(ip, s). Ok (Some (ip, of_nat (16 * dir_slot cs)), s))
      else case dir_find n2 cs of None \<Rightarrow> Ok (None, s') | Some j \<Rightarrow> dir_get s' dp cs j)"
    if "dir_at s' dp" and cs': "file_contents s' dp = overwrite (16 * dir_slot cs) (map e [0..<16]) cs" for n2
  proof -
    have new: "length (map e [0..<16]) = 16" "\<forall>i < 16. map e [0..<16] ! i = e i" by simp_all
    have "dir_slot cs < length cs div 16 \<longrightarrow> de_inum (entry_at cs (dir_slot cs)) = 0" using dir_slot_free by blast
    note R = dir_find_replaced [OF new(1) \<open>16 dvd length cs\<close> dir_slot_le cs' this new(2)]
    note look = dirlookup_spec [OF that(1) refl, of n2]
    show ?thesis
    proof (cases "namecmp n2 name = 0")
      case True
      then have "dir_find n2 cs = None"
        using assms(3) by (simp add: dir_find_def holds_name_def namecmp_def strncmp_cut)
      then have "dir_find n2 (file_contents s' dp) = Some (dir_slot cs)" using R(1) [of n2] f assms(4) True by simp
      then show ?thesis using look R(4) f(1) True by (simp add: dir_get_def)
    next
      case False
      then have "dir_find n2 (file_contents s' dp) = dir_find n2 cs" using R(2) [of n2] f by simp
      then show ?thesis using look R(3) [of n2] False by (simp split: option.split)
    qed
  qed
  then show ?thesis using d unfolding e_def by auto
qed

definition small_dir :: fs where
  "small_dir = small_fs\<lparr>itable := [small_file\<lparr>i_type := 1\<rparr>]\<rparr>"

theorem dirlink_then_dirlookup_witness:
  "\<exists>r s'. dirlink 1 0 (\<lambda>i. if i = 0 then 97 else 0) 5 small_dir = Ok (r, s') \<and> (r = 0 \<or> no_free (fsb small_dir) (fview s'))"
proof -
  have it: "itable small_fs = [small_file]" by (simp add: small_fs_def)
  have same: "fsb small_dir = fsb small_fs" "fdev small_dir = fdev small_fs" "flog small_dir = flog small_fs" "itable small_dir = [small_file\<lparr>i_type := 1\<rparr>]"
    by (simp_all add: small_dir_def)
  have "file_at small_dir 0" using small_fs_ok(1) by (simp add: file_at_def Let_def same it)
  then have d: "dir_at small_dir 0" by (simp add: dir_at_def same T_DIR_def small_file_def)
  have c: "file_contents small_dir 0 = []" by (simp add: file_contents_def same small_file_def)
  have "log_room 7 small_dir" using small_fs_ok(2) by (simp add: log_room_def same)
  from dirlink_then_dirlookup [OF d refl _ _ _ this, of "\<lambda>i. if i = 0 then 97 else 0" 5 1] show ?thesis
    unfolding c by (auto simp: dir_find_def MAXBYTES split: if_splits)
qed

end
