(* ===== verification/File.thy ===== *)
theory File
  imports Dir Pipe Console Proc
begin

text \<open>
  Open files (\<^verbatim>\<open>kernel/file.c\<close>, \<^verbatim>\<open>kernel/file.h\<close>, and \<^verbatim>\<open>pipealloc\<close> of \<^verbatim>\<open>kernel/pipe.c\<close>), which dispatch to inodes, pipes and the
  console. The state of the kernel that a system call works on is the record \<open>ksys\<close>; \<open>me\<close> is the index of the
  calling process, and \<open>kqueue\<close> holds the feedback queues. A pointer to an open file is its index in the table, and a pipe is kept by the address of the
  page it was allocated in. An operation that goes to sleep is \<open>Blocked\<close>.
\<close>

section \<open>Definitions\<close>

definition NFILE :: nat where "NFILE = 100"

definition NDEV :: int where "NDEV = 10"

definition CONSOLE :: int where "CONSOLE = 1"

datatype fdtype = FD_NONE | FD_PIPE | FD_INODE | FD_DEVICE

record open_file =
  f_type :: fdtype
  f_ref :: int
  f_readable :: bool
  f_writable :: bool
  f_pipe :: u64
  f_ip :: nat
  f_off :: u32
  f_major :: u16

record ksys =
  kmem :: kstate
  kfs :: fs
  ktab :: ptable
  ftab :: "open_file list"
  kpipes :: "u64 \<Rightarrow> pipe option"
  kcons :: cons
  kuart :: uart
  kqueue :: "nat option list list"

definition cur :: "nat \<Rightarrow> ksys \<Rightarrow> proc" where
  "cur me s = procs (ktab s) ! me"

definition upd_file :: "nat \<Rightarrow> (open_file \<Rightarrow> open_file) \<Rightarrow> ksys \<Rightarrow> ksys" where
  "upd_file i f s = s\<lparr>ftab := (ftab s)[i := f (ftab s ! i)]\<rparr>"

text \<open>\<^verbatim>\<open>begin_op\<close> and \<^verbatim>\<open>end_op\<close> on the whole state; \<^verbatim>\<open>end_op\<close> wakes the processes that wait for room in the log.\<close>

definition kbegin_op :: "ksys \<Rightarrow> ksys res" where
  "kbegin_op s = (case begin_op (flog (kfs s)) of
     None \<Rightarrow> Blocked ''log''
   | Some l \<Rightarrow> Ok (s\<lparr>kfs := (kfs s)\<lparr>flog := l\<rparr>\<rparr>))"

definition kend_op :: "nat \<Rightarrow> ksys \<Rightarrow> ksys res" where
  "kend_op me s = rbind (end_op (flog (kfs s)) (fdev (kfs s))) (\<lambda>(l, d).
     Ok (s\<lparr>kfs := (kfs s)\<lparr>flog := l, fdev := d\<rparr>, ktab := wakeup (Some me) LogChan (ktab s)\<rparr>))"

text \<open>An operation of the file system, on the part of the state it works on.\<close>

definition fs_do :: "(fs \<Rightarrow> fs res) \<Rightarrow> ksys \<Rightarrow> ksys res" where
  "fs_do f s = rbind (f (kfs s)) (\<lambda>x. Ok (s\<lparr>kfs := x\<rparr>))"

definition fs_get :: "(fs \<Rightarrow> ('a \<times> fs) res) \<Rightarrow> ksys \<Rightarrow> ('a \<times> ksys) res" where
  "fs_get f s = rbind (f (kfs s)) (\<lambda>(r, x). Ok (r, s\<lparr>kfs := x\<rparr>))"

abbreviation mypid :: "nat \<Rightarrow> ksys \<Rightarrow> int" where
  "mypid me s \<equiv> p_pid (cur me s)"

definition filealloc :: "ksys \<Rightarrow> nat option \<times> ksys" where
  "filealloc s = (case find_index (\<lambda>f. f_ref f = 0) (ftab s) of
     Some i \<Rightarrow> (Some i, upd_file i (\<lambda>f. f\<lparr>f_ref := 1\<rparr>) s)
   | None \<Rightarrow> (None, s))"

definition filedup :: "nat \<Rightarrow> ksys \<Rightarrow> (nat \<times> ksys) res" where
  "filedup i s =
     (if f_ref (ftab s ! i) < 1 then Panic ''filedup''
      else Ok (i, upd_file i (\<lambda>f. f\<lparr>f_ref := f_ref f + 1\<rparr>) s))"

definition pipe_chan :: "u64 \<Rightarrow> wchan \<Rightarrow> channel" where
  "pipe_chan a w = (case w of NRead \<Rightarrow> PipeReadChan (unat a) | NWrite \<Rightarrow> PipeWriteChan (unat a))"

definition pipe_wakes :: "nat \<Rightarrow> u64 \<Rightarrow> wchan list \<Rightarrow> ksys \<Rightarrow> ksys" where
  "pipe_wakes me a ws s = s\<lparr>ktab := fold (\<lambda>w. wakeup (Some me) (pipe_chan a w)) ws (ktab s)\<rparr>"

definition file_pipeclose :: "nat \<Rightarrow> u64 \<Rightarrow> bool \<Rightarrow> ksys \<Rightarrow> ksys res" where
  "file_pipeclose me a writable s =
     (case kpipes s a of
        None \<Rightarrow> Fault ''no pipe''
      | Some p \<Rightarrow>
          (case pipeclose p writable of (fre, p, ws) \<Rightarrow>
            let s = pipe_wakes me a ws (s\<lparr>kpipes := (kpipes s)(a \<mapsto> p)\<rparr>) in
            if fre then rbind (kfree (kmem s) a) (\<lambda>m. Ok (s\<lparr>kmem := m, kpipes := (kpipes s)(a := None)\<rparr>))
            else Ok s))"

definition fileclose :: "nat \<Rightarrow> nat \<Rightarrow> ksys \<Rightarrow> ksys res" where
  "fileclose me i s =
     (if f_ref (ftab s ! i) < 1 then Panic ''fileclose''
      else let s = upd_file i (\<lambda>f. f\<lparr>f_ref := f_ref f - 1\<rparr>) s; ff = ftab s ! i in
        if f_ref ff > 0 then Ok s
        else let s = upd_file i (\<lambda>f. f\<lparr>f_ref := 0, f_type := FD_NONE\<rparr>) s in
          (case f_type ff of
             FD_PIPE \<Rightarrow> file_pipeclose me (f_pipe ff) (f_writable ff) s
           | FD_NONE \<Rightarrow> Ok s
           | _ \<Rightarrow> rbind (kbegin_op s) (\<lambda>s. rbind (fs_do (iput (mypid me s) (f_ip ff)) s) (kend_op me))))"

text \<open>The bytes of a \<^verbatim>\<open>struct stat\<close>; the four bytes of padding come from the kernel stack.\<close>

definition stat_bytes :: "bytes \<Rightarrow> stat \<Rightarrow> bytes" where
  "stat_bytes pad st =
     (\<lambda>i. if i < 16
       then put16 10 (st_nlink st) (put16 8 (st_type st) (put32 4 (st_ino st) (put32 0 (st_dev st) pad))) i
       else le_byte (st_size st) (i - 16))"

definition filestat :: "bytes \<Rightarrow> nat \<Rightarrow> nat \<Rightarrow> u64 \<Rightarrow> ksys \<Rightarrow> (int \<times> ksys) res" where
  "filestat pad me i addr s =
     (let f = ftab s ! i in
      if f_type f = FD_INODE \<or> f_type f = FD_DEVICE
      then rbind (fs_do (ilock (mypid me s) (f_ip f)) s) (\<lambda>s.
        let st = stati (f_ip f) (kfs s) in
        rbind (fs_do (iunlock (mypid me s) (f_ip f)) s) (\<lambda>s.
        rbind (copyout (kmem s) (p_pagetable (cur me s)) addr (stat_bytes pad st) 24) (\<lambda>(r, m).
          Ok (if r < 0 then -1 else 0, s\<lparr>kmem := m\<rparr>))))
      else Ok (-1, s))"

definition file_piperead :: "nat \<Rightarrow> u64 \<Rightarrow> u64 \<Rightarrow> int \<Rightarrow> ksys \<Rightarrow> (int \<times> ksys) res" where
  "file_piperead me a addr n s =
     (case kpipes s a of
        None \<Rightarrow> Fault ''no pipe''
      | Some p \<Rightarrow>
          rbind (piperead (kmem s) (p_pagetable (cur me s)) addr n (p_killed (cur me s) \<noteq> 0) p) (\<lambda>(r, p, m, ws).
            case r of
              Sleeping _ _ \<Rightarrow> Blocked ''pipe''
            | Returned r \<Rightarrow> Ok (r, pipe_wakes me a ws (s\<lparr>kmem := m, kpipes := (kpipes s)(a \<mapsto> p)\<rparr>))))"

definition file_pipewrite :: "nat \<Rightarrow> u64 \<Rightarrow> u64 \<Rightarrow> int \<Rightarrow> ksys \<Rightarrow> (int \<times> ksys) res" where
  "file_pipewrite me a addr n s =
     (case kpipes s a of
        None \<Rightarrow> Fault ''no pipe''
      | Some p \<Rightarrow>
          rbind (pipewrite (kmem s) (p_pagetable (cur me s)) addr n 0 (\<lambda>_. p_killed (cur me s) \<noteq> 0) p) (\<lambda>(r, p, ws).
            case r of
              Sleeping _ _ \<Rightarrow> Blocked ''pipe''
            | Returned r \<Rightarrow> Ok (r, pipe_wakes me a ws (s\<lparr>kpipes := (kpipes s)(a \<mapsto> p)\<rparr>))))"

text \<open>The entry of the console in \<^verbatim>\<open>devsw\<close>, which is the only one.\<close>

definition dev_read :: "nat \<Rightarrow> u64 \<Rightarrow> int \<Rightarrow> ksys \<Rightarrow> (int \<times> ksys) res" where
  "dev_read me addr n s =
     rbind (consoleread (kmem s) (p_pagetable (cur me s)) True addr n (p_killed (cur me s) \<noteq> 0) (kcons s)) (\<lambda>(r, c, m).
       case r of
         CSleeping _ _ \<Rightarrow> Blocked ''console''
       | CReturned r \<Rightarrow> Ok (r, s\<lparr>kmem := m, kcons := c\<rparr>))"

definition dev_write :: "device \<Rightarrow> nat \<Rightarrow> u64 \<Rightarrow> int \<Rightarrow> ksys \<Rightarrow> (int \<times> ksys) res" where
  "dev_write dev me addr n s =
     rbind (consolewrite dev (kmem s) (p_pagetable (cur me s)) True addr n 0 (kuart s)) (\<lambda>(asleep, i, u, woke).
       if asleep then Blocked ''uart''
       else Ok (int i, s\<lparr>kuart := u, ktab := (if woke then wakeup (Some me) UartChan (ktab s) else ktab s)\<rparr>))"

definition fileread :: "nat \<Rightarrow> nat \<Rightarrow> u64 \<Rightarrow> int \<Rightarrow> ksys \<Rightarrow> (int \<times> ksys) res" where
  "fileread me i addr n s =
     (let f = ftab s ! i in
      if \<not> f_readable f then Ok (-1, s)
      else case f_type f of
        FD_PIPE \<Rightarrow> file_piperead me (f_pipe f) addr n s
      | FD_DEVICE \<Rightarrow>
          if sint (f_major f) < 0 \<or> sint (f_major f) \<ge> NDEV \<or> sint (f_major f) \<noteq> CONSOLE then Ok (-1, s)
          else dev_read me addr n s
      | FD_INODE \<Rightarrow>
          rbind (fs_do (ilock (mypid me s) (f_ip f)) s) (\<lambda>s.
          rbind (readi (user_put (p_pagetable (cur me s))) (f_ip f) addr (f_off (ftab s ! i)) (of_int n) (kmem s) (kfs s)) (\<lambda>(r, m, x).
            let s = s\<lparr>kmem := m, kfs := x\<rparr>;
                s = (if r > 0 then upd_file i (\<lambda>f. f\<lparr>f_off := f_off f + of_int r\<rparr>) s else s) in
            rbind (fs_do (iunlock (mypid me s) (f_ip f)) s) (\<lambda>s. Ok (r, s))))
      | FD_NONE \<Rightarrow> Panic ''fileread'')"

definition max_write :: int where
  "max_write = int (((MAXOPBLOCKS - 1 - 1 - 2) div 2) * BSIZE)"

text \<open>One transaction of \<^verbatim>\<open>filewrite\<close>.\<close>

definition filewrite_chunk :: "nat \<Rightarrow> nat \<Rightarrow> u64 \<Rightarrow> int \<Rightarrow> ksys \<Rightarrow> (int \<times> ksys) res" where
  "filewrite_chunk me i addr n1 s =
     (let ip = f_ip (ftab s ! i) in
      rbind (kbegin_op s) (\<lambda>s.
      rbind (fs_do (ilock (mypid me s) ip) s) (\<lambda>s.
      rbind (fs_get (writei (user_get (p_pagetable (cur me s)) (kmem s)) ip addr (f_off (ftab s ! i)) (of_int n1)) s) (\<lambda>(r, s).
      let s = (if r > 0 then upd_file i (\<lambda>f. f\<lparr>f_off := f_off f + of_int r\<rparr>) s else s) in
      rbind (fs_do (iunlock (mypid me s) ip) s) (\<lambda>s.
      rbind (kend_op me s) (\<lambda>s. Ok (r, s)))))))"

function filewrite_loop :: "nat \<Rightarrow> nat \<Rightarrow> u64 \<Rightarrow> int \<Rightarrow> int \<Rightarrow> ksys \<Rightarrow> (int \<times> ksys) res" where
  "filewrite_loop me i addr k n s =
     (if k < n
      then let n1 = min (n - k) max_write in
        rbind (filewrite_chunk me i (addr + of_int k) n1 s) (\<lambda>(r, s).
          if r \<noteq> n1 then Ok (k, s) else filewrite_loop me i addr (k + r) n s)
      else Ok (k, s))"
  by pat_completeness auto

termination filewrite_loop
  by (relation "measure (\<lambda>(me, i, addr, k, n, s). nat (n - k))") (auto simp: max_write_def MAXOPBLOCKS_def BSIZE_def)

declare filewrite_loop.simps [simp del]

definition filewrite :: "device \<Rightarrow> nat \<Rightarrow> nat \<Rightarrow> u64 \<Rightarrow> int \<Rightarrow> ksys \<Rightarrow> (int \<times> ksys) res" where
  "filewrite dev me i addr n s =
     (let f = ftab s ! i in
      if \<not> f_writable f then Ok (-1, s)
      else case f_type f of
        FD_PIPE \<Rightarrow> file_pipewrite me (f_pipe f) addr n s
      | FD_DEVICE \<Rightarrow>
          if sint (f_major f) < 0 \<or> sint (f_major f) \<ge> NDEV \<or> sint (f_major f) \<noteq> CONSOLE then Ok (-1, s)
          else dev_write dev me addr n s
      | FD_INODE \<Rightarrow> rbind (filewrite_loop me i addr 0 n s) (\<lambda>(k, s). Ok (if k = n then n else -1, s))
      | FD_NONE \<Rightarrow> Panic ''filewrite'')"

text \<open>\<^verbatim>\<open>pipealloc\<close>; the page from \<^verbatim>\<open>kalloc\<close> is filled with \<^verbatim>\<open>5\<close>s.\<close>

definition close_opt :: "nat \<Rightarrow> nat option \<Rightarrow> ksys \<Rightarrow> ksys res" where
  "close_opt me f s = (case f of None \<Rightarrow> Ok s | Some i \<Rightarrow> fileclose me i s)"

definition pipealloc :: "nat \<Rightarrow> ksys \<Rightarrow> ((nat \<times> nat) option \<times> ksys) res" where
  "pipealloc me s =
     (let (f0, s) = filealloc s; (f1, s) = (if f0 = None then (None, s) else filealloc s) in
      rbind (if f1 = None then Ok (0, s) else rbind (kalloc (kmem s)) (\<lambda>(pi, m). Ok (pi, s\<lparr>kmem := m\<rparr>))) (\<lambda>(pi, s).
      case (f0, f1) of
        (Some i0, Some i1) \<Rightarrow>
          if pi = 0 then rbind (close_opt me f0 s) (\<lambda>s. rbind (close_opt me f1 s) (\<lambda>s. Ok (None, s)))
          else let s = s\<lparr>kpipes := (kpipes s)(pi \<mapsto> pipe_new (replicate PIPESIZE 5))\<rparr>;
                   s = upd_file i0 (\<lambda>f. f\<lparr>f_type := FD_PIPE, f_readable := True, f_writable := False, f_pipe := pi\<rparr>) s;
                   s = upd_file i1 (\<lambda>f. f\<lparr>f_type := FD_PIPE, f_readable := False, f_writable := True, f_pipe := pi\<rparr>) s in
            Ok (Some (i0, i1), s)
      | _ \<Rightarrow> rbind (close_opt me f0 s) (\<lambda>s. rbind (close_opt me f1 s) (\<lambda>s. Ok (None, s)))))"

end
