(* ===== verification/Args.thy ===== *)
theory Args
  imports File
begin

text \<open>
  System call arguments (\<^verbatim>\<open>kernel/syscall.c\<close>): the registers saved in the trapframe of the calling process, and the
  words and strings fetched from its memory. The trapframe is a page of physical memory, and its fields are
  8-byte words of it in the order of \<^verbatim>\<open>struct trapframe\<close> in \<^verbatim>\<open>kernel/proc.h\<close>.
\<close>

section \<open>Definitions\<close>

datatype tf_field =
  TF_kernel_satp | TF_kernel_sp | TF_kernel_trap | TF_epc | TF_kernel_hartid | TF_ra | TF_sp | TF_a nat

definition tf_offset :: "tf_field \<Rightarrow> u64" where
  "tf_offset f = (case f of
     TF_kernel_satp \<Rightarrow> 0 | TF_kernel_sp \<Rightarrow> 8 | TF_kernel_trap \<Rightarrow> 16 | TF_epc \<Rightarrow> 24 | TF_kernel_hartid \<Rightarrow> 32
   | TF_ra \<Rightarrow> 40 | TF_sp \<Rightarrow> 48 | TF_a n \<Rightarrow> 112 + 8 * of_nat n)"

definition tf_get :: "nat \<Rightarrow> tf_field \<Rightarrow> ksys \<Rightarrow> u64" where
  "tf_get i f s = load64 (ram (kmem s)) (p_trapframe (procs (ktab s) ! i) + tf_offset f)"

definition upd_ram :: "(mem \<Rightarrow> mem) \<Rightarrow> ksys \<Rightarrow> ksys" where
  "upd_ram f s = s\<lparr>kmem := (kmem s)\<lparr>ram := f (ram (kmem s))\<rparr>\<rparr>"

definition tf_set :: "nat \<Rightarrow> tf_field \<Rightarrow> u64 \<Rightarrow> ksys \<Rightarrow> ksys" where
  "tf_set i f v s = upd_ram (\<lambda>m. store64 m (p_trapframe (procs (ktab s) ! i) + tf_offset f) v) s"

definition argraw :: "nat \<Rightarrow> nat \<Rightarrow> ksys \<Rightarrow> u64 res" where
  "argraw me n s = (if n < 6 then Ok (tf_get me (TF_a n) s) else Panic ''argraw'')"

definition argint :: "nat \<Rightarrow> nat \<Rightarrow> ksys \<Rightarrow> int res" where
  "argint me n s = rbind (argraw me n s) (\<lambda>v. Ok (sint (ucast v :: u32)))"

definition argaddr :: "nat \<Rightarrow> nat \<Rightarrow> ksys \<Rightarrow> u64 res" where
  "argaddr me n s = argraw me n s"

definition fetchaddr :: "nat \<Rightarrow> u64 \<Rightarrow> ksys \<Rightarrow> (int \<times> u64) res" where
  "fetchaddr me addr s =
     (let p = cur me s in
      if addr \<ge> p_sz p \<or> addr + 8 > p_sz p then Ok (-1, 0)
      else rbind (copyin (kmem s) (p_pagetable p) (\<lambda>_. 0) 0 addr 8) (\<lambda>(r, b).
        if r \<noteq> 0 then Ok (-1, 0) else Ok (0, le_word 8 b)))"

text \<open>
  The length and the buffer. A successful \<^verbatim>\<open>copyinstr\<close> sets every byte of the buffer up to the terminating zero,
  so that what the buffer held before does not matter.
\<close>

definition fetchstr :: "nat \<Rightarrow> u64 \<Rightarrow> int \<Rightarrow> ksys \<Rightarrow> (int \<times> bytes) res" where
  "fetchstr me addr maxlen s =
     rbind (copyinstr (kmem s) (p_pagetable (cur me s)) (\<lambda>_. 0) 0 addr (of_int maxlen)) (\<lambda>(r, buf).
       if r < 0 then Ok (-1, buf)
       else case strlen buf of None \<Rightarrow> Fault ''unterminated string'' | Some n \<Rightarrow> Ok (int n, buf))"

definition argstr :: "nat \<Rightarrow> nat \<Rightarrow> int \<Rightarrow> ksys \<Rightarrow> (int \<times> bytes) res" where
  "argstr me n maxlen s = rbind (argaddr me n s) (\<lambda>addr. fetchstr me addr maxlen s)"

end
