(* ===== verification/Sysfile.thy ===== *)
theory Sysfile
  imports Args
begin

text \<open>
  The system calls on files (\<^verbatim>\<open>kernel/sysfile.c\<close>, without \<^verbatim>\<open>sys_exec\<close>). Each returns the value of the C function as an
  integer together with the state after it. \<open>me\<close> is the calling process.
\<close>

unbundle bit_operations_syntax

section \<open>Definitions\<close>

definition MAXPATH :: int where "MAXPATH = 128"

definition O_RDONLY :: int where "O_RDONLY = 0"

definition O_WRONLY :: int where "O_WRONLY = 1"

definition O_RDWR :: int where "O_RDWR = 2"

definition O_CREATE :: int where "O_CREATE = 0x200"

definition O_TRUNC :: int where "O_TRUNC = 0x400"

definition upd_cur :: "nat \<Rightarrow> (proc \<Rightarrow> proc) \<Rightarrow> ksys \<Rightarrow> ksys" where
  "upd_cur me f s = s\<lparr>ktab := set_proc me f (ktab s)\<rparr>"

definition set_ofile :: "nat \<Rightarrow> nat \<Rightarrow> nat option \<Rightarrow> ksys \<Rightarrow> ksys" where
  "set_ofile me fd f s = upd_cur me (\<lambda>p. p\<lparr>p_ofile := (p_ofile p)[fd := f]\<rparr>) s"

text \<open>The bytes of a string constant.\<close>

definition lit :: "string \<Rightarrow> bytes" where
  "lit t = (\<lambda>i. if i < length t then of_char (t ! i) else 0)"

definition path_of :: "int \<Rightarrow> bytes \<Rightarrow> u8 list" where
  "path_of n buf = map buf [0..<nat n]"

definition knamei :: "nat \<Rightarrow> u8 list \<Rightarrow> ksys \<Rightarrow> (nat option \<times> ksys) res" where
  "knamei me path s =
     (case p_cwd (cur me s) of
        None \<Rightarrow> if path = [] \<or> hd path \<noteq> slash then Fault ''no current directory'' else fs_get (namei (mypid me s) 0 path) s
      | Some cwd \<Rightarrow> fs_get (namei (mypid me s) cwd path) s)"

definition knameiparent :: "nat \<Rightarrow> u8 list \<Rightarrow> ksys \<Rightarrow> (nat option \<times> bytes \<times> ksys) res" where
  "knameiparent me path s =
     (case p_cwd (cur me s) of
        None \<Rightarrow> if path = [] \<or> hd path \<noteq> slash then Fault ''no current directory''
          else rbind (nameiparent (mypid me s) 0 path (\<lambda>_. 0) (kfs s)) (\<lambda>(r, name, x). Ok (r, name, s\<lparr>kfs := x\<rparr>))
      | Some cwd \<Rightarrow> rbind (nameiparent (mypid me s) cwd path (\<lambda>_. 0) (kfs s)) (\<lambda>(r, name, x). Ok (r, name, s\<lparr>kfs := x\<rparr>)))"

abbreviation knode :: "nat \<Rightarrow> ksys \<Rightarrow> inode" where
  "knode ip s \<equiv> itable (kfs s) ! ip"

definition upd_knode :: "nat \<Rightarrow> (inode \<Rightarrow> inode) \<Rightarrow> ksys \<Rightarrow> ksys" where
  "upd_knode ip f s = s\<lparr>kfs := upd_inode ip f (kfs s)\<rparr>"

abbreviation kilock :: "nat \<Rightarrow> nat \<Rightarrow> ksys \<Rightarrow> ksys res" where
  "kilock me ip s \<equiv> fs_do (ilock (mypid me s) ip) s"

abbreviation kiunlock :: "nat \<Rightarrow> nat \<Rightarrow> ksys \<Rightarrow> ksys res" where
  "kiunlock me ip s \<equiv> fs_do (iunlock (mypid me s) ip) s"

abbreviation kiput :: "nat \<Rightarrow> nat \<Rightarrow> ksys \<Rightarrow> ksys res" where
  "kiput me ip s \<equiv> fs_do (iput (mypid me s) ip) s"

abbreviation kiunlockput :: "nat \<Rightarrow> nat \<Rightarrow> ksys \<Rightarrow> ksys res" where
  "kiunlockput me ip s \<equiv> fs_do (iunlockput (mypid me s) ip) s"

abbreviation kiupdate :: "nat \<Rightarrow> ksys \<Rightarrow> ksys res" where
  "kiupdate ip s \<equiv> fs_do (iupdate ip) s"

text \<open>Returning a value through \<^verbatim>\<open>end_op\<close>.\<close>

definition op_return :: "nat \<Rightarrow> int \<Rightarrow> ksys \<Rightarrow> (int \<times> ksys) res" where
  "op_return me r s = rbind (kend_op me s) (\<lambda>s. Ok (r, s))"

subsection \<open>Descriptors\<close>

definition argfd :: "nat \<Rightarrow> nat \<Rightarrow> ksys \<Rightarrow> (nat \<times> nat) option res" where
  "argfd me n s = rbind (argint me n s) (\<lambda>fd.
     Ok (if fd < 0 \<or> fd \<ge> int NOFILE then None
         else case p_ofile (cur me s) ! nat fd of None \<Rightarrow> None | Some f \<Rightarrow> Some (nat fd, f)))"

definition fdalloc :: "nat \<Rightarrow> nat \<Rightarrow> ksys \<Rightarrow> int \<times> ksys" where
  "fdalloc me f s = (case find_index (\<lambda>x. x = None) (p_ofile (cur me s)) of
     Some fd \<Rightarrow> (int fd, set_ofile me fd (Some f) s)
   | None \<Rightarrow> (-1, s))"

definition sys_dup :: "nat \<Rightarrow> ksys \<Rightarrow> (int \<times> ksys) res" where
  "sys_dup me s = rbind (argfd me 0 s) (\<lambda>a. case a of
     None \<Rightarrow> Ok (-1, s)
   | Some (_, f) \<Rightarrow> (case fdalloc me f s of (fd, s) \<Rightarrow>
       if fd < 0 then Ok (-1, s) else rbind (filedup f s) (\<lambda>(_, s). Ok (fd, s))))"

definition sys_read :: "nat \<Rightarrow> ksys \<Rightarrow> (int \<times> ksys) res" where
  "sys_read me s =
     rbind (argaddr me 1 s) (\<lambda>p. rbind (argint me 2 s) (\<lambda>n. rbind (argfd me 0 s) (\<lambda>a.
       case a of None \<Rightarrow> Ok (-1, s) | Some (_, f) \<Rightarrow> fileread me f p n s)))"

definition sys_write :: "device \<Rightarrow> nat \<Rightarrow> ksys \<Rightarrow> (int \<times> ksys) res" where
  "sys_write dev me s =
     rbind (argaddr me 1 s) (\<lambda>p. rbind (argint me 2 s) (\<lambda>n. rbind (argfd me 0 s) (\<lambda>a.
       case a of None \<Rightarrow> Ok (-1, s) | Some (_, f) \<Rightarrow> filewrite dev me f p n s)))"

definition sys_close :: "nat \<Rightarrow> ksys \<Rightarrow> (int \<times> ksys) res" where
  "sys_close me s = rbind (argfd me 0 s) (\<lambda>a. case a of
     None \<Rightarrow> Ok (-1, s)
   | Some (fd, f) \<Rightarrow> rbind (fileclose me f (set_ofile me fd None s)) (\<lambda>s. Ok (0, s)))"

definition sys_fstat :: "bytes \<Rightarrow> nat \<Rightarrow> ksys \<Rightarrow> (int \<times> ksys) res" where
  "sys_fstat pad me s =
     rbind (argaddr me 1 s) (\<lambda>st. rbind (argfd me 0 s) (\<lambda>a.
       case a of None \<Rightarrow> Ok (-1, s) | Some (_, f) \<Rightarrow> filestat pad me f st s))"

subsection \<open>Links\<close>

definition link_bad :: "nat \<Rightarrow> nat \<Rightarrow> ksys \<Rightarrow> (int \<times> ksys) res" where
  "link_bad me ip s =
     rbind (kilock me ip s) (\<lambda>s.
     rbind (kiupdate ip (upd_knode ip (\<lambda>x. x\<lparr>i_nlink := i_nlink x - 1\<rparr>) s)) (\<lambda>s.
     rbind (kiunlockput me ip s) (op_return me (-1))))"

definition link_new :: "nat \<Rightarrow> nat \<Rightarrow> u8 list \<Rightarrow> ksys \<Rightarrow> (int \<times> ksys) res" where
  "link_new me ip new s =
     rbind (knameiparent me new s) (\<lambda>(r, name, s). case r of
       None \<Rightarrow> link_bad me ip s
     | Some dp \<Rightarrow>
         rbind (kilock me dp s) (\<lambda>s.
         rbind (if i_dev (knode dp s) \<noteq> i_dev (knode ip s) then Ok (-1, s)
                else fs_get (dirlink (mypid me s) dp name (i_inum (knode ip s))) s) (\<lambda>(r, s).
         rbind (kiunlockput me dp s) (\<lambda>s.
           if r < 0 then link_bad me ip s
           else rbind (kiput me ip s) (op_return me 0)))))"

definition sys_link :: "nat \<Rightarrow> ksys \<Rightarrow> (int \<times> ksys) res" where
  "sys_link me s =
     rbind (argstr me 0 MAXPATH s) (\<lambda>(n0, old).
     if n0 < 0 then Ok (-1, s)
     else rbind (argstr me 1 MAXPATH s) (\<lambda>(n1, new).
       if n1 < 0 then Ok (-1, s)
       else rbind (kbegin_op s) (\<lambda>s.
         rbind (knamei me (path_of n0 old) s) (\<lambda>(r, s). case r of
           None \<Rightarrow> op_return me (-1) s
         | Some ip \<Rightarrow>
             rbind (kilock me ip s) (\<lambda>s.
               if i_type (knode ip s) = T_DIR then rbind (kiunlockput me ip s) (op_return me (-1))
               else rbind (kiupdate ip (upd_knode ip (\<lambda>x. x\<lparr>i_nlink := i_nlink x + 1\<rparr>) s)) (\<lambda>s.
                 rbind (kiunlock me ip s) (link_new me ip (path_of n1 new))))))))"

function isdirempty_loop :: "nat \<Rightarrow> u32 \<Rightarrow> bytes \<Rightarrow> fs \<Rightarrow> (bool \<times> fs) res" where
  "isdirempty_loop dp off de x =
     (if off < i_size (itable x ! dp)
      then rbind (readi buf_put dp 0 off DESIZE de x) (\<lambda>(r, de, x).
        if r \<noteq> 16 then Panic ''isdirempty: readi''
        else if de_inum de \<noteq> 0 then Ok (False, x)
        else isdirempty_loop dp (off + DESIZE) de x)
      else Ok (True, x))"
  by pat_completeness auto

termination isdirempty_loop
proof (relation "measure (\<lambda>(dp, off, de, x). 2 ^ 32 - unat off)")
qed (auto dest: scan_measure)

declare isdirempty_loop.simps [simp del]

definition isdirempty :: "nat \<Rightarrow> fs \<Rightarrow> (bool \<times> fs) res" where
  "isdirempty dp x = isdirempty_loop dp (2 * DESIZE) (\<lambda>_. 0) x"

text \<open>The rest of \<^verbatim>\<open>sys_unlink\<close> once the entry of \<^verbatim>\<open>ip\<close> at \<^verbatim>\<open>off\<close> may go.\<close>

definition unlink_entry :: "nat \<Rightarrow> nat \<Rightarrow> nat \<Rightarrow> u32 \<Rightarrow> ksys \<Rightarrow> (int \<times> ksys) res" where
  "unlink_entry me dp ip off s =
     rbind (fs_get (writei (buf_get (\<lambda>_. 0)) dp 0 off DESIZE) s) (\<lambda>(r, s).
     if r \<noteq> 16 then Panic ''unlink: writei''
     else rbind (if i_type (knode ip s) = T_DIR
                 then kiupdate dp (upd_knode dp (\<lambda>x. x\<lparr>i_nlink := i_nlink x - 1\<rparr>) s) else Ok s) (\<lambda>s.
       rbind (kiunlockput me dp s) (\<lambda>s.
       rbind (kiupdate ip (upd_knode ip (\<lambda>x. x\<lparr>i_nlink := i_nlink x - 1\<rparr>) s)) (\<lambda>s.
       rbind (kiunlockput me ip s) (op_return me 0)))))"

definition unlink_bad :: "nat \<Rightarrow> nat \<Rightarrow> ksys \<Rightarrow> (int \<times> ksys) res" where
  "unlink_bad me dp s = rbind (kiunlockput me dp s) (op_return me (-1))"

definition sys_unlink :: "nat \<Rightarrow> ksys \<Rightarrow> (int \<times> ksys) res" where
  "sys_unlink me s =
     rbind (argstr me 0 MAXPATH s) (\<lambda>(n, path).
     if n < 0 then Ok (-1, s)
     else rbind (kbegin_op s) (\<lambda>s.
       rbind (knameiparent me (path_of n path) s) (\<lambda>(r, name, s). case r of
         None \<Rightarrow> op_return me (-1) s
       | Some dp \<Rightarrow>
           rbind (kilock me dp s) (\<lambda>s.
           if namecmp name (lit ''.'') = 0 \<or> namecmp name (lit ''..'') = 0 then unlink_bad me dp s
           else rbind (fs_get (dirlookup dp name) s) (\<lambda>(r, s). case r of
             None \<Rightarrow> unlink_bad me dp s
           | Some (ip, off) \<Rightarrow>
               rbind (kilock me ip s) (\<lambda>s.
               if sint (i_nlink (knode ip s)) < 1 then Panic ''unlink: nlink < 1''
               else rbind (if i_type (knode ip s) = T_DIR then fs_get (isdirempty ip) s else Ok (True, s)) (\<lambda>(ok, s).
                 if \<not> ok then rbind (kiunlockput me ip s) (unlink_bad me dp)
                 else unlink_entry me dp ip off s)))))))"

subsection \<open>Creating and opening\<close>

text \<open>The part of \<^verbatim>\<open>create\<close> that fills the new inode \<^verbatim>\<open>ip\<close> and links it into \<^verbatim>\<open>dp\<close>.\<close>

definition create_fail :: "nat \<Rightarrow> nat \<Rightarrow> nat \<Rightarrow> ksys \<Rightarrow> (nat option \<times> ksys) res" where
  "create_fail me dp ip s =
     rbind (kiupdate ip (upd_knode ip (\<lambda>x. x\<lparr>i_nlink := 0\<rparr>) s)) (\<lambda>s.
     rbind (kiunlockput me ip s) (\<lambda>s.
     rbind (kiunlockput me dp s) (\<lambda>s. Ok (None, s))))"

definition create_dots :: "nat \<Rightarrow> nat \<Rightarrow> nat \<Rightarrow> ksys \<Rightarrow> (int \<times> ksys) res" where
  "create_dots me dp ip s =
     rbind (fs_get (dirlink (mypid me s) ip (lit ''.'') (i_inum (knode ip s))) s) (\<lambda>(r, s).
       if r < 0 then Ok (r, s)
       else fs_get (dirlink (mypid me s) ip (lit ''..'') (i_inum (knode dp s))) s)"

definition create_new :: "nat \<Rightarrow> nat \<Rightarrow> nat \<Rightarrow> bytes \<Rightarrow> u16 \<Rightarrow> u16 \<Rightarrow> u16 \<Rightarrow> ksys \<Rightarrow> (nat option \<times> ksys) res" where
  "create_new me dp ip name ty mj mn s =
     rbind (kilock me ip s) (\<lambda>s.
     rbind (kiupdate ip (upd_knode ip (\<lambda>x. x\<lparr>i_major := mj, i_minor := mn, i_nlink := 1\<rparr>) s)) (\<lambda>s.
     rbind (if ty = T_DIR then create_dots me dp ip s else Ok (0, s)) (\<lambda>(r, s).
     if r < 0 then create_fail me dp ip s
     else rbind (fs_get (dirlink (mypid me s) dp name (i_inum (knode ip s))) s) (\<lambda>(r, s).
       if r < 0 then create_fail me dp ip s
       else rbind (if ty = T_DIR then kiupdate dp (upd_knode dp (\<lambda>x. x\<lparr>i_nlink := i_nlink x + 1\<rparr>) s) else Ok s) (\<lambda>s.
         rbind (kiunlockput me dp s) (\<lambda>s. Ok (Some ip, s)))))))"

definition create :: "nat \<Rightarrow> u8 list \<Rightarrow> u16 \<Rightarrow> u16 \<Rightarrow> u16 \<Rightarrow> ksys \<Rightarrow> (nat option \<times> ksys) res" where
  "create me path ty mj mn s =
     rbind (knameiparent me path s) (\<lambda>(r, name, s). case r of
       None \<Rightarrow> Ok (None, s)
     | Some dp \<Rightarrow>
         rbind (kilock me dp s) (\<lambda>s.
         rbind (fs_get (dirlookup dp name) s) (\<lambda>(r, s). case r of
           Some (ip, _) \<Rightarrow>
             rbind (kiunlockput me dp s) (\<lambda>s.
             rbind (kilock me ip s) (\<lambda>s.
               if ty = T_FILE \<and> (i_type (knode ip s) = T_FILE \<or> i_type (knode ip s) = T_DEVICE) then Ok (Some ip, s)
               else rbind (kiunlockput me ip s) (\<lambda>s. Ok (None, s))))
         | None \<Rightarrow>
             rbind (fs_get (ialloc (i_dev (knode dp s)) ty) s) (\<lambda>(r, s). case r of
               None \<Rightarrow> rbind (kiunlockput me dp s) (\<lambda>s. Ok (None, s))
             | Some ip \<Rightarrow> create_new me dp ip name ty mj mn s))))"

text \<open>\<^verbatim>\<open>sys_open\<close> from the locked inode on.\<close>

definition open_fail :: "nat \<Rightarrow> nat \<Rightarrow> ksys \<Rightarrow> (int \<times> ksys) res" where
  "open_fail me ip s = rbind (kiunlockput me ip s) (op_return me (-1))"

definition open_finish :: "nat \<Rightarrow> nat \<Rightarrow> int \<Rightarrow> nat \<Rightarrow> int \<Rightarrow> ksys \<Rightarrow> (int \<times> ksys) res" where
  "open_finish me ip omode f fd s =
     (let x = knode ip s;
          s = upd_file f (\<lambda>g. if i_type x = T_DEVICE then g\<lparr>f_type := FD_DEVICE, f_major := i_major x\<rparr>
                else g\<lparr>f_type := FD_INODE, f_off := 0\<rparr>) s;
          s = upd_file f (\<lambda>g. g\<lparr>f_ip := ip, f_readable := (omode AND O_WRONLY = 0),
                f_writable := (omode AND O_WRONLY \<noteq> 0 \<or> omode AND O_RDWR \<noteq> 0)\<rparr>) s in
      rbind (if omode AND O_TRUNC \<noteq> 0 \<and> i_type x = T_FILE then fs_do (itrunc ip) s else Ok s) (\<lambda>s.
      rbind (kiunlock me ip s) (op_return me fd)))"

definition open_inode :: "nat \<Rightarrow> nat \<Rightarrow> int \<Rightarrow> ksys \<Rightarrow> (int \<times> ksys) res" where
  "open_inode me ip omode s =
     (if i_type (knode ip s) = T_DEVICE \<and> (sint (i_major (knode ip s)) < 0 \<or> sint (i_major (knode ip s)) \<ge> NDEV) then open_fail me ip s
      else case filealloc s of
        (None, s) \<Rightarrow> open_fail me ip s
      | (Some f, s) \<Rightarrow>
          (case fdalloc me f s of (fd, s) \<Rightarrow>
             if fd < 0 then rbind (fileclose me f s) (open_fail me ip)
             else open_finish me ip omode f fd s))"

definition sys_open :: "nat \<Rightarrow> ksys \<Rightarrow> (int \<times> ksys) res" where
  "sys_open me s =
     rbind (argint me 1 s) (\<lambda>omode.
     rbind (argstr me 0 MAXPATH s) (\<lambda>(n, path).
     if n < 0 then Ok (-1, s)
     else rbind (kbegin_op s) (\<lambda>s.
       if omode AND O_CREATE \<noteq> 0
       then rbind (create me (path_of n path) T_FILE 0 0 s) (\<lambda>(r, s). case r of
         None \<Rightarrow> op_return me (-1) s
       | Some ip \<Rightarrow> open_inode me ip omode s)
       else rbind (knamei me (path_of n path) s) (\<lambda>(r, s). case r of
         None \<Rightarrow> op_return me (-1) s
       | Some ip \<Rightarrow>
           rbind (kilock me ip s) (\<lambda>s.
             if i_type (knode ip s) = T_DIR \<and> omode \<noteq> O_RDONLY then open_fail me ip s
             else open_inode me ip omode s)))))"

definition made :: "nat \<Rightarrow> (nat option \<times> ksys) res \<Rightarrow> (int \<times> ksys) res" where
  "made me m = rbind m (\<lambda>(r, s). case r of
     None \<Rightarrow> op_return me (-1) s
   | Some ip \<Rightarrow> rbind (kiunlockput me ip s) (op_return me 0))"

definition sys_mkdir :: "nat \<Rightarrow> ksys \<Rightarrow> (int \<times> ksys) res" where
  "sys_mkdir me s =
     rbind (kbegin_op s) (\<lambda>s.
     rbind (argstr me 0 MAXPATH s) (\<lambda>(n, path).
       if n < 0 then op_return me (-1) s else made me (create me (path_of n path) T_DIR 0 0 s)))"

definition sys_mknod :: "nat \<Rightarrow> ksys \<Rightarrow> (int \<times> ksys) res" where
  "sys_mknod me s =
     rbind (kbegin_op s) (\<lambda>s.
     rbind (argint me 1 s) (\<lambda>mj. rbind (argint me 2 s) (\<lambda>mn.
     rbind (argstr me 0 MAXPATH s) (\<lambda>(n, path).
       if n < 0 then op_return me (-1) s else made me (create me (path_of n path) T_DEVICE (of_int mj) (of_int mn) s)))))"

definition sys_chdir :: "nat \<Rightarrow> ksys \<Rightarrow> (int \<times> ksys) res" where
  "sys_chdir me s =
     rbind (kbegin_op s) (\<lambda>s.
     rbind (argstr me 0 MAXPATH s) (\<lambda>(n, path).
     if n < 0 then op_return me (-1) s
     else rbind (knamei me (path_of n path) s) (\<lambda>(r, s). case r of
       None \<Rightarrow> op_return me (-1) s
     | Some ip \<Rightarrow>
         rbind (kilock me ip s) (\<lambda>s.
         if i_type (knode ip s) \<noteq> T_DIR then rbind (kiunlockput me ip s) (op_return me (-1))
         else rbind (kiunlock me ip s) (\<lambda>s.
           case p_cwd (cur me s) of
             None \<Rightarrow> Fault ''no current directory''
           | Some c \<Rightarrow> rbind (kiput me c s) (\<lambda>s. rbind (kend_op me s) (\<lambda>s.
               Ok (0, upd_cur me (\<lambda>p. p\<lparr>p_cwd := Some ip\<rparr>) s))))))))"

subsection \<open>Pipes\<close>

definition close_both :: "nat \<Rightarrow> nat \<Rightarrow> nat \<Rightarrow> ksys \<Rightarrow> (int \<times> ksys) res" where
  "close_both me rfl wfl s = rbind (fileclose me rfl s) (\<lambda>s. rbind (fileclose me wfl s) (\<lambda>s. Ok (-1, s)))"

definition int_bytes :: "int \<Rightarrow> bytes" where
  "int_bytes v = le_byte (of_int v :: u32)"

text \<open>\<^verbatim>\<open>sys_pipe\<close> in three parts: the descriptors stored in user memory, their allocation, and the whole.\<close>

definition pipe_store :: "nat \<Rightarrow> u64 \<Rightarrow> nat \<Rightarrow> nat \<Rightarrow> int \<Rightarrow> int \<Rightarrow> ksys \<Rightarrow> (int \<times> ksys) res" where
  "pipe_store me fdarray rfl wfl fd0 fd1 s =
     rbind (copyout (kmem s) (p_pagetable (cur me s)) fdarray (int_bytes fd0) 4) (\<lambda>(r, m).
       let s = s\<lparr>kmem := m\<rparr> in
       rbind (if r < 0 then Ok (r, s)
              else rbind (copyout (kmem s) (p_pagetable (cur me s)) (fdarray + 4) (int_bytes fd1) 4) (\<lambda>(r, m). Ok (r, s\<lparr>kmem := m\<rparr>))) (\<lambda>(r, s).
         if r < 0 then close_both me rfl wfl (set_ofile me (nat fd1) None (set_ofile me (nat fd0) None s))
         else Ok (0, s)))"

definition pipe_fds :: "nat \<Rightarrow> u64 \<Rightarrow> nat \<Rightarrow> nat \<Rightarrow> ksys \<Rightarrow> (int \<times> ksys) res" where
  "pipe_fds me fdarray rfl wfl s =
     (case fdalloc me rfl s of (fd0, s) \<Rightarrow>
        if fd0 < 0 then close_both me rfl wfl s
        else case fdalloc me wfl s of (fd1, s) \<Rightarrow>
          if fd1 < 0 then close_both me rfl wfl (set_ofile me (nat fd0) None s)
          else pipe_store me fdarray rfl wfl fd0 fd1 s)"

definition sys_pipe :: "nat \<Rightarrow> ksys \<Rightarrow> (int \<times> ksys) res" where
  "sys_pipe me s =
     rbind (argaddr me 0 s) (\<lambda>fdarray.
     rbind (pipealloc me s) (\<lambda>(r, s). case r of
       None \<Rightarrow> Ok (-1, s)
     | Some (rfl, wfl) \<Rightarrow> pipe_fds me fdarray rfl wfl s))"

end
