(* ===== verification/Process.thy ===== *)
theory Process
  imports Sysfile Cow
begin

text \<open>
  The life of a process (\<^verbatim>\<open>kernel/proc.c\<close>): allocation with its page table and trapframe, \<^verbatim>\<open>fork\<close>, \<^verbatim>\<open>exit\<close>, \<^verbatim>\<open>wait\<close>, \<^verbatim>\<open>waitx\<close> and
  changes of its size. The addresses that the linker gives to \<^verbatim>\<open>trampoline\<close> and \<^verbatim>\<open>forkret\<close> are arguments.
\<close>

unbundle bit_operations_syntax

section \<open>Definitions\<close>

definition kdo :: "(kstate \<Rightarrow> kstate res) \<Rightarrow> ksys \<Rightarrow> ksys res" where
  "kdo f s = rbind (f (kmem s)) (\<lambda>m. Ok (s\<lparr>kmem := m\<rparr>))"

definition kget :: "(kstate \<Rightarrow> ('a \<times> kstate) res) \<Rightarrow> ksys \<Rightarrow> ('a \<times> ksys) res" where
  "kget f s = rbind (f (kmem s)) (\<lambda>(r, m). Ok (r, s\<lparr>kmem := m\<rparr>))"

definition proc_pagetable :: "u64 \<Rightarrow> u64 \<Rightarrow> kstate \<Rightarrow> (u64 \<times> kstate) res" where
  "proc_pagetable trampoline trapframe k =
     rbind (uvmcreate k) (\<lambda>(pagetable, k).
     if pagetable = 0 then Ok (0, k)
     else rbind (mappages k pagetable TRAMPOLINE PGSIZE trampoline (PTE_R OR PTE_X)) (\<lambda>(r, k).
       if r < 0 then rbind (uvmfree k pagetable 0) (\<lambda>k. Ok (0, k))
       else rbind (mappages k pagetable TRAPFRAME PGSIZE trapframe (PTE_R OR PTE_W)) (\<lambda>(r, k).
         if r < 0
         then rbind (uvmunmap k pagetable TRAMPOLINE 1 False) (\<lambda>k. rbind (uvmfree k pagetable 0) (\<lambda>k. Ok (0, k)))
         else Ok (pagetable, k))))"

definition proc_freepagetable :: "u64 \<Rightarrow> u64 \<Rightarrow> kstate \<Rightarrow> kstate res" where
  "proc_freepagetable pagetable sz k =
     rbind (uvmunmap k pagetable TRAMPOLINE 1 False) (\<lambda>k.
     rbind (uvmunmap k pagetable TRAPFRAME 1 False) (\<lambda>k. uvmfree k pagetable sz))"

definition freed_proc :: "proc \<Rightarrow> proc" where
  "freed_proc p = p\<lparr>p_trapframe := 0, p_pagetable := 0, p_sz := 0, p_pid := 0, p_parent := None, p_name := (p_name p)[0 := 0],
     p_chan := NoChan, p_killed := 0, p_xstate := 0, p_state := UNUSED, p_smask := 0, p_interval := 0, p_nticks := 0,
     p_handler := 0, p_ctime := 0, p_rticks := 0, p_wticks := 0, p_pr := 0\<rparr>"

definition freeproc :: "nat \<Rightarrow> ksys \<Rightarrow> ksys res" where
  "freeproc i s =
     (let p = procs (ktab s) ! i in
      rbind (if p_trapframe p \<noteq> 0 then kdo (\<lambda>k. kfree k (p_trapframe p)) s else Ok s) (\<lambda>s.
      rbind (if p_pagetable p \<noteq> 0 then kdo (proc_freepagetable (p_pagetable p) (p_sz p)) s else Ok s) (\<lambda>s.
        Ok (upd_cur i freed_proc s))))"

definition new_proc :: "int \<Rightarrow> u32 \<Rightarrow> proc \<Rightarrow> proc" where
  "new_proc pid now p = p\<lparr>p_pid := pid, p_state := USED, p_smask := 0, p_nticks := 0, p_alarmOn := 0, p_ctime := now, p_etime := 0,
     p_tickets := 1, p_pbs_rtime := 0, p_rtime := 0, p_stime := 0, p_staticP := 60, p_niceness := 5, p_wtime := 0, p_sch_no := 0,
     p_rticks := 0, p_wticks := 0, p_pr := 0\<rparr>"

definition allocproc :: "u64 \<Rightarrow> u64 \<Rightarrow> ksys \<Rightarrow> (nat option \<times> ksys) res" where
  "allocproc trampoline forkret s =
     (case find_index (\<lambda>p. p_state p = UNUSED) (procs (ktab s)) of
        None \<Rightarrow> Ok (None, s)
      | Some i \<Rightarrow>
          (case allocpid (ktab s) of (pid, t) \<Rightarrow>
            let s = upd_cur i (new_proc pid (ticks t)) (s\<lparr>ktab := t\<rparr>) in
            rbind (kget kalloc s) (\<lambda>(tf, s).
            let s = upd_cur i (\<lambda>p. p\<lparr>p_trapframe := tf\<rparr>) s in
            if tf = 0 then rbind (freeproc i s) (\<lambda>s. Ok (None, s))
            else rbind (kget (proc_pagetable trampoline tf) s) (\<lambda>(pt, s).
              let s = upd_cur i (\<lambda>p. p\<lparr>p_pagetable := pt\<rparr>) s in
              if pt = 0 then rbind (freeproc i s) (\<lambda>s. Ok (None, s))
              else Ok (Some i, upd_cur i (\<lambda>p. p\<lparr>p_ctx_ra := forkret, p_ctx_sp := p_kstack p + PGSIZE\<rparr>) s)))))"

definition initcode :: "u8 list" where
  "initcode = [
     0x17, 0x05, 0x00, 0x00, 0x13, 0x05, 0x45, 0x02, 0x97, 0x05, 0x00, 0x00, 0x93, 0x85, 0x35, 0x02,
     0x93, 0x08, 0x70, 0x00, 0x73, 0x00, 0x00, 0x00, 0x93, 0x08, 0x20, 0x00, 0x73, 0x00, 0x00, 0x00,
     0xef, 0xf0, 0x9f, 0xff, 0x2f, 0x69, 0x6e, 0x69, 0x74, 0x00, 0x00, 0x24, 0x00, 0x00, 0x00, 0x00,
     0x00, 0x00, 0x00, 0x00]"

definition list_bytes :: "u8 list \<Rightarrow> bytes" where
  "list_bytes xs = (\<lambda>i. if i < length xs then xs ! i else 0)"

definition set_name :: "bytes \<Rightarrow> proc \<Rightarrow> proc" where
  "set_name t p = p\<lparr>p_name := map (safestrcpy (list_bytes (p_name p)) t 16) [0..<16]\<rparr>"

definition userinit :: "u64 \<Rightarrow> u64 \<Rightarrow> ksys \<Rightarrow> ksys res" where
  "userinit trampoline forkret s =
     rbind (allocproc trampoline forkret s) (\<lambda>(r, s). case r of
       None \<Rightarrow> Fault ''null process''
     | Some i \<Rightarrow>
         let s = s\<lparr>ktab := (ktab s)\<lparr>initproc := Some i\<rparr>\<rparr> in
         rbind (kdo (\<lambda>k. uvmfirst k (p_pagetable (cur i s)) (list_bytes initcode) (of_nat (length initcode))) s) (\<lambda>s.
         let s = upd_cur i (\<lambda>p. p\<lparr>p_sz := PGSIZE\<rparr>) s;
             s = tf_set i TF_sp PGSIZE (tf_set i TF_epc 0 s);
             s = upd_cur i (set_name (lit ''initcode'')) s in
         rbind (fs_get (namei 0 0 [slash]) s) (\<lambda>(ip, s).
           Ok (upd_cur i (\<lambda>p. p\<lparr>p_cwd := ip, p_state := RUNNABLE\<rparr>) s))))"

definition growproc :: "nat \<Rightarrow> int \<Rightarrow> ksys \<Rightarrow> (int \<times> ksys) res" where
  "growproc me n s =
     (let p = cur me s; sz = p_sz p in
      if n > 0
      then rbind (kget (\<lambda>k. uvmalloc k (p_pagetable p) sz (sz + of_int n) PTE_W) s) (\<lambda>(sz, s).
        if sz = 0 then Ok (-1, s) else Ok (0, upd_cur me (\<lambda>p. p\<lparr>p_sz := sz\<rparr>) s))
      else if n < 0
      then rbind (kget (\<lambda>k. uvmdealloc k (p_pagetable p) sz (sz + of_int n)) s) (\<lambda>(sz, s).
        Ok (0, upd_cur me (\<lambda>p. p\<lparr>p_sz := sz\<rparr>) s))
      else Ok (0, s))"

primrec fork_files :: "nat list \<Rightarrow> nat \<Rightarrow> nat \<Rightarrow> ksys \<Rightarrow> ksys res" where
  "fork_files [] me np s = Ok s"
| "fork_files (i # is) me np s =
     (case p_ofile (cur me s) ! i of
        None \<Rightarrow> fork_files is me np s
      | Some f \<Rightarrow> rbind (filedup f s) (\<lambda>(f, s). fork_files is me np (set_ofile np i (Some f) s)))"

text \<open>\<^verbatim>\<open>fork\<close> once the child has its memory.\<close>

definition fork_child :: "nat \<Rightarrow> nat \<Rightarrow> ksys \<Rightarrow> (int \<times> ksys) res" where
  "fork_child me np s =
     (let p = cur me s;
          s = upd_cur np (\<lambda>q. q\<lparr>p_sz := p_sz p, p_staticP := p_staticP p\<rparr>) s;
          s = upd_ram (\<lambda>m. memmove m (p_trapframe (cur np s)) (p_trapframe p) 288) s;
          s = tf_set np (TF_a 0) 0 s in
      rbind (fork_files [0..<NOFILE] me np s) (\<lambda>s.
      case p_cwd (cur me s) of
        None \<Rightarrow> Fault ''no current directory''
      | Some c \<Rightarrow>
          (case idup c (kfs s) of (c, x) \<Rightarrow>
            let s = upd_cur np (\<lambda>q. set_name (list_bytes (p_name (cur me s))) (q\<lparr>p_cwd := Some c\<rparr>)) (s\<lparr>kfs := x\<rparr>);
                s = upd_cur np (\<lambda>q. q\<lparr>p_parent := Some me, p_state := RUNNABLE, p_smask := p_smask (cur me s), p_tickets := p_tickets (cur me s)\<rparr>) s in
            Ok (p_pid (cur np s), s))))"

definition fork :: "u64 \<Rightarrow> u64 \<Rightarrow> nat \<Rightarrow> ksys \<Rightarrow> (int \<times> ksys) res" where
  "fork trampoline forkret me s =
     rbind (allocproc trampoline forkret s) (\<lambda>(r, s). case r of
       None \<Rightarrow> Ok (-1, s)
     | Some np \<Rightarrow>
         rbind (kget (\<lambda>k. uvmcopy k (p_pagetable (cur me s)) (p_pagetable (cur np s)) (p_sz (cur me s))) s) (\<lambda>(r, s).
         if r < 0 then rbind (freeproc np s) (\<lambda>s. Ok (-1, s)) else fork_child me np s))"

primrec close_files :: "nat list \<Rightarrow> nat \<Rightarrow> ksys \<Rightarrow> ksys res" where
  "close_files [] me s = Ok s"
| "close_files (fd # fds) me s =
     (case p_ofile (cur me s) ! fd of
        None \<Rightarrow> close_files fds me s
      | Some f \<Rightarrow> rbind (fileclose me f s) (\<lambda>s. close_files fds me (set_ofile me fd None s)))"

definition proc_chan :: "nat option \<Rightarrow> channel" where
  "proc_chan p = (case p of None \<Rightarrow> NoChan | Some i \<Rightarrow> ProcChan i)"

text \<open>\<^verbatim>\<open>exit\<close> up to the switch to the scheduler, from which it does not come back.\<close>

definition exit :: "nat \<Rightarrow> int \<Rightarrow> ksys \<Rightarrow> ksys res" where
  "exit me status s =
     (if initproc (ktab s) = Some me then Panic ''init exiting''
      else rbind (close_files [0..<NOFILE] me s) (\<lambda>s.
        rbind (kbegin_op s) (\<lambda>s.
        case p_cwd (cur me s) of
          None \<Rightarrow> Fault ''no current directory''
        | Some c \<Rightarrow>
            rbind (kiput me c s) (\<lambda>s.
            rbind (kend_op me s) (\<lambda>s.
            let s = upd_cur me (\<lambda>p. p\<lparr>p_cwd := None\<rparr>) s;
                t = wakeup (Some me) (proc_chan (p_parent (cur me s))) (reparent me (ktab s)) in
            Ok (upd_cur me (\<lambda>p. p\<lparr>p_xstate := status, p_state := ZOMBIE, p_etime := ticks t\<rparr>) (s\<lparr>ktab := t\<rparr>)))))))"

text \<open>
  One pass of the loop that \<^verbatim>\<open>wait\<close> and \<^verbatim>\<open>waitx\<close> make through the table. The result is the value to return, with the
  waiting and running times that \<^verbatim>\<open>waitx\<close> stores; \<open>None\<close> if there is no exited child, with whether there are children.
\<close>

primrec wait_scan :: "nat list \<Rightarrow> nat \<Rightarrow> u64 \<Rightarrow> bool \<Rightarrow> ksys \<Rightarrow> ((int \<times> (u32 \<times> u32) option) option \<times> bool \<times> ksys) res" where
  "wait_scan [] me addr havekids s = Ok (None, havekids, s)"
| "wait_scan (i # is) me addr havekids s =
     (let q = procs (ktab s) ! i in
      if p_parent q = Some me
      then if p_state q = ZOMBIE
        then rbind (if addr \<noteq> 0 then kget (\<lambda>k. copyout k (p_pagetable (cur me s)) addr (int_bytes (p_xstate q)) 4) s else Ok (0, s)) (\<lambda>(r, s).
          let tms = (p_etime q - p_ctime q - p_rtime q, p_rtime q) in
          if r < 0 then Ok (Some (-1, Some tms), True, s)
          else rbind (freeproc i s) (\<lambda>s. Ok (Some (p_pid q, Some tms), True, s)))
        else wait_scan is me addr True s
      else wait_scan is me addr havekids s)"

definition wait_result :: "nat \<Rightarrow> u64 \<Rightarrow> ksys \<Rightarrow> (int \<times> (u32 \<times> u32) option \<times> ksys) res" where
  "wait_result me addr s =
     rbind (wait_scan [0..<length (procs (ktab s))] me addr False s) (\<lambda>(r, havekids, s). case r of
       Some (pid, tms) \<Rightarrow> Ok (pid, tms, s)
     | None \<Rightarrow> if \<not> havekids \<or> p_killed (cur me s) \<noteq> 0 then Ok (-1, None, s) else Blocked ''wait'')"

definition wait :: "nat \<Rightarrow> u64 \<Rightarrow> ksys \<Rightarrow> (int \<times> ksys) res" where
  "wait me addr s = rbind (wait_result me addr s) (\<lambda>(r, tms, s). Ok (r, s))"

text \<open>\<^verbatim>\<open>waitx\<close> leaves the two times of its caller as they were when it returns without having found a child.\<close>

definition waitx :: "nat \<Rightarrow> u64 \<Rightarrow> u32 \<times> u32 \<Rightarrow> ksys \<Rightarrow> (int \<times> (u32 \<times> u32) \<times> ksys) res" where
  "waitx me addr wr s = rbind (wait_result me addr s) (\<lambda>(r, tms, s).
     Ok (r, (case tms of None \<Rightarrow> wr | Some t \<Rightarrow> t), s))"

end
