(* ===== verification/Exec.thy ===== *)
theory Exec
  imports Process
begin

text \<open>
  Running a program (\<^verbatim>\<open>kernel/exec.c\<close>, \<^verbatim>\<open>kernel/elf.h\<close> and \<^verbatim>\<open>sys_exec\<close> of \<^verbatim>\<open>kernel/sysfile.c\<close>): the image is built in a new page
  table from the segments of an ELF file, the arguments go on its stack, and only then is the old image given up. An
  element of \<^verbatim>\<open>argv\<close> is the address of the page that holds the string.
\<close>

unbundle bit_operations_syntax

section \<open>Definitions\<close>

definition MAXARG :: nat where "MAXARG = 32"

definition ELF_MAGIC :: u32 where "ELF_MAGIC = 0x464C457F"

definition ELF_PROG_LOAD :: u32 where "ELF_PROG_LOAD = 1"

definition get64 :: "bytes \<Rightarrow> nat \<Rightarrow> u64" where
  "get64 f off = le_word 8 (\<lambda>i. f (off + i))"

text \<open>The fields of the two headers that are used.\<close>

definition elf_magic :: "bytes \<Rightarrow> u32" where "elf_magic h = get32 h 0"
definition elf_entry :: "bytes \<Rightarrow> u64" where "elf_entry h = get64 h 24"
definition elf_phoff :: "bytes \<Rightarrow> u64" where "elf_phoff h = get64 h 32"
definition elf_phnum :: "bytes \<Rightarrow> u16" where "elf_phnum h = get16 h 56"

definition ph_type :: "bytes \<Rightarrow> u32" where "ph_type h = get32 h 0"
definition ph_flags :: "bytes \<Rightarrow> u32" where "ph_flags h = get32 h 4"
definition ph_off :: "bytes \<Rightarrow> u64" where "ph_off h = get64 h 8"
definition ph_vaddr :: "bytes \<Rightarrow> u64" where "ph_vaddr h = get64 h 16"
definition ph_filesz :: "bytes \<Rightarrow> u64" where "ph_filesz h = get64 h 32"
definition ph_memsz :: "bytes \<Rightarrow> u64" where "ph_memsz h = get64 h 40"

definition flags2perm :: "u32 \<Rightarrow> u64" where
  "flags2perm flags =
     (let perm = (if flags AND 1 \<noteq> 0 then PTE_X else 0) in if flags AND 2 \<noteq> 0 then perm OR PTE_W else perm)"

text \<open>\<^verbatim>\<open>readi\<close> to a physical address.\<close>

definition phys_put :: "kstate \<Rightarrow> u64 \<Rightarrow> bytes \<Rightarrow> u32 \<Rightarrow> (int \<times> kstate) res" where
  "phys_put k dst f n = Ok (0, k\<lparr>ram := move_in (ram k) dst f (unat n)\<rparr>)"

text \<open>
  The loop of \<^verbatim>\<open>loadseg\<close>. Its counter wraps around for a segment that ends within a page of 4 GB; the loop would then
  start over, and the model stops with a fault.
\<close>

function loadseg :: "u64 \<Rightarrow> u64 \<Rightarrow> nat \<Rightarrow> u32 \<Rightarrow> u32 \<Rightarrow> nat \<Rightarrow> ksys \<Rightarrow> (int \<times> ksys) res" where
  "loadseg pagetable va ip offset sz i s =
     (if i < unat sz
      then rbind (walkaddr (kmem s) pagetable (va + of_nat i)) (\<lambda>pa.
        if pa = 0 then Panic ''loadseg: address should exist''
        else let n = min (unat sz - i) 4096 in
          rbind (readi phys_put ip pa (offset + of_nat i) (of_nat n) (kmem s) (kfs s)) (\<lambda>(r, m, x).
            let s = s\<lparr>kmem := m, kfs := x\<rparr> in
            if r \<noteq> int n then Ok (-1, s)
            else if i + 4096 \<ge> 2 ^ 32 then Fault ''loadseg: counter wraps''
            else loadseg pagetable va ip offset sz (i + 4096) s))
      else Ok (0, s))"
  by pat_completeness auto

termination loadseg
  by (relation "measure (\<lambda>(pt, va, ip, offset, sz, i, s). unat sz - i)") auto

declare loadseg.simps [simp del]

definition kreadi :: "nat \<Rightarrow> u32 \<Rightarrow> u32 \<Rightarrow> ksys \<Rightarrow> (int \<times> bytes \<times> ksys) res" where
  "kreadi ip off n s = rbind (readi buf_put ip 0 off n (\<lambda>_. 0) (kfs s)) (\<lambda>(r, b, x). Ok (r, b, s\<lparr>kfs := x\<rparr>))"

text \<open>The loop over the program headers with \<open>n\<close> of them to go: whether all went well, and the size so far.\<close>

primrec load_segs :: "nat \<Rightarrow> u32 \<Rightarrow> nat \<Rightarrow> u64 \<Rightarrow> u64 \<Rightarrow> ksys \<Rightarrow> (bool \<times> u64 \<times> ksys) res" where
  "load_segs 0 off ip pagetable sz s = Ok (True, sz, s)"
| "load_segs (Suc n) off ip pagetable sz s =
     rbind (kreadi ip off 56 s) (\<lambda>(r, ph, s).
       if r \<noteq> 56 then Ok (False, sz, s)
       else if ph_type ph \<noteq> ELF_PROG_LOAD then load_segs n (off + 56) ip pagetable sz s
       else if ph_memsz ph < ph_filesz ph then Ok (False, sz, s)
       else if ph_vaddr ph + ph_memsz ph < ph_vaddr ph then Ok (False, sz, s)
       else if ph_vaddr ph mod PGSIZE \<noteq> 0 then Ok (False, sz, s)
       else rbind (kget (\<lambda>k. uvmalloc k pagetable sz (ph_vaddr ph + ph_memsz ph) (flags2perm (ph_flags ph))) s) (\<lambda>(sz1, s).
         if sz1 = 0 then Ok (False, sz, s)
         else rbind (loadseg pagetable (ph_vaddr ph) ip (ucast (ph_off ph)) (ucast (ph_filesz ph)) 0 s) (\<lambda>(r, s).
           if r < 0 then Ok (False, sz1, s) else load_segs n (off + 56) ip pagetable sz1 s)))"

text \<open>\<^verbatim>\<open>bad:\<close> before and after the inode has been given back.\<close>

definition exec_bad :: "nat \<Rightarrow> nat option \<Rightarrow> u64 \<Rightarrow> u64 \<Rightarrow> ksys \<Rightarrow> (int \<times> ksys) res" where
  "exec_bad me ip pagetable sz s =
     rbind (if pagetable \<noteq> 0 then kdo (proc_freepagetable pagetable sz) s else Ok s) (\<lambda>s.
     case ip of
       None \<Rightarrow> Ok (-1, s)
     | Some ip \<Rightarrow> rbind (kiunlockput me ip s) (op_return me (-1)))"

text \<open>Pushing the argument strings; \<open>us\<close> are their addresses on the stack so far.\<close>

primrec push_args :: "u64 list \<Rightarrow> u64 list \<Rightarrow> u64 \<Rightarrow> u64 \<Rightarrow> u64 \<Rightarrow> ksys \<Rightarrow> ((u64 \<times> u64 list) option \<times> ksys) res" where
  "push_args [] us sp stackbase pagetable s = Ok (Some (sp, us), s)"
| "push_args (a # as) us sp stackbase pagetable s =
     (if length us \<ge> MAXARG then Ok (None, s)
      else case strlen (at (ram (kmem s)) a) of
        None \<Rightarrow> Fault ''unterminated string''
      | Some n \<Rightarrow>
          let sp = sp - of_nat (n + 1); sp = sp - sp mod 16 in
          if sp < stackbase then Ok (None, s)
          else rbind (kget (\<lambda>k. copyout k pagetable sp (at (ram k) a) (of_nat (n + 1))) s) (\<lambda>(r, s).
            if r < 0 then Ok (None, s) else push_args as (us @ [sp]) sp stackbase pagetable s))"

definition ustack_bytes :: "u64 list \<Rightarrow> bytes" where
  "ustack_bytes us = (\<lambda>i. le_byte (us ! (i div 8)) (i mod 8))"

text \<open>The last element of the path, for the process's name.\<close>

definition last_elem :: "u8 list \<Rightarrow> u8 list" where
  "last_elem path = rev (takeWhile (\<lambda>c. c \<noteq> slash) (rev path))"

text \<open>\<^verbatim>\<open>exec\<close> from the stack on, with the program loaded up to \<^verbatim>\<open>sz\<close>.\<close>

definition exec_commit :: "nat \<Rightarrow> u8 list \<Rightarrow> u64 \<Rightarrow> u64 \<Rightarrow> u64 \<Rightarrow> u64 \<Rightarrow> nat \<Rightarrow> ksys \<Rightarrow> (int \<times> ksys) res" where
  "exec_commit me path start pagetable sz sp argc s =
     (let s = tf_set me (TF_a 1) sp s;
          s = upd_cur me (set_name (list_bytes (last_elem path))) s;
          old = cur me s;
          s = upd_cur me (\<lambda>p. p\<lparr>p_pagetable := pagetable, p_sz := sz\<rparr>) s;
          s = tf_set me TF_sp sp (tf_set me TF_epc start s) in
      rbind (kdo (proc_freepagetable (p_pagetable old) (p_sz old)) s) (\<lambda>s. Ok (int argc, s)))"

definition exec_stack :: "nat \<Rightarrow> u8 list \<Rightarrow> u64 list \<Rightarrow> u64 \<Rightarrow> u64 \<Rightarrow> u64 \<Rightarrow> ksys \<Rightarrow> (int \<times> ksys) res" where
  "exec_stack me path argv start pagetable sz s =
     (let sz = PGROUNDUP sz in
      rbind (kget (\<lambda>k. uvmalloc k pagetable sz (sz + 2 * PGSIZE) PTE_W) s) (\<lambda>(sz1, s).
      if sz1 = 0 then exec_bad me None pagetable sz s
      else let sz = sz1 in
        rbind (kdo (\<lambda>k. uvmclear k pagetable (sz - 2 * PGSIZE)) s) (\<lambda>s.
        rbind (push_args argv [] sz (sz - PGSIZE) pagetable s) (\<lambda>(r, s). case r of
          None \<Rightarrow> exec_bad me None pagetable sz s
        | Some (sp, us) \<Rightarrow>
            let n = (length us + 1) * 8; sp = sp - of_nat n; sp = sp - sp mod 16 in
            if sp < sz - PGSIZE then exec_bad me None pagetable sz s
            else rbind (kget (\<lambda>k. copyout k pagetable sp (ustack_bytes (us @ [0])) (of_nat n)) s) (\<lambda>(r, s).
              if r < 0 then exec_bad me None pagetable sz s
              else exec_commit me path start pagetable sz sp (length us) s)))))"

definition exec :: "u64 \<Rightarrow> nat \<Rightarrow> u8 list \<Rightarrow> u64 list \<Rightarrow> ksys \<Rightarrow> (int \<times> ksys) res" where
  "exec trampoline me path argv s =
     rbind (kbegin_op s) (\<lambda>s.
     rbind (knamei me path s) (\<lambda>(r, s). case r of
       None \<Rightarrow> op_return me (-1) s
     | Some ip \<Rightarrow>
         rbind (kilock me ip s) (\<lambda>s.
         rbind (kreadi ip 0 64 s) (\<lambda>(r, elf, s).
         if r \<noteq> 64 \<or> elf_magic elf \<noteq> ELF_MAGIC then exec_bad me (Some ip) 0 0 s
         else rbind (kget (proc_pagetable trampoline (p_trapframe (cur me s))) s) (\<lambda>(pagetable, s).
           if pagetable = 0 then exec_bad me (Some ip) 0 0 s
           else rbind (load_segs (unat (elf_phnum elf)) (ucast (elf_phoff elf)) ip pagetable 0 s) (\<lambda>(ok, sz, s).
             if \<not> ok then exec_bad me (Some ip) pagetable sz s
             else rbind (kiunlockput me ip s) (\<lambda>s.
               rbind (kend_op me s) (exec_stack me path argv (elf_entry elf) pagetable sz))))))))"

text \<open>\<^verbatim>\<open>sys_exec\<close>: the strings are fetched into pages, which are freed again in the end. A string that cannot be
  fetched leaves part of it in a page that is then freed, and so overwritten, at once.\<close>

primrec free_argv :: "u64 list \<Rightarrow> ksys \<Rightarrow> ksys res" where
  "free_argv [] s = Ok s"
| "free_argv (a # as) s = rbind (kdo (\<lambda>k. kfree k a) s) (free_argv as)"

primrec fetch_args :: "nat \<Rightarrow> nat \<Rightarrow> u64 \<Rightarrow> u64 list \<Rightarrow> ksys \<Rightarrow> (bool \<times> u64 list \<times> ksys) res" where
  "fetch_args 0 me uargv argv s = Ok (False, argv, s)"
| "fetch_args (Suc n) me uargv argv s =
     rbind (fetchaddr me (uargv + 8 * of_nat (length argv)) s) (\<lambda>(r, uarg).
       if r < 0 then Ok (False, argv, s)
       else if uarg = 0 then Ok (True, argv, s)
       else rbind (kget kalloc s) (\<lambda>(a, s).
         if a = 0 then Ok (False, argv, s)
         else rbind (fetchstr me uarg 4096 s) (\<lambda>(r, buf).
           let s = (if r < 0 then s else upd_ram (\<lambda>m. move_in m a buf (nat r + 1)) s) in
           if r < 0 then Ok (False, argv @ [a], s) else fetch_args n me uargv (argv @ [a]) s)))"

definition sys_exec :: "u64 \<Rightarrow> nat \<Rightarrow> ksys \<Rightarrow> (int \<times> ksys) res" where
  "sys_exec trampoline me s =
     rbind (argaddr me 1 s) (\<lambda>uargv.
     rbind (argstr me 0 MAXPATH s) (\<lambda>(n, path).
     if n < 0 then Ok (-1, s)
     else rbind (fetch_args MAXARG me uargv [] s) (\<lambda>(ok, argv, s).
       rbind (if ok then exec trampoline me (path_of n path) argv s else Ok (-1, s)) (\<lambda>(ret, s).
         rbind (free_argv argv s) (\<lambda>s. Ok (ret, s))))))"

end
