(* ===== verification/Printf.thy ===== *)
theory Printf
  imports Console Proc
begin

text \<open>
  Formatted output to the console (\<^verbatim>\<open>kernel/printf.c\<close>) and the process listing of \<^verbatim>\<open>kernel/proc.c\<close>. The bytes that go to
  \<^verbatim>\<open>consputc\<close> are computed first and then sent; a missing argument, which C leaves undefined, is a fault.
\<close>

section \<open>Definitions\<close>

definition str :: "string \<Rightarrow> u8 list" where
  "str t = map of_char t"

definition digit :: "nat \<Rightarrow> u8" where
  "digit n = str ''0123456789abcdef'' ! n"

text \<open>The digits of a number, least significant first, as the loop of \<^verbatim>\<open>printint\<close> puts them into \<^verbatim>\<open>buf\<close>.\<close>

function rev_digits :: "nat \<Rightarrow> nat \<Rightarrow> u8 list" where
  "rev_digits base x = digit (x mod base) # (if 2 \<le> base \<and> x div base \<noteq> 0 then rev_digits base (x div base) else [])"
  by pat_completeness auto

termination rev_digits
proof (relation "measure snd")
  fix base x :: nat
  assume "2 \<le> base \<and> x div base \<noteq> 0"
  then have "0 < x" "1 < base" by (auto simp: div_eq_0_iff)
  then show "((base, x div base), (base, x)) \<in> measure snd" by (simp add: div_less_dividend)
qed simp

declare rev_digits.simps [simp del]

definition printint :: "int \<Rightarrow> nat \<Rightarrow> bool \<Rightarrow> u8 list" where
  "printint xx base sign =
     (let neg = (sign \<and> xx < 0); x = (of_int (if neg then - xx else xx) :: u32);
          buf = rev_digits base (unat x) @ (if neg then [45] else [])
      in rev buf)"

definition printptr :: "u64 \<Rightarrow> u8 list" where
  "printptr x = [48, 120] @ map (\<lambda>i. digit (unat (drop_bit 60 (push_bit (4 * i) x)))) [0..<16]"

datatype parg = PInt int | PPtr u64 | PStr "u8 list option"

definition emit :: "u8 list \<Rightarrow> u8 list res \<Rightarrow> u8 list res" where
  "emit out r = rbind r (\<lambda>rest. Ok (out @ rest))"

text \<open>One conversion: what it prints and the arguments left.\<close>

fun convert :: "u8 \<Rightarrow> parg list \<Rightarrow> (u8 list \<times> parg list) res" where
  "convert c args =
     (if c = 100 then (case args of PInt v # as \<Rightarrow> Ok (printint v 10 True, as) | _ \<Rightarrow> Fault ''argument'')
      else if c = 120 then (case args of PInt v # as \<Rightarrow> Ok (printint v 16 True, as) | _ \<Rightarrow> Fault ''argument'')
      else if c = 112 then (case args of PPtr v # as \<Rightarrow> Ok (printptr v, as) | _ \<Rightarrow> Fault ''argument'')
      else if c = 115
      then (case args of PStr v # as \<Rightarrow> Ok (case v of None \<Rightarrow> str ''(null)'' | Some t \<Rightarrow> t, as) | _ \<Rightarrow> Fault ''argument'')
      else if c = 37 then Ok ([37], args)
      else Ok ([37, c], args))"

fun format :: "u8 list \<Rightarrow> parg list \<Rightarrow> u8 list res" where
  "format [] args = Ok []"
| "format [c] args = Ok (if c = 37 then [] else [c])"
| "format (c # d # fmt) args =
     (if c \<noteq> 37 then emit [c] (format (d # fmt) args)
      else rbind (convert d args) (\<lambda>(out, args). emit out (format fmt args)))"

definition printf :: "device \<Rightarrow> string \<Rightarrow> parg list \<Rightarrow> uart \<Rightarrow> uart res" where
  "printf dev fmt args u = rbind (format (str fmt) args) (\<lambda>out. consputs dev out u)"

definition state_name :: "procstate \<Rightarrow> string" where
  "state_name st = (case st of UNUSED \<Rightarrow> ''unused'' | USED \<Rightarrow> ''used'' | SLEEPING \<Rightarrow> ''sleep '' | RUNNABLE \<Rightarrow> ''runble''
     | RUNNING \<Rightarrow> ''run   '' | ZOMBIE \<Rightarrow> ''zombie'')"

text \<open>A name up to its terminating zero.\<close>

definition proc_name :: "proc \<Rightarrow> u8 list" where
  "proc_name p = takeWhile (\<lambda>c. c \<noteq> 0) (p_name p)"

primrec dump_procs :: "proc list \<Rightarrow> u8 list res" where
  "dump_procs [] = Ok []"
| "dump_procs (p # ps) =
     (if p_state p = UNUSED then dump_procs ps
      else rbind (format (str ''%d %s %s %d %d %d'')
          [PInt (p_pid p), PStr (Some (str (state_name (p_state p)))), PStr (Some (proc_name p)), PInt (p_smask p), PInt (p_stime p), PInt (p_wtime p)])
        (\<lambda>out. emit (out @ [10]) (dump_procs ps)))"

definition procdump :: "ptable \<Rightarrow> u8 list res" where
  "procdump t = emit [10] (dump_procs (procs t))"

section \<open>Lemmas\<close>

text \<open>Reading the digits back.\<close>

definition digit_val :: "u8 \<Rightarrow> nat" where
  "digit_val c = (if 97 \<le> c then unat c - 87 else unat c - 48)"

primrec digits_val :: "nat \<Rightarrow> u8 list \<Rightarrow> nat" where
  "digits_val base [] = 0"
| "digits_val base (c # cs) = digit_val c + base * digits_val base cs"

definition read_int :: "nat \<Rightarrow> u8 list \<Rightarrow> int" where
  "read_int base cs =
     (if cs \<noteq> [] \<and> hd cs = 45 then - int (digits_val base (rev (tl cs))) else int (digits_val base (rev cs)))"

lemma digit_facts: "n < 16 \<Longrightarrow> digit_val (digit n) = n \<and> digit n \<noteq> 45"
proof -
  assume "n < 16"
  then have "n \<in> set [0..<16]" by simp
  moreover have "\<forall>n \<in> set [0..<16]. digit_val (digit n) = n \<and> digit n \<noteq> 45" by code_simp
  ultimately show ?thesis by blast
qed

lemma rev_digits_val: "\<lbrakk>2 \<le> base; base \<le> 16\<rbrakk> \<Longrightarrow> digits_val base (rev_digits base x) = x \<and> 45 \<notin> set (rev_digits base x) \<and> rev_digits base x \<noteq> []"
proof (induction base x rule: rev_digits.induct)
  case (1 base x)
  have "x mod base < 16" using mod_less_divisor [of base x] 1(2,3) by linarith
  then have d: "digit_val (digit (x mod base)) = x mod base" "digit (x mod base) \<noteq> 45" using digit_facts by simp_all
  show ?case
  proof (cases "x div base = 0")
    case True
    then have "x mod base = x" by (metis add_0 div_mult_mod_eq mult_zero_left)
    then show ?thesis using d True by (subst (1 2 3) rev_digits.simps) auto
  next
    case False
    have "x mod base + base * (x div base) = x" by simp
    then show ?thesis using d False 1 by (subst (1 2 3) rev_digits.simps) auto
  qed
qed

lemma rev_digits_length: "\<lbrakk>2 \<le> base; x < base ^ n; 0 < n\<rbrakk> \<Longrightarrow> length (rev_digits base x) \<le> n"
proof (induction n arbitrary: x)
  case (Suc n)
  show ?case
  proof (cases "x div base = 0")
    case True
    then show ?thesis by (subst rev_digits.simps) simp
  next
    case False
    have lt: "x div base < base ^ n" using Suc.prems by (simp add: less_mult_imp_div_less mult.commute)
    then have "0 < n" using False by (cases n) auto
    then show ?thesis using Suc.IH [OF Suc.prems(1) lt] False by (subst rev_digits.simps) simp
  qed
qed simp

section \<open>Properties\<close>

text \<open>
  \<^verbatim>\<open>printint\<close> prints every 32-bit integer, the least one included, in base 10 or 16 so that reading the digits after an
  optional minus sign gives the number back, and it never needs more than the 16 bytes of its buffer.
\<close>

lemma printint_reads_back:
  assumes "- (2 ^ 31) \<le> xx" "xx < 2 ^ 31" "base = 10 \<or> base = 16"
  shows "read_int base (printint xx base True) = xx \<and> length (printint xx base True) \<le> 16"
proof -
  let ?m = "if xx < 0 then - xx else xx"
  have m: "0 \<le> ?m" "?m \<le> 2 ^ 31" using assms(1,2) by auto
  then have "take_bit 32 ?m = ?m" by (simp only: take_bit_int_eq_self_iff) simp
  then have u: "unat (of_int ?m :: u32) = nat ?m" by (simp only: unsigned_of_int) simp
  have b: "2 \<le> base" "base \<le> 16" using assms(3) by auto
  note v = rev_digits_val [OF b, of "nat ?m"]
  have "nat ?m < base ^ 10" using m assms(3) by auto
  then have len: "length (rev_digits base (nat ?m)) \<le> 10" by (intro rev_digits_length [OF b(1)]) simp_all
  have p: "printint xx base True = (if xx < 0 then [45] else []) @ rev (rev_digits base (nat ?m))"
    unfolding printint_def Let_def using u by simp
  have "hd (rev (rev_digits base (nat ?m))) \<noteq> 45" using v by (metis hd_in_set rev_is_Nil_conv set_rev)
  then show ?thesis using v len m unfolding p read_int_def by auto
qed

end
