(* ===== verification/Syscall.thy ===== *)
theory Syscall
  imports Exec Printf
begin

text \<open>
  The remaining system calls (\<^verbatim>\<open>kernel/sysproc.c\<close>) and the dispatcher with its tracing (\<^verbatim>\<open>kernel/syscall.c\<close>). What a call
  takes from outside the program text is collected in the record \<open>env\<close>: the chip behind the serial line, the addresses
  of \<^verbatim>\<open>trampoline\<close> and \<^verbatim>\<open>forkret\<close>, and what the kernel stack holds where the code leaves bytes unset.
\<close>

unbundle bit_operations_syntax

section \<open>Definitions\<close>

record env =
  e_dev :: device
  e_trampoline :: u64
  e_forkret :: u64
  e_pad :: bytes
  e_times :: "u32 \<times> u32"

definition sys_exit :: "nat \<Rightarrow> ksys \<Rightarrow> ksys res" where
  "sys_exit me s = rbind (argint me 0 s) (\<lambda>n. exit me n s)"

definition sys_getpid :: "nat \<Rightarrow> ksys \<Rightarrow> (int \<times> ksys) res" where
  "sys_getpid me s = Ok (mypid me s, s)"

definition sys_fork :: "env \<Rightarrow> nat \<Rightarrow> ksys \<Rightarrow> (int \<times> ksys) res" where
  "sys_fork e me s = fork (e_trampoline e) (e_forkret e) me s"

definition sys_wait :: "nat \<Rightarrow> ksys \<Rightarrow> (int \<times> ksys) res" where
  "sys_wait me s = rbind (argaddr me 0 s) (\<lambda>p. wait me p s)"

definition sys_sbrk :: "nat \<Rightarrow> ksys \<Rightarrow> (int \<times> ksys) res" where
  "sys_sbrk me s =
     rbind (argint me 0 s) (\<lambda>n.
       let addr = p_sz (cur me s) in
       rbind (growproc me n s) (\<lambda>(r, s). Ok (if r < 0 then -1 else uint addr, s)))"

text \<open>The loop of \<^verbatim>\<open>sys_sleep\<close> as it goes on after each wakeup; the comparison is of unsigned numbers.\<close>

definition sleep_loop :: "nat \<Rightarrow> int \<Rightarrow> u32 \<Rightarrow> ksys \<Rightarrow> (int \<times> ksys) res" where
  "sleep_loop me n ticks0 s =
     (if ticks (ktab s) - ticks0 < of_int n
      then if killed me (ktab s) \<noteq> 0 then Ok (-1, s) else Blocked ''ticks''
      else Ok (0, s))"

definition sys_sleep :: "nat \<Rightarrow> ksys \<Rightarrow> (int \<times> ksys) res" where
  "sys_sleep me s = rbind (argint me 0 s) (\<lambda>n. sleep_loop me n (ticks (ktab s)) s)"

definition sys_kill :: "nat \<Rightarrow> ksys \<Rightarrow> (int \<times> ksys) res" where
  "sys_kill me s = rbind (argint me 0 s) (\<lambda>pid. case kill pid (ktab s) of (r, t) \<Rightarrow> Ok (r, s\<lparr>ktab := t\<rparr>))"

definition sys_uptime :: "ksys \<Rightarrow> (int \<times> ksys) res" where
  "sys_uptime s = Ok (uint (ticks (ktab s)), s)"

definition sys_trace :: "nat \<Rightarrow> ksys \<Rightarrow> (int \<times> ksys) res" where
  "sys_trace me s = rbind (argint me 0 s) (\<lambda>mask. Ok (0, upd_cur me (\<lambda>p. p\<lparr>p_smask := mask\<rparr>) s))"

definition sys_sigalarm :: "nat \<Rightarrow> ksys \<Rightarrow> (int \<times> ksys) res" where
  "sys_sigalarm me s =
     rbind (argint me 0 s) (\<lambda>interval. rbind (argaddr me 1 s) (\<lambda>handler.
       Ok (0, upd_cur me (\<lambda>p. p\<lparr>p_interval := interval, p_handler := handler\<rparr>) s)))"

definition sys_sigreturn :: "nat \<Rightarrow> ksys \<Rightarrow> (int \<times> ksys) res" where
  "sys_sigreturn me s =
     (let ctx = p_alarmContext (cur me s) in
      if ctx = 0 then Fault ''no alarm context''
      else let s = upd_ram (\<lambda>m. memmove m (p_trapframe (cur me s)) ctx 4096) s;
               a0 = sint (ucast (load64 (ram (kmem s)) (ctx + tf_offset (TF_a 0))) :: u32) in
        rbind (kdo (\<lambda>k. kfree k ctx) s) (\<lambda>s.
          Ok (a0, upd_cur me (\<lambda>p. p\<lparr>p_alarmOn := 0, p_nticks := 0, p_alarmContext := 0\<rparr>) s)))"

definition sys_settickets :: "nat \<Rightarrow> ksys \<Rightarrow> (int \<times> ksys) res" where
  "sys_settickets me s =
     rbind (argint me 0 s) (\<lambda>tk.
     rbind (cint (p_tickets (cur me s) + tk)) (\<lambda>n. Ok (0, upd_cur me (\<lambda>p. p\<lparr>p_tickets := n\<rparr>) s)))"

text \<open>The flag of \<^verbatim>\<open>sys_set_priority\<close> says that it calls \<^verbatim>\<open>yield\<close> before it returns.\<close>

definition sys_set_priority :: "nat \<Rightarrow> ksys \<Rightarrow> (int \<times> bool \<times> ksys) res" where
  "sys_set_priority me s =
     rbind (argint me 0 s) (\<lambda>sp. rbind (argint me 1 s) (\<lambda>pid.
       case find_index (\<lambda>p. p_pid p = pid) (procs (ktab s)) of
         None \<Rightarrow> Ok (-1, False, s)
       | Some i \<Rightarrow>
           let old = p_staticP (procs (ktab s) ! i) in
           Ok (old, old > sp,
             upd_cur i (\<lambda>p. p\<lparr>p_staticP := sp, p_niceness := 5, p_pbs_rtime := 0, p_stime := 0, p_wtime := 0\<rparr>) s)))"

definition sys_waitx :: "env \<Rightarrow> nat \<Rightarrow> ksys \<Rightarrow> (int \<times> ksys) res" where
  "sys_waitx e me s =
     rbind (argaddr me 0 s) (\<lambda>addr. rbind (argaddr me 1 s) (\<lambda>addr1. rbind (argaddr me 2 s) (\<lambda>addr2.
     rbind (waitx me addr (e_times e) s) (\<lambda>(ret, (wtime, rtime), s).
     rbind (kget (\<lambda>k. copyout k (p_pagetable (cur me s)) addr1 (le_byte wtime) 4) s) (\<lambda>(r, s).
     if r < 0 then Ok (-1, s)
     else rbind (kget (\<lambda>k. copyout k (p_pagetable (cur me s)) addr2 (le_byte rtime) 4) s) (\<lambda>(r, s).
       Ok (if r < 0 then -1 else ret, s)))))))"

subsection \<open>The dispatcher\<close>

definition syscall_names :: "string list" where
  "syscall_names = [''fork'', ''exit'', ''wait'', ''pipe'', ''read'', ''kill'', ''exec'', ''fstat'', ''chdir'', ''dup'', ''getpid'', ''sbrk'',
     ''sleep'', ''uptime'', ''open'', ''write'', ''mknod'', ''unlink'', ''link'', ''mkdir'', ''close'', ''trace'', ''sigalarm'', ''sigreturn'',
     ''settickets'', ''set_priority'', ''waitx'']"

definition syscall_nargs :: "nat list" where
  "syscall_nargs = [0, 1, 1, 1, 3, 1, 2, 2, 1, 1, 0, 1, 1, 0, 2, 3, 3, 1, 2, 1, 1, 1, 2, 0, 1, 2, 3]"

text \<open>The table \<^verbatim>\<open>syscalls\<close>, for every number but that of \<^verbatim>\<open>exit\<close>, which does not return.\<close>

definition syscalls :: "env \<Rightarrow> nat \<Rightarrow> nat \<Rightarrow> ksys \<Rightarrow> (int \<times> ksys) res" where
  "syscalls e num me s =
     (if num = 1 then sys_fork e me s
      else if num = 3 then sys_wait me s
      else if num = 4 then sys_pipe me s
      else if num = 5 then sys_read me s
      else if num = 6 then sys_kill me s
      else if num = 7 then sys_exec (e_trampoline e) me s
      else if num = 8 then sys_fstat (e_pad e) me s
      else if num = 9 then sys_chdir me s
      else if num = 10 then sys_dup me s
      else if num = 11 then sys_getpid me s
      else if num = 12 then sys_sbrk me s
      else if num = 13 then sys_sleep me s
      else if num = 14 then sys_uptime s
      else if num = 15 then sys_open me s
      else if num = 16 then sys_write (e_dev e) me s
      else if num = 17 then sys_mknod me s
      else if num = 18 then sys_unlink me s
      else if num = 19 then sys_link me s
      else if num = 20 then sys_mkdir me s
      else if num = 21 then sys_close me s
      else if num = 22 then sys_trace me s
      else if num = 23 then sys_sigalarm me s
      else if num = 24 then sys_sigreturn me s
      else if num = 25 then sys_settickets me s
      else if num = 26 then rbind (sys_set_priority me s) (\<lambda>(r, y, s). Ok (r, s))
      else sys_waitx e me s)"

definition kprintf :: "env \<Rightarrow> string \<Rightarrow> parg list \<Rightarrow> ksys \<Rightarrow> ksys res" where
  "kprintf e fmt args s = rbind (printf (e_dev e) fmt args (kuart s)) (\<lambda>u. Ok (s\<lparr>kuart := u\<rparr>))"

fun save_args :: "nat \<Rightarrow> nat \<Rightarrow> nat \<Rightarrow> ksys \<Rightarrow> int list res" where
  "save_args 0 i me s = Ok []"
| "save_args (Suc n) i me s = rbind (argint me i s) (\<lambda>a. rbind (save_args n (Suc i) me s) (\<lambda>as. Ok (a # as)))"

fun print_args :: "env \<Rightarrow> int list \<Rightarrow> ksys \<Rightarrow> ksys res" where
  "print_args e [] s = Ok s"
| "print_args e [a] s = kprintf e ''%d'' [PInt a] s"
| "print_args e (a # as) s = rbind (kprintf e ''%d'' [PInt a] s) (\<lambda>s. rbind (kprintf e '' '' [] s) (print_args e as))"

definition print_trace :: "env \<Rightarrow> nat \<Rightarrow> nat \<Rightarrow> int list \<Rightarrow> ksys \<Rightarrow> ksys res" where
  "print_trace e me num args s =
     rbind (kprintf e ''%d: syscall %s ('' [PInt (mypid me s), PStr (Some (str (syscall_names ! (num - 1))))] s) (\<lambda>s.
     rbind (print_args e args s) (\<lambda>s.
     rbind (kprintf e '') '' [] s) (\<lambda>s.
       kprintf e (''-> %d'' @ [CHR 0x0A]) [PInt (sint (ucast (tf_get me (TF_a 0) s) :: u32))] s)))"

text \<open>\<^verbatim>\<open>syscall\<close>; the flag is false if the process has exited.\<close>

definition syscall :: "env \<Rightarrow> nat \<Rightarrow> ksys \<Rightarrow> (bool \<times> ksys) res" where
  "syscall e me s =
     (let num = sint (ucast (tf_get me (TF_a 7) s) :: u32) in
      if num > 0 \<and> num < 28
      then rbind (save_args (syscall_nargs ! (nat num - 1)) 0 me s) (\<lambda>args.
        if num = 2 then rbind (sys_exit me s) (\<lambda>s. Ok (False, s))
        else rbind (syscalls e (nat num) me s) (\<lambda>(r, s).
          let s = tf_set me (TF_a 0) (of_int r) s in
          if p_smask (cur me s) AND push_bit (nat num) 1 \<noteq> 0
          then rbind (print_trace e me (nat num) args s) (\<lambda>s. Ok (True, s))
          else Ok (True, s)))
      else rbind (kprintf e (''%d %s: unknown sys call %d'' @ [CHR 0x0A])
            [PInt (mypid me s), PStr (Some (proc_name (cur me s))), PInt num] s) (\<lambda>s.
        Ok (True, tf_set me (TF_a 0) (-1) s)))"

end
