(* ===== verification/Trap.thy ===== *)
theory Trap
  imports Syscall Sched
begin

text \<open>
  Traps (\<^verbatim>\<open>kernel/trap.c\<close>): system calls, page faults, device and timer interrupts, the alarm and the return to user mode.
  \<open>hart\<close> holds the control registers the code reads and writes. The number of the interrupt that the interrupt
  controller reports, and the disk driver's interrupt routine, are arguments. A handler runs up to the point where it
  gives up the processor: \<open>Yields\<close> keeps where it goes on.
\<close>

unbundle bit_operations_syntax

section \<open>Definitions\<close>

record hart =
  h_sstatus :: u64
  h_sepc :: u64
  h_scause :: u64
  h_stval :: u64
  h_sip :: u64
  h_stvec :: u64
  h_satp :: u64
  h_tp :: u64
  h_completed :: "int list"

definition SSTATUS_SPP :: u64 where "SSTATUS_SPP = push_bit 8 1"

definition SSTATUS_SPIE :: u64 where "SSTATUS_SPIE = push_bit 5 1"

definition SSTATUS_SIE :: u64 where "SSTATUS_SIE = push_bit 1 1"

definition MAKE_SATP :: "u64 \<Rightarrow> u64" where
  "MAKE_SATP pagetable = push_bit 60 8 OR drop_bit 12 pagetable"

definition UART0_IRQ :: int where "UART0_IRQ = 10"

definition VIRTIO0_IRQ :: int where "VIRTIO0_IRQ = 1"

text \<open>What the linker and the hardware supply.\<close>

record trapenv = env +
  t_kernelvec :: u64
  t_usertrap :: u64
  t_uservec :: u64
  t_irq :: int
  t_disk :: "ksys \<Rightarrow> ksys res"

definition trap_uartintr :: "trapenv \<Rightarrow> nat option \<Rightarrow> ksys \<Rightarrow> ksys res" where
  "trap_uartintr e me s =
     rbind (procdump (ktab s)) (\<lambda>dump.
     case uartintr (e_dev e) dump (kcons s) (kuart s) of
       None \<Rightarrow> Blocked ''uart''
     | Some r \<Rightarrow> rbind r (\<lambda>(c, u, wokeR, wokeT).
         let t = ktab s;
             t = (if wokeR then wakeup me ConsChan t else t);
             t = (if wokeT then wakeup me UartChan t else t) in
         Ok (s\<lparr>kcons := c, kuart := u, ktab := t\<rparr>)))"

definition devintr :: "trapenv \<Rightarrow> nat option \<Rightarrow> hart \<Rightarrow> ksys \<Rightarrow> (int \<times> hart \<times> ksys) res" where
  "devintr e me h s =
     (if h_scause h AND 0x8000000000000000 \<noteq> 0 \<and> h_scause h AND 0xff = 9
      then let irq = t_irq e in
        rbind (if irq = UART0_IRQ then trap_uartintr e me s
               else if irq = VIRTIO0_IRQ then t_disk e s
               else if irq \<noteq> 0 then kprintf (env.truncate e) (''unexpected interrupt irq=%d'' @ [CHR 0x0A]) [PInt irq] s
               else Ok s) (\<lambda>s.
          Ok (1, if irq \<noteq> 0 then h\<lparr>h_completed := h_completed h @ [irq]\<rparr> else h, s))
      else if h_scause h = 0x8000000000000001
      then let s = (if h_tp h = 0 then s\<lparr>ktab := clockintr me (ktab s)\<rparr> else s) in
        Ok (2, h\<lparr>h_sip := h_sip h AND NOT 2\<rparr>, s)
      else Ok (0, h, s))"

text \<open>What \<^verbatim>\<open>usertrap\<close> does on a timer interrupt: accounting, the alarm, and the waiting times of queued processes.\<close>

definition pbs_account :: "policy \<Rightarrow> ksys \<Rightarrow> ksys" where
  "pbs_account pol s =
     (if pol = PBS
      then s\<lparr>ktab := (ktab s)\<lparr>procs := map (\<lambda>p. if p_state p = RUNNING then p\<lparr>p_pbs_rtime := p_pbs_rtime p + 1\<rparr> else p) (procs (ktab s))\<rparr>\<rparr>
      else s)"

definition alarm_tick :: "nat \<Rightarrow> ksys \<Rightarrow> ksys res" where
  "alarm_tick me s =
     (if p_alarmOn (cur me s) = 0
      then let s = upd_cur me (\<lambda>p. p\<lparr>p_nticks := p_nticks p + 1\<rparr>) s in
        if p_nticks (cur me s) = p_interval (cur me s)
        then rbind (kget kalloc s) (\<lambda>(ctx, s).
          if ctx = 0 then Fault ''no page for the alarm''
          else let s = upd_ram (\<lambda>m. memmove m ctx (p_trapframe (cur me s)) 4096) s;
                   s = upd_cur me (\<lambda>p. p\<lparr>p_alarmContext := ctx, p_alarmOn := 1\<rparr>) s in
            Ok (tf_set me TF_epc (p_handler (cur me s)) s))
        else Ok s
      else Ok s)"

primrec wait_ticks :: "nat option list \<Rightarrow> proc list \<Rightarrow> proc list" where
  "wait_ticks [] ps = ps"
| "wait_ticks (fp # fps) ps =
     wait_ticks fps (case fp of
       None \<Rightarrow> ps
     | Some i \<Rightarrow> if runnable (ps ! i) then ps[i := (ps ! i)\<lparr>p_wticks := p_wticks (ps ! i) + 1\<rparr>] else ps)"

definition queue_ticks :: "ksys \<Rightarrow> ksys" where
  "queue_ticks s = s\<lparr>ktab := (ktab s)\<lparr>procs := wait_ticks (concat (kqueue s)) (procs (ktab s))\<rparr>\<rparr>"

definition timer_tick :: "policy \<Rightarrow> nat \<Rightarrow> ksys \<Rightarrow> ksys res" where
  "timer_tick pol me s =
     rbind (alarm_tick me (pbs_account pol s)) (\<lambda>s.
       let s = (if p_state (cur me s) = RUNNING then upd_cur me (\<lambda>p. p\<lparr>p_rticks := p_rticks p + 1\<rparr>) s else s) in
       Ok (queue_ticks s))"

datatype trap_out = Exits ksys | Yields nat hart ksys | Returns hart ksys

definition usertrapret :: "trapenv \<Rightarrow> nat \<Rightarrow> hart \<Rightarrow> ksys \<Rightarrow> hart \<times> ksys" where
  "usertrapret e me h s =
     (let p = cur me s;
          s = tf_set me TF_kernel_satp (h_satp h) s;
          s = tf_set me TF_kernel_sp (p_kstack p + PGSIZE) s;
          s = tf_set me TF_kernel_trap (t_usertrap e) s;
          s = tf_set me TF_kernel_hartid (h_tp h) s in
      (h\<lparr>h_stvec := TRAMPOLINE + (t_uservec e - e_trampoline e),
         h_sstatus := ((h_sstatus h AND NOT SSTATUS_SIE) AND NOT SSTATUS_SPP) OR SSTATUS_SPIE,
         h_sepc := tf_get me TF_epc s, h_satp := MAKE_SATP (p_pagetable p)\<rparr>, s))"

definition to_user :: "trapenv \<Rightarrow> nat \<Rightarrow> hart \<Rightarrow> ksys \<Rightarrow> trap_out" where
  "to_user e me h s = (case usertrapret e me h s of (h, s) \<Rightarrow> Returns h s)"

text \<open>
  Under MLFQ the handler yields at the end of a time slice, and then once for each higher queue that is not empty,
  looking again after each resumption; \<open>i\<close> is the queue to look at.
\<close>

function mlfq_check :: "trapenv \<Rightarrow> nat \<Rightarrow> nat \<Rightarrow> hart \<Rightarrow> ksys \<Rightarrow> trap_out" where
  "mlfq_check e me i h s =
     (if i < unat (p_pr (cur me s))
      then if kqueue s ! i ! 0 \<noteq> None then Yields (Suc i) h s else mlfq_check e me (Suc i) h s
      else to_user e me h s)"
  by pat_completeness auto

termination mlfq_check
  by (relation "measure (\<lambda>(e, me, i, h, s). unat (p_pr (cur me s)) - i)") auto

declare mlfq_check.simps [simp del]

definition P4 :: u32 where "P4 = 4"

definition give_up :: "policy \<Rightarrow> trapenv \<Rightarrow> nat \<Rightarrow> int \<Rightarrow> hart \<Rightarrow> ksys \<Rightarrow> trap_out" where
  "give_up pol e me which_dev h s =
     (if which_dev \<noteq> 2 then to_user e me h s
      else case pol of
        RR \<Rightarrow> Yields 0 h s
      | LOTTERY \<Rightarrow> Yields 0 h s
      | MLFQ \<Rightarrow>
          if p_rticks (cur me s) = push_bit (unat (p_pr (cur me s))) 1
          then Yields 0 h (upd_cur me (\<lambda>p. p\<lparr>p_rticks := 0, p_pr := (if p_pr p \<noteq> P4 then p_pr p + 1 else p_pr p)\<rparr>) s)
          else mlfq_check e me 0 h s
      | _ \<Rightarrow> to_user e me h s)"

definition usertrap_resume :: "policy \<Rightarrow> trapenv \<Rightarrow> nat \<Rightarrow> nat \<Rightarrow> hart \<Rightarrow> ksys \<Rightarrow> trap_out" where
  "usertrap_resume pol e me i h s = (if pol = MLFQ then mlfq_check e me i h s else to_user e me h s)"

definition unexpected_trap :: "trapenv \<Rightarrow> nat \<Rightarrow> hart \<Rightarrow> ksys \<Rightarrow> ksys res" where
  "unexpected_trap e me h s =
     rbind (kprintf (env.truncate e) (''usertrap(): unexpected scause %p pid=%d'' @ [CHR 0x0A]) [PPtr (h_scause h), PInt (mypid me s)] s) (\<lambda>s.
     rbind (kprintf (env.truncate e) (''            sepc=%p stval=%p'' @ [CHR 0x0A]) [PPtr (h_sepc h), PPtr (h_stval h)] s) (\<lambda>s.
       Ok (s\<lparr>ktab := setkilled me (ktab s)\<rparr>)))"

definition user_syscall :: "trapenv \<Rightarrow> nat \<Rightarrow> ksys \<Rightarrow> (bool \<times> ksys) res" where
  "user_syscall e me s =
     (if killed me (ktab s) \<noteq> 0 then rbind (exit me (-1) s) (\<lambda>s. Ok (False, s))
      else syscall (env.truncate e) me (tf_set me TF_epc (tf_get me TF_epc s + 4) s))"

definition usertrap :: "policy \<Rightarrow> trapenv \<Rightarrow> nat \<Rightarrow> hart \<Rightarrow> ksys \<Rightarrow> trap_out res" where
  "usertrap pol e me h s =
     (if h_sstatus h AND SSTATUS_SPP \<noteq> 0 then Panic ''usertrap: not from user mode''
      else let h = h\<lparr>h_stvec := t_kernelvec e\<rparr>; s = tf_set me TF_epc (h_sepc h) s in
        rbind (if h_scause h = 8 then rbind (user_syscall e me s) (\<lambda>(back, s). Ok (back, 0, h, s))
               else if h_scause h = 15
               then rbind (kget (\<lambda>k. handleCOW k (p_pagetable (cur me s)) (h_stval h)) s) (\<lambda>(r, s).
                 Ok (True, 0, h, if r \<noteq> 0 then s\<lparr>ktab := setkilled me (ktab s)\<rparr> else s))
               else rbind (devintr e (Some me) h s) (\<lambda>(which_dev, h, s).
                 if which_dev = 0 then rbind (unexpected_trap e me h s) (\<lambda>s. Ok (True, 0, h, s))
                 else rbind (if which_dev = 2 then timer_tick pol me s else Ok s) (\<lambda>s. Ok (True, which_dev, h, s)))) (\<lambda>(back, which_dev, h, s).
          if \<not> back then Ok (Exits s)
          else if killed me (ktab s) \<noteq> 0 then rbind (exit me (-1) s) (\<lambda>s. Ok (Exits s))
          else Ok (give_up pol e me which_dev h s)))"

text \<open>\<^verbatim>\<open>kerneltrap\<close>; \<open>me\<close> is the running process, if any. It puts back the registers that a yield may have changed.\<close>

definition kerneltrap :: "policy \<Rightarrow> trapenv \<Rightarrow> nat option \<Rightarrow> hart \<Rightarrow> ksys \<Rightarrow> (bool \<times> hart \<times> ksys) res" where
  "kerneltrap pol e me h s =
     (let sepc = h_sepc h; sstatus = h_sstatus h in
      if sstatus AND SSTATUS_SPP = 0 then Panic ''kerneltrap: not from supervisor mode''
      else if sstatus AND SSTATUS_SIE \<noteq> 0 then Panic ''kerneltrap: interrupts enabled''
      else rbind (devintr e me h s) (\<lambda>(which_dev, h, s).
        if which_dev = 0
        then rbind (kprintf (env.truncate e) (''scause %p'' @ [CHR 0x0A]) [PPtr (h_scause h)] s) (\<lambda>s.
             rbind (kprintf (env.truncate e) (''sepc=%p stval=%p'' @ [CHR 0x0A]) [PPtr (h_sepc h), PPtr (h_stval h)] s) (\<lambda>s.
               Panic ''kerneltrap''))
        else let s = (if which_dev = 2 \<and> pol = MLFQ then queue_ticks s else s);
                 yields = (which_dev = 2 \<and> pol \<in> {RR, MLFQ, LOTTERY} \<and>
                   (case me of None \<Rightarrow> False | Some i \<Rightarrow> p_state (cur i s) = RUNNING)) in
          Ok (yields, h\<lparr>h_sepc := sepc, h_sstatus := sstatus\<rparr>, s)))"

end
