(* ===== verification/Frame.thy ===== *)
theory Frame
  imports Syscall
begin

text \<open>
  What system calls leave alone. \<open>post Q m\<close> says that \<open>Q\<close> holds of what \<open>m\<close> returns, if it returns. The interface
  \<open>quiet\<close> is that of a state predicate which does not depend on memory, the file system, pipes, the console, file
  offsets or which processes have been woken up; the lemmas inside it show that every operation below a system call
  that works only on those parts keeps such a predicate. Each rule has the form of a weakest precondition, so that
  proofs walk through the code by resolution.
\<close>

section \<open>Postconditions of results\<close>

definition post :: "('a \<Rightarrow> bool) \<Rightarrow> 'a res \<Rightarrow> bool" where
  "post Q m \<longleftrightarrow> (\<forall>x. m = Ok x \<longrightarrow> Q x)"

lemma post_simps [simp]: "post Q (Ok x) = Q x" "post Q (Panic e)" "post Q (Blocked e)" "post Q (Fault e)"
  by (simp_all add: post_def)

lemma post_bind [simp]: "post Q (rbind m f) = post (\<lambda>x. post Q (f x)) m"
  by (auto simp: post_def res_simps)

lemma postD: "post Q m \<Longrightarrow> m = Ok x \<Longrightarrow> Q x"
  by (simp add: post_def)

lemma post_mono: "post P m \<Longrightarrow> (\<And>x. P x \<Longrightarrow> Q x) \<Longrightarrow> post Q m"
  by (simp add: post_def)

lemma post_if: "(c \<Longrightarrow> post Q m) \<Longrightarrow> (\<not> c \<Longrightarrow> post Q m') \<Longrightarrow> post Q (if c then m else m')"
  by simp

lemma post_any: "(\<And>x. Q x) \<Longrightarrow> post Q m"
  by (simp add: post_def)

text \<open>Reading arguments and memory does not change the state.\<close>

named_theorems reads

lemma reads_rules [reads]:
  "(\<And>x. Q x) \<Longrightarrow> post Q (argint me n s)" "(\<And>x. Q' x) \<Longrightarrow> post Q' (argaddr me n s)"
  "(\<And>a b. Q2 (a, b)) \<Longrightarrow> post Q2 (argstr me n k s)" "(\<And>x. Q3 x) \<Longrightarrow> post Q3 (argfd me n s)"
  "(\<And>a b. Q4 (a, b)) \<Longrightarrow> post Q4 (fetchaddr me addr s)" "(\<And>a b. Q5 (a, b)) \<Longrightarrow> post Q5 (fetchstr me addr k s)"
  "(\<And>a b c. Q6 (a, b, c)) \<Longrightarrow> post Q6 (readi put ip dst off m t x)"
  "(\<And>a b. Q7 (a, b)) \<Longrightarrow> post Q7 (copyout km pt va src len)"
  "(\<And>x. Q8 x) \<Longrightarrow> post Q8 (walkaddr km pt va)"
  "(\<And>x. Q9 x) \<Longrightarrow> post Q9 (save_args j i me s)"
  "(\<And>a b c d. Q10 (a, b, c, d)) \<Longrightarrow> post Q10 (piperead km pt va k b0 p)"
  "(\<And>a b c. Q11 (a, b, c)) \<Longrightarrow> post Q11 (pipewrite km pt va k j b2 p)"
  "(\<And>a b c. Q12 (a, b, c)) \<Longrightarrow> post Q12 (consoleread km pt b1 va k b0 cn)"
  "(\<And>x. Q13 x) \<Longrightarrow> post Q13 (cint v)"
  by (auto intro!: post_any)

lemma nth_upd: "j < length xs \<Longrightarrow> xs[i := v] ! j = (if i = j then v else xs ! j)"
  by (simp add: nth_list_update)

lemma upd_cur_sel [simp]:
  "procs (ktab (upd_cur i f s)) = (procs (ktab s))[i := f (procs (ktab s) ! i)]" "ftab (upd_cur i f s) = ftab s"
  "kmem (upd_cur i f s) = kmem s" "kfs (upd_cur i f s) = kfs s"
  by (simp_all add: upd_cur_def set_proc_def)

section \<open>Predicates that most of the kernel cannot change\<close>

named_theorems quiet_rules

locale quiet =
  fixes I :: "ksys \<Rightarrow> bool" and me :: nat
  assumes I_fs: "I s \<Longrightarrow> I (s\<lparr>kfs := x\<rparr>)"
    and I_mem: "I s \<Longrightarrow> I (s\<lparr>kmem := m\<rparr>)"
    and I_pipes: "I s \<Longrightarrow> I (s\<lparr>kpipes := ps\<rparr>)"
    and I_cons: "I s \<Longrightarrow> I (s\<lparr>kcons := c\<rparr>)"
    and I_uart: "I s \<Longrightarrow> I (s\<lparr>kuart := u\<rparr>)"
    and I_wake: "I s \<Longrightarrow> I (s\<lparr>ktab := wakeup (Some me) ch (ktab s)\<rparr>)"
    and I_off: "I s \<Longrightarrow> I (upd_file i (\<lambda>f. f\<lparr>f_off := f_off f + d\<rparr>) s)"
begin

lemma wake_fold: "I s \<Longrightarrow> I (s\<lparr>ktab := fold (\<lambda>w. wakeup (Some me) (g w)) ws (ktab s)\<rparr>)"
proof (induction ws arbitrary: s)
  case (Cons w ws)
  from Cons.IH [OF I_wake [OF Cons.prems, of "g w"]] show ?case by simp
qed simp

lemma quiet_updates [quiet_rules]:
  "I s \<Longrightarrow> I (pipe_wakes me a ws s)" "I s \<Longrightarrow> I (upd_knode ip f s)" "I s \<Longrightarrow> I (upd_ram g s)" "I s \<Longrightarrow> I (tf_set i fld v s)"
  by (auto simp: pipe_wakes_def upd_knode_def upd_ram_def tf_set_def intro: wake_fold I_fs I_mem)

lemma plain: "post I m \<Longrightarrow> (\<And>s. I s \<Longrightarrow> Q s) \<Longrightarrow> post Q m"
  by (simp add: post_def)

lemma pairs: "post (\<lambda>(r, s). I s) m \<Longrightarrow> (\<And>r s. I s \<Longrightarrow> Q (r, s)) \<Longrightarrow> post Q m"
  by (auto simp: post_def)

lemma triples: "post (\<lambda>(a, b, s). I s) m \<Longrightarrow> (\<And>a b s. I s \<Longrightarrow> Q (a, b, s)) \<Longrightarrow> post Q m"
  by (auto simp: post_def)

lemma fs_do_keeps: "I s \<Longrightarrow> post (I) (fs_do f s)"
  by (auto simp: fs_do_def post_def res_simps intro: I_fs)

lemmas fs_do_rule [quiet_rules] = plain [OF fs_do_keeps]

lemma fs_get_keeps: "I s \<Longrightarrow> post (\<lambda>(r, s). I s) (fs_get f s)"
  by (auto simp: fs_get_def post_def res_simps intro: I_fs)

lemmas fs_get_rule [quiet_rules] = pairs [OF fs_get_keeps]

lemma kdo_keeps: "I s \<Longrightarrow> post (I) (kdo f s)"
  by (auto simp: kdo_def post_def res_simps intro: I_mem)

lemmas kdo_rule [quiet_rules] = plain [OF kdo_keeps]

lemma kget_keeps: "I s \<Longrightarrow> post (\<lambda>(r, s). I s) (kget f s)"
  by (auto simp: kget_def post_def res_simps intro: I_mem)

lemmas kget_rule [quiet_rules] = pairs [OF kget_keeps]

lemma kbegin_op_keeps: "I s \<Longrightarrow> post (I) (kbegin_op s)"
  by (auto simp: kbegin_op_def intro: I_fs split: option.split)

lemmas kbegin_op_rule [quiet_rules] = plain [OF kbegin_op_keeps]

lemma kend_op_keeps: "I s \<Longrightarrow> post (I) (kend_op me s)"
  using I_wake [OF I_fs, of s] by (auto simp: kend_op_def post_def res_simps)

lemmas kend_op_rule [quiet_rules] = plain [OF kend_op_keeps]

lemma op_return_keeps: "I s \<Longrightarrow> post (\<lambda>(r, s). I s) (op_return me r s)"
  unfolding op_return_def Let_def by (auto intro!: quiet_rules reads)

lemmas op_return_rule [quiet_rules] = pairs [OF op_return_keeps]

lemma knamei_keeps: "I s \<Longrightarrow> post (\<lambda>(r, s). I s) (knamei me path s)"
  unfolding knamei_def Let_def by (auto intro!: quiet_rules reads split: option.split)

lemmas knamei_rule [quiet_rules] = pairs [OF knamei_keeps]

lemma knameiparent_keeps: "I s \<Longrightarrow> post (\<lambda>(a, b, s). I s) (knameiparent me path s)"
  by (auto simp: knameiparent_def post_def res_simps intro!: I_fs split: option.splits if_splits)

lemmas knameiparent_rule [quiet_rules] = triples [OF knameiparent_keeps]

lemma kreadi_keeps: "I s \<Longrightarrow> post (\<lambda>(a, b, s). I s) (kreadi ip off n s)"
  unfolding kreadi_def Let_def by (auto intro!: quiet_rules reads I_fs)

lemmas kreadi_rule [quiet_rules] = triples [OF kreadi_keeps]

subsection \<open>Files\<close>

lemma filestat_keeps: "I s \<Longrightarrow> post (\<lambda>(r, s). I s) (filestat pad me i addr s)"
  unfolding filestat_def Let_def by (auto intro!: quiet_rules reads I_mem)

lemmas filestat_rule [quiet_rules] = pairs [OF filestat_keeps]

lemma file_piperead_keeps: "I s \<Longrightarrow> post (\<lambda>(r, s). I s) (file_piperead me a addr n s)"
  unfolding file_piperead_def by (auto intro!: quiet_rules reads I_mem I_pipes split: option.split pipe_out.split)

lemmas file_piperead_rule [quiet_rules] = pairs [OF file_piperead_keeps]

lemma file_pipewrite_keeps: "I s \<Longrightarrow> post (\<lambda>(r, s). I s) (file_pipewrite me a addr n s)"
  unfolding file_pipewrite_def by (auto intro!: quiet_rules reads I_pipes split: option.split pipe_out.split)

lemmas file_pipewrite_rule [quiet_rules] = pairs [OF file_pipewrite_keeps]

lemma dev_read_keeps: "I s \<Longrightarrow> post (\<lambda>(r, s). I s) (dev_read me addr n s)"
  unfolding dev_read_def by (auto intro!: reads I_cons I_mem split: cons_out.split)

lemmas dev_read_rule [quiet_rules] = pairs [OF dev_read_keeps]

lemma dev_write_keeps: "I s \<Longrightarrow> post (\<lambda>(r, s). I s) (dev_write dev me addr n s)"
  using I_wake [OF I_uart, of s] I_uart [of s] by (auto simp: dev_write_def post_def res_simps split: if_splits)

lemmas dev_write_rule [quiet_rules] = pairs [OF dev_write_keeps]

lemma fileread_keeps: "I s \<Longrightarrow> post (\<lambda>(r, s). I s) (fileread me i addr n s)"
  unfolding fileread_def Let_def by (auto intro!: quiet_rules reads I_mem I_fs I_off split: fdtype.split)

lemmas fileread_rule [quiet_rules] = pairs [OF fileread_keeps]

lemma filewrite_chunk_keeps: "I s \<Longrightarrow> post (\<lambda>(r, s). I s) (filewrite_chunk me i addr n1 s)"
  unfolding filewrite_chunk_def Let_def by (auto intro!: quiet_rules reads I_off)

lemmas filewrite_chunk_rule [quiet_rules] = pairs [OF filewrite_chunk_keeps]

lemma filewrite_loop_keeps: "I s \<Longrightarrow> post (\<lambda>(r, s). I s) (filewrite_loop me i addr k n s)"
proof (induction "nat (n - k)" arbitrary: k s rule: less_induct)
  case less
  show ?case
  proof (cases "k < n")
    case True
    then have "nat (n - (k + min (n - k) max_write)) < nat (n - k)" by (simp add: max_write_def MAXOPBLOCKS_def BSIZE_def)
    note IH = less.hyps [OF this]
    show ?thesis using True less.prems IH by (subst filewrite_loop.simps) (auto simp: Let_def intro!: filewrite_chunk_rule)
  qed (use less.prems in \<open>simp add: filewrite_loop.simps\<close>)
qed

lemmas filewrite_loop_rule [quiet_rules] = pairs [OF filewrite_loop_keeps]

lemma filewrite_keeps: "I s \<Longrightarrow> post (\<lambda>(r, s). I s) (filewrite dev me i addr n s)"
  unfolding filewrite_def Let_def by (auto intro!: quiet_rules reads split: fdtype.split)

lemmas filewrite_rule [quiet_rules] = pairs [OF filewrite_keeps]

lemma file_pipeclose_keeps: "I s \<Longrightarrow> post I (file_pipeclose me a w s)"
  unfolding file_pipeclose_def Let_def
  by (auto split: option.split prod.split intro!: post_any quiet_rules I_mem I_pipes)

lemmas file_pipeclose_rule [quiet_rules] = plain [OF file_pipeclose_keeps]

subsection \<open>System calls on files\<close>

lemma sys_read_keeps: "I s \<Longrightarrow> post (\<lambda>(r, s). I s) (sys_read me s)"
  unfolding sys_read_def Let_def by (auto intro!: quiet_rules reads split: option.split)

lemmas sys_read_rule [quiet_rules] = pairs [OF sys_read_keeps]

lemma sys_write_keeps: "I s \<Longrightarrow> post (\<lambda>(r, s). I s) (sys_write dev me s)"
  unfolding sys_write_def Let_def by (auto intro!: quiet_rules reads split: option.split)

lemmas sys_write_rule [quiet_rules] = pairs [OF sys_write_keeps]

lemma sys_fstat_keeps: "I s \<Longrightarrow> post (\<lambda>(r, s). I s) (sys_fstat pad me s)"
  unfolding sys_fstat_def Let_def by (auto intro!: quiet_rules reads split: option.split)

lemmas sys_fstat_rule [quiet_rules] = pairs [OF sys_fstat_keeps]

lemma link_bad_keeps: "I s \<Longrightarrow> post (\<lambda>(r, s). I s) (link_bad me ip s)"
  unfolding link_bad_def Let_def by (auto intro!: quiet_rules reads)

lemmas link_bad_rule [quiet_rules] = pairs [OF link_bad_keeps]

lemma link_new_keeps: "I s \<Longrightarrow> post (\<lambda>(r, s). I s) (link_new me ip new s)"
  unfolding link_new_def Let_def by (auto intro!: quiet_rules reads split: option.split)

lemmas link_new_rule [quiet_rules] = pairs [OF link_new_keeps]

lemma sys_link_keeps: "I s \<Longrightarrow> post (\<lambda>(r, s). I s) (sys_link me s)"
  unfolding sys_link_def Let_def by (auto intro!: quiet_rules reads split: option.split)

lemmas sys_link_rule [quiet_rules] = pairs [OF sys_link_keeps]

lemma unlink_entry_keeps: "I s \<Longrightarrow> post (\<lambda>(r, s). I s) (unlink_entry me dp ip off s)"
  unfolding unlink_entry_def Let_def by (auto intro!: quiet_rules reads)

lemmas unlink_entry_rule [quiet_rules] = pairs [OF unlink_entry_keeps]

lemma unlink_bad_keeps: "I s \<Longrightarrow> post (\<lambda>(r, s). I s) (unlink_bad me dp s)"
  unfolding unlink_bad_def Let_def by (auto intro!: quiet_rules reads)

lemmas unlink_bad_rule [quiet_rules] = pairs [OF unlink_bad_keeps]

lemma sys_unlink_keeps: "I s \<Longrightarrow> post (\<lambda>(r, s). I s) (sys_unlink me s)"
  unfolding sys_unlink_def Let_def by (auto intro!: quiet_rules reads split: option.split)

lemmas sys_unlink_rule [quiet_rules] = pairs [OF sys_unlink_keeps]

lemma create_fail_keeps: "I s \<Longrightarrow> post (\<lambda>(r, s). I s) (create_fail me dp ip s)"
  unfolding create_fail_def Let_def by (auto intro!: quiet_rules reads)

lemmas create_fail_rule [quiet_rules] = pairs [OF create_fail_keeps]

lemma create_dots_keeps: "I s \<Longrightarrow> post (\<lambda>(r, s). I s) (create_dots me dp ip s)"
  unfolding create_dots_def Let_def by (auto intro!: quiet_rules reads)

lemmas create_dots_rule [quiet_rules] = pairs [OF create_dots_keeps]

lemma create_new_keeps: "I s \<Longrightarrow> post (\<lambda>(r, s). I s) (create_new me dp ip name ty mj mn s)"
  unfolding create_new_def Let_def by (auto intro!: quiet_rules reads)

lemmas create_new_rule [quiet_rules] = pairs [OF create_new_keeps]

lemma create_keeps: "I s \<Longrightarrow> post (\<lambda>(r, s). I s) (create me path ty mj mn s)"
  unfolding create_def Let_def by (auto intro!: quiet_rules reads split: option.split)

lemmas create_rule [quiet_rules] = pairs [OF create_keeps]

lemma open_fail_keeps: "I s \<Longrightarrow> post (\<lambda>(r, s). I s) (open_fail me ip s)"
  unfolding open_fail_def Let_def by (auto intro!: quiet_rules reads)

lemmas open_fail_rule [quiet_rules] = pairs [OF open_fail_keeps]

lemma made_keeps: "post (\<lambda>(r, s). I s) m \<Longrightarrow> post (\<lambda>(r, s). I s) (made me m)"
  unfolding made_def by (auto elim!: pairs intro!: quiet_rules split: option.split)

lemma sys_mkdir_keeps: "I s \<Longrightarrow> post (\<lambda>(r, s). I s) (sys_mkdir me s)"
  unfolding sys_mkdir_def by (auto intro!: quiet_rules reads made_keeps create_keeps)

lemmas sys_mkdir_rule [quiet_rules] = pairs [OF sys_mkdir_keeps]

lemma sys_mknod_keeps: "I s \<Longrightarrow> post (\<lambda>(r, s). I s) (sys_mknod me s)"
  unfolding sys_mknod_def by (auto intro!: quiet_rules reads made_keeps create_keeps)

lemmas sys_mknod_rule [quiet_rules] = pairs [OF sys_mknod_keeps]

text \<open>\<^verbatim>\<open>sys_open\<close>, given what its last part does.\<close>

lemma sys_open_reaches:
  assumes "I s" and last: "\<And>ip omode s. I s \<Longrightarrow> post (\<lambda>(r, s). J s) (open_inode me ip omode s)" and J: "\<And>s. I s \<Longrightarrow> J s"
  shows "post (\<lambda>(r, s). J s) (sys_open me s)"
  using assms(1) unfolding sys_open_def by (auto intro!: quiet_rules reads last J split: option.split)

subsection \<open>Loading a program and printing\<close>

lemma loadseg_keeps: "I s \<Longrightarrow> post (\<lambda>(r, s). I s) (loadseg pt va ip offset sz i s)"
proof (induction "unat sz - i" arbitrary: i s rule: less_induct)
  case less
  show ?case
  proof (cases "i < unat sz")
    case True
    then have "unat sz - (i + 4096) < unat sz - i" by simp
    note IH = less.hyps [OF this]
    show ?thesis using True less.prems by (subst loadseg.simps) (auto simp: Let_def intro!: reads IH I_fs I_mem)
  qed (use less.prems in \<open>simp add: loadseg.simps\<close>)
qed

lemmas loadseg_rule [quiet_rules] = pairs [OF loadseg_keeps]

lemma load_segs_keeps: "I s \<Longrightarrow> post (\<lambda>(a, b, s). I s) (load_segs n off ip pt sz s)"
  by (induction n arbitrary: off sz s) (auto intro!: quiet_rules reads)

lemmas load_segs_rule [quiet_rules] = triples [OF load_segs_keeps]

lemma exec_bad_keeps: "I s \<Longrightarrow> post (\<lambda>(r, s). I s) (exec_bad me ip pt sz s)"
  unfolding exec_bad_def Let_def by (auto intro!: quiet_rules reads split: option.split)

lemmas exec_bad_rule [quiet_rules] = pairs [OF exec_bad_keeps]

lemma push_args_keeps: "I s \<Longrightarrow> post (\<lambda>(r, s). I s) (push_args argv us sp base pt s)"
  by (induction argv arbitrary: us sp s) (auto simp: Let_def intro!: quiet_rules split: option.split)

lemmas push_args_rule [quiet_rules] = pairs [OF push_args_keeps]

lemma free_argv_keeps: "I s \<Longrightarrow> post I (free_argv argv s)"
  by (induction argv arbitrary: s) (auto intro!: quiet_rules)

lemmas free_argv_rule [quiet_rules] = plain [OF free_argv_keeps]

lemma fetch_args_keeps: "I s \<Longrightarrow> post (\<lambda>(a, b, s). I s) (fetch_args n me uargv argv s)"
proof (induction n arbitrary: argv s)
  case (Suc n)
  then show ?case by (auto simp: Let_def intro!: quiet_rules reads Suc.IH)
qed simp

lemmas fetch_args_rule [quiet_rules] = triples [OF fetch_args_keeps]

lemma kprintf_keeps: "I s \<Longrightarrow> post (I) (kprintf e fmt args s)"
  by (auto simp: kprintf_def post_def res_simps intro: I_uart)

lemmas kprintf_rule [quiet_rules] = plain [OF kprintf_keeps]

lemma print_args_keeps: "I s \<Longrightarrow> post I (print_args e args s)"
proof (induction args arbitrary: s)
  case (Cons a as)
  then show ?case by (cases as) (auto intro!: quiet_rules Cons.IH)
qed simp

lemmas print_args_rule [quiet_rules] = plain [OF print_args_keeps]

lemma print_trace_keeps: "I s \<Longrightarrow> post (I) (print_trace e me num args s)"
  unfolding print_trace_def Let_def by (auto intro!: quiet_rules reads)

lemmas print_trace_rule [quiet_rules] = plain [OF print_trace_keeps]

end

text \<open>
  Predicates that also ignore a process's fields other than its descriptors and its state, where a process with the
  state of one that does not run (\<open>idle\<close>) may get another such state. The calling process is running.
\<close>

definition idle :: "proc \<Rightarrow> bool" where
  "idle p \<longleftrightarrow> p_state p = UNUSED \<or> p_state p = USED \<or> p_state p = ZOMBIE"

locale quiet_proc = quiet +
  assumes I_proc: "I s \<Longrightarrow> p_ofile (f (procs (ktab s) ! i)) = p_ofile (procs (ktab s) ! i) \<Longrightarrow>
      (idle (f (procs (ktab s) ! i)) \<longrightarrow> idle (procs (ktab s) ! i)) \<Longrightarrow>
      (i = me \<longrightarrow> p_state (f (procs (ktab s) ! i)) = RUNNING) \<Longrightarrow> I (upd_cur i f s)"
    and I_running: "I s \<Longrightarrow> p_state (procs (ktab s) ! me) = RUNNING"
    and I_tab: "I s \<Longrightarrow> procs t = procs (ktab s) \<Longrightarrow> I (s\<lparr>ktab := t\<rparr>)"
begin

lemma not_idle_me: "I s \<Longrightarrow> idle (procs (ktab s) ! i) \<Longrightarrow> i \<noteq> me"
  by (auto simp: idle_def dest: I_running)

lemma upd_same [quiet_rules]:
  "I s \<Longrightarrow> (\<And>p. p_ofile (f p) = p_ofile p) \<Longrightarrow> (\<And>p. p_state (f p) = p_state p) \<Longrightarrow> I (upd_cur i f s)"
  by (rule I_proc) (auto simp: idle_def I_running)

lemma freeproc_keeps: "I s \<Longrightarrow> idle (procs (ktab s) ! i) \<Longrightarrow> post I (freeproc i s)"
  using not_idle_me [of s i]
  by (auto simp: freeproc_def kdo_def Let_def post_def res_simps split: if_splits intro!: I_proc I_mem) (simp_all add: freed_proc_def)

lemma sys_chdir_keeps: "I s \<Longrightarrow> post (\<lambda>(r, s). I s) (sys_chdir me s)"
  unfolding sys_chdir_def Let_def by (auto intro!: quiet_rules reads split: option.split)

lemmas sys_chdir_rule [quiet_rules] = pairs [OF sys_chdir_keeps]

lemma growproc_keeps: "I s \<Longrightarrow> post (\<lambda>(r, s). I s) (growproc me n s)"
  unfolding growproc_def Let_def by (auto intro!: quiet_rules reads)

lemmas growproc_rule [quiet_rules] = pairs [OF growproc_keeps]

lemma sys_sbrk_keeps: "I s \<Longrightarrow> post (\<lambda>(r, s). I s) (sys_sbrk me s)"
  unfolding sys_sbrk_def Let_def by (auto intro!: quiet_rules reads)

lemmas sys_sbrk_rule [quiet_rules] = pairs [OF sys_sbrk_keeps]

lemma sys_sleep_keeps: "I s \<Longrightarrow> post (\<lambda>(r, s). I s) (sys_sleep me s)"
  unfolding sys_sleep_def sleep_loop_def by (auto intro!: reads)

lemmas sys_sleep_rule [quiet_rules] = pairs [OF sys_sleep_keeps]

lemma kill_keeps: "I s \<Longrightarrow> I (s\<lparr>ktab := snd (kill pid (ktab s))\<rparr>)"
  using I_running [of s]
  by (auto simp: kill_def kill_entry_def Let_def upd_cur_def [symmetric] idle_def split: option.split if_splits intro!: I_proc)

lemma sys_kill_keeps: "I s \<Longrightarrow> post (\<lambda>(r, s). I s) (sys_kill me s)"
  using kill_keeps [of s] unfolding sys_kill_def by (auto intro!: reads split: prod.split) (metis snd_conv)

lemmas sys_kill_rule [quiet_rules] = pairs [OF sys_kill_keeps]

lemma sys_trace_keeps: "I s \<Longrightarrow> post (\<lambda>(r, s). I s) (sys_trace me s)"
  unfolding sys_trace_def Let_def by (auto intro!: quiet_rules reads)

lemmas sys_trace_rule [quiet_rules] = pairs [OF sys_trace_keeps]

lemma sys_sigalarm_keeps: "I s \<Longrightarrow> post (\<lambda>(r, s). I s) (sys_sigalarm me s)"
  unfolding sys_sigalarm_def Let_def by (auto intro!: quiet_rules reads)

lemmas sys_sigalarm_rule [quiet_rules] = pairs [OF sys_sigalarm_keeps]

lemma sys_sigreturn_keeps: "I s \<Longrightarrow> post (\<lambda>(r, s). I s) (sys_sigreturn me s)"
  unfolding sys_sigreturn_def Let_def by (auto intro!: quiet_rules reads)

lemmas sys_sigreturn_rule [quiet_rules] = pairs [OF sys_sigreturn_keeps]

lemma sys_settickets_keeps: "I s \<Longrightarrow> post (\<lambda>(r, s). I s) (sys_settickets me s)"
  unfolding sys_settickets_def Let_def by (auto intro!: quiet_rules reads)

lemmas sys_settickets_rule [quiet_rules] = pairs [OF sys_settickets_keeps]

lemma sys_set_priority_keeps: "I s \<Longrightarrow> post (\<lambda>(a, b, s). I s) (sys_set_priority me s)"
  unfolding sys_set_priority_def Let_def by (auto intro!: quiet_rules reads split: option.split)

lemmas sys_set_priority_rule [quiet_rules] = triples [OF sys_set_priority_keeps]

subsection \<open>Programs and processes\<close>

lemma exec_commit_keeps: "I s \<Longrightarrow> post (\<lambda>(r, s). I s) (exec_commit me path start pt sz sp argc s)"
  unfolding exec_commit_def Let_def by (auto simp: set_name_def intro!: quiet_rules)

lemmas exec_commit_rule [quiet_rules] = pairs [OF exec_commit_keeps]

lemma exec_stack_keeps: "I s \<Longrightarrow> post (\<lambda>(r, s). I s) (exec_stack me path argv start pt sz s)"
  unfolding exec_stack_def Let_def by (auto intro!: quiet_rules reads split: option.split)

lemmas exec_stack_rule [quiet_rules] = pairs [OF exec_stack_keeps]

lemma exec_keeps: "I s \<Longrightarrow> post (\<lambda>(r, s). I s) (exec tramp me path argv s)"
  unfolding exec_def Let_def by (auto intro!: quiet_rules reads split: option.split)

lemmas exec_rule [quiet_rules] = pairs [OF exec_keeps]

lemma sys_exec_keeps: "I s \<Longrightarrow> post (\<lambda>(r, s). I s) (sys_exec tramp me s)"
  unfolding sys_exec_def Let_def by (auto intro!: quiet_rules reads)

lemmas sys_exec_rule [quiet_rules] = pairs [OF sys_exec_keeps]

lemma wait_scan_keeps: "I s \<Longrightarrow> post (\<lambda>(a, b, s). I s) (wait_scan is me addr havekids s)"
proof (induction "is" arbitrary: havekids)
  case (Cons i "is")
  have free: "I (s\<lparr>kmem := m\<rparr>) \<Longrightarrow> idle (procs (ktab s) ! i) \<Longrightarrow> post I (freeproc i (s\<lparr>kmem := m\<rparr>))" for m
    using freeproc_keeps [of "s\<lparr>kmem := m\<rparr>" i] by simp
  show ?case
    using Cons freeproc_keeps [of s i] by (auto simp: Let_def kget_def idle_def intro!: reads I_mem plain [OF free] plain [OF freeproc_keeps])
qed simp

lemmas wait_scan_rule [quiet_rules] = triples [OF wait_scan_keeps]

lemma wait_result_keeps: "I s \<Longrightarrow> post (\<lambda>(a, b, s). I s) (wait_result me addr s)"
  unfolding wait_result_def Let_def by (auto intro!: quiet_rules reads split: option.split)

lemmas wait_result_rule [quiet_rules] = triples [OF wait_result_keeps]

lemma sys_wait_keeps: "I s \<Longrightarrow> post (\<lambda>(r, s). I s) (sys_wait me s)"
  unfolding sys_wait_def wait_def by (auto intro!: quiet_rules reads)

lemmas sys_wait_rule [quiet_rules] = pairs [OF sys_wait_keeps]

lemma sys_waitx_keeps: "I s \<Longrightarrow> post (\<lambda>(r, s). I s) (sys_waitx e me s)"
  unfolding sys_waitx_def waitx_def by (auto intro!: quiet_rules reads split: prod.split)

lemmas sys_waitx_rule [quiet_rules] = pairs [OF sys_waitx_keeps]

text \<open>All calls but those that change descriptors: \<^verbatim>\<open>fork\<close>, \<^verbatim>\<open>pipe\<close>, \<^verbatim>\<open>dup\<close>, \<^verbatim>\<open>open\<close> and \<^verbatim>\<open>close\<close>.\<close>

lemma syscalls_keeps: "I s \<Longrightarrow> num \<notin> {1, 4, 10, 15, 21} \<Longrightarrow> post (\<lambda>(r, s). I s) (syscalls e num me s)"
  unfolding syscalls_def sys_getpid_def sys_uptime_def by (intro post_if) (auto intro!: quiet_rules)


text \<open>A process that \<^verbatim>\<open>allocproc\<close> hands out is in use but does not run yet.\<close>

lemma allocproc_keeps:
  assumes "I s"
  shows "post (\<lambda>(r, s'). I s' \<and> (\<forall>i. r = Some i \<longrightarrow> i < length (procs (ktab s')) \<and> p_state (procs (ktab s') ! i) = USED))
    (allocproc tramp ret s)"
proof (cases "find_index (\<lambda>p. p_state p = UNUSED) (procs (ktab s))")
  case (Some i)
  obtain pid t where p: "allocpid (ktab s) = (pid, t)" "procs t = procs (ktab s)" by (simp add: allocpid_def)
  have i: "i < length (procs (ktab s))" "idle (procs (ktab s) ! i)" using Some by (auto simp: find_index_Some idle_def)
  note ne = not_idle_me [OF assms i(2)]
  define s1 where "s1 = upd_cur i (new_proc pid (ticks t)) (s\<lparr>ktab := t\<rparr>)"
  have s1: "I s1" "i < length (procs (ktab s1))" "p_state (procs (ktab s1) ! i) = USED"
    using I_tab [OF assms p(2)] ne i p(2) by (auto simp: s1_def new_proc_def intro!: I_proc)
  let ?P = "\<lambda>s. I s \<and> i < length (procs (ktab s)) \<and> p_state (procs (ktab s) ! i) = USED"
  have get: "?P s \<Longrightarrow> post Q (kget f s)" if "\<And>r s. ?P s \<Longrightarrow> Q (r, s)" for Q f s
    by (auto simp: kget_def post_def res_simps intro!: that I_mem)
  have free: "?P s \<Longrightarrow> post (\<lambda>s. I s) (freeproc i s)" for s by (rule freeproc_keeps) (auto simp: idle_def)
  show ?thesis using s1 Some p
    by (auto simp: allocproc_def Let_def s1_def [symmetric] intro!: get plain [OF free] upd_same)
qed (use assms in \<open>simp add: allocproc_def\<close>)

end

end
