(* ===== verification/Descriptors.thy ===== *)
theory Descriptors
  imports Frame
begin

text \<open>
  The table of open files and the descriptors of the processes. The reference count of an open file is the number of
  descriptors that refer to it, over all processes; a file with references has a type; a process that does not run
  has no descriptors. Inside a system call this is off for a while: \<open>D\<close> is by how much the count of a file exceeds its
  descriptors, \<open>E\<close> are processes exempt from the last condition, and \<open>U\<close> are files that have no type yet.
\<close>

section \<open>The invariant\<close>

definition ofiles :: "ksys \<Rightarrow> nat option list list" where
  "ofiles s = map p_ofile (procs (ktab s))"

definition held :: "nat option list list \<Rightarrow> nat \<Rightarrow> int" where
  "held os f = (\<Sum>l \<leftarrow> os. int (count_list l (Some f)))"

definition fds_ok :: "(nat \<Rightarrow> int) \<Rightarrow> nat set \<Rightarrow> nat set \<Rightarrow> ksys \<Rightarrow> bool" where
  "fds_ok D E U s \<longleftrightarrow>
     length (ftab s) = NFILE \<and> (\<forall>l \<in> set (ofiles s). length l = NOFILE \<and> (\<forall>f. Some f \<in> set l \<longrightarrow> f < NFILE)) \<and>
     (\<forall>i < length (ofiles s). i \<notin> E \<longrightarrow> idle (procs (ktab s) ! i) \<longrightarrow> set (ofiles s ! i) \<subseteq> {None}) \<and>
     (\<forall>f < NFILE. f_ref (ftab s ! f) = held (ofiles s) f + D f) \<and>
     (\<forall>f < NFILE. f_ref (ftab s ! f) > 0 \<longrightarrow> f_type (ftab s ! f) \<noteq> FD_NONE \<or> f \<in> U)"

definition running :: "nat \<Rightarrow> ksys \<Rightarrow> bool" where
  "running me s \<longleftrightarrow> me < length (procs (ktab s)) \<and> p_state (procs (ktab s) ! me) = RUNNING"

text \<open>The invariant during a call of process \<open>me\<close>, with \<open>os\<close> the descriptors of all processes.\<close>

definition desc :: "(nat \<Rightarrow> int) \<Rightarrow> nat set \<Rightarrow> nat set \<Rightarrow> nat \<Rightarrow> nat option list list \<Rightarrow> ksys \<Rightarrow> bool" where
  "desc D E U me os s \<longleftrightarrow> fds_ok D E U s \<and> running me s \<and> ofiles s = os"

section \<open>What keeps it\<close>

lemma fds_ok_tab:
  assumes "fds_ok D E U s" "map p_ofile (procs t) = ofiles s"
    and "\<And>i. i < length (ofiles s) \<Longrightarrow> idle (procs t ! i) \<Longrightarrow> idle (procs (ktab s) ! i) \<or> set (ofiles s ! i) \<subseteq> {None}"
  shows "fds_ok D E U (s\<lparr>ktab := t\<rparr>)"
proof -
  have "ofiles (s\<lparr>ktab := t\<rparr>) = ofiles s" using assms(2) by (simp add: ofiles_def)
  then show ?thesis using assms(1,3) unfolding fds_ok_def by simp blast
qed

lemma procs_wakeup: "map p_ofile (procs (wakeup me ch (ktab s))) = ofiles s"
  by (rule nth_equalityI) (auto simp: wakeup_def wake_entry_def ofiles_def)

lemma length_ofiles [simp]: "length (ofiles s) = length (procs (ktab s))"
  by (simp add: ofiles_def)

lemma upd_file_sel [simp]:
  "ktab (upd_file i f s) = ktab s" "ofiles (upd_file i f s) = ofiles s"
  "ftab (upd_file i f s) = (ftab s)[i := f (ftab s ! i)]"
  by (auto simp: upd_file_def ofiles_def)

lemma idle_wakeup: "i < length (procs t) \<Longrightarrow> idle (procs (wakeup me ch t) ! i) = idle (procs t ! i)"
  by (auto simp: wakeup_def wake_entry_def idle_def)

lemma desc_tab:
  assumes "desc D E U me os s" "map p_ofile (procs t) = os" "p_state (procs t ! me) = RUNNING"
    and "\<And>i. i < length os \<Longrightarrow> idle (procs t ! i) \<Longrightarrow> idle (procs (ktab s) ! i)"
  shows "desc D E U me os (s\<lparr>ktab := t\<rparr>)"
proof -
  have s: "fds_ok D E U s" "running me s" "ofiles s = os" using assms(1) by (simp_all add: desc_def)
  have "fds_ok D E U (s\<lparr>ktab := t\<rparr>)" by (rule fds_ok_tab [OF s(1)]) (use assms s(3) in auto)
  moreover have "length (procs t) = length (procs (ktab s))"
    using arg_cong [OF assms(2), of length] arg_cong [OF s(3), of length] by simp
  ultimately show ?thesis using assms(2,3) s(2) by (simp add: desc_def running_def ofiles_def)
qed

lemma desc_cong:
  assumes "desc D E U me os s" "ktab s' = ktab s" "ftab s' = ftab s"
  shows "desc D E U me os s'"
proof -
  have o: "ofiles s' = ofiles s" using assms(2) by (simp add: ofiles_def)
  show ?thesis using assms(1) unfolding desc_def fds_ok_def running_def assms(2,3) o .
qed

lemma desc_upd:
  assumes d: "desc D E U me os s" and f: "p_ofile (f (procs (ktab s) ! i)) = p_ofile (procs (ktab s) ! i)"
    "idle (f (procs (ktab s) ! i)) \<longrightarrow> idle (procs (ktab s) ! i)" "i = me \<longrightarrow> p_state (f (procs (ktab s) ! i)) = RUNNING"
  shows "desc D E U me os (upd_cur i f s)"
  unfolding upd_cur_def
proof (rule desc_tab [OF d])
  have os: "ofiles s = os" "me < length (procs (ktab s))" "p_state (procs (ktab s) ! me) = RUNNING"
    using d by (simp_all add: desc_def running_def)
  show "map p_ofile (procs (set_proc i f (ktab s))) = os"
    unfolding os(1) [symmetric] using f(1) by (intro nth_equalityI) (auto simp: set_proc_def ofiles_def nth_upd)
  show "p_state (procs (set_proc i f (ktab s)) ! me) = RUNNING" using os(2,3) f(3) by (simp add: set_proc_def nth_upd)
  show "idle (procs (ktab s) ! j)" if "j < length os" "idle (procs (set_proc i f (ktab s)) ! j)" for j
    using that f(2) unfolding os(1) [symmetric] by (auto simp: set_proc_def nth_upd split: if_splits)
qed

interpretation descriptors: quiet_proc "desc D E U me os" me for D E U me os
proof
  show "desc D E U me os s \<Longrightarrow> desc D E U me os (upd_file i (\<lambda>f. f\<lparr>f_off := f_off f + d\<rparr>) s)" for s i d
    by (auto simp: desc_def running_def nth_upd fds_ok_def)
  show "desc D E U me os (s\<lparr>ktab := wakeup (Some me) ch (ktab s)\<rparr>)" if d: "desc D E U me os s" for s ch
  proof (rule desc_tab [OF d])
    have os: "ofiles s = os" "me < length (procs (ktab s))" "p_state (procs (ktab s) ! me) = RUNNING"
      using d by (simp_all add: desc_def running_def)
    show "map p_ofile (procs (wakeup (Some me) ch (ktab s))) = os" using os(1) procs_wakeup by simp
    show "p_state (procs (wakeup (Some me) ch (ktab s)) ! me) = RUNNING" using os(2,3) by (simp add: wakeup_def)
    show "idle (procs (ktab s) ! i)" if "i < length os" "idle (procs (wakeup (Some me) ch (ktab s)) ! i)" for i
      using that idle_wakeup unfolding os(1) [symmetric] by simp
  qed
  show "desc D E U me os s \<Longrightarrow> procs t = procs (ktab s) \<Longrightarrow> desc D E U me os (s\<lparr>ktab := t\<rparr>)" for s t
    by (rule desc_tab) (auto simp: desc_def running_def ofiles_def)
  show "desc D E U me os s \<Longrightarrow> p_state (procs (ktab s) ! me) = RUNNING" for s by (simp add: desc_def running_def)
  show "desc D E U me os (upd_cur i f s)" if "desc D E U me os s" "p_ofile (f (procs (ktab s) ! i)) = p_ofile (procs (ktab s) ! i)"
      "idle (f (procs (ktab s) ! i)) \<longrightarrow> idle (procs (ktab s) ! i)" "i = me \<longrightarrow> p_state (f (procs (ktab s) ! i)) = RUNNING" for s i f
    using that by (rule desc_upd)
  show "desc D E U me os (s\<lparr>kfs := x\<rparr>)" if "desc D E U me os s" for s x using that by (rule desc_cong) simp_all
  show "desc D E U me os (s\<lparr>kmem := x\<rparr>)" if "desc D E U me os s" for s x using that by (rule desc_cong) simp_all
  show "desc D E U me os (s\<lparr>kpipes := x\<rparr>)" if "desc D E U me os s" for s x using that by (rule desc_cong) simp_all
  show "desc D E U me os (s\<lparr>kcons := x\<rparr>)" if "desc D E U me os s" for s x using that by (rule desc_cong) simp_all
  show "desc D E U me os (s\<lparr>kuart := x\<rparr>)" if "desc D E U me os s" for s x using that by (rule desc_cong) simp_all
qed

section \<open>Allocating, duplicating and closing\<close>

lemma sum_list_update_int: "i < length xs \<Longrightarrow> (\<Sum>x \<leftarrow> xs[i := y]. g x) = (\<Sum>x \<leftarrow> xs. g x) - g (xs ! i) + (g y :: int)"
  by (induction xs arbitrary: i) (auto split: nat.split)

lemma count_list_update:
  "i < length xs \<Longrightarrow> int (count_list (xs[i := y]) z) = int (count_list xs z) - (if xs ! i = z then 1 else 0) + (if y = z then 1 else 0)"
proof (induction xs arbitrary: i)
  case (Cons x xs)
  show ?case
  proof (cases i)
    case (Suc j)
    then show ?thesis using Cons.IH [of j] Cons.prems by (auto split: if_splits)
  qed simp
qed simp

lemma held_update:
  "i < length os \<Longrightarrow> fd < length (os ! i) \<Longrightarrow> held (os[i := (os ! i)[fd := v]]) f =
     held os f - (if os ! i ! fd = Some f then 1 else 0) + (if v = Some f then 1 else 0)"
  by (simp add: held_def sum_list_update_int count_list_update)

lemma desc_lengths: "desc D E U me os s \<Longrightarrow> i < length os \<Longrightarrow> length (os ! i) = NOFILE"
  by (auto simp: desc_def fds_ok_def)

lemma desc_me: "desc D E U me os s \<Longrightarrow> me < length os" "desc D E U me os s \<Longrightarrow> \<not> idle (procs (ktab s) ! me)"
  by (auto simp: desc_def running_def idle_def)

lemma desc_range:
  assumes "desc D E U me os s" "i < length os" "fd < NOFILE" "os ! i ! fd = Some f"
  shows "f < NFILE"
proof -
  have "Some f \<in> set (os ! i)" using nth_mem [of fd "os ! i"] assms(3,4) desc_lengths [OF assms(1,2)] by simp
  then show ?thesis using assms(1) nth_mem [OF assms(2)] unfolding desc_def fds_ok_def by blast
qed

lemma desc_ref: "desc D E U me os s \<Longrightarrow> f < NFILE \<Longrightarrow> f_ref (ftab s ! f) = held os f + D f"
  by (auto simp: desc_def fds_ok_def)

lemma ofiles_set_ofile: "ofiles (set_ofile i fd v s) = (ofiles s)[i := (ofiles s ! i)[fd := v]]"
  by (cases "i < length (procs (ktab s))") (simp_all add: set_ofile_def ofiles_def map_update list_update_beyond)

lemma set_ofile_desc:
  assumes d: "desc D E U me os s" and i: "i < length os" "fd < NOFILE"
    and v: "\<And>f. v = Some f \<Longrightarrow> f < NFILE \<and> (i \<in> E \<or> \<not> idle (procs (ktab s) ! i))"
    and D: "\<And>f. D' f = D f + (if os ! i ! fd = Some f then 1 else 0) - (if v = Some f then 1 else 0)"
  shows "desc D' E U me (os[i := (os ! i)[fd := v]]) (set_ofile i fd v s)"
proof -
  let ?s = "set_ofile i fd v s" and ?os = "os[i := (os ! i)[fd := v]]"
  have os: "ofiles s = os" and len: "length os = length (procs (ktab s))" and ok: "fds_ok D E U s" and run: "running me s"
    using d length_ofiles [of s] by (simp_all add: desc_def)
  have os': "ofiles ?s = ?os" by (simp add: ofiles_set_ofile os)
  have fd: "fd < length (os ! i)" using desc_lengths [OF d i(1)] i(2) by simp
  have st: "p_state (procs (ktab ?s) ! j) = p_state (procs (ktab s) ! j)" if "j < length os" for j
    using that len by (simp add: set_ofile_def nth_upd)
  have ft: "ftab ?s = ftab s" by (simp add: set_ofile_def)
  have "length l = NOFILE \<and> (\<forall>f. Some f \<in> set l \<longrightarrow> f < NFILE)" if "l \<in> set ?os" for l
  proof -
    from that consider "l \<in> set os" | "l = (os ! i)[fd := v]" using set_update_subset_insert [of os i] by blast
    then show ?thesis
    proof cases
      case 2
      have "length (os ! i) = NOFILE \<and> (\<forall>f. Some f \<in> set (os ! i) \<longrightarrow> f < NFILE)"
        using ok nth_mem [OF i(1)] os unfolding fds_ok_def by blast
      then show ?thesis using 2 v set_update_subset_insert [of "os ! i" fd v] by auto
    qed (use ok os in \<open>auto simp: fds_ok_def\<close>)
  qed
  moreover have "set (?os ! j) \<subseteq> {None}" if j: "j < length ?os" "j \<notin> E" "idle (procs (ktab ?s) ! j)" for j
  proof -
    have "idle (procs (ktab s) ! j)" using j st by (simp add: idle_def)
    then have "set (os ! j) \<subseteq> {None}" using ok j len unfolding fds_ok_def os by simp
    moreover have "v = None" if "j = i" using v that j(2) \<open>idle (procs (ktab s) ! j)\<close> by (cases v) auto
    ultimately show ?thesis using j(1) set_update_subset_insert [of "os ! i" fd v] by (auto simp: nth_upd)
  qed
  moreover have "f_ref (ftab s ! f) = held ?os f + D' f" if "f < NFILE" for f
    using ok that os held_update [OF i(1) fd, of v f] D [of f] by (simp add: fds_ok_def)
  ultimately have "fds_ok D' E U ?s" using ok unfolding fds_ok_def os' ft by simp
  moreover have "running me ?s" using run st [of me] len by (simp add: running_def set_ofile_def)
  ultimately show ?thesis by (simp add: desc_def os')
qed

lemma upd_file_desc:
  assumes d: "desc D E U me os s" and i: "i < NFILE"
    and D: "D' = D(i := D i + f_ref (g (ftab s ! i)) - f_ref (ftab s ! i))"
    and U: "U - {i} \<subseteq> U'" "f_ref (g (ftab s ! i)) > 0 \<longrightarrow> f_type (g (ftab s ! i)) \<noteq> FD_NONE \<or> i \<in> U'"
  shows "desc D' E U' me os (upd_file i g s)"
proof -
  have ok: "fds_ok D E U s" "running me s" "ofiles s = os" using d by (simp_all add: desc_def)
  then have "length (ftab s) = NFILE" by (simp add: fds_ok_def)
  then have n: "ftab (upd_file i g s) ! f = (if i = f then g (ftab s ! f) else ftab s ! f)" if "f < NFILE" for f
    using that by (auto simp: nth_upd)
  have "length (ftab (upd_file i g s)) = NFILE" using ok(1) by (simp add: fds_ok_def)
  then have "fds_ok D' E U' (upd_file i g s)"
    using ok(1) U i unfolding fds_ok_def D by (auto simp: n simp del: upd_file_sel(3))
  then show ?thesis using ok by (simp add: desc_def running_def)
qed

lemma filealloc_desc:
  assumes "desc D E U me os s" "filealloc s = (Some i, s')"
  shows "i < NFILE" "desc (D(i := D i + 1)) E (insert i U) me os s'" "held os i + D i = 0"
proof -
  have *: "i < length (ftab s)" "f_ref (ftab s ! i) = 0" "s' = upd_file i (\<lambda>f. f\<lparr>f_ref := 1\<rparr>) s"
    using assms(2) by (auto simp: filealloc_def find_index_Some split: option.splits)
  moreover have "length (ftab s) = NFILE" using assms(1) by (simp add: desc_def fds_ok_def)
  ultimately show i: "i < NFILE" by simp
  show "desc (D(i := D i + 1)) E (insert i U) me os s'"
    unfolding *(3) by (rule upd_file_desc [OF assms(1) i]) (auto simp: *)
  show "held os i + D i = 0" using desc_ref [OF assms(1) i] * by simp
qed

lemma desc_typed: "desc D E U me os s \<Longrightarrow> f < NFILE \<Longrightarrow> f_ref (ftab s ! f) > 0 \<Longrightarrow> f_type (ftab s ! f) = FD_NONE \<Longrightarrow> f \<in> U"
  by (auto simp: desc_def fds_ok_def)

lemma filedup_desc: "desc D E U me os s \<Longrightarrow> f < NFILE \<Longrightarrow> post (\<lambda>(i, s). i = f \<and> desc (D(f := D f + 1)) E U me os s) (filedup f s)"
  by (auto simp: filedup_def intro!: upd_file_desc dest: desc_typed)

text \<open>Closing takes one reference away; a file without references needs no type.\<close>

lemma desc_drop:
  assumes d: "desc D E U me os s" and z: "\<And>f. f \<in> U \<Longrightarrow> f \<notin> U' \<Longrightarrow> held os f + D f = 0"
  shows "desc D E U' me os s"
proof -
  have "f \<in> U'" if "f < NFILE" "0 < f_ref (ftab s ! f)" "f_type (ftab s ! f) = FD_NONE" for f
    using desc_typed [OF d that] z [of f] desc_ref [OF d that(1)] that(2) by auto
  then show ?thesis using d by (auto simp: desc_def fds_ok_def)
qed

lemma fileclose_desc:
  assumes d: "desc D E U me os s" and f: "f < NFILE"
  shows "post (desc (D(f := D f - 1)) E U me os) (fileclose me f s)"
proof (cases "f_ref (ftab s ! f) < 1")
  case False
  let ?D = "D(f := D f - 1)" and ?s = "upd_file f (\<lambda>f. f\<lparr>f_ref := f_ref f - 1\<rparr>) s"
  let ?t = "upd_file f (\<lambda>f. f\<lparr>f_ref := 0, f_type := FD_NONE\<rparr>) ?s"
  have len: "length (ftab s) = NFILE" and ty: "f_type (ftab s ! f) \<noteq> FD_NONE \<or> f \<in> U"
    using d f False by (auto simp: desc_def fds_ok_def)
  have s: "desc ?D E U me os ?s" by (rule upd_file_desc [OF d f]) (use ty in auto)
  have t: "desc ?D E U me os ?t" if "f_ref (ftab ?s ! f) \<le> 0"
    by (rule upd_file_desc [OF s f]) (use that False len f in \<open>auto simp: fun_eq_iff\<close>)
  show ?thesis
    using False s t unfolding fileclose_def Let_def
    by (auto intro!: quiet_rules split: fdtype.split)
qed (simp add: fileclose_def)

lemma cur_ofile: "desc D E U me os s \<Longrightarrow> i < length os \<Longrightarrow> p_ofile (procs (ktab s) ! i) = os ! i"
  by (auto simp: desc_def ofiles_def)

lemma fdalloc_desc:
  assumes d: "desc D E U me os s" and f: "f < NFILE" and a: "fdalloc me f s = (fd, s')"
  shows "fd < 0 \<Longrightarrow> s' = s"
    "fd \<ge> 0 \<Longrightarrow> nat fd < NOFILE \<and> os ! me ! nat fd = None \<and> s' = set_ofile me (nat fd) (Some f) s \<and>
       desc (D(f := D f - 1)) E U me (os[me := (os ! me)[nat fd := Some f]]) s'"
proof -
  have o: "p_ofile (cur me s) = os ! me" "length (os ! me) = NOFILE"
    using cur_ofile [OF d desc_me(1) [OF d]] desc_lengths [OF d desc_me(1) [OF d]] by (simp_all add: cur_def)
  show "fd < 0 \<Longrightarrow> s' = s" using a by (auto simp: fdalloc_def split: option.splits)
  assume "fd \<ge> 0"
  then obtain k where k: "fd = int k" "k < NOFILE" "os ! me ! k = None" "s' = set_ofile me k (Some f) s"
    using a o by (auto simp: fdalloc_def find_index_Some split: option.splits)
  have "desc (D(f := D f - 1)) E U me (os[me := (os ! me)[k := Some f]]) s'"
    unfolding k(4) by (rule set_ofile_desc [OF d desc_me(1) [OF d] k(2)]) (use f k(3) desc_me(2) [OF d] in auto)
  then show "nat fd < NOFILE \<and> os ! me ! nat fd = None \<and> s' = set_ofile me (nat fd) (Some f) s \<and>
       desc (D(f := D f - 1)) E U me (os[me := (os ! me)[nat fd := Some f]]) s'" using k by simp
qed

lemma argfd_desc:
  assumes d: "desc D E U me os s"
  shows "post (\<lambda>a. \<forall>fd f. a = Some (fd, f) \<longrightarrow> fd < NOFILE \<and> os ! me ! fd = Some f \<and> f < NFILE) (argfd me n s)"
  using cur_ofile [OF d desc_me(1) [OF d]]
  by (auto simp: argfd_def cur_def post_def res_simps split: if_splits option.splits intro!: desc_range [OF d desc_me(1) [OF d], of "nat _"])

section \<open>System calls on descriptors\<close>

definition sound :: "nat \<Rightarrow> ksys \<Rightarrow> bool" where
  "sound me s \<longleftrightarrow> fds_ok (\<lambda>_. 0) {} {} s \<and> running me s"

lemma soundI: "desc D {} {} me os s \<Longrightarrow> (\<And>f. D f = 0) \<Longrightarrow> sound me s"
  using ext [of D "\<lambda>_. 0"] by (simp add: desc_def sound_def)

lemma soundE: "sound me s \<Longrightarrow> (\<And>os. desc (\<lambda>_. 0) {} {} me os s \<Longrightarrow> P) \<Longrightarrow> P"
  by (simp add: desc_def sound_def)

lemma sys_dup_sound:
  assumes "sound me s"
  shows "post (\<lambda>(r, s). sound me s) (sys_dup me s)"
  using assms
proof (rule soundE)
  fix os
  assume d: "desc (\<lambda>_. 0) {} {} me os s"
  have "post (\<lambda>(r, s). sound me s) (case fdalloc me f s of (fd, s) \<Rightarrow> if fd < 0 then Ok (-1, s) else rbind (filedup f s) (\<lambda>(_, s). Ok (fd, s)))"
    if f: "f < NFILE" for f
  proof (cases "fdalloc me f s")
    case (Pair fd t)
    note F = fdalloc_desc [OF d f Pair]
    show ?thesis
    proof (cases "fd < 0")
      case False
      from filedup_desc [OF F(2) [THEN conjunct2, THEN conjunct2, THEN conjunct2] f] False
      show ?thesis using Pair by (auto elim!: post_mono intro!: soundI)
    qed (use F(1) Pair assms in simp)
  qed
  then show "post (\<lambda>(r, s). sound me s) (sys_dup me s)"
    unfolding sys_dup_def by (auto intro!: post_mono [OF argfd_desc [OF d]] simp: assms split: option.split)
qed

lemma sys_close_sound:
  assumes "sound me s"
  shows "post (\<lambda>(r, s). sound me s) (sys_close me s)"
  using assms
proof (rule soundE)
  fix os
  assume d: "desc (\<lambda>_. 0) {} {} me os s"
  have "post (sound me) (fileclose me f (set_ofile me fd None s))" if "fd < NOFILE" "os ! me ! fd = Some f" "f < NFILE" for fd f
  proof -
    have "desc ((\<lambda>_. 0)(f := 1)) {} {} me (os[me := (os ! me)[fd := None]]) (set_ofile me fd None s)"
      by (rule set_ofile_desc [OF d desc_me(1) [OF d]]) (use that in auto)
    from fileclose_desc [OF this that(3)] show ?thesis by (rule post_mono) (auto intro: soundI)
  qed
  then show "post (\<lambda>(r, s). sound me s) (sys_close me s)"
    unfolding sys_close_def by (auto intro!: post_mono [OF argfd_desc [OF d]] simp: assms split: option.split)
qed

text \<open>Opening: the new file gets its type right after its descriptor.\<close>

lemma upd_file_set_ofile: "upd_file f g (set_ofile me fd v s) = set_ofile me fd v (upd_file f g s)"
  by (simp add: upd_file_def set_ofile_def upd_cur_def)

lemma open_finish_sound:
  assumes d: "desc ((\<lambda>_. 0)(f := 1)) {} {f} me os s" and f: "f < NFILE" and a: "fdalloc me f s = (fd, t)" "fd \<ge> 0"
  shows "post (\<lambda>(r, s). sound me s) (open_finish me ip omode f fd t)"
proof -
  let ?D = "(\<lambda>_. 0)(f := 1)"
  have *: "desc ((\<lambda>_. 0)(f := 0)) {} {} me (os[me := (os ! me)[nat fd := Some f]]) (upd_file f h (upd_file f g t))"
    if "\<And>x. f_ref (g x) = f_ref x" "\<And>x. f_ref (h x) = f_ref x" "\<And>x. f_type (h (g x)) \<noteq> FD_NONE" for g h
  proof -
    note F = fdalloc_desc(2) [OF d f a(1)]
    have len: "length (ftab s) = NFILE" using d by (simp add: desc_def fds_ok_def)
    have t: "t = set_ofile me (nat fd) (Some f) s" "nat fd < NOFILE" "os ! me ! nat fd = None" using F a(2) by auto
    have "desc ?D {} {f} me os (upd_file f g s)" by (rule upd_file_desc [OF d f]) (auto simp: that)
    then have "desc ?D {} {} me os (upd_file f h (upd_file f g s))"
      by (rule upd_file_desc [OF _ f]) (use that f len in auto)
    note S = set_ofile_desc [OF this desc_me(1) [OF d] t(2), of "Some f"]
    show ?thesis unfolding t(1) upd_file_set_ofile
      by (rule S) (use f t(3) desc_me(2) [OF d] in auto)
  qed
  have rest: "desc ((\<lambda>_. 0)(f := 0)) {} {} me os' s' \<Longrightarrow> post (\<lambda>(r, s). sound me s)
      (rbind (if P then fs_do (itrunc ip) s' else Ok s') (\<lambda>s. rbind (kiunlock me ip s) (op_return me fd)))" for P s' os'
    by (auto intro!: quiet_rules soundI)
  show ?thesis unfolding open_finish_def Let_def by (rule rest, rule *) auto
qed

lemma open_inode_sound:
  assumes "sound me s"
  shows "post (\<lambda>(r, s). sound me s) (open_inode me ip omode s)"
  using assms
proof (rule soundE)
  fix os
  assume d: "desc (\<lambda>_. 0) {} {} me os s"
  have fail: "post (\<lambda>(r, s). sound me s) (open_fail me ip s')" if "desc D {} {} me os s'" "\<And>f. D f = 0" for s' D
    using that(1) by (rule descriptors.open_fail_rule) (use that(2) in \<open>auto intro: soundI\<close>)
  show ?thesis
  proof (cases "filealloc s")
    case (Pair r t)
    show ?thesis
    proof (cases r)
      case None
      then have "t = s" using Pair by (auto simp: filealloc_def split: option.splits)
      then show ?thesis using None Pair fail [OF d] by (simp add: open_inode_def)
    next
      case (Some f)
      note F = filealloc_desc [OF d Pair [unfolded Some]]
      obtain fd u where a: "fdalloc me f t = (fd, u)" by (cases "fdalloc me f t")
      have t: "desc ((\<lambda>_. 0)(f := 1)) {} {f} me os t" using F(2) by (simp add: fun_upd_def)
      show ?thesis
      proof (cases "fd < 0")
        case True
        have "post (desc ((\<lambda>_. 0)(f := 0)) {} {f} me os) (fileclose me f u)"
          using fileclose_desc [OF t F(1)] fdalloc_desc(1) [OF t F(1) a True] by simp
        then have "post (desc ((\<lambda>_. 0)(f := 0)) {} {} me os) (fileclose me f u)"
          by (rule post_mono) (use F(3) in \<open>auto intro: desc_drop\<close>)
        then have "post (\<lambda>(r, s). sound me s) (rbind (fileclose me f u) (open_fail me ip))"
          unfolding post_bind by (rule post_mono) (auto intro: fail)
        then show ?thesis using Pair Some a True fail [OF d] by (simp add: open_inode_def)
      qed (use Pair Some a fail [OF d] open_finish_sound [OF t F(1) a] in \<open>simp add: open_inode_def\<close>)
    qed
  qed
qed

lemma sound_rule: "desc (\<lambda>_. 0) {} {} me os s \<Longrightarrow> sound me s"
  by (rule soundI) simp_all

lemma sys_open_sound:
  assumes "sound me s"
  shows "post (\<lambda>(r, s). sound me s) (sys_open me s)"
  using assms
proof (rule soundE)
  fix os
  assume "desc (\<lambda>_. 0) {} {} me os s"
  then show ?thesis by (rule descriptors.sys_open_reaches) (auto intro: open_inode_sound sound_rule)
qed

subsection \<open>Pipes\<close>

lemma close_two:
  assumes "desc ((\<lambda>_. 0)(f := 1, g := 1)) {} U me os s" "f < NFILE" "g < NFILE" "f \<noteq> g"
    and "U \<subseteq> {f, g}" "f \<in> U \<longrightarrow> held os f = 0" "g \<in> U \<longrightarrow> held os g = 0"
  shows "post (desc (\<lambda>_. 0) {} {} me os) (rbind (fileclose me f s) (fileclose me g))"
proof -
  have u: "((\<lambda>_. 0)(f := 1, g := 1))(f := 1 - 1) = ((\<lambda>_. 0 :: int)(g := 1))" "((\<lambda>_. 0)(g := 1))(g := 1 - 1) = (\<lambda>_. 0 :: int)"
    using assms(4) by (auto simp: fun_eq_iff)
  have second: "post (desc (\<lambda>_. 0) {} {} me os) (fileclose me g t)" if "desc ((\<lambda>_. 0)(g := 1)) {} U me os t" for t
  proof (rule post_mono)
    show "post (desc (\<lambda>_. 0) {} U me os) (fileclose me g t)" using fileclose_desc [OF that assms(3)] by (simp add: u(2) [simplified])
    show "desc (\<lambda>_. 0) {} U me os x \<Longrightarrow> desc (\<lambda>_. 0) {} {} me os x" for x by (rule desc_drop) (use assms(5-7) in auto)
  qed
  have "post (desc ((\<lambda>_. 0)(g := 1)) {} U me os) (fileclose me f s)"
    using fileclose_desc [OF assms(1,2)] assms(4) by (simp add: u(1) [simplified])
  then show ?thesis unfolding post_bind by (rule post_mono) (rule second)
qed

lemma pipealloc_desc:
  assumes d: "desc (\<lambda>_. 0) {} {} me os s"
  shows "post (\<lambda>(r, s). case r of None \<Rightarrow> desc (\<lambda>_. 0) {} {} me os s
    | Some (f, g) \<Rightarrow> f < NFILE \<and> g < NFILE \<and> f \<noteq> g \<and> desc ((\<lambda>_. 0)(f := 1, g := 1)) {} {} me os s) (pipealloc me s)"
proof -
  obtain r t where a: "filealloc s = (r, t)" by (cases "filealloc s")
  show ?thesis
  proof (cases r)
    case None
    then have "t = s" using a by (auto simp: filealloc_def split: option.splits)
    then show ?thesis using d a None by (simp add: pipealloc_def close_opt_def)
  next
    case (Some f)
    note F = filealloc_desc [OF d a [unfolded Some]]
    obtain r' u where b: "filealloc t = (r', u)" by (cases "filealloc t")
    show ?thesis
    proof (cases r')
      case None
      then have "u = t" using b by (auto simp: filealloc_def split: option.splits)
      have "post (desc ((\<lambda>_. 0)(f := 0)) {} {f} me os) (fileclose me f t)" using fileclose_desc [OF F(2,1)] by simp
      then have "post (desc (\<lambda>_. 0) {} {} me os) (fileclose me f t)"
        by (rule post_mono) (use F(3) in \<open>auto intro: desc_drop simp: fun_upd_def\<close>)
      then show ?thesis using a b Some None \<open>u = t\<close> by (simp add: pipealloc_def close_opt_def)
    next
      case (Some g)
      note G = filealloc_desc [OF F(2) b [unfolded Some]]
      have ne: "f \<noteq> g" using F(3) G(3) by auto
      let ?D = "(\<lambda>_. 0)(f := 1, g := 1)"
      have u: "desc ?D {} {f, g} me os (u\<lparr>kmem := m\<rparr>)" for m
        using G(2) ne by (intro descriptors.I_mem) (simp add: fun_upd_twist insert_commute)
      have close: "post (desc (\<lambda>_. 0) {} {} me os) (rbind (fileclose me f (u\<lparr>kmem := m\<rparr>)) (fileclose me g))" for m
        by (rule close_two [OF u F(1) G(1) ne]) (use F(3) G(3) ne in auto)
      have made: "desc ?D {} {} me os (upd_file g (\<lambda>x. x\<lparr>f_type := FD_PIPE, f_readable := False, f_writable := True, f_pipe := pi\<rparr>)
          (upd_file f (\<lambda>x. x\<lparr>f_type := FD_PIPE, f_readable := True, f_writable := False, f_pipe := pi\<rparr>) (u\<lparr>kmem := m, kpipes := ps\<rparr>)))" for m ps pi
      proof -
        have "desc ?D {} {f, g} me os (u\<lparr>kmem := m, kpipes := ps\<rparr>)" using u by (rule descriptors.I_pipes)
        then have "desc ?D {} {g} me os (upd_file f (\<lambda>x. x\<lparr>f_type := FD_PIPE, f_readable := True, f_writable := False, f_pipe := pi\<rparr>) (u\<lparr>kmem := m, kpipes := ps\<rparr>))"
          by (rule upd_file_desc [OF _ F(1)]) auto
        then show ?thesis by (rule upd_file_desc [OF _ G(1)]) auto
      qed
      have close': "desc (\<lambda>_. 0) {} {} me os y" if "fileclose me f (u\<lparr>kmem := m\<rparr>) = Ok x" "fileclose me g x = Ok y" for m x y
        using postD [OF close [of m], of y] that by simp
      show ?thesis
        using a b \<open>r = Some f\<close> Some made F(1) G(1) ne
        by (auto simp: pipealloc_def close_opt_def post_def res_simps split: if_splits intro: close')
    qed
  qed
qed

text \<open>The rest of \<^verbatim>\<open>sys_pipe\<close>, from the new files on.\<close>

lemma close_both_sound: "post (desc (\<lambda>_. 0) {} {} me os) (rbind (fileclose me f s) (fileclose me g)) \<Longrightarrow> post (\<lambda>(r, s). sound me s) (close_both me f g s)"
  by (auto simp: close_both_def post_def res_simps intro: sound_rule)

lemma undo_fd:
  assumes "desc D E U me (os[me := (os ! me)[k := Some f]]) s" "k < NOFILE" "os ! me ! k = None" "length (os ! me) = NOFILE" "me < length os"
  shows "desc (D(f := D f + 1)) E U me os (set_ofile me k None s)"
proof -
  have "desc (D(f := D f + 1)) E U me ((os[me := (os ! me)[k := Some f]])[me := ((os[me := (os ! me)[k := Some f]]) ! me)[k := None]]) (set_ofile me k None s)"
    by (rule set_ofile_desc [OF assms(1)]) (use assms in auto)
  then show ?thesis using assms(3,4,5) by (metis list_update_id list_update_overwrite nth_list_update_eq)
qed

lemma pipe_fds_sound:
  assumes f: "f < NFILE" "g < NFILE" "f \<noteq> g" and t: "desc ((\<lambda>_. 0)(f := 1, g := 1)) {} {} me os t"
  shows "post (\<lambda>(r, s). sound me s) (pipe_fds me fdarray f g t)"
proof -
  let ?D = "(\<lambda>_. 0 :: int)(f := 1, g := 1)"
  have close: "post (\<lambda>(r, s). sound me s) (close_both me f g u)" if "desc ?D {} {} me os u" for u
    by (rule close_both_sound [OF close_two [OF that f]]) auto
  note len = desc_lengths [OF t desc_me(1) [OF t]] desc_me(1) [OF t]
  obtain fd0 u where a: "fdalloc me f t = (fd0, u)" by (cases "fdalloc me f t")
  obtain fd1 v where b: "fdalloc me g u = (fd1, v)" by (cases "fdalloc me g u")
  note A = fdalloc_desc [OF t f(1) a]
  show ?thesis
  proof (cases "fd0 < 0")
    case True
    then show ?thesis using A(1) a close t by (simp add: pipe_fds_def)
  next
    case False
    let ?os = "os[me := (os ! me)[nat fd0 := Some f]]"
    have u: "desc (?D(f := 0)) {} {} me ?os u" "nat fd0 < NOFILE" "os ! me ! nat fd0 = None" using A(2) False f(3) by auto
    have undo: "post (\<lambda>(r, s). sound me s) (close_both me f g (set_ofile me (nat fd0) None w))" if "desc (?D(f := 0)) {} {} me ?os w" for w
      using undo_fd [OF that u(2,3) len] f(3) by (intro close) (simp add: fun_upd_twist)
    note B = fdalloc_desc [OF u(1) f(2) b]
    show ?thesis
    proof (cases "fd1 < 0")
      case True
      then show ?thesis using B(1) a b False undo u(1) by (simp add: pipe_fds_def)
    next
      case fd1: False
      have "?D(f := 0, g := 0) = (\<lambda>_. 0)" by (auto simp: fun_eq_iff)
      then have v: "desc (\<lambda>_. 0) {} {} me (?os[me := (?os ! me)[nat fd1 := Some g]]) v" "nat fd1 < NOFILE" "?os ! me ! nat fd1 = None"
        using B(2) fd1 f(3) by auto
      have first: "set_ofile me (nat fd1) None (set_ofile me (nat fd0) None w) = set_ofile me (nat fd0) None (set_ofile me (nat fd1) None w)"
        if "me < length (procs (ktab w))" for w
        using that by (simp add: set_ofile_def upd_cur_def set_proc_def list_update_swap) (metis list_update_swap)
      have w: "post (\<lambda>(r, s). sound me s) (close_both me f g (set_ofile me (nat fd1) None (set_ofile me (nat fd0) None w)))"
        if w: "desc (\<lambda>_. 0) {} {} me (?os[me := (?os ! me)[nat fd1 := Some g]]) w" for w
      proof -
        have "desc ((\<lambda>_. 0)(g := 0 + 1)) {} {} me ?os (set_ofile me (nat fd1) None w)"
          by (rule undo_fd [OF w v(2,3)]) (use len in auto)
        moreover have "?D(f := 0) = (\<lambda>_. 0)(g := 0 + 1)" using f(3) by (auto simp: fun_eq_iff)
        moreover have m: "me < length (procs (ktab w))" using w by (simp add: desc_def running_def)
        ultimately show ?thesis unfolding first [OF m] by (intro undo) simp
      qed
      show ?thesis
        using a b False fd1 w [OF descriptors.I_mem [OF v(1)]] w [OF descriptors.I_mem [OF descriptors.I_mem [OF v(1)]]]
          sound_rule [OF descriptors.I_mem [OF descriptors.I_mem [OF v(1)]]]
        by (auto simp: pipe_fds_def pipe_store_def Let_def intro!: reads)
    qed
  qed
qed

lemma sys_pipe_sound:
  assumes "sound me s"
  shows "post (\<lambda>(r, s). sound me s) (sys_pipe me s)"
  using assms
proof (rule soundE)
  fix os
  assume d: "desc (\<lambda>_. 0) {} {} me os s"
  show "post (\<lambda>(r, s). sound me s) (sys_pipe me s)"
    unfolding sys_pipe_def
    by (auto intro!: reads post_mono [OF pipealloc_desc [OF d]] pipe_fds_sound intro: sound_rule split: option.splits)
qed

section \<open>Creating and ending processes\<close>

lemma desc_exempt: "desc D E U me os s \<Longrightarrow> desc D (insert np E) U me os s"
  by (auto simp: desc_def fds_ok_def)

lemma desc_unexempt: "desc D {np} U me os s \<Longrightarrow> \<not> idle (procs (ktab s) ! np) \<Longrightarrow> desc D {} U me os s"
  unfolding desc_def fds_ok_def by blast

lemma fork_files_desc:
  assumes "desc (\<lambda>_. 0) {np} {} me os s" "np < length os" "np \<noteq> me" "set is \<subseteq> {..<NOFILE}" "distinct is" "\<And>j. j \<in> set is \<Longrightarrow> os ! np ! j = None"
  shows "post (\<lambda>s'. \<exists>os'. desc (\<lambda>_. 0) {np} {} me os' s' \<and> length os' = length os) (fork_files is me np s)"
  using assms
proof (induction "is" arbitrary: os s)
  case (Cons i "is")
  note d = Cons.prems(1)
  have i: "i < NOFILE" "os ! np ! i = None" using Cons.prems by auto
  have o: "p_ofile (cur me s) = os ! me" using cur_ofile [OF d desc_me(1) [OF d]] by (simp add: cur_def)
  show ?case
  proof (cases "os ! me ! i")
    case (Some f)
    have f: "f < NFILE" using desc_range [OF d desc_me(1) [OF d] i(1) Some] .
    let ?os = "os[np := (os ! np)[i := Some f]]"
    have "post (\<lambda>s'. \<exists>os'. desc (\<lambda>_. 0) {np} {} me os' s' \<and> length os' = length os) (fork_files is me np (set_ofile np i (Some f) t))"
      if t: "desc ((\<lambda>_. 0)(f := 1)) {np} {} me os t" for t
    proof -
      have "desc (\<lambda>_. 0) {np} {} me ?os (set_ofile np i (Some f) t)"
        by (rule set_ofile_desc [OF t Cons.prems(2) i(1)]) (use f i in auto)
      moreover have "?os ! np ! j = None" if "j \<in> set is" for j
        using that Cons.prems(2,4-6) desc_lengths [OF d Cons.prems(2)] by (auto simp: nth_list_update)
      ultimately show ?thesis using Cons.IH [of ?os] Cons.prems(2-5) by simp
    qed
    then show ?thesis using filedup_desc [OF d f] o Some by (auto simp: elim!: post_mono)
  qed (use Cons o in auto)
qed auto

lemma fork_rest_sound:
  assumes d: "desc (\<lambda>_. 0) {np} {} me os s" and np: "np < length os" "np \<noteq> me"
  shows "sound me (upd_cur np (\<lambda>q. q\<lparr>p_parent := Some me, p_state := RUNNABLE, p_smask := m, p_tickets := k\<rparr>) s)"
proof (rule soundI)
  let ?s = "upd_cur np (\<lambda>q. q\<lparr>p_parent := Some me, p_state := RUNNABLE, p_smask := m, p_tickets := k\<rparr>) s"
  have "desc (\<lambda>_. 0) {np} {} me os ?s" by (rule desc_upd [OF d]) (use np in \<open>auto simp: idle_def\<close>)
  then show "desc (\<lambda>_. 0) {} {} me os ?s"
    using np d length_ofiles [of s] by (intro desc_unexempt) (auto simp: idle_def desc_def)
qed simp

lemma fork_child_sound:
  assumes d: "desc (\<lambda>_. 0) {} {} me os s" and np: "np < length os" "np \<noteq> me" "set (os ! np) \<subseteq> {None}"
  shows "post (\<lambda>(r, s). sound me s) (fork_child me np s)"
proof -
  have e: "desc (\<lambda>_. 0) {np} {} me os s" using desc_exempt [OF d, of np] by simp
  have none: "os ! np ! j = None" if "j < NOFILE" for j
  proof -
    have "os ! np ! j \<in> set (os ! np)" using that desc_lengths [OF d np(1)] by simp
    then show ?thesis using np(3) by blast
  qed
  have files: "post (\<lambda>s'. \<exists>os'. desc (\<lambda>_. 0) {np} {} me os' s' \<and> length os' = length os) (fork_files [0..<NOFILE] me np t)"
    if "desc (\<lambda>_. 0) {np} {} me os t" for t
    by (rule fork_files_desc [OF that np(1,2)]) (auto simp: none)
  have last: "sound me (upd_cur np (\<lambda>q. q\<lparr>p_parent := Some me, p_state := RUNNABLE, p_smask := m, p_tickets := k\<rparr>)
      (upd_cur np (\<lambda>q. set_name n (q\<lparr>p_cwd := c\<rparr>)) (t\<lparr>kfs := x\<rparr>)))"
    if "desc (\<lambda>_. 0) {np} {} me os' t" "length os' = length os" for t os' m k n c x
    by (rule fork_rest_sound [OF descriptors.upd_same [OF descriptors.I_fs [OF that(1)]]]) (use that(2) np in \<open>auto simp: set_name_def\<close>)
  show ?thesis
    unfolding fork_child_def Let_def post_bind
    by (rule post_mono [OF files])
      (auto intro!: descriptors.quiet_updates descriptors.upd_same e split: option.split prod.split intro: last)
qed

lemma fork_sound:
  assumes "sound me s"
  shows "post (\<lambda>(r, s). sound me s) (fork tramp ret me s)"
  using assms
proof (rule soundE)
  fix os
  assume d: "desc (\<lambda>_. 0) {} {} me os s"
  note A = descriptors.allocproc_keeps [OF d, of tramp ret]
  have "post (\<lambda>(r, s). sound me s) (rbind (kget f t) (\<lambda>(r, s).
         if r < 0 then rbind (freeproc np s) (\<lambda>s. Ok (-1, s)) else fork_child me np s))"
    if t: "desc (\<lambda>_. 0) {} {} me os t" "np < length (procs (ktab t))" "p_state (procs (ktab t) ! np) = USED" for np f t
  proof -
    have i: "idle (procs (ktab t) ! np)" using t(3) by (simp add: idle_def)
    have "np < length os" "set (os ! np) \<subseteq> {None}" "np \<noteq> me"
      using t i length_ofiles [of t] desc_me(2) [OF t(1)] by (auto simp: desc_def fds_ok_def)
    then have "post (\<lambda>(r, s). sound me s) (fork_child me np (t\<lparr>kmem := m\<rparr>))" for m
      by (intro fork_child_sound [OF descriptors.I_mem [OF t(1)]])
    moreover have "post (desc (\<lambda>_. 0) {} {} me os) (freeproc np (t\<lparr>kmem := m\<rparr>))" for m
      by (rule descriptors.freeproc_keeps [OF descriptors.I_mem [OF t(1)]]) (simp add: i)
    then have "post (sound me) (freeproc np (t\<lparr>kmem := m\<rparr>))" for m by (rule post_mono) (rule sound_rule)
    ultimately show ?thesis unfolding kget_def post_bind by - (rule post_any, auto split: prod.split)
  qed
  then show "post (\<lambda>(r, s). sound me s) (fork tramp ret me s)"
    unfolding fork_def by (auto intro!: post_mono [OF A] sound_rule [where os = os] split: option.split)
qed

lemma close_files_desc:
  assumes "desc (\<lambda>_. 0) {} {} me os s" "set fds \<subseteq> {..<NOFILE}"
  shows "post (\<lambda>s'. \<exists>os'. desc (\<lambda>_. 0) {} {} me os' s' \<and> (\<forall>j < NOFILE. j \<in> set fds \<or> os ! me ! j = None \<longrightarrow> os' ! me ! j = None))
    (close_files fds me s)"
  using assms
proof (induction fds arbitrary: os s)
  case (Cons fd fds)
  note d = Cons.prems(1)
  have fd: "fd < NOFILE" using Cons.prems by auto
  note len = desc_me(1) [OF d] desc_lengths [OF d desc_me(1) [OF d]]
  have o: "p_ofile (cur me s) = os ! me" using cur_ofile [OF d desc_me(1) [OF d]] by (simp add: cur_def)
  show ?case
  proof (cases "os ! me ! fd")
    case None
    show ?thesis using Cons.IH [OF d] Cons.prems(2) None o by (auto elim!: post_mono)
  next
    case (Some f)
    have f: "f < NFILE" using desc_range [OF d desc_me(1) [OF d] fd Some] .
    let ?os = "os[me := (os ! me)[fd := None]]"
    have "post (\<lambda>s'. \<exists>os'. desc (\<lambda>_. 0) {} {} me os' s' \<and> (\<forall>j < NOFILE. j \<in> set (fd # fds) \<or> os ! me ! j = None \<longrightarrow> os' ! me ! j = None))
        (close_files fds me (set_ofile me fd None t))" if t: "desc ((\<lambda>_. 0)(f := -1)) {} {} me os t" for t
    proof -
      have "desc (\<lambda>_. 0) {} {} me ?os (set_ofile me fd None t)"
        by (rule set_ofile_desc [OF t len(1) fd]) (use f Some in auto)
      from Cons.IH [OF this] show ?thesis using Cons.prems(2) len by (auto elim!: post_mono simp: nth_list_update)
    qed
    then show ?thesis using fileclose_desc [OF d f] o Some by (auto elim!: post_mono)
  qed
qed auto

text \<open>\<^verbatim>\<open>reparent\<close> changes parents and wakes \<^verbatim>\<open>initproc\<close>.\<close>

definition calm :: "nat \<Rightarrow> ptable \<Rightarrow> ptable \<Rightarrow> bool" where
  "calm me t t' \<longleftrightarrow> map p_ofile (procs t') = map p_ofile (procs t) \<and> map idle (procs t') = map idle (procs t) \<and>
     (me < length (procs t) \<longrightarrow> p_state (procs t' ! me) = p_state (procs t ! me))"

lemma calm_trans: "calm me t t' \<Longrightarrow> calm me t' t'' \<Longrightarrow> calm me t t''"
  using map_eq_imp_length_eq [of p_ofile "procs t'" p_ofile "procs t"] by (simp add: calm_def)

lemma calm_wakeup: "calm me t (wakeup (Some me) ch t)"
  unfolding calm_def by (auto simp: wakeup_def wake_entry_def idle_def intro!: nth_equalityI split: if_splits)

lemma calm_parent: "calm me t (set_proc i (\<lambda>q. q\<lparr>p_parent := x\<rparr>) t)"
  unfolding calm_def by (auto simp: set_proc_def idle_def nth_upd intro!: nth_equalityI split: if_splits)

lemma calm_reparent: "calm me t (reparent_loop ps (Some me) p t)"
proof (induction ps arbitrary: t)
  case (Cons i ps)
  show ?case
    using Cons [of t] calm_trans [OF calm_trans [OF calm_parent [of me t i "initproc t"] calm_wakeup] Cons]
    by (auto simp: Let_def split: option.split)
qed (simp add: calm_def)

lemma calm_desc: "desc D E U me os s \<Longrightarrow> calm me (ktab s) t \<Longrightarrow> desc D E U me os (s\<lparr>ktab := t\<rparr>)"
proof (rule desc_tab)
  assume d: "desc D E U me os s" and c: "calm me (ktab s) t"
  have "ofiles s = os" and run: "running me s" using d by (simp_all add: desc_def)
  then show o: "map p_ofile (procs t) = os" using c by (simp add: calm_def ofiles_def)
  show "p_state (procs t ! me) = RUNNING" using c run by (simp add: calm_def running_def)
  have len: "length os = length (procs t)" "length (procs t) = length (procs (ktab s))"
    using arg_cong [OF o, of length] c map_eq_imp_length_eq [of p_ofile "procs t" p_ofile "procs (ktab s)"] by (auto simp: calm_def)
  show "idle (procs (ktab s) ! i)" if "i < length os" "idle (procs t ! i)" for i
  proof -
    have "map idle (procs t) ! i = map idle (procs (ktab s)) ! i" using c by (simp only: calm_def)
    then show ?thesis using that len by simp
  qed
qed

lemma fds_ok_zombie:
  assumes "fds_ok D {} U s" "set (ofiles s ! i) \<subseteq> {None}"
  shows "fds_ok D {} U (upd_cur i (\<lambda>p. p\<lparr>p_xstate := x, p_state := ZOMBIE, p_etime := n\<rparr>) s)"
  unfolding upd_cur_def
proof (rule fds_ok_tab [OF assms(1)])
  let ?t = "set_proc i (\<lambda>p. p\<lparr>p_xstate := x, p_state := ZOMBIE, p_etime := n\<rparr>) (ktab s)"
  show "map p_ofile (procs ?t) = ofiles s" by (rule nth_equalityI) (auto simp: set_proc_def ofiles_def nth_upd)
  show "idle (procs (ktab s) ! j) \<or> set (ofiles s ! j) \<subseteq> {None}" if "j < length (ofiles s)" "idle (procs ?t ! j)" for j
    using that assms(2) by (auto simp: set_proc_def nth_upd split: if_splits)
qed

lemma exit_keeps:
  assumes "sound me s"
  shows "post (fds_ok (\<lambda>_. 0) {} {}) (exit me status s)"
  using assms
proof (rule soundE)
  fix os
  assume d: "desc (\<lambda>_. 0) {} {} me os s"
  have zombie: "fds_ok (\<lambda>_. 0) {} {} (upd_cur me (\<lambda>p. p\<lparr>p_xstate := status, p_state := ZOMBIE, p_etime := n\<rparr>) (t\<lparr>ktab := u\<rparr>))"
    if t: "desc (\<lambda>_. 0) {} {} me os' t" "calm me (ktab t) u" and none: "\<forall>j < NOFILE. os' ! me ! j = None" for t os' u n
  proof -
    let ?t = "t\<lparr>ktab := u\<rparr>"
    note c = calm_desc [OF t]
    have "set (os' ! me) \<subseteq> {None}" using none desc_lengths [OF c desc_me(1) [OF c]] by (auto simp: in_set_conv_nth)
    moreover have "ofiles ?t = os'" "fds_ok (\<lambda>_. 0) {} {} ?t" using c by (simp_all add: desc_def)
    ultimately show ?thesis by (intro fds_ok_zombie) auto
  qed
  let ?ok = "fds_ok (\<lambda>_. 0) {} {}"
  have tail: "post ?ok (rbind (kbegin_op t) (\<lambda>s.
        case p_cwd (cur me s) of
          None \<Rightarrow> Fault ''no current directory''
        | Some c \<Rightarrow>
            rbind (kiput me c s) (\<lambda>s.
            rbind (kend_op me s) (\<lambda>s.
            let s = upd_cur me (\<lambda>p. p\<lparr>p_cwd := None\<rparr>) s;
                t = wakeup (Some me) (proc_chan (p_parent (cur me s))) (reparent me (ktab s)) in
            Ok (upd_cur me (\<lambda>p. p\<lparr>p_xstate := status, p_state := ZOMBIE, p_etime := ticks t\<rparr>) (s\<lparr>ktab := t\<rparr>))))))"
    if t: "desc (\<lambda>_. 0) {} {} me os' t" and none: "\<forall>j < NOFILE. os' ! me ! j = None" for t os'
  proof -
    let ?I = "desc (\<lambda>_. 0) {} {} me os'"
    note rules = descriptors.kbegin_op_rule [where D = "\<lambda>_. 0" and E = "{}" and U = "{}" and os = os']
      descriptors.fs_do_rule [where D = "\<lambda>_. 0" and E = "{}" and U = "{}" and os = os' and me = me]
      descriptors.kend_op_rule [where D = "\<lambda>_. 0" and E = "{}" and U = "{}" and os = os']
    have c: "calm me u (wakeup (Some me) ch (reparent me u))" for u ch
      unfolding reparent_def by (rule calm_trans [OF calm_reparent calm_wakeup])
    have "?I u \<Longrightarrow> ?ok (upd_cur me (\<lambda>p. p\<lparr>p_xstate := status, p_state := ZOMBIE, p_etime := n\<rparr>)
        ((upd_cur me (\<lambda>p. p\<lparr>p_cwd := None\<rparr>) u)\<lparr>ktab := wakeup (Some me) ch (reparent me (ktab (upd_cur me (\<lambda>p. p\<lparr>p_cwd := None\<rparr>) u)))\<rparr>))" for u n ch
      by (rule zombie [OF descriptors.upd_same c none]) auto
    then show ?thesis using t by (auto simp: Let_def intro!: rules split: option.split)
  qed
  have "set [0..<NOFILE] \<subseteq> {..<NOFILE}" by auto
  from close_files_desc [OF d this] show ?thesis
    unfolding exit_def by (auto elim!: post_mono intro!: tail [simplified])
qed

section \<open>Every system call\<close>

lemma lift_sound:
  assumes "sound me s" "\<And>os. desc (\<lambda>_. 0) {} {} me os s \<Longrightarrow> post (\<lambda>(r, s). desc (\<lambda>_. 0) {} {} me os s) m"
  shows "post (\<lambda>(r, s). sound me s) m"
  using assms(1) by (rule soundE) (auto dest!: assms(2) elim!: post_mono intro: sound_rule)

lemma syscalls_sound:
  assumes "sound me s"
  shows "post (\<lambda>(r, s). sound me s) (syscalls e num me s)"
proof (cases "num \<in> {1, 4, 10, 15, 21}")
  case True
  then show ?thesis
    using sys_dup_sound [OF assms] sys_close_sound [OF assms] sys_open_sound [OF assms] sys_pipe_sound [OF assms] fork_sound [OF assms]
    by (auto simp: syscalls_def sys_fork_def)
next
  case False
  show ?thesis using assms by (rule lift_sound) (rule descriptors.syscalls_keeps [OF _ False])
qed

lemma print_trace_sound: "sound me s \<Longrightarrow> post (sound me) (print_trace e me num args s)"
  by (erule soundE, drule descriptors.print_trace_keeps) (auto elim!: post_mono intro: sound_rule)

lemma kprintf_sound: "sound me s \<Longrightarrow> post (sound me) (kprintf e fmt args s)"
  by (erule soundE, drule descriptors.kprintf_keeps) (auto elim!: post_mono intro: sound_rule)

lemma tf_set_sound: "sound me s \<Longrightarrow> sound me (tf_set i fld v s)"
  by (erule soundE, drule descriptors.quiet_updates(4)) (rule sound_rule)

lemma syscall_sound:
  assumes "sound me s"
  shows "post (\<lambda>(alive, s). fds_ok (\<lambda>_. 0) {} {} s \<and> (alive \<longrightarrow> running me s)) (syscall e me s)"
  unfolding syscall_def Let_def
proof (rule post_if)
  let ?Q = "\<lambda>(alive, s). fds_ok (\<lambda>_. 0) {} {} s \<and> (alive \<longrightarrow> running me s)"
  have Q: "?Q (True, t)" if "sound me t" for t using that by (simp add: sound_def)
  have ex: "post ?Q (rbind (sys_exit me s) (\<lambda>s. Ok (False, s)))"
    unfolding sys_exit_def by (simp add: post_any exit_keeps [OF assms])
  have tr: "post ?Q (if c then rbind (print_trace e me n args t) (\<lambda>s. Ok (True, s)) else Ok (True, t))" if t: "sound me t" for c n args t
  proof (rule post_if)
    show "post ?Q (rbind (print_trace e me n args t) (\<lambda>s. Ok (True, s)))"
      unfolding post_bind by (rule post_mono [OF print_trace_sound [OF t]]) (simp only: post_simps Q)
  qed (simp only: post_simps Q t)
  have sc: "post ?Q (rbind (syscalls e n me s) (\<lambda>(r, s). if p_smask (cur me (tf_set me (TF_a 0) (of_int r) s)) AND push_bit n 1 \<noteq> 0
      then rbind (print_trace e me n args (tf_set me (TF_a 0) (of_int r) s)) (\<lambda>s. Ok (True, s))
      else Ok (True, tf_set me (TF_a 0) (of_int r) s)))" for n args
    unfolding post_bind by (rule post_mono [OF syscalls_sound [OF assms]]) (clarify, rule tr, rule tf_set_sound)
  let ?n = "sint (ucast (tf_get me (TF_a 7) s) :: u32)"
  show "post ?Q (rbind (save_args (syscall_nargs ! (nat ?n - 1)) 0 me s) (\<lambda>args.
      if ?n = 2 then rbind (sys_exit me s) (\<lambda>s. Ok (False, s))
      else rbind (syscalls e (nat ?n) me s) (\<lambda>(r, s). if p_smask (cur me (tf_set me (TF_a 0) (of_int r) s)) AND push_bit (nat ?n) 1 \<noteq> 0
        then rbind (print_trace e me (nat ?n) args (tf_set me (TF_a 0) (of_int r) s)) (\<lambda>s. Ok (True, s))
        else Ok (True, tf_set me (TF_a 0) (of_int r) s))))"
    unfolding post_bind [of _ "save_args _ _ _ _"] by (rule post_any) (rule post_if [OF ex sc])
  show "post ?Q (rbind (kprintf e (''%d %s: unknown sys call %d'' @ [CHR 0x0A]) [PInt (mypid me s), PStr (Some (proc_name (cur me s))), PInt ?n] s)
      (\<lambda>s. Ok (True, tf_set me (TF_a 0) (-1) s)))"
    unfolding post_bind by (rule post_mono [OF kprintf_sound [OF assms]]) (simp only: post_simps Q tf_set_sound)
qed

section \<open>The invariant over processes and open files\<close>

definition descriptors_ok :: "ksys \<Rightarrow> bool" where
  "descriptors_ok s \<longleftrightarrow>
     length (ftab s) = NFILE \<and>
     (\<forall>p \<in> set (procs (ktab s)). length (p_ofile p) = NOFILE \<and>
        (p_state p \<in> {UNUSED, USED, ZOMBIE} \<longrightarrow> set (p_ofile p) \<subseteq> {None}) \<and>
        (\<forall>f. Some f \<in> set (p_ofile p) \<longrightarrow> f < NFILE \<and> f_type (ftab s ! f) \<noteq> FD_NONE)) \<and>
     (\<forall>f < NFILE. f_ref (ftab s ! f) = (\<Sum>p \<leftarrow> procs (ktab s). int (count_list (p_ofile p) (Some f))))"

lemma held_procs: "held (ofiles s) f = (\<Sum>p \<leftarrow> procs (ktab s). int (count_list (p_ofile p) (Some f)))"
  by (simp add: held_def ofiles_def comp_def)

lemma held_pos: "held os f > 0 \<longleftrightarrow> (\<exists>l \<in> set os. Some f \<in> set l)"
proof -
  have "held os f \<noteq> 0 \<longleftrightarrow> (\<exists>l \<in> set os. Some f \<in> set l)"
    unfolding held_def by (subst sum_list_nonneg_eq_0_iff) (auto simp: count_list_0_iff)
  moreover have "held os f \<ge> 0" unfolding held_def by (rule sum_list_nonneg) auto
  ultimately show ?thesis by linarith
qed

lemma fds_ok_descriptors: "fds_ok (\<lambda>_. 0) {} {} s \<longleftrightarrow> descriptors_ok s"
proof -
  have idle: "(\<forall>i < length (ofiles s). i \<notin> {} \<longrightarrow> idle (procs (ktab s) ! i) \<longrightarrow> set (ofiles s ! i) \<subseteq> {None}) \<longleftrightarrow>
      (\<forall>p \<in> set (procs (ktab s)). p_state p \<in> {UNUSED, USED, ZOMBIE} \<longrightarrow> set (p_ofile p) \<subseteq> {None})"
    by (simp add: all_set_conv_all_nth ofiles_def idle_def)
  show ?thesis
    unfolding fds_ok_def descriptors_ok_def idle held_procs [symmetric]
    using held_pos [of "ofiles s"] by (fastforce simp: ofiles_def)
qed

text \<open>
  C2. Every system call, whichever it is and however it ends, keeps the table of open files and the descriptors of the
  processes consistent: each descriptor of each process refers to an open file that exists and has a type, a process
  that is unused, being created or has exited has no descriptors, and the reference count of each open file is exactly
  the number of descriptors that refer to it, over all processes. A process whose call returns is still running.
\<close>

theorem syscall_keeps_descriptors:
  assumes "descriptors_ok s" "me < length (procs (ktab s))" "p_state (procs (ktab s) ! me) = RUNNING"
    and "syscall e me s = Ok (alive, s')"
  shows "descriptors_ok s' \<and> (alive \<longrightarrow> me < length (procs (ktab s')) \<and> p_state (procs (ktab s') ! me) = RUNNING)"
proof -
  have "sound me s" using assms(1-3) by (simp add: sound_def fds_ok_descriptors running_def)
  from postD [OF syscall_sound [OF this] assms(4)] show ?thesis by (simp add: fds_ok_descriptors running_def)
qed

definition sample_sys :: ksys where
  "sample_sys =
     \<lparr>kmem = \<lparr>ram = (\<lambda>_. 0)(0x801000a8 := 10), freelist = 0, fr = (\<lambda>_. 0), memref_held = False, lock_kalloc = False, kend = 0x80030000\<rparr>,
      kfs = fs_state.extend sample_fs (fs.fields []),
      ktab = \<lparr>procs = [proc_zero\<lparr>p_state := RUNNING, p_pid := 1, p_trapframe := 0x80100000, p_ofile := Some 0 # replicate 15 None\<rparr>, proc_zero],
        nextpid = 2, initproc = Some 0, ticks = 0\<rparr>,
      ftab = \<lparr>f_type = FD_DEVICE, f_ref = 1, f_readable = True, f_writable = True, f_pipe = 0, f_ip = 0, f_off = 0, f_major = 1\<rparr> #
        replicate 99 \<lparr>f_type = FD_NONE, f_ref = 0, f_readable = False, f_writable = False, f_pipe = 0, f_ip = 0, f_off = 0, f_major = 0\<rparr>,
      kpipes = (\<lambda>_. None), kcons = \<lparr>cons_buf = replicate 128 0, cons_r = 0, cons_w = 0, cons_e = 0\<rparr>,
      kuart = \<lparr>uart_tx_buf = replicate 32 0, uart_tx_w = 0, uart_tx_r = 0, panicked = False, nreads = 0, reg_writes = []\<rparr>,
      kqueue = replicate 5 (replicate 64 None)\<rparr>"

definition sample_env :: env where
  "sample_env = \<lparr>e_dev = (\<lambda>_ _. 0x20), e_trampoline = 0x80007000, e_forkret = 0x80001000, e_pad = (\<lambda>_. 0), e_times = (0, 0)\<rparr>"

lemma sample_descriptors: "descriptors_ok sample_sys"
  by (auto simp: descriptors_ok_def sample_sys_def proc_zero_def NFILE_def NOFILE_def nth_Cons count_list_0_iff split: nat.split)

lemma sample_regs: "tf_get 0 (TF_a 7) sample_sys = 10" "tf_get 0 (TF_a 0) sample_sys = 0"
  by (simp_all add: tf_get_def load64_def le_word_def tf_offset_def sample_sys_def)

lemma sample_sel:
  "p_ofile (procs (ktab sample_sys) ! 0) = Some 0 # None # replicate 14 None" "p_smask (procs (ktab sample_sys) ! 0) = 0"
  "p_state (procs (ktab sample_sys) ! 0) = RUNNING"
  "f_ref (ftab sample_sys ! 0) = 1" "length (ftab sample_sys) = 100" "length (procs (ktab sample_sys)) = 2"
  by (simp_all add: sample_sys_def proc_zero_def eval_nat_numeral)

lemma sample_dup: "\<exists>s. syscall sample_env 0 sample_sys = Ok (True, s) \<and> p_ofile (procs (ktab s) ! 0) ! 1 = Some 0 \<and> f_ref (ftab s ! 0) = 2"
proof -
  have "argfd 0 0 sample_sys = Ok (Some (0, 0))"
    by (simp add: argfd_def argint_def argraw_def sample_regs NOFILE_def cur_def sample_sel)
  moreover have "fdalloc 0 0 sample_sys = (1, set_ofile 0 1 (Some 0) sample_sys)"
    by (simp add: fdalloc_def sample_sel cur_def)
  moreover have "syscall_nargs ! 9 = Suc 0" by (simp add: syscall_nargs_def)
  moreover have "save_args (Suc 0) 0 0 sample_sys = Ok [0]" by (simp add: argint_def argraw_def sample_regs)
  ultimately show ?thesis
    by (simp add: syscall_def syscalls_def sys_dup_def sample_regs Let_def filedup_def set_ofile_def sample_sel tf_set_def upd_ram_def cur_def)
qed

theorem syscall_keeps_descriptors_witness:
  "\<exists>s. syscall sample_env 0 sample_sys = Ok (True, s) \<and> descriptors_ok sample_sys \<and> descriptors_ok s \<and> f_ref (ftab s ! 0) = 2"
proof -
  obtain s where s: "syscall sample_env 0 sample_sys = Ok (True, s)" "f_ref (ftab s ! 0) = 2" using sample_dup by blast
  then show ?thesis
    using syscall_keeps_descriptors [OF sample_descriptors, of 0 sample_env True s] sample_descriptors by (simp add: sample_sel)
qed

end
