(* ===== verification/Virtio.thy ===== *)
theory Virtio
  imports Ring Kalloc Blocks
begin

text \<open>
  The disk driver (\<^verbatim>\<open>kernel/virtio_disk.c\<close>, \<^verbatim>\<open>kernel/virtio.h\<close>). Requests are chains of three descriptors, handed to
  the device through the ring of available chains and handed back through the ring of used ones. A descriptor's
  address is one of the objects the driver points it at: a command header, the data of a buffer, a status byte. The
  processes in \<^verbatim>\<open>virtio_disk_rw\<close>, the interrupt handler and the device are a step relation; each step is what the code
  does between taking \<^verbatim>\<open>disk.vdisk_lock\<close> and releasing it or going to sleep. The steps of the device are those the
  virtio standard describes: it takes available chains, serves them in any order and reports each as used. The writes to
  the notification and acknowledgement registers only tell the device to look at the rings and to lower its interrupt.
\<close>

unbundle bit_operations_syntax

section \<open>Definitions\<close>

definition NUM :: nat where "NUM = 8"

definition VRING_DESC_F_NEXT :: u16 where "VRING_DESC_F_NEXT = 1"

definition VRING_DESC_F_WRITE :: u16 where "VRING_DESC_F_WRITE = 2"

definition VIRTIO_BLK_T_IN :: u32 where "VIRTIO_BLK_T_IN = 0"

definition VIRTIO_BLK_T_OUT :: u32 where "VIRTIO_BLK_T_OUT = 1"

datatype dma = NullAddr | OpsAddr nat | DataAddr nat | StatusAddr nat

record virtq_desc =
  vd_addr :: dma
  vd_len :: u32
  vd_flags :: u16
  vd_next :: u16

record virtio_blk_req =
  rq_type :: u32
  rq_reserved :: u32
  rq_sector :: u64

text \<open>\<^verbatim>\<open>struct disk\<close>, with the pages of the two rings.\<close>

record disk =
  dk_desc :: "nat \<Rightarrow> virtq_desc"
  dk_avail :: "u16 list"
  dk_avail_idx :: u16
  dk_used :: "u32 list"
  dk_used_ring_idx :: u16
  dk_free :: "nat \<Rightarrow> bool"
  dk_used_idx :: u16
  dk_info_b :: "nat \<Rightarrow> nat option"
  dk_info_status :: "nat \<Rightarrow> u8"
  dk_ops :: "nat \<Rightarrow> virtio_blk_req"

text \<open>The part of \<^verbatim>\<open>struct buf\<close> that the driver uses.\<close>

record vbuf =
  vb_blockno :: u32
  vb_disk :: bool
  vb_data :: bytes

datatype vstage = Idle | WantDesc nat bool | Waiting nat bool nat nat nat

datatype vchan = FreeChan | BufChan nat

text \<open>
  The driver with the buffers, the processes (where each is in \<^verbatim>\<open>virtio_disk_rw\<close> and whether it sleeps) and the device:
  how far it has read the ring of available chains, the chains it works on, the disk's sectors, and the transfers it
  has made so far. \<open>vreturned\<close> lists the calls that have returned.
\<close>

record vsys = disk +
  vbufs :: "nat \<Rightarrow> vbuf"
  vstage_of :: "nat \<Rightarrow> vstage"
  vasleep :: "nat \<Rightarrow> bool"
  dev_avail :: u16
  dev_taken :: "nat list"
  dev_sectors :: "u64 \<Rightarrow> bytes"
  dev_log :: "(nat \<times> bool \<times> u64) list"
  vreturned :: "(nat \<times> bool \<times> u64) list"

definition vchan_of :: "vstage \<Rightarrow> vchan option" where
  "vchan_of st = (case st of Idle \<Rightarrow> None | WantDesc b w \<Rightarrow> Some FreeChan | Waiting b w i0 i1 i2 \<Rightarrow> Some (BufChan b))"

definition vwakeup :: "vchan \<Rightarrow> vsys \<Rightarrow> vsys" where
  "vwakeup ch s = s\<lparr>vasleep := (\<lambda>p. vasleep s p \<and> vchan_of (vstage_of s p) \<noteq> Some ch)\<rparr>"

subsection \<open>Descriptors\<close>

definition alloc_desc :: "vsys \<Rightarrow> int \<times> vsys" where
  "alloc_desc s = (case find_index (dk_free s) [0..<NUM] of
     Some i \<Rightarrow> (int i, s\<lparr>dk_free := (dk_free s)(i := False)\<rparr>)
   | None \<Rightarrow> (-1, s))"

definition zero_desc :: virtq_desc where
  "zero_desc = \<lparr>vd_addr = NullAddr, vd_len = 0, vd_flags = 0, vd_next = 0\<rparr>"

definition free_desc :: "nat \<Rightarrow> vsys \<Rightarrow> vsys res" where
  "free_desc i s =
     (if i \<ge> NUM then Panic ''free_desc 1''
      else if dk_free s i then Panic ''free_desc 2''
      else Ok (vwakeup FreeChan (s\<lparr>dk_desc := (dk_desc s)(i := zero_desc), dk_free := (dk_free s)(i := True)\<rparr>)))"

text \<open>
  The loop of \<^verbatim>\<open>free_chain\<close> frees a descriptor in each round or panics, so it ends even on a chain with a cycle;
  the table has \<open>NUM\<close> entries, of which each round turns one from taken to free.
\<close>

function free_chain :: "nat \<Rightarrow> vsys \<Rightarrow> vsys res" where
  "free_chain i s =
     rbind (free_desc i s) (\<lambda>s'.
       if vd_flags (dk_desc s i) AND VRING_DESC_F_NEXT \<noteq> 0
       then free_chain (unat (vd_next (dk_desc s i))) s'
       else Ok s')"
  by pat_completeness auto

lemma vwakeup_sel [simp]:
  "dk_free (vwakeup ch s) = dk_free s" "dk_desc (vwakeup ch s) = dk_desc s" "dk_used_idx (vwakeup ch s) = dk_used_idx s"
  "dk_used_ring_idx (vwakeup ch s) = dk_used_ring_idx s"
  by (simp_all add: vwakeup_def)

lemma free_desc_free: "free_desc i s = Ok s' \<Longrightarrow> i < NUM \<and> \<not> dk_free s i \<and> dk_free s' = (dk_free s)(i := True)"
  by (simp add: free_desc_def split: if_splits) auto

lemma free_desc_frees:
  assumes "free_desc i s = Ok s'"
  shows "card {j. j < NUM \<and> \<not> dk_free s' j} < card {j. j < NUM \<and> \<not> dk_free s j}"
proof (rule psubset_card_mono)
  note i = free_desc_free [OF assms]
  then have "{j. j < NUM \<and> \<not> dk_free s' j} = {j. j < NUM \<and> \<not> dk_free s j} - {i}" by auto
  then show "{j. j < NUM \<and> \<not> dk_free s' j} \<subset> {j. j < NUM \<and> \<not> dk_free s j}" using i by blast
qed simp

termination free_chain
  by (relation "measure (\<lambda>(i, s). card {j. j < NUM \<and> \<not> dk_free s j})") (simp_all add: free_desc_frees)

declare free_chain.simps [simp del]

text \<open>\<^verbatim>\<open>alloc3_desc\<close>: \<open>idx\<close> are the descriptors taken so far, which it gives back if there is not a third one.\<close>

primrec free_descs :: "nat list \<Rightarrow> vsys \<Rightarrow> vsys res" where
  "free_descs [] s = Ok s"
| "free_descs (i # is) s = rbind (free_desc i s) (free_descs is)"

primrec alloc3_loop :: "nat \<Rightarrow> nat list \<Rightarrow> vsys \<Rightarrow> (nat list option \<times> vsys) res" where
  "alloc3_loop 0 idx s = Ok (Some idx, s)"
| "alloc3_loop (Suc n) idx s =
     (case alloc_desc s of (i, s) \<Rightarrow>
        if i < 0 then rbind (free_descs idx s) (\<lambda>s. Ok (None, s))
        else alloc3_loop n (idx @ [nat i]) s)"

definition alloc3_desc :: "vsys \<Rightarrow> (nat list option \<times> vsys) res" where
  "alloc3_desc s = alloc3_loop 3 [] s"


subsection \<open>Initialisation\<close>

text \<open>
  \<^verbatim>\<open>virtio_disk_init\<close>. \<open>reg n r\<close> is what the \<open>n\<close>-th read of the driver finds in register \<open>r\<close>; the result has the writes
  to registers in order. \<open>disk_ready\<close> is what it makes of the driver's tables: cleared pages and free descriptors.
\<close>

definition disk_ready :: "disk \<Rightarrow> disk" where
  "disk_ready d = d\<lparr>dk_desc := (\<lambda>_. zero_desc), dk_avail := replicate NUM 0, dk_avail_idx := 0, dk_used := replicate NUM 0,
     dk_used_ring_idx := 0, dk_free := (\<lambda>i. i < NUM \<or> dk_free d i)\<rparr>"

definition virtio_features :: "u32 \<Rightarrow> u32" where
  "virtio_features f = f AND NOT (push_bit 5 1) AND NOT (push_bit 7 1) AND NOT (push_bit 11 1) AND NOT (push_bit 12 1)
     AND NOT (push_bit 27 1) AND NOT (push_bit 29 1) AND NOT (push_bit 28 1)"

definition virtio_queue_setup :: "u64 \<Rightarrow> u64 \<Rightarrow> u64 \<Rightarrow> (nat \<times> u32) list" where
  "virtio_queue_setup desc avail used =
     [(0x38, of_nat NUM), (0x80, ucast desc), (0x84, ucast (drop_bit 32 desc)), (0x90, ucast avail), (0x94, ucast (drop_bit 32 avail)),
      (0xa0, ucast used), (0xa4, ucast (drop_bit 32 used)), (0x44, 1)]"

definition virtio_disk_init :: "(nat \<Rightarrow> nat \<Rightarrow> u32) \<Rightarrow> disk \<Rightarrow> kstate \<Rightarrow> (disk \<times> kstate \<times> (nat \<times> u32) list) res" where
  "virtio_disk_init reg d k =
     (if reg 0 0x000 \<noteq> 0x74726976 \<or> reg 1 0x004 \<noteq> 2 \<or> reg 2 0x008 \<noteq> 2 \<or> reg 3 0x00c \<noteq> 0x554d4551
      then Panic ''could not find virtio disk''
      else let features = virtio_features (reg 4 0x010);
               status = reg 5 0x070 in
        if status AND 8 = 0 then Panic ''virtio disk FEATURES_OK unset''
        else if reg 6 0x044 \<noteq> 0 then Panic ''virtio disk should not be ready''
        else if reg 7 0x034 = 0 then Panic ''virtio disk has no queue 0''
        else if reg 7 0x034 < of_nat NUM then Panic ''virtio disk max queue too short''
        else rbind (kalloc k) (\<lambda>(desc, k). rbind (kalloc k) (\<lambda>(avail, k). rbind (kalloc k) (\<lambda>(used, k).
          if desc = 0 \<or> avail = 0 \<or> used = 0 then Panic ''virtio disk kalloc''
          else let k = k\<lparr>ram := memset 4096 (memset 4096 (memset 4096 (ram k) desc 0) avail 0) used 0\<rparr> in
            Ok (disk_ready d, k,
              [(0x70, 0), (0x70, 1), (0x70, 3), (0x20, features), (0x70, 11), (0x30, 0)] @
              virtio_queue_setup desc avail used @ [(0x70, status OR 4)])))))"

subsection \<open>Requests\<close>

definition vb_sector :: "vbuf \<Rightarrow> u64" where
  "vb_sector x = ucast (vb_blockno x * 2)"

definition upd_vbuf :: "nat \<Rightarrow> (vbuf \<Rightarrow> vbuf) \<Rightarrow> vsys \<Rightarrow> vsys" where
  "upd_vbuf b f s = s\<lparr>vbufs := (vbufs s)(b := f (vbufs s b))\<rparr>"

text \<open>The part of \<^verbatim>\<open>virtio_disk_rw\<close> that fills in the three descriptors and makes the chain available.\<close>

definition disk_submit :: "nat \<Rightarrow> bool \<Rightarrow> nat \<Rightarrow> nat \<Rightarrow> nat \<Rightarrow> vsys \<Rightarrow> vsys" where
  "disk_submit b write i0 i1 i2 s =
     (let s = s\<lparr>dk_ops := (dk_ops s)(i0 := \<lparr>rq_type = (if write then VIRTIO_BLK_T_OUT else VIRTIO_BLK_T_IN), rq_reserved = 0,
                rq_sector = vb_sector (vbufs s b)\<rparr>)\<rparr>;
          s = s\<lparr>dk_desc := (dk_desc s)(i0 := \<lparr>vd_addr = OpsAddr i0, vd_len = 16, vd_flags = VRING_DESC_F_NEXT, vd_next = of_nat i1\<rparr>)\<rparr>;
          s = s\<lparr>dk_desc := (dk_desc s)(i1 := \<lparr>vd_addr = DataAddr b, vd_len = of_nat BSIZE,
                vd_flags = (if write then 0 else VRING_DESC_F_WRITE) OR VRING_DESC_F_NEXT, vd_next = of_nat i2\<rparr>)\<rparr>;
          s = s\<lparr>dk_info_status := (dk_info_status s)(i0 := 0xff)\<rparr>;
          s = s\<lparr>dk_desc := (dk_desc s)(i2 := \<lparr>vd_addr = StatusAddr i0, vd_len = 1, vd_flags = VRING_DESC_F_WRITE, vd_next = 0\<rparr>)\<rparr>;
          s = upd_vbuf b (\<lambda>x. x\<lparr>vb_disk := True\<rparr>) s;
          s = s\<lparr>dk_info_b := (dk_info_b s)(i0 := Some b)\<rparr>;
          s = s\<lparr>dk_avail := (dk_avail s)[unat (dk_avail_idx s) mod NUM := of_nat i0]\<rparr>
      in s\<lparr>dk_avail_idx := dk_avail_idx s + 1\<rparr>)"

text \<open>
  \<^verbatim>\<open>virtio_disk_rw\<close> by process \<open>p\<close>: the loop that waits for the transfer with what follows it, and before that a
  round of the loop that waits for descriptors with what follows that.
\<close>

definition disk_wait :: "nat \<Rightarrow> nat \<Rightarrow> bool \<Rightarrow> nat \<Rightarrow> nat \<Rightarrow> nat \<Rightarrow> vsys \<Rightarrow> vsys res" where
  "disk_wait p b write i0 i1 i2 s =
     (if vb_disk (vbufs s b)
      then Ok (s\<lparr>vstage_of := (vstage_of s)(p := Waiting b write i0 i1 i2), vasleep := (vasleep s)(p := True)\<rparr>)
      else rbind (free_chain i0 (s\<lparr>dk_info_b := (dk_info_b s)(i0 := None)\<rparr>)) (\<lambda>s.
        Ok (s\<lparr>vstage_of := (vstage_of s)(p := Idle), vreturned := vreturned s @ [(b, write, vb_sector (vbufs s b))]\<rparr>)))"

definition virtio_disk_rw :: "nat \<Rightarrow> nat \<Rightarrow> bool \<Rightarrow> vsys \<Rightarrow> vsys res" where
  "virtio_disk_rw p b write s =
     rbind (alloc3_desc s) (\<lambda>(idx, s).
       case idx of
         None \<Rightarrow> Ok (s\<lparr>vstage_of := (vstage_of s)(p := WantDesc b write), vasleep := (vasleep s)(p := True)\<rparr>)
       | Some is \<Rightarrow> disk_wait p b write (is ! 0) (is ! 1) (is ! 2) (disk_submit b write (is ! 0) (is ! 1) (is ! 2) s))"

text \<open>The loop of the interrupt handler ends when it has caught up with the device's counter.\<close>

function virtio_disk_intr :: "vsys \<Rightarrow> vsys res" where
  "virtio_disk_intr s =
     (if dk_used_idx s = dk_used_ring_idx s then Ok s
      else let id = unat (dk_used s ! (unat (dk_used_idx s) mod NUM)) in
        if id \<ge> NUM then Fault ''used ring''
        else if dk_info_status s id \<noteq> 0 then Panic ''virtio_disk_intr status''
        else case dk_info_b s id of
          None \<Rightarrow> Fault ''info''
        | Some b \<Rightarrow> virtio_disk_intr ((vwakeup (BufChan b) (upd_vbuf b (\<lambda>x. x\<lparr>vb_disk := False\<rparr>) s))\<lparr>dk_used_idx := dk_used_idx s + 1\<rparr>))"
  by pat_completeness auto

termination virtio_disk_intr
  by (relation "measure (\<lambda>s. unat (dk_used_ring_idx s - dk_used_idx s))")
    (simp_all add: upd_vbuf_def ring_dist_less)

declare virtio_disk_intr.simps [simp del]

subsection \<open>The device\<close>

text \<open>The request that a chain describes, if it has the form the standard asks for: write, sector, buffer, status byte.\<close>

definition dev_request :: "nat \<Rightarrow> vsys \<Rightarrow> (bool \<times> u64 \<times> nat \<times> nat) option" where
  "dev_request h s =
     (let d0 = dk_desc s h; d1 = dk_desc s (unat (vd_next d0)); d2 = dk_desc s (unat (vd_next d1)) in
      case (vd_addr d0, vd_addr d1, vd_addr d2) of
        (OpsAddr k, DataAddr b, StatusAddr j) \<Rightarrow>
          let write = (rq_type (dk_ops s k) = VIRTIO_BLK_T_OUT) in
          if vd_len d0 = 16 \<and> vd_len d1 = 1024 \<and> vd_len d2 = 1 \<and>
             vd_flags d0 = 1 \<and> vd_flags d1 = (if write then 1 else 3) \<and> vd_flags d2 = 2 \<and>
             (write \<or> rq_type (dk_ops s k) = VIRTIO_BLK_T_IN)
          then Some (write, rq_sector (dk_ops s k), b, j) else None
      | _ \<Rightarrow> None)"

definition dev_take :: "vsys \<Rightarrow> vsys" where
  "dev_take s = s\<lparr>dev_taken := dev_taken s @ [unat (dk_avail s ! (unat (dev_avail s) mod NUM))], dev_avail := dev_avail s + 1\<rparr>"

definition dev_transfer :: "bool \<Rightarrow> u64 \<Rightarrow> nat \<Rightarrow> vsys \<Rightarrow> vsys" where
  "dev_transfer write sec b s =
     (let x = vb_data (vbufs s b) in
      if write then s\<lparr>dev_sectors := (dev_sectors s)(sec := (\<lambda>i. x i), sec + 1 := (\<lambda>i. x (512 + i)))\<rparr>
      else upd_vbuf b (\<lambda>v. v\<lparr>vb_data := (\<lambda>i. if i < 512 then dev_sectors s sec i else if i < 1024 then dev_sectors s (sec + 1) (i - 512) else x i)\<rparr>) s)"

definition dev_finish :: "nat \<Rightarrow> vsys \<Rightarrow> vsys res" where
  "dev_finish h s =
     (case dev_request h s of
        None \<Rightarrow> Fault ''malformed request''
      | Some (write, sec, b, j) \<Rightarrow>
          let s = dev_transfer write sec b s in
          Ok (s\<lparr>dk_info_status := (dk_info_status s)(j := 0),
                dk_used := (dk_used s)[unat (dk_used_ring_idx s) mod NUM := of_nat h],
                dk_used_ring_idx := dk_used_ring_idx s + 1,
                dev_taken := remove1 h (dev_taken s), dev_log := dev_log s @ [(b, write, sec)]\<rparr>))"

subsection \<open>All of them together\<close>

text \<open>
  A process calls \<^verbatim>\<open>virtio_disk_rw\<close> for a buffer whose sleep lock it holds, so that no other process is in a call for
  it; outside such calls a buffer's block number and data may change in any way. A sleeping process may also be woken
  by \<^verbatim>\<open>kill\<close> at any time.
\<close>

definition vuses :: "vstage \<Rightarrow> nat \<Rightarrow> bool" where
  "vuses st b \<longleftrightarrow> (case st of Idle \<Rightarrow> False | WantDesc b' w \<Rightarrow> b' = b | Waiting b' w i0 i1 i2 \<Rightarrow> b' = b)"

inductive vstep :: "vsys \<Rightarrow> vsys res \<Rightarrow> bool" where
  vedit: "\<forall>q. \<not> vuses (vstage_of s q) b \<Longrightarrow> vstep s (Ok (upd_vbuf b (\<lambda>x. x\<lparr>vb_blockno := n, vb_data := f\<rparr>) s))"
| vcall: "vstage_of s p = Idle \<Longrightarrow> \<forall>q. \<not> vuses (vstage_of s q) b \<Longrightarrow>
     vstep s (Ok (s\<lparr>vstage_of := (vstage_of s)(p := WantDesc b w), vasleep := (vasleep s)(p := False)\<rparr>))"
| vtry: "vstage_of s p = WantDesc b w \<Longrightarrow> \<not> vasleep s p \<Longrightarrow> vstep s (virtio_disk_rw p b w s)"
| vwait: "vstage_of s p = Waiting b w i0 i1 i2 \<Longrightarrow> \<not> vasleep s p \<Longrightarrow> vstep s (disk_wait p b w i0 i1 i2 s)"
| vkick: "vstep s (Ok (s\<lparr>vasleep := (vasleep s)(p := False)\<rparr>))"
| vintr: "vstep s (virtio_disk_intr s)"
| vtake: "dev_avail s \<noteq> dk_avail_idx s \<Longrightarrow> vstep s (Ok (dev_take s))"
| vfinish: "h \<in> set (dev_taken s) \<Longrightarrow> vstep s (dev_finish h s)"

inductive vreach :: "vsys \<Rightarrow> vsys \<Rightarrow> bool" for s0 where
  vreach_start: "vreach s0 s0"
| vreach_step: "vreach s0 s \<Longrightarrow> vstep s (Ok s') \<Longrightarrow> vreach s0 s'"

section \<open>The invariant\<close>

definition avail_heads :: "vsys \<Rightarrow> nat list" where
  "avail_heads s = map unat (ring_contents (dk_avail s) (dev_avail s) (dk_avail_idx s))"

definition used_heads :: "vsys \<Rightarrow> nat list" where
  "used_heads s = map unat (ring_contents (dk_used s) (dk_used_idx s) (dk_used_ring_idx s))"

text \<open>The chains the device has yet to serve.\<close>

definition device_heads :: "vsys \<Rightarrow> nat list" where
  "device_heads s = avail_heads s @ dev_taken s"

definition of_buf :: "nat \<Rightarrow> (nat \<times> bool \<times> u64) list \<Rightarrow> (nat \<times> bool \<times> u64) list" where
  "of_buf b l = filter (\<lambda>e. fst e = b) l"

definition vdescs :: "vstage \<Rightarrow> nat set" where
  "vdescs st = (case st of Waiting b w i0 i1 i2 \<Rightarrow> {i0, i1, i2} | _ \<Rightarrow> {})"

definition waits_on :: "vstage \<Rightarrow> nat \<Rightarrow> bool" where
  "waits_on st b \<longleftrightarrow> (\<exists>w i0 i1 i2. st = Waiting b w i0 i1 i2)"

definition chain_ok :: "vsys \<Rightarrow> nat \<Rightarrow> bool \<Rightarrow> nat \<Rightarrow> nat \<Rightarrow> nat \<Rightarrow> bool" where
  "chain_ok s b w i0 i1 i2 \<longleftrightarrow>
     dk_desc s i0 = \<lparr>vd_addr = OpsAddr i0, vd_len = 16, vd_flags = VRING_DESC_F_NEXT, vd_next = of_nat i1\<rparr> \<and>
     dk_desc s i1 = \<lparr>vd_addr = DataAddr b, vd_len = of_nat BSIZE,
        vd_flags = (if w then 0 else VRING_DESC_F_WRITE) OR VRING_DESC_F_NEXT, vd_next = of_nat i2\<rparr> \<and>
     dk_desc s i2 = \<lparr>vd_addr = StatusAddr i0, vd_len = 1, vd_flags = VRING_DESC_F_WRITE, vd_next = 0\<rparr> \<and>
     dk_ops s i0 = \<lparr>rq_type = (if w then VIRTIO_BLK_T_OUT else VIRTIO_BLK_T_IN), rq_reserved = 0, rq_sector = vb_sector (vbufs s b)\<rparr> \<and>
     dk_info_b s i0 = Some b"

definition request_ok :: "vsys \<Rightarrow> nat \<Rightarrow> bool \<Rightarrow> nat \<Rightarrow> nat \<Rightarrow> nat \<Rightarrow> bool" where
  "request_ok s b w i0 i1 i2 \<longleftrightarrow>
     distinct [i0, i1, i2] \<and> (\<forall>i \<in> {i0, i1, i2}. i < NUM \<and> \<not> dk_free s i) \<and> chain_ok s b w i0 i1 i2 \<and>
     (vb_disk (vbufs s b) \<longleftrightarrow> i0 \<in> set (device_heads s) \<union> set (used_heads s)) \<and>
     (i0 \<in> set (used_heads s) \<longrightarrow> dk_info_status s i0 = 0) \<and>
     of_buf b (dev_log s) = of_buf b (vreturned s) @ (if i0 \<in> set (device_heads s) then [] else [(b, w, vb_sector (vbufs s b))])"

definition rings_ok :: "vsys \<Rightarrow> bool" where
  "rings_ok s \<longleftrightarrow>
     ring_ok NUM (dk_avail s) (dev_avail s) (dk_avail_idx s) \<and> ring_ok NUM (dk_used s) (dk_used_idx s) (dk_used_ring_idx s) \<and>
     distinct (device_heads s @ used_heads s) \<and>
     (\<forall>h \<in> set (device_heads s) \<union> set (used_heads s). \<exists>p b w i1 i2. vstage_of s p = Waiting b w h i1 i2)"

definition vinv :: "vsys \<Rightarrow> bool" where
  "vinv s \<longleftrightarrow>
     rings_ok s \<and>
     (\<forall>p b w i0 i1 i2. vstage_of s p = Waiting b w i0 i1 i2 \<longrightarrow> request_ok s b w i0 i1 i2 \<and> (vasleep s p \<longrightarrow> vb_disk (vbufs s b))) \<and>
     (\<forall>p q b. vuses (vstage_of s p) b \<longrightarrow> vuses (vstage_of s q) b \<longrightarrow> p = q) \<and>
     (\<forall>p q i. i \<in> vdescs (vstage_of s p) \<longrightarrow> i \<in> vdescs (vstage_of s q) \<longrightarrow> p = q) \<and>
     (\<forall>b. (\<forall>p. \<not> waits_on (vstage_of s p) b) \<longrightarrow> of_buf b (dev_log s) = of_buf b (vreturned s)) \<and>
     (\<forall>i < NUM. \<not> dk_free s i \<longrightarrow> (\<exists>p. i \<in> vdescs (vstage_of s p))) \<and>
     (\<forall>p b w. vstage_of s p = WantDesc b w \<longrightarrow> vasleep s p \<longrightarrow> (\<exists>q b'. waits_on (vstage_of s q) b'))"

lemma stage_simps [simp]:
  "vuses Idle b = False" "vuses (WantDesc b' w) b = (b' = b)" "vuses (Waiting b' w i0 i1 i2) b = (b' = b)"
  "vdescs Idle = {}" "vdescs (WantDesc b' w) = {}" "vdescs (Waiting b' w i0 i1 i2) = {i0, i1, i2}"
  "waits_on Idle b = False" "waits_on (WantDesc b' w) b = False" "waits_on (Waiting b' w i0 i1 i2) b = (b' = b)"
  by (simp_all add: vuses_def vdescs_def waits_on_def)

lemma of_buf_simps [simp]: "of_buf b [] = []" "of_buf b (l @ [e]) = (if fst e = b then of_buf b l @ [e] else of_buf b l)"
  by (simp_all add: of_buf_def)

lemma vdescs_iff: "i \<in> vdescs st \<longleftrightarrow> (\<exists>b w i0 i1 i2. st = Waiting b w i0 i1 i2 \<and> i \<in> {i0, i1, i2})"
  by (cases st) auto

lemma waits_uses: "waits_on st b \<Longrightarrow> vuses st b"
  by (auto simp: waits_on_def)

lemma vinvD:
  assumes "vinv s"
  shows "rings_ok s" "vstage_of s p = Waiting b w i0 i1 i2 \<Longrightarrow> request_ok s b w i0 i1 i2"
    "vstage_of s p = Waiting b w i0 i1 i2 \<Longrightarrow> vasleep s p \<Longrightarrow> vb_disk (vbufs s b)"
    "vuses (vstage_of s p) b \<Longrightarrow> vuses (vstage_of s q) b \<Longrightarrow> p = q"
    "i \<in> vdescs (vstage_of s p) \<Longrightarrow> i \<in> vdescs (vstage_of s q) \<Longrightarrow> p = q"
    "\<forall>p. \<not> waits_on (vstage_of s p) b \<Longrightarrow> of_buf b (dev_log s) = of_buf b (vreturned s)"
    "i < NUM \<Longrightarrow> \<not> dk_free s i \<Longrightarrow> \<exists>p. i \<in> vdescs (vstage_of s p)"
    "vstage_of s p = WantDesc b w \<Longrightarrow> vasleep s p \<Longrightarrow> \<exists>q b'. waits_on (vstage_of s q) b'"
  using assms unfolding vinv_def by blast+

lemma vinvI:
  assumes "rings_ok s" "\<And>p b w i0 i1 i2. vstage_of s p = Waiting b w i0 i1 i2 \<Longrightarrow> request_ok s b w i0 i1 i2"
    "\<And>p b w i0 i1 i2. vstage_of s p = Waiting b w i0 i1 i2 \<Longrightarrow> vasleep s p \<Longrightarrow> vb_disk (vbufs s b)"
    "\<And>p q b. vuses (vstage_of s p) b \<Longrightarrow> vuses (vstage_of s q) b \<Longrightarrow> p = q"
    "\<And>p q i. i \<in> vdescs (vstage_of s p) \<Longrightarrow> i \<in> vdescs (vstage_of s q) \<Longrightarrow> p = q"
    "\<And>b. \<forall>p. \<not> waits_on (vstage_of s p) b \<Longrightarrow> of_buf b (dev_log s) = of_buf b (vreturned s)"
    "\<And>i. i < NUM \<Longrightarrow> \<not> dk_free s i \<Longrightarrow> \<exists>p. i \<in> vdescs (vstage_of s p)"
    "\<And>p b w. vstage_of s p = WantDesc b w \<Longrightarrow> vasleep s p \<Longrightarrow> \<exists>q b'. waits_on (vstage_of s q) b'"
  shows "vinv s"
  unfolding vinv_def using assms by meson

lemma request_ok_cong:
  assumes "request_ok s b w i0 i1 i2"
    and "\<And>i. i \<in> {i0, i1, i2} \<Longrightarrow> dk_free s' i = dk_free s i" "\<And>i. i \<in> {i0, i1, i2} \<Longrightarrow> dk_desc s' i = dk_desc s i"
    and "dk_ops s' i0 = dk_ops s i0" "dk_info_b s' i0 = dk_info_b s i0" "dk_info_status s' i0 = dk_info_status s i0"
    and "vb_blockno (vbufs s' b) = vb_blockno (vbufs s b)" "vb_disk (vbufs s' b) = vb_disk (vbufs s b)"
    and "i0 \<in> set (device_heads s') \<longleftrightarrow> i0 \<in> set (device_heads s)" "i0 \<in> set (used_heads s') \<longleftrightarrow> i0 \<in> set (used_heads s)"
    and "of_buf b (dev_log s') = of_buf b (dev_log s)" "of_buf b (vreturned s') = of_buf b (vreturned s)"
  shows "request_ok s' b w i0 i1 i2"
  using assms by (simp add: request_ok_def chain_ok_def vb_sector_def)

section \<open>Every step keeps it\<close>

lemma heads_cong:
  assumes "dk_avail s' = dk_avail s" "dev_avail s' = dev_avail s" "dk_avail_idx s' = dk_avail_idx s" "dev_taken s' = dev_taken s"
    "dk_used s' = dk_used s" "dk_used_idx s' = dk_used_idx s" "dk_used_ring_idx s' = dk_used_ring_idx s"
  shows "device_heads s' = device_heads s" "used_heads s' = used_heads s"
  using assms by (simp_all add: device_heads_def avail_heads_def used_heads_def)

text \<open>Changes that leave the driver's own data and the device alone.\<close>

lemma outside_step:
  assumes inv: "vinv s" and same: "disk.truncate s' = disk.truncate s" "dev_avail s' = dev_avail s" "dev_taken s' = dev_taken s"
      "dev_log s' = dev_log s" "vreturned s' = vreturned s"
    and waits: "\<And>p b w i0 i1 i2. vstage_of s' p = Waiting b w i0 i1 i2 \<longleftrightarrow> vstage_of s p = Waiting b w i0 i1 i2"
    and bufs: "\<And>p b. waits_on (vstage_of s p) b \<Longrightarrow> vb_blockno (vbufs s' b) = vb_blockno (vbufs s b) \<and> vb_disk (vbufs s' b) = vb_disk (vbufs s b)"
    and uses: "\<And>p q b. vuses (vstage_of s' p) b \<Longrightarrow> vuses (vstage_of s' q) b \<Longrightarrow> p = q"
    and sleep: "\<And>p. vasleep s' p \<Longrightarrow> vstage_of s' p = vstage_of s p \<and> vasleep s p \<or> (\<exists>b w. vstage_of s' p = WantDesc b w \<and> (\<exists>q b'. waits_on (vstage_of s q) b'))"
  shows "vinv s'"
proof -
  have dk: "dk_desc s' = dk_desc s" "dk_free s' = dk_free s" "dk_ops s' = dk_ops s" "dk_info_b s' = dk_info_b s" "dk_info_status s' = dk_info_status s"
      "dk_avail s' = dk_avail s" "dk_avail_idx s' = dk_avail_idx s" "dk_used s' = dk_used s" "dk_used_idx s' = dk_used_idx s"
      "dk_used_ring_idx s' = dk_used_ring_idx s"
    using same(1) by (simp_all add: disk.truncate_def)
  note heads = heads_cong [OF dk(6) same(2) dk(7) same(3) dk(8-10)]
  have ds: "vdescs (vstage_of s' p) = vdescs (vstage_of s p)" "waits_on (vstage_of s' p) b \<longleftrightarrow> waits_on (vstage_of s p) b" for p b
    by (simp_all add: set_eq_iff vdescs_iff waits_on_def waits)
  note old = vinvD [OF inv]
  show ?thesis
  proof (rule vinvI)
    show "rings_ok s'" using old(1) waits by (simp add: rings_ok_def heads dk same)
    show "request_ok s' b w i0 i1 i2" if "vstage_of s' p = Waiting b w i0 i1 i2" for p b w i0 i1 i2
      using old(2) [of p b w i0 i1 i2] that waits bufs [of p b] by (auto intro!: request_ok_cong [of s] simp: heads dk same)
    show "vb_disk (vbufs s' b)" if "vstage_of s' p = Waiting b w i0 i1 i2" "vasleep s' p" for p b w i0 i1 i2
      using old(3) [OF that(1) [unfolded waits]] that sleep [of p] bufs [of p b] that(1) [unfolded waits] by auto
    show "p = q" if "i \<in> vdescs (vstage_of s' p)" "i \<in> vdescs (vstage_of s' q)" for p q i using old(5) that ds(1) by blast
    show "of_buf b (dev_log s') = of_buf b (vreturned s')" if "\<forall>p. \<not> waits_on (vstage_of s' p) b" for b using old(6) that ds(2) by (simp add: same)
    show "\<exists>p. i \<in> vdescs (vstage_of s' p)" if "i < NUM" "\<not> dk_free s' i" for i using old(7) that ds(1) dk(2) by simp
    show "\<exists>q b'. waits_on (vstage_of s' q) b'" if "vstage_of s' p = WantDesc b w" "vasleep s' p" for p b w
      using old(8) [of p b w] that sleep [of p] ds(2) by auto
  qed (rule uses)
qed

lemma truncate_upd [simp]:
  "disk.truncate (s\<lparr>vasleep := a\<rparr>) = disk.truncate s" "disk.truncate (s\<lparr>vstage_of := g\<rparr>) = disk.truncate s"
  "disk.truncate (s\<lparr>vbufs := f\<rparr>) = disk.truncate s" "disk.truncate (s\<lparr>vreturned := f'\<rparr>) = disk.truncate s"
  by (simp_all add: disk.truncate_def)

lemma vinv_asleep: "vinv s \<Longrightarrow> (\<And>p. a p \<Longrightarrow> vasleep s p) \<Longrightarrow> vinv (s\<lparr>vasleep := a\<rparr>)"
  by (rule outside_step [of s]) (auto dest: vinvD(4))

lemma vinv_wakeup: "vinv s \<Longrightarrow> vinv (vwakeup ch s)"
  unfolding vwakeup_def by (rule vinv_asleep) auto

lemma vinv_edit:
  "vinv s \<Longrightarrow> \<forall>q. \<not> vuses (vstage_of s q) b \<Longrightarrow> vinv (upd_vbuf b (\<lambda>x. x\<lparr>vb_blockno := n, vb_data := f\<rparr>) s)"
  unfolding upd_vbuf_def by (rule outside_step [of s]) (auto dest: vinvD(4) waits_uses)

lemma vinv_want:
  assumes inv: "vinv s" and p: "vstage_of s p \<in> {Idle, WantDesc b w}" "\<And>q. q \<noteq> p \<Longrightarrow> \<not> vuses (vstage_of s q) b"
    and a: "a \<longrightarrow> (\<exists>q b'. waits_on (vstage_of s q) b')"
  shows "vinv (s\<lparr>vstage_of := (vstage_of s)(p := WantDesc b w), vasleep := (vasleep s)(p := a)\<rparr>)" (is "vinv ?s")
proof (rule outside_step [OF inv])
  fix x y c
  show "x = y" if "vuses (vstage_of ?s x) c" "vuses (vstage_of ?s y) c"
  proof (cases "c = b")
    case True
    with that p(2) show ?thesis by (cases "x = p"; cases "y = p") auto
  next
    case False
    with that have "x \<noteq> p" "y \<noteq> p" by auto
    with that show ?thesis using vinvD(4) [OF inv, of x c y] by simp
  qed
next
  show "vasleep ?s x \<Longrightarrow> vstage_of ?s x = vstage_of s x \<and> vasleep s x \<or> (\<exists>b w. vstage_of ?s x = WantDesc b w \<and> (\<exists>q b'. waits_on (vstage_of s q) b'))" for x
    using a by (cases "x = p") auto
  show "(vstage_of ?s x = Waiting c v i0 i1 i2) = (vstage_of s x = Waiting c v i0 i1 i2)" for x c v i0 i1 i2 using p(1) by auto
qed simp_all

lemma rings_okD:
  assumes "rings_ok s"
  shows "ring_ok NUM (dk_avail s) (dev_avail s) (dk_avail_idx s)" "ring_ok NUM (dk_used s) (dk_used_idx s) (dk_used_ring_idx s)"
    "distinct (device_heads s)" "distinct (used_heads s)" "h \<in> set (device_heads s) \<Longrightarrow> h \<notin> set (used_heads s)"
    "h \<in> set (device_heads s) \<union> set (used_heads s) \<Longrightarrow> \<exists>p b w i1 i2. vstage_of s p = Waiting b w h i1 i2"
  using assms unfolding rings_ok_def by auto

lemma other_request:
  assumes "vinv s" "vstage_of s p = Waiting b w i0 i1 i2" "vstage_of s q = Waiting b' w' j0 j1 j2" "q \<noteq> p"
  shows "b' \<noteq> b" "{j0, j1, j2} \<inter> {i0, i1, i2} = {}"
  using assms vinvD(4) [OF assms(1), of p b q] vinvD(5) [OF assms(1), of _ p q] by auto

lemma intr_round:
  assumes inv: "vinv s" and ne: "dk_used_idx s \<noteq> dk_used_ring_idx s" and h: "h = unat (dk_used s ! (unat (dk_used_idx s) mod NUM))"
  obtains b where "h < NUM" "dk_info_status s h = 0" "dk_info_b s h = Some b"
    "vinv ((vwakeup (BufChan b) (upd_vbuf b (\<lambda>x. x\<lparr>vb_disk := False\<rparr>) s))\<lparr>dk_used_idx := dk_used_idx s + 1\<rparr>)"
proof -
  note old = vinvD [OF inv] and ring = rings_okD [OF vinvD(1) [OF inv]]
  have used: "used_heads s = h # map unat (ring_contents (dk_used s) (dk_used_idx s + 1) (dk_used_ring_idx s))"
    using ring_get(2) [OF ring(2) ne [symmetric]] by (simp add: used_heads_def h)
  obtain p b w i1 i2 where p: "vstage_of s p = Waiting b w h i1 i2" using ring(6) [of h] used by auto
  have req: "request_ok s b w h i1 i2" using old(2) [OF p] .
  define s' where "s' = (vwakeup (BufChan b) (upd_vbuf b (\<lambda>x. x\<lparr>vb_disk := False\<rparr>) s))\<lparr>dk_used_idx := dk_used_idx s + 1\<rparr>"
  have sel: "vstage_of s' = vstage_of s" "dk_free s' = dk_free s" "dk_desc s' = dk_desc s" "dk_ops s' = dk_ops s" "dk_info_b s' = dk_info_b s"
      "dk_info_status s' = dk_info_status s" "dev_log s' = dev_log s" "vreturned s' = vreturned s" "device_heads s' = device_heads s"
      "used_heads s = h # used_heads s'" "vbufs s' = (vbufs s)(b := (vbufs s b)\<lparr>vb_disk := False\<rparr>)"
      "vasleep s' = (\<lambda>x. vasleep s x \<and> vchan_of (vstage_of s x) \<noteq> Some (BufChan b))"
    using used by (simp_all add: s'_def vwakeup_def upd_vbuf_def device_heads_def avail_heads_def used_heads_def)
  have ns: "h \<notin> set (used_heads s')" "h \<notin> set (device_heads s')" using ring(4) ring(5) [of h] sel(9,10) by auto
  have "vinv s'"
  proof (rule vinvI)
    show "rings_ok s'"
      using old(1) ring_get(1) [OF ring(2) ne [symmetric]] sel(1,9,10) unfolding rings_ok_def by (simp add: s'_def vwakeup_def upd_vbuf_def)
    fix q b' w' j0 j1 j2
    assume q: "vstage_of s' q = Waiting b' w' j0 j1 j2"
    show "request_ok s' b' w' j0 j1 j2"
    proof (cases "q = p")
      case True
      then show ?thesis using p q req ns sel(9) by (simp add: sel(1-8,11) request_ok_def chain_ok_def vb_sector_def)
    next
      case False
      from other_request [OF inv p q [unfolded sel(1)] False] old(2) [OF q [unfolded sel(1)]] show ?thesis
        by (elim request_ok_cong) (auto simp: sel)
    qed
    assume "vasleep s' q"
    then have "b' \<noteq> b" "vasleep s q" using q by (auto simp: sel(1,12) vchan_of_def)
    then show "vb_disk (vbufs s' b')" using old(3) [OF q [unfolded sel(1)]] by (simp add: sel(11))
  qed (use old(4-8) in \<open>auto simp: sel(1,2,7,8,12)\<close>)
  then show ?thesis using that [of b] req p sel(10) by (auto simp: s'_def request_ok_def chain_ok_def)
qed

lemma intr_ok: "vinv s \<Longrightarrow> \<exists>s'. virtio_disk_intr s = Ok s' \<and> vinv s'"
proof (induction s rule: virtio_disk_intr.induct)
  case (1 s)
  show ?case
  proof (cases "dk_used_idx s = dk_used_ring_idx s")
    case True
    with 1 show ?thesis by (simp add: virtio_disk_intr.simps)
  next
    case False
    from intr_round [OF 1(2) False refl] obtain b where
      b: "unat (dk_used s ! (unat (dk_used_idx s) mod NUM)) < NUM" "dk_info_status s (unat (dk_used s ! (unat (dk_used_idx s) mod NUM))) = 0"
        "dk_info_b s (unat (dk_used s ! (unat (dk_used_idx s) mod NUM))) = Some b"
        "vinv ((vwakeup (BufChan b) (upd_vbuf b (\<lambda>x. x\<lparr>vb_disk := False\<rparr>) s))\<lparr>dk_used_idx := dk_used_idx s + 1\<rparr>)" .
    then show ?thesis using 1(1) [OF False refl _ _ b(3,4)] False by (simp add: virtio_disk_intr.simps [of s])
  qed
qed

lemma vinv_take:
  assumes inv: "vinv s" and ne: "dev_avail s \<noteq> dk_avail_idx s"
  shows "vinv (dev_take s)"
proof -
  note old = vinvD [OF inv] and ring = rings_okD [OF vinvD(1) [OF inv]]
  let ?s = "dev_take s"
  have av: "avail_heads s = unat (dk_avail s ! (unat (dev_avail s) mod NUM)) # avail_heads ?s"
    using ring_get(2) [OF ring(1) ne [symmetric]] by (simp add: avail_heads_def dev_take_def)
  have sel: "vstage_of ?s = vstage_of s" "vasleep ?s = vasleep s" "vbufs ?s = vbufs s" "dk_free ?s = dk_free s" "dev_log ?s = dev_log s"
      "vreturned ?s = vreturned s" "used_heads ?s = used_heads s"
    by (simp_all add: dev_take_def used_heads_def)
  have heads: "set (device_heads ?s) = set (device_heads s)" "distinct (device_heads ?s) = distinct (device_heads s)"
    using av by (auto simp: device_heads_def) (auto simp: dev_take_def)
  show ?thesis
  proof (rule vinvI)
    show "rings_ok ?s"
      using old(1) ring_get(1) [OF ring(1) ne [symmetric]] heads sel unfolding rings_ok_def by (auto simp: dev_take_def)
    show "request_ok ?s b w i0 i1 i2" if "vstage_of ?s p = Waiting b w i0 i1 i2" for p b w i0 i1 i2
      using old(2) [OF that [unfolded sel]] by (rule request_ok_cong) (simp_all add: heads sel, simp_all add: dev_take_def)
  qed (use old(3-8) in \<open>auto simp: sel\<close>)
qed

lemma unat_index: "i < NUM \<Longrightarrow> unat (of_nat i :: 'a::len word) = i" if "LENGTH('a) \<ge> 3"
proof -
  assume "i < NUM"
  also have "NUM \<le> 2 ^ LENGTH('a)" using that power_increasing [of 3 "LENGTH('a)" "2 :: nat"] by (simp add: NUM_def)
  finally show ?thesis by (simp add: unat_of_nat take_bit_nat_eq_self_iff)
qed

lemma heads_bounded: "vinv s \<Longrightarrow> h \<in> set (device_heads s) \<union> set (used_heads s) \<Longrightarrow> h < NUM"
  using rings_okD(6) [OF vinvD(1), of s h] vinvD(2) [of s] by (force simp: request_ok_def)

lemma ring_room:
  assumes "distinct hs" "set hs \<subseteq> {..<NUM}" "h < NUM" "h \<notin> set hs"
  shows "length hs < NUM"
proof -
  have "card (insert h (set hs)) \<le> card {..<NUM}" using assms by (intro card_mono) auto
  then show ?thesis using assms by (simp add: distinct_card)
qed

lemma dev_request_ok: "request_ok s b w i0 i1 i2 \<Longrightarrow> dev_request i0 s = Some (w, vb_sector (vbufs s b), b, i0)"
  by (simp add: request_ok_def chain_ok_def dev_request_def unat_index VRING_DESC_F_NEXT_def VRING_DESC_F_WRITE_def BSIZE_def
    VIRTIO_BLK_T_OUT_def VIRTIO_BLK_T_IN_def)

lemma dev_transfer_sel [simp]:
  "vstage_of (dev_transfer w sec b s) = vstage_of s" "vasleep (dev_transfer w sec b s) = vasleep s"
  "dev_avail (dev_transfer w sec b s) = dev_avail s" "dev_taken (dev_transfer w sec b s) = dev_taken s" "dev_log (dev_transfer w sec b s) = dev_log s"
  "vreturned (dev_transfer w sec b s) = vreturned s" "vb_blockno (vbufs (dev_transfer w sec b s) b') = vb_blockno (vbufs s b')"
  "vb_disk (vbufs (dev_transfer w sec b s) b') = vb_disk (vbufs s b')"
  by (simp_all add: dev_transfer_def Let_def upd_vbuf_def)

lemma dev_transfer_disk [simp]:
  "dk_desc (dev_transfer w sec b s) = dk_desc s" "dk_free (dev_transfer w sec b s) = dk_free s" "dk_ops (dev_transfer w sec b s) = dk_ops s"
  "dk_info_b (dev_transfer w sec b s) = dk_info_b s" "dk_info_status (dev_transfer w sec b s) = dk_info_status s"
  "dk_avail (dev_transfer w sec b s) = dk_avail s" "dk_avail_idx (dev_transfer w sec b s) = dk_avail_idx s"
  "dk_used (dev_transfer w sec b s) = dk_used s" "dk_used_idx (dev_transfer w sec b s) = dk_used_idx s"
  "dk_used_ring_idx (dev_transfer w sec b s) = dk_used_ring_idx s"
  by (simp_all add: dev_transfer_def Let_def upd_vbuf_def)

lemma finish_ok:
  assumes inv: "vinv s" and h: "h \<in> set (dev_taken s)"
  shows "\<exists>s'. dev_finish h s = Ok s' \<and> vinv s'"
proof -
  note old = vinvD [OF inv] and ring = rings_okD [OF vinvD(1) [OF inv]]
  have hd: "h \<in> set (device_heads s)" "h < NUM" using h heads_bounded [OF inv, of h] by (simp_all add: device_heads_def)
  obtain p b w i1 i2 where p: "vstage_of s p = Waiting b w h i1 i2" using ring(6) [of h] hd by auto
  note req = old(2) [OF p]
  define t where "t = dev_transfer w (vb_sector (vbufs s b)) b s"
  define s' where "s' = t\<lparr>dk_info_status := (dk_info_status t)(h := 0), dk_used := (dk_used t)[unat (dk_used_ring_idx t) mod NUM := of_nat h],
    dk_used_ring_idx := dk_used_ring_idx t + 1, dev_taken := remove1 h (dev_taken t), dev_log := dev_log t @ [(b, w, vb_sector (vbufs s b))]\<rparr>"
  have ok: "dev_finish h s = Ok s'" by (simp add: dev_finish_def dev_request_ok [OF req] s'_def t_def Let_def)
  have "length (used_heads s) < NUM"
    using ring_room [OF ring(4) _ hd(2)] ring(5) [OF hd(1)] heads_bounded [OF inv] by auto
  then have room: "unat (dk_used_ring_idx s - dk_used_idx s) < NUM" by (simp add: used_heads_def ring_length)
  have sel: "vstage_of s' = vstage_of s" "vasleep s' = vasleep s" "dk_free s' = dk_free s" "dk_desc s' = dk_desc s" "dk_ops s' = dk_ops s"
      "dk_info_b s' = dk_info_b s" "vreturned s' = vreturned s" "dk_info_status s' = (dk_info_status s)(h := 0)"
      "dev_log s' = dev_log s @ [(b, w, vb_sector (vbufs s b))]" "avail_heads s' = avail_heads s" "dev_taken s' = remove1 h (dev_taken s)"
      "vb_blockno (vbufs s' x) = vb_blockno (vbufs s x)" "vb_disk (vbufs s' x) = vb_disk (vbufs s x)" for x
    by (simp_all add: s'_def t_def avail_heads_def)
  have used: "used_heads s' = used_heads s @ [h]"
    using ring_put(2) [OF ring(2) room] hd(2) by (simp add: used_heads_def s'_def t_def unat_index)
  have dev: "set (device_heads s') = set (device_heads s) - {h}" "distinct (device_heads s')"
    using ring(3) h by (auto simp: device_heads_def sel distinct_remove1)
  have "vinv s'"
  proof (rule vinvI)
    have "ring_ok NUM (dk_used s') (dk_used_idx s') (dk_used_ring_idx s')" using ring_put(1) [OF ring(2) room] by (simp add: s'_def t_def)
    moreover have "ring_ok NUM (dk_avail s') (dev_avail s') (dk_avail_idx s')" using ring(1) by (simp add: s'_def t_def)
    moreover have "distinct (device_heads s' @ used_heads s')" using ring(4,5) dev hd(1) by (auto simp: used)
    moreover have "\<exists>p b w i1 i2. vstage_of s' p = Waiting b w x i1 i2" if "x \<in> set (device_heads s') \<union> set (used_heads s')" for x
      using ring(6) [of x] that dev hd(1) by (auto simp: used sel)
    ultimately show "rings_ok s'" unfolding rings_ok_def by blast
    show "request_ok s' c v j0 j1 j2" if q: "vstage_of s' q = Waiting c v j0 j1 j2" for q c v j0 j1 j2
    proof (cases "q = p")
      case True
      then show ?thesis using p q req ring(5) hd(1) by (simp add: sel used dev request_ok_def chain_ok_def vb_sector_def)
    next
      case False
      from other_request [OF inv p q [unfolded sel] False] old(2) [OF q [unfolded sel]] show ?thesis
        by (elim request_ok_cong) (auto simp: sel used dev)
    qed
    show "of_buf c (dev_log s') = of_buf c (vreturned s')" if "\<forall>q. \<not> waits_on (vstage_of s' q) c" for c
    proof -
      have "c \<noteq> b" using that p by (auto simp: sel waits_on_def)
      then show ?thesis using old(6) [of c] that by (simp add: sel)
    qed
  qed (use old(3-5,7,8) in \<open>auto simp: sel\<close>)
  with ok show ?thesis by blast
qed

lemma vwakeup_upd [simp]:
  "vwakeup ch (vwakeup ch s) = vwakeup ch s"
  "(vwakeup ch s)\<lparr>dk_desc := d\<rparr> = vwakeup ch (s\<lparr>dk_desc := d\<rparr>)" "(vwakeup ch s)\<lparr>dk_free := f\<rparr> = vwakeup ch (s\<lparr>dk_free := f\<rparr>)"
  by (simp_all add: vwakeup_def)

lemma free_chain_three:
  assumes "distinct [i0, i1, i2]" "\<forall>i \<in> {i0, i1, i2}. i < NUM \<and> \<not> dk_free s i"
    and "vd_flags (dk_desc s i0) AND VRING_DESC_F_NEXT \<noteq> 0" "vd_next (dk_desc s i0) = of_nat i1"
    and "vd_flags (dk_desc s i1) AND VRING_DESC_F_NEXT \<noteq> 0" "vd_next (dk_desc s i1) = of_nat i2" "vd_flags (dk_desc s i2) AND VRING_DESC_F_NEXT = 0"
  shows "free_chain i0 s = Ok (vwakeup FreeChan (s\<lparr>dk_desc := (dk_desc s)(i0 := zero_desc, i1 := zero_desc, i2 := zero_desc),
    dk_free := (dk_free s)(i0 := True, i1 := True, i2 := True)\<rparr>))"
proof -
  have i: "unat (of_nat i1 :: u16) = i1" "unat (of_nat i2 :: u16) = i2" using assms(2) by (simp_all add: unat_index)
  have step: "free_chain i t = (if vd_flags (dk_desc t i) AND VRING_DESC_F_NEXT \<noteq> 0 then free_chain (unat (vd_next (dk_desc t i))) t' else Ok t')"
    if "i < NUM" "\<not> dk_free t i" "t' = vwakeup FreeChan (t\<lparr>dk_desc := (dk_desc t)(i := zero_desc), dk_free := (dk_free t)(i := True)\<rparr>)" for i t t'
    using that by (simp add: free_chain.simps [of i t] free_desc_def)
  show ?thesis
    using assms i by (simp add: step [OF _ _ refl])
qed

lemma chain_flags: "chain_ok s b w i0 i1 i2 \<Longrightarrow> vd_flags (dk_desc s i0) AND VRING_DESC_F_NEXT \<noteq> 0 \<and> vd_flags (dk_desc s i1) AND VRING_DESC_F_NEXT \<noteq> 0 \<and>
    vd_flags (dk_desc s i2) AND VRING_DESC_F_NEXT = 0 \<and> vd_next (dk_desc s i0) = of_nat i1 \<and> vd_next (dk_desc s i1) = of_nat i2"
  by (simp add: chain_ok_def VRING_DESC_F_NEXT_def VRING_DESC_F_WRITE_def)

lemma wait_sleeps:
  assumes inv: "vinv s" and p: "vstage_of s p = Waiting b w i0 i1 i2" "vb_disk (vbufs s b)"
  shows "vinv (s\<lparr>vstage_of := (vstage_of s)(p := Waiting b w i0 i1 i2), vasleep := (vasleep s)(p := True)\<rparr>)"
proof -
  note old = vinvD [OF inv]
  define s' where "s' = s\<lparr>vasleep := (vasleep s)(p := True)\<rparr>"
  have sel: "vstage_of s' = vstage_of s" "vbufs s' = vbufs s" "dk_free s' = dk_free s" "dev_log s' = dev_log s" "vreturned s' = vreturned s"
      "vasleep s' = (vasleep s)(p := True)" by (simp_all add: s'_def)
  have heads: "device_heads s' = device_heads s" "used_heads s' = used_heads s" by (rule heads_cong; simp add: s'_def)+
  have "vinv s'"
  proof (rule vinvI)
    show "rings_ok s'" using old(1) unfolding rings_ok_def heads sel by (simp add: s'_def)
    show "request_ok s' c v j0 j1 j2" if "vstage_of s' q = Waiting c v j0 j1 j2" for q c v j0 j1 j2
      using old(2) [OF that [unfolded sel]] by (rule request_ok_cong) (simp_all add: heads, simp_all add: s'_def)
    show "vb_disk (vbufs s' c)" if "vstage_of s' q = Waiting c v j0 j1 j2" "vasleep s' q" for q c v j0 j1 j2
      using old(3) [OF that(1) [unfolded sel]] that p unfolding sel by (cases "q = p") auto
    show "\<exists>q b'. waits_on (vstage_of s' q) b'" if "vstage_of s' x = WantDesc c v" for x c v using p(1) unfolding sel by (metis waits_on_def)
  qed (use old(4-7) in \<open>auto simp: sel\<close>)
  moreover have "(vstage_of s)(p := Waiting b w i0 i1 i2) = vstage_of s" using p(1) by (simp add: fun_upd_idem)
  ultimately show ?thesis by (simp add: s'_def)
qed

lemma wait_returns:
  assumes inv: "vinv s" and p: "vstage_of s p = Waiting b w i0 i1 i2" "\<not> vb_disk (vbufs s b)"
  shows "\<exists>s'. disk_wait p b w i0 i1 i2 s = Ok s' \<and> vinv s'"
proof -
  note old = vinvD [OF inv] and ring = rings_okD [OF vinvD(1) [OF inv]]
  note req = old(2) [OF p(1)]
  define t where "t = s\<lparr>dk_info_b := (dk_info_b s)(i0 := None), dk_desc := (dk_desc s)(i0 := zero_desc, i1 := zero_desc, i2 := zero_desc),
    dk_free := (dk_free s)(i0 := True, i1 := True, i2 := True)\<rparr>"
  define s' where "s' = (vwakeup FreeChan t)\<lparr>vstage_of := (vstage_of s)(p := Idle), vreturned := vreturned s @ [(b, w, vb_sector (vbufs s b))]\<rparr>"
  have "free_chain i0 (s\<lparr>dk_info_b := (dk_info_b s)(i0 := None)\<rparr>) = Ok (vwakeup FreeChan t)"
    using req chain_flags [of s b w i0 i1 i2] by (subst free_chain_three) (auto simp: request_ok_def t_def)
  then have ok: "disk_wait p b w i0 i1 i2 s = Ok s'"
    using p(2) by (simp add: disk_wait_def s'_def) (simp add: vwakeup_def t_def)
  have sel: "vstage_of s' = (vstage_of s)(p := Idle)" "vasleep s' = (\<lambda>x. vasleep s x \<and> vchan_of (vstage_of s x) \<noteq> Some FreeChan)"
      "dk_free s' = (dk_free s)(i0 := True, i1 := True, i2 := True)" "dk_desc s' = (dk_desc s)(i0 := zero_desc, i1 := zero_desc, i2 := zero_desc)"
      "dk_ops s' = dk_ops s" "dk_info_b s' = (dk_info_b s)(i0 := None)" "dk_info_status s' = dk_info_status s" "vbufs s' = vbufs s" "dev_log s' = dev_log s"
      "vreturned s' = vreturned s @ [(b, w, vb_sector (vbufs s b))]" "device_heads s' = device_heads s" "used_heads s' = used_heads s"
    by (simp_all add: s'_def t_def vwakeup_def device_heads_def avail_heads_def used_heads_def)
  have out: "i0 \<notin> set (device_heads s) \<union> set (used_heads s)" using req p(2) by (simp add: request_ok_def)
  have "vinv s'"
  proof (rule vinvI)
    have "\<exists>q b w i1 i2. vstage_of s' q = Waiting b w h i1 i2" if h: "h \<in> set (device_heads s) \<union> set (used_heads s)" for h
    proof -
      obtain q c v j1 j2 where q: "vstage_of s q = Waiting c v h j1 j2" using ring(6) [OF h] by blast
      moreover have "q \<noteq> p" using q p(1) h out by auto
      ultimately show ?thesis unfolding sel by (metis fun_upd_other)
    qed
    then show "rings_ok s'"
      using old(1) unfolding rings_ok_def sel by (simp add: s'_def t_def vwakeup_def)
    show "request_ok s' c v j0 j1 j2" if q: "vstage_of s' q = Waiting c v j0 j1 j2" for q c v j0 j1 j2
    proof -
      have "q \<noteq> p" "vstage_of s q = Waiting c v j0 j1 j2" using q by (auto simp: sel split: if_splits)
      from other_request [OF inv p(1) this(2,1)] old(2) [OF this(2)] show ?thesis by (elim request_ok_cong) (auto simp: sel)
    qed
    show "of_buf c (dev_log s') = of_buf c (vreturned s')" if "\<forall>q. \<not> waits_on (vstage_of s' q) c" for c
    proof (cases "c = b")
      case True
      then show ?thesis using req out by (simp add: sel request_ok_def)
    next
      case False
      then have "\<not> waits_on (vstage_of s q) c" for q
        using that [rule_format, of q] p(1) by (cases "q = p") (simp_all add: sel)
      then show ?thesis using old(6) [of c] False by (simp add: sel)
    qed
    show "\<exists>q. i \<in> vdescs (vstage_of s' q)" if lt: "i < NUM" "\<not> dk_free s' i" for i
    proof -
      have i: "i \<notin> {i0, i1, i2}" "\<not> dk_free s i" using lt(2) by (auto simp: sel split: if_splits)
      then obtain q where "i \<in> vdescs (vstage_of s q)" using old(7) lt(1) by blast
      then show ?thesis using i(1) p(1) by (intro exI [of _ q]) (auto simp: sel)
    qed
    show "\<exists>q b'. waits_on (vstage_of s' q) b'" if "vstage_of s' x = WantDesc c v" "vasleep s' x" for x c v
      using that by (auto simp: sel vchan_of_def split: if_splits)
  qed (use old(3-5) in \<open>auto simp: sel split: if_splits\<close>)
  with ok show ?thesis by blast
qed

lemma free_descs_ok:
  "distinct idx \<Longrightarrow> \<forall>i \<in> set idx. i < NUM \<and> \<not> dk_free s i \<Longrightarrow>
   \<exists>D a. free_descs idx s = Ok (s\<lparr>dk_free := (\<lambda>i. dk_free s i \<or> i \<in> set idx), dk_desc := D, vasleep := a\<rparr>) \<and>
     (\<forall>i. i \<notin> set idx \<longrightarrow> D i = dk_desc s i) \<and> (\<forall>p. a p \<longrightarrow> vasleep s p)"
proof (induction idx arbitrary: s)
  case Nil
  show ?case by (intro exI [of _ "dk_desc s"] exI [of _ "vasleep s"]) simp
next
  case (Cons i idx)
  define t where "t = vwakeup FreeChan (s\<lparr>dk_desc := (dk_desc s)(i := zero_desc), dk_free := (dk_free s)(i := True)\<rparr>)"
  have one: "free_desc i s = Ok t" using Cons.prems by (simp add: free_desc_def t_def)
  have sel: "dk_free t = (dk_free s)(i := True)" "dk_desc t = (dk_desc s)(i := zero_desc)" "vasleep t p \<Longrightarrow> vasleep s p" for p
    by (simp_all add: t_def vwakeup_def)
  have "distinct idx" "\<forall>j \<in> set idx. j < NUM \<and> \<not> dk_free t j" using Cons.prems by (auto simp: sel)
  from Cons.IH [OF this] obtain D a where
    D: "free_descs idx t = Ok (t\<lparr>dk_free := (\<lambda>j. dk_free t j \<or> j \<in> set idx), dk_desc := D, vasleep := a\<rparr>)"
      "\<forall>j. j \<notin> set idx \<longrightarrow> D j = dk_desc t j" "\<forall>p. a p \<longrightarrow> vasleep t p" by blast
  have "(\<lambda>j. dk_free t j \<or> j \<in> set idx) = (\<lambda>j. dk_free s j \<or> j \<in> set (i # idx))" by (auto simp: sel)
  then have "t\<lparr>dk_free := (\<lambda>j. dk_free t j \<or> j \<in> set idx), dk_desc := D, vasleep := a\<rparr> =
      s\<lparr>dk_free := (\<lambda>j. dk_free s j \<or> j \<in> set (i # idx)), dk_desc := D, vasleep := a\<rparr>"
    by (simp add: t_def vwakeup_def)
  with D(1) one have "free_descs (i # idx) s = Ok (s\<lparr>dk_free := (\<lambda>j. dk_free s j \<or> j \<in> set (i # idx)), dk_desc := D, vasleep := a\<rparr>)" by simp
  moreover have "\<forall>j. j \<notin> set (i # idx) \<longrightarrow> D j = dk_desc s j" "\<forall>p. a p \<longrightarrow> vasleep s p" using D(2,3) by (auto simp: sel)
  ultimately show ?case by blast
qed

lemma alloc3_loop_cases:
  assumes "distinct idx" "\<forall>i \<in> set idx. i < NUM \<and> dk_free t i" "s = t\<lparr>dk_free := (\<lambda>i. dk_free t i \<and> i \<notin> set idx)\<rparr>"
  shows "(\<exists>is. length is = n \<and> distinct (idx @ is) \<and> (\<forall>i \<in> set is. i < NUM \<and> dk_free t i) \<and>
      alloc3_loop n idx s = Ok (Some (idx @ is), t\<lparr>dk_free := (\<lambda>i. dk_free t i \<and> i \<notin> set (idx @ is))\<rparr>)) \<or>
    (\<exists>D a js. alloc3_loop n idx s = Ok (None, t\<lparr>dk_desc := D, vasleep := a\<rparr>) \<and> (\<forall>i. \<not> dk_free t i \<longrightarrow> D i = dk_desc t i) \<and>
      (\<forall>p. a p \<longrightarrow> vasleep t p) \<and> length js < length idx + n \<and> (\<forall>i < NUM. dk_free t i \<longrightarrow> i \<in> set js))"
  using assms
proof (induction n arbitrary: idx s)
  case 0
  then show ?case by simp
next
  case (Suc n)
  have idx: "distinct idx" "\<And>i. i \<in> set idx \<Longrightarrow> i < NUM \<and> dk_free t i" using Suc.prems by auto
  have fr: "dk_free s = (\<lambda>i. dk_free t i \<and> i \<notin> set idx)" using Suc.prems(3) by simp
  show ?case
  proof (cases "find_index (dk_free s) [0..<NUM]")
    case None
    then have all: "\<forall>i < NUM. dk_free t i \<longrightarrow> i \<in> set idx" by (auto simp: find_index_None fr)
    from free_descs_ok [OF idx(1), of s] idx(2) obtain D a where
      D: "free_descs idx s = Ok (s\<lparr>dk_free := (\<lambda>i. dk_free s i \<or> i \<in> set idx), dk_desc := D, vasleep := a\<rparr>)"
        "\<forall>i. i \<notin> set idx \<longrightarrow> D i = dk_desc s i" "\<forall>p. a p \<longrightarrow> vasleep s p" by (auto simp: fr)
    have "(\<lambda>i. dk_free s i \<or> i \<in> set idx) = dk_free t" using idx(2) by (auto simp: fr)
    with D have "alloc3_loop (Suc n) idx s = Ok (None, t\<lparr>dk_desc := D, vasleep := a\<rparr>)"
      using None Suc.prems(3) by (simp add: alloc_desc_def)
    moreover have "\<forall>i. \<not> dk_free t i \<longrightarrow> D i = dk_desc t i" "\<forall>p. a p \<longrightarrow> vasleep t p"
      using D idx(2) Suc.prems(3) by auto
    ultimately show ?thesis using all by (intro disjI2 exI [of _ D] exI [of _ a] exI [of _ idx]) simp
  next
    case (Some i)
    then have i: "i < NUM" "dk_free t i" "i \<notin> set idx" by (auto simp: find_index_Some fr)
    let ?s = "s\<lparr>dk_free := (dk_free s)(i := False)\<rparr>"
    have "alloc3_loop (Suc n) idx s = alloc3_loop n (idx @ [i]) ?s" using Some by (simp add: alloc_desc_def)
    moreover have "?s = t\<lparr>dk_free := (\<lambda>j. dk_free t j \<and> j \<notin> set (idx @ [i]))\<rparr>"
    proof -
      have "(dk_free s)(i := False) = (\<lambda>j. dk_free t j \<and> j \<notin> set (idx @ [i]))" by (rule ext) (auto simp: fr)
      then show ?thesis using Suc.prems(3) by simp
    qed
    moreover have "distinct (idx @ [i])" "\<forall>j \<in> set (idx @ [i]). j < NUM \<and> dk_free t j" using idx i by auto
    ultimately have ih: "(\<exists>is. length is = n \<and> distinct ((idx @ [i]) @ is) \<and> (\<forall>i \<in> set is. i < NUM \<and> dk_free t i) \<and>
        alloc3_loop (Suc n) idx s = Ok (Some ((idx @ [i]) @ is), t\<lparr>dk_free := (\<lambda>j. dk_free t j \<and> j \<notin> set ((idx @ [i]) @ is))\<rparr>)) \<or>
      (\<exists>D a js. alloc3_loop (Suc n) idx s = Ok (None, t\<lparr>dk_desc := D, vasleep := a\<rparr>) \<and> (\<forall>i. \<not> dk_free t i \<longrightarrow> D i = dk_desc t i) \<and>
        (\<forall>p. a p \<longrightarrow> vasleep t p) \<and> length js < length (idx @ [i]) + n \<and> (\<forall>i < NUM. dk_free t i \<longrightarrow> i \<in> set js))"
      using Suc.IH [of "idx @ [i]" ?s] by (simp only: simp_thms)
    then show ?thesis
    proof (elim disjE exE conjE)
      fix ks
      assume ks: "length ks = n" "distinct ((idx @ [i]) @ ks)" "\<forall>i \<in> set ks. i < NUM \<and> dk_free t i"
        "alloc3_loop (Suc n) idx s = Ok (Some ((idx @ [i]) @ ks), t\<lparr>dk_free := (\<lambda>j. dk_free t j \<and> j \<notin> set ((idx @ [i]) @ ks))\<rparr>)"
      have app: "(idx @ [i]) @ ks = idx @ (i # ks)" by simp
      show ?thesis using ks i unfolding app by (intro disjI1 exI [of _ "i # ks"]) simp
    qed auto
  qed
qed

lemma alloc3_cases:
  obtains (got) i0 i1 i2 where "alloc3_desc s = Ok (Some [i0, i1, i2], s\<lparr>dk_free := (\<lambda>i. dk_free s i \<and> i \<notin> {i0, i1, i2})\<rparr>)"
      "distinct [i0, i1, i2]" "\<forall>i \<in> {i0, i1, i2}. i < NUM \<and> dk_free s i"
  | (none) D a j where "alloc3_desc s = Ok (None, s\<lparr>dk_desc := D, vasleep := a\<rparr>)" "\<forall>i. \<not> dk_free s i \<longrightarrow> D i = dk_desc s i"
      "\<forall>p. a p \<longrightarrow> vasleep s p" "j < NUM" "\<not> dk_free s j"
proof -
  consider ks where "length ks = 3" "distinct ks" "\<forall>i \<in> set ks. i < NUM \<and> dk_free s i"
      "alloc3_desc s = Ok (Some ks, s\<lparr>dk_free := (\<lambda>i. dk_free s i \<and> i \<notin> set ks)\<rparr>)"
    | D a js where "alloc3_desc s = Ok (None, s\<lparr>dk_desc := D, vasleep := a\<rparr>)" "\<forall>i. \<not> dk_free s i \<longrightarrow> D i = dk_desc s i"
      "\<forall>p. a p \<longrightarrow> vasleep s p" "length js < 3" "\<forall>i < NUM. dk_free s i \<longrightarrow> i \<in> set js"
    using alloc3_loop_cases [of "[]" s s 3] unfolding alloc3_desc_def by (simp (no_asm_use)) blast
  then show ?thesis
  proof cases
    case (1 ks)
    then obtain i0 i1 i2 where "ks = [i0, i1, i2]" by (auto simp: length_Suc_conv numeral_3_eq_3)
    with 1 show ?thesis by (intro got [of i0 i1 i2]) simp_all
  next
    case (2 D a js)
    have "\<not> {..<NUM} \<subseteq> set js"
    proof
      assume "{..<NUM} \<subseteq> set js"
      then have "card {..<NUM} \<le> card (set js)" by (intro card_mono) auto
      then show False using card_length [of js] 2(4) by (simp add: NUM_def)
    qed
    then obtain j where "j < NUM" "\<not> dk_free s j" using 2(5) by auto
    with 2 show ?thesis by (intro none)
  qed
qed

lemma vinv_free_descs:
  assumes inv: "vinv s" and D: "\<forall>i. \<not> dk_free s i \<longrightarrow> D i = dk_desc s i"
  shows "vinv (s\<lparr>dk_desc := D\<rparr>)" (is "vinv ?s")
proof -
  note old = vinvD [OF inv]
  have heads: "device_heads ?s = device_heads s" "used_heads ?s = used_heads s" by (rule heads_cong; simp)+
  show ?thesis
  proof (rule vinvI)
    show "rings_ok ?s" using old(1) unfolding rings_ok_def heads by simp
    show "request_ok ?s b w i0 i1 i2" if "vstage_of ?s p = Waiting b w i0 i1 i2" for p b w i0 i1 i2
    proof -
      have req: "request_ok s b w i0 i1 i2" using old(2) [of p] that by simp
      then have "dk_desc ?s i = dk_desc s i" if "i \<in> {i0, i1, i2}" for i using D that unfolding request_ok_def by auto
      with req show ?thesis by (elim request_ok_cong) (simp_all add: heads)
    qed
  qed (use old(3-8) in auto)
qed

lemma submit_ok:
  assumes inv: "vinv s" and p: "vstage_of s p = WantDesc b w"
    and i: "distinct [i0, i1, i2]" "\<forall>i \<in> {i0, i1, i2}. i < NUM \<and> dk_free s i"
  defines "u \<equiv> disk_submit b w i0 i1 i2 (s\<lparr>dk_free := (\<lambda>i. dk_free s i \<and> i \<notin> {i0, i1, i2})\<rparr>)"
  shows "vb_disk (vbufs u b)" "vinv (u\<lparr>vstage_of := (vstage_of u)(p := Waiting b w i0 i1 i2), vasleep := (vasleep u)(p := True)\<rparr>)"
proof -
  note old = vinvD [OF inv] and ring = rings_okD [OF vinvD(1) [OF inv]]
  show "vb_disk (vbufs u b)" by (simp add: u_def disk_submit_def Let_def upd_vbuf_def)
  have taken: "j \<notin> {i0, i1, i2}" if "vstage_of s q = Waiting c v j0 j1 j2" "j \<in> {j0, j1, j2}" for q c v j0 j1 j2 j
    using old(2) [OF that(1)] that(2) i(2) unfolding request_ok_def by blast
  have new: "i0 \<notin> set (device_heads s) \<union> set (used_heads s)"
    using ring(6) [of i0] taken by blast
  have "length (avail_heads s) < NUM"
    using ring_room [of "avail_heads s" i0] ring(3) new i(2) heads_bounded [OF inv] by (auto simp: device_heads_def)
  then have room: "unat (dk_avail_idx s - dev_avail s) < NUM" by (simp add: avail_heads_def ring_length)
  have other: "c \<noteq> b" if "vstage_of s q = Waiting c v j0 j1 j2" for q c v j0 j1 j2
    using old(4) [of q b p] that p by auto
  define s' where "s' = u\<lparr>vstage_of := (vstage_of u)(p := Waiting b w i0 i1 i2), vasleep := (vasleep u)(p := True)\<rparr>"
  have sel: "vstage_of s' = (vstage_of s)(p := Waiting b w i0 i1 i2)" "vasleep s' = (vasleep s)(p := True)"
      "dk_free s' = (\<lambda>i. dk_free s i \<and> i \<notin> {i0, i1, i2})" "dk_info_b s' = (dk_info_b s)(i0 := Some b)" "dk_info_status s' = (dk_info_status s)(i0 := 0xff)"
      "vbufs s' = (vbufs s)(b := (vbufs s b)\<lparr>vb_disk := True\<rparr>)" "dev_log s' = dev_log s" "vreturned s' = vreturned s" "dev_taken s' = dev_taken s"
      "used_heads s' = used_heads s" "j \<notin> {i0, i1, i2} \<Longrightarrow> dk_desc s' j = dk_desc s j" "j \<notin> {i0, i1, i2} \<Longrightarrow> dk_ops s' j = dk_ops s j" for j
    by (auto simp: s'_def u_def disk_submit_def Let_def upd_vbuf_def used_heads_def)
  have av: "avail_heads s' = avail_heads s @ [i0]"
    using ring_put(2) [OF ring(1) room] i(2) by (simp add: avail_heads_def s'_def u_def disk_submit_def Let_def upd_vbuf_def unat_index)
  have dev: "set (device_heads s') = insert i0 (set (device_heads s))" "distinct (device_heads s')"
    using ring(3) new by (auto simp: device_heads_def av sel(9))
  have unused: "of_buf b (dev_log s) = of_buf b (vreturned s)" using other by (intro old(6)) (metis waits_on_def)
  have chain: "chain_ok s' b w i0 i1 i2"
    using i(1) by (simp add: chain_ok_def s'_def u_def disk_submit_def Let_def upd_vbuf_def vb_sector_def)
  have "vinv s'"
  proof (rule vinvI)
    have "ring_ok NUM (dk_avail s') (dev_avail s') (dk_avail_idx s')"
      using ring_put(1) [OF ring(1) room] by (simp add: s'_def u_def disk_submit_def Let_def upd_vbuf_def)
    moreover have "ring_ok NUM (dk_used s') (dk_used_idx s') (dk_used_ring_idx s')"
      using ring(2) by (simp add: s'_def u_def disk_submit_def Let_def upd_vbuf_def)
    moreover have "distinct (device_heads s' @ used_heads s')" using ring(4,5) dev new by (auto simp: sel(10))
    moreover have "\<exists>q b w i1 i2. vstage_of s' q = Waiting b w h i1 i2" if h: "h \<in> set (device_heads s') \<union> set (used_heads s')" for h
    proof (cases "h = i0")
      case True
      then show ?thesis by (auto simp: sel(1) intro!: exI [of _ p])
    next
      case False
      then obtain q c v j1 j2 where q: "vstage_of s q = Waiting c v h j1 j2" using ring(6) [of h] h dev(1) sel(10) by auto
      moreover have "q \<noteq> p" using q p by auto
      ultimately show ?thesis unfolding sel(1) by (metis fun_upd_other)
    qed
    ultimately show "rings_ok s'" unfolding rings_ok_def by blast
    fix q c v j0 j1 j2
    assume q: "vstage_of s' q = Waiting c v j0 j1 j2"
    show "request_ok s' c v j0 j1 j2"
    proof (cases "q = p")
      case True
      then have "c = b" "v = w" "j0 = i0" "j1 = i1" "j2 = i2" using q by (simp_all add: sel(1))
      then show ?thesis using i chain dev new unused by (simp add: request_ok_def sel(3,6,7,8,10))
    next
      case False
      then have q: "vstage_of s q = Waiting c v j0 j1 j2" using q by (simp add: sel(1))
      from old(2) [OF this] show ?thesis
        by (rule request_ok_cong) (use taken [OF q] other [OF q] dev new in \<open>auto simp: sel\<close>)
    qed
    show "vasleep s' q \<Longrightarrow> vb_disk (vbufs s' c)" using old(3) q by (cases "q = p") (auto simp: sel(1,2,6))
  next
    show "x = y" if "vuses (vstage_of s' x) c" "vuses (vstage_of s' y) c" for x y c
    proof -
      have "vuses (vstage_of s' z) c = vuses (vstage_of s z) c" for z using p by (simp add: sel(1))
      with that show ?thesis using old(4) by blast
    qed
    show "x = y" if xy: "j \<in> vdescs (vstage_of s' x)" "j \<in> vdescs (vstage_of s' y)" for x y j
    proof -
      have "j \<notin> vdescs (vstage_of s z)" if "j \<in> {i0, i1, i2}" for z using taken that unfolding vdescs_iff by blast
      then show ?thesis using xy old(5) [of j x y] by (auto simp: sel(1) split: if_splits)
    qed
    show "of_buf c (dev_log s') = of_buf c (vreturned s')" if "\<forall>q. \<not> waits_on (vstage_of s' q) c" for c
    proof -
      have "\<not> waits_on (vstage_of s q) c" for q using that [rule_format, of q] p by (cases "q = p") (simp_all add: sel(1))
      then show ?thesis using old(6) by (simp add: sel(7,8))
    qed
    show "\<exists>q. j \<in> vdescs (vstage_of s' q)" if j: "j < NUM" "\<not> dk_free s' j" for j
    proof (cases "j \<in> {i0, i1, i2}")
      case True
      then show ?thesis by (intro exI [of _ p]) (simp add: sel(1))
    next
      case False
      then obtain q where q: "j \<in> vdescs (vstage_of s q)" using old(7) j by (auto simp: sel(3))
      then have "q \<noteq> p" using p by auto
      with q show ?thesis by (intro exI [of _ q]) (simp add: sel(1))
    qed
    show "\<exists>q b'. waits_on (vstage_of s' q) b'" for x :: nat by (intro exI [of _ p] exI [of _ b]) (simp add: sel(1))
  qed
  then show "vinv (u\<lparr>vstage_of := (vstage_of u)(p := Waiting b w i0 i1 i2), vasleep := (vasleep u)(p := True)\<rparr>)" by (simp add: s'_def)
qed

lemma rw_ok:
  assumes inv: "vinv s" and p: "vstage_of s p = WantDesc b w"
  shows "\<exists>s'. virtio_disk_rw p b w s = Ok s' \<and> vinv s'"
proof (cases s rule: alloc3_cases)
  case (got i0 i1 i2)
  then show ?thesis using submit_ok [OF inv p got(2,3)] by (simp add: virtio_disk_rw_def disk_wait_def)
next
  case (none D a j)
  obtain q where "j \<in> vdescs (vstage_of s q)" using vinvD(7) [OF inv none(4,5)] by blast
  then have q: "\<exists>q b'. waits_on (vstage_of s q) b'" unfolding vdescs_iff waits_on_def by blast
  let ?t = "s\<lparr>dk_desc := D, vasleep := a\<rparr>"
  have "vinv ?t" using vinv_asleep [OF vinv_free_descs [OF inv none(2)], of a] none(3) by simp
  moreover have "\<not> vuses (vstage_of s x) b" if "x \<noteq> p" for x using vinvD(4) [OF inv, of x b p] p that by auto
  ultimately have "vinv (?t\<lparr>vstage_of := (vstage_of ?t)(p := WantDesc b w), vasleep := (vasleep ?t)(p := True)\<rparr>)"
    using p q by (intro vinv_want) simp_all
  then show ?thesis using none(1) by (simp add: virtio_disk_rw_def)
qed

lemma vstep_ok: "vstep s r \<Longrightarrow> vinv s \<Longrightarrow> \<exists>s'. r = Ok s' \<and> vinv s'"
proof (induction rule: vstep.induct)
  case (vedit s b n f)
  then show ?case by (simp add: vinv_edit)
next
  case (vcall s p b w)
  then show ?case by (simp add: vinv_want [of s p b w False])
next
  case (vwait s p b w i0 i1 i2)
  then show ?case using wait_sleeps wait_returns by (cases "vb_disk (vbufs s b)") (simp_all add: disk_wait_def)
next
  case (vkick s p)
  then show ?case using vinv_asleep [of s "(vasleep s)(p := False)"] by (auto split: if_splits)
qed (simp_all add: rw_ok intr_ok vinv_take finish_ok)

text \<open>The driver after \<^verbatim>\<open>virtio_disk_init\<close>, with any buffers and disk contents.\<close>

definition disk_boot :: "disk \<Rightarrow> (nat \<Rightarrow> vbuf) \<Rightarrow> (u64 \<Rightarrow> bytes) \<Rightarrow> vsys" where
  "disk_boot d bufs sectors =
     disk.extend d (vsys.fields bufs (\<lambda>_. Idle) (\<lambda>_. False) 0 [] sectors [] [])"

lemma disk_boot_sel:
  "vstage_of (disk_boot d bufs sectors) = (\<lambda>_. Idle)" "dev_taken (disk_boot d bufs sectors) = []" "dev_avail (disk_boot d bufs sectors) = 0"
  "dev_log (disk_boot d bufs sectors) = []" "vreturned (disk_boot d bufs sectors) = []" "vbufs (disk_boot d bufs sectors) = bufs"
  "dk_avail (disk_boot d bufs sectors) = dk_avail d" "dk_avail_idx (disk_boot d bufs sectors) = dk_avail_idx d"
  "dk_used (disk_boot d bufs sectors) = dk_used d" "dk_used_idx (disk_boot d bufs sectors) = dk_used_idx d"
  "dk_used_ring_idx (disk_boot d bufs sectors) = dk_used_ring_idx d" "dk_free (disk_boot d bufs sectors) = dk_free d"
  by (simp_all add: disk_boot_def disk.defs vsys.defs)

lemma disk_boot_inv:
  assumes "dk_used_idx d = 0"
  shows "vinv (disk_boot (disk_ready d) bufs sectors)" (is "vinv ?s")
proof -
  have "(8 :: nat) dvd 2 ^ 16" by simp
  then have "rings_ok ?s"
    using assms by (simp add: rings_ok_def ring_ok_def disk_boot_sel disk_ready_def device_heads_def avail_heads_def used_heads_def ring_contents_def NUM_def)
  then show ?thesis by (intro vinvI) (auto simp: disk_boot_sel disk_ready_def)
qed

lemma vreach_inv: "vreach s0 s \<Longrightarrow> vinv s0 \<Longrightarrow> vinv s"
  by (induction rule: vreach.induct) (auto dest: vstep_ok)


definition sample_disk :: disk where
  "sample_disk = \<lparr>dk_desc = (\<lambda>_. zero_desc), dk_avail = [], dk_avail_idx = 0, dk_used = [], dk_used_ring_idx = 0, dk_free = (\<lambda>_. False), dk_used_idx = 0,
     dk_info_b = (\<lambda>_. None), dk_info_status = (\<lambda>_. 0), dk_ops = (\<lambda>_. \<lparr>rq_type = 0, rq_reserved = 0, rq_sector = 0\<rparr>)\<rparr>"

definition sample_disk_boot :: vsys where
  "sample_disk_boot = disk_boot (disk_ready sample_disk) (\<lambda>b. \<lparr>vb_blockno = of_nat b, vb_disk = False, vb_data = (\<lambda>_. 7)\<rparr>) (\<lambda>_ _. 0)"

definition sample_disk_called :: vsys where
  "sample_disk_called = sample_disk_boot\<lparr>vstage_of := (vstage_of sample_disk_boot)(1 := WantDesc 5 True), vasleep := (vasleep sample_disk_boot)(1 := False)\<rparr>"

lemma sample_disk_run:
  "case virtio_disk_rw 1 5 True sample_disk_called of
     Ok s2 \<Rightarrow> dev_avail s2 \<noteq> dk_avail_idx s2 \<and> dev_taken (dev_take s2) = [0] \<and>
       (case dev_finish 0 (dev_take s2) of
          Ok s4 \<Rightarrow> (case virtio_disk_intr s4 of
            Ok s5 \<Rightarrow> vstage_of s5 1 = Waiting 5 True 0 1 2 \<and> \<not> vasleep s5 1 \<and>
              (case disk_wait 1 5 True 0 1 2 s5 of
                 Ok s6 \<Rightarrow> vstage_of s6 1 = Idle \<and> vreturned s6 = [(5, True, 10)] \<and> dev_log s6 = [(5, True, 10)] \<and> dev_sectors s6 10 0 = 7
               | _ \<Rightarrow> False)
          | _ \<Rightarrow> False)
        | _ \<Rightarrow> False)
   | _ \<Rightarrow> False"
  by code_simp

lemma sample_disk_reach:
  "\<exists>s. vreach sample_disk_boot s \<and> vreturned s = [(5, True, 10)] \<and> dev_log s = [(5, True, 10)]"
proof -
  from sample_disk_run obtain s2 s4 s5 s6 where
    s: "virtio_disk_rw 1 5 True sample_disk_called = Ok s2" "dev_avail s2 \<noteq> dk_avail_idx s2" "dev_taken (dev_take s2) = [0]"
      "dev_finish 0 (dev_take s2) = Ok s4" "virtio_disk_intr s4 = Ok s5" "vstage_of s5 1 = Waiting 5 True 0 1 2" "\<not> vasleep s5 1"
      "disk_wait 1 5 True 0 1 2 s5 = Ok s6" "vreturned s6 = [(5, True, 10)]" "dev_log s6 = [(5, True, 10)]"
    by (simp split: res.splits)
  have "vreach sample_disk_boot sample_disk_called"
    unfolding sample_disk_called_def by (rule vreach_step [OF vreach_start vcall]) (simp_all add: sample_disk_boot_def disk_boot_sel)
  then have "vreach sample_disk_boot s2" by (rule vreach_step) (use vtry [of sample_disk_called 1 5 True] s(1) in \<open>simp add: sample_disk_called_def\<close>)
  then have "vreach sample_disk_boot (dev_take s2)" by (rule vreach_step) (rule vtake [OF s(2)])
  then have "vreach sample_disk_boot s4" by (rule vreach_step) (use vfinish [of 0 "dev_take s2"] s(3,4) in simp)
  then have "vreach sample_disk_boot s5" by (rule vreach_step) (use vintr [of s4] s(5) in simp)
  then have "vreach sample_disk_boot s6" by (rule vreach_step) (use vwait [OF s(6,7)] s(8) in simp)
  with s(9,10) show ?thesis by blast
qed


end
