(* ===== verification/Grep.thy ===== *)
theory Grep
  imports Prelude
begin

text \<open>
  The pattern matcher and line filter of \<^verbatim>\<open>user/grep.c\<close>. A C string is the list of its bytes up to the zero byte, so
  the empty list stands for a pointer at the zero. Patterns have a reference meaning as a set of texts, given by a
  list of items; the matcher is shown to decide it. The filter reads its input in pieces of any sizes through a
  buffer of 1024 bytes.
\<close>

section \<open>Definitions\<close>

definition STAR :: u8 where "STAR = 42"

definition DOLLAR :: u8 where "DOLLAR = 36"

definition DOT :: u8 where "DOT = 46"

definition CARET :: u8 where "CARET = 94"

definition NEWLINE :: u8 where "NEWLINE = 10"

function matchhere :: "u8 list \<Rightarrow> u8 list \<Rightarrow> bool" and matchstar :: "u8 \<Rightarrow> u8 list \<Rightarrow> u8 list \<Rightarrow> bool" where
  "matchhere re tx =
     (case re of
        [] \<Rightarrow> True
      | c # re1 \<Rightarrow>
          if re1 \<noteq> [] \<and> hd re1 = STAR then matchstar c (tl re1) tx
          else if c = DOLLAR \<and> re1 = [] then tx = []
          else if tx \<noteq> [] \<and> (c = DOT \<or> c = hd tx) then matchhere re1 (tl tx)
          else False)"
| "matchstar c re tx =
     (if matchhere re tx then True
      else if tx \<noteq> [] \<and> (hd tx = c \<or> c = DOT) then matchstar c re (tl tx)
      else False)"
  by pat_completeness auto

termination
  by (relation "measure (\<lambda>x. case x of Inl (re, tx) \<Rightarrow> 2 * length re + length tx | Inr (c, re, tx) \<Rightarrow> 2 * length re + length tx + 1)")
    (auto simp: neq_Nil_conv)

declare matchhere.simps [simp del] matchstar.simps [simp del]

fun match_loop :: "u8 list \<Rightarrow> u8 list \<Rightarrow> bool" where
  "match_loop re tx = (if matchhere re tx then True else case tx of [] \<Rightarrow> False | c # cs \<Rightarrow> match_loop re cs)"

declare match_loop.simps [simp del]

definition match :: "u8 list \<Rightarrow> u8 list \<Rightarrow> bool" where
  "match re tx = (if re \<noteq> [] \<and> hd re = CARET then matchhere (tl re) tx else match_loop re tx)"

text \<open>\<^verbatim>\<open>strchr(p, '\n')\<close>, which stops at a zero byte: the bytes before the newline and those after it.\<close>

fun find_newline :: "u8 list \<Rightarrow> (u8 list \<times> u8 list) option" where
  "find_newline [] = None"
| "find_newline (c # cs) =
     (if c = 0 then None else if c = NEWLINE then Some ([], cs)
      else map_option (\<lambda>(l, r). (c # l, r)) (find_newline cs))"

lemma find_newline_length: "find_newline p = Some (l, r) \<Longrightarrow> length r < length p"
  by (induction p arbitrary: l) (auto split: if_splits)

text \<open>The loop over the lines of the buffer: the bytes written and what is left for the next round.\<close>

function grep_lines :: "u8 list \<Rightarrow> u8 list \<Rightarrow> u8 list \<times> u8 list" where
  "grep_lines pattern p =
     (case find_newline p of
        None \<Rightarrow> ([], p)
      | Some (l, r) \<Rightarrow> (case grep_lines pattern r of (out, rest) \<Rightarrow> ((if match pattern l then l @ [NEWLINE] else []) @ out, rest)))"
  by pat_completeness auto

termination grep_lines
  by (relation "measure (\<lambda>(pattern, p). length p)") (auto dest: find_newline_length)

declare grep_lines.simps [simp del]

text \<open>
  \<^verbatim>\<open>grep\<close> on a file with the bytes \<open>inp\<close> still to come and \<open>buf\<close> in the buffer. A read returns at least one byte
  unless there are none left or none are asked for; \<open>chunk j\<close> says how many more the \<open>j\<close>-th read may return.
\<close>

function grep :: "u8 list \<Rightarrow> (nat \<Rightarrow> nat) \<Rightarrow> nat \<Rightarrow> u8 list \<Rightarrow> u8 list \<Rightarrow> u8 list" where
  "grep pattern chunk j buf inp =
     (let n = min (1024 - length buf - 1) (min (Suc (chunk j)) (length inp)) in
      if n > 0
      then (case grep_lines pattern (buf @ take n inp) of (out, rest) \<Rightarrow> out @ grep pattern chunk (Suc j) rest (drop n inp))
      else [])"
  by pat_completeness auto

termination grep
  by (relation "measure (\<lambda>(pattern, chunk, j, buf, inp). length inp)") auto

declare grep.simps [simp del]

section \<open>What a pattern means\<close>

text \<open>A single position of a pattern, either one byte or any number of bytes, and the end of the text.\<close>

datatype item = One u8 | Many u8

definition byte_ok :: "u8 \<Rightarrow> u8 \<Rightarrow> bool" where
  "byte_ok c t \<longleftrightarrow> c = DOT \<or> c = t"

fun items :: "u8 list \<Rightarrow> item list \<times> bool" where
  "items [] = ([], False)"
| "items [c] = (if c = DOLLAR then ([], True) else ([One c], False))"
| "items (c # d # re) =
     (if d = STAR then (case items re of (is, e) \<Rightarrow> (Many c # is, e))
      else case items (d # re) of (is, e) \<Rightarrow> (One c # is, e))"

primrec lang :: "item list \<Rightarrow> u8 list set" where
  "lang [] = {[]}"
| "lang (i # is) = (case i of
     One c \<Rightarrow> {t # u |t u. byte_ok c t \<and> u \<in> lang is}
   | Many c \<Rightarrow> {ts @ u |ts u. (\<forall>t \<in> set ts. byte_ok c t) \<and> u \<in> lang is})"

text \<open>Texts that begin with a match of the pattern, up to their end if the pattern asks for that.\<close>

definition begins :: "u8 list \<Rightarrow> u8 list \<Rightarrow> bool" where
  "begins re tx \<longleftrightarrow> (\<exists>u v. tx = u @ v \<and> u \<in> lang (fst (items re)) \<and> (snd (items re) \<longrightarrow> v = []))"

lemma begins_Nil: "begins [] tx"
  by (simp add: begins_def)

lemma begins_end: "begins [DOLLAR] tx \<longleftrightarrow> tx = []"
  by (simp add: begins_def)

lemma begins_one:
  assumes "re1 = [] \<and> c \<noteq> DOLLAR \<or> re1 \<noteq> [] \<and> hd re1 \<noteq> STAR"
  shows "begins (c # re1) tx \<longleftrightarrow> (\<exists>t ts. tx = t # ts \<and> byte_ok c t \<and> begins re1 ts)"
proof -
  have it: "items (c # re1) = (One c # fst (items re1), snd (items re1))"
    using assms by (cases re1) (auto split: prod.splits)
  show ?thesis
  proof
    assume "begins (c # re1) tx"
    then obtain u0 v where v: "tx = u0 @ v" "u0 \<in> lang (One c # fst (items re1))" "snd (items re1) \<longrightarrow> v = []"
      unfolding begins_def it by auto
    from v(2) obtain t u where "u0 = t # u" "byte_ok c t" "u \<in> lang (fst (items re1))" by auto
    with v have "tx = (t # u) @ v" "byte_ok c t" "u \<in> lang (fst (items re1))" "snd (items re1) \<longrightarrow> v = []" by auto
    then show "\<exists>t ts. tx = t # ts \<and> byte_ok c t \<and> begins re1 ts" unfolding begins_def by (intro exI [of _ t] exI [of _ "u @ v"]) auto
  next
    assume "\<exists>t ts. tx = t # ts \<and> byte_ok c t \<and> begins re1 ts"
    then obtain t u v where t: "tx = (t # u) @ v" "byte_ok c t" "u \<in> lang (fst (items re1))" "snd (items re1) \<longrightarrow> v = []"
      unfolding begins_def by auto
    then show "begins (c # re1) tx" unfolding begins_def it by (intro exI [of _ "t # u"] exI [of _ v]) simp
  qed
qed

lemma begins_many: "begins (c # STAR # re) tx \<longleftrightarrow> (\<exists>ts u. tx = ts @ u \<and> (\<forall>t \<in> set ts. byte_ok c t) \<and> begins re u)"
proof -
  have it: "items (c # STAR # re) = (Many c # fst (items re), snd (items re))" by (simp split: prod.split)
  show ?thesis
  proof
    assume "begins (c # STAR # re) tx"
    then obtain u0 v where v: "tx = u0 @ v" "u0 \<in> lang (Many c # fst (items re))" "snd (items re) \<longrightarrow> v = []"
      unfolding begins_def it by auto
    from v(2) obtain ts u where "u0 = ts @ u" "\<forall>t \<in> set ts. byte_ok c t" "u \<in> lang (fst (items re))" by auto
    with v have "tx = (ts @ u) @ v" "\<forall>t \<in> set ts. byte_ok c t" "u \<in> lang (fst (items re))" "snd (items re) \<longrightarrow> v = []" by auto
    then show "\<exists>ts u. tx = ts @ u \<and> (\<forall>t \<in> set ts. byte_ok c t) \<and> begins re u"
      unfolding begins_def by (intro exI [of _ ts] exI [of _ "u @ v"]) auto
  next
    assume "\<exists>ts u. tx = ts @ u \<and> (\<forall>t \<in> set ts. byte_ok c t) \<and> begins re u"
    then obtain ts u v where t: "tx = (ts @ u) @ v" "\<forall>t \<in> set ts. byte_ok c t" "u \<in> lang (fst (items re))" "snd (items re) \<longrightarrow> v = []"
      unfolding begins_def by auto
    have "ts @ u \<in> lang (Many c # fst (items re))" using t(2,3) by auto
    then show "begins (c # STAR # re) tx" unfolding begins_def it using t(1,4) by (intro exI [of _ "ts @ u"] exI [of _ v]) simp
  qed
qed

section \<open>The matcher\<close>

text \<open>What \<^verbatim>\<open>matchstar\<close> does, given what the rest of the pattern accepts.\<close>

lemma star_unfold:
  "(\<exists>ts u. tx = ts @ u \<and> (\<forall>t \<in> set ts. byte_ok c t) \<and> P u) \<longleftrightarrow>
     P tx \<or> (\<exists>t rest. tx = t # rest \<and> byte_ok c t \<and> (\<exists>ts u. rest = ts @ u \<and> (\<forall>t \<in> set ts. byte_ok c t) \<and> P u))" (is "?L \<longleftrightarrow> ?R")
proof
  assume ?L
  then obtain ts u where t: "tx = ts @ u" "\<forall>t \<in> set ts. byte_ok c t" "P u" by blast
  then show ?R by (cases ts) auto
next
  assume ?R
  then show ?L
  proof (elim disjE exE conjE)
    assume "P tx"
    then show ?L by (intro exI [of _ "[]"] exI [of _ tx]) simp
  next
    fix t rest ts u
    assume "tx = t # rest" "byte_ok c t" "rest = ts @ u" "\<forall>t \<in> set ts. byte_ok c t" "P u"
    then show ?L by (intro exI [of _ "t # ts"] exI [of _ u]) simp
  qed
qed

lemma matcher_correct:
  "matchhere re tx \<longleftrightarrow> begins re tx"
  "matchstar c re tx \<longleftrightarrow> (\<exists>ts u. tx = ts @ u \<and> (\<forall>t \<in> set ts. byte_ok c t) \<and> begins re u)"
proof (induction re tx and c re tx rule: matchhere_matchstar.induct)
  case (1 re tx)
  show ?case
  proof (cases re)
    case Nil
    then show ?thesis by (simp add: matchhere.simps begins_Nil)
  next
    case (Cons c re1)
    show ?thesis
    proof (cases "re1 \<noteq> [] \<and> hd re1 = STAR")
      case True
      then obtain re2 where "re1 = STAR # re2" by (cases re1) auto
      then show ?thesis using 1(1) [OF Cons True] Cons by (simp add: matchhere.simps [of "c # STAR # re2"] begins_many)
    next
      case star: False
      show ?thesis
      proof (cases "c = DOLLAR \<and> re1 = []")
        case True
        then show ?thesis using Cons by (simp add: matchhere.simps begins_end)
      next
        case False
        then have one: "re1 = [] \<and> c \<noteq> DOLLAR \<or> re1 \<noteq> [] \<and> hd re1 \<noteq> STAR" using star by auto
        have "matchhere re tx \<longleftrightarrow> tx \<noteq> [] \<and> (c = DOT \<or> c = hd tx) \<and> matchhere re1 (tl tx)"
          using Cons star False by (auto simp: matchhere.simps [of "c # re1"])
        also have "\<dots> \<longleftrightarrow> tx \<noteq> [] \<and> byte_ok c (hd tx) \<and> begins re1 (tl tx)"
          using 1(2) [OF Cons star False] by (auto simp: byte_ok_def)
        finally show ?thesis unfolding Cons begins_one [OF one] by (cases tx) auto
      qed
    qed
  qed
next
  case (2 c re tx)
  have "matchstar c re tx \<longleftrightarrow> matchhere re tx \<or> tx \<noteq> [] \<and> byte_ok c (hd tx) \<and> matchstar c re (tl tx)"
    by (auto simp: matchstar.simps [of c re tx] byte_ok_def)
  then show ?case
    using 2 unfolding star_unfold [of tx c "begins re"] by (cases tx) (auto simp: byte_ok_def)
qed

lemma match_loop_correct: "match_loop re tx \<longleftrightarrow> (\<exists>pre rest. tx = pre @ rest \<and> begins re rest)"
proof (induction tx)
  case Nil
  show ?case by (simp add: match_loop.simps [of re "[]"] matcher_correct)
next
  case (Cons t ts)
  have "match_loop re (t # ts) \<longleftrightarrow> begins re (t # ts) \<or> match_loop re ts" by (simp add: match_loop.simps [of re "t # ts"] matcher_correct)
  then show ?case unfolding Cons.IH by (auto simp: Cons_eq_append_conv)
qed

text \<open>
  What a pattern says of a text: with no leading caret, that some part of it matches; with one, that a part at its
  beginning does.
\<close>

definition denotes :: "u8 list \<Rightarrow> u8 list \<Rightarrow> bool" where
  "denotes re tx \<longleftrightarrow> (if re \<noteq> [] \<and> hd re = CARET then begins (tl re) tx else \<exists>pre rest. tx = pre @ rest \<and> begins re rest)"

lemma match_denotes: "match re = denotes re"
  by (simp add: fun_eq_iff match_def denotes_def matcher_correct match_loop_correct)

section \<open>The filter\<close>

text \<open>The complete lines of a text, without their newlines, and what follows the last newline.\<close>

fun complete_lines :: "u8 list \<Rightarrow> u8 list list \<times> u8 list" where
  "complete_lines [] = ([], [])"
| "complete_lines (c # cs) =
     (case complete_lines cs of (ls, r) \<Rightarrow>
        if c = NEWLINE then ([] # ls, r) else case ls of [] \<Rightarrow> ([], c # r) | l # ls \<Rightarrow> ((c # l) # ls, r))"

definition filter_lines :: "u8 list \<Rightarrow> u8 list list \<Rightarrow> u8 list" where
  "filter_lines pattern ls = concat (map (\<lambda>l. l @ [NEWLINE]) (filter (match pattern) ls))"

lemma find_newline_lines:
  "0 \<notin> set p \<Longrightarrow> complete_lines p = (case find_newline p of None \<Rightarrow> ([], p) | Some (l, r) \<Rightarrow> (l # fst (complete_lines r), snd (complete_lines r)))"
  by (induction p) (auto split: option.splits prod.splits)

lemma grep_lines_spec: "0 \<notin> set p \<Longrightarrow> grep_lines pattern p = (filter_lines pattern (fst (complete_lines p)), snd (complete_lines p))"
proof (induction pattern p rule: grep_lines.induct)
  case (1 pattern p)
  show ?case
  proof (cases "find_newline p")
    case None
    then show ?thesis using find_newline_lines [OF 1(2)] by (simp add: grep_lines.simps [of pattern p] filter_lines_def)
  next
    case (Some lr)
    then obtain l r where lr: "find_newline p = Some (l, r)" by (cases lr) auto
    have "0 \<notin> set r" using 1(2) lr by (induction p arbitrary: l) (auto split: if_splits)
    then show ?thesis
      using 1(1) [OF lr refl] find_newline_lines [OF 1(2)] lr by (simp add: grep_lines.simps [of pattern p] filter_lines_def)
  qed
qed

lemma complete_lines_append:
  "complete_lines (xs @ ys) = (case complete_lines xs of (ls, r) \<Rightarrow> (ls @ fst (complete_lines (r @ ys)), snd (complete_lines (r @ ys))))"
proof (induction xs)
  case (Cons c cs)
  obtain ls r where lr: "complete_lines cs = (ls, r)" by (cases "complete_lines cs")
  show ?case
  proof (cases ls)
    case Nil
    then show ?thesis using Cons lr by (auto split: prod.splits)
  next
    case ls: (Cons l ls')
    then show ?thesis using Cons.IH lr by (auto split: prod.splits)
  qed
qed simp

lemma rest_no_newline: "complete_lines (snd (complete_lines p)) = ([], snd (complete_lines p))"
  by (induction p) (auto split: prod.splits list.splits)

text \<open>No line of the text, nor the part after the last one, fills the buffer.\<close>

definition short_lines :: "u8 list \<Rightarrow> bool" where
  "short_lines p \<longleftrightarrow> (\<forall>l \<in> set (fst (complete_lines p)). length l < 1023) \<and> length (snd (complete_lines p)) < 1023"

lemma rest_subset: "set (snd (complete_lines p)) \<subseteq> set p"
  by (induction p) (auto split: prod.splits list.splits)

lemma open_line_short:
  assumes "complete_lines buf = ([], buf)" "short_lines (buf @ inp)"
  shows "length buf < 1023"
proof -
  have nl: "NEWLINE \<notin> set b" if "complete_lines b = ([], b)" for b
    using that by (induction b) (auto split: prod.splits list.splits if_splits)
  have "NEWLINE \<notin> set b \<Longrightarrow> (\<exists>l ls. fst (complete_lines (b @ inp)) = (b @ l) # ls) \<or>
      fst (complete_lines (b @ inp)) = [] \<and> (\<exists>r. snd (complete_lines (b @ inp)) = b @ r)" for b
  proof (induction b)
    case Nil
    show ?case by (cases "fst (complete_lines inp)") auto
  next
    case (Cons c b)
    then show ?case by (auto split: prod.splits list.splits)
  qed
  from this [OF nl [OF assms(1)]] assms(2) show ?thesis unfolding short_lines_def by auto
qed

lemma short_lines_rest:
  assumes "short_lines (xs @ ys)"
  shows "short_lines (snd (complete_lines xs) @ ys)"
  using assms unfolding short_lines_def complete_lines_append [of xs ys] by (auto split: prod.splits)

lemma grep_spec:
  "complete_lines buf = ([], buf) \<Longrightarrow> 0 \<notin> set (buf @ inp) \<Longrightarrow> short_lines (buf @ inp) \<Longrightarrow>
   grep pattern chunk j buf inp = filter_lines pattern (fst (complete_lines (buf @ inp)))"
proof (induction pattern chunk j buf inp rule: grep.induct)
  case (1 pattern chunk j buf inp)
  define n where "n = min (1024 - length buf - 1) (min (Suc (chunk j)) (length inp))"
  note room = open_line_short [OF 1(2,4)]
  show ?case
  proof (cases "n > 0")
    case False
    then have "inp = []" using room by (simp add: n_def)
    then show ?thesis using 1(2) by (simp add: grep.simps filter_lines_def)
  next
    case True
    obtain ls r where lr: "complete_lines (buf @ take n inp) = (ls, r)" by (cases "complete_lines (buf @ take n inp)")
    have z: "0 \<notin> set (buf @ take n inp)" using 1(3) by (auto dest: in_set_takeD)
    have app: "buf @ inp = (buf @ take n inp) @ drop n inp" by simp
    have lines: "grep_lines pattern (buf @ take n inp) = (filter_lines pattern ls, r)" using grep_lines_spec [OF z, of pattern] lr by simp
    have "complete_lines r = ([], r)" using rest_no_newline [of "buf @ take n inp"] lr by simp
    moreover have "0 \<notin> set (r @ drop n inp)" using z rest_subset [of "buf @ take n inp"] lr 1(3) by (auto dest: in_set_dropD)
    moreover have "short_lines (r @ drop n inp)" using short_lines_rest [of "buf @ take n inp" "drop n inp"] 1(4) lr by simp
    ultimately have "grep pattern chunk (Suc j) r (drop n inp) = filter_lines pattern (fst (complete_lines (r @ drop n inp)))"
      using 1(1) [OF n_def True] lines by simp
    then show ?thesis
      unfolding app complete_lines_append [of "buf @ take n inp"] grep.simps [of pattern chunk j buf inp] Let_def n_def [symmetric]
      using True lines lr by (simp add: filter_lines_def)
  qed
qed

text \<open>
  C10. For a text of nonzero bytes with lines shorter than 1023 bytes, and however the reads cut it into pieces,
  \<^verbatim>\<open>grep\<close> terminates and writes exactly the complete lines of which a part matches the pattern, whole and in order.
  What a pattern matches is defined without the matcher: a byte stands for itself, a dot for any byte, a star for any
  number of what precedes it, a dollar at the end for the end of the line, a caret at the beginning for its start.
\<close>

theorem grep_prints_matching_lines:
  assumes "0 \<notin> set inp" "short_lines inp"
  shows "grep pattern chunk 0 [] inp = concat (map (\<lambda>l. l @ [NEWLINE]) (filter (denotes pattern) (fst (complete_lines inp))))"
  using grep_spec [of "[]" inp pattern chunk 0] assms by (simp add: filter_lines_def match_denotes)

lemma sample_grep: "grep [94, 97, 46, 42, 98, 36] (\<lambda>_. 1) 0 [] [97, 98, 10, 99, 97, 98, 10, 97, 99, 98, 10, 97] = [97, 98, 10, 97, 99, 98, 10]"
  by code_simp

theorem grep_prints_matching_lines_witness:
  "concat (map (\<lambda>l. l @ [NEWLINE]) (filter (denotes [94, 97, 46, 42, 98, 36]) (fst (complete_lines [97, 98, 10, 99, 97, 98, 10, 97, 99, 98, 10, 97])))) =
     [97, 98, 10, 97, 99, 98, 10]"
proof -
  have "0 \<notin> set ([97, 98, 10, 99, 97, 98, 10, 97, 99, 98, 10, 97] :: u8 list)" by simp
  moreover have "short_lines [97, 98, 10, 99, 97, 98, 10, 97, 99, 98, 10, 97]" by code_simp
  ultimately show ?thesis
    using grep_prints_matching_lines [of "[97, 98, 10, 99, 97, 98, 10, 97, 99, 98, 10, 97]" "[94, 97, 46, 42, 98, 36]" "\<lambda>_. 1"] sample_grep by simp
qed

end
