(* ===== verification/Umalloc.thy ===== *)
theory Umalloc
  imports Prelude
begin

text \<open>
  The user-space memory allocator (\<^verbatim>\<open>user/umalloc.c\<close>), after Kernighan and Ritchie: a circular list of free blocks in
  order of address, each beginning with a header of \<open>16\<close> bytes that holds a pointer and a size in header units. Addresses
  are numbers, and the header at an address is its entry in two maps. Whether the kernel grants a call of \<^verbatim>\<open>sbrk\<close> is a
  function of the number of the call. The loops are partial functions, so that a loop that does not end has no value.
\<close>

section \<open>Definitions\<close>

record uheap =
  h_ptr :: "nat \<Rightarrow> nat"
  h_size :: "nat \<Rightarrow> nat"
  h_freep :: nat
  h_brk :: nat
  h_calls :: nat

definition set_ptr :: "nat \<Rightarrow> nat \<Rightarrow> uheap \<Rightarrow> uheap" where
  "set_ptr a v h = h\<lparr>h_ptr := (h_ptr h)(a := v)\<rparr>"

definition set_size :: "nat \<Rightarrow> nat \<Rightarrow> uheap \<Rightarrow> uheap" where
  "set_size a v h = h\<lparr>h_size := (h_size h)(a := v)\<rparr>"

partial_function (option) free_find :: "uheap \<Rightarrow> nat \<Rightarrow> nat \<Rightarrow> nat option" where
  "free_find h bp p =
     (if bp > p \<and> bp < h_ptr h p then Some p
      else if p \<ge> h_ptr h p \<and> (bp > p \<or> bp < h_ptr h p) then Some p
      else free_find h bp (h_ptr h p))"

text \<open>\<^verbatim>\<open>free\<close> once the place is found: joining with the block above, then with the block below.\<close>

definition free_link :: "nat \<Rightarrow> nat \<Rightarrow> uheap \<Rightarrow> uheap" where
  "free_link bp p h =
     (let q = h_ptr h p;
          h = (if bp + 16 * h_size h bp = q
               then set_ptr bp (h_ptr h q) (set_size bp (h_size h bp + h_size h q) h)
               else set_ptr bp q h);
          h = (if p + 16 * h_size h p = bp
               then set_ptr p (h_ptr h bp) (set_size p (h_size h p + h_size h bp) h)
               else set_ptr p bp h)
      in h\<lparr>h_freep := p\<rparr>)"

definition free :: "nat \<Rightarrow> uheap \<Rightarrow> uheap option" where
  "free ap h = map_option (\<lambda>p. free_link (ap - 16) p h) (free_find h (ap - 16) (h_freep h))"

text \<open>The argument of \<^verbatim>\<open>sbrk\<close> is an \<^verbatim>\<open>int\<close>, so the number of bytes is cut to 32 bits; \<open>None\<close> is its error.\<close>

definition sbrk :: "(nat \<Rightarrow> bool) \<Rightarrow> nat \<Rightarrow> uheap \<Rightarrow> nat option \<times> uheap" where
  "sbrk grant n h =
     (let h' = h\<lparr>h_calls := h_calls h + 1\<rparr> in
      if grant (h_calls h) then (Some (h_brk h), h'\<lparr>h_brk := nat (int (h_brk h) + sint (of_nat n :: u32))\<rparr>) else (None, h'))"

definition morecore :: "(nat \<Rightarrow> bool) \<Rightarrow> nat \<Rightarrow> uheap \<Rightarrow> (nat \<times> uheap) option" where
  "morecore grant nu h =
     (let nu = (if nu < 4096 then 4096 else nu) in
      case sbrk grant (nu * 16) h of
        (None, h) \<Rightarrow> Some (0, h)
      | (Some p, h) \<Rightarrow> map_option (\<lambda>h. (h_freep h, h)) (free (p + 16) (set_size p nu h)))"

partial_function (option) malloc_loop :: "(nat \<Rightarrow> bool) \<Rightarrow> nat \<Rightarrow> nat \<Rightarrow> nat \<Rightarrow> uheap \<Rightarrow> (nat \<times> uheap) option" where
  "malloc_loop grant nunits prevp p h =
     (if h_size h p \<ge> nunits
      then if h_size h p = nunits
           then Some (p + 16, (set_ptr prevp (h_ptr h p) h)\<lparr>h_freep := prevp\<rparr>)
           else let h = set_size p (h_size h p - nunits) h;
                    p = p + 16 * h_size h p
                in Some (p + 16, (set_size p nunits h)\<lparr>h_freep := prevp\<rparr>)
      else if p = h_freep h
           then Option.bind (morecore grant nunits h) (\<lambda>(p, h). if p = 0 then Some (0, h) else malloc_loop grant nunits p (h_ptr h p) h)
           else malloc_loop grant nunits p (h_ptr h p) h)"

definition malloc :: "(nat \<Rightarrow> bool) \<Rightarrow> nat \<Rightarrow> nat \<Rightarrow> uheap \<Rightarrow> (nat \<times> uheap) option" where
  "malloc grant base nbytes h =
     (let nunits = (nbytes + 16 - 1) div 16 + 1;
          h = (if h_freep h = 0 then (set_size base 0 (set_ptr base base h))\<lparr>h_freep := base\<rparr> else h);
          prevp = h_freep h
      in malloc_loop grant nunits prevp (h_ptr h prevp) h)"

section \<open>The free list\<close>

text \<open>\<open>linked f p as q\<close>: following \<open>f\<close> from \<open>p\<close> leads through \<open>as\<close> to \<open>q\<close>.\<close>

primrec linked :: "(nat \<Rightarrow> nat) \<Rightarrow> nat \<Rightarrow> nat list \<Rightarrow> nat \<Rightarrow> bool" where
  "linked f p [] q \<longleftrightarrow> f p = q"
| "linked f p (a # as) q \<longleftrightarrow> f p = a \<and> linked f a as q"

lemma linked_append: "linked f p (as @ b # bs) q \<longleftrightarrow> linked f p as b \<and> linked f b bs q"
  by (induction as arbitrary: p) auto

lemma linked_upd [simp]: "b \<notin> set (p # as) \<Longrightarrow> linked (f(b := v)) p as q \<longleftrightarrow> linked f p as q"
  by (induction as arbitrary: p) auto

lemma linked_head: "p \<notin> set as \<Longrightarrow> linked (f(p := f r)) p as q \<longleftrightarrow> linked f r as q"
  by (cases as) auto

text \<open>
  The heap between \<open>lo\<close> and the break: the free blocks \<open>fs\<close> in order of address, each starting beyond the end of the
  one before it, and the blocks \<open>al\<close> handed out, with their sizes. \<open>base\<close> is the empty block the list starts from.
\<close>

definition free_ok :: "nat \<Rightarrow> nat \<Rightarrow> uheap \<Rightarrow> nat list \<Rightarrow> bool" where
  "free_ok base lo h fs \<longleftrightarrow>
     0 < base \<and> base < lo \<and> linked (h_ptr h) base fs base \<and> h_size h base = 0 \<and> h_freep h \<in> insert base (set fs) \<and>
     sorted_wrt (\<lambda>x y. x + 16 * h_size h x < y) fs \<and>
     (\<forall>f \<in> set fs. lo \<le> f \<and> 0 < h_size h f \<and> f + 16 * h_size h f \<le> h_brk h)"

definition space :: "uheap \<Rightarrow> nat list \<Rightarrow> nat set" where
  "space h fs = (\<Union>f \<in> set fs. {f..<f + 16 * h_size h f})"

definition used_ok :: "nat \<Rightarrow> uheap \<Rightarrow> nat list \<Rightarrow> (nat \<rightharpoonup> nat) \<Rightarrow> bool" where
  "used_ok lo h fs al \<longleftrightarrow>
     (\<forall>a n. al a = Some n \<longrightarrow> h_size h a = n \<and> 0 < n \<and> lo \<le> a \<and> a + 16 * n \<le> h_brk h \<and> {a..<a + 16 * n} \<inter> space h fs = {}) \<and>
     (\<forall>a n b m. al a = Some n \<longrightarrow> al b = Some m \<longrightarrow> a \<noteq> b \<longrightarrow> {a..<a + 16 * n} \<inter> {b..<b + 16 * m} = {})"

definition heap_ok :: "nat \<Rightarrow> nat \<Rightarrow> uheap \<Rightarrow> nat list \<Rightarrow> (nat \<rightharpoonup> nat) \<Rightarrow> bool" where
  "heap_ok base lo h fs al \<longleftrightarrow> free_ok base lo h fs \<and> used_ok lo h fs al"

section \<open>Finding the place of a block\<close>

lemma free_find_stop: "bp > p \<and> bp < h_ptr h p \<or> p \<ge> h_ptr h p \<and> (bp > p \<or> bp < h_ptr h p) \<Longrightarrow> free_find h bp p = Some p"
  by (subst free_find.simps) auto

lemma free_find_next: "\<not> (bp > p \<and> bp < h_ptr h p) \<Longrightarrow> \<not> (p \<ge> h_ptr h p \<and> (bp > p \<or> bp < h_ptr h p)) \<Longrightarrow> free_find h bp p = free_find h bp (h_ptr h p)"
  by (subst free_find.simps) auto

text \<open>From a block below the one to be freed, the search goes up to the last one below it.\<close>

lemma free_find_up:
  assumes "linked (h_ptr h) p as q" "sorted_wrt (<) (p # as)" "\<forall>a \<in> set (p # as). a < bp" "bp < q \<or> q \<le> last (p # as)"
  shows "free_find h bp p = Some (last (p # as))"
  using assms
proof (induction as arbitrary: p)
  case Nil
  then show ?case by (auto intro!: free_find_stop)
next
  case (Cons a as)
  then have "free_find h bp p = free_find h bp a" by (subst free_find_next) auto
  with Cons show ?case by auto
qed

text \<open>From a block above it, the search goes around.\<close>

lemma free_find_around:
  assumes "linked (h_ptr h) p as base" "sorted_wrt (<) (p # as)" "bp < p" "base < bp"
  shows "free_find h bp p = free_find h bp base"
  using assms
proof (induction as arbitrary: p)
  case Nil
  then show ?case by (subst free_find_next) auto
next
  case (Cons a as)
  then have "free_find h bp p = free_find h bp a" by (subst free_find_next) auto
  with Cons show ?case by auto
qed

lemma free_find_finds:
  assumes l: "linked (h_ptr h) base (xs @ ys) base" and s: "sorted_wrt (<) (base # xs @ ys)"
    and x: "\<forall>x \<in> set (base # xs). x < bp" and y: "\<forall>y \<in> set ys. bp < y" and p: "p \<in> insert base (set (xs @ ys))"
  shows "free_find h bp p = Some (last (base # xs))"
proof -
  have up: "free_find h bp a = Some (last (a # bs))" if ab: "base # xs = cs @ a # bs" for a bs cs
  proof -
    have l': "linked (h_ptr h) a (bs @ ys) base"
      using l ab by (cases cs) (auto simp: linked_append)
    have sd: "sorted_wrt (<) (a # bs @ ys)" using s ab by (metis append.assoc append_Cons sorted_wrt_append)
    have lt: "\<forall>x \<in> set (a # bs). x < bp" using x unfolding ab by auto
    show ?thesis
    proof (cases ys)
      case Nil
      have "base \<le> last (a # bs)"
      proof (cases cs)
        case Nil
        then show ?thesis using ab s by (cases bs rule: rev_cases) auto
      next
        case (Cons c cs')
        then have "last (a # bs) \<in> set xs" using ab by auto
        then show ?thesis using s by (auto intro: less_imp_le)
      qed
      then show ?thesis using free_find_up [of h a bs base bp] l' sd lt Nil by simp
    next
      case (Cons c ys')
      then show ?thesis using free_find_up [of h a bs c bp] l' sd lt y by (simp add: linked_append sorted_wrt_append)
    qed
  qed
  have "free_find h bp base = Some (last (base # xs))" by (rule up [of "[]"]) simp
  moreover have "free_find h bp p = free_find h bp base" if pin: "p \<in> set ys"
  proof -
    obtain us vs where ys: "ys = us @ p # vs" using split_list [OF pin] by blast
    have "linked (h_ptr h) p vs base" using l linked_append [of "h_ptr h" base "xs @ us" p vs base] by (simp add: ys)
    then show ?thesis using s y x unfolding ys by (intro free_find_around) (auto simp: sorted_wrt_append)
  qed
  moreover have "free_find h bp p = Some (last (base # xs))" if pin: "p \<in> set xs"
  proof -
    obtain us vs where xs: "xs = us @ p # vs" using split_list [OF pin] by blast
    then have "free_find h bp p = Some (last (p # vs))" by (intro up [of "base # us"]) simp
    then show ?thesis by (simp add: xs)
  qed
  ultimately show ?thesis using p by auto
qed

section \<open>Giving a block back\<close>

lemma space_simps [simp]: "space h [] = {}" "space h (a # as) = {a..<a + 16 * h_size h a} \<union> space h as" "space h (as @ bs) = space h as \<union> space h bs"
  by (auto simp: space_def)

lemma space_cong: "(\<And>a. a \<in> set as \<Longrightarrow> h_size g a = h_size h a) \<Longrightarrow> space g as = space h as"
  by (simp add: space_def)

lemma set_simps [simp]:
  "h_ptr (set_ptr a v h) = (h_ptr h)(a := v)" "h_size (set_ptr a v h) = h_size h" "h_brk (set_ptr a v h) = h_brk h" "h_freep (set_ptr a v h) = h_freep h"
  "h_size (set_size a w h) = (h_size h)(a := w)" "h_ptr (set_size a w h) = h_ptr h" "h_brk (set_size a w h) = h_brk h" "h_freep (set_size a w h) = h_freep h"
  by (simp_all add: set_ptr_def set_size_def)

lemma gap_cong: "(\<And>a. a \<in> set as \<Longrightarrow> h_size g a = h_size h a) \<Longrightarrow>
  sorted_wrt (\<lambda>x y. x + 16 * h_size g x < y) as = sorted_wrt (\<lambda>x y. x + 16 * h_size h x < y) as"
  by (induction as) auto

text \<open>A block and the part of the free list after it.\<close>

definition upper_ok :: "nat \<Rightarrow> uheap \<Rightarrow> nat \<Rightarrow> nat list \<Rightarrow> bool" where
  "upper_ok base h bp ys \<longleftrightarrow>
     linked (h_ptr h) bp ys base \<and> sorted_wrt (\<lambda>x y. x + 16 * h_size h x < y) (bp # ys) \<and>
     (\<forall>f \<in> set (bp # ys). 0 < h_size h f \<and> f + 16 * h_size h f \<le> h_brk h)"

definition join_next :: "nat \<Rightarrow> nat \<Rightarrow> uheap \<Rightarrow> uheap" where
  "join_next bp q h =
     (if bp + 16 * h_size h bp = q then set_ptr bp (h_ptr h q) (set_size bp (h_size h bp + h_size h q) h) else set_ptr bp q h)"

lemma free_link_join:
  "free_link bp p h = (let g = join_next bp (h_ptr h p) h in
     (if p + 16 * h_size g p = bp then set_ptr p (h_ptr g bp) (set_size p (h_size g p + h_size g bp) g) else set_ptr p bp g)\<lparr>h_freep := p\<rparr>)"
  by (simp add: free_link_def join_next_def Let_def)

lemma join_next_ok:
  assumes l: "linked (h_ptr h) p ys base" "sorted_wrt (\<lambda>x y. x + 16 * h_size h x < y) ys" "\<forall>f \<in> set ys. 0 < h_size h f \<and> f + 16 * h_size h f \<le> h_brk h"
    and b: "base < bp" "0 < h_size h bp" "bp + 16 * h_size h bp \<le> h_brk h" "\<forall>y \<in> set ys. bp + 16 * h_size h bp \<le> y"
  obtains zs where "upper_ok base (join_next bp (h_ptr h p) h) bp zs" "set zs \<subseteq> set ys"
    "space (join_next bp (h_ptr h p) h) (bp # zs) = space h (bp # ys)"
proof (cases ys)
  case Nil
  then have "upper_ok base (join_next bp (h_ptr h p) h) bp []" "space (join_next bp (h_ptr h p) h) [bp] = space h [bp]"
    using l b by (auto simp: upper_ok_def join_next_def)
  then show ?thesis using that [of "[]"] Nil by simp
next
  case (Cons q qs)
  have q: "h_ptr h p = q" "linked (h_ptr h) q qs base" using l(1) Cons by auto
  have out: "bp \<notin> set ys" using b(2,4) by force
  have ne: "\<And>x. x \<in> set (q # qs) \<Longrightarrow> x \<noteq> bp" "bp \<notin> set qs" "bp \<noteq> q" using out Cons by auto
  show ?thesis
  proof (cases "bp + 16 * h_size h bp = q")
    case True
    let ?g = "set_ptr bp (h_ptr h q) (set_size bp (h_size h bp + h_size h q) h)"
    have g: "join_next bp (h_ptr h p) h = ?g" using True q by (simp add: join_next_def)
    have "linked (h_ptr ?g) bp qs base"
      using q(2) ne by (simp add: linked_head)
    moreover have "sorted_wrt (\<lambda>x y. x + 16 * h_size ?g x < y) qs"
      using l(2) Cons ne by (subst gap_cong [of _ _ h]) auto
    moreover have top: "bp + 16 * h_size ?g bp = q + 16 * h_size h q" using True by (simp add: distrib_left)
    moreover have "\<forall>y \<in> set qs. bp + 16 * h_size ?g bp < y" unfolding top using l(2) Cons by simp
    moreover have "\<forall>f \<in> set qs. 0 < h_size ?g f \<and> f + 16 * h_size ?g f \<le> h_brk ?g" using l(3) Cons ne by simp
    moreover have "0 < h_size ?g bp" "bp + 16 * h_size ?g bp \<le> h_brk ?g" unfolding top using l(3) b(2) Cons by simp_all
    ultimately have "upper_ok base ?g bp qs" unfolding upper_ok_def by simp
    moreover have "space ?g qs = space h qs" using ne by (intro space_cong) auto
    moreover have "{bp..<bp + 16 * h_size ?g bp} = {bp..<bp + 16 * h_size h bp} \<union> {q..<q + 16 * h_size h q}"
      unfolding top using True by (subst ivl_disj_un_two(3) [of bp q "q + 16 * h_size h q", symmetric]) auto
    ultimately have "upper_ok base ?g bp qs" "space ?g (bp # qs) = space h (bp # ys)" using Cons by (simp_all add: Un_assoc)
    then show ?thesis using that [of qs] g Cons by auto
  next
    case False
    let ?g = "set_ptr bp q h"
    have g: "join_next bp (h_ptr h p) h = ?g" using False q by (simp add: join_next_def)
    have "linked (h_ptr ?g) bp ys base" using q(2) ne Cons by simp
    moreover have "\<forall>y \<in> set ys. bp + 16 * h_size h bp < y"
    proof
      fix y
      assume "y \<in> set ys"
      then consider "y = q" | "q < y" using l(2) Cons by fastforce
      then show "bp + 16 * h_size h bp < y" using b(4) False Cons by cases auto
    qed
    ultimately have "upper_ok base ?g bp ys" using l b by (auto simp: upper_ok_def)
    moreover have "space ?g (bp # ys) = space h (bp # ys)" by (auto simp: space_def)
    ultimately show ?thesis using that [of ys] g by auto
  qed
qed

lemma linked_last: "linked f p as q \<Longrightarrow> distinct (p # as) \<Longrightarrow> linked (f(last (p # as) := b)) p as b"
  by (induction as arbitrary: p) auto

lemma linked_from_last: "linked f p (as @ bs) q \<Longrightarrow> linked f (last (p # as)) bs q"
  by (induction as arbitrary: p) auto

lemma free_okD:
  assumes "free_ok base lo h fs"
  shows "0 < base" "base < lo" "linked (h_ptr h) base fs base" "h_size h base = 0" "sorted_wrt (\<lambda>x y. x + 16 * h_size h x < y) fs"
    "\<And>f. f \<in> set fs \<Longrightarrow> lo \<le> f \<and> 0 < h_size h f \<and> f + 16 * h_size h f \<le> h_brk h"
    "sorted_wrt (<) (base # fs)" "h_freep h \<in> insert base (set fs)"
proof -
  have "sorted_wrt (<) fs" using assms unfolding free_ok_def by (auto elim!: sorted_wrt_mono_rel [rotated])
  then show "sorted_wrt (<) (base # fs)" using assms unfolding free_ok_def by force
qed (use assms in \<open>auto simp: free_ok_def\<close>)

lemma free_link_ok:
  assumes ok: "free_ok base lo h (xs @ ys)" and b: "lo \<le> bp" "0 < h_size h bp" "bp + 16 * h_size h bp \<le> h_brk h"
    and sep: "\<forall>x \<in> set xs. x + 16 * h_size h x \<le> bp" "\<forall>y \<in> set ys. bp + 16 * h_size h bp \<le> y"
  defines "p \<equiv> last (base # xs)"
  obtains fs where "free_ok base lo (free_link bp p h) fs" "space (free_link bp p h) fs = space h (xs @ ys) \<union> {bp..<bp + 16 * h_size h bp}"
    "\<And>z. z \<notin> {p, bp} \<Longrightarrow> h_ptr (free_link bp p h) z = h_ptr h z \<and> h_size (free_link bp p h) z = h_size h z"
    "h_brk (free_link bp p h) = h_brk h" "\<exists>f \<in> set fs. h_size h bp \<le> h_size (free_link bp p h) f"
proof -
  note old = free_okD [OF ok]
  define g where "g = join_next bp (h_ptr h p) h"
  have grows: "h_size h bp \<le> h_size g bp" by (simp add: g_def join_next_def)
  have gz: "h_ptr g z = h_ptr h z" "h_size g z = h_size h z" "h_brk g = h_brk h" if "z \<noteq> bp" for z using that by (simp_all add: g_def join_next_def)
  have lk: "linked (h_ptr h) p ys base" "p = base \<and> xs = [] \<or> (\<exists>xs0. xs = xs0 @ [p])"
    using linked_from_last [OF old(3)] unfolding p_def by (simp_all add: append_butlast_last_id [symmetric] exI [of _ "butlast xs"])
  have "base < bp" using old(2) b(1) by simp
  then obtain zs where z: "upper_ok base g bp zs" "set zs \<subseteq> set ys" "space g (bp # zs) = space h (bp # ys)"
    using join_next_ok [OF lk(1), of bp] old(5,6) b sep(2) unfolding g_def by (auto simp: sorted_wrt_append)
  have px: "p \<in> insert base (set xs)" "p + 16 * h_size h p \<le> bp" "p \<noteq> bp" using lk(2) old(4) sep(1) \<open>base < bp\<close> old(6) by force+
  have nb: "bp \<notin> set (base # xs)" using \<open>base < bp\<close> sep(1) old(6) by force
  have up: "linked (h_ptr g) bp zs base" "sorted_wrt (\<lambda>x y. x + 16 * h_size g x < y) (bp # zs)" "\<forall>f \<in> set (bp # zs). 0 < h_size g f \<and> f + 16 * h_size g f \<le> h_brk g"
    using z(1) by (simp_all add: upper_ok_def)
  have pz: "p \<notin> set zs" using up(2) px(2) by force
  have bz: "\<And>z. z \<in> set zs \<Longrightarrow> bp + 16 * h_size g bp < z" "bp \<notin> set zs" using up(2) by auto
  have zl: "\<And>z. z \<in> set zs \<Longrightarrow> lo \<le> z" using z(2) old(6) by auto
  have gx: "h_size g x = h_size h x" "h_ptr g x = h_ptr h x" if "x \<in> set (base # xs)" for x using gz(1,2) [of x] nb that by metis+
  have sp: "space g xs = space h xs" using gx by (intro space_cong) simp
  have gap: "sorted_wrt (\<lambda>x y. x + 16 * h_size h x < y) xs" using old(5) by (simp add: sorted_wrt_append)
  show ?thesis
  proof (cases "p + 16 * h_size g p = bp")
    case join: True
    then have "p \<noteq> base" using old(4) gz(2) [of base] \<open>base < bp\<close> nb by auto
    then obtain xs0 where xs: "xs = xs0 @ [p]" using lk(2) by blast
    define k where "k = (set_ptr p (h_ptr g bp) (set_size p (h_size g p + h_size g bp) g))\<lparr>h_freep := p\<rparr>"
    have k: "free_link bp p h = k" using join by (simp add: free_link_join g_def [symmetric] k_def)
    have top: "p + 16 * h_size k p = bp + 16 * h_size g bp" using join by (simp add: k_def distrib_left)
    have kz: "h_ptr k z = h_ptr g z" "h_size k z = h_size g z" if "z \<noteq> p" for z using that by (simp_all add: k_def)
    have x0: "\<And>x. x \<in> set xs0 \<Longrightarrow> x + 16 * h_size h x < p" "p \<notin> set (base # xs0)" "bp \<notin> set (base # xs0)"
      using gap xs nb old(7) by (auto simp: sorted_wrt_append)
    have l0: "linked (h_ptr h) base xs0 p" using old(3) xs by (simp add: linked_append)
    have "linked (h_ptr k) base xs0 p"
    proof -
      have "linked (h_ptr g) base xs0 p" using l0 x0(3) by (simp add: g_def join_next_def)
      then show ?thesis using x0(2) by (simp add: k_def)
    qed
    moreover have "linked (h_ptr k) p zs base" using up(1) pz px(3) by (simp add: k_def linked_head)
    ultimately have "linked (h_ptr k) base (xs0 @ p # zs) base" by (simp add: linked_append)
    moreover have kx: "h_size k x = h_size h x" if "x \<in> set xs0" for x using that x0(2) gx(1) [of x] kz(2) [of x] xs by auto
    moreover have kzs: "h_size k x = h_size g x" if "x \<in> set zs" for x using that pz kz(2) [of x] by auto
    moreover have "sorted_wrt (\<lambda>x y. x + 16 * h_size k x < y) (xs0 @ p # zs)"
    proof -
      have "sorted_wrt (\<lambda>x y. x + 16 * h_size k x < y) xs0" using gap xs kx by (subst gap_cong [of _ _ h]) (auto simp: sorted_wrt_append)
      moreover have "sorted_wrt (\<lambda>x y. x + 16 * h_size k x < y) zs" using up(2) kzs by (subst gap_cong [of _ _ g]) auto
      moreover have "x + 16 * h_size k x < y" if "x \<in> set xs0" "y \<in> set (p # zs)" for x y
        using x0(1) [OF that(1)] that(2) bz(1) [of y] px(2) kx [OF that(1)] by auto
      moreover have "p + 16 * h_size k p < y" if "y \<in> set zs" for y using bz(1) [OF that] top by simp
      ultimately show ?thesis by (simp add: sorted_wrt_append)
    qed
    moreover have "lo \<le> f \<and> 0 < h_size k f \<and> f + 16 * h_size k f \<le> h_brk k" if "f \<in> set (xs0 @ p # zs)" for f
    proof -
      have br: "h_brk k = h_brk h" using gz(3) px(3) by (simp add: k_def)
      consider "f \<in> set xs0" | "f = p" | "f \<in> set zs" using \<open>f \<in> set (xs0 @ p # zs)\<close> by auto
      then show ?thesis
      proof cases
        case 1
        then show ?thesis using old(6) [of f] kx xs br by simp
      next
        case 2
        have "lo \<le> p" "0 < h_size h p" using old(6) [of p] xs by auto
        then show ?thesis using 2 top up(3) br gz(3) [OF px(3)] gx(1) [of p] px(1) by (simp add: k_def)
      next
        case 3
        then show ?thesis using zl up(3) kzs br gz(3) [OF px(3)] by simp
      qed
    qed
    ultimately have "free_ok base lo k (xs0 @ p # zs)"
      using old(1,2,4) kz(2) [of base] gz(2) [of base] \<open>p \<noteq> base\<close> nb by (simp add: free_ok_def k_def)
    moreover have "space k (xs0 @ p # zs) = space h (xs @ ys) \<union> {bp..<bp + 16 * h_size h bp}"
    proof -
      have "space k xs0 = space h xs0" "space k zs = space g zs" by (rule space_cong, erule kx, rule space_cong, erule kzs)
      moreover have "{p..<p + 16 * h_size k p} = {p..<p + 16 * h_size h p} \<union> {bp..<bp + 16 * h_size g bp}"
        unfolding top using join gx(1) [of p] px(1,2) by (subst ivl_disj_un_two(3) [of p bp, symmetric]) auto
      ultimately show ?thesis using z(3) xs by auto
    qed
    ultimately show ?thesis using that [of "xs0 @ p # zs"] k join gz px(3) kz grows by (simp add: k_def)
  next
    case apart: False
    define k where "k = (set_ptr p bp g)\<lparr>h_freep := p\<rparr>"
    have k: "free_link bp p h = k" using apart by (simp add: free_link_join g_def [symmetric] k_def)
    have "linked (h_ptr k) base xs bp"
    proof -
      have "\<exists>q. linked (h_ptr h) base xs q" using old(3) by (cases ys) (auto simp: linked_append)
      then obtain q where "linked (h_ptr g) base xs q" using nb by (auto simp: g_def join_next_def)
      moreover have "distinct (base # xs)" using old(7) by (auto simp: sorted_wrt_append strict_sorted_iff)
      ultimately show ?thesis using linked_last [of "h_ptr g" base xs q bp] by (simp add: k_def p_def)
    qed
    moreover have "linked (h_ptr k) bp zs base" using up(1) pz px(3) by (simp add: k_def)
    ultimately have "linked (h_ptr k) base (xs @ bp # zs) base" by (simp add: linked_append)
    moreover have ks: "h_size k = h_size g" "h_brk k = h_brk h" using gz(3) px(3) by (simp_all add: k_def)
    moreover have "sorted_wrt (\<lambda>x y. x + 16 * h_size k x < y) (xs @ bp # zs)"
    proof -
      have "sorted_wrt (\<lambda>x y. x + 16 * h_size g x < y) xs" using gap gx(1) by (subst gap_cong [of _ _ h]) auto
      moreover have "x + 16 * h_size g x < bp" if x: "x \<in> set xs" for x
      proof (cases "x = p")
        case True
        then show ?thesis using apart px(2) gx(1) [of p] px(1) by auto
      next
        case False
        then obtain xs0 where "xs = xs0 @ [p]" "x \<in> set xs0" using x lk(2) by auto
        then have "x + 16 * h_size h x < p" using gap by (auto simp: sorted_wrt_append)
        then show ?thesis using gx(1) [of x] x px(2) by simp
      qed
      ultimately show ?thesis using up(2) bz(1) unfolding ks by (fastforce simp: sorted_wrt_append)
    qed
    moreover have "\<forall>f \<in> set (xs @ bp # zs). lo \<le> f \<and> 0 < h_size k f \<and> f + 16 * h_size k f \<le> h_brk k"
      unfolding ks using old(6) gx(1) up(3) zl b(1) gz(3) [OF px(3)] by auto
    ultimately have "free_ok base lo k (xs @ bp # zs)"
      using old(1,2,4) gz(2) [of base] nb px(1) unfolding free_ok_def by (simp add: k_def) blast
    moreover have "space k (xs @ bp # zs) = space h (xs @ ys) \<union> {bp..<bp + 16 * h_size h bp}"
    proof -
      have "space k (xs @ bp # zs) = space g xs \<union> space g (bp # zs)" unfolding space_def ks by auto
      then show ?thesis unfolding z(3) sp by auto
    qed
    ultimately show ?thesis using that [of "xs @ bp # zs"] k gz px(3) grows by (simp add: k_def)
  qed
qed

lemma give_back:
  assumes ok: "free_ok base lo h fs" and a: "lo \<le> a" "0 < h_size h a" "a + 16 * h_size h a \<le> h_brk h"
    and dis: "{a..<a + 16 * h_size h a} \<inter> space h fs = {}"
  obtains h' fs' where "free (a + 16) h = Some h'" "free_ok base lo h' fs'" "space h' fs' = space h fs \<union> {a..<a + 16 * h_size h a}"
    "\<And>z. z \<notin> insert a (insert base (set fs)) \<Longrightarrow> h_ptr h' z = h_ptr h z \<and> h_size h' z = h_size h z" "h_brk h' = h_brk h"
    "\<exists>f \<in> set fs'. h_size h a \<le> h_size h' f"
proof -
  note old = free_okD [OF ok]
  define xs where "xs = takeWhile (\<lambda>x. x < a) fs"
  define ys where "ys = dropWhile (\<lambda>x. x < a) fs"
  have fs: "fs = xs @ ys" by (simp add: xs_def ys_def)
  have ends: "f + 16 * h_size h f \<le> a \<or> a + 16 * h_size h a \<le> f" if "f \<in> set fs" for f
  proof (rule ccontr)
    assume "\<not> ?thesis"
    then have "max a f \<in> {a..<a + 16 * h_size h a} \<inter> {f..<f + 16 * h_size h f}" using old(6) [OF that] a(2) by auto
    then show False using dis that unfolding space_def by blast
  qed
  have x: "x < a" if "x \<in> set xs" for x using that by (auto simp: xs_def dest: set_takeWhileD)
  have y: "a \<le> y" if "y \<in> set ys" for y
  proof (cases ys)
    case (Cons z zs)
    then have "\<not> z < a" unfolding ys_def by (metis hd_dropWhile list.distinct(1) list.sel(1))
    then show ?thesis using old(7) that Cons fs by (fastforce simp: sorted_wrt_append)
  qed (use that in simp)
  have sep: "\<forall>x \<in> set xs. x + 16 * h_size h x \<le> a" "\<forall>y \<in> set ys. a + 16 * h_size h a \<le> y"
    using ends x y old(6) a(2) fs by fastforce+
  have "free_find h a (h_freep h) = Some (last (base # xs))"
    using free_find_finds [of h base xs ys a "h_freep h"] old(2,3,7,8) x sep(2) a fs by fastforce
  then have fr: "free (a + 16) h = Some (free_link a (last (base # xs)) h)" by (simp add: free_def)
  from free_link_ok [OF ok [unfolded fs] a sep] obtain fs' where
    r: "free_ok base lo (free_link a (last (base # xs)) h) fs'" "space (free_link a (last (base # xs)) h) fs' = space h fs \<union> {a..<a + 16 * h_size h a}"
    "\<And>z. z \<notin> {last (base # xs), a} \<Longrightarrow> h_ptr (free_link a (last (base # xs)) h) z = h_ptr h z \<and> h_size (free_link a (last (base # xs)) h) z = h_size h z"
    "h_brk (free_link a (last (base # xs)) h) = h_brk h" "\<exists>f \<in> set fs'. h_size h a \<le> h_size (free_link a (last (base # xs)) h) f"
    unfolding fs by blast
  have "last (base # xs) \<in> insert base (set fs)" using last_in_set [of "base # xs"] fs by auto
  then show ?thesis by (intro that [OF fr r(1,2) _ r(4,5)] r(3)) blast
qed

lemma calls_keep [simp]: "h_calls (free_link bp p h) = h_calls h"
  by (simp add: free_link_def Let_def set_ptr_def set_size_def)

section \<open>Taking a block\<close>

lemma linked_map: "linked f p as q \<Longrightarrow> map f (p # as) = as @ [q]"
  by (induction as arbitrary: p) auto

lemma linked_inj:
  assumes "linked f p as p" "distinct (p # as)"
  shows "inj_on f (set (p # as))"
proof -
  have "distinct (map f (p # as))" unfolding linked_map [OF assms(1)] using assms(2) by simp
  then show ?thesis by (simp only: distinct_map)
qed

text \<open>The cycle seen from one of its blocks.\<close>

lemma linked_rotate:
  assumes "linked f b fs b" "r \<in> insert b (set fs)" "distinct (b # fs)"
  obtains cs where "linked f r cs r" "set (r # cs) = insert b (set fs)" "distinct (r # cs)"
proof (cases "r = b")
  case True
  then show ?thesis using that [of fs] assms by auto
next
  case False
  then obtain us vs where fs: "fs = us @ r # vs" using assms(2) split_list [of r fs] by auto
  then have "linked f r (vs @ b # us) r" using assms(1) by (simp add: linked_append)
  then show ?thesis using that [of "vs @ b # us"] assms(3) fs by auto
qed

lemma malloc_walk:
  "linked (h_ptr h) p as q \<Longrightarrow> \<forall>a \<in> set as. h_size h a < n \<and> a \<noteq> h_freep h \<Longrightarrow>
   malloc_loop grant n p (h_ptr h p) h = malloc_loop grant n (last (p # as)) q h"
proof (induction as arbitrary: p)
  case (Cons a as)
  then show ?case by (subst malloc_loop.simps) auto
qed simp

text \<open>A block \<open>a\<close> of \<open>n\<close> units has left the free space.\<close>

definition taken_from :: "nat \<Rightarrow> nat \<Rightarrow> uheap \<Rightarrow> nat list \<Rightarrow> nat \<Rightarrow> nat \<Rightarrow> uheap \<Rightarrow> bool" where
  "taken_from base lo h fs n a h' \<longleftrightarrow>
     (\<exists>fs'. free_ok base lo h' fs' \<and> space h' fs' = space h fs - {a..<a + 16 * n}) \<and>
     {a..<a + 16 * n} \<subseteq> space h fs \<and> h_size h' a = n \<and> h_brk h' = h_brk h \<and>
     (\<forall>z. z \<notin> space h fs \<longrightarrow> z \<noteq> base \<longrightarrow> h_ptr h' z = h_ptr h z \<and> h_size h' z = h_size h z)"

lemma free_in_space: "free_ok base lo h fs \<Longrightarrow> f \<in> set fs \<Longrightarrow> {f..<f + 16 * h_size h f} \<subseteq> space h fs \<and> f \<in> space h fs"
  using free_okD(6) [of base lo h fs f] by (auto simp: space_def)

lemma space_apart:
  assumes "free_ok base lo h (xs @ f # ys)"
  shows "{f..<f + 16 * h_size h f} \<inter> space h (xs @ ys) = {}"
proof -
  have "x + 16 * h_size h x \<le> f" if "x \<in> set xs" for x using free_okD(5) [OF assms] that by (fastforce simp: sorted_wrt_append)
  moreover have "f + 16 * h_size h f \<le> y" if "y \<in> set ys" for y using free_okD(5) [OF assms] that by (fastforce simp: sorted_wrt_append)
  ultimately show ?thesis unfolding space_def by fastforce
qed

lemma take_whole:
  assumes ok: "free_ok base lo h (xs @ f # ys)"
  shows "taken_from base lo h (xs @ f # ys) (h_size h f) f ((set_ptr (last (base # xs)) (h_ptr h f) h)\<lparr>h_freep := last (base # xs)\<rparr>)" (is "taken_from _ _ _ _ _ _ ?k")
proof -
  note old = free_okD [OF ok]
  let ?p = "last (base # xs)"
  have lk: "linked (h_ptr h) base xs f" "linked (h_ptr h) f ys base" using old(3) by (simp_all add: linked_append)
  have d: "distinct (base # xs @ f # ys)" using old(7) unfolding strict_sorted_iff by blast
  have p: "?p \<in> insert base (set xs)" using last_in_set [of "base # xs"] by auto
  then have pn: "?p \<notin> set (f # ys)" using d by auto
  have "linked (h_ptr ?k) base (xs @ ys) base"
  proof (cases ys)
    case Nil
    then show ?thesis using linked_last [OF lk(1)] d lk(2) by simp
  next
    case (Cons y zs)
    then have "linked (h_ptr ?k) base xs y" using linked_last [OF lk(1), of y] d lk(2) by simp
    moreover have "linked (h_ptr ?k) y zs base" using lk(2) Cons pn by simp
    ultimately show ?thesis using Cons by (simp add: linked_append)
  qed
  moreover have "sorted_wrt (\<lambda>x y. x + 16 * h_size h x < y) (xs @ ys)" using old(5) by (simp add: sorted_wrt_append)
  ultimately have "free_ok base lo ?k (xs @ ys)" using old(1,2,4,6) p unfolding free_ok_def by auto
  moreover have "space ?k (xs @ ys) = space h (xs @ f # ys) - {f..<f + 16 * h_size h f}"
    using space_apart [OF ok] unfolding space_def by auto
  ultimately have "\<exists>fs'. free_ok base lo ?k fs' \<and> space ?k fs' = space h (xs @ f # ys) - {f..<f + 16 * h_size h f}" by blast
  moreover have "?p \<in> insert base (space h (xs @ f # ys))" using p free_in_space [OF ok, of ?p] by auto
  then have "\<forall>z. z \<notin> space h (xs @ f # ys) \<longrightarrow> z \<noteq> base \<longrightarrow> h_ptr ?k z = h_ptr h z \<and> h_size ?k z = h_size h z" by auto
  moreover have "{f..<f + 16 * h_size h f} \<subseteq> space h (xs @ f # ys)" using free_in_space [OF ok, of f] by simp
  moreover have "h_size ?k f = h_size h f" "h_brk ?k = h_brk h" by simp_all
  ultimately show ?thesis unfolding taken_from_def by blast
qed

lemma take_part:
  assumes ok: "free_ok base lo h (xs @ f # ys)" and n: "0 < n" "n < h_size h f" and p: "p \<in> insert base (set (xs @ f # ys))"
  defines "a \<equiv> f + 16 * (h_size h f - n)"
  shows "taken_from base lo h (xs @ f # ys) n a ((set_size a n (set_size f (h_size h f - n) h))\<lparr>h_freep := p\<rparr>)" (is "taken_from _ _ _ _ _ _ ?k")
proof -
  note old = free_okD [OF ok]
  have top: "a + 16 * n = f + 16 * h_size h f" using n by (simp add: a_def diff_mult_distrib2)
  have a: "f < a" "{a..<a + 16 * n} \<subseteq> {f..<f + 16 * h_size h f}" unfolding top using n by (auto simp: a_def)
  then have as: "a \<in> {f..<f + 16 * h_size h f}" using n(1) top by auto
  have an: "a \<notin> set (xs @ ys)"
  proof
    assume "a \<in> set (xs @ ys)"
    then have "a \<in> space h (xs @ ys)" using old(6) [of a] unfolding space_def by force
    then show False using space_apart [OF ok] as by blast
  qed
  have fn: "f \<notin> set (xs @ ys)" using old(7) by (auto simp: sorted_wrt_append)
  have sz: "h_size ?k x = h_size h x" if "x \<in> set (xs @ ys)" for x using that an fn by auto
  have kf: "h_size ?k f = h_size h f - n" using a(1) by simp
  have "sorted_wrt (\<lambda>x y. x + 16 * h_size ?k x < y) (xs @ f # ys)"
  proof -
    have "sorted_wrt (\<lambda>x y. x + 16 * h_size ?k x < y) xs" "sorted_wrt (\<lambda>x y. x + 16 * h_size ?k x < y) ys"
      using old(5) sz by (subst gap_cong [of _ _ h]; auto simp: sorted_wrt_append)+
    then show ?thesis using old(5) sz kf by (fastforce simp: sorted_wrt_append)
  qed
  moreover have "lo \<le> x \<and> 0 < h_size ?k x \<and> x + 16 * h_size ?k x \<le> h_brk ?k" if "x \<in> set (xs @ f # ys)" for x
  proof (cases "x = f")
    case True
    have "f + 16 * (h_size h f - n) \<le> h_brk h" using old(6) [of f] top unfolding a_def by simp
    then show ?thesis using old(6) [of f] n unfolding True kf by simp
  next
    case False
    then show ?thesis using old(6) [of x] sz [of x] that by simp
  qed
  moreover have "h_size ?k base = 0" using old(2,4) old(6) [of f] a(1) by simp
  ultimately have "free_ok base lo ?k (xs @ f # ys)" using old(1-3) p unfolding free_ok_def by simp
  moreover have "space ?k (xs @ f # ys) = space h (xs @ f # ys) - {a..<a + 16 * n}"
  proof -
    have "space ?k (xs @ ys) = space h (xs @ ys)" using sz by (rule space_cong)
    moreover have "{f..<f + 16 * h_size ?k f} = {f..<f + 16 * h_size h f} - {a..<a + 16 * n}" unfolding top kf by (auto simp: a_def)
    moreover have "{a..<a + 16 * n} \<inter> space h (xs @ ys) = {}" using space_apart [OF ok] a(2) by blast
    ultimately show ?thesis by auto
  qed
  moreover have "{a..<a + 16 * n} \<subseteq> space h (xs @ f # ys)" "f \<in> space h (xs @ f # ys)" "a \<in> space h (xs @ f # ys)"
    using a(2) as free_in_space [OF ok, of f] by auto
  ultimately show ?thesis unfolding taken_from_def by (intro conjI) (auto simp del: space_simps)
qed

lemma linked_end: "linked f p as q \<Longrightarrow> f (last (p # as)) = q"
  using linked_from_last [of f p as "[]" q] by simp

text \<open>The first block of the cycle that is large enough, with the one before it.\<close>

lemma first_fit:
  assumes ok: "free_ok base lo h fs" and n: "0 < n" and some: "\<exists>f \<in> set fs. n \<le> h_size h f"
  obtains xs f ys where "fs = xs @ f # ys" "n \<le> h_size h f"
    "\<And>grant. malloc_loop grant n (h_freep h) (h_ptr h (h_freep h)) h = malloc_loop grant n (last (base # xs)) f h"
proof -
  note old = free_okD [OF ok]
  let ?r = "h_freep h"
  have d: "distinct (base # fs)" using old(7) unfolding strict_sorted_iff by blast
  obtain cs where cs: "linked (h_ptr h) ?r cs ?r" "set (?r # cs) = insert base (set fs)" "distinct (?r # cs)"
    using linked_rotate [OF old(3,8) d] .
  have "\<exists>x \<in> set (cs @ [?r]). n \<le> h_size h x" using some cs(2) by auto
  then obtain as f bs where f: "cs @ [?r] = as @ f # bs" "n \<le> h_size h f" "\<forall>a \<in> set as. \<not> n \<le> h_size h a"
    by (rule split_list_first_propE)
  have as: "linked (h_ptr h) ?r as f \<and> set as \<subseteq> set cs"
  proof (cases bs rule: rev_cases)
    case Nil
    then show ?thesis using f(1) cs(1) by simp
  next
    case (snoc bs' b)
    then have "cs = as @ f # bs'" using f(1) by simp
    then show ?thesis using cs(1) by (auto simp: linked_append)
  qed
  then have walk: "malloc_loop grant n ?r (h_ptr h ?r) h = malloc_loop grant n (last (?r # as)) f h" for grant
    using f(3) cs(3) by (intro malloc_walk) auto
  have "f \<in> set (cs @ [?r])" unfolding f(1) by simp
  then have "f \<in> insert base (set fs)" using cs(2) by auto
  then have "f \<in> set fs" using old(4) n f(2) by auto
  then obtain xs ys where fs: "fs = xs @ f # ys" using split_list [of f fs] by blast
  have "h_ptr h (last (base # xs)) = f" using old(3) fs by (auto simp: linked_append dest: linked_end)
  moreover have "h_ptr h (last (?r # as)) = f" using as linked_end by blast
  moreover have "last (base # xs) \<in> set (base # fs)" using last_in_set [of "base # xs"] fs by auto
  moreover have "last (?r # as) \<in> set (?r # cs)" using last_in_set [of "?r # as"] as by auto
  then have "last (?r # as) \<in> set (base # fs)" unfolding cs(2) by simp
  ultimately have "last (?r # as) = last (base # xs)" using linked_inj [OF old(3) d] unfolding inj_on_def by metis
  with walk show ?thesis using that [OF fs f(2)] by simp
qed

lemma malloc_found:
  assumes ok: "free_ok base lo h fs" and n: "0 < n" and some: "\<exists>f \<in> set fs. n \<le> h_size h f"
  shows "\<exists>a h'. malloc_loop grant n (h_freep h) (h_ptr h (h_freep h)) h = Some (a + 16, h') \<and> taken_from base lo h fs n a h' \<and> h_calls h' = h_calls h"
proof -
  obtain xs f ys where f: "fs = xs @ f # ys" "n \<le> h_size h f"
    "malloc_loop grant n (h_freep h) (h_ptr h (h_freep h)) h = malloc_loop grant n (last (base # xs)) f h"
    using first_fit [OF assms] by metis
  let ?p = "last (base # xs)"
  show ?thesis
  proof (cases "h_size h f = n")
    case True
    then have "malloc_loop grant n ?p f h = Some (f + 16, (set_ptr ?p (h_ptr h f) h)\<lparr>h_freep := ?p\<rparr>)" by (subst malloc_loop.simps) simp
    moreover have "h_calls ((set_ptr ?p (h_ptr h f) h)\<lparr>h_freep := ?p\<rparr>) = h_calls h" by (simp add: set_ptr_def)
    ultimately show ?thesis using take_whole [OF ok [unfolded f(1)]] f(1,3) True by metis
  next
    case False
    let ?a = "f + 16 * (h_size h f - n)" let ?k = "(set_size ?a n (set_size f (h_size h f - n) h))\<lparr>h_freep := ?p\<rparr>"
    have "malloc_loop grant n ?p f h = Some (?a + 16, ?k)" using False f(2) by (subst malloc_loop.simps) (simp add: Let_def)
    moreover have "h_calls ?k = h_calls h" by (simp add: set_size_def)
    moreover have "?p \<in> insert base (set (xs @ f # ys))" using last_in_set [of "base # xs"] by auto
    then have "taken_from base lo h (xs @ f # ys) n ?a ?k" using take_part [OF ok [unfolded f(1)] n] False f(2) by simp
    ultimately show ?thesis using f(1,3) by metis
  qed
qed

text \<open>If no block is large enough, the loop comes back to where it began and asks for more.\<close>

lemma malloc_none:
  assumes ok: "free_ok base lo h fs" and none: "\<forall>f \<in> set fs. h_size h f < n" and n: "0 < n"
  shows "malloc_loop grant n (h_freep h) (h_ptr h (h_freep h)) h =
    Option.bind (morecore grant n h) (\<lambda>(p, h). if p = 0 then Some (0, h) else malloc_loop grant n p (h_ptr h p) h)"
proof -
  note old = free_okD [OF ok]
  let ?r = "h_freep h"
  have d: "distinct (base # fs)" using old(7) unfolding strict_sorted_iff by blast
  obtain cs where cs: "linked (h_ptr h) ?r cs ?r" "set (?r # cs) = insert base (set fs)" "distinct (?r # cs)"
    using linked_rotate [OF old(3,8) d] .
  have small: "h_size h a < n" if "a \<in> set (?r # cs)" for a using that none n old(4) unfolding cs(2) by auto
  have "malloc_loop grant n ?r (h_ptr h ?r) h = malloc_loop grant n (last (?r # cs)) ?r h"
    using small cs by (intro malloc_walk) auto
  also have "\<dots> = Option.bind (morecore grant n h) (\<lambda>(p, h). if p = 0 then Some (0, h) else malloc_loop grant n p (h_ptr h p) h)"
    using small [of ?r] by (subst malloc_loop.simps) simp
  finally show ?thesis .
qed

section \<open>Calls of the allocator\<close>

text \<open>
  The heap between calls: \<open>al\<close> are the blocks handed out and not yet given back, by the address of their header, with their
  size in units. Before the first call of \<^verbatim>\<open>malloc\<close> there is no free list.
\<close>

definition heap_inv :: "nat \<Rightarrow> nat \<Rightarrow> uheap \<Rightarrow> (nat \<rightharpoonup> nat) \<Rightarrow> bool" where
  "heap_inv base lo h al \<longleftrightarrow> 0 < base \<and> base < lo \<and> lo \<le> h_brk h \<and>
     (h_freep h = 0 \<and> al = Map.empty \<or> (\<exists>fs. heap_ok base lo h fs al))"

definition untouched :: "nat \<Rightarrow> nat \<Rightarrow> uheap \<Rightarrow> uheap \<Rightarrow> bool" where
  "untouched a n h h' \<longleftrightarrow> (\<forall>z \<in> {a..<a + 16 * n}. h_ptr h' z = h_ptr h z \<and> h_size h' z = h_size h z)"

lemma used_okD:
  assumes "used_ok lo h fs al" "al a = Some n"
  shows "h_size h a = n" "0 < n" "lo \<le> a" "a + 16 * n \<le> h_brk h" "{a..<a + 16 * n} \<inter> space h fs = {}"
    "al b = Some m \<Longrightarrow> a \<noteq> b \<Longrightarrow> {a..<a + 16 * n} \<inter> {b..<b + 16 * m} = {}"
  using assms unfolding used_ok_def by blast+

lemma free_call:
  assumes ok: "heap_ok base lo h fs al" and a: "al a = Some n"
  obtains h' fs' where "free (a + 16) h = Some h'" "heap_ok base lo h' fs' (al(a := None))" "h_brk h' = h_brk h"
    "\<And>b m. al b = Some m \<Longrightarrow> b \<noteq> a \<Longrightarrow> untouched b m h h'"
proof -
  have f: "free_ok base lo h fs" and u: "used_ok lo h fs al" using ok by (simp_all add: heap_ok_def)
  note ua = used_okD [OF u a]
  from give_back [OF f ua(3)] ua obtain h' fs' where
    r: "free (a + 16) h = Some h'" "free_ok base lo h' fs'" "space h' fs' = space h fs \<union> {a..<a + 16 * n}" "h_brk h' = h_brk h"
      "\<And>z. z \<notin> insert a (insert base (set fs)) \<Longrightarrow> h_ptr h' z = h_ptr h z \<and> h_size h' z = h_size h z" by metis
  have out: "untouched b m h h'" if b: "al b = Some m" "b \<noteq> a" for b m
    unfolding untouched_def
  proof
    fix z
    assume z: "z \<in> {b..<b + 16 * m}"
    note ub = used_okD [OF u b(1)]
    have "z \<notin> space h fs" "z \<notin> {a..<a + 16 * n}" "base < z" using ub(5) ub(6) [OF a b(2)] ub(3) z free_okD(2) [OF f] by auto
    then show "h_ptr h' z = h_ptr h z \<and> h_size h' z = h_size h z" using r(5) free_in_space [OF f] ua(2) by force
  qed
  have "used_ok lo h' fs' (al(a := None))"
    unfolding used_ok_def
  proof (intro conjI allI impI)
    fix b m
    assume "(al(a := None)) b = Some m"
    then have b: "al b = Some m" "b \<noteq> a" by (auto split: if_splits)
    note ub = used_okD [OF u b(1)]
    show "h_size h' b = m" using out [OF b] ub(1,2) by (simp add: untouched_def)
    show "0 < m" "lo \<le> b" "b + 16 * m \<le> h_brk h'" using ub r(4) by simp_all
    show "{b..<b + 16 * m} \<inter> space h' fs' = {}" using ub(5) ub(6) [OF a b(2)] unfolding r(3) by blast
  qed (use used_okD(6) [OF u] in \<open>auto split: if_splits\<close>)
  then show ?thesis using that [OF r(1) _ r(4) out] r(2) by (simp add: heap_ok_def)
qed

text \<open>\<^verbatim>\<open>malloc\<close> takes a block from a heap whose free list is known.\<close>

lemma taken_used:
  assumes ok: "heap_ok base lo h fs al" and t: "taken_from base lo h fs n a h'" and n: "0 < n"
  obtains fs' where "heap_ok base lo h' fs' (al(a \<mapsto> n))" "al a = None" "h_brk h' = h_brk h" "\<And>b m. al b = Some m \<Longrightarrow> untouched b m h h'"
proof -
  have f: "free_ok base lo h fs" and u: "used_ok lo h fs al" using ok by (simp_all add: heap_ok_def)
  obtain fs' where r: "free_ok base lo h' fs'" "space h' fs' = space h fs - {a..<a + 16 * n}" "{a..<a + 16 * n} \<subseteq> space h fs" "h_size h' a = n" "h_brk h' = h_brk h"
    "\<forall>z. z \<notin> space h fs \<longrightarrow> z \<noteq> base \<longrightarrow> h_ptr h' z = h_ptr h z \<and> h_size h' z = h_size h z"
    using t unfolding taken_from_def by blast
  have as: "a \<in> space h fs" using r(3) n by auto
  have out: "untouched b m h h'" if b: "al b = Some m" for b m
    using r(6) used_okD(3,5) [OF u b] free_okD(2) [OF f] unfolding untouched_def by fastforce
  have new: "b \<noteq> a \<and> {b..<b + 16 * m} \<inter> {a..<a + 16 * n} = {}" if b: "al b = Some m" for b m
  proof
    have "b \<in> {b..<b + 16 * m}" using used_okD(2) [OF u b] by simp
    then show "b \<noteq> a" using used_okD(5) [OF u b] as by blast
    show "{b..<b + 16 * m} \<inter> {a..<a + 16 * n} = {}" using used_okD(5) [OF u b] r(3) by blast
  qed
  have bounds: "lo \<le> a \<and> a + 16 * n \<le> h_brk h"
  proof -
    obtain f where "f \<in> set fs" "a \<in> {f..<f + 16 * h_size h f}" using as by (auto simp: space_def)
    moreover have "a + 16 * n - 1 \<in> space h fs" using r(3) n by (intro subsetD [OF r(3)]) auto
    then obtain g where "g \<in> set fs" "a + 16 * n - 1 \<in> {g..<g + 16 * h_size h g}" by (auto simp: space_def)
    ultimately show ?thesis using free_okD(6) [OF f] by fastforce
  qed
  have "used_ok lo h' fs' (al(a \<mapsto> n))"
    unfolding used_ok_def
  proof (intro conjI allI impI)
    fix b m
    assume b: "(al(a \<mapsto> n)) b = Some m"
    show "h_size h' b = m" "0 < m" "lo \<le> b" "b + 16 * m \<le> h_brk h'" "{b..<b + 16 * m} \<inter> space h' fs' = {}"
      using b r(2,4,5) n bounds used_okD(1-5) [OF u, of b m] out [of b m] unfolding untouched_def by (auto split: if_splits)
    show "{b..<b + 16 * m} \<inter> {c..<c + 16 * k} = {}" if "(al(a \<mapsto> n)) c = Some k" "b \<noteq> c" for c k
      using b that new [of b m] new [of c k] used_okD(6) [OF u, of b m c k] by (auto split: if_splits)
  qed
  moreover have "al a = None" using new [of a] by (cases "al a") auto
  ultimately show ?thesis using that r(1,5) out by (simp add: heap_ok_def)
qed

lemma sbrk_bytes: "n < 2 ^ 31 \<Longrightarrow> sint (of_nat n :: u32) = int n"
  by (simp add: signed_of_nat) (simp add: signed_take_bit_int_eq_self_iff)

lemma morecore_refused: "\<not> grant (h_calls h) \<Longrightarrow> morecore grant n h = Some (0, h\<lparr>h_calls := h_calls h + 1\<rparr>)"
  by (simp add: morecore_def sbrk_def Let_def)

lemma morecore_grows:
  assumes ok: "heap_ok base lo h fs al" and lo: "lo \<le> h_brk h" and n: "16 * n < 2 ^ 31" and g: "grant (h_calls h)"
  obtains h' fs' where "morecore grant n h = Some (h_freep h', h')" "heap_ok base lo h' fs' al" "\<exists>f \<in> set fs'. n \<le> h_size h' f"
    "h_brk h \<le> h_brk h'" "\<And>b m. al b = Some m \<Longrightarrow> untouched b m h h'"
proof -
  have f: "free_ok base lo h fs" and u: "used_ok lo h fs al" using ok by (simp_all add: heap_ok_def)
  define nu where "nu = (if n < 4096 then 4096 else n)"
  let ?p = "h_brk h"
  define h2 where "h2 = set_size ?p nu (h\<lparr>h_calls := h_calls h + 1, h_brk := ?p + 16 * nu\<rparr>)"
  have nu: "n \<le> nu" "0 < nu" "16 * nu < 2 ^ 31" using n by (simp_all add: nu_def)
  have more: "morecore grant n h = map_option (\<lambda>h. (h_freep h, h)) (free (?p + 16) h2)"
    using g nu(3) sbrk_bytes [of "16 * nu"]
    by (simp add: morecore_def sbrk_def Let_def nu_def [symmetric] h2_def mult.commute nat_add_distrib nat_mult_distrib)
  have sel: "h_ptr h2 = h_ptr h" "h_size h2 = (h_size h)(?p := nu)" "h_freep h2 = h_freep h" "h_brk h2 = ?p + 16 * nu" by (simp_all add: h2_def)
  have inb: "f < ?p" if "f \<in> set fs" for f using free_okD(6) [OF f that] by simp
  have sp: "space h2 fs = space h fs" using inb by (intro space_cong) (auto simp: sel)
  have f2: "free_ok base lo h2 fs"
  proof -
    have "sorted_wrt (\<lambda>x y. x + 16 * h_size h2 x < y) fs" using free_okD(5) [OF f] inb by (subst gap_cong [of _ _ h]) (auto simp: sel)
    then show ?thesis using f lo inb unfolding free_ok_def by (auto simp: sel)
  qed
  have "{?p..<?p + 16 * nu} \<inter> space h fs = {}" using free_okD(6) [OF f] by (force simp: space_def)
  then have pre: "lo \<le> ?p" "0 < h_size h2 ?p" "?p + 16 * h_size h2 ?p \<le> h_brk h2" "{?p..<?p + 16 * h_size h2 ?p} \<inter> space h2 fs = {}"
    using lo nu(2) by (simp_all add: sel sp)
  have sz: "h_size h2 ?p = nu" by (simp add: sel)
  obtain h' fs' where r: "free (?p + 16) h2 = Some h'" "free_ok base lo h' fs'" "space h' fs' = space h fs \<union> {?p..<?p + 16 * nu}"
      "\<And>z. z \<notin> insert ?p (insert base (set fs)) \<Longrightarrow> h_ptr h' z = h_ptr h2 z \<and> h_size h' z = h_size h2 z" "h_brk h' = ?p + 16 * nu"
      "\<exists>f \<in> set fs'. nu \<le> h_size h' f"
    by (rule give_back [OF f2 pre, unfolded sz sp sel(4)]) (rule that; assumption)
  have out: "untouched b m h h'" if b: "al b = Some m" for b m
    unfolding untouched_def
  proof
    fix z
    assume z: "z \<in> {b..<b + 16 * m}"
    have "z \<notin> space h fs" "z < ?p" "base < z" using used_okD(3-5) [OF u b] z free_okD(2) [OF f] by auto
    then show "h_ptr h' z = h_ptr h z \<and> h_size h' z = h_size h z" using r(4) [of z] free_in_space [OF f] by (auto simp: sel)
  qed
  have "used_ok lo h' fs' al"
    unfolding used_ok_def
  proof (intro conjI allI impI)
    fix b m
    assume b: "al b = Some m"
    note ub = used_okD [OF u b]
    show "h_size h' b = m" using out [OF b] ub(1,2) by (simp add: untouched_def)
    show "0 < m" "lo \<le> b" "b + 16 * m \<le> h_brk h'" using ub(2-4) r(5) by simp_all
    show "{b..<b + 16 * m} \<inter> space h' fs' = {}" using ub(4,5) unfolding r(3) by fastforce
  qed (use used_okD(6) [OF u] in blast)
  then show ?thesis using that [of h' fs'] r(1,2,5,6) more out nu(1) by (fastforce simp: heap_ok_def)
qed

lemma untouched_trans: "untouched a n h h' \<Longrightarrow> untouched a n h' h'' \<Longrightarrow> untouched a n h h''"
  by (simp add: untouched_def)

lemma malloc_call:
  assumes ok: "heap_ok base lo h fs al" and lo: "lo \<le> h_brk h" and n: "0 < n" "16 * n < 2 ^ 31"
  shows "\<exists>r h'. malloc_loop grant n (h_freep h) (h_ptr h (h_freep h)) h = Some (r, h') \<and>
    (r = 0 \<and> \<not> grant (h_calls h) \<and> (\<exists>fs'. heap_ok base lo h' fs' al) \<or>
     (\<exists>a fs'. r = a + 16 \<and> al a = None \<and> heap_ok base lo h' fs' (al(a \<mapsto> n)))) \<and>
    h_brk h \<le> h_brk h' \<and> (\<forall>b m. al b = Some m \<longrightarrow> untouched b m h h')"
proof (cases "\<exists>f \<in> set fs. n \<le> h_size h f")
  case True
  from ok have f: "free_ok base lo h fs" by (simp add: heap_ok_def)
  from malloc_found [OF f n(1) True] obtain a h' where
    r: "malloc_loop grant n (h_freep h) (h_ptr h (h_freep h)) h = Some (a + 16, h')" "taken_from base lo h fs n a h'" by blast
  from taken_used [OF ok r(2) n(1)] obtain fs' where "heap_ok base lo h' fs' (al(a \<mapsto> n))" "al a = None" "h_brk h' = h_brk h"
      "\<And>b m. al b = Some m \<Longrightarrow> untouched b m h h'" by blast
  with r(1) show ?thesis by auto
next
  case False
  from ok have f: "free_ok base lo h fs" by (simp add: heap_ok_def)
  have loop: "malloc_loop grant n (h_freep h) (h_ptr h (h_freep h)) h =
      Option.bind (morecore grant n h) (\<lambda>(p, h). if p = 0 then Some (0, h) else malloc_loop grant n p (h_ptr h p) h)"
    using False by (intro malloc_none [OF f _ n(1)]) auto
  show ?thesis
  proof (cases "grant (h_calls h)")
    case refused: False
    have sel: "h_ptr (h\<lparr>h_calls := c\<rparr>) = h_ptr h" "h_size (h\<lparr>h_calls := c\<rparr>) = h_size h" "h_freep (h\<lparr>h_calls := c\<rparr>) = h_freep h"
      "h_brk (h\<lparr>h_calls := c\<rparr>) = h_brk h" for c by simp_all
    have "heap_ok base lo (h\<lparr>h_calls := h_calls h + 1\<rparr>) fs al"
      using ok unfolding heap_ok_def free_ok_def used_ok_def space_def sel .
    then show ?thesis using loop morecore_refused [of grant h n] refused by (auto simp: untouched_def)
  next
    case True
    from morecore_grows [where grant = grant, OF ok lo n(2) True] obtain h1 fs1 where
      m: "morecore grant n h = Some (h_freep h1, h1)" "heap_ok base lo h1 fs1 al" "\<exists>f \<in> set fs1. n \<le> h_size h1 f" "h_brk h \<le> h_brk h1"
        "\<And>b m. al b = Some m \<Longrightarrow> untouched b m h h1" by blast
    from m(2) have f1: "free_ok base lo h1 fs1" by (simp add: heap_ok_def)
    have "h_freep h1 \<noteq> 0" using free_okD(1,2,6,8) [OF f1] by fastforce
    moreover from malloc_found [OF f1 n(1) m(3)] obtain a h' where
      r: "malloc_loop grant n (h_freep h1) (h_ptr h1 (h_freep h1)) h1 = Some (a + 16, h')" "taken_from base lo h1 fs1 n a h'" by blast
    from taken_used [OF m(2) r(2) n(1)] obtain fs' where t: "heap_ok base lo h' fs' (al(a \<mapsto> n))" "al a = None" "h_brk h' = h_brk h1"
        "\<And>b m. al b = Some m \<Longrightarrow> untouched b m h1 h'" by blast
    ultimately show ?thesis using loop m(1,4,5) r(1) untouched_trans [of _ _ h h1 h'] by auto
  qed
qed

text \<open>
  C8. On every heap that calls of the allocator can lead to, \<^verbatim>\<open>malloc\<close> and \<^verbatim>\<open>free\<close> return: no loop over the circular free list
  runs forever. For a request of less than 2 GB, \<^verbatim>\<open>malloc\<close> fails only if the kernel refuses more memory, and else hands
  out a block that is at least as long as asked for, lies inside the heap and overlaps no other block in use; \<^verbatim>\<open>free\<close> of
  a block in use takes it back. Neither changes a byte of any other block in use, and both keep the heap in order.
\<close>

theorem malloc_free_return:
  assumes inv: "heap_inv base lo h al" and n: "nbytes + 31 < 2 ^ 31"
  shows "(\<exists>r h'. malloc grant base nbytes h = Some (r, h') \<and>
      (r = 0 \<and> \<not> grant (h_calls h) \<and> heap_inv base lo h' al \<or>
       (\<exists>a k. r = a + 16 \<and> nbytes \<le> 16 * (k - 1) \<and> al a = None \<and> heap_inv base lo h' (al(a \<mapsto> k)))) \<and>
      (\<forall>b m. al b = Some m \<longrightarrow> untouched b m h h')) \<and>
    (\<forall>a k. al a = Some k \<longrightarrow> (\<exists>h'. free (a + 16) h = Some h' \<and> heap_inv base lo h' (al(a := None)) \<and>
      (\<forall>b m. al b = Some m \<and> b \<noteq> a \<longrightarrow> untouched b m h h')))"
proof
  define k where "k = (nbytes + 16 - 1) div 16 + 1"
  have k: "0 < k" "16 * k < 2 ^ 31" "nbytes \<le> 16 * (k - 1)"
    using n by (simp_all add: k_def)
  have lo: "0 < base" "base < lo" "lo \<le> h_brk h" using inv by (simp_all add: heap_inv_def)
  define g where "g = (if h_freep h = 0 then (set_size base 0 (set_ptr base base h))\<lparr>h_freep := base\<rparr> else h)"
  have "\<exists>fs. heap_ok base lo g fs al"
  proof (cases "h_freep h = 0")
    case True
    have "al = Map.empty"
    proof (rule ccontr)
      assume "al \<noteq> Map.empty"
      then obtain fs where "free_ok base lo h fs" using inv by (auto simp: heap_inv_def heap_ok_def)
      then show False using free_okD(2,6,8) [of base lo h fs] lo(1) True by fastforce
    qed
    moreover have "free_ok base lo g []" using True lo(1,2) by (simp add: free_ok_def g_def)
    ultimately show ?thesis by (auto simp: heap_ok_def used_ok_def)
  next
    case False
    then show ?thesis using inv by (simp add: heap_inv_def g_def)
  qed
  then obtain fs where ok: "heap_ok base lo g fs al" ..
  have sel: "h_brk g = h_brk h" "h_calls g = h_calls h" by (simp_all add: g_def set_ptr_def set_size_def)
  have same: "untouched b m h g" if "al b = Some m" for b m
    using inv that lo by (auto simp: untouched_def g_def heap_inv_def heap_ok_def dest: used_okD(3))
  have m: "malloc grant base nbytes h = malloc_loop grant k (h_freep g) (h_ptr g (h_freep g)) g"
    by (simp add: malloc_def Let_def g_def k_def)
  have "lo \<le> h_brk g" using lo(3) sel(1) by simp
  from malloc_call [OF ok this k(1,2), of grant] obtain r h' where
    r: "malloc_loop grant k (h_freep g) (h_ptr g (h_freep g)) g = Some (r, h')"
      "r = 0 \<and> \<not> grant (h_calls g) \<and> (\<exists>fs'. heap_ok base lo h' fs' al) \<or> (\<exists>a fs'. r = a + 16 \<and> al a = None \<and> heap_ok base lo h' fs' (al(a \<mapsto> k)))"
      "h_brk g \<le> h_brk h'" "\<forall>b m. al b = Some m \<longrightarrow> untouched b m g h'" by blast
  have keep: "\<forall>b m. al b = Some m \<longrightarrow> untouched b m h h'" using r(4) same untouched_trans by blast
  have hinv: "heap_inv base lo h' x" if "heap_ok base lo h' fs' x" for x fs' using that r(3) lo sel by (auto simp: heap_inv_def)
  show "\<exists>r h'. malloc grant base nbytes h = Some (r, h') \<and>
      (r = 0 \<and> \<not> grant (h_calls h) \<and> heap_inv base lo h' al \<or>
       (\<exists>a k. r = a + 16 \<and> nbytes \<le> 16 * (k - 1) \<and> al a = None \<and> heap_inv base lo h' (al(a \<mapsto> k)))) \<and>
      (\<forall>b m. al b = Some m \<longrightarrow> untouched b m h h')"
    using m r(1,2) keep hinv k(3) sel(2) by metis
  show "\<forall>a k. al a = Some k \<longrightarrow> (\<exists>h'. free (a + 16) h = Some h' \<and> heap_inv base lo h' (al(a := None)) \<and>
      (\<forall>b m. al b = Some m \<and> b \<noteq> a \<longrightarrow> untouched b m h h'))"
  proof (intro allI impI)
    fix a k
    assume a: "al a = Some k"
    then obtain fs where "heap_ok base lo h fs al" using inv by (auto simp: heap_inv_def)
    from free_call [OF this a] obtain h' fs' where f: "free (a + 16) h = Some h'" "heap_ok base lo h' fs' (al(a := None))" "h_brk h' = h_brk h"
      "\<And>b m. al b = Some m \<Longrightarrow> b \<noteq> a \<Longrightarrow> untouched b m h h'" by blast
    then show "\<exists>h'. free (a + 16) h = Some h' \<and> heap_inv base lo h' (al(a := None)) \<and> (\<forall>b m. al b = Some m \<and> b \<noteq> a \<longrightarrow> untouched b m h h')"
      using lo by (auto simp: heap_inv_def)
  qed
qed

definition sample_heap :: uheap where
  "sample_heap = \<lparr>h_ptr = (\<lambda>_. 0), h_size = (\<lambda>_. 0), h_freep = 0, h_brk = 8192, h_calls = 0\<rparr>"

lemma sample_heap_inv: "heap_inv 4096 8192 sample_heap Map.empty"
  by (simp add: heap_inv_def sample_heap_def)

theorem malloc_free_return_witness:
  "\<exists>r h'. malloc (\<lambda>_. True) 4096 100 sample_heap = Some (r, h') \<and> (\<exists>a k. r = a + 16 \<and> 100 \<le> 16 * (k - 1) \<and> heap_inv 4096 8192 h' (Map.empty(a \<mapsto> k)))"
  using malloc_free_return [OF sample_heap_inv, of 100 "\<lambda>_. True"] by auto

end
