(* ===== verification/Sh.thy ===== *)
theory Sh
  imports Prelude
begin

text \<open>
  The shell's parser (\<^verbatim>\<open>user/sh.c\<close>). The line is a list of nonzero bytes, pointers into it are positions, and the byte
  at its end is zero. A parsed command is a tree whose words are pairs of positions, the start and the end of the
  word, as \<^verbatim>\<open>argv\<close> and \<^verbatim>\<open>eargv\<close> hold them; \<open>nulterminate\<close> then stores zeros at the ends. The parsing routines call each
  other recursively, so they take a number that bounds the depth of the calls; \<open>Blocked\<close> would be a parser that needs
  more.
\<close>

section \<open>Definitions\<close>

definition whitespace :: "u8 list" where "whitespace = [32, 9, 13, 10, 11]"

definition symbols :: "u8 list" where "symbols = [60, 124, 62, 38, 59, 40, 41]"

definition MAXARGS :: nat where "MAXARGS = 10"

datatype 'w cmd =
  EXEC "'w list"
| REDIR "'w cmd" 'w int int
| PIPE "'w cmd" "'w cmd"
| LIST "'w cmd" "'w cmd"
| BACK "'w cmd"

definition char_at :: "u8 list \<Rightarrow> nat \<Rightarrow> u8" where
  "char_at t s = (if s < length t then t ! s else 0)"

function skip_white :: "u8 list \<Rightarrow> nat \<Rightarrow> nat" where
  "skip_white t s = (if s < length t \<and> t ! s \<in> set whitespace then skip_white t (Suc s) else s)"
  by pat_completeness auto

termination skip_white
  by (relation "measure (\<lambda>(t, s). length t - s)") auto

function scan_word :: "u8 list \<Rightarrow> nat \<Rightarrow> nat" where
  "scan_word t s = (if s < length t \<and> t ! s \<notin> set whitespace \<and> t ! s \<notin> set symbols then scan_word t (Suc s) else s)"
  by pat_completeness auto

termination scan_word
  by (relation "measure (\<lambda>(t, s). length t - s)") auto

declare skip_white.simps [simp del] scan_word.simps [simp del]

text \<open>\<^verbatim>\<open>gettoken\<close>: the kind of token, its start and end, and where the text goes on.\<close>

definition gettoken :: "u8 list \<Rightarrow> nat \<Rightarrow> u8 \<times> nat \<times> nat \<times> nat" where
  "gettoken t s =
     (let q = skip_white t s; c = char_at t q;
          (ret, e) =
            (if c = 0 then (c, q)
             else if c \<in> {124, 40, 41, 59, 38, 60} then (c, q + 1)
             else if c = 62 then if char_at t (q + 1) = 62 then (43, q + 2) else (c, q + 1)
             else (97, scan_word t q))
      in (ret, q, e, skip_white t e))"

definition peek :: "u8 list \<Rightarrow> nat \<Rightarrow> u8 list \<Rightarrow> bool \<times> nat" where
  "peek t s toks = (let s = skip_white t s in (char_at t s \<noteq> 0 \<and> char_at t s \<in> set toks, s))"

definition O_INPUT :: int where "O_INPUT = 0x000"

definition O_OVERWRITE :: int where "O_OVERWRITE = 0x601"

definition O_EXTEND :: int where "O_EXTEND = 0x201"

lemma skip_white_le: "s \<le> skip_white t s"
  by (induction t s rule: skip_white.induct) (subst skip_white.simps, auto)

lemma scan_word_le: "s \<le> scan_word t s"
  by (induction t s rule: scan_word.induct) (subst scan_word.simps, auto)

lemma scan_word_less:
  "s < length t \<Longrightarrow> t ! s \<notin> set whitespace \<Longrightarrow> t ! s \<notin> set symbols \<Longrightarrow> s < scan_word t s"
  using scan_word_le [of "Suc s" t] by (subst scan_word.simps) simp

lemma skip_white_stop: "skip_white t s < length t \<Longrightarrow> t ! skip_white t s \<notin> set whitespace"
proof (induction t s rule: skip_white.induct)
  case (1 t s)
  show ?case
  proof (cases "s < length t \<and> t ! s \<in> set whitespace")
    case True
    then have "skip_white t s = skip_white t (Suc s)" by (subst skip_white.simps) simp
    with 1 True show ?thesis by simp
  next
    case False
    then have "skip_white t s = s" by (subst skip_white.simps) auto
    with 1 False show ?thesis by simp
  qed
qed

lemma gettoken_end:
  assumes "gettoken t s = (c, q, e, s')"
  shows "q = skip_white t s" "q \<le> e" "s' = skip_white t e" "c \<noteq> 0 \<longleftrightarrow> char_at t q \<noteq> 0" "c \<noteq> 0 \<Longrightarrow> q < e"
proof -
  let ?q = "skip_white t s"
  show "q = ?q" "s' = skip_white t e" "c \<noteq> 0 \<longleftrightarrow> char_at t q \<noteq> 0"
    using assms by (auto simp: gettoken_def Let_def split: if_splits)
  show "q \<le> e" using assms scan_word_le [of ?q t] by (auto simp: gettoken_def Let_def split: if_splits)
  assume c: "c \<noteq> 0"
  then have n: "char_at t ?q \<noteq> 0" using assms by (auto simp: gettoken_def Let_def split: if_splits)
  show "q < e"
  proof (cases "char_at t ?q \<in> {124, 40, 41, 59, 38, 60, 62}")
    case True
    then show ?thesis using assms n by (auto simp: gettoken_def Let_def split: if_splits)
  next
    case False
    then have "char_at t ?q \<notin> set symbols" by (auto simp: symbols_def)
    moreover have l: "?q < length t" using n by (auto simp: char_at_def split: if_splits)
    ultimately have "?q < scan_word t ?q" using skip_white_stop [OF l] by (auto intro: scan_word_less simp: char_at_def)
    then show ?thesis using assms n False by (auto simp: gettoken_def Let_def split: if_splits)
  qed
qed

lemma gettoken_more:
  assumes "gettoken t s = (c, q, e, s')"
  shows "s \<le> s'" "c \<noteq> 0 \<Longrightarrow> s < s'" "c \<noteq> 0 \<Longrightarrow> s < length t"
proof -
  note g = gettoken_end [OF assms]
  have le: "s \<le> q" "e \<le> s'" using skip_white_le [of s t] skip_white_le [of e t] g by auto
  with g show "s \<le> s'" by simp
  assume c: "c \<noteq> 0"
  with g le show "s < s'" by simp
  show "s < length t" using c g le by (auto simp: char_at_def split: if_splits)
qed

lemma peek_more: "peek t s toks = (b, s') \<Longrightarrow> s \<le> s'"
  using skip_white_le [of s t] by (auto simp: peek_def Let_def)

lemma token_after_peek:
  assumes "peek t s toks = (b, s1)" "gettoken t s1 = (c, q, e, s2)" "c \<noteq> 0"
  shows "length t - s2 < length t - s"
  using peek_more [OF assms(1)] gettoken_more [OF assms(2)] assms(3) by simp

lemma redirection_less:
  assumes "peek t s toks = (b, s1)" "gettoken t s1 = (tok, q1, e1, s2)" "gettoken t s2 = (97, q, e, s3)"
  shows "length t - s3 < length t - s"
  using peek_more [OF assms(1)] gettoken_more [OF assms(2)] gettoken_more [OF assms(3)] by simp

text \<open>
  \<^verbatim>\<open>parseredirs\<close> wraps a command once for each redirection it finds; here it returns them, the innermost one first.
\<close>

type_synonym redirs = "((nat \<times> nat) \<times> int \<times> int) list"

function parseredirs :: "u8 list \<Rightarrow> nat \<Rightarrow> (redirs \<times> nat) res" where
  "parseredirs t s =
     (case peek t s [60, 62] of
        (more, s) \<Rightarrow> if \<not> more then Ok ([], s) else
          (case gettoken t s of
             (tok, _, _, s) \<Rightarrow>
               (case gettoken t s of
                  (c, q, eq, s) \<Rightarrow>
                    if c \<noteq> 97 then Panic ''missing file for redirection''
                    else rbind (parseredirs t s) (\<lambda>(rs, s).
                      Ok (if tok = 60 then ((q, eq), O_INPUT, 0) # rs
                          else if tok = 62 then ((q, eq), O_OVERWRITE, 1) # rs
                          else if tok = 43 then ((q, eq), O_EXTEND, 1) # rs
                          else rs, s)))))"
  by pat_completeness auto

termination parseredirs
  by (relation "measure (\<lambda>(t, s). length t - s)") (auto dest: redirection_less [OF sym sym sym])

declare parseredirs.simps [simp del]

lemma parseredirs_more: "parseredirs t s = Ok (rs, s') \<Longrightarrow> s \<le> s'"
proof (induction t s arbitrary: rs rule: parseredirs.induct)
  case (1 t s)
  obtain b s1 where p: "peek t s [60, 62] = (b, s1)" by fastforce
  obtain tok q1 e1 s2 where g1: "gettoken t s1 = (tok, q1, e1, s2)" by (rule prod_cases4)
  obtain c q e s3 where g2: "gettoken t s2 = (c, q, e, s3)" by (rule prod_cases4)
  have le: "s \<le> s1" "s1 \<le> s2" "s2 \<le> s3"
    using peek_more [OF p] gettoken_more [OF g1] gettoken_more [OF g2] by auto
  show ?case
  proof (cases "b \<and> c = 97")
    case True
    then obtain rs' where "parseredirs t s3 = Ok (rs', s')"
      using 1(2) p g1 g2 by (subst (asm) parseredirs.simps) (auto simp: res_simps split: if_splits)
    then have "s3 \<le> s'" using 1(1) [OF p [symmetric] _ g1 [symmetric] refl refl g2 [symmetric] refl refl] True by auto
    with le show ?thesis by simp
  next
    case False
    then show ?thesis using 1(2) p g1 g2 le by (subst (asm) parseredirs.simps) (auto split: if_splits)
  qed
qed

definition wrap :: "('w \<times> int \<times> int) list \<Rightarrow> 'w cmd \<Rightarrow> 'w cmd" where
  "wrap rs c = fold (\<lambda>(file, mode, fd) c. REDIR c file mode fd) rs c"

text \<open>The loop of \<^verbatim>\<open>parseexec\<close> over the words and redirections of a simple command.\<close>

function parse_args :: "u8 list \<Rightarrow> (nat \<times> nat) list \<Rightarrow> redirs \<Rightarrow> nat \<Rightarrow> ((nat \<times> nat) list \<times> redirs \<times> nat) res" where
  "parse_args t argv rs s =
     (case peek t s [124, 41, 38, 59] of
        (stop, s) \<Rightarrow>
          if stop then Ok (argv, rs, s)
          else (case gettoken t s of
                  (tok, q, eq, s) \<Rightarrow>
                    if tok = 0 then Ok (argv, rs, s)
                    else if tok \<noteq> 97 then Panic ''syntax''
                    else let argv = argv @ [(q, eq)]
                         in if length argv \<ge> MAXARGS then Panic ''too many args''
                            else rbind (parseredirs t s) (\<lambda>(rs', s). parse_args t argv (rs @ rs') s)))"
  by pat_completeness auto

lemma argument_less:
  assumes "peek t s toks = (b, s1)" "gettoken t s1 = (97, q, e, s2)" "parseredirs t s2 = Ok (rs, s3)"
  shows "length t - s3 < length t - s"
  using token_after_peek [OF assms(1,2)] parseredirs_more [OF assms(3)] by simp

termination parse_args
  by (relation "measure (\<lambda>(t, argv, rs, s). length t - s)") (auto dest: argument_less [OF sym sym])

lemma skip_white_idem [simp]: "skip_white t (skip_white t s) = skip_white t s"
  using skip_white_stop [of t s] by (subst skip_white.simps) auto

lemma token_at_peek:
  assumes "peek t s toks = (True, s1)" "gettoken t s1 = (c, q, e, s2)"
  shows "c \<noteq> 0"
  using gettoken_end [OF assms(2)] assms(1) by (auto simp: peek_def Let_def)

function back_loop :: "u8 list \<Rightarrow> (nat \<times> nat) cmd \<Rightarrow> nat \<Rightarrow> (nat \<times> nat) cmd \<times> nat" where
  "back_loop t c s =
     (case peek t s [38] of
        (more, s) \<Rightarrow> if more then (case gettoken t s of (_, _, _, s) \<Rightarrow> back_loop t (BACK c) s) else (c, s))"
  by pat_completeness auto

termination back_loop
  by (relation "measure (\<lambda>(t, c, s). length t - s)") (auto dest: token_after_peek [OF sym sym token_at_peek [OF sym sym]])

declare parse_args.simps [simp del] back_loop.simps [simp del]

fun parseline :: "nat \<Rightarrow> u8 list \<Rightarrow> nat \<Rightarrow> ((nat \<times> nat) cmd \<times> nat) res"
and parsepipe :: "nat \<Rightarrow> u8 list \<Rightarrow> nat \<Rightarrow> ((nat \<times> nat) cmd \<times> nat) res"
and parseexec :: "nat \<Rightarrow> u8 list \<Rightarrow> nat \<Rightarrow> ((nat \<times> nat) cmd \<times> nat) res"
and parseblock :: "nat \<Rightarrow> u8 list \<Rightarrow> nat \<Rightarrow> ((nat \<times> nat) cmd \<times> nat) res" where
  "parseline 0 t s = Blocked ''depth''"
| "parseline (Suc n) t s =
     rbind (parsepipe n t s) (\<lambda>(c, s).
       case back_loop t c s of
         (c, s) \<Rightarrow>
           (case peek t s [59] of
              (b, s) \<Rightarrow>
                if b then (case gettoken t s of (_, _, _, s) \<Rightarrow> rbind (parseline n t s) (\<lambda>(r, s). Ok (LIST c r, s)))
                else Ok (c, s)))"
| "parsepipe 0 t s = Blocked ''depth''"
| "parsepipe (Suc n) t s =
     rbind (parseexec n t s) (\<lambda>(c, s).
       case peek t s [124] of
         (b, s) \<Rightarrow>
           if b then (case gettoken t s of (_, _, _, s) \<Rightarrow> rbind (parsepipe n t s) (\<lambda>(r, s). Ok (PIPE c r, s)))
           else Ok (c, s))"
| "parseexec 0 t s = Blocked ''depth''"
| "parseexec (Suc n) t s =
     (case peek t s [40] of
        (b, s) \<Rightarrow>
          if b then parseblock n t s
          else rbind (parseredirs t s) (\<lambda>(rs, s).
                 rbind (parse_args t [] rs s) (\<lambda>(argv, rs, s). Ok (wrap rs (EXEC argv), s))))"
| "parseblock 0 t s = Blocked ''depth''"
| "parseblock (Suc n) t s =
     (case peek t s [40] of
        (b, s) \<Rightarrow>
          if \<not> b then Panic ''parseblock''
          else (case gettoken t s of
                  (_, _, _, s) \<Rightarrow>
                    rbind (parseline n t s) (\<lambda>(c, s).
                      case peek t s [41] of
                        (b, s) \<Rightarrow>
                          if \<not> b then Panic ''syntax - missing )''
                          else (case gettoken t s of
                                  (_, _, _, s) \<Rightarrow> rbind (parseredirs t s) (\<lambda>(rs, s). Ok (wrap rs c, s))))))"

definition store_at :: "nat \<Rightarrow> u8 list \<Rightarrow> u8 list" where
  "store_at e buf = buf[e := 0]"

primrec nulterminate :: "(nat \<times> nat) cmd \<Rightarrow> u8 list \<Rightarrow> u8 list" where
  "nulterminate (EXEC argv) buf = fold (\<lambda>(q, e). store_at e) argv buf"
| "nulterminate (REDIR c file mode fd) buf = store_at (snd file) (nulterminate c buf)"
| "nulterminate (PIPE l r) buf = nulterminate r (nulterminate l buf)"
| "nulterminate (LIST l r) buf = nulterminate r (nulterminate l buf)"
| "nulterminate (BACK c) buf = nulterminate c buf"

text \<open>\<^verbatim>\<open>parsecmd\<close>: the tree and the buffer behind its words.\<close>

definition parsecmd :: "u8 list \<Rightarrow> ((nat \<times> nat) cmd \<times> u8 list) res" where
  "parsecmd t =
     rbind (parseline (4 * length t + 4) t 0) (\<lambda>(c, s).
       case peek t s [] of
         (_, s) \<Rightarrow> if s \<noteq> length t then Panic ''syntax'' else Ok (c, nulterminate c (t @ [0])))"

section \<open>The parser returns\<close>

definition word_char :: "u8 \<Rightarrow> bool" where
  "word_char c \<longleftrightarrow> c \<noteq> 0 \<and> c \<notin> set whitespace \<and> c \<notin> set symbols"

text \<open>The positions of a word of the line: a maximal run of word bytes.\<close>

definition word_at :: "u8 list \<Rightarrow> nat \<times> nat \<Rightarrow> bool" where
  "word_at t w \<longleftrightarrow>
     (case w of (q, e) \<Rightarrow> q < e \<and> e \<le> length t \<and> (\<forall>j. q \<le> j \<and> j < e \<longrightarrow> word_char (t ! j)) \<and> (e < length t \<longrightarrow> \<not> word_char (t ! e)))"

definition settles :: "('a \<Rightarrow> bool) \<Rightarrow> 'a res \<Rightarrow> bool" where
  "settles Q m \<longleftrightarrow> (case m of Ok x \<Rightarrow> Q x | Panic _ \<Rightarrow> True | _ \<Rightarrow> False)"

lemma settles_simps [simp]:
  "settles Q (Ok x) \<longleftrightarrow> Q x" "settles Q (Panic e)" "\<not> settles Q (Blocked e)" "\<not> settles Q (Fault e)"
  by (simp_all add: settles_def)

lemma settles_rbind: "settles P m \<Longrightarrow> (\<And>x. P x \<Longrightarrow> settles Q (f x)) \<Longrightarrow> settles Q (rbind m f)"
  by (cases m) auto

lemma scan_word_spec:
  "0 \<notin> set t \<Longrightarrow> s \<le> length t \<Longrightarrow> scan_word t s \<le> length t \<and> (\<forall>j. s \<le> j \<and> j < scan_word t s \<longrightarrow> word_char (t ! j)) \<and>
   (scan_word t s < length t \<longrightarrow> \<not> word_char (t ! scan_word t s))"
proof (induction t s rule: scan_word.induct)
  case (1 t s)
  show ?case
  proof (cases "s < length t \<and> t ! s \<notin> set whitespace \<and> t ! s \<notin> set symbols")
    case True
    then have e: "scan_word t s = scan_word t (Suc s)" by (subst scan_word.simps) simp
    have "t ! s \<noteq> 0" using 1(2) True by (metis nth_mem)
    then have "word_char (t ! s)" using True by (simp add: word_char_def)
    then have "word_char (t ! j)" if "s \<le> j" "j < scan_word t (Suc s)" for j
      using 1 True that by (cases "j = s") auto
    with 1 True e show ?thesis by auto
  next
    case False
    then have "scan_word t s = s" by (subst scan_word.simps) auto
    with 1(2,3) False show ?thesis by (auto simp: word_char_def)
  qed
qed

lemma word_token:
  assumes "gettoken t s = (97, q, e, s')" "0 \<notin> set t"
  shows "word_at t (q, e)"
proof -
  note g = gettoken_end [OF assms(1)]
  have "char_at t q \<noteq> 0" using g(4) by simp
  then have "q < length t" by (auto simp: char_at_def split: if_splits)
  moreover have "e = scan_word t q" using assms(1) by (auto simp: gettoken_def Let_def split: if_splits)
  ultimately show ?thesis using scan_word_spec [OF assms(2), of q] g(5) by (auto simp: word_at_def)
qed

text \<open>What a parsing routine started at \<open>s\<close> gives: words of the line, and a position that has not moved back.\<close>

definition parsed :: "u8 list \<Rightarrow> nat \<Rightarrow> (nat \<times> nat) cmd \<times> nat \<Rightarrow> bool" where
  "parsed t s = (\<lambda>(c, s'). s \<le> s' \<and> (\<forall>w \<in> set_cmd c. word_at t w))"

lemma wrap_words: "set_cmd (wrap rs c) = set_cmd c \<union> fst ` set rs"
  by (induction rs arbitrary: c) (auto simp: wrap_def)

lemma parseredirs_settles:
  "0 \<notin> set t \<Longrightarrow> settles (\<lambda>(rs, s'). s \<le> s' \<and> (\<forall>r \<in> set rs. word_at t (fst r))) (parseredirs t s)"
proof (induction t s rule: parseredirs.induct)
  case (1 t s)
  obtain b s1 where p: "peek t s [60, 62] = (b, s1)" by fastforce
  obtain tok q1 e1 s2 where g1: "gettoken t s1 = (tok, q1, e1, s2)" by (rule prod_cases4)
  obtain c q e s3 where g2: "gettoken t s2 = (c, q, e, s3)" by (rule prod_cases4)
  have le: "s \<le> s1" "s1 \<le> s2" "s2 \<le> s3"
    using peek_more [OF p] gettoken_more [OF g1] gettoken_more [OF g2] by auto
  show ?case
  proof (cases "b \<and> c = 97")
    case True
    note IH = 1(1) [OF p [symmetric] _ g1 [symmetric] refl refl g2 [symmetric] refl refl]
    have w: "word_at t (q, e)" using word_token g2 True 1(2) by blast
    have "settles (\<lambda>(rs, s'). s3 \<le> s' \<and> (\<forall>r \<in> set rs. word_at t (fst r))) (parseredirs t s3)" using IH True 1(2) by simp
    then show ?thesis
      using True p g1 g2 le w by (subst parseredirs.simps) (auto elim!: settles_rbind)
  next
    case False
    then show ?thesis using p g1 g2 le by (subst parseredirs.simps) auto
  qed
qed

lemma parse_args_settles:
  "0 \<notin> set t \<Longrightarrow> \<forall>w \<in> set argv \<union> fst ` set rs. word_at t w \<Longrightarrow>
   settles (\<lambda>(argv, rs, s'). s \<le> s' \<and> (\<forall>w \<in> set argv \<union> fst ` set rs. word_at t w)) (parse_args t argv rs s)"
proof (induction t argv rs s rule: parse_args.induct)
  case (1 t argv rs s)
  obtain b s1 where p: "peek t s [124, 41, 38, 59] = (b, s1)" by fastforce
  obtain c q e s2 where g: "gettoken t s1 = (c, q, e, s2)" by (rule prod_cases4)
  have le: "s \<le> s1" "s1 \<le> s2" using peek_more [OF p] gettoken_more [OF g] by auto
  show ?case
  proof (cases "\<not> b \<and> c = 97 \<and> length argv + 1 < MAXARGS")
    case True
    have w: "word_at t (q, e)" using word_token g True 1(2) by blast
    have r: "parse_args t argv rs s = rbind (parseredirs t s2) (\<lambda>(rs', s). parse_args t (argv @ [(q, e)]) (rs @ rs') s)"
      using True p g by (subst parse_args.simps) simp
    have "settles (\<lambda>(argv, rs, s'). s \<le> s' \<and> (\<forall>w \<in> set argv \<union> fst ` set rs. word_at t w)) (parse_args t (argv @ [(q, e)]) (rs @ rs') s3)"
      if h: "parseredirs t s2 = Ok (rs', s3)" for rs' s3
    proof -
      have h2: "s2 \<le> s3" "\<forall>r \<in> set rs'. word_at t (fst r)" using parseredirs_settles [OF 1(2), of s2] h by auto
      then have "settles (\<lambda>(argv, rs, s'). s3 \<le> s' \<and> (\<forall>w \<in> set argv \<union> fst ` set rs. word_at t w)) (parse_args t (argv @ [(q, e)]) (rs @ rs') s3)"
        using True w 1(2,3) h by (intro 1(1) [OF p [symmetric] _ g [symmetric] refl refl _ _ refl _ h refl]) auto
      then show ?thesis using le h2 by (auto simp: settles_def split: res.splits)
    qed
    then show ?thesis unfolding r using parseredirs_settles [OF 1(2), of s2]
      by (cases "parseredirs t s2") auto
  next
    case False
    then show ?thesis using p g le 1(3) by (subst parse_args.simps) auto
  qed
qed

lemma back_loop_parsed: "back_loop t c s = (c', s') \<Longrightarrow> s \<le> s' \<and> set_cmd c' = set_cmd c"
proof (induction t c s rule: back_loop.induct)
  case (1 t c s)
  obtain b s1 where p: "peek t s [38] = (b, s1)" by fastforce
  obtain tok q e s2 where g: "gettoken t s1 = (tok, q, e, s2)" by (rule prod_cases4)
  have le: "s \<le> s1" "s1 \<le> s2" using peek_more [OF p] gettoken_more [OF g] by auto
  have r: "back_loop t c s = (if b then back_loop t (BACK c) s2 else (c, s1))"
    using p g by (subst back_loop.simps) simp
  show ?case
  proof (cases b)
    case True
    have "s2 \<le> s' \<and> set_cmd c' = set_cmd (BACK c)"
      using 1(2) r True by (intro 1(1) [OF p [symmetric] True g [symmetric] refl refl]) simp
    with le show ?thesis by simp
  next
    case False
    then show ?thesis using 1(2) r le by simp
  qed
qed

lemma token_moves:
  "peek t s toks = (True, s1) \<Longrightarrow> gettoken t s1 = (c, q, e, s2) \<Longrightarrow> s < s2 \<and> s < length t"
  using peek_more [of t s toks] gettoken_more [of t s1] token_at_peek [of t s toks] by fastforce

lemma settles_parsed_from: "settles (parsed t s') m \<Longrightarrow> s \<le> s' \<Longrightarrow> settles (parsed t s) m"
  by (cases m) (auto simp: parsed_def)

lemma parseline_settles_step:
  assumes "settles (parsed t s) (parsepipe n t s)"
    and "\<And>s'. s < s' \<Longrightarrow> s < length t \<Longrightarrow> settles (parsed t s') (parseline n t s')"
  shows "settles (parsed t s) (parseline (Suc n) t s)"
  unfolding parseline.simps
proof (rule settles_rbind [OF assms(1)], clarify)
  fix c s1
  assume c: "parsed t s (c, s1)"
  obtain c2 s2 where b: "back_loop t c s1 = (c2, s2)" by fastforce
  obtain m s3 where p: "peek t s2 [59] = (m, s3)" by fastforce
  obtain tok q e s4 where g: "gettoken t s3 = (tok, q, e, s4)" by (rule prod_cases4)
  have le: "s \<le> s2" "s2 \<le> s3" "\<forall>w \<in> set_cmd c2. word_at t w"
    using c back_loop_parsed [OF b] peek_more [OF p] by (auto simp: parsed_def)
  have "settles (parsed t s4) (parseline n t s4)" if m
    using assms(2) [of s4] token_moves [of t s2 "[59]" s3] p g le that by fastforce
  moreover have "m \<Longrightarrow> s \<le> s4" using token_moves [of t s2 "[59]" s3] p g le by fastforce
  ultimately show "settles (parsed t s)
      (case back_loop t c s1 of (c, s) \<Rightarrow> case peek t s [59] of (b, s) \<Rightarrow>
         if b then (case gettoken t s of (_, _, _, s) \<Rightarrow> rbind (parseline n t s) (\<lambda>(r, s). Ok (LIST c r, s))) else Ok (c, s))"
    using b p g le by (auto simp: parsed_def elim!: settles_rbind)
qed

lemma parsepipe_settles_step:
  assumes "settles (parsed t s) (parseexec n t s)"
    and "\<And>s'. s < s' \<Longrightarrow> s < length t \<Longrightarrow> settles (parsed t s') (parsepipe n t s')"
  shows "settles (parsed t s) (parsepipe (Suc n) t s)"
  unfolding parsepipe.simps
proof (rule settles_rbind [OF assms(1)], clarify)
  fix c s2
  assume c: "parsed t s (c, s2)"
  obtain m s3 where p: "peek t s2 [124] = (m, s3)" by fastforce
  obtain tok q e s4 where g: "gettoken t s3 = (tok, q, e, s4)" by (rule prod_cases4)
  have le: "s \<le> s2" "s2 \<le> s3" "\<forall>w \<in> set_cmd c. word_at t w"
    using c peek_more [OF p] by (auto simp: parsed_def)
  have "settles (parsed t s4) (parsepipe n t s4)" if m
    using assms(2) [of s4] token_moves [of t s2 "[124]" s3] p g le that by fastforce
  moreover have "m \<Longrightarrow> s \<le> s4" using token_moves [of t s2 "[124]" s3] p g le by fastforce
  ultimately show "settles (parsed t s)
      (case peek t s2 [124] of (b, s) \<Rightarrow>
         if b then (case gettoken t s of (_, _, _, s) \<Rightarrow> rbind (parsepipe n t s) (\<lambda>(r, s). Ok (PIPE c r, s))) else Ok (c, s))"
    using p g le by (auto simp: parsed_def elim!: settles_rbind)
qed

lemma parseexec_settles_step:
  assumes t: "0 \<notin> set t" and "\<And>s'. s \<le> s' \<Longrightarrow> settles (parsed t s') (parseblock n t s')"
  shows "settles (parsed t s) (parseexec (Suc n) t s)"
proof -
  obtain m s1 where p: "peek t s [40] = (m, s1)" by fastforce
  have le: "s \<le> s1" using peek_more [OF p] .
  show ?thesis
  proof (cases m)
    case True
    then show ?thesis using p settles_parsed_from [OF assms(2) [OF le] le] by simp
  next
    case False
    have "settles (parsed t s1) (rbind (parseredirs t s1) (\<lambda>(rs, s). rbind (parse_args t [] rs s) (\<lambda>(argv, rs, s). Ok (wrap rs (EXEC argv), s))))"
    proof (rule settles_rbind [OF parseredirs_settles [OF t]], clarify)
      fix rs :: redirs and s2
      assume h: "s1 \<le> s2" "\<forall>r \<in> set rs. word_at t (fst r)"
      then have "\<forall>w \<in> set ([] :: (nat \<times> nat) list) \<union> fst ` set rs. word_at t w" by simp
      from parse_args_settles [OF t this, of s2]
      show "settles (parsed t s1) (rbind (parse_args t [] rs s2) (\<lambda>(argv, rs, s). Ok (wrap rs (EXEC argv), s)))"
        by (rule settles_rbind) (use h in \<open>auto simp: parsed_def wrap_words\<close>)
    qed
    then show ?thesis using False p le by (simp add: settles_parsed_from)
  qed
qed

lemma parseblock_settles_step:
  assumes t: "0 \<notin> set t" and "\<And>s'. s < s' \<Longrightarrow> s < length t \<Longrightarrow> settles (parsed t s') (parseline n t s')"
  shows "settles (parsed t s) (parseblock (Suc n) t s)"
proof -
  obtain m s1 where p: "peek t s [40] = (m, s1)" by fastforce
  obtain tok q e s2 where g: "gettoken t s1 = (tok, q, e, s2)" by (rule prod_cases4)
  have "settles (parsed t s)
      (rbind (parseline n t s2) (\<lambda>(c, s). case peek t s [41] of (b, s) \<Rightarrow>
         if \<not> b then Panic ''syntax - missing )''
         else (case gettoken t s of (_, _, _, s) \<Rightarrow> rbind (parseredirs t s) (\<lambda>(rs, s). Ok (wrap rs c, s)))))" if m
  proof (rule settles_rbind [OF assms(2)], use token_moves [of t s "[40]" s1] p g that in fastforce,
      use token_moves [of t s "[40]" s1] p g that in fastforce, clarify)
    fix c s3
    assume c: "parsed t s2 (c, s3)"
    have s2: "s < s2" using token_moves [of t s "[40]" s1] p g that by fastforce
    obtain b s4 where p2: "peek t s3 [41] = (b, s4)" by fastforce
    obtain tok q e s5 where g2: "gettoken t s4 = (tok, q, e, s5)" by (rule prod_cases4)
    have le: "s \<le> s5" using s2 c peek_more [OF p2] gettoken_more [OF g2] by (auto simp: parsed_def)
    show "settles (parsed t s) (case peek t s3 [41] of (b, s) \<Rightarrow>
         if \<not> b then Panic ''syntax - missing )''
         else (case gettoken t s of (_, _, _, s) \<Rightarrow> rbind (parseredirs t s) (\<lambda>(rs, s). Ok (wrap rs c, s))))"
      using p2 g2 c le by (auto simp: parsed_def wrap_words intro!: settles_rbind [OF parseredirs_settles [OF t]]) force
  qed
  then show ?thesis using p g by simp
qed

lemma parse_settles:
  assumes t: "0 \<notin> set t"
  shows "4 * (length t - s) + 4 \<le> n \<Longrightarrow> settles (parsed t s) (parseline n t s)"
    and "4 * (length t - s) + 3 \<le> n \<Longrightarrow> settles (parsed t s) (parsepipe n t s)"
    and "4 * (length t - s) + 2 \<le> n \<Longrightarrow> settles (parsed t s) (parseexec n t s)"
    and "4 * (length t - s) + 1 \<le> n \<Longrightarrow> settles (parsed t s) (parseblock n t s)"
proof (induction n arbitrary: s)
  case 0
  { case 1 then show ?case by simp next case 2 then show ?case by simp next case 3 then show ?case by simp next case 4 then show ?case by simp }
next
  case (Suc n)
  {
    case 1
    then show ?case by (intro parseline_settles_step Suc.IH) auto
  next
    case 2
    then show ?case by (intro parsepipe_settles_step Suc.IH) auto
  next
    case 3
    then show ?case by (intro parseexec_settles_step t Suc.IH) auto
  next
    case 4
    then show ?case by (intro parseblock_settles_step t Suc.IH) auto
  }
qed

text \<open>The string that starts at a position of the buffer.\<close>

definition string_at :: "u8 list \<Rightarrow> nat \<Rightarrow> u8 list" where
  "string_at buf q = takeWhile (\<lambda>c. c \<noteq> 0) (drop q buf)"

definition word_text :: "u8 list \<Rightarrow> nat \<times> nat \<Rightarrow> u8 list" where
  "word_text t = (\<lambda>(q, e). take (e - q) (drop q t))"

lemma fold_store_at:
  "length (fold (\<lambda>(q, e). store_at e) argv buf) = length buf \<and>
   (j < length buf \<longrightarrow> fold (\<lambda>(q, e). store_at e) argv buf ! j = (if j \<in> snd ` set argv then 0 else buf ! j))"
  by (induction argv arbitrary: buf) (simp_all add: store_at_def nth_list_update split_beta)

lemma nulterminate_nth:
  "length (nulterminate c buf) = length buf \<and>
   (j < length buf \<longrightarrow> nulterminate c buf ! j = (if j \<in> snd ` set_cmd c then 0 else buf ! j))"
proof (induction c arbitrary: buf)
  case (EXEC argv)
  then show ?case using fold_store_at [of argv buf j] by simp
next
  case (REDIR c w mode fd)
  then show ?case by (cases "j = snd w") (simp_all add: store_at_def)
qed (simp_all add: image_Un)

lemma nulterminate_string:
  assumes c: "\<forall>w \<in> set_cmd c. word_at t w" and w: "(q, e) \<in> set_cmd c"
  shows "string_at (nulterminate c (t @ [0])) q = word_text t (q, e)"
proof -
  let ?b = "nulterminate c (t @ [0])"
  have qe: "q < e" "e \<le> length t" "\<And>j. q \<le> j \<Longrightarrow> j < e \<Longrightarrow> word_char (t ! j)"
    using c w by (auto simp: word_at_def)
  have len: "length ?b = Suc (length t)" using nulterminate_nth [of c "t @ [0]"] by simp
  have b: "?b ! j = t ! j" if j: "q \<le> j" "j < e" for j
  proof -
    have "j \<notin> snd ` set_cmd c"
    proof
      assume "j \<in> snd ` set_cmd c"
      then obtain q' where "word_at t (q', j)" using c by force
      then show False using qe j by (auto simp: word_at_def)
    qed
    then show ?thesis using nulterminate_nth [of c "t @ [0]" j] qe j by (simp add: nth_append)
  qed
  have e: "?b ! e = 0"
    using nulterminate_nth [of c "t @ [0]" e] w qe by (force simp: image_iff)
  have "string_at ?b q = take (e - q) (drop q ?b)"
    unfolding string_at_def using qe len b e by (intro takeWhile_eq_take_P_nth) (auto simp: word_char_def)
  also have "\<dots> = take (e - q) (drop q t)"
    using qe len b by (intro nth_equalityI) auto
  finally show ?thesis by (simp add: word_text_def)
qed

section \<open>Printing a command and parsing it\<close>

definition show_args :: "u8 list list \<Rightarrow> u8 list" where
  "show_args ws = concat (map (\<lambda>w. 32 # w) ws)"

definition show_redir :: "u8 list \<times> int \<times> int \<Rightarrow> u8 list" where
  "show_redir = (\<lambda>(file, mode, fd). (if mode = O_INPUT then [60] else if mode = O_OVERWRITE then [62] else [62, 62]) @ file)"

definition paren :: "bool \<Rightarrow> u8 list \<Rightarrow> u8 list" where
  "paren b x = (if b then [40] @ x @ [41] else x)"

text \<open>
  A command as the user would type it, in parentheses where the level asks for it: \<open>0\<close> for a line, \<open>1\<close> for what
  precedes an ampersand or a semicolon, \<open>2\<close> for a pipeline and \<open>3\<close> for a part of one.
\<close>

primrec show_cmd :: "u8 list cmd \<Rightarrow> nat \<Rightarrow> u8 list" where
  "show_cmd (EXEC argv) l = show_args argv"
| "show_cmd (REDIR c file mode fd) l = show_cmd c 3 @ show_redir (file, mode, fd)"
| "show_cmd (PIPE a b) l = paren (l > 2) (show_cmd a 3 @ 124 # show_cmd b 2)"
| "show_cmd (LIST a b) l = paren (l > 0) (show_cmd a 1 @ 59 # show_cmd b 0)"
| "show_cmd (BACK c) l = paren (l > 1) (show_cmd c 1 @ [38])"

definition word_ok :: "u8 list \<Rightarrow> bool" where
  "word_ok w \<longleftrightarrow> w \<noteq> [] \<and> list_all word_char w"

primrec cmd_ok :: "u8 list cmd \<Rightarrow> bool" where
  "cmd_ok (EXEC argv) \<longleftrightarrow> list_all word_ok argv \<and> length argv < MAXARGS"
| "cmd_ok (REDIR c file mode fd) \<longleftrightarrow> cmd_ok c \<and> word_ok file \<and> (mode, fd) \<in> {(O_INPUT, 0), (O_OVERWRITE, 1), (O_EXTEND, 1)}"
| "cmd_ok (PIPE a b) \<longleftrightarrow> cmd_ok a \<and> cmd_ok b"
| "cmd_ok (LIST a b) \<longleftrightarrow> cmd_ok a \<and> cmd_ok b"
| "cmd_ok (BACK c) \<longleftrightarrow> cmd_ok c"

subsection \<open>Tokens\<close>

definition trim :: "u8 list \<Rightarrow> u8 list" where
  "trim = dropWhile (\<lambda>c. c \<in> set whitespace)"

text \<open>\<open>here t s x\<close>: the rest of the line at \<open>s\<close> is \<open>x\<close>.\<close>

definition here :: "u8 list \<Rightarrow> nat \<Rightarrow> u8 list \<Rightarrow> bool" where
  "here t s x \<longleftrightarrow> s \<le> length t \<and> drop s t = x"

lemma here_length: "here t s x \<Longrightarrow> length t - s = length x"
  by (auto simp: here_def)

lemma here_char: "here t s x \<Longrightarrow> char_at t s = (case x of [] \<Rightarrow> 0 | c # y \<Rightarrow> c)"
  by (auto simp: here_def char_at_def hd_drop_conv_nth [symmetric] split: list.splits)

lemma here_Cons:
  assumes "here t s (c # y)"
  shows "s < length t" "t ! s = c" "here t (Suc s) y"
proof -
  show s: "s < length t" using assms by (cases "s < length t") (auto simp: here_def)
  have "drop s t = t ! s # drop (Suc s) t" using s by (simp add: Cons_nth_drop_Suc)
  then show "t ! s = c" "here t (Suc s) y" using assms s by (auto simp: here_def)
qed

lemma here_append:
  assumes "here t s (x @ y)"
  shows "here t (s + length x) y"
proof -
  have "drop s t = x @ y" using assms by (simp add: here_def)
  then have "drop (length x) (drop s t) = y" by simp
  then have "drop (s + length x) t = y" by (simp add: add.commute)
  moreover have "s \<le> length t" using assms by (simp add: here_def)
  ultimately show ?thesis using here_length [OF assms] by (simp add: here_def)
qed

lemma trim_Nil [simp]: "trim [] = []"
  and trim_white [simp]: "c \<in> set whitespace \<Longrightarrow> trim (c # x) = trim x"
  and trim_other [simp]: "c \<notin> set whitespace \<Longrightarrow> trim (c # x) = c # x"
  by (simp_all add: trim_def)

lemma trim_trim [simp]: "trim (trim x) = trim x"
  by (simp add: trim_def dropWhile_idem)

lemma trim_length: "length (trim x) \<le> length x"
  by (simp add: trim_def length_dropWhile_le)

lemma trim_append_length: "c \<notin> set whitespace \<Longrightarrow> length y < length (trim (x @ c # y))"
  by (induction x) (auto simp: trim_def)

lemma skip_white_here: "here t s x \<Longrightarrow> here t (skip_white t s) (trim x)"
proof (induction x arbitrary: s)
  case Nil
  then show ?case by (subst skip_white.simps) (auto simp: here_def)
next
  case (Cons c y)
  then have h: "s < length t" "t ! s = c" "here t (Suc s) y" using here_Cons [of t s c y] by simp_all
  then show ?case using Cons by (subst skip_white.simps) auto
qed

lemma peek_here:
  assumes "here t s x"
  shows "\<exists>s1. peek t s toks = (case trim x of [] \<Rightarrow> False | c # y \<Rightarrow> c \<noteq> 0 \<and> c \<in> set toks, s1) \<and> here t s1 (trim x)"
  using skip_white_here [OF assms] here_char [OF skip_white_here [OF assms]]
  by (auto simp: peek_def Let_def split: list.splits)

lemma peek_hit:
  assumes "here t s x" "trim x = c # y" "c \<noteq> 0" "c \<in> set toks"
  obtains s1 where "peek t s toks = (True, s1)" "here t s1 (c # y)"
  using peek_here [OF assms(1), of toks] assms(2-4) by (elim exE conjE) simp

lemma peek_miss:
  assumes "here t s x" "case trim x of [] \<Rightarrow> True | c # y \<Rightarrow> c \<notin> set toks"
  obtains s1 where "peek t s toks = (False, s1)" "here t s1 (trim x)"
  using peek_here [OF assms(1), of toks] assms(2) by (elim exE conjE) (simp split: list.splits)

definition brk :: "u8 list \<Rightarrow> bool" where
  "brk x \<longleftrightarrow> (case x of [] \<Rightarrow> True | c # y \<Rightarrow> c \<in> set whitespace \<or> c \<in> set symbols)"

lemma scan_word_here:
  "here t s (w @ y) \<Longrightarrow> list_all word_char w \<Longrightarrow> brk y \<Longrightarrow> scan_word t s = s + length w"
proof (induction w arbitrary: s)
  case Nil
  then have "\<not> (s < length t \<and> t ! s \<notin> set whitespace \<and> t ! s \<notin> set symbols)"
    using here_Cons [of t s "hd y" "tl y"] by (cases y) (auto simp: brk_def here_def)
  then show ?case by (subst scan_word.simps) auto
next
  case (Cons c w)
  then have h: "s < length t" "t ! s = c" "here t (Suc s) (w @ y)" using here_Cons [of t s c "w @ y"] by simp_all
  then show ?case using Cons by (subst scan_word.simps) (auto simp: word_char_def)
qed

lemma gettoken_word:
  assumes "here t s x" "trim x = w @ y" "word_ok w" "brk y"
  obtains q e s1 where "gettoken t s = (97, q, e, s1)" "here t s1 (trim y)" "word_text t (q, e) = w"
proof -
  let ?q = "skip_white t s"
  have h: "here t ?q (w @ y)" using skip_white_here [OF assms(1)] assms(2) by simp
  obtain c v where w: "w = c # v" using assms(3) by (auto simp: word_ok_def neq_Nil_conv)
  have c: "char_at t ?q = c" using here_char [OF h] w by simp
  have "word_char c" using assms(3) w by (simp add: word_ok_def)
  then have n: "c \<noteq> 0" "c \<notin> {124, 40, 41, 59, 38, 60, 62}" by (auto simp: word_char_def symbols_def)
  have e: "scan_word t ?q = ?q + length w" using scan_word_here [OF h _ assms(4)] assms(3) by (simp add: word_ok_def)
  have "gettoken t s = (97, ?q, ?q + length w, skip_white t (?q + length w))"
    using n c e by (simp add: gettoken_def Let_def)
  moreover have "here t (skip_white t (?q + length w)) (trim y)"
    using skip_white_here [OF here_append [OF h]] .
  moreover have "word_text t (?q, ?q + length w) = w" using h by (simp add: word_text_def here_def)
  ultimately show ?thesis by (rule that)
qed

lemma gettoken_symbol:
  assumes "here t s x" "trim x = c # y" "c \<in> {124, 40, 41, 59, 38, 60}"
  obtains q e s1 where "gettoken t s = (c, q, e, s1)" "here t s1 (trim y)"
proof -
  let ?q = "skip_white t s"
  have h: "here t ?q (c # y)" using skip_white_here [OF assms(1)] assms(2) by simp
  have "gettoken t s = (c, ?q, Suc ?q, skip_white t (Suc ?q))"
    using here_char [OF h] assms(3) by (auto simp: gettoken_def Let_def)
  moreover have "here t (skip_white t (Suc ?q)) (trim y)" using skip_white_here [OF here_Cons(3) [OF h]] .
  ultimately show ?thesis by (rule that)
qed

lemma gettoken_greater:
  assumes "here t s x" "trim x = 62 # y" "y = [] \<or> hd y \<noteq> 62"
  obtains q e s1 where "gettoken t s = (62, q, e, s1)" "here t s1 (trim y)"
proof -
  let ?q = "skip_white t s"
  have h: "here t ?q (62 # y)" using skip_white_here [OF assms(1)] assms(2) by simp
  have "char_at t (Suc ?q) \<noteq> 62" using here_char [OF here_Cons(3) [OF h]] assms(3) by (auto split: list.splits)
  then have "gettoken t s = (62, ?q, Suc ?q, skip_white t (Suc ?q))"
    using here_char [OF h] by (auto simp: gettoken_def Let_def)
  moreover have "here t (skip_white t (Suc ?q)) (trim y)" using skip_white_here [OF here_Cons(3) [OF h]] .
  ultimately show ?thesis by (rule that)
qed

lemma gettoken_append:
  assumes "here t s x" "trim x = 62 # 62 # y"
  obtains q e s1 where "gettoken t s = (43, q, e, s1)" "here t s1 (trim y)"
proof -
  let ?q = "skip_white t s"
  have h: "here t ?q (62 # 62 # y)" using skip_white_here [OF assms(1)] assms(2) by simp
  note h2 = here_Cons(3) [OF h]
  have "gettoken t s = (43, ?q, Suc (Suc ?q), skip_white t (Suc (Suc ?q)))"
    using here_char [OF h] here_char [OF h2] by (auto simp: gettoken_def Let_def)
  moreover have "here t (skip_white t (Suc (Suc ?q))) (trim y)" using skip_white_here [OF here_Cons(3) [OF h2]] .
  ultimately show ?thesis by (rule that)
qed

lemma gettoken_nothing:
  assumes "here t s x" "trim x = []"
  obtains q e s1 where "gettoken t s = (0, q, e, s1)" "here t s1 []"
proof -
  have h: "here t (skip_white t s) []" using skip_white_here [OF assms(1)] assms(2) by simp
  then have "gettoken t s = (0, skip_white t s, skip_white t s, skip_white t s)"
    using here_char [OF h] by (auto simp: gettoken_def Let_def)
  then show ?thesis using h by (rule that)
qed

subsection \<open>Redirections and arguments\<close>

definition redir_ok :: "u8 list \<times> int \<times> int \<Rightarrow> bool" where
  "redir_ok = (\<lambda>(w, mode, fd). word_ok w \<and> (mode, fd) \<in> {(O_INPUT, 0), (O_OVERWRITE, 1), (O_EXTEND, 1)})"

definition redir_text :: "u8 list \<Rightarrow> (nat \<times> nat) \<times> int \<times> int \<Rightarrow> u8 list \<times> int \<times> int" where
  "redir_text t = (\<lambda>(w, mode, fd). (word_text t w, mode, fd))"

definition show_redirs :: "(u8 list \<times> int \<times> int) list \<Rightarrow> u8 list" where
  "show_redirs rs = concat (map show_redir rs)"

lemma word_ok_Cons: "word_ok w \<Longrightarrow> \<exists>c v. w = c # v \<and> word_char c"
  by (auto simp: word_ok_def neq_Nil_conv)

lemma trim_word: "word_ok w \<Longrightarrow> trim (w @ y) = w @ y"
  using word_ok_Cons [of w] by (auto simp: word_char_def)

lemma O_flags: "O_INPUT \<noteq> O_OVERWRITE" "O_INPUT \<noteq> O_EXTEND" "O_OVERWRITE \<noteq> O_EXTEND"
  by (simp_all add: O_INPUT_def O_OVERWRITE_def O_EXTEND_def)

lemma symbols_not_white [simp]:
  "60 \<notin> set whitespace" "124 \<notin> set whitespace" "62 \<notin> set whitespace" "38 \<notin> set whitespace"
  "59 \<notin> set whitespace" "40 \<notin> set whitespace" "41 \<notin> set whitespace" "32 \<in> set whitespace"
  by (simp_all add: whitespace_def)

text \<open>One redirection: the operator and the name of the file.\<close>

lemma redir_tokens:
  assumes "here t s x" "trim x = show_redir r @ y" "redir_ok r" "brk y"
  obtains s0 tok q1 e1 s1 q e s2 where "peek t s [60, 62] = (True, s0)" "gettoken t s0 = (tok, q1, e1, s1)"
    "gettoken t s1 = (97, q, e, s2)" "here t s2 (trim y)" "word_text t (q, e) = fst r"
    "snd r = (if tok = 60 then (O_INPUT, 0) else if tok = 62 then (O_OVERWRITE, 1) else (O_EXTEND, 1))"
    "tok \<in> {60, 62, 43}"
proof -
  obtain w mode fd where r: "r = (w, mode, fd)" by (cases r)
  then have w: "word_ok w" and m: "(mode, fd) \<in> {(O_INPUT, 0), (O_OVERWRITE, 1), (O_EXTEND, 1)}"
    using assms(3) by (simp_all add: redir_ok_def)
  obtain s0 where p: "peek t s [60, 62] = (True, s0)" and h0: "here t s0 (trim x)"
  proof -
    have "\<exists>c z. trim x = c # z \<and> c \<in> {60, 62}" using assms(2) r by (auto simp: show_redir_def)
    then obtain c z where "trim x = c # z" "c \<noteq> 0" "c \<in> set [60, 62]" by auto
    from peek_hit [OF assms(1) this] show ?thesis using that \<open>trim x = c # z\<close> by auto
  qed
  have x: "trim (trim x) = (if mode = O_INPUT then [60] else if mode = O_OVERWRITE then [62] else [62, 62]) @ w @ y"
    using assms(2) r by (simp add: show_redir_def)
  have w0: "w @ y \<noteq> [] \<and> hd (w @ y) \<noteq> 62" using word_ok_Cons [OF w] by (auto simp: word_char_def symbols_def)
  obtain tok q1 e1 s1 where g: "gettoken t s0 = (tok, q1, e1, s1)" "here t s1 (trim (w @ y))"
    "(mode, fd) = (if tok = 60 then (O_INPUT, 0) else if tok = 62 then (O_OVERWRITE, 1) else (O_EXTEND, 1))" "tok \<in> {60, 62, 43}"
  proof -
    consider "mode = O_INPUT" "fd = 0" | "mode = O_OVERWRITE" "fd = 1" | "mode = O_EXTEND" "fd = 1" using m by auto
    then show ?thesis
    proof cases
      case 1
      then have "trim (trim x) = 60 # w @ y" using x by simp
      from gettoken_symbol [OF h0 this] obtain q1 e1 s1 where "gettoken t s0 = (60, q1, e1, s1)" "here t s1 (trim (w @ y))" by auto
      with 1 show ?thesis by (intro that) auto
    next
      case 2
      then have "trim (trim x) = 62 # w @ y" using x O_flags by simp
      from gettoken_greater [OF h0 this] w0 obtain q1 e1 s1 where "gettoken t s0 = (62, q1, e1, s1)" "here t s1 (trim (w @ y))" by auto
      with 2 show ?thesis by (intro that) auto
    next
      case 3
      then have "trim (trim x) = 62 # 62 # w @ y" using x O_flags by simp
      from gettoken_append [OF h0 this] obtain q1 e1 s1 where "gettoken t s0 = (43, q1, e1, s1)" "here t s1 (trim (w @ y))" by auto
      with 3 show ?thesis by (intro that) auto
    qed
  qed
  have "trim (trim (w @ y)) = w @ y" using trim_word [OF w] by simp
  from gettoken_word [OF g(2) this w assms(4)]
  obtain q e s2 where "gettoken t s1 = (97, q, e, s2)" "here t s2 (trim y)" "word_text t (q, e) = w" .
  then show ?thesis using p g r by (intro that) auto
qed

lemma brk_show_redirs: "brk y \<Longrightarrow> brk (show_redirs rs @ y)"
  by (cases rs) (auto simp: show_redirs_def show_redir_def brk_def symbols_def split: prod.splits list.splits)

lemma trim_show_redir: "trim (show_redir r @ y) = show_redir r @ y"
  by (auto simp: show_redir_def split: prod.splits)

lemma parseredirs_show:
  assumes "list_all redir_ok rs" "here t s x" "trim x = trim (show_redirs rs @ y)" "brk y"
    "case trim y of [] \<Rightarrow> True | c # _ \<Rightarrow> c \<notin> {60, 62}"
  shows "\<exists>ks s1. parseredirs t s = Ok (ks, s1) \<and> map (redir_text t) ks = rs \<and> here t s1 (trim y)"
  using assms(1-3)
proof (induction rs arbitrary: s x)
  case Nil
  have x: "trim x = trim y" using Nil(3) by (simp add: show_redirs_def)
  have "case trim x of [] \<Rightarrow> True | c # y \<Rightarrow> c \<notin> set [60, 62]" using assms(5) x by (simp split: list.splits)
  from peek_miss [OF Nil(2) this] obtain s1 where "peek t s [60, 62] = (False, s1)" "here t s1 (trim x)" .
  then show ?case using x by (subst parseredirs.simps) simp
next
  case (Cons r rs)
  have x: "trim x = show_redir r @ show_redirs rs @ y" using Cons(4) trim_show_redir by (simp add: show_redirs_def)
  have "redir_ok r" using Cons(2) by simp
  from redir_tokens [OF Cons(3) x this brk_show_redirs [OF assms(4)]]
  obtain s0 tok q1 e1 s1 q e s2 where g: "peek t s [60, 62] = (True, s0)" "gettoken t s0 = (tok, q1, e1, s1)"
    "gettoken t s1 = (97, q, e, s2)" "here t s2 (trim (show_redirs rs @ y))" "word_text t (q, e) = fst r"
    "snd r = (if tok = 60 then (O_INPUT, 0) else if tok = 62 then (O_OVERWRITE, 1) else (O_EXTEND, 1))" "tok \<in> {60, 62, 43}" .
  obtain ks s3 where k: "parseredirs t s2 = Ok (ks, s3)" "map (redir_text t) ks = rs" "here t s3 (trim y)"
    using Cons(1) [OF _ g(4)] Cons(2) by auto
  obtain w m f where r: "r = (w, m, f)" by (cases r)
  have "parseredirs t s = Ok (((q, e), m, f) # ks, s3)"
    using g k r by (subst parseredirs.simps) (auto split: if_splits)
  then show ?case using k g(5) r by (simp add: redir_text_def)
qed

text \<open>What may follow a command: the end of the line or one of the given symbols.\<close>

definition follow :: "u8 list \<Rightarrow> u8 list \<Rightarrow> bool" where
  "follow S y \<longleftrightarrow> brk y \<and> set S \<subseteq> set symbols \<and> (case trim y of [] \<Rightarrow> True | c # _ \<Rightarrow> c \<in> set S)"

lemma follow_symbol: "c \<in> set S \<Longrightarrow> set S \<subseteq> set symbols \<Longrightarrow> follow S (c # y)"
  by (auto simp: follow_def brk_def whitespace_def symbols_def)

lemma follow_mono: "follow S y \<Longrightarrow> set S \<subseteq> set S' \<Longrightarrow> set S' \<subseteq> set symbols \<Longrightarrow> follow S' y"
  by (auto simp: follow_def split: list.splits)

lemma peek_follow:
  assumes "here t s x" "trim x = trim y" "follow S y" "set toks \<inter> set S = {}"
  obtains s1 where "peek t s toks = (False, s1)" "here t s1 (trim y)"
proof -
  have "case trim x of [] \<Rightarrow> True | c # y \<Rightarrow> c \<notin> set toks"
    using assms(2-4) by (auto simp: follow_def split: list.splits)
  from peek_miss [OF assms(1) this] show ?thesis using assms(2) that by auto
qed

lemma show_args_Cons: "show_args (w # ws) = 32 # w @ show_args ws"
  by (simp add: show_args_def)

lemma brk_args: "brk y \<Longrightarrow> brk (show_args ws @ show_redirs rs @ y)"
  by (cases ws) (simp_all add: brk_show_redirs show_args_def, simp add: brk_def)

lemma args_not_redir:
  "list_all word_ok (w # ws) \<Longrightarrow> case trim (show_args (w # ws) @ y) of [] \<Rightarrow> True | c # _ \<Rightarrow> c \<notin> {60, 62} \<and> c \<notin> {40, 124, 41, 38, 59}"
  using word_ok_Cons [of w] by (auto simp: show_args_Cons trim_word word_char_def symbols_def)

lemma parse_args_none:
  assumes "here t s x" "trim x = trim y" "follow [124, 41, 38, 59] y"
  shows "\<exists>s1. parse_args t argv rs s = Ok (argv, rs, s1) \<and> here t s1 (trim y)"
proof (cases "trim y")
  case Nil
  have "case trim x of [] \<Rightarrow> True | c # y \<Rightarrow> c \<notin> set [124, 41, 38, 59]" using assms(2) Nil by simp
  from peek_miss [OF assms(1) this] obtain s1 where p: "peek t s [124, 41, 38, 59] = (False, s1)" "here t s1 (trim x)" .
  have "trim (trim x) = []" using assms(2) Nil by simp
  from gettoken_nothing [OF p(2) this] obtain q e s2 where "gettoken t s1 = (0, q, e, s2)" "here t s2 []" .
  then show ?thesis using p Nil by (subst parse_args.simps) simp
next
  case (Cons c z)
  have "c \<in> set [124, 41, 38, 59]" "trim x = c # z" using assms(2,3) Cons by (simp_all add: follow_def)
  moreover from this have "c \<noteq> 0" by auto
  ultimately obtain s1 where "peek t s [124, 41, 38, 59] = (True, s1)" "here t s1 (c # z)"
    using peek_hit [OF assms(1)] by blast
  then show ?thesis using Cons by (subst parse_args.simps) simp
qed

text \<open>Of words and redirections, \<^verbatim>\<open>parseredirs\<close> takes the redirections if there are no words before them.\<close>

lemma parseredirs_first:
  assumes "list_all word_ok ws" "list_all redir_ok rs" "follow [124, 41, 38, 59] y"
    "here t s x" "trim x = trim (show_args ws @ show_redirs rs @ y)"
  shows "\<exists>ks s1. parseredirs t s = Ok (ks, s1) \<and> map (redir_text t) ks = (if ws = [] then rs else []) \<and>
    here t s1 (trim (show_args ws @ show_redirs (if ws = [] then [] else rs) @ y))"
proof (cases ws)
  case Nil
  have "case trim y of [] \<Rightarrow> True | c # _ \<Rightarrow> c \<notin> {60, 62}" "brk y"
    using assms(3) by (auto simp: follow_def split: list.splits)
  with Nil show ?thesis using parseredirs_show [OF assms(2,4), of y] assms(5) by (simp add: show_args_def show_redirs_def)
next
  case (Cons w v)
  let ?y = "show_args ws @ show_redirs rs @ y"
  have "case trim ?y of [] \<Rightarrow> True | c # _ \<Rightarrow> c \<notin> {60, 62}"
    using args_not_redir [of w v "show_redirs rs @ y"] assms(1) Cons by (auto split: list.splits)
  moreover have "brk ?y" using assms(3) by (intro brk_args) (simp add: follow_def)
  ultimately show ?thesis using Cons parseredirs_show [of "[]" t s x ?y] assms(4,5) by (simp add: show_redirs_def)
qed

lemma parse_args_show:
  assumes "list_all word_ok ws" "list_all redir_ok rs" "ws \<noteq> [] \<or> rs = []" "length argv + length ws < MAXARGS"
    "here t s x" "trim x = trim (show_args ws @ show_redirs rs @ y)" "follow [124, 41, 38, 59] y"
  shows "\<exists>av ks s1. parse_args t argv rs0 s = Ok (argv @ av, rs0 @ ks, s1) \<and> map (word_text t) av = ws \<and>
    map (redir_text t) ks = rs \<and> here t s1 (trim y)"
  using assms(1-6)
proof (induction ws arbitrary: argv rs rs0 s x)
  case Nil
  then show ?case using parse_args_none [OF Nil(5), of y argv rs0] assms(7) by (auto simp: show_args_def show_redirs_def)
next
  case (Cons w ws)
  let ?y = "show_args ws @ show_redirs rs @ y"
  let ?rs = "if ws = [] then [] else rs"
  have w: "word_ok w" "list_all word_ok ws" using Cons(2) by simp_all
  have x: "trim x = w @ ?y" using Cons(7) w by (simp add: show_args_Cons trim_word)
  have "case trim x of [] \<Rightarrow> True | c # y \<Rightarrow> c \<notin> set [124, 41, 38, 59]"
    using x word_ok_Cons [OF w(1)] by (auto simp: word_char_def symbols_def)
  from peek_miss [OF Cons(6) this] obtain s1 where p: "peek t s [124, 41, 38, 59] = (False, s1)" "here t s1 (trim x)" .
  have "trim (trim x) = w @ ?y" using x by (simp add: trim_word w)
  moreover have "brk ?y" using assms(7) by (intro brk_args) (simp add: follow_def)
  ultimately obtain q e s2 where g: "gettoken t s1 = (97, q, e, s2)" "here t s2 (trim ?y)" "word_text t (q, e) = w"
    using gettoken_word [OF p(2)] w(1) by metis
  obtain k1 s3 where k1: "parseredirs t s2 = Ok (k1, s3)" "map (redir_text t) k1 = (if ws = [] then rs else [])"
    "here t s3 (trim (show_args ws @ show_redirs ?rs @ y))"
    using parseredirs_first [OF w(2) Cons(3) assms(7) g(2)] by auto
  have "list_all redir_ok ?rs" "ws \<noteq> [] \<or> ?rs = []" "length (argv @ [(q, e)]) + length ws < MAXARGS"
    using Cons(3,5) by simp_all
  from Cons(1) [OF w(2) this k1(3), of "rs0 @ k1"]
  obtain av ks s4 where r: "parse_args t (argv @ [(q, e)]) (rs0 @ k1) s3 = Ok ((argv @ [(q, e)]) @ av, (rs0 @ k1) @ ks, s4)"
    "map (word_text t) av = ws" "map (redir_text t) ks = ?rs" "here t s4 (trim y)"
    by auto
  have "parse_args t argv rs0 s = Ok (argv @ (q, e) # av, rs0 @ (k1 @ ks), s4)"
    using p g k1 r Cons(5) by (subst parse_args.simps) simp
  moreover have "map (redir_text t) (k1 @ ks) = rs" using k1 r by simp
  moreover have "map (word_text t) ((q, e) # av) = w # ws" using g r by simp
  ultimately show ?case using r(4) by (intro exI [of _ "(q, e) # av"] exI [of _ "k1 @ ks"] exI [of _ s4]) simp
qed

subsection \<open>Commands\<close>

text \<open>\<open>reads_as f d l S c\<close>: the routine \<open>f\<close> reads the command \<open>c\<close>, printed for level \<open>l\<close> and followed by one of the symbols \<open>S\<close>.\<close>

definition reads_as :: "(nat \<Rightarrow> u8 list \<Rightarrow> nat \<Rightarrow> ((nat \<times> nat) cmd \<times> nat) res) \<Rightarrow> nat \<Rightarrow> nat \<Rightarrow> u8 list \<Rightarrow> u8 list cmd \<Rightarrow> bool" where
  "reads_as f d l S c \<longleftrightarrow>
     (\<forall>t n s x y. here t s x \<longrightarrow> trim x = trim (show_cmd c l @ y) \<longrightarrow> follow S y \<longrightarrow> 4 * length x + d \<le> n \<longrightarrow>
        (\<exists>k s1. f n t s = Ok (k, s1) \<and> map_cmd (word_text t) k = c \<and> here t s1 (trim y)))"

lemma reads_asD:
  assumes "reads_as f d l S c" "here t s x" "trim x = trim (show_cmd c l @ y)" "follow S y" "4 * length x + d \<le> n"
  obtains k s1 where "f n t s = Ok (k, s1)" "map_cmd (word_text t) k = c" "here t s1 (trim y)"
  using assms unfolding reads_as_def by blast

text \<open>The part of a line before a semicolon, up to the ampersands that are still to come.\<close>

definition reads_back :: "u8 list cmd \<Rightarrow> bool" where
  "reads_back c \<longleftrightarrow>
     (\<forall>t n s x y. here t s x \<longrightarrow> trim x = trim (show_cmd c 1 @ y) \<longrightarrow> follow [41, 38, 59] y \<longrightarrow> 4 * length x + 3 \<le> n \<longrightarrow>
        (\<exists>k0 s0 k s1. parsepipe n t s = Ok (k0, s0) \<and> back_loop t k0 s0 = back_loop t k s1 \<and>
           map_cmd (word_text t) k = c \<and> here t s1 (trim y)))"

lemma reads_backD:
  assumes "reads_back c" "here t s x" "trim x = trim (show_cmd c 1 @ y)" "follow [41, 38, 59] y" "4 * length x + 3 \<le> n"
  obtains k0 s0 k s1 where "parsepipe n t s = Ok (k0, s0)" "back_loop t k0 s0 = back_loop t k s1"
    "map_cmd (word_text t) k = c" "here t s1 (trim y)"
  using assms unfolding reads_back_def by blast

abbreviation "reads_exec \<equiv> reads_as parseexec 2 3 [124, 41, 38, 59]"
abbreviation "reads_pipe \<equiv> reads_as parsepipe 3 2 [41, 38, 59]"
abbreviation "reads_line \<equiv> reads_as parseline 4 0 [41]"

fun redirs_of :: "'w cmd \<Rightarrow> ('w \<times> int \<times> int) list" where
  "redirs_of (REDIR c w mode fd) = redirs_of c @ [(w, mode, fd)]"
| "redirs_of c = []"

fun core_of :: "'w cmd \<Rightarrow> 'w cmd" where
  "core_of (REDIR c w mode fd) = core_of c"
| "core_of c = c"

lemma wrap_core: "wrap (redirs_of c) (core_of c) = c"
  by (induction c) (simp_all add: wrap_def)

lemma show_core: "show_cmd c 3 = show_cmd (core_of c) 3 @ show_redirs (redirs_of c)"
  by (induction c) (simp_all add: show_redirs_def)

lemma cmd_ok_core: "cmd_ok c \<Longrightarrow> cmd_ok (core_of c) \<and> list_all redir_ok (redirs_of c)"
  by (induction c) (auto simp: redir_ok_def)

lemma map_wrap: "map_cmd (word_text t) (wrap ks k) = wrap (map (redir_text t) ks) (map_cmd (word_text t) k)"
  by (induction ks arbitrary: k) (auto simp: wrap_def redir_text_def)

lemma exec_reads:
  assumes "core_of c = EXEC ws" "cmd_ok c"
  shows "reads_exec c"
  unfolding reads_as_def
proof (intro allI impI)
  fix t n s x y
  assume a: "here t s x" "trim x = trim (show_cmd c 3 @ y)" "follow [124, 41, 38, 59] y" "4 * length x + 2 \<le> n"
  let ?rs = "redirs_of c"
  obtain m where n: "n = Suc m" using a(4) by (cases n) auto
  have ok: "list_all word_ok ws" "list_all redir_ok ?rs" "length ([] :: (nat \<times> nat) list) + length ws < MAXARGS"
    using cmd_ok_core [OF assms(2)] assms(1) by simp_all
  have x: "trim x = trim (show_args ws @ show_redirs ?rs @ y)" using a(2) show_core [of c] assms(1) by simp
  have "case trim x of [] \<Rightarrow> True | c # y \<Rightarrow> c \<notin> set [40]"
  proof (cases ws)
    case Nil
    then show ?thesis using x a(3)
      by (cases ?rs) (auto simp: show_args_def show_redirs_def show_redir_def follow_def split: list.splits prod.splits if_splits)
  next
    case (Cons w v)
    then show ?thesis using args_not_redir [of w v "show_redirs ?rs @ y"] ok(1) x by (auto split: list.splits)
  qed
  from peek_miss [OF a(1) this] obtain s1 where p: "peek t s [40] = (False, s1)" "here t s1 (trim x)" .
  have "trim (trim x) = trim (show_args ws @ show_redirs ?rs @ y)" using x by simp
  from parseredirs_first [OF ok(1,2) a(3) p(2) this]
  obtain k1 s2 where k1: "parseredirs t s1 = Ok (k1, s2)" "map (redir_text t) k1 = (if ws = [] then ?rs else [])"
    "here t s2 (trim (show_args ws @ show_redirs (if ws = [] then [] else ?rs) @ y))" by auto
  have "list_all redir_ok (if ws = [] then [] else ?rs)" "ws \<noteq> [] \<or> (if ws = [] then [] else ?rs) = []" using ok by simp_all
  from parse_args_show [OF ok(1) this ok(3) k1(3) _ a(3), of k1]
  obtain av ks s3 where r: "parse_args t [] k1 s2 = Ok (av, k1 @ ks, s3)" "map (word_text t) av = ws"
    "map (redir_text t) ks = (if ws = [] then [] else ?rs)" "here t s3 (trim y)" by auto
  have "parseexec n t s = Ok (wrap (k1 @ ks) (EXEC av), s3)" using n p k1 r by simp
  moreover have "map_cmd (word_text t) (wrap (k1 @ ks) (EXEC av)) = c"
    using k1(2) r(2,3) wrap_core [of c] assms(1) by (cases "ws = []") (simp_all add: map_wrap)
  ultimately show "\<exists>k s1. parseexec n t s = Ok (k, s1) \<and> map_cmd (word_text t) k = c \<and> here t s1 (trim y)" using r(4) by blast
qed

lemma brk_follow: "follow [124, 41, 38, 59] y \<Longrightarrow> brk y \<and> (case trim y of [] \<Rightarrow> True | c # _ \<Rightarrow> c \<notin> {60, 62})"
  by (auto simp: follow_def split: list.splits)

lemma block_reads:
  assumes b: "show_cmd (core_of c) 3 = 40 # show_cmd (core_of c) 0 @ [41]" and L: "reads_line (core_of c)" and c: "cmd_ok c"
  shows "reads_exec c"
  unfolding reads_as_def
proof (intro allI impI)
  fix t n s x y
  assume a: "here t s x" "trim x = trim (show_cmd c 3 @ y)" "follow [124, 41, 38, 59] y" "4 * length x + 2 \<le> n"
  let ?rs = "redirs_of c" and ?b = "show_cmd (core_of c) 0"
  obtain m where n: "n = Suc (Suc m)" using a(4) by (cases n; cases "n - 1") auto
  have x: "trim x = 40 # ?b @ 41 # show_redirs ?rs @ y" using a(2) show_core [of c] b by simp
  obtain s1 where p1: "peek t s [40] = (True, s1)" "here t s1 (40 # ?b @ 41 # show_redirs ?rs @ y)"
    using peek_hit [OF a(1) x, of "[40]"] by auto
  obtain s2 where p2: "peek t s1 [40] = (True, s2)" "here t s2 (40 # ?b @ 41 # show_redirs ?rs @ y)"
    using peek_hit [OF p1(2) trim_other, of "[40]"] by auto
  obtain q e s3 where g1: "gettoken t s2 = (40, q, e, s3)" "here t s3 (trim (?b @ 41 # show_redirs ?rs @ y))"
    using gettoken_symbol [OF p2(2) trim_other] by auto
  have "4 * length (trim (?b @ 41 # show_redirs ?rs @ y)) + 4 \<le> m"
    using a(4) n x trim_length [of x] trim_length [of "?b @ 41 # show_redirs ?rs @ y"] by simp
  moreover have "follow [41] (41 # show_redirs ?rs @ y)" by (rule follow_symbol) (simp_all add: symbols_def)
  ultimately obtain k s4 where k: "parseline m t s3 = Ok (k, s4)" "map_cmd (word_text t) k = core_of c"
    "here t s4 (trim (41 # show_redirs ?rs @ y))"
    using reads_asD [OF L g1(2)] by (metis trim_trim)
  have k3: "here t s4 (41 # show_redirs ?rs @ y)" using k(3) by simp
  obtain s5 where p3: "peek t s4 [41] = (True, s5)" "here t s5 (41 # show_redirs ?rs @ y)"
    using peek_hit [OF k3 trim_other, of "[41]"] by auto
  obtain q e s6 where g2: "gettoken t s5 = (41, q, e, s6)" "here t s6 (trim (show_redirs ?rs @ y))"
    using gettoken_symbol [OF p3(2) trim_other] by auto
  obtain ks s7 where r: "parseredirs t s6 = Ok (ks, s7)" "map (redir_text t) ks = ?rs" "here t s7 (trim y)"
    using parseredirs_show [OF _ g2(2), of ?rs y] brk_follow [OF a(3)] cmd_ok_core [OF c] by auto
  have "parseexec n t s = Ok (wrap ks k, s7)" using n p1 p2 g1 k p3 g2 r by simp
  moreover have "map_cmd (word_text t) (wrap ks k) = c" using k(2) r(2) wrap_core [of c] by (simp add: map_wrap)
  ultimately show "\<exists>k s1. parseexec n t s = Ok (k, s1) \<and> map_cmd (word_text t) k = c \<and> here t s1 (trim y)" using r(3) by blast
qed

lemma pipe_of_exec:
  assumes "show_cmd c 2 = show_cmd c 3" "reads_exec c"
  shows "reads_pipe c"
  unfolding reads_as_def
proof (intro allI impI)
  fix t n s x y
  assume a: "here t s x" "trim x = trim (show_cmd c 2 @ y)" "follow [41, 38, 59] y" "4 * length x + 3 \<le> n"
  obtain m where n: "n = Suc m" using a(4) by (cases n) auto
  have f: "follow [124, 41, 38, 59] y" using a(3) by (rule follow_mono) (auto simp: symbols_def)
  obtain k s1 where k: "parseexec m t s = Ok (k, s1)" "map_cmd (word_text t) k = c" "here t s1 (trim y)"
    using reads_asD [OF assms(2) a(1) _ f, of m] a(2,4) n assms(1) by auto
  obtain s2 where "peek t s1 [124] = (False, s2)" "here t s2 (trim y)"
    using peek_follow [OF k(3) trim_trim a(3), of "[124]"] by auto
  with k n show "\<exists>k s1. parsepipe n t s = Ok (k, s1) \<and> map_cmd (word_text t) k = c \<and> here t s1 (trim y)" by simp
qed

lemma pipe_reads:
  assumes "reads_exec c" "reads_pipe c'"
  shows "reads_pipe (PIPE c c')"
  unfolding reads_as_def
proof (intro allI impI)
  fix t n s x y
  assume a: "here t s x" "trim x = trim (show_cmd (PIPE c c') 2 @ y)" "follow [41, 38, 59] y" "4 * length x + 3 \<le> n"
  let ?y = "show_cmd c' 2 @ y"
  obtain m where n: "n = Suc m" using a(4) by (cases n) auto
  have x: "trim x = trim (show_cmd c 3 @ 124 # ?y)" using a(2) by (simp add: paren_def)
  have "follow [124, 41, 38, 59] (124 # ?y)" by (rule follow_symbol) (simp_all add: symbols_def)
  then obtain k s1 where k: "parseexec m t s = Ok (k, s1)" "map_cmd (word_text t) k = c" "here t s1 (trim (124 # ?y))"
    using reads_asD [OF assms(1) a(1) x, of m] a(4) n by auto
  obtain s2 where p: "peek t s1 [124] = (True, s2)" "here t s2 (124 # ?y)"
    using peek_hit [OF k(3), of 124 ?y "[124]"] by auto
  obtain q e s3 where g: "gettoken t s2 = (124, q, e, s3)" "here t s3 (trim ?y)"
    using gettoken_symbol [OF p(2) trim_other] by auto
  have "4 * length (trim ?y) + 3 \<le> m"
    using a(4) n trim_append_length [of 124 ?y "show_cmd c 3"] x trim_length [of x] trim_length [of ?y] by simp
  then obtain k' s4 where k': "parsepipe m t s3 = Ok (k', s4)" "map_cmd (word_text t) k' = c'" "here t s4 (trim y)"
    using reads_asD [OF assms(2) g(2) trim_trim a(3), of m] by auto
  have "parsepipe n t s = Ok (PIPE k k', s4)" using n k p g k' by simp
  then show "\<exists>k s1. parsepipe n t s = Ok (k, s1) \<and> map_cmd (word_text t) k = PIPE c c' \<and> here t s1 (trim y)"
    using k k' by simp
qed

lemma back_of_pipe:
  assumes "show_cmd c 1 = show_cmd c 2" "reads_pipe c"
  shows "reads_back c"
  unfolding reads_back_def
proof (intro allI impI)
  fix t n s x y
  assume a: "here t s x" "trim x = trim (show_cmd c 1 @ y)" "follow [41, 38, 59] y" "4 * length x + 3 \<le> n"
  obtain k s1 where "parsepipe n t s = Ok (k, s1)" "map_cmd (word_text t) k = c" "here t s1 (trim y)"
    using reads_asD [OF assms(2) a(1) _ a(3,4)] a(2) assms(1) by auto
  then show "\<exists>k0 s0 k s1. parsepipe n t s = Ok (k0, s0) \<and> back_loop t k0 s0 = back_loop t k s1 \<and>
      map_cmd (word_text t) k = c \<and> here t s1 (trim y)" by blast
qed

lemma back_reads:
  assumes "reads_back c"
  shows "reads_back (BACK c)"
  unfolding reads_back_def
proof (intro allI impI)
  fix t n s x y
  assume a: "here t s x" "trim x = trim (show_cmd (BACK c) 1 @ y)" "follow [41, 38, 59] y" "4 * length x + 3 \<le> n"
  have x: "trim x = trim (show_cmd c 1 @ 38 # y)" using a(2) by (simp add: paren_def)
  have f: "follow [41, 38, 59] (38 # y)" by (rule follow_symbol) (simp_all add: symbols_def)
  from reads_backD [OF assms a(1) x f a(4)]
  obtain k0 s0 k s1 where k: "parsepipe n t s = Ok (k0, s0)" "back_loop t k0 s0 = back_loop t k s1"
    "map_cmd (word_text t) k = c" "here t s1 (trim (38 # y))" .
  obtain s2 where p: "peek t s1 [38] = (True, s2)" "here t s2 (38 # y)"
    using peek_hit [OF k(4), of 38 y "[38]"] by auto
  obtain q e s3 where g: "gettoken t s2 = (38, q, e, s3)" "here t s3 (trim y)"
    using gettoken_symbol [OF p(2) trim_other] by auto
  have "back_loop t k s1 = back_loop t (BACK k) s3" using p g by (subst back_loop.simps) simp
  with k g have "back_loop t k0 s0 = back_loop t (BACK k) s3" "map_cmd (word_text t) (BACK k) = BACK c" by simp_all
  then show "\<exists>k0 s0 k s1. parsepipe n t s = Ok (k0, s0) \<and> back_loop t k0 s0 = back_loop t k s1 \<and>
      map_cmd (word_text t) k = BACK c \<and> here t s1 (trim y)" using k(1) g(2) by blast
qed

lemma back_loop_stop:
  assumes "here t s (trim y)" "follow S y" "38 \<notin> set S"
  obtains s1 where "back_loop t k s = (k, s1)" "here t s1 (trim y)"
proof -
  obtain s1 where p: "peek t s [38] = (False, s1)" "here t s1 (trim y)"
    using peek_follow [OF assms(1) trim_trim assms(2), of "[38]"] assms(3) by auto
  then have "back_loop t k s = (k, s1)" by (subst back_loop.simps) simp
  then show ?thesis using p(2) by (rule that)
qed

lemma line_of_back:
  assumes "show_cmd c 0 = show_cmd c 1" "reads_back c"
  shows "reads_line c"
  unfolding reads_as_def
proof (intro allI impI)
  fix t n s x y
  assume a: "here t s x" "trim x = trim (show_cmd c 0 @ y)" "follow [41] y" "4 * length x + 4 \<le> n"
  obtain m where n: "n = Suc m" using a(4) by (cases n) auto
  have f: "follow [41, 38, 59] y" using a(3) by (rule follow_mono) (auto simp: symbols_def)
  have x: "trim x = trim (show_cmd c 1 @ y)" "4 * length x + 3 \<le> m" using a(2,4) assms(1) n by simp_all
  from reads_backD [OF assms(2) a(1) x(1) f x(2)]
  obtain k0 s0 k s1 where k: "parsepipe m t s = Ok (k0, s0)" "back_loop t k0 s0 = back_loop t k s1"
    "map_cmd (word_text t) k = c" "here t s1 (trim y)" .
  obtain s2 where b: "back_loop t k s1 = (k, s2)" "here t s2 (trim y)"
    using back_loop_stop [OF k(4) a(3)] by auto
  obtain s3 where "peek t s2 [59] = (False, s3)" "here t s3 (trim y)"
    using peek_follow [OF b(2) trim_trim a(3), of "[59]"] by auto
  with k b n show "\<exists>k s1. parseline n t s = Ok (k, s1) \<and> map_cmd (word_text t) k = c \<and> here t s1 (trim y)" by simp
qed

lemma list_reads:
  assumes "reads_back c" "reads_line c'"
  shows "reads_line (LIST c c')"
  unfolding reads_as_def
proof (intro allI impI)
  fix t n s x y
  assume a: "here t s x" "trim x = trim (show_cmd (LIST c c') 0 @ y)" "follow [41] y" "4 * length x + 4 \<le> n"
  let ?y = "show_cmd c' 0 @ y"
  obtain m where n: "n = Suc m" using a(4) by (cases n) auto
  have x: "trim x = trim (show_cmd c 1 @ 59 # ?y)" using a(2) by (simp add: paren_def)
  have f: "follow [41, 38, 59] (59 # ?y)" "follow [59] (59 # ?y)" by (rule follow_symbol; simp add: symbols_def)+
  have m: "4 * length x + 3 \<le> m" using a(4) n by simp
  from reads_backD [OF assms(1) a(1) x f(1) m]
  obtain k0 s0 k s1 where k: "parsepipe m t s = Ok (k0, s0)" "back_loop t k0 s0 = back_loop t k s1"
    "map_cmd (word_text t) k = c" "here t s1 (trim (59 # ?y))" .
  obtain s2 where b: "back_loop t k s1 = (k, s2)" "here t s2 (trim (59 # ?y))"
    using back_loop_stop [OF k(4) f(2)] by auto
  obtain s3 where p: "peek t s2 [59] = (True, s3)" "here t s3 (59 # ?y)"
    using peek_hit [OF b(2), of 59 ?y "[59]"] by auto
  obtain q e s4 where g: "gettoken t s3 = (59, q, e, s4)" "here t s4 (trim ?y)"
    using gettoken_symbol [OF p(2) trim_other] by auto
  have "4 * length (trim ?y) + 4 \<le> m"
    using a(4) n trim_append_length [of 59 ?y "show_cmd c 1"] x trim_length [of x] trim_length [of ?y] by simp
  then obtain k' s5 where k': "parseline m t s4 = Ok (k', s5)" "map_cmd (word_text t) k' = c'" "here t s5 (trim y)"
    using reads_asD [OF assms(2) g(2) trim_trim a(3), of m] by auto
  have "parseline n t s = Ok (LIST k k', s5)" using n k b p g k' by simp
  then show "\<exists>k s1. parseline n t s = Ok (k, s1) \<and> map_cmd (word_text t) k = LIST c c' \<and> here t s1 (trim y)"
    using k k' by simp
qed

lemma cmd_reads:
  "cmd_ok c \<Longrightarrow> reads_exec c \<and> reads_pipe c \<and> reads_back c \<and> reads_line c \<and> reads_line (core_of c)"
proof (induction c)
  case (EXEC ws)
  then have "reads_exec (EXEC ws)" by (intro exec_reads) simp_all
  moreover from this have "reads_pipe (EXEC ws)" by (rule pipe_of_exec [rotated]) simp
  moreover from this have "reads_back (EXEC ws)" by (rule back_of_pipe [rotated]) simp
  moreover from this have "reads_line (EXEC ws)" by (rule line_of_back [rotated]) simp
  ultimately show ?case by simp
next
  case (REDIR c w mode fd)
  let ?c = "REDIR c w mode fd"
  have "reads_exec ?c"
  proof (cases "\<exists>ws. core_of c = EXEC ws")
    case True
    then show ?thesis using REDIR(2) by (auto intro: exec_reads)
  next
    case False
    then have "show_cmd (core_of ?c) 3 = 40 # show_cmd (core_of ?c) 0 @ [41]"
      by (induction c) (auto simp: paren_def)
    then show ?thesis using REDIR by (intro block_reads) simp_all
  qed
  moreover from this have "reads_pipe ?c" by (rule pipe_of_exec [rotated]) simp
  moreover from this have "reads_back ?c" by (rule back_of_pipe [rotated]) simp
  moreover from this have "reads_line ?c" by (rule line_of_back [rotated]) simp
  ultimately show ?case using REDIR by simp
next
  case (PIPE c c')
  let ?c = "PIPE c c'"
  have "reads_pipe ?c" using PIPE by (intro pipe_reads) simp_all
  moreover from this have "reads_back ?c" by (rule back_of_pipe [rotated]) (simp add: paren_def)
  moreover from this have "reads_line ?c" by (rule line_of_back [rotated]) (simp add: paren_def)
  moreover from this PIPE(3) have "reads_exec ?c" by (intro block_reads) (simp_all add: paren_def)
  ultimately show ?case by simp
next
  case (LIST c c')
  let ?c = "LIST c c'"
  have l: "reads_line ?c" using LIST by (intro list_reads) simp_all
  with LIST(3) have "reads_exec ?c" by (intro block_reads) (simp_all add: paren_def)
  moreover from this have "reads_pipe ?c" by (rule pipe_of_exec [rotated]) (simp add: paren_def)
  moreover from this have "reads_back ?c" by (rule back_of_pipe [rotated]) (simp add: paren_def)
  ultimately show ?case using l by simp
next
  case (BACK c)
  let ?c = "BACK c"
  have b: "reads_back ?c" using BACK by (intro back_reads) simp
  then have l: "reads_line ?c" by (rule line_of_back [rotated]) (simp add: paren_def)
  with BACK(2) have "reads_exec ?c" by (intro block_reads) (simp_all add: paren_def)
  moreover from this have "reads_pipe ?c" by (rule pipe_of_exec [rotated]) (simp add: paren_def)
  ultimately show ?case using l b by simp
qed

lemma show_cmd_nonzero: "cmd_ok c \<Longrightarrow> 0 \<notin> set (show_cmd c l)"
proof (induction c arbitrary: l)
  case (EXEC ws)
  then show ?case by (auto simp: show_args_def list_all_iff word_ok_def word_char_def)
qed (auto simp: show_redir_def paren_def list_all_iff word_ok_def word_char_def)

text \<open>
  Parsing is inverse to printing: for every command with well-formed words, fewer than \<open>MAXARGS\<close> arguments and
  the three kinds of redirection, the parser applied to the command as typed, with parentheses only where the grammar
  needs them and white space at the end, gives back exactly that command, its words being the strings in the buffer.
\<close>

lemma parse_printed:
  assumes "cmd_ok c" "set y \<subseteq> set whitespace"
  shows "\<exists>k buf. parsecmd (show_cmd c 0 @ y) = Ok (k, buf) \<and> map_cmd (\<lambda>(q, e). string_at buf q) k = c"
proof -
  let ?t = "show_cmd c 0 @ y"
  have y: "trim y = []" using assms(2) by (simp add: trim_def subset_iff)
  then have "brk y" using assms(2) by (cases y) (auto simp: brk_def)
  with y have "here ?t 0 ?t" "trim ?t = trim (show_cmd c 0 @ y)" "follow [41] y"
    by (simp_all add: here_def follow_def symbols_def)
  from reads_asD [OF _ this, of parseline 4 "4 * length ?t + 4"] cmd_reads [OF assms(1)]
  obtain k s1 where k: "parseline (4 * length ?t + 4) ?t 0 = Ok (k, s1)" "map_cmd (word_text ?t) k = c" "here ?t s1 []"
    using y by auto
  have "0 \<notin> set ?t" using show_cmd_nonzero [OF assms(1), of 0] assms(2) by (auto simp: whitespace_def)
  then have "settles (parsed ?t 0) (parseline (4 * length ?t + 4) ?t 0)" by (rule parse_settles) simp
  then have w: "\<forall>w \<in> set_cmd k. word_at ?t w" using k by (simp add: parsed_def)
  have e: "s1 = length ?t" using k(3) by (auto simp: here_def)
  have "skip_white ?t (length ?t) = length ?t" by (subst skip_white.simps) simp
  with e have "peek ?t s1 [] = (False, length ?t)" by (simp add: peek_def Let_def)
  then have "parsecmd ?t = Ok (k, nulterminate k (?t @ [0]))" using k e by (simp add: parsecmd_def)
  moreover have "map_cmd (\<lambda>(q, e). string_at (nulterminate k (?t @ [0])) q) k = map_cmd (word_text ?t) k"
    using nulterminate_string [OF w] by (intro cmd.map_cong refl) auto
  ultimately show ?thesis using k(2) by auto
qed

section \<open>The parser returns, whatever the line\<close>

text \<open>
  C9. Whatever the line, the shell's parser returns: it reports a syntax error or gives a command. Every word of the
  command is then a maximal run of bytes of the line that are neither white space nor symbols, and the zeros that
  \<^verbatim>\<open>nulterminate\<close> stores end each word's string exactly there and damage no other word.
\<close>

theorem parser_returns:
  assumes "0 \<notin> set t"
  shows "(\<exists>msg. parsecmd t = Panic msg) \<or>
    (\<exists>k buf. parsecmd t = Ok (k, buf) \<and> (\<forall>q e. (q, e) \<in> set_cmd k \<longrightarrow> word_at t (q, e) \<and> string_at buf q = word_text t (q, e)))"
proof -
  have "settles (parsed t 0) (parseline (4 * length t + 4) t 0)" by (rule parse_settles [OF assms]) simp
  then have "settles (\<lambda>(k, buf). \<forall>w \<in> set_cmd k. word_at t w \<and> string_at buf (fst w) = word_text t w) (parsecmd t)"
    unfolding parsecmd_def
    by (rule settles_rbind) (auto simp: parsed_def nulterminate_string split: prod.splits)
  then show ?thesis by (cases "parsecmd t") fastforce+
qed

lemma sample_parse:
  "parsecmd [108, 115, 62, 102] = Ok (REDIR (EXEC [(0, 2)]) (3, 4) O_OVERWRITE 1, [108, 115, 0, 102, 0])"
  by code_simp

theorem parser_returns_witness:
  "\<exists>k buf. parsecmd [108, 115, 62, 102] = Ok (k, buf) \<and> (0, 2) \<in> set_cmd k \<and> string_at buf 0 = word_text [108, 115, 62, 102] (0, 2)"
  using parser_returns [of "[108, 115, 62, 102]"] by (simp add: sample_parse)

end
