(* ===== verification/Ulib.thy ===== *)
theory Ulib
  imports Printf
begin

text \<open>
  The library that user programs are linked with (\<^verbatim>\<open>user/ulib.c\<close>, \<^verbatim>\<open>user/printf.c\<close>). As for the kernel's string routines, a
  pointer that is read through is the function of the bytes behind it. Loops that end only at a terminating byte are
  partial functions. What \<^verbatim>\<open>printf\<close> writes is the list of bytes it passes to \<^verbatim>\<open>write\<close> one at a time.
\<close>

section \<open>Definitions\<close>

partial_function (option) strcpy_from :: "nat \<Rightarrow> bytes \<Rightarrow> bytes \<Rightarrow> bytes option" where
  "strcpy_from i s t = (let s = s(i := t i) in if t i \<noteq> 0 then strcpy_from (Suc i) s t else Some s)"

definition strcpy :: "bytes \<Rightarrow> bytes \<Rightarrow> bytes option" where
  "strcpy s t = strcpy_from 0 s t"

partial_function (option) strcmp_from :: "nat \<Rightarrow> bytes \<Rightarrow> bytes \<Rightarrow> int option" where
  "strcmp_from i p q = (if p i \<noteq> 0 \<and> p i = q i then strcmp_from (Suc i) p q else Some (uint (p i) - uint (q i)))"

definition strcmp :: "bytes \<Rightarrow> bytes \<Rightarrow> int option" where
  "strcmp p q = strcmp_from 0 p q"

partial_function (option) u_strlen_from :: "nat \<Rightarrow> bytes \<Rightarrow> nat option" where
  "u_strlen_from n s = (if s n \<noteq> 0 then u_strlen_from (Suc n) s else Some n)"

definition u_strlen :: "bytes \<Rightarrow> nat option" where
  "u_strlen s = u_strlen_from 0 s"

definition u_memset :: "nat \<Rightarrow> mem \<Rightarrow> u64 \<Rightarrow> u8 \<Rightarrow> mem" where
  "u_memset n m dst c = fold (\<lambda>i m. m(dst + of_nat i := c)) [0..<n] m"

text \<open>The offset of the byte found, or \<open>None\<close> for a null pointer.\<close>

partial_function (option) strchr_from :: "nat \<Rightarrow> bytes \<Rightarrow> u8 \<Rightarrow> nat option option" where
  "strchr_from i s c = (if s i = 0 then Some None else if s i = c then Some (Some i) else strchr_from (Suc i) s c)"

definition strchr :: "bytes \<Rightarrow> u8 \<Rightarrow> nat option option" where
  "strchr s c = strchr_from 0 s c"

text \<open>\<^verbatim>\<open>gets\<close> with the bytes still to be read from descriptor 0; it returns the buffer and what is left to read.\<close>

primrec gets_loop :: "nat \<Rightarrow> nat \<Rightarrow> bytes \<Rightarrow> u8 list \<Rightarrow> bytes \<times> u8 list" where
  "gets_loop 0 i buf inp = (buf(i := 0), inp)"
| "gets_loop (Suc n) i buf inp =
     (case inp of
        [] \<Rightarrow> (buf(i := 0), [])
      | c # cs \<Rightarrow> let buf = buf(i := c) in if c = 10 \<or> c = 13 then (buf(Suc i := 0), cs) else gets_loop n (Suc i) buf cs)"

definition gets :: "nat \<Rightarrow> bytes \<Rightarrow> u8 list \<Rightarrow> bytes \<times> u8 list" where
  "gets mx buf inp = gets_loop (mx - 1) 0 buf inp"

partial_function (option) atoi_from :: "nat \<Rightarrow> u32 \<Rightarrow> bytes \<Rightarrow> u32 option" where
  "atoi_from i n s = (if 48 \<le> s i \<and> s i \<le> 57 then atoi_from (Suc i) (n * 10 + ucast (s i) - 48) s else Some n)"

definition atoi :: "bytes \<Rightarrow> int option" where
  "atoi s = map_option sint (atoi_from 0 0 s)"

definition u_memmove :: "mem \<Rightarrow> u64 \<Rightarrow> u64 \<Rightarrow> nat \<Rightarrow> mem" where
  "u_memmove m dst src n =
     (if src > dst then copy_up n m dst src else copy_down n m (dst + of_nat n) (src + of_nat n))"

primrec u_memcmp_from :: "nat \<Rightarrow> nat \<Rightarrow> bytes \<Rightarrow> bytes \<Rightarrow> int" where
  "u_memcmp_from 0 i p1 p2 = 0"
| "u_memcmp_from (Suc n) i p1 p2 = (if p1 i \<noteq> p2 i then uint (p1 i) - uint (p2 i) else u_memcmp_from n (Suc i) p1 p2)"

definition u_memcmp :: "bytes \<Rightarrow> bytes \<Rightarrow> nat \<Rightarrow> int" where
  "u_memcmp s1 s2 n = u_memcmp_from n 0 s1 s2"

definition u_memcpy :: "mem \<Rightarrow> u64 \<Rightarrow> u64 \<Rightarrow> nat \<Rightarrow> mem" where
  "u_memcpy m dst src n = u_memmove m dst src n"

subsection \<open>Formatted output\<close>

definition u_digit :: "nat \<Rightarrow> u8" where
  "u_digit n = str ''0123456789ABCDEF'' ! n"

function u_rev_digits :: "nat \<Rightarrow> nat \<Rightarrow> u8 list" where
  "u_rev_digits base x = u_digit (x mod base) # (if 2 \<le> base \<and> x div base \<noteq> 0 then u_rev_digits base (x div base) else [])"
  by pat_completeness auto

termination u_rev_digits
proof (relation "measure snd")
  fix base x :: nat
  assume "2 \<le> base \<and> x div base \<noteq> 0"
  then have "0 < x" "1 < base" by (auto simp: div_eq_0_iff)
  then show "((base, x div base), (base, x)) \<in> measure snd" by (simp add: div_less_dividend)
qed simp

declare u_rev_digits.simps [simp del]

definition u_printint :: "int \<Rightarrow> nat \<Rightarrow> bool \<Rightarrow> u8 list" where
  "u_printint xx base sign =
     (let neg = (sign \<and> xx < 0); x = (of_int (if neg then - xx else xx) :: u32);
          buf = u_rev_digits base (unat x) @ (if neg then [45] else [])
      in rev buf)"

definition u_printptr :: "u64 \<Rightarrow> u8 list" where
  "u_printptr x = [48, 120] @ map (\<lambda>i. u_digit (unat (drop_bit 60 (push_bit (4 * i) x)))) [0..<16]"

text \<open>
  \<^verbatim>\<open>vprintf\<close>: \<open>pct\<close> is the state after a percent sign. \<open>%l\<close> takes a 64-bit argument, of which \<^verbatim>\<open>printint\<close> gets the
  low 32 bits.
\<close>

fun u_convert :: "u8 \<Rightarrow> parg list \<Rightarrow> (u8 list \<times> parg list) res" where
  "u_convert c args =
     (if c = 100 then (case args of PInt v # as \<Rightarrow> Ok (u_printint v 10 True, as) | _ \<Rightarrow> Fault ''argument'')
      else if c = 108 then (case args of PPtr v # as \<Rightarrow> Ok (u_printint (sint (ucast v :: u32)) 10 False, as) | _ \<Rightarrow> Fault ''argument'')
      else if c = 120 then (case args of PInt v # as \<Rightarrow> Ok (u_printint v 16 False, as) | _ \<Rightarrow> Fault ''argument'')
      else if c = 112 then (case args of PPtr v # as \<Rightarrow> Ok (u_printptr v, as) | _ \<Rightarrow> Fault ''argument'')
      else if c = 115
      then (case args of PStr v # as \<Rightarrow> Ok (case v of None \<Rightarrow> str ''(null)'' | Some t \<Rightarrow> t, as) | _ \<Rightarrow> Fault ''argument'')
      else if c = 99 then (case args of PInt v # as \<Rightarrow> Ok ([of_int v], as) | _ \<Rightarrow> Fault ''argument'')
      else if c = 37 then Ok ([c], args)
      else Ok ([37, c], args))"

fun vprintf :: "bool \<Rightarrow> u8 list \<Rightarrow> parg list \<Rightarrow> u8 list res" where
  "vprintf pct [] args = Ok []"
| "vprintf pct (c # fmt) args =
     (if \<not> pct then if c = 37 then vprintf True fmt args else emit [c] (vprintf False fmt args)
      else rbind (u_convert c args) (\<lambda>(out, args). emit out (vprintf False fmt args)))"

definition u_printf :: "string \<Rightarrow> parg list \<Rightarrow> u8 list res" where
  "u_printf fmt args = vprintf False (str fmt) args"

section \<open>Strings\<close>

text \<open>The string behind a pointer.\<close>

definition is_str :: "bytes \<Rightarrow> u8 list \<Rightarrow> bool" where
  "is_str s cs \<longleftrightarrow> (\<forall>i < length cs. s i = cs ! i \<and> cs ! i \<noteq> 0) \<and> s (length cs) = 0"

lemma u_strlen_spec: "is_str s cs \<Longrightarrow> u_strlen s = Some (length cs)"
proof -
  assume s: "is_str s cs"
  have "u_strlen_from i s = Some (length cs)" if "i \<le> length cs" for i
    using that
  proof (induction "length cs - i" arbitrary: i)
    case 0
    then show ?case using s by (subst u_strlen_from.simps) (simp add: is_str_def)
  next
    case (Suc k)
    then have "i < length cs" "u_strlen_from (Suc i) s = Some (length cs)" by simp_all
    then show ?case using s by (subst u_strlen_from.simps) (simp add: is_str_def)
  qed
  then show ?thesis by (simp add: u_strlen_def)
qed

lemma strcmp_same:
  assumes "is_str p cs" "is_str q cs"
  shows "strcmp p q = Some 0"
proof -
  have "strcmp_from i p q = Some 0" if "i \<le> length cs" for i
    using that
  proof (induction "length cs - i" arbitrary: i)
    case 0
    then show ?case using assms by (subst strcmp_from.simps) (simp add: is_str_def)
  next
    case (Suc k)
    then have "i < length cs" "strcmp_from (Suc i) p q = Some 0" by simp_all
    then show ?case using assms by (subst strcmp_from.simps) (simp add: is_str_def)
  qed
  then show ?thesis by (simp add: strcmp_def)
qed

lemma strcpy_spec:
  assumes t: "is_str t cs"
  shows "strcpy s t = Some (\<lambda>j. if j \<le> length cs then t j else s j)"
proof -
  have "strcpy_from i s t = Some (\<lambda>j. if i \<le> j \<and> j \<le> length cs then t j else s j)" if "i \<le> length cs" for i s
    using that
  proof (induction "length cs - i" arbitrary: i s)
    case 0
    then have "i = length cs" by simp
    then show ?case using t by (subst strcpy_from.simps) (auto simp: is_str_def fun_eq_iff)
  next
    case (Suc k)
    then have i: "i < length cs" by simp
    then have "strcpy_from (Suc i) (s(i := t i)) t = Some (\<lambda>j. if Suc i \<le> j \<and> j \<le> length cs then t j else (s(i := t i)) j)"
      using Suc by simp
    then show ?case using t i by (subst strcpy_from.simps) (auto simp: is_str_def fun_eq_iff)
  qed
  then show ?thesis by (simp add: strcpy_def)
qed

section \<open>Numbers\<close>

lemma decimal_digit: "n < 10 \<Longrightarrow> u_digit n = digit n \<and> 48 \<le> digit n \<and> digit n \<le> 57"
proof -
  assume "n < 10"
  then have "n \<in> set [0..<10]" by simp
  moreover have "\<forall>n \<in> set [0..<10]. u_digit n = digit n \<and> 48 \<le> digit n \<and> digit n \<le> 57" by code_simp
  ultimately show ?thesis by blast
qed

lemma u_rev_digits_decimal: "u_rev_digits 10 x = rev_digits 10 x \<and> (\<forall>c \<in> set (rev_digits 10 x). 48 \<le> c \<and> c \<le> 57)"
proof (induction x rule: less_induct)
  case (less x)
  show ?case
  proof (cases "x div 10 = 0")
    case True
    then show ?thesis using decimal_digit [of "x mod 10"] by (simp add: u_rev_digits.simps [of 10 x] rev_digits.simps [of 10 x])
  next
    case False
    then have "x div 10 < x" by (simp add: div_less_dividend)
    from less [OF this] show ?thesis using decimal_digit [of "x mod 10"] False by (simp add: u_rev_digits.simps [of 10 x] rev_digits.simps [of 10 x])
  qed
qed

lemma atoi_from_spec:
  assumes "\<forall>i < length cs. s i = cs ! i" "\<forall>c \<in> set cs. 48 \<le> c \<and> c \<le> 57" "\<not> (48 \<le> s (length cs) \<and> s (length cs) \<le> 57)"
  shows "atoi_from 0 0 s = Some (of_nat (digits_val 10 (rev cs)))"
proof -
  have "atoi_from i (of_nat (digits_val 10 (rev (take i cs)))) s = Some (of_nat (digits_val 10 (rev cs)))" if "i \<le> length cs" for i
    using that
  proof (induction "length cs - i" arbitrary: i)
    case 0
    then show ?case using assms(3) by (subst atoi_from.simps) auto
  next
    case (Suc k)
    then have i: "i < length cs" by simp
    have c: "48 \<le> cs ! i" "cs ! i \<le> 57" using assms(2) i by auto
    have u: "48 \<le> unat (cs ! i)" "digit_val (cs ! i) = unat (cs ! i) - 48" using c by (auto simp: word_le_nat_alt digit_val_def)
    have "of_nat (unat (cs ! i)) = (ucast (cs ! i) :: u32)" by simp
    then have "(of_nat (digits_val 10 (rev (take i cs))) * 10 + ucast (cs ! i) - 48 :: u32) = of_nat (digits_val 10 (rev (take (Suc i) cs)))"
      using u i by (simp add: take_Suc_conv_app_nth of_nat_diff)
    then show ?case using Suc(1) [of "Suc i"] Suc(2) i c assms(1) by (subst atoi_from.simps) simp
  qed
  from this [of 0] show ?thesis by simp
qed

text \<open>
  C11. Every nonnegative \<^verbatim>\<open>int\<close> that \<^verbatim>\<open>printf\<close> prints with \<open>%d\<close> is read back by \<^verbatim>\<open>atoi\<close>, from any memory in which the printed digits
  are followed by a byte that is not a digit; both loops end.
\<close>

theorem atoi_reads_printf:
  assumes "0 \<le> n" "n < 2 ^ 31"
  shows "\<exists>out. u_printf ''%d'' [PInt n] = Ok out \<and>
    (\<forall>s. (\<forall>i < length out. s i = out ! i) \<and> \<not> (48 \<le> s (length out) \<and> s (length out) \<le> 57) \<longrightarrow> atoi s = Some n)"
proof -
  have u: "unat (of_int n :: u32) = nat n"
  proof -
    have "take_bit 32 n = n" using assms by (simp only: take_bit_int_eq_self_iff) simp
    then show ?thesis by (simp only: unsigned_of_int) simp
  qed
  define cs where "cs = rev (rev_digits 10 (nat n))"
  have out: "u_printf ''%d'' [PInt n] = Ok cs"
    using assms u u_rev_digits_decimal [of "nat n"] by (simp add: u_printf_def str_def emit_def u_printint_def Let_def cs_def)
  have "atoi s = Some n" if s: "\<forall>i < length cs. s i = cs ! i" "\<not> (48 \<le> s (length cs) \<and> s (length cs) \<le> 57)" for s
  proof -
    have "\<forall>c \<in> set cs. 48 \<le> c \<and> c \<le> 57" using u_rev_digits_decimal [of "nat n"] by (auto simp: cs_def)
    from atoi_from_spec [OF s(1) this s(2)] have "atoi s = Some (sint (of_nat (nat n) :: u32))"
      using rev_digits_val [of 10 "nat n"] by (simp add: atoi_def cs_def)
    moreover have "sint (of_nat (nat n) :: u32) = n"
      using assms by (simp only: signed_of_nat) (simp add: signed_take_bit_int_eq_self_iff)
    ultimately show ?thesis by simp
  qed
  with out show ?thesis by blast
qed

theorem atoi_reads_printf_witness: "\<exists>out. u_printf ''%d'' [PInt 2022] = Ok out \<and> atoi (\<lambda>i. (out @ [0]) ! i) = Some 2022"
proof -
  obtain out where out: "u_printf ''%d'' [PInt 2022] = Ok out"
    "\<forall>s. (\<forall>i < length out. s i = out ! i) \<and> \<not> (48 \<le> s (length out) \<and> s (length out) \<le> 57) \<longrightarrow> atoi s = Some 2022"
    using atoi_reads_printf [of 2022] by auto
  then have "atoi (\<lambda>i. (out @ [0]) ! i) = Some 2022" by (simp add: nth_append)
  with out(1) show ?thesis by blast
qed

end
