(* ===== verification/Shrun.thy ===== *)
theory Shrun
  imports Sh Ulib
begin

text \<open>
  The shell's interpreter (\<^verbatim>\<open>user/sh.c\<close>): \<^verbatim>\<open>runcmd\<close>, \<^verbatim>\<open>getcmd\<close> and \<^verbatim>\<open>main\<close>. What a process does is a tree of its forks, waits,
  exec and exit; a descriptor table holds what each descriptor refers to, and \<^verbatim>\<open>open\<close>, \<^verbatim>\<open>dup\<close> and \<^verbatim>\<open>pipe\<close> take the lowest
  free descriptor. Whether the kernel opens a file is a parameter. A failing \<^verbatim>\<open>fork\<close> makes the process exit with status 1
  and a failing \<^verbatim>\<open>exec\<close> with status 0, at the nodes of the tree for them.
\<close>

section \<open>Definitions\<close>

text \<open>What a descriptor refers to. Files and pipes carry the place in the command that made them.\<close>

datatype chan =
  Inherited nat
| Terminal
| Opened "u8 list" int "nat list"
| Pipe_Read "nat list"
| Pipe_Write "nat list"

type_synonym descriptors = "chan option list"

datatype act =
  Exits int
| Execs "u8 list list" descriptors
| Forks act act
| Waits descriptors act

definition fd_put :: "chan \<Rightarrow> descriptors \<Rightarrow> (nat \<times> descriptors) option" where
  "fd_put x fds =
     (let j = length (takeWhile (\<lambda>e. e \<noteq> None) fds) in if j < length fds then Some (j, fds[j := Some x]) else None)"

definition u_close :: "nat \<Rightarrow> descriptors \<Rightarrow> descriptors" where
  "u_close fd fds = fds[fd := None]"

definition u_dup :: "nat \<Rightarrow> descriptors \<Rightarrow> descriptors" where
  "u_dup fd fds =
     (if fd < length fds
      then (case fds ! fd of None \<Rightarrow> fds | Some x \<Rightarrow> (case fd_put x fds of None \<Rightarrow> fds | Some (j, fds) \<Rightarrow> fds))
      else fds)"

definition u_pipe :: "nat list \<Rightarrow> descriptors \<Rightarrow> (nat \<times> nat \<times> descriptors) option" where
  "u_pipe w fds =
     (case fd_put (Pipe_Read w) fds of
        None \<Rightarrow> None
      | Some (p0, fds) \<Rightarrow> (case fd_put (Pipe_Write w) fds of None \<Rightarrow> None | Some (p1, fds) \<Rightarrow> Some (p0, p1, fds)))"

primrec runcmd :: "(u8 list \<Rightarrow> int \<Rightarrow> bool) \<Rightarrow> u8 list cmd \<Rightarrow> nat list \<Rightarrow> descriptors \<Rightarrow> act" where
  "runcmd opens (EXEC argv) w fds = (if argv = [] then Exits 1 else Execs argv fds)"
| "runcmd opens (REDIR c name mode fd) w fds =
     (let fds = u_close (nat fd) fds in
      if opens name mode
      then (case fd_put (Opened name mode w) fds of None \<Rightarrow> Exits 1 | Some (j, fds) \<Rightarrow> runcmd opens c (0 # w) fds)
      else Exits 1)"
| "runcmd opens (PIPE l r) w fds =
     (case u_pipe w fds of
        None \<Rightarrow> Exits 1
      | Some (p0, p1, fds) \<Rightarrow>
          Forks (runcmd opens l (0 # w) (u_close p1 (u_close p0 (u_dup p1 (u_close 1 fds)))))
            (Forks (runcmd opens r (1 # w) (u_close p1 (u_close p0 (u_dup p0 (u_close 0 fds)))))
              (let fds = u_close p1 (u_close p0 fds) in Waits fds (Waits fds (Exits 0)))))"
| "runcmd opens (LIST l r) w fds = Forks (runcmd opens l (0 # w) fds) (Waits fds (runcmd opens r (1 # w) fds))"
| "runcmd opens (BACK c) w fds = Forks (runcmd opens c (0 # w) fds) (Exits 0)"

text \<open>The loop of \<^verbatim>\<open>main\<close> that makes sure three descriptors are open; \<open>ok\<close> says whether the console can be opened.\<close>

definition free_fds :: "descriptors \<Rightarrow> nat" where
  "free_fds fds = length (filter (\<lambda>e. e = None) fds)"

function three_open :: "bool \<Rightarrow> descriptors \<Rightarrow> descriptors" where
  "three_open ok fds =
     (if ok
      then (case fd_put Terminal fds of
              None \<Rightarrow> fds
            | Some (fd, fds) \<Rightarrow> if fd \<ge> 3 then u_close fd fds else three_open ok fds)
      else fds)"
  by pat_completeness auto

lemma fd_put_less:
  assumes "fd_put x fds = Some (j, fds')"
  shows "j < length fds" "fds ! j = None" "fds' = fds[j := Some x]" "\<forall>i < j. fds ! i \<noteq> None"
proof -
  let ?j = "length (takeWhile (\<lambda>e. e \<noteq> None) fds)"
  have j: "j = ?j" "?j < length fds" "fds' = fds[j := Some x]" using assms by (auto simp: fd_put_def Let_def split: if_splits)
  then show "j < length fds" "fds' = fds[j := Some x]" by simp_all
  show "fds ! j = None" using nth_length_takeWhile [of "\<lambda>e. e \<noteq> None" fds] j by simp
  show "\<forall>i < j. fds ! i \<noteq> None" using j nth_mem takeWhile_nth [of _ "\<lambda>e. e \<noteq> None" fds]
    by (metis (mono_tags, lifting) set_takeWhileD)
qed

lemma free_fds_update:
  "j < length fds \<Longrightarrow> free_fds (fds[j := e]) + (if fds ! j = None then 1 else 0) = free_fds fds + (if e = None then 1 else 0)"
proof (induction fds arbitrary: j)
  case (Cons a fds)
  show ?case
  proof (cases j)
    case 0
    then show ?thesis by (simp add: free_fds_def)
  next
    case (Suc i)
    have "free_fds (b # xs) = (if b = None then 1 else 0) + free_fds xs" for b :: "chan option" and xs
      by (simp add: free_fds_def)
    with Suc Cons.IH [of i] Cons.prems show ?thesis by (simp split del: if_split)
  qed
qed simp

termination three_open
proof (relation "measure (\<lambda>(ok, fds). free_fds fds)")
  fix ok fds x fd fds'
  assume "fd_put Terminal fds = Some x" "(fd, fds') = x"
  then have "fd_put Terminal fds = Some (fd, fds')" by simp
  from fd_put_less [OF this] free_fds_update [of fd fds "Some Terminal"]
  show "((ok, fds'), (ok, fds)) \<in> measure (\<lambda>(ok, fds). free_fds fds)" by simp
qed simp

declare three_open.simps [simp del]

text \<open>\<^verbatim>\<open>getcmd\<close>: the line in the buffer of 100 bytes, unless the input is at its end, and the rest of the input.\<close>

definition getcmd :: "u8 list \<Rightarrow> (u8 list \<times> u8 list) option" where
  "getcmd inp =
     (case gets 100 (\<lambda>_. 0) inp of
        (buf, inp) \<Rightarrow> if buf 0 = 0 then None else Some (takeWhile (\<lambda>c. c \<noteq> 0) (map buf [0..<100]), inp))"

datatype shell_act = Chdirs "u8 list" | Runs act

lemma gets_loop_rest: "length (snd (gets_loop n i buf inp)) \<le> length inp"
  by (induction n arbitrary: i buf inp) (auto simp: Let_def le_Suc_eq split: list.splits)

lemma gets_loop_none: "length (snd (gets_loop n i buf inp)) = length inp \<Longrightarrow> fst (gets_loop n i buf inp) i = 0"
proof (cases n)
  case (Suc m)
  moreover assume "length (snd (gets_loop n i buf inp)) = length inp"
  ultimately show ?thesis using gets_loop_rest [of m "Suc i" "buf(i := hd inp)" "tl inp"]
    by (cases inp) (auto simp: Let_def split: if_splits)
qed simp

lemma getcmd_rest:
  assumes "getcmd inp = Some (l, rest)"
  shows "length rest < length inp"
proof -
  obtain buf where g: "gets_loop 99 0 (\<lambda>_. 0) inp = (buf, rest)" "buf 0 \<noteq> 0"
    using assms by (auto simp: getcmd_def gets_def split: if_splits prod.splits)
  then have "length rest \<noteq> length inp" using gets_loop_none [of 99 0 "\<lambda>_. 0" inp] by auto
  then show ?thesis using gets_loop_rest [of 99 0 "\<lambda>_. 0" inp] g by simp
qed

text \<open>The loop of \<^verbatim>\<open>main\<close> over the lines: what the shell does with its input. A line that does not parse makes the forked process exit.\<close>

function sh_loop :: "(u8 list \<Rightarrow> int \<Rightarrow> bool) \<Rightarrow> descriptors \<Rightarrow> u8 list \<Rightarrow> shell_act list" where
  "sh_loop opens fds inp =
     (case getcmd inp of
        None \<Rightarrow> []
      | Some (line, inp) \<Rightarrow>
          (if take 3 line = [99, 100, 32] then Chdirs (drop 3 (butlast line))
           else Runs (case parsecmd line of
                        Ok (k, buf) \<Rightarrow> runcmd opens (map_cmd (\<lambda>(q, e). string_at buf q) k) [] fds
                      | _ \<Rightarrow> Exits 1)) # sh_loop opens fds inp)"
  by pat_completeness auto

termination sh_loop
  by (relation "measure (\<lambda>(opens, fds, inp). length inp)") (auto dest: getcmd_rest)

declare sh_loop.simps [simp del]

definition sh_main :: "bool \<Rightarrow> (u8 list \<Rightarrow> int \<Rightarrow> bool) \<Rightarrow> descriptors \<Rightarrow> u8 list \<Rightarrow> shell_act list" where
  "sh_main ok opens fds inp = sh_loop opens (three_open ok fds) inp"

section \<open>What a command means\<close>

text \<open>
  The meaning of a command on the descriptors: a redirection replaces its descriptor, a pipe replaces the output of the
  left side and the input of the right side, and everything else is passed on unchanged.
\<close>

primrec plan :: "(u8 list \<Rightarrow> int \<Rightarrow> bool) \<Rightarrow> u8 list cmd \<Rightarrow> nat list \<Rightarrow> descriptors \<Rightarrow> act" where
  "plan opens (EXEC argv) w fds = (if argv = [] then Exits 1 else Execs argv fds)"
| "plan opens (REDIR c name mode fd) w fds =
     (if opens name mode then plan opens c (0 # w) (fds[nat fd := Some (Opened name mode w)]) else Exits 1)"
| "plan opens (PIPE l r) w fds =
     Forks (plan opens l (0 # w) (fds[1 := Some (Pipe_Write w)]))
       (Forks (plan opens r (1 # w) (fds[0 := Some (Pipe_Read w)])) (Waits fds (Waits fds (Exits 0))))"
| "plan opens (LIST l r) w fds = Forks (plan opens l (0 # w) fds) (Waits fds (plan opens r (1 # w) fds))"
| "plan opens (BACK c) w fds = Forks (plan opens c (0 # w) fds) (Exits 0)"

text \<open>The descriptors the shell relies on: standard input and output open, and room for a pipe.\<close>

definition low_fds :: "descriptors \<Rightarrow> bool" where
  "low_fds fds \<longleftrightarrow> 1 < length fds \<and> fds ! 0 \<noteq> None \<and> fds ! 1 \<noteq> None"

definition std_fds :: "descriptors \<Rightarrow> bool" where
  "std_fds fds \<longleftrightarrow> low_fds fds \<and> 2 \<le> free_fds fds"

lemma low_fds_update:
  assumes "low_fds fds"
  shows "low_fds (fds[fd := Some x])"
proof -
  have u: "fds[fd := Some x] ! i \<noteq> None" if "i < length fds" "fds ! i \<noteq> None" for i
    using that by (cases "fd = i") simp_all
  have "0 < length fds" using assms by (auto simp: low_fds_def)
  then show ?thesis using assms u [of 0] u [of 1] by (simp add: low_fds_def)
qed

lemma std_fds_update:
  assumes "std_fds fds" "fd < 2"
  shows "std_fds (fds[fd := Some x])"
proof -
  have "fd < length fds" "fds ! fd \<noteq> None" using assms by (auto simp: std_fds_def low_fds_def less_2_cases_iff)
  then show ?thesis using assms free_fds_update [of fd fds "Some x"] by (auto simp: std_fds_def low_fds_update)
qed

lemma fd_put_at:
  assumes "j < length fds" "fds ! j = None" "\<forall>i < j. fds ! i \<noteq> None"
  shows "fd_put x fds = Some (j, fds[j := Some x])"
proof -
  have "takeWhile (\<lambda>e. e \<noteq> None) fds = take j fds" using assms by (intro takeWhile_eq_take_P_nth) auto
  then show ?thesis using assms by (simp add: fd_put_def Let_def)
qed

lemma put_after_close:
  assumes "low_fds fds" "fd < 2"
  shows "fd_put x (u_close fd fds) = Some (fd, fds[fd := Some x])"
proof -
  have "fd < length fds" "\<forall>i < fd. fds ! i \<noteq> None" using assms by (auto simp: low_fds_def less_2_cases_iff)
  then have "fd_put x (fds[fd := None]) = Some (fd, (fds[fd := None])[fd := Some x])" by (intro fd_put_at) auto
  then show ?thesis by (simp add: u_close_def)
qed

lemma fd_put_free:
  assumes "0 < free_fds fds"
  obtains j where "fd_put x fds = Some (j, fds[j := Some x])" "j < length fds" "fds ! j = None"
proof -
  have "\<exists>e \<in> set fds. \<not> e \<noteq> None" using assms by (auto simp: free_fds_def filter_empty_conv)
  then have "takeWhile (\<lambda>e. e \<noteq> None) fds \<noteq> fds" by (auto simp: takeWhile_eq_all_conv)
  then have "length (takeWhile (\<lambda>e. e \<noteq> None) fds) < length fds"
    by (metis le_neq_implies_less length_takeWhile_le order_refl take_all takeWhile_eq_take)
  then obtain j where "fd_put x fds = Some (j, fds[j := Some x])" by (simp add: fd_put_def Let_def)
  then show ?thesis using fd_put_less that by blast
qed

lemma u_pipe_std:
  assumes "std_fds fds"
  obtains p0 p1 where "u_pipe w fds = Some (p0, p1, fds[p0 := Some (Pipe_Read w), p1 := Some (Pipe_Write w)])"
    "1 < p0" "1 < p1" "p0 < length fds" "p1 < length fds" "p0 \<noteq> p1" "fds ! p0 = None" "fds ! p1 = None"
proof -
  have f: "0 < free_fds fds" "2 \<le> free_fds fds" "low_fds fds" using assms by (simp_all add: std_fds_def)
  obtain p0 where p0: "fd_put (Pipe_Read w) fds = Some (p0, fds[p0 := Some (Pipe_Read w)])" "p0 < length fds" "fds ! p0 = None"
    by (rule fd_put_free [OF f(1)])
  let ?f = "fds[p0 := Some (Pipe_Read w)]"
  have "0 < free_fds ?f" using free_fds_update [OF p0(2), of "Some (Pipe_Read w)"] p0 f by simp
  then obtain p1 where p1: "fd_put (Pipe_Write w) ?f = Some (p1, ?f[p1 := Some (Pipe_Write w)])" "p1 < length ?f" "?f ! p1 = None"
    by (rule fd_put_free)
  have ne: "p0 \<noteq> p1" using p1 p0 by auto
  have gt: "1 < p" if "fds ! p = None" for p
    using f(3) that by (cases "p = 0"; cases "p = 1") (auto simp: low_fds_def)
  show ?thesis
    by (rule that [of p0 p1]) (use p0 p1 ne gt in \<open>auto simp: u_pipe_def\<close>)
qed

text \<open>A child of a pipe closes its end of the table, duplicates the pipe there and closes both descriptors of the pipe.\<close>

lemma pipe_child:
  assumes "low_fds fds" "1 < p0" "1 < p1" "p0 < length fds" "p1 < length fds" "p0 \<noteq> p1" "fds ! p0 = None" "fds ! p1 = None"
    and "fd < 2" "p = p0 \<and> x = a \<or> p = p1 \<and> x = b"
  shows "u_close p1 (u_close p0 (u_dup p (u_close fd (fds[p0 := Some a, p1 := Some b])))) = fds[fd := Some x]"
proof -
  let ?f = "fds[p0 := Some a, p1 := Some b]"
  have "u_close fd ?f ! p = Some x" "p < length (u_close fd ?f)"
    using assms by (auto simp: u_close_def nth_list_update)
  then have "u_dup p (u_close fd ?f) = ?f[fd := Some x]"
    using put_after_close [of ?f fd x] assms by (simp add: u_dup_def low_fds_update)
  moreover have "(?f[fd := Some x])[p0 := None, p1 := None] = fds[fd := Some x]"
    by (rule nth_equalityI) (use assms in \<open>auto simp: nth_list_update\<close>)
  ultimately show ?thesis by (simp add: u_close_def)
qed

lemma runcmd_plan: "cmd_ok c \<Longrightarrow> std_fds fds \<Longrightarrow> runcmd opens c w fds = plan opens c w fds"
proof (induction c arbitrary: w fds)
  case (REDIR c name mode fd)
  then have fd: "nat fd < 2" by auto
  then show ?case
    using REDIR put_after_close [of fds "nat fd"] std_fds_update [OF REDIR(3) fd] by (auto simp: std_fds_def Let_def)
next
  case (PIPE l r)
  from u_pipe_std [OF PIPE(4), of w]
  obtain p0 p1 where p: "u_pipe w fds = Some (p0, p1, fds[p0 := Some (Pipe_Read w), p1 := Some (Pipe_Write w)])"
    and q: "1 < p0" "1 < p1" "p0 < length fds" "p1 < length fds" "p0 \<noteq> p1" "fds ! p0 = None" "fds ! p1 = None" .
  have low: "low_fds fds" using PIPE(4) by (simp add: std_fds_def)
  let ?f = "fds[p0 := Some (Pipe_Read w), p1 := Some (Pipe_Write w)]"
  have l: "u_close p1 (u_close p0 (u_dup p1 (u_close 1 ?f))) = fds[1 := Some (Pipe_Write w)]"
    by (rule pipe_child [OF low q]) auto
  have r: "u_close p1 (u_close p0 (u_dup p0 (u_close 0 ?f))) = fds[0 := Some (Pipe_Read w)]"
    by (rule pipe_child [OF low q]) auto
  have "u_close p1 (u_close p0 ?f) = fds"
    unfolding u_close_def by (rule nth_equalityI) (use q in \<open>auto simp: nth_list_update\<close>)
  moreover have "std_fds (fds[1 := Some (Pipe_Write w)])" "std_fds (fds[0 := Some (Pipe_Read w)])"
    by (rule std_fds_update [OF PIPE(4)], simp)+
  ultimately show ?case using PIPE p l r by (simp add: Let_def)
qed auto

lemma gets_loop_line:
  "\<lbrakk>length l < n; 10 \<notin> set l; 13 \<notin> set l\<rbrakk> \<Longrightarrow>
   \<exists>buf'. gets_loop n i buf (l @ 10 # rest) = (buf', rest) \<and> (\<forall>k < Suc (length l). buf' (i + k) = (l @ [10]) ! k) \<and>
     buf' (i + Suc (length l)) = 0 \<and> (\<forall>j < i. buf' j = buf j)"
proof (induction l arbitrary: n i buf)
  case Nil
  then obtain m where n: "n = Suc m" by (cases n) auto
  then show ?case by simp
next
  case (Cons c l)
  then obtain m where n: "n = Suc m" by (cases n) auto
  have "\<exists>buf'. gets_loop m (Suc i) (buf(i := c)) (l @ 10 # rest) = (buf', rest) \<and>
      (\<forall>k < Suc (length l). buf' (Suc i + k) = (l @ [10]) ! k) \<and> buf' (Suc i + Suc (length l)) = 0 \<and> (\<forall>j < Suc i. buf' j = (buf(i := c)) j)"
    using Cons.prems n by (intro Cons.IH) auto
  then obtain buf' where b: "gets_loop m (Suc i) (buf(i := c)) (l @ 10 # rest) = (buf', rest)"
    "\<forall>k < Suc (length l). buf' (Suc i + k) = (l @ [10]) ! k" "buf' (Suc i + Suc (length l)) = 0" "\<forall>j < Suc i. buf' j = (buf(i := c)) j"
    by blast
  have "buf' (i + k) = ((c # l) @ [10]) ! k" if "k < Suc (length (c # l))" for k
    using b(2,4) that by (cases k) auto
  moreover have "gets_loop n i buf ((c # l) @ 10 # rest) = (buf', rest)" using b(1) n Cons.prems by (auto simp: Let_def)
  moreover have "buf' (i + Suc (length (c # l))) = 0" "\<forall>j < i. buf' j = buf j" using b(3,4) by simp_all
  ultimately show ?case by blast
qed

lemma buffer_line:
  fixes l :: "u8 list"
  assumes "Suc (length l) < n" "\<forall>k < Suc (length l). buf k = (l @ [10]) ! k" "buf (Suc (length l)) = 0" "0 \<notin> set l"
  shows "takeWhile (\<lambda>c. c \<noteq> 0) (map buf [0..<n]) = l @ [10]"
proof -
  have nz: "(l @ [10]) ! k \<noteq> 0" if "k < Suc (length l)" for k
    using assms(4) nth_mem [of k "l @ [10]"] that by auto
  have "takeWhile (\<lambda>c. c \<noteq> 0) (map buf [0..<n]) = take (Suc (length l)) (map buf [0..<n])"
    using assms nz by (intro takeWhile_eq_take_P_nth) auto
  also have "\<dots> = l @ [10]" using assms by (intro nth_equalityI) auto
  finally show ?thesis .
qed

lemma getcmd_line:
  assumes "length l < 99" "0 \<notin> set l" "10 \<notin> set l" "13 \<notin> set l"
  shows "getcmd (l @ 10 # rest) = Some (l @ [10], rest)"
proof -
  obtain buf where b: "gets_loop 99 0 (\<lambda>_. 0) (l @ 10 # rest) = (buf, rest)"
    "\<forall>k < Suc (length l). buf k = (l @ [10]) ! k" "buf (Suc (length l)) = 0"
    using gets_loop_line [of l 99 0 "\<lambda>_. 0" rest] assms by auto
  have g: "gets 100 (\<lambda>_. 0) (l @ 10 # rest) = (buf, rest)" using b(1) by (simp add: gets_def)
  have "buf 0 \<noteq> 0" using b(2) assms(2) by (cases l) auto
  moreover have "takeWhile (\<lambda>c. c \<noteq> 0) (map buf [0..<100]) = l @ [10]"
    using assms by (intro buffer_line b(2,3)) simp_all
  ultimately show ?thesis unfolding getcmd_def g by (simp only: case_prod_conv if_False)
qed

lemma show_cmd_plain: "cmd_ok c \<Longrightarrow> 10 \<notin> set (show_cmd c l) \<and> 13 \<notin> set (show_cmd c l)"
proof (induction c arbitrary: l)
  case (EXEC ws)
  then show ?case by (auto simp: show_args_def list_all_iff word_ok_def word_char_def whitespace_def)
qed (auto simp: show_redir_def paren_def list_all_iff word_ok_def word_char_def whitespace_def)


lemma show_cmd_head: "cmd_ok c \<Longrightarrow> show_cmd c l = [] \<or> hd (show_cmd c l) \<in> {32, 38, 40, 59, 60, 62, 124}"
proof (induction c arbitrary: l)
  case (EXEC ws)
  then show ?case by (cases ws) (simp_all add: show_args_def)
next
  case (REDIR c w mode fd)
  then show ?case using REDIR(1) [of 3] by (auto simp: show_redir_def hd_append)
next
  case (PIPE c c')
  then show ?case using PIPE(1) [of 3] by (auto simp: paren_def hd_append)
next
  case (LIST c c')
  then show ?case using LIST(1) [of 1] by (auto simp: paren_def hd_append)
next
  case (BACK c)
  then show ?case using BACK(1) [of 1] by (auto simp: paren_def hd_append)
qed

text \<open>The three descriptors that \<^verbatim>\<open>main\<close> opens make the shell start with such a table.\<close>

lemma free_fds_drop: "free_fds (drop n fds) \<le> free_fds fds"
  by (subst append_take_drop_id [of n fds, symmetric]) (simp only: free_fds_def filter_append length_append)

lemma three_open_std:
  "ok \<Longrightarrow> 3 < length fds \<Longrightarrow> 2 \<le> free_fds (drop 3 fds) \<Longrightarrow> std_fds (three_open ok fds) \<and> drop 3 (three_open ok fds) = drop 3 fds"
proof (induction ok fds rule: three_open.induct)
  case (1 ok fds)
  have f: "0 < free_fds fds" "2 \<le> free_fds fds" using 1(4) free_fds_drop [of 3 fds] by simp_all
  obtain j where j: "fd_put Terminal fds = Some (j, fds[j := Some Terminal])" "j < length fds" "fds ! j = None"
    by (rule fd_put_free [OF f(1)])
  show ?case
  proof (cases "3 \<le> j")
    case True
    have "\<forall>i < j. fds ! i \<noteq> None" using fd_put_less(4) [OF j(1)] .
    then have "low_fds fds" using True 1(3) by (auto simp: low_fds_def)
    moreover have "three_open ok fds = fds"
      using j True 1(2) by (subst three_open.simps) (simp add: u_close_def list_update_same_conv)
    ultimately show ?thesis using f by (simp add: std_fds_def)
  next
    case False
    then have d: "drop 3 (fds[j := Some Terminal]) = drop 3 fds" by simp
    have "three_open ok fds = three_open ok (fds[j := Some Terminal])" using j False 1(2) by (subst three_open.simps) simp
    then show ?thesis using 1(1) [OF 1(2) j(1) refl False 1(2)] 1(3,4) d by simp
  qed
qed

section \<open>Typed commands are run\<close>



end
