(* ===== verification/Spec2Isabelle.thy ===== *)
theory Spec2Isabelle
  imports Cow Pipe Console Sleep Sched Bio Transaction Trap Descriptors Virtio Grep Umalloc Shrun
begin

text \<open>
  A verification development for the xv6 RISC-V operating system of this repository: the kernel with its extensions
  (copy-on-write fork, reference-counted pages, five scheduling policies, system call tracing, alarms, \<^verbatim>\<open>waitx\<close>) and the
  parts of the user land that are more than sequences of system calls. File names below are relative to \<^verbatim>\<open>src/\<close>.

  \<^bold>\<open>Conventions.\<close> C functions are HOL functions of the same name on explicit state. A routine that can fail returns a
  \<open>res\<close>: \<open>Ok\<close> with the result, \<open>Panic\<close> for \<^verbatim>\<open>panic\<close>, \<open>Blocked\<close> for going to sleep where nobody in the same
  sequential run can wake it, \<open>Fault\<close> for what C leaves undefined (a null pointer, an index out of range, division by
  zero). Error returns of the code are values. Machine integers are words where they can wrap. Pointers into tables are
  indices; physical memory is one map from addresses to bytes, so that page tables and the free list live in it as in
  the code. Concurrency is a step relation whose steps are the pieces of code between two points where the lock is
  given up, with invariants shown for every reachable state.

  \<^bold>\<open>Foundations.\<close> \<^verbatim>\<open>Prelude\<close>: results, scans of tables, little-endian encodings, list and word lemmas. \<^verbatim>\<open>Riscv\<close>:
  \<^verbatim>\<open>kernel/riscv.h\<close> and \<^verbatim>\<open>kernel/memlayout.h\<close>. \<^verbatim>\<open>Memory\<close>: \<^verbatim>\<open>kernel/string.c\<close>, overlap of \<^verbatim>\<open>memmove\<close> included. \<^verbatim>\<open>Ring\<close>: ring buffers
  with wrapping counters and the locale \<^verbatim>\<open>bounded_fifo\<close>, interpreted by the pipe and the transmit buffer.

  \<^bold>\<open>Memory.\<close> \<^verbatim>\<open>Kalloc\<close>: \<^verbatim>\<open>kernel/kalloc.c\<close>; the free list holds each free page once, a page goes back with its last
  reference; the locale \<^verbatim>\<open>page_allocator\<close> is what the virtual memory code relies on. \<^verbatim>\<open>Vm\<close>: \<^verbatim>\<open>kernel/vm.c\<close>. \<^verbatim>\<open>Addrspace\<close>: the
  meaning of a page table and how \<^verbatim>\<open>walk\<close>, \<^verbatim>\<open>mappages\<close> and \<^verbatim>\<open>uvmunmap\<close> change it, exactly in their range. \<^verbatim>\<open>Usercopy\<close>:
  \<^verbatim>\<open>copyout\<close>, \<^verbatim>\<open>copyin\<close>, \<^verbatim>\<open>copyinstr\<close>. \<^verbatim>\<open>Cow\<close>: \<^verbatim>\<open>uvmcopy\<close> and \<^verbatim>\<open>handleCOW\<close>; parent and child are isolated after a fork as far as
  their own stores go, and \<^verbatim>\<open>copyout\<close> breaks this.

  \<^bold>\<open>Processes.\<close> \<^verbatim>\<open>Locks\<close>: spin locks among any number of processors, interrupt nesting. \<^verbatim>\<open>Proc\<close>, \<^verbatim>\<open>Process\<close>: the
  process table, fork, exit, wait, \<^verbatim>\<open>waitx\<close>. \<^verbatim>\<open>Sleep\<close>: \<^verbatim>\<open>sleep\<close> and \<^verbatim>\<open>wakeup\<close> lock by lock (no wakeup is lost) under the locale
  \<^verbatim>\<open>sleep_client\<close>, which the sleep locks interpret. \<^verbatim>\<open>Sched\<close>: the five policies; FCFS and
  PBS share the locale \<^verbatim>\<open>preference\<close>. \<^verbatim>\<open>Exec\<close>: \<^verbatim>\<open>kernel/exec.c\<close>. \<^verbatim>\<open>Trap\<close>: \<^verbatim>\<open>kernel/trap.c\<close>.

  \<^bold>\<open>Devices.\<close> \<^verbatim>\<open>Uart\<close>, \<^verbatim>\<open>Console\<close>, \<^verbatim>\<open>Printf\<close>: the serial line, the line discipline (a refinement of two queues) and formatted
  output. \<^verbatim>\<open>Virtio\<close>: the disk driver with its rings and descriptor chains, among processes, interrupts and the device. \<^verbatim>\<open>Pipe\<close>:
  \<^verbatim>\<open>kernel/pipe.c\<close>; bytes stay in order and reader and writer never sleep together.

  \<^bold>\<open>File system.\<close> \<^verbatim>\<open>Blocks\<close> is the block layer that \<^verbatim>\<open>Bio\<close> (\<^verbatim>\<open>kernel/bio.c\<close>) refines. \<^verbatim>\<open>Log\<close>: \<^verbatim>\<open>kernel/log.c\<close>; commit is atomic under
  crashes and so is recovery itself. \<^verbatim>\<open>Balloc\<close>, \<^verbatim>\<open>Inode\<close>, \<^verbatim>\<open>Filedata\<close>, \<^verbatim>\<open>Dir\<close>: \<^verbatim>\<open>kernel/fs.c\<close> from block allocation to path
  names; reading and writing go through the locales \<^verbatim>\<open>byte_sink\<close> and \<^verbatim>\<open>byte_source\<close>, interpreted for user memory and for
  kernel buffers. \<^verbatim>\<open>Transaction\<close> composes them: a write to a file survives a crash completely or not at all.

  \<^bold>\<open>System calls.\<close> \<^verbatim>\<open>File\<close> has the state \<open>ksys\<close> of the whole kernel and \<^verbatim>\<open>kernel/file.c\<close>; \<^verbatim>\<open>Args\<close>, \<^verbatim>\<open>Sysfile\<close>, \<^verbatim>\<open>Syscall\<close> are
  \<^verbatim>\<open>kernel/syscall.c\<close>, \<^verbatim>\<open>kernel/sysfile.c\<close> and \<^verbatim>\<open>kernel/sysproc.c\<close>. \<^verbatim>\<open>Frame\<close> is a calculus for what calls leave alone, with the
  locales \<^verbatim>\<open>quiet\<close> and \<^verbatim>\<open>quiet_proc\<close>; \<^verbatim>\<open>Descriptors\<close> interprets them to show that every system call keeps the reference
  counts of open files equal to the number of descriptors.

  \<^bold>\<open>User land.\<close> \<^verbatim>\<open>Ulib\<close>: \<^verbatim>\<open>user/ulib.c\<close>, \<^verbatim>\<open>user/printf.c\<close>. \<^verbatim>\<open>Umalloc\<close>: \<^verbatim>\<open>user/umalloc.c\<close>; \<^verbatim>\<open>malloc\<close> and \<^verbatim>\<open>free\<close> return and keep
  blocks apart. \<^verbatim>\<open>Grep\<close>: \<^verbatim>\<open>user/grep.c\<close> against a reference meaning of patterns. \<^verbatim>\<open>Sh\<close>, \<^verbatim>\<open>Shrun\<close>: \<^verbatim>\<open>user/sh.c\<close>; the parser
  returns on every line and inverts printing, and a typed command is run as the grammar means it.

  \<^bold>\<open>Bounds and fuel.\<close> \<^verbatim>\<open>freerange\<close> takes fuel, and \<open>kinit_free_list\<close> shows that what \<^verbatim>\<open>kinit\<close> passes is enough. The shell's
  parser takes a bound on the depth of its calls, four for each byte of the line and four more: between two bytes taken
  at most the four routines call each other, and \<open>parser_returns\<close> shows that the bound is never reached. Loops over a
  device register, over a string without an end or over the circular list of \<^verbatim>\<open>malloc\<close> are partial functions with \<open>None\<close>
  for running forever, and the theorems show that they return under stated conditions. All other loops are total
  functions with proved termination.

  \<^bold>\<open>Outside the sources\<close> and therefore parameters: the UART's register values, what the interrupt controller reports,
  the addresses the linker assigns, the sizes of the pieces that a read delivers, whether \<^verbatim>\<open>sbrk\<close> grants memory and
  whether a file can be opened by the shell. The virtio device takes the steps its standard describes. Memory is
  sequentially consistent.

  \<^bold>\<open>Not modelled.\<close> Assembly (\<^verbatim>\<open>kernel/*.S\<close>, the register accessors of \<^verbatim>\<open>kernel/riscv.h\<close>) and the context switch, for which
  there is no machine model here. Boot (\<^verbatim>\<open>kernel/start.c\<close>, \<^verbatim>\<open>kernel/main.c\<close>) and the interrupt controller (\<^verbatim>\<open>kernel/plic.c\<close>),
  which only write hardware registers and call the initialisation routines. \<^verbatim>\<open>kernel/ramdisk.c\<close>, which is not linked.
  \<^verbatim>\<open>mkfs/mkfs.c\<close>, a host program; the layout it writes is a hypothesis of the file system lemmas. The test programs and
  the small utilities under \<^verbatim>\<open>user/\<close>, which chain system calls and print what they return.
\<close>

end
